(* ===== verification/Prelude.thy ===== *)
theory Prelude
  imports Main "HOL-Library.Word" "HOL-Library.Multiset"
begin

text \<open>
  Shared vocabulary of the development: the errors the modelled TypeScript code throws, the
  result type of code that may throw, JavaScript's array and string accesses with their
  out-of-range behaviour written out, the 32-bit conversion \<open>x | 0\<close>, and the generic lemmas the
  component theories use.

  JavaScript numbers that hold line numbers, columns, offsets and counts are modelled as \<open>int\<close>:
  they are integers far below \<open>2 ^ 53\<close>, where doubles are exact.  Where the code truncates to 32
  bits (\<open>x | 0\<close>, \<open>Uint32Array\<close>) the wrap-around is modelled.
\<close>

named_theorems range_defs \<open>definitions of the range predicates, for arithmetic proofs\<close>

section \<open>Errors and results\<close>

text \<open>One constructor per kind of exception the modelled code throws.\<close>

datatype js_error =
    BugIndicatingError
  | InvalidListError
  | ModifiedDuringIterationError
  | WeakerPredicateError
  | JsTypeError
  | IllegalArgumentError
  | ParseError
  | RangeError

type_synonym 'a result = "js_error + 'a"

text \<open>Sequencing: an exception skips the rest of the function body.\<close>

fun rbind :: "'a result \<Rightarrow> ('a \<Rightarrow> 'b result) \<Rightarrow> 'b result" where
  "rbind (Inl e) f = Inl e"
| "rbind (Inr x) f = f x"

lemma rbind_Inr_iff [simp]: "rbind m f = Inr y \<longleftrightarrow> (\<exists>x. m = Inr x \<and> f x = Inr y)"
  by (cases m) auto

lemma rbind_cong [fundef_cong]:
  "m = m' \<Longrightarrow> (\<And>x. m' = Inr x \<Longrightarrow> f x = g x) \<Longrightarrow> rbind m f = rbind m' g"
  by (cases m') auto

lemma rbind_return [simp]: "rbind m Inr = m"
  by (cases m) auto

text \<open>\<open>for (const x of xs) ys.push(f(x))\<close> where \<open>f\<close> may throw.\<close>

fun rmap :: "('a \<Rightarrow> 'b result) \<Rightarrow> 'a list \<Rightarrow> 'b list result" where
  "rmap f [] = Inr []"
| "rmap f (x # xs) = rbind (f x) (\<lambda>y. rbind (rmap f xs) (\<lambda>ys. Inr (y # ys)))"

lemma rmap_pure: "(\<And>x. x \<in> set xs \<Longrightarrow> f x = Inr (g x)) \<Longrightarrow> rmap f xs = Inr (map g xs)"
  by (induction xs) auto

text \<open>A loop that folds a state over a list, where a step may throw.\<close>

fun rfold :: "('a \<Rightarrow> 's \<Rightarrow> 's result) \<Rightarrow> 'a list \<Rightarrow> 's \<Rightarrow> 's result" where
  "rfold f [] s = Inr s"
| "rfold f (x # xs) s = rbind (f x s) (rfold f xs)"

lemma rfold_append: "rfold f (xs @ ys) s = rbind (rfold f xs s) (rfold f ys)"
proof (induction xs arbitrary: s)
  case (Cons x xs)
  then show ?case by (cases "f x s") auto
qed simp

text \<open>An invariant of the step is an invariant of the loop.\<close>

lemma rfold_invariant:
  assumes "rfold f xs s = Inr t" and "P s"
    and "\<And>x s t. x \<in> set xs \<Longrightarrow> P s \<Longrightarrow> f x s = Inr t \<Longrightarrow> P t"
  shows "P t"
  using assms by (induction xs arbitrary: s) auto

section \<open>Arrays and strings\<close>

text \<open>\<open>xs[i]\<close>: \<open>undefined\<close> outside the array, also for a negative index.\<close>

definition js_at :: "'a list \<Rightarrow> int \<Rightarrow> 'a option" where
  "js_at xs i = (if 0 \<le> i \<and> i < int (length xs) then Some (xs ! nat i) else None)"

lemma js_at_in [simp]: "0 \<le> i \<Longrightarrow> i < int (length xs) \<Longrightarrow> js_at xs i = Some (xs ! nat i)"
  by (simp add: js_at_def)

lemma js_at_out [simp]: "i < 0 \<or> int (length xs) \<le> i \<Longrightarrow> js_at xs i = None"
  by (auto simp: js_at_def)

text \<open>Clamping an index into \<open>[0, length]\<close>, as \<open>substring\<close> does.\<close>

definition js_clamp :: "'a list \<Rightarrow> int \<Rightarrow> int" where
  "js_clamp xs i = max 0 (min i (int (length xs)))"

text \<open>\<open>String.prototype.substring\<close>: both ends clamped, and swapped when out of order.\<close>

definition js_substring :: "'a list \<Rightarrow> int \<Rightarrow> int \<Rightarrow> 'a list" where
  "js_substring xs a b =
     (let lo = min (js_clamp xs a) (js_clamp xs b); hi = max (js_clamp xs a) (js_clamp xs b)
      in take (nat (hi - lo)) (drop (nat lo) xs))"

text \<open>\<open>substring\<close> with one argument runs to the end of the string.\<close>

definition js_substring_from :: "'a list \<Rightarrow> int \<Rightarrow> 'a list" where
  "js_substring_from xs a = js_substring xs a (int (length xs))"

text \<open>\<open>Array.prototype.slice\<close>: a negative index counts from the end; no swap.\<close>

definition js_rel :: "'a list \<Rightarrow> int \<Rightarrow> int" where
  "js_rel xs i = (let n = int (length xs) in if i < 0 then max 0 (n + i) else min i n)"

definition js_slice :: "'a list \<Rightarrow> int \<Rightarrow> int \<Rightarrow> 'a list" where
  "js_slice xs a b = (let lo = js_rel xs a; hi = js_rel xs b
                      in take (nat (hi - lo)) (drop (nat lo) xs))"

text \<open>\<open>Array.prototype.splice(i, n, ...ys)\<close>: the array afterwards.\<close>

definition js_splice :: "'a list \<Rightarrow> int \<Rightarrow> int \<Rightarrow> 'a list \<Rightarrow> 'a list" where
  "js_splice xs i n ys =
     (let lo = js_rel xs i; cnt = max 0 (min n (int (length xs) - lo))
      in take (nat lo) xs @ ys @ drop (nat (lo + cnt)) xs)"

lemma js_substring_in:
  "0 \<le> a \<Longrightarrow> a \<le> b \<Longrightarrow> b \<le> int (length xs) \<Longrightarrow>
     js_substring xs a b = take (nat (b - a)) (drop (nat a) xs)"
  by (simp add: js_substring_def js_clamp_def Let_def)

lemma js_substring_from_in:
  "0 \<le> a \<Longrightarrow> a \<le> int (length xs) \<Longrightarrow> js_substring_from xs a = drop (nat a) xs"
  by (simp add: js_substring_from_def js_substring_in)

lemma length_js_substring:
  "0 \<le> a \<Longrightarrow> a \<le> b \<Longrightarrow> b \<le> int (length xs) \<Longrightarrow> int (length (js_substring xs a b)) = b - a"
  by (simp add: js_substring_in)

lemma js_slice_in:
  "0 \<le> a \<Longrightarrow> a \<le> b \<Longrightarrow> b \<le> int (length xs) \<Longrightarrow>
     js_slice xs a b = take (nat (b - a)) (drop (nat a) xs)"
  by (simp add: js_slice_def js_rel_def Let_def)

lemma js_splice_in:
  "0 \<le> i \<Longrightarrow> i \<le> int (length xs) \<Longrightarrow> 0 \<le> n \<Longrightarrow> i + n \<le> int (length xs) \<Longrightarrow>
     js_splice xs i n ys = take (nat i) xs @ ys @ drop (nat (i + n)) xs"
  by (simp add: js_splice_def js_rel_def Let_def)

section \<open>32-bit truncation\<close>

text \<open>\<open>x | 0\<close> is ToInt32: the low 32 bits read as two's complement.\<close>

definition to_int32 :: "int \<Rightarrow> int" where
  "to_int32 x = (x + 2147483648) mod 4294967296 - 2147483648"

definition is_int32 :: "int \<Rightarrow> bool" where
  "is_int32 x \<longleftrightarrow> - 2147483648 \<le> x \<and> x < 2147483648"

lemma to_int32_id [simp]: "is_int32 x \<Longrightarrow> to_int32 x = x"
  by (simp add: to_int32_def is_int32_def)

lemma to_int32_range: "is_int32 (to_int32 x)"
  by (simp add: to_int32_def is_int32_def)

lemma to_int32_sint: "to_int32 x = sint (word_of_int x :: 32 word)"
proof -
  have "sint (word_of_int x :: 32 word) = signed_take_bit 31 x"
    by (simp add: sint_sbintrunc')
  also have "\<dots> = to_int32 x"
    by (simp add: signed_take_bit_eq_take_bit_shift take_bit_eq_mod to_int32_def)
  finally show ?thesis by simp
qed

section \<open>Lists\<close>

lemma take_drop_split:
  "i \<le> j \<Longrightarrow> take (j - i) (drop i xs) @ drop j xs = drop i xs"
  by (metis append_take_drop_id drop_drop le_add_diff_inverse2)

lemma nth_in_drop:
  assumes "i \<le> k" and "k < length xs"
  shows "xs ! k \<in> set (drop i xs)"
proof -
  from assms have "xs ! k = drop i xs ! (k - i)" and "k - i < length (drop i xs)"
    by simp_all
  then show ?thesis by (metis nth_mem)
qed

lemma sorted_wrt_nth_less:
  "sorted_wrt P xs \<Longrightarrow> i < j \<Longrightarrow> j < length xs \<Longrightarrow> P (xs ! i) (xs ! j)"
  by (simp add: sorted_wrt_iff_nth_less)

section \<open>Comparators and sorting\<close>

text \<open>
  The contract of a comparison function \<open>(a: T, b: T) => number\<close> on the values that satisfy
  \<open>valid\<close>: a total preorder read off the sign of the result.  \<open>Array.prototype.sort\<close> and the
  maximum searches of \<open>arraysFind.ts\<close> rely on it.
\<close>

locale comparator =
  fixes cmp :: "'a \<Rightarrow> 'a \<Rightarrow> int"
    and valid :: "'a \<Rightarrow> bool"
  assumes cmp_antisym: "valid a \<Longrightarrow> valid b \<Longrightarrow> sgn (cmp a b) = - sgn (cmp b a)"
    and cmp_trans: "valid a \<Longrightarrow> valid b \<Longrightarrow> valid c \<Longrightarrow> cmp a b \<le> 0 \<Longrightarrow> cmp b c \<le> 0 \<Longrightarrow> cmp a c \<le> 0"

text \<open>\<open>Array.prototype.sort(cmp)\<close>, which is stable; the insertion order models it.\<close>

fun js_insort :: "('a \<Rightarrow> 'a \<Rightarrow> int) \<Rightarrow> 'a \<Rightarrow> 'a list \<Rightarrow> 'a list" where
  "js_insort c x [] = [x]"
| "js_insort c x (y # ys) = (if c y x \<le> 0 then y # js_insort c x ys else x # y # ys)"

definition js_sort :: "('a \<Rightarrow> 'a \<Rightarrow> int) \<Rightarrow> 'a list \<Rightarrow> 'a list" where
  "js_sort c xs = foldl (\<lambda>acc x. js_insort c x acc) [] xs"

lemma set_js_insort [simp]: "set (js_insort c x ys) = insert x (set ys)"
  by (induction ys) auto

lemma length_js_insort [simp]: "length (js_insort c x ys) = Suc (length ys)"
  by (induction ys) auto

lemma set_js_sort [simp]: "set (js_sort c xs) = set xs"
  by (induction xs rule: rev_induct) (auto simp: js_sort_def)

lemma mset_js_insort [simp]: "mset (js_insort c x ys) = add_mset x (mset ys)"
  by (induction ys) auto

lemma mset_js_sort [simp]: "mset (js_sort c xs) = mset xs"
  by (induction xs rule: rev_induct) (auto simp: js_sort_def)

lemma length_js_sort [simp]: "length (js_sort c xs) = length xs"
  by (induction xs rule: rev_induct) (auto simp: js_sort_def)

context comparator begin

lemma cmp_refl [simp]: "valid a \<Longrightarrow> cmp a a = 0"
  using cmp_antisym [of a a] by (simp add: sgn_if split: if_splits)

lemma cmp_le_iff: "valid a \<Longrightarrow> valid b \<Longrightarrow> cmp a b \<le> 0 \<longleftrightarrow> 0 \<le> cmp b a"
  using cmp_antisym [of a b] by (auto simp: sgn_if split: if_splits)

lemma cmp_less_iff: "valid a \<Longrightarrow> valid b \<Longrightarrow> cmp a b < 0 \<longleftrightarrow> 0 < cmp b a"
  using cmp_antisym [of a b] by (auto simp: sgn_if split: if_splits)

lemma cmp_total: "valid a \<Longrightarrow> valid b \<Longrightarrow> cmp a b \<le> 0 \<or> cmp b a \<le> 0"
  using cmp_le_iff [of a b] by linarith

lemma cmp_less_trans:
  assumes "valid a" "valid b" "valid c" "cmp a b < 0" "cmp b c \<le> 0"
  shows "cmp a c < 0"
proof (rule ccontr)
  assume "\<not> cmp a c < 0"
  then have "cmp c a \<le> 0" using assms by (simp add: cmp_le_iff)
  with assms have "cmp b a \<le> 0" using cmp_trans [of b c a] by simp
  with assms show False using cmp_less_iff [of a b] by simp
qed

lemma cmp_le_less_trans:
  assumes "valid a" "valid b" "valid c" "cmp a b \<le> 0" "cmp b c < 0"
  shows "cmp a c < 0"
proof (rule ccontr)
  assume "\<not> cmp a c < 0"
  then have "cmp c a \<le> 0" using assms by (simp add: cmp_le_iff)
  with assms have "cmp c b \<le> 0" using cmp_trans [of c a b] by simp
  with assms show False using cmp_less_iff [of b c] by simp
qed

lemma sorted_js_insort:
  assumes "\<And>y. y \<in> set ys \<Longrightarrow> valid y" and "valid x" and "sorted_wrt (\<lambda>a b. cmp a b \<le> 0) ys"
  shows "sorted_wrt (\<lambda>a b. cmp a b \<le> 0) (js_insort cmp x ys)"
  using assms
proof (induction ys)
  case (Cons y ys)
  show ?case
  proof (cases "cmp y x \<le> 0")
    case True
    with Cons show ?thesis by auto
  next
    case False
    then have "cmp x y \<le> 0" using Cons.prems cmp_total [of x y] by auto
    moreover have "cmp x z \<le> 0" if "z \<in> set ys" for z
      using that Cons.prems \<open>cmp x y \<le> 0\<close> cmp_trans [of x y z] by auto
    ultimately show ?thesis using False Cons.prems by auto
  qed
qed simp

lemma sorted_js_sort:
  assumes "\<And>y. y \<in> set xs \<Longrightarrow> valid y"
  shows "sorted_wrt (\<lambda>a b. cmp a b \<le> 0) (js_sort cmp xs)"
  using assms
proof (induction xs rule: rev_induct)
  case (snoc x xs)
  then show ?case
    using sorted_js_insort [of "js_sort cmp xs" x] by (simp add: js_sort_def) (simp flip: js_sort_def)
qed (simp add: js_sort_def)

end

end
