(* ===== verification/Arrays_Find.thy ===== *)
theory Arrays_Find
  imports Prelude
begin

text \<open>
  \<open>src/vs/base/common/arraysFind.ts\<close>: linear searches, the binary searches over a monotonous
  predicate, \<open>MonotonousArray\<close> and the searches for a maximum.

  A predicate receives \<open>array[k]\<close>, which is \<open>undefined\<close> outside the array, so the model's
  predicates take an option; \<open>on_item\<close> lifts a predicate on items.  The lemmas say what the
  searches return: for a monotonous predicate the boundary, without it still a boundary between
  the two answers seen.
\<close>

definition on_item :: "('a \<Rightarrow> bool) \<Rightarrow> 'a option \<Rightarrow> bool" where
  "on_item p x = (case x of None \<Rightarrow> False | Some a \<Rightarrow> p a)"

lemma on_item_simps [simp]: "on_item p (Some a) = p a" "on_item p None = False"
  by (simp_all add: on_item_def)

section \<open>Linear searches\<close>

text \<open>\<open>for (let i = fromIndex; i >= 0; i--)\<close>\<close>

function findLastIdx :: "'a list \<Rightarrow> ('a option \<Rightarrow> int \<Rightarrow> bool) \<Rightarrow> int \<Rightarrow> int" where
  "findLastIdx xs p i =
     (if 0 \<le> i then (if p (js_at xs i) i then i else findLastIdx xs p (i - 1)) else - 1)"
  by pat_completeness auto
termination by (relation "measure (\<lambda>(xs, p, i). nat (i + 1))") auto

declare findLastIdx.simps [simp del]

definition findLast :: "'a list \<Rightarrow> ('a option \<Rightarrow> int \<Rightarrow> bool) \<Rightarrow> int \<Rightarrow> 'a option" where
  "findLast xs p i = (let idx = findLastIdx xs p i in if idx = - 1 then None else js_at xs idx)"

text \<open>\<open>for (let i = fromIndex; i < array.length; i++)\<close>\<close>

function findFirstIdx :: "'a list \<Rightarrow> ('a option \<Rightarrow> int \<Rightarrow> bool) \<Rightarrow> int \<Rightarrow> int" where
  "findFirstIdx xs p i =
     (if i < int (length xs)
      then (if p (js_at xs i) i then i else findFirstIdx xs p (i + 1)) else - 1)"
  by pat_completeness auto
termination by (relation "measure (\<lambda>(xs, p, i). nat (int (length xs) - i))") auto

declare findFirstIdx.simps [simp del]

definition findFirst :: "'a list \<Rightarrow> ('a option \<Rightarrow> int \<Rightarrow> bool) \<Rightarrow> int \<Rightarrow> 'a option" where
  "findFirst xs p i = (let idx = findFirstIdx xs p i in if idx = - 1 then None else js_at xs idx)"

lemma findLastIdx_spec:
  "- 1 \<le> i \<Longrightarrow> (let r = findLastIdx xs p i in
     - 1 \<le> r \<and> r \<le> i \<and> (0 \<le> r \<longrightarrow> p (js_at xs r) r) \<and>
     (\<forall>k. r < k \<and> k \<le> i \<longrightarrow> \<not> p (js_at xs k) k))"
proof (induction xs p i rule: findLastIdx.induct)
  case (1 xs p i)
  show ?case
  proof (cases "0 \<le> i \<and> \<not> p (js_at xs i) i")
    case True
    then have "findLastIdx xs p i = findLastIdx xs p (i - 1)"
      by (simp add: findLastIdx.simps [of xs p i])
    moreover have "\<not> p (js_at xs k) k" if "findLastIdx xs p (i - 1) < k" "k \<le> i" for k
      using that True 1 by (cases "k = i") (auto simp: Let_def)
    ultimately show ?thesis using 1 True by (auto simp: Let_def)
  next
    case False
    with "1.prems" show ?thesis
      by (auto simp: Let_def findLastIdx.simps [of xs p i])
  qed
qed

lemma findFirstIdx_spec:
  "0 \<le> i \<Longrightarrow> (let r = findFirstIdx xs p i in
     (r = - 1 \<and> (\<forall>k. i \<le> k \<and> k < int (length xs) \<longrightarrow> \<not> p (js_at xs k) k)) \<or>
     (i \<le> r \<and> r < int (length xs) \<and> p (js_at xs r) r \<and> (\<forall>k. i \<le> k \<and> k < r \<longrightarrow> \<not> p (js_at xs k) k)))"
proof (induction xs p i rule: findFirstIdx.induct)
  case (1 xs p i)
  show ?case
  proof (cases "i < int (length xs) \<and> \<not> p (js_at xs i) i")
    case True
    then have eq: "findFirstIdx xs p i = findFirstIdx xs p (i + 1)"
      by (simp add: findFirstIdx.simps [of xs p i])
    have step: "(\<forall>k. i \<le> k \<and> k < b \<longrightarrow> \<not> p (js_at xs k) k) \<longleftrightarrow>
        (\<forall>k. i + 1 \<le> k \<and> k < b \<longrightarrow> \<not> p (js_at xs k) k)" for b
      using True by (metis less_add_one order.strict_trans order_less_le zless_imp_add1_zle order_le_less_trans)
    show ?thesis using 1 True unfolding eq step by (auto simp: Let_def)
  next
    case False
    with "1.prems" show ?thesis
      by (auto simp: Let_def findFirstIdx.simps [of xs p i])
  qed
qed

section \<open>Binary searches\<close>

text \<open>\<open>while (i < j) { const k = Math.floor((i + j) / 2); ... }\<close>\<close>

function findFirstIdxMonotonousOrArrLen :: "'a list \<Rightarrow> ('a option \<Rightarrow> bool) \<Rightarrow> int \<Rightarrow> int \<Rightarrow> int" where
  "findFirstIdxMonotonousOrArrLen xs p i j =
     (if i < j
      then let k = (i + j) div 2
           in if p (js_at xs k) then findFirstIdxMonotonousOrArrLen xs p i k
              else findFirstIdxMonotonousOrArrLen xs p (k + 1) j
      else i)"
  by pat_completeness auto
termination by (relation "measure (\<lambda>(xs, p, i, j). nat (j - i))") auto

function findLastIdxMonotonous_loop :: "'a list \<Rightarrow> ('a option \<Rightarrow> bool) \<Rightarrow> int \<Rightarrow> int \<Rightarrow> int" where
  "findLastIdxMonotonous_loop xs p i j =
     (if i < j
      then let k = (i + j) div 2
           in if p (js_at xs k) then findLastIdxMonotonous_loop xs p (k + 1) j
              else findLastIdxMonotonous_loop xs p i k
      else i)"
  by pat_completeness auto
termination by (relation "measure (\<lambda>(xs, p, i, j). nat (j - i))") auto

declare findFirstIdxMonotonousOrArrLen.simps [simp del]
declare findLastIdxMonotonous_loop.simps [simp del]

definition findLastIdxMonotonous :: "'a list \<Rightarrow> ('a option \<Rightarrow> bool) \<Rightarrow> int \<Rightarrow> int \<Rightarrow> int" where
  "findLastIdxMonotonous xs p i j = findLastIdxMonotonous_loop xs p i j - 1"

definition findLastMonotonous :: "'a list \<Rightarrow> ('a option \<Rightarrow> bool) \<Rightarrow> 'a option" where
  "findLastMonotonous xs p =
     (let idx = findLastIdxMonotonous xs p 0 (int (length xs))
      in if idx = - 1 then None else js_at xs idx)"

definition findFirstMonotonous :: "'a list \<Rightarrow> ('a option \<Rightarrow> bool) \<Rightarrow> 'a option" where
  "findFirstMonotonous xs p =
     (let idx = findFirstIdxMonotonousOrArrLen xs p 0 (int (length xs))
      in if idx = int (length xs) then None else js_at xs idx)"

definition findFirstIdxMonotonous :: "'a list \<Rightarrow> ('a option \<Rightarrow> bool) \<Rightarrow> int \<Rightarrow> int \<Rightarrow> int" where
  "findFirstIdxMonotonous xs p i j =
     (let idx = findFirstIdxMonotonousOrArrLen xs p i j
      in if idx = int (length xs) then - 1 else idx)"

text \<open>The two loops are mirror images.\<close>

lemma findLastIdxMonotonous_loop_eq:
  "findLastIdxMonotonous_loop xs p i j = findFirstIdxMonotonousOrArrLen xs (\<lambda>x. \<not> p x) i j"
proof (induction xs p i j rule: findLastIdxMonotonous_loop.induct)
  case (1 xs p i j)
  then show ?case
    by (simp add: Let_def findLastIdxMonotonous_loop.simps [of xs p i j]
        findFirstIdxMonotonousOrArrLen.simps [of xs "\<lambda>x. \<not> p x" i j])
qed

text \<open>
  The predicate is monotonous on \<open>[i, j)\<close>: once true, it stays true.
\<close>

definition monotonous_on :: "'a list \<Rightarrow> ('a option \<Rightarrow> bool) \<Rightarrow> int \<Rightarrow> int \<Rightarrow> bool" where
  "monotonous_on xs p i j \<longleftrightarrow>
     (\<forall>k l. i \<le> k \<and> k \<le> l \<and> l < j \<and> p (js_at xs k) \<longrightarrow> p (js_at xs l))"

lemma monotonous_onD: "monotonous_on xs p i j \<Longrightarrow> i \<le> k \<Longrightarrow> k \<le> l \<Longrightarrow> l < j \<Longrightarrow> p (js_at xs k) \<Longrightarrow> p (js_at xs l)"
  by (auto simp: monotonous_on_def)

lemma monotonous_on_sub: "monotonous_on xs p i j \<Longrightarrow> i \<le> i' \<Longrightarrow> j' \<le> j \<Longrightarrow> monotonous_on xs p i' j'"
  unfolding monotonous_on_def by (meson order.strict_trans2 order.trans)

lemma findFirstIdxMonotonousOrArrLen_bounds:
  "i \<le> j \<Longrightarrow> i \<le> findFirstIdxMonotonousOrArrLen xs p i j \<and> findFirstIdxMonotonousOrArrLen xs p i j \<le> j"
proof (induction xs p i j rule: findFirstIdxMonotonousOrArrLen.induct)
  case (1 xs p i j)
  show ?case
  proof (cases "i < j")
    case True
    let ?k = "(i + j) div 2"
    have "i \<le> ?k" "?k < j" using True by auto
    with 1 True show ?thesis
      by (auto simp: Let_def findFirstIdxMonotonousOrArrLen.simps [of xs p i j])
  next
    case False
    then have "findFirstIdxMonotonousOrArrLen xs p i j = i"
      by (simp add: findFirstIdxMonotonousOrArrLen.simps [of xs p i j])
    with "1.prems" show ?thesis by simp
  qed
qed

lemma findFirstIdxMonotonousOrArrLen_split:
  "i \<le> j \<Longrightarrow> monotonous_on xs p i j \<Longrightarrow> i \<le> k \<Longrightarrow> k < j \<Longrightarrow>
     p (js_at xs k) \<longleftrightarrow> findFirstIdxMonotonousOrArrLen xs p i j \<le> k"
proof (induction xs p i j rule: findFirstIdxMonotonousOrArrLen.induct)
  case (1 xs p i j)
  let ?f = "findFirstIdxMonotonousOrArrLen xs p"
  let ?m = "(i + j) div 2"
  have less: "i < j" and bounds: "i \<le> ?m" "?m < j" using "1.prems" by auto
  show ?case
  proof (cases "p (js_at xs ?m)")
    case True
    have eq: "?f i j = ?f i ?m" using less True by (simp add: Let_def findFirstIdxMonotonousOrArrLen.simps [of xs p i j])
    show ?thesis
    proof (cases "k < ?m")
      case True
      with 1(1) less \<open>p (js_at xs ?m)\<close> bounds "1.prems" monotonous_on_sub [of xs p i j i ?m]
      show ?thesis unfolding eq by simp
    next
      case False
      then have "p (js_at xs k)" using True monotonous_onD [of xs p i j ?m k] "1.prems" bounds by simp
      moreover have "?f i ?m \<le> ?m" using findFirstIdxMonotonousOrArrLen_bounds bounds by blast
      ultimately show ?thesis using False unfolding eq by linarith
    qed
  next
    case False
    have eq: "?f i j = ?f (?m + 1) j" using less False by (simp add: Let_def findFirstIdxMonotonousOrArrLen.simps [of xs p i j])
    show ?thesis
    proof (cases "?m < k")
      case True
      with 1(2) less False bounds "1.prems" monotonous_on_sub [of xs p i j "?m + 1" j]
      show ?thesis unfolding eq by simp
    next
      case kle: False
      then have "\<not> p (js_at xs k)" using False monotonous_onD [of xs p i j k ?m] "1.prems" bounds by auto
      moreover have "?m + 1 \<le> ?f (?m + 1) j" using findFirstIdxMonotonousOrArrLen_bounds bounds by (meson zless_imp_add1_zle)
      ultimately show ?thesis using kle unfolding eq by linarith
    qed
  qed
qed

text \<open>The two searches on a whole array, as the callers use them.\<close>

lemma findFirst_whole:
  assumes "monotonous_on xs p 0 (int (length xs))"
  shows "0 \<le> findFirstIdxMonotonousOrArrLen xs p 0 (int (length xs)) \<and>
    findFirstIdxMonotonousOrArrLen xs p 0 (int (length xs)) \<le> int (length xs) \<and>
    (\<forall>k < length xs. p (Some (xs ! k)) \<longleftrightarrow> findFirstIdxMonotonousOrArrLen xs p 0 (int (length xs)) \<le> int k)"
proof -
  have "p (Some (xs ! k)) \<longleftrightarrow> findFirstIdxMonotonousOrArrLen xs p 0 (int (length xs)) \<le> int k"
    if "k < length xs" for k
    using that findFirstIdxMonotonousOrArrLen_split [OF _ assms, of "int k"] by simp
  then show ?thesis
    using findFirstIdxMonotonousOrArrLen_bounds [of 0 "int (length xs)" xs p] by simp
qed

lemma findLast_whole:
  assumes "monotonous_on xs (\<lambda>x. \<not> p x) 0 (int (length xs))"
  shows "- 1 \<le> findLastIdxMonotonous xs p 0 (int (length xs)) \<and>
    findLastIdxMonotonous xs p 0 (int (length xs)) < int (length xs) \<and>
    (\<forall>k < length xs. p (Some (xs ! k)) \<longleftrightarrow> int k \<le> findLastIdxMonotonous xs p 0 (int (length xs)))"
  using findFirst_whole [OF assms]
  by (auto simp: findLastIdxMonotonous_def findLastIdxMonotonous_loop_eq)

section \<open>Repeated searches with weakening predicates\<close>

text \<open>
  \<open>MonotonousArray\<close>: the array, the index the next search may start at, and, when the static flag
  \<open>assertInvariants\<close> is set, the predicate of the previous call.
\<close>

record 'a MonotonousArray =
  ma_array :: "'a list"
  findLastMonotonousLastIdx :: int
  prevFindLastPredicate :: "('a \<Rightarrow> bool) option"

definition MonotonousArray_new :: "'a list \<Rightarrow> 'a MonotonousArray" where
  "MonotonousArray_new xs =
     \<lparr>ma_array = xs, findLastMonotonousLastIdx = 0, prevFindLastPredicate = None\<rparr>"

definition MonotonousArray_findLastMonotonous ::
    "bool \<Rightarrow> ('a \<Rightarrow> bool) \<Rightarrow> 'a MonotonousArray \<Rightarrow> ('a option \<times> 'a MonotonousArray) result" where
  "MonotonousArray_findLastMonotonous assertInvariants predicate m =
     (if assertInvariants \<and>
         (case prevFindLastPredicate m of None \<Rightarrow> False
          | Some q \<Rightarrow> list_ex (\<lambda>item. q item \<and> \<not> predicate item) (ma_array m))
      then Inl WeakerPredicateError
      else
        let m' = (if assertInvariants then m\<lparr>prevFindLastPredicate := Some predicate\<rparr> else m);
            idx = findLastIdxMonotonous (ma_array m) (on_item predicate)
                    (findLastMonotonousLastIdx m) (int (length (ma_array m)))
        in Inr (if idx = - 1 then None else js_at (ma_array m) idx,
                m'\<lparr>findLastMonotonousLastIdx := idx + 1\<rparr>))"

section \<open>Maximum searches over a comparator\<close>

definition findFirstMax :: "'a list \<Rightarrow> ('a \<Rightarrow> 'a \<Rightarrow> int) \<Rightarrow> 'a option" where
  "findFirstMax xs cmp =
     (case xs of [] \<Rightarrow> None
      | x # rest \<Rightarrow> Some (foldl (\<lambda>m item. if cmp item m > 0 then item else m) x rest))"

definition findLastMax :: "'a list \<Rightarrow> ('a \<Rightarrow> 'a \<Rightarrow> int) \<Rightarrow> 'a option" where
  "findLastMax xs cmp =
     (case xs of [] \<Rightarrow> None
      | x # rest \<Rightarrow> Some (foldl (\<lambda>m item. if cmp item m \<ge> 0 then item else m) x rest))"

definition findFirstMin :: "'a list \<Rightarrow> ('a \<Rightarrow> 'a \<Rightarrow> int) \<Rightarrow> 'a option" where
  "findFirstMin xs cmp = findFirstMax xs (\<lambda>a b. - cmp a b)"

text \<open>\<open>for (let i = 1; i < array.length; i++)\<close> over the rest of the array from index \<open>i\<close>.\<close>

fun findMaxIdx_loop :: "'a list \<Rightarrow> ('a \<Rightarrow> 'a \<Rightarrow> int) \<Rightarrow> 'a list \<Rightarrow> nat \<Rightarrow> nat \<Rightarrow> nat" where
  "findMaxIdx_loop xs cmp [] i maxIdx = maxIdx"
| "findMaxIdx_loop xs cmp (item # items) i maxIdx =
     findMaxIdx_loop xs cmp items (Suc i) (if cmp item (xs ! maxIdx) > 0 then i else maxIdx)"

definition findMaxIdx :: "'a list \<Rightarrow> ('a \<Rightarrow> 'a \<Rightarrow> int) \<Rightarrow> int" where
  "findMaxIdx xs cmp =
     (if xs = [] then - 1 else int (findMaxIdx_loop xs cmp (drop 1 xs) 1 0))"

fun mapFindFirst :: "'a list \<Rightarrow> ('a \<Rightarrow> 'r option) \<Rightarrow> 'r option" where
  "mapFindFirst [] f = None"
| "mapFindFirst (x # xs) f = (case f x of Some r \<Rightarrow> Some r | None \<Rightarrow> mapFindFirst xs f)"

lemma mapFindFirst_eq: "mapFindFirst xs f = Option.bind (find (\<lambda>x. f x \<noteq> None) xs) f"
  by (induction xs) (auto split: option.splits)

text \<open>The running maximum after a prefix: the invariant of the three loops.\<close>

context comparator begin

lemma findMaxIdx_loop_spec:
  assumes "\<And>x. x \<in> set xs \<Longrightarrow> valid x" and "items = drop i xs" and "i \<le> length xs" and "m < i"
    and "\<And>j. j < i \<Longrightarrow> cmp (xs ! j) (xs ! m) \<le> 0" and "\<And>j. j < m \<Longrightarrow> cmp (xs ! j) (xs ! m) < 0"
  shows "let r = findMaxIdx_loop xs cmp items i m in
     r < length xs \<and> (\<forall>j < length xs. cmp (xs ! j) (xs ! r) \<le> 0) \<and> (\<forall>j < r. cmp (xs ! j) (xs ! r) < 0)"
  using assms(2-)
proof (induction items arbitrary: i m)
  case Nil
  then show ?case by (auto simp: Let_def)
next
  case (Cons item items)
  have i: "i < length xs" using Cons.prems by (cases "i = length xs") auto
  have item: "item = xs ! i" and items: "items = drop (Suc i) xs"
    using Cons.prems(1) i by (metis Cons_nth_drop_Suc list.inject)+
  have val: "valid (xs ! j)" if "j < length xs" for j using assms(1) that by simp
  define m' where "m' = (if cmp item (xs ! m) > 0 then i else m)"
  have "cmp (xs ! j) (xs ! m') \<le> 0" if "j < Suc i" for j
  proof (cases "cmp item (xs ! m) > 0")
    case True
    then have "cmp (xs ! m) (xs ! i) < 0" using item i Cons.prems(3) val cmp_less_iff by simp
    then show ?thesis
      using that True Cons.prems(3,4) i val cmp_trans [of "xs ! j" "xs ! m" "xs ! i"]
      by (cases "j = i") (auto simp: m'_def)
  next
    case False
    with that item show ?thesis
      using Cons.prems(4) by (cases "j = i") (auto simp: m'_def)
  qed
  moreover have "cmp (xs ! j) (xs ! m') < 0" if "j < m'" for j
  proof (cases "cmp item (xs ! m) > 0")
    case True
    then have "cmp (xs ! m) (xs ! i) < 0" using item i Cons.prems(3) val cmp_less_iff by simp
    moreover have "cmp (xs ! j) (xs ! m) \<le> 0" using that True Cons.prems(4) by (simp add: m'_def)
    ultimately show ?thesis
      using that True i val Cons.prems(3) cmp_le_less_trans [of "xs ! j" "xs ! m" "xs ! i"]
      by (simp add: m'_def)
  next
    case False
    then show ?thesis using that Cons.prems(5) by (simp add: m'_def)
  qed
  moreover have "m' < Suc i" using Cons.prems(3) by (simp add: m'_def)
  ultimately show ?case
    using Cons.IH [of "Suc i" m'] items i by (simp add: m'_def)
qed

lemma findMaxIdx_spec:
  assumes "\<And>x. x \<in> set xs \<Longrightarrow> valid x" and "xs \<noteq> []"
  shows "\<exists>r < length xs. findMaxIdx xs cmp = int r \<and>
     (\<forall>j < length xs. cmp (xs ! j) (xs ! r) \<le> 0) \<and> (\<forall>j < r. cmp (xs ! j) (xs ! r) < 0)"
  using findMaxIdx_loop_spec [of xs "drop 1 xs" 1 0] assms
  by (auto simp: findMaxIdx_def Let_def Suc_le_eq)

lemma findMaxIdx_loop_foldl:
  "items = drop i xs \<Longrightarrow> m < length xs \<Longrightarrow>
   xs ! findMaxIdx_loop xs cmp items i m = foldl (\<lambda>m item. if cmp item m > 0 then item else m) (xs ! m) items"
proof (induction items arbitrary: i m)
  case (Cons item items)
  have i: "i < length xs" using Cons.prems by (cases "i < length xs") auto
  have "item = xs ! i" and "items = drop (Suc i) xs"
    using Cons.prems(1) i by (metis Cons_nth_drop_Suc list.inject)+
  then show ?case
    using Cons.IH [of "Suc i" "if cmp item (xs ! m) > 0 then i else m"] Cons.prems(2) i by simp
qed simp

text \<open>\<open>findFirstMax\<close> returns the item \<open>findMaxIdx\<close> points at.\<close>

lemma findFirstMax_findMaxIdx:
  "xs \<noteq> [] \<Longrightarrow> findFirstMax xs cmp = Some (xs ! nat (findMaxIdx xs cmp))"
  using findMaxIdx_loop_foldl [of "drop 1 xs" 1 xs 0]
  by (cases xs) (simp_all add: findFirstMax_def findMaxIdx_def)

end

section \<open>Properties\<close>

text \<open>The binary searches find the boundary of a monotonous predicate: \<open>findLastMonotonous\<close> and
  \<open>findFirstMonotonous\<close> return what the linear searches \<open>findLast\<close> and \<open>findFirst\<close> return, the last
  item where the predicate still holds and the first where its negation holds.\<close>

lemma findMonotonous_linear:
  assumes "monotonous_on xs (\<lambda>x. \<not> p x) 0 (int (length xs))"
  shows "findLastMonotonous xs p = findLast xs (\<lambda>x _. p x) (int (length xs) - 1) \<and>
    findFirstMonotonous xs (\<lambda>x. \<not> p x) = findFirst xs (\<lambda>x _. \<not> p x) 0"
proof
  let ?n = "int (length xs)"
  define l where "l = findLastIdxMonotonous xs p 0 ?n"
  define r where "r = findLastIdx xs (\<lambda>x _. p x) (?n - 1)"
  have l: "- 1 \<le> l" "l < ?n" and pk: "p (js_at xs k) \<longleftrightarrow> k \<le> l" if "0 \<le> k" "k < ?n" for k
    using findLast_whole [OF assms] that by (auto simp: js_at_def l_def dest: spec [of _ "nat k"])
  have l: "- 1 \<le> l" "l < ?n" using findLast_whole [OF assms] by (simp_all add: l_def)
  have r: "- 1 \<le> r" "r \<le> ?n - 1" "0 \<le> r \<Longrightarrow> p (js_at xs r)" "\<And>k. r < k \<Longrightarrow> k \<le> ?n - 1 \<Longrightarrow> \<not> p (js_at xs k)"
    using findLastIdx_spec [of "?n - 1" xs "\<lambda>x _. p x"] by (auto simp: Let_def r_def)
  have "r = l"
  proof (rule ccontr)
    assume "r \<noteq> l"
    with l r pk [of l] pk [of r] r(4) [of l] show False by (cases "r < l") auto
  qed
  then show "findLastMonotonous xs p = findLast xs (\<lambda>x _. p x) (?n - 1)"
    by (simp add: findLastMonotonous_def findLast_def Let_def l_def r_def)
next
  let ?n = "int (length xs)"
  define l where "l = findFirstIdxMonotonousOrArrLen xs (\<lambda>x. \<not> p x) 0 ?n"
  define r where "r = findFirstIdx xs (\<lambda>x _. \<not> p x) 0"
  have pk: "\<not> p (js_at xs k) \<longleftrightarrow> l \<le> k" if "0 \<le> k" "k < ?n" for k
    using findFirst_whole [OF assms] that by (auto simp: js_at_def l_def dest: spec [of _ "nat k"])
  have l: "0 \<le> l" "l \<le> ?n" using findFirst_whole [OF assms] by (simp_all add: l_def)
  have "r = - 1 \<and> (\<forall>k. 0 \<le> k \<and> k < ?n \<longrightarrow> p (js_at xs k)) \<or>
      0 \<le> r \<and> r < ?n \<and> \<not> p (js_at xs r) \<and> (\<forall>k. 0 \<le> k \<and> k < r \<longrightarrow> p (js_at xs k))"
    using findFirstIdx_spec [of 0 xs "\<lambda>x _. \<not> p x"] by (simp add: Let_def r_def)
  then have "r = (if l = ?n then - 1 else l)"
  proof (elim disjE conjE)
    assume "r = - 1" "\<forall>k. 0 \<le> k \<and> k < ?n \<longrightarrow> p (js_at xs k)"
    then show ?thesis using l pk [of l] by (cases "l = ?n") auto
  next
    assume r: "0 \<le> r" "r < ?n" "\<not> p (js_at xs r)" "\<forall>k. 0 \<le> k \<and> k < r \<longrightarrow> p (js_at xs k)"
    then have "l \<le> r" using pk [of r] by simp
    moreover have "\<not> l < r" using r(2,4) l(1) pk [of l] by auto
    ultimately show ?thesis using r(2) by auto
  qed
  then show "findFirstMonotonous xs (\<lambda>x. \<not> p x) = findFirst xs (\<lambda>x _. \<not> p x) 0"
    using l by (auto simp: findFirstMonotonous_def findFirst_def Let_def l_def r_def)
qed

lemma findMonotonous_linear_witness:
  "findLastMonotonous [1, 3, 5, 8 :: int] (on_item (\<lambda>x. x < 6)) = Some 5 \<and>
   findLast [1, 3, 5, 8 :: int] (\<lambda>x _. on_item (\<lambda>x. x < 6) x) 3 = Some 5"
proof -
  have "findLastMonotonous [1, 3, 5, 8 :: int] (on_item (\<lambda>x. x < 6)) = Some 5" by code_simp
  moreover have "monotonous_on [1, 3, 5, 8 :: int] (\<lambda>x. \<not> on_item (\<lambda>x. x < 6) x) 0 4"
    by (auto simp: monotonous_on_def on_item_def js_at_def nth_Cons' split: option.splits if_splits)
  ultimately show ?thesis
    using findMonotonous_linear [of "[1, 3, 5, 8 :: int]" "on_item (\<lambda>x. x < 6)"] by simp
qed

text \<open>\<open>MonotonousArray.findLastMonotonous\<close> may start its search at the previous answer: on an array
  where the predicate is monotonous and which weakens the previous one, the remembered index gives
  the same item as a fresh search over the whole array, and the remembered index is again the
  boundary of the predicate.\<close>

lemma MonotonousArray_findLast_fresh:
  assumes mono: "monotonous_on (ma_array m) (\<lambda>x. \<not> on_item q x) 0 (int (length (ma_array m)))"
    and prev: "findLastMonotonousLastIdx m = findLastIdxMonotonous (ma_array m) (on_item p) 0 (int (length (ma_array m))) + 1"
    and monop: "monotonous_on (ma_array m) (\<lambda>x. \<not> on_item p x) 0 (int (length (ma_array m)))"
    and weaker: "\<forall>x \<in> set (ma_array m). p x \<longrightarrow> q x"
    and stored: "prevFindLastPredicate m \<in> {None, Some p}"
  shows "\<exists>m'. MonotonousArray_findLastMonotonous assertInvariants q m =
      Inr (findLastMonotonous (ma_array m) (on_item q), m') \<and> ma_array m' = ma_array m \<and>
      findLastMonotonousLastIdx m' = findLastIdxMonotonous (ma_array m') (on_item q) 0 (int (length (ma_array m'))) + 1 \<and>
      prevFindLastPredicate m' = (if assertInvariants then Some q else prevFindLastPredicate m)"
proof -
  let ?xs = "ma_array m" and ?n = "int (length (ma_array m))"
  define a b where "a = findLastIdxMonotonous ?xs (on_item p) 0 ?n + 1"
    and "b = findLastIdxMonotonous ?xs (on_item q) 0 ?n"
  have a: "0 \<le> a" "a \<le> ?n" and b: "- 1 \<le> b" "b < ?n"
    using findLast_whole [OF monop] findLast_whole [OF mono] by (auto simp: a_def b_def)
  have qk: "on_item q (js_at ?xs k) \<longleftrightarrow> k \<le> b" if "0 \<le> k" "k < ?n" for k
    using findLast_whole [OF mono] that by (auto simp: js_at_def b_def dest: spec [of _ "nat k"])
  have pk: "on_item p (js_at ?xs k) \<longleftrightarrow> k < a" if "0 \<le> k" "k < ?n" for k
    using findLast_whole [OF monop] that by (auto simp: js_at_def a_def dest: spec [of _ "nat k"])
  have "a \<le> b + 1"
  proof (rule ccontr)
    assume "\<not> a \<le> b + 1"
    then have k: "0 \<le> b + 1" "b + 1 < a" "b + 1 < ?n" using a b by auto
    then obtain x where x: "js_at ?xs (b + 1) = Some x" "x \<in> set ?xs" by (auto simp: js_at_def)
    then have "p x" using pk [of "b + 1"] k by simp
    then show False using qk [of "b + 1"] weaker x k by simp
  qed
  have "findLastIdxMonotonous ?xs (on_item q) a ?n = b"
  proof -
    let ?f = "findFirstIdxMonotonousOrArrLen ?xs (\<lambda>x. \<not> on_item q x)"
    have bounds: "a \<le> ?f a ?n" "?f a ?n \<le> ?n" using findFirstIdxMonotonousOrArrLen_bounds [OF a(2)] by auto
    have "monotonous_on ?xs (\<lambda>x. \<not> on_item q x) a ?n" using monotonous_on_sub [OF mono] a by simp
    then have split: "\<not> on_item q (js_at ?xs k) \<longleftrightarrow> ?f a ?n \<le> k" if "a \<le> k" "k < ?n" for k
      using findFirstIdxMonotonousOrArrLen_split [OF a(2)] that by blast
    have "?f a ?n = b + 1"
    proof (rule ccontr)
      assume "?f a ?n \<noteq> b + 1"
      then consider "?f a ?n < b + 1" | "b + 1 < ?f a ?n" by linarith
      then show False
      proof cases
        case 1
        with bounds a b split [of "?f a ?n"] qk [of "?f a ?n"] show False by simp
      next
        case 2
        with bounds a b \<open>a \<le> b + 1\<close> split [of "b + 1"] qk [of "b + 1"] show False by simp
      qed
    qed
    then show ?thesis by (simp add: findLastIdxMonotonous_def findLastIdxMonotonous_loop_eq)
  qed
  moreover have "\<not> list_ex (\<lambda>item. p item \<and> \<not> q item) ?xs" using weaker by (auto simp: list_ex_iff)
  ultimately show ?thesis
    using stored prev by (auto simp: MonotonousArray_findLastMonotonous_def Let_def findLastMonotonous_def a_def [symmetric] b_def [symmetric])
qed

lemma MonotonousArray_findLast_fresh_witness:
  "\<exists>m'. MonotonousArray_findLastMonotonous True (\<lambda>x. x < (6 :: int))
       (MonotonousArray_new [1, 3, 5, 8]) = Inr (Some 5, m') \<and> findLastMonotonousLastIdx m' = 3"
proof -
  have idx: "findLastIdxMonotonous [1, 3, 5, 8 :: int] (on_item (\<lambda>x. x < 6)) 0 4 = 2"
    "findLastMonotonous [1, 3, 5, 8 :: int] (on_item (\<lambda>x. x < 6)) = Some 5"
    "findLastIdxMonotonous [1, 3, 5, 8 :: int] (on_item (\<lambda>x. False)) 0 4 = - 1" by code_simp+
  have "monotonous_on [1, 3, 5, 8 :: int] (\<lambda>x. \<not> on_item (\<lambda>x. x < 6) x) 0 4"
    "monotonous_on [1, 3, 5, 8 :: int] (\<lambda>x. \<not> on_item (\<lambda>x. False) x) 0 4"
    by (auto simp: monotonous_on_def on_item_def js_at_def nth_Cons' split: option.splits if_splits)
  with idx MonotonousArray_findLast_fresh [of "MonotonousArray_new [1, 3, 5, 8 :: int]" "\<lambda>x. x < 6" "\<lambda>_. False" True]
  show ?thesis by (auto simp: MonotonousArray_new_def)
qed

text \<open>With a comparator that is a total preorder, \<open>findMaxIdx\<close> returns the first index whose item
  no other item exceeds (and -1 exactly for the empty array), and \<open>findFirstMax\<close> returns that item.\<close>

lemma findMaxIdx_first_max:
  assumes "comparator cmp valid" and "\<forall>x \<in> set xs. valid x"
  shows "(findMaxIdx xs cmp = - 1 \<longleftrightarrow> xs = []) \<and>
    (xs \<noteq> [] \<longrightarrow> (\<exists>r < length xs. findMaxIdx xs cmp = int r \<and> findFirstMax xs cmp = Some (xs ! r) \<and>
      list_all (\<lambda>x. cmp x (xs ! r) \<le> 0) xs \<and> list_all (\<lambda>x. cmp x (xs ! r) < 0) (take r xs)))"
proof (cases "xs = []")
  case False
  with comparator.findMaxIdx_spec [OF assms(1), of xs] assms(2)
  obtain r where "r < length xs" "findMaxIdx xs cmp = int r"
    "\<forall>j < length xs. cmp (xs ! j) (xs ! r) \<le> 0" "\<forall>j < r. cmp (xs ! j) (xs ! r) < 0" by auto
  with False comparator.findFirstMax_findMaxIdx [OF assms(1) False] show ?thesis
    by (auto simp: list_all_length)
qed (simp add: findMaxIdx_def)

lemma findMaxIdx_first_max_witness:
  "findMaxIdx [3, 7, 2, 7 :: int] (\<lambda>a b. a - b) = 1 \<and> findFirstMax [3, 7, 2, 7 :: int] (\<lambda>a b. a - b) = Some 7"
proof -
  have "comparator (\<lambda>a b. a - b :: int) (\<lambda>_. True)" by unfold_locales (auto simp: sgn_if)
  moreover have "findMaxIdx [3, 7, 2, 7 :: int] (\<lambda>a b. a - b) = 1" by code_simp
  ultimately show ?thesis
    using findMaxIdx_first_max [of "\<lambda>a b. a - b :: int" "\<lambda>_. True" "[3, 7, 2, 7]"] by auto
qed

end
