(* ===== verification/Positions.thy ===== *)
theory Positions
  imports Arrays_Find
begin

text \<open>
  \<open>src/vs/editor/common/core/position.ts\<close>, \<open>range.ts\<close> and \<open>selection.ts\<close>: the editor's
  coordinates.  A position is a line and a column; a range is four numbers which the constructor of
  the class \<open>Range\<close> orders; a selection is a range with an orientation, modelled as an extension of
  the record of a range.

  The abstract view: positions are linearly ordered (line first), and a range denotes the set of
  positions from its start to its end.  The lemmas say that the predicates and operations of the
  classes are membership, inclusion, hull and intersection of these sets.
\<close>

section \<open>Positions\<close>

record IPosition =
  lineNumber :: int
  column :: int

definition Position_new :: "int \<Rightarrow> int \<Rightarrow> IPosition" where
  "Position_new l c = \<lparr>lineNumber = l, column = c\<rparr>"

definition Position_with :: "IPosition \<Rightarrow> int \<Rightarrow> int \<Rightarrow> IPosition" where
  "Position_with p newLineNumber newColumn =
     (if newLineNumber = lineNumber p \<and> newColumn = column p then p
      else Position_new newLineNumber newColumn)"

definition Position_delta :: "IPosition \<Rightarrow> int \<Rightarrow> int \<Rightarrow> IPosition" where
  "Position_delta p deltaLineNumber deltaColumn =
     Position_with p (max 1 (lineNumber p + deltaLineNumber)) (max 1 (column p + deltaColumn))"

text \<open>\<open>Position.equals\<close> takes \<open>IPosition | null\<close> on both sides.\<close>

definition Position_equals :: "IPosition option \<Rightarrow> IPosition option \<Rightarrow> bool" where
  "Position_equals a b =
     (case (a, b) of
        (None, None) \<Rightarrow> True
      | (Some p, Some q) \<Rightarrow> lineNumber p = lineNumber q \<and> column p = column q
      | _ \<Rightarrow> False)"

definition Position_isBefore :: "IPosition \<Rightarrow> IPosition \<Rightarrow> bool" where
  "Position_isBefore a b =
     (if lineNumber a < lineNumber b then True
      else if lineNumber b < lineNumber a then False
      else column a < column b)"

definition Position_isBeforeOrEqual :: "IPosition \<Rightarrow> IPosition \<Rightarrow> bool" where
  "Position_isBeforeOrEqual a b =
     (if lineNumber a < lineNumber b then True
      else if lineNumber b < lineNumber a then False
      else column a \<le> column b)"

text \<open>The comparison truncates its operands to 32 bits (\<open>a.lineNumber | 0\<close>).\<close>

definition Position_compare :: "IPosition \<Rightarrow> IPosition \<Rightarrow> int" where
  "Position_compare a b =
     (let aLineNumber = to_int32 (lineNumber a); bLineNumber = to_int32 (lineNumber b)
      in if aLineNumber = bLineNumber
         then (let aColumn = to_int32 (column a); bColumn = to_int32 (column b) in aColumn - bColumn)
         else aLineNumber - bLineNumber)"

text \<open>Positions are linearly ordered; the order is \<open>isBeforeOrEqual\<close>.\<close>

instantiation IPosition_ext :: (linorder) linorder
begin

definition less_eq_IPosition_ext :: "'a IPosition_ext \<Rightarrow> 'a IPosition_ext \<Rightarrow> bool" where
  "less_eq_IPosition_ext p q \<longleftrightarrow> lineNumber p < lineNumber q \<or>
     lineNumber p = lineNumber q \<and>
       (column p < column q \<or> column p = column q \<and> IPosition.more p \<le> IPosition.more q)"

definition less_IPosition_ext :: "'a IPosition_ext \<Rightarrow> 'a IPosition_ext \<Rightarrow> bool" where
  "less_IPosition_ext p q \<longleftrightarrow> lineNumber p < lineNumber q \<or>
     lineNumber p = lineNumber q \<and>
       (column p < column q \<or> column p = column q \<and> IPosition.more p < IPosition.more q)"

instance
proof
  fix p q r :: "'a IPosition_ext"
  show "p < q \<longleftrightarrow> p \<le> q \<and> \<not> q \<le> p"
    by (auto simp: less_eq_IPosition_ext_def less_IPosition_ext_def)
  show "p \<le> p" by (simp add: less_eq_IPosition_ext_def)
  show "p \<le> q \<Longrightarrow> q \<le> r \<Longrightarrow> p \<le> r"
    by (auto simp: less_eq_IPosition_ext_def)
  show "p \<le> q \<Longrightarrow> q \<le> p \<Longrightarrow> p = q"
    by (auto simp: less_eq_IPosition_ext_def)
  show "p \<le> q \<or> q \<le> p"
    by (auto simp: less_eq_IPosition_ext_def)
qed

end

lemma IPosition_le_iff:
  "p \<le> q \<longleftrightarrow> lineNumber p < lineNumber q \<or> lineNumber p = lineNumber q \<and> column p \<le> column q"
  for p q :: IPosition
  by (auto simp: less_eq_IPosition_ext_def)

lemma IPosition_less_iff:
  "p < q \<longleftrightarrow> lineNumber p < lineNumber q \<or> lineNumber p = lineNumber q \<and> column p < column q"
  for p q :: IPosition
  by (auto simp: less_IPosition_ext_def)

lemma IPosition_eq_iff: "p = q \<longleftrightarrow> lineNumber p = lineNumber q \<and> column p = column q"
  for p q :: IPosition
  by auto

lemma Position_isBefore_less: "Position_isBefore a b \<longleftrightarrow> a < b"
  by (auto simp: Position_isBefore_def IPosition_less_iff)

lemma Position_isBeforeOrEqual_le: "Position_isBeforeOrEqual a b \<longleftrightarrow> a \<le> b"
  by (auto simp: Position_isBeforeOrEqual_def IPosition_le_iff)

lemma Position_equals_eq: "Position_equals a b \<longleftrightarrow> a = b"
  by (auto simp: Position_equals_def split: option.splits)

definition is_int32_position :: "IPosition \<Rightarrow> bool" where
  "is_int32_position p \<longleftrightarrow> is_int32 (lineNumber p) \<and> is_int32 (column p)"

lemma Position_compare_sign:
  assumes "is_int32_position a" and "is_int32_position b"
  shows "Position_compare a b < 0 \<longleftrightarrow> a < b"
    and "Position_compare a b \<le> 0 \<longleftrightarrow> a \<le> b"
    and "Position_compare a b = 0 \<longleftrightarrow> a = b"
  using assms
  by (auto simp: Position_compare_def is_int32_position_def Let_def IPosition_less_iff
      IPosition_le_iff IPosition_eq_iff)

text \<open>\<open>Position.compare\<close> is a comparator on positions of 32 bits.\<close>

interpretation position_cmp: comparator Position_compare is_int32_position
proof unfold_locales
  fix a b assume "is_int32_position a" "is_int32_position b"
  then show "sgn (Position_compare a b) = - sgn (Position_compare b a)"
    by (auto simp: Position_compare_def Let_def sgn_if)
next
  fix a b c assume "is_int32_position a" "is_int32_position b" "is_int32_position c"
    "Position_compare a b \<le> 0" "Position_compare b c \<le> 0"
  then show "Position_compare a c \<le> 0"
    by (simp add: Position_compare_sign)
qed

section \<open>Ranges\<close>

record IRange =
  startLineNumber :: int
  startColumn :: int
  endLineNumber :: int
  endColumn :: int

text \<open>The constructor swaps the two positions when they are out of order.\<close>

definition Range_new :: "int \<Rightarrow> int \<Rightarrow> int \<Rightarrow> int \<Rightarrow> IRange" where
  "Range_new sl sc el ec =
     (if sl > el \<or> sl = el \<and> sc > ec
      then \<lparr>startLineNumber = el, startColumn = ec, endLineNumber = sl, endColumn = sc\<rparr>
      else \<lparr>startLineNumber = sl, startColumn = sc, endLineNumber = el, endColumn = ec\<rparr>)"

definition Range_isEmpty :: "IRange \<Rightarrow> bool" where
  "Range_isEmpty rg \<longleftrightarrow> startLineNumber rg = endLineNumber rg \<and> startColumn rg = endColumn rg"

definition Range_containsPosition :: "IRange \<Rightarrow> IPosition \<Rightarrow> bool" where
  "Range_containsPosition rg position =
     (if lineNumber position < startLineNumber rg \<or> lineNumber position > endLineNumber rg then False
      else if lineNumber position = startLineNumber rg \<and> column position < startColumn rg then False
      else if lineNumber position = endLineNumber rg \<and> column position > endColumn rg then False
      else True)"

definition Range_strictContainsPosition :: "IRange \<Rightarrow> IPosition \<Rightarrow> bool" where
  "Range_strictContainsPosition rg position =
     (if lineNumber position < startLineNumber rg \<or> lineNumber position > endLineNumber rg then False
      else if lineNumber position = startLineNumber rg \<and> column position \<le> startColumn rg then False
      else if lineNumber position = endLineNumber rg \<and> column position \<ge> endColumn rg then False
      else True)"

definition Range_containsRange :: "IRange \<Rightarrow> IRange \<Rightarrow> bool" where
  "Range_containsRange rg other =
     (if startLineNumber other < startLineNumber rg \<or> endLineNumber other < startLineNumber rg then False
      else if startLineNumber other > endLineNumber rg \<or> endLineNumber other > endLineNumber rg then False
      else if startLineNumber other = startLineNumber rg \<and> startColumn other < startColumn rg then False
      else if endLineNumber other = endLineNumber rg \<and> endColumn other > endColumn rg then False
      else True)"

definition Range_strictContainsRange :: "IRange \<Rightarrow> IRange \<Rightarrow> bool" where
  "Range_strictContainsRange rg other =
     (if startLineNumber other < startLineNumber rg \<or> endLineNumber other < startLineNumber rg then False
      else if startLineNumber other > endLineNumber rg \<or> endLineNumber other > endLineNumber rg then False
      else if startLineNumber other = startLineNumber rg \<and> startColumn other \<le> startColumn rg then False
      else if endLineNumber other = endLineNumber rg \<and> endColumn other \<ge> endColumn rg then False
      else True)"

definition Range_plusRange :: "IRange \<Rightarrow> IRange \<Rightarrow> IRange" where
  "Range_plusRange a b =
     (let (sl, sc) =
            (if startLineNumber b < startLineNumber a then (startLineNumber b, startColumn b)
             else if startLineNumber b = startLineNumber a
             then (startLineNumber b, min (startColumn b) (startColumn a))
             else (startLineNumber a, startColumn a));
          (el, ec) =
            (if endLineNumber b > endLineNumber a then (endLineNumber b, endColumn b)
             else if endLineNumber b = endLineNumber a
             then (endLineNumber b, max (endColumn b) (endColumn a))
             else (endLineNumber a, endColumn a))
      in Range_new sl sc el ec)"

definition Range_intersectRanges :: "IRange \<Rightarrow> IRange \<Rightarrow> IRange option" where
  "Range_intersectRanges a b =
     (let (sl, sc) =
            (if startLineNumber a < startLineNumber b then (startLineNumber b, startColumn b)
             else if startLineNumber a = startLineNumber b
             then (startLineNumber a, max (startColumn a) (startColumn b))
             else (startLineNumber a, startColumn a));
          (el, ec) =
            (if endLineNumber a > endLineNumber b then (endLineNumber b, endColumn b)
             else if endLineNumber a = endLineNumber b
             then (endLineNumber a, min (endColumn a) (endColumn b))
             else (endLineNumber a, endColumn a))
      in if sl > el then None
         else if sl = el \<and> sc > ec then None
         else Some (Range_new sl sc el ec))"

definition Range_equalsRange :: "IRange option \<Rightarrow> IRange option \<Rightarrow> bool" where
  "Range_equalsRange a b =
     (case (a, b) of
        (None, None) \<Rightarrow> True
      | (Some r, Some s) \<Rightarrow> startLineNumber r = startLineNumber s \<and> startColumn r = startColumn s \<and>
          endLineNumber r = endLineNumber s \<and> endColumn r = endColumn s
      | _ \<Rightarrow> False)"

definition Range_getEndPosition :: "IRange \<Rightarrow> IPosition" where
  "Range_getEndPosition rg = Position_new (endLineNumber rg) (endColumn rg)"

definition Range_getStartPosition :: "IRange \<Rightarrow> IPosition" where
  "Range_getStartPosition rg = Position_new (startLineNumber rg) (startColumn rg)"

definition Range_setEndPosition :: "IRange \<Rightarrow> int \<Rightarrow> int \<Rightarrow> IRange" where
  "Range_setEndPosition r el ec = Range_new (startLineNumber r) (startColumn r) el ec"

definition Range_setStartPosition :: "IRange \<Rightarrow> int \<Rightarrow> int \<Rightarrow> IRange" where
  "Range_setStartPosition r sl sc = Range_new sl sc (endLineNumber r) (endColumn r)"

definition Range_collapseToStart :: "IRange \<Rightarrow> IRange" where
  "Range_collapseToStart r =
     Range_new (startLineNumber r) (startColumn r) (startLineNumber r) (startColumn r)"

definition Range_collapseToEnd :: "IRange \<Rightarrow> IRange" where
  "Range_collapseToEnd r = Range_new (endLineNumber r) (endColumn r) (endLineNumber r) (endColumn r)"

definition Range_delta :: "IRange \<Rightarrow> int \<Rightarrow> IRange" where
  "Range_delta r lineCount =
     Range_new (startLineNumber r + lineCount) (startColumn r) (endLineNumber r + lineCount) (endColumn r)"

definition Range_isSingleLine :: "IRange \<Rightarrow> bool" where
  "Range_isSingleLine r \<longleftrightarrow> startLineNumber r = endLineNumber r"

definition Range_fromPositions :: "IPosition \<Rightarrow> IPosition \<Rightarrow> IRange" where
  "Range_fromPositions p q = Range_new (lineNumber p) (column p) (lineNumber q) (column q)"

definition Range_lift :: "IRange option \<Rightarrow> IRange option" where
  "Range_lift rg = map_option (\<lambda>r. Range_new (startLineNumber r) (startColumn r) (endLineNumber r) (endColumn r)) rg"

definition Range_areIntersectingOrTouching :: "IRange \<Rightarrow> IRange \<Rightarrow> bool" where
  "Range_areIntersectingOrTouching a b =
     (if endLineNumber a < startLineNumber b \<or>
         endLineNumber a = startLineNumber b \<and> endColumn a < startColumn b then False
      else if endLineNumber b < startLineNumber a \<or>
         endLineNumber b = startLineNumber a \<and> endColumn b < startColumn a then False
      else True)"

definition Range_areIntersecting :: "IRange \<Rightarrow> IRange \<Rightarrow> bool" where
  "Range_areIntersecting a b =
     (if endLineNumber a < startLineNumber b \<or>
         endLineNumber a = startLineNumber b \<and> endColumn a \<le> startColumn b then False
      else if endLineNumber b < startLineNumber a \<or>
         endLineNumber b = startLineNumber a \<and> endColumn b \<le> startColumn a then False
      else True)"

definition Range_areOnlyIntersecting :: "IRange \<Rightarrow> IRange \<Rightarrow> bool" where
  "Range_areOnlyIntersecting a b =
     (if endLineNumber a < startLineNumber b - 1 \<or>
         endLineNumber a = startLineNumber b \<and> endColumn a < startColumn b - 1 then False
      else if endLineNumber b < startLineNumber a - 1 \<or>
         endLineNumber b = startLineNumber a \<and> endColumn b < startColumn a - 1 then False
      else True)"

definition Range_compareRangesUsingStarts :: "IRange option \<Rightarrow> IRange option \<Rightarrow> int" where
  "Range_compareRangesUsingStarts x y =
     (case (x, y) of
        (Some a, Some b) \<Rightarrow>
          (if to_int32 (startLineNumber a) = to_int32 (startLineNumber b) then
             (if to_int32 (startColumn a) = to_int32 (startColumn b) then
                (if to_int32 (endLineNumber a) = to_int32 (endLineNumber b)
                 then to_int32 (endColumn a) - to_int32 (endColumn b)
                 else to_int32 (endLineNumber a) - to_int32 (endLineNumber b))
              else to_int32 (startColumn a) - to_int32 (startColumn b))
           else to_int32 (startLineNumber a) - to_int32 (startLineNumber b))
      | _ \<Rightarrow> (let aExists = (if x \<noteq> None then 1 else 0); bExists = (if y \<noteq> None then 1 else 0)
              in aExists - bExists))"

definition Range_compareRangesUsingEnds :: "IRange \<Rightarrow> IRange \<Rightarrow> int" where
  "Range_compareRangesUsingEnds a b =
     (if endLineNumber a = endLineNumber b then
        (if endColumn a = endColumn b then
           (if startLineNumber a = startLineNumber b
            then startColumn a - startColumn b
            else startLineNumber a - startLineNumber b)
         else endColumn a - endColumn b)
      else endLineNumber a - endLineNumber b)"

definition Range_spansMultipleLines :: "IRange \<Rightarrow> bool" where
  "Range_spansMultipleLines rg \<longleftrightarrow> endLineNumber rg > startLineNumber rg"

subsection \<open>Ranges as sets of positions\<close>

abbreviation range_start :: "IRange \<Rightarrow> IPosition" where
  "range_start \<equiv> Range_getStartPosition"

abbreviation range_end :: "IRange \<Rightarrow> IPosition" where
  "range_end \<equiv> Range_getEndPosition"

text \<open>What the constructor of the class guarantees.\<close>

definition range_wf :: "IRange \<Rightarrow> bool" where
  "range_wf r \<longleftrightarrow> range_start r \<le> range_end r"

definition positions_of :: "IRange \<Rightarrow> IPosition set" where
  "positions_of r = {p. range_start r \<le> p \<and> p \<le> range_end r}"

lemma position_sel [simp]:
  "lineNumber (Position_new l c) = l" "column (Position_new l c) = c"
  by (simp_all add: Position_new_def)

lemma range_pos_sel [simp]:
  "lineNumber (range_start r) = startLineNumber r" "column (range_start r) = startColumn r"
  "lineNumber (range_end r) = endLineNumber r" "column (range_end r) = endColumn r"
  by (simp_all add: Range_getStartPosition_def Range_getEndPosition_def)

lemma range_wf_iff:
  "range_wf r \<longleftrightarrow> startLineNumber r < endLineNumber r \<or>
     startLineNumber r = endLineNumber r \<and> startColumn r \<le> endColumn r"
  by (simp add: range_wf_def IPosition_le_iff)

lemma Range_new_wf: "range_wf (Range_new sl sc el ec)"
  by (auto simp: Range_new_def range_wf_iff)

lemma Range_new_ordered:
  "sl < el \<or> sl = el \<and> sc \<le> ec \<Longrightarrow>
     Range_new sl sc el ec = \<lparr>startLineNumber = sl, startColumn = sc, endLineNumber = el, endColumn = ec\<rparr>"
  by (auto simp: Range_new_def)

lemma range_eq_iff: "r = s \<longleftrightarrow> range_start r = range_start s \<and> range_end r = range_end s"
  by (auto simp: IPosition_eq_iff)

lemma Range_fromPositions_ends:
  "range_start (Range_fromPositions p q) = min p q" "range_end (Range_fromPositions p q) = max p q"
  by (auto simp: Range_fromPositions_def Range_new_def IPosition_eq_iff min_def max_def IPosition_le_iff)

lemmas range_op_defs [range_defs] = IPosition_le_iff IPosition_less_iff range_wf_iff

lemma containsPosition_iff: "Range_containsPosition r p \<longleftrightarrow> p \<in> positions_of r"
  by (auto simp: Range_containsPosition_def positions_of_def range_defs)

lemma strictContainsPosition_iff:
  "Range_strictContainsPosition r p \<longleftrightarrow> range_start r < p \<and> p < range_end r"
  by (auto simp: Range_strictContainsPosition_def range_defs)

lemma containsRange_iff:
  "range_wf s \<Longrightarrow> Range_containsRange r s \<longleftrightarrow> range_start r \<le> range_start s \<and> range_end s \<le> range_end r"
  by (auto simp: Range_containsRange_def range_defs)

lemma strictContainsRange_iff:
  "range_wf s \<Longrightarrow> Range_strictContainsRange r s \<longleftrightarrow> range_start r < range_start s \<and> range_end s < range_end r"
  by (auto simp: Range_strictContainsRange_def range_defs)

lemma positions_of_subset:
  assumes "range_wf s"
  shows "positions_of s \<subseteq> positions_of r \<longleftrightarrow> range_start r \<le> range_start s \<and> range_end s \<le> range_end r"
  using assms by (auto simp: positions_of_def range_wf_def)

text \<open>The branches on lines and columns compute the smaller and the larger position.\<close>

lemma lex_min:
  "(if lineNumber q < lineNumber p then (lineNumber q, column q)
    else if lineNumber q = lineNumber p then (lineNumber q, min (column q) (column p))
    else (lineNumber p, column p)) = (lineNumber (min p q), column (min p q))"
  for p q :: IPosition
  by (auto simp: min_def IPosition_le_iff)

lemma lex_max:
  "(if lineNumber p < lineNumber q then (lineNumber q, column q)
    else if lineNumber q = lineNumber p then (lineNumber q, max (column q) (column p))
    else (lineNumber p, column p)) = (lineNumber (max p q), column (max p q))"
  for p q :: IPosition
  by (auto simp: max_def IPosition_le_iff)

lemma lex_max':
  "(if lineNumber p < lineNumber q then (lineNumber q, column q)
    else if lineNumber p = lineNumber q then (lineNumber p, max (column p) (column q))
    else (lineNumber p, column p)) = (lineNumber (max p q), column (max p q))"
  for p q :: IPosition
  by (auto simp: max_def IPosition_le_iff)

lemma lex_min':
  "(if lineNumber q < lineNumber p then (lineNumber q, column q)
    else if lineNumber p = lineNumber q then (lineNumber p, min (column p) (column q))
    else (lineNumber p, column p)) = (lineNumber (min p q), column (min p q))"
  for p q :: IPosition
  by (auto simp: min_def IPosition_le_iff)

lemma lex_le:
  "(if lineNumber p > lineNumber q then None
    else if lineNumber p = lineNumber q \<and> column p > column q then None else Some x) =
     (if p \<le> q then Some x else None)"
  for p q :: IPosition
  by (auto simp: IPosition_le_iff)

lemma plusRange_eq:
  "Range_plusRange a b =
     Range_fromPositions (min (range_start a) (range_start b)) (max (range_end a) (range_end b))"
  by (simp only: Range_plusRange_def Range_fromPositions_def Let_def prod.case
      lex_min [of "range_start b" "range_start a", unfolded range_pos_sel]
      lex_max [of "range_end a" "range_end b", unfolded range_pos_sel])

lemma plusRange_ends:
  assumes "range_wf a" and "range_wf b"
  shows "range_start (Range_plusRange a b) = min (range_start a) (range_start b)"
    and "range_end (Range_plusRange a b) = max (range_end a) (range_end b)"
proof -
  have "min (range_start a) (range_start b) \<le> max (range_end a) (range_end b)"
    using assms by (auto simp: range_wf_def min_le_iff_disj le_max_iff_disj)
  then show "range_start (Range_plusRange a b) = min (range_start a) (range_start b)"
    and "range_end (Range_plusRange a b) = max (range_end a) (range_end b)"
    by (simp_all only: plusRange_eq Range_fromPositions_ends min_absorb1 max_absorb2)
qed

lemma intersectRanges_eq:
  "Range_intersectRanges a b =
     (let s = max (range_start a) (range_start b); e = min (range_end a) (range_end b)
      in if s \<le> e then Some (Range_fromPositions s e) else None)"
proof -
  let ?s = "max (range_start a) (range_start b)" and ?e = "min (range_end a) (range_end b)"
  have "Range_intersectRanges a b =
      (if lineNumber ?s > lineNumber ?e then None
       else if lineNumber ?s = lineNumber ?e \<and> column ?s > column ?e then None
       else Some (Range_fromPositions ?s ?e))"
    by (simp only: Range_intersectRanges_def Range_fromPositions_def Let_def prod.case
        lex_max' [of "range_start a" "range_start b", unfolded range_pos_sel]
        lex_min' [of "range_end b" "range_end a", unfolded range_pos_sel])
  then show ?thesis
    by (simp only: Let_def lex_le)
qed

lemma intersectingOrTouching_iff:
  "Range_areIntersectingOrTouching a b \<longleftrightarrow> range_start b \<le> range_end a \<and> range_start a \<le> range_end b"
  by (auto simp: Range_areIntersectingOrTouching_def range_defs)

lemma areIntersecting_iff:
  "Range_areIntersecting a b \<longleftrightarrow> range_start b < range_end a \<and> range_start a < range_end b"
  by (auto simp: Range_areIntersecting_def range_defs)

subsection \<open>The range comparators\<close>

definition is_int32_range :: "IRange \<Rightarrow> bool" where
  "is_int32_range r \<longleftrightarrow> is_int32_position (range_start r) \<and> is_int32_position (range_end r)"

definition is_int32_range_option :: "IRange option \<Rightarrow> bool" where
  "is_int32_range_option x \<longleftrightarrow> (case x of None \<Rightarrow> True | Some r \<Rightarrow> is_int32_range r)"

lemma compareRangesUsingStarts_Some:
  assumes "is_int32_range a" and "is_int32_range b"
  shows "Range_compareRangesUsingStarts (Some a) (Some b) \<le> 0 \<longleftrightarrow>
      range_start a < range_start b \<or> range_start a = range_start b \<and> range_end a \<le> range_end b"
    and "Range_compareRangesUsingStarts (Some a) (Some b) = 0 \<longleftrightarrow> a = b"
  using assms
  by (auto simp: Range_compareRangesUsingStarts_def is_int32_range_def is_int32_position_def
      range_defs IPosition_eq_iff)

interpretation range_starts_cmp: comparator Range_compareRangesUsingStarts is_int32_range_option
proof unfold_locales
  fix a b
  show "sgn (Range_compareRangesUsingStarts a b) = - sgn (Range_compareRangesUsingStarts b a)"
    by (auto simp: Range_compareRangesUsingStarts_def Let_def sgn_if split: option.splits)
next
  fix a b c assume h: "is_int32_range_option a" "is_int32_range_option b" "is_int32_range_option c"
    "Range_compareRangesUsingStarts a b \<le> 0" "Range_compareRangesUsingStarts b c \<le> 0"
  show "Range_compareRangesUsingStarts a c \<le> 0"
  proof (cases "a = None \<or> b = None \<or> c = None")
    case True
    with h show ?thesis by (auto simp: Range_compareRangesUsingStarts_def Let_def split: option.splits)
  next
    case False
    then obtain x y z where "a = Some x" "b = Some y" "c = Some z" by auto
    with h show ?thesis
      by (auto simp: is_int32_range_option_def compareRangesUsingStarts_Some)
  qed
qed

lemma compareRangesUsingEnds_le:
  "Range_compareRangesUsingEnds a b \<le> 0 \<longleftrightarrow>
      range_end a < range_end b \<or> range_end a = range_end b \<and> range_start a \<le> range_start b"
  by (auto simp: Range_compareRangesUsingEnds_def range_defs IPosition_eq_iff)

interpretation range_ends_cmp: comparator Range_compareRangesUsingEnds "\<lambda>_. True"
proof unfold_locales
  fix a b
  show "sgn (Range_compareRangesUsingEnds a b) = - sgn (Range_compareRangesUsingEnds b a)"
    by (auto simp: Range_compareRangesUsingEnds_def sgn_if)
qed (auto simp: compareRangesUsingEnds_le)

section \<open>Selections\<close>

text \<open>\<open>class Selection extends Range\<close>: the four numbers as given, beside the ordered range.\<close>

datatype SelectionDirection = LTR | RTL

record Selection = IRange +
  selectionStartLineNumber :: int
  selectionStartColumn :: int
  positionLineNumber :: int
  positionColumn :: int

definition Selection_new :: "int \<Rightarrow> int \<Rightarrow> int \<Rightarrow> int \<Rightarrow> Selection" where
  "Selection_new sl sc pl pc =
     IRange.extend (Range_new sl sc pl pc)
       \<lparr>selectionStartLineNumber = sl, selectionStartColumn = sc,
        positionLineNumber = pl, positionColumn = pc\<rparr>"

definition Selection_selectionsEqual :: "Selection \<Rightarrow> Selection \<Rightarrow> bool" where
  "Selection_selectionsEqual a b \<longleftrightarrow>
     selectionStartLineNumber a = selectionStartLineNumber b \<and>
     selectionStartColumn a = selectionStartColumn b \<and>
     positionLineNumber a = positionLineNumber b \<and> positionColumn a = positionColumn b"

definition Selection_getDirection :: "Selection \<Rightarrow> SelectionDirection" where
  "Selection_getDirection s =
     (if selectionStartLineNumber s = startLineNumber s \<and> selectionStartColumn s = startColumn s
      then LTR else RTL)"

definition Selection_setEndPosition :: "Selection \<Rightarrow> int \<Rightarrow> int \<Rightarrow> Selection" where
  "Selection_setEndPosition s el ec =
     (if Selection_getDirection s = LTR
      then Selection_new (startLineNumber s) (startColumn s) el ec
      else Selection_new el ec (startLineNumber s) (startColumn s))"

definition Selection_getPosition :: "Selection \<Rightarrow> IPosition" where
  "Selection_getPosition s = Position_new (positionLineNumber s) (positionColumn s)"

definition Selection_getSelectionStart :: "Selection \<Rightarrow> IPosition" where
  "Selection_getSelectionStart s = Position_new (selectionStartLineNumber s) (selectionStartColumn s)"

definition Selection_setStartPosition :: "Selection \<Rightarrow> int \<Rightarrow> int \<Rightarrow> Selection" where
  "Selection_setStartPosition s sl sc =
     (if Selection_getDirection s = LTR
      then Selection_new sl sc (endLineNumber s) (endColumn s)
      else Selection_new (endLineNumber s) (endColumn s) sl sc)"

definition Selection_fromPositions :: "IPosition \<Rightarrow> IPosition \<Rightarrow> Selection" where
  "Selection_fromPositions p q = Selection_new (lineNumber p) (column p) (lineNumber q) (column q)"

definition Selection_createWithDirection ::
    "int \<Rightarrow> int \<Rightarrow> int \<Rightarrow> int \<Rightarrow> SelectionDirection \<Rightarrow> Selection" where
  "Selection_createWithDirection sl sc el ec direction =
     (if direction = LTR then Selection_new sl sc el ec else Selection_new el ec sl sc)"

definition Selection_fromRange :: "IRange \<Rightarrow> SelectionDirection \<Rightarrow> Selection" where
  "Selection_fromRange r direction =
     (if direction = LTR
      then Selection_new (startLineNumber r) (startColumn r) (endLineNumber r) (endColumn r)
      else Selection_new (endLineNumber r) (endColumn r) (startLineNumber r) (startColumn r))"

definition Selection_liftSelection :: "Selection \<Rightarrow> Selection" where
  "Selection_liftSelection s =
     Selection_new (selectionStartLineNumber s) (selectionStartColumn s)
       (positionLineNumber s) (positionColumn s)"

text \<open>Both arrays are present (a missing array equals only a missing array).\<close>

definition Selection_selectionsArrEqual :: "Selection list option \<Rightarrow> Selection list option \<Rightarrow> bool" where
  "Selection_selectionsArrEqual x y =
     (case (x, y) of
        (None, None) \<Rightarrow> True
      | (Some a, Some b) \<Rightarrow> length a = length b \<and> list_all2 Selection_selectionsEqual a b
      | _ \<Rightarrow> False)"

text \<open>The range part of a selection is determined by its two ends.\<close>

definition selection_wf :: "Selection \<Rightarrow> bool" where
  "selection_wf s \<longleftrightarrow> s = Selection_liftSelection s"

definition selection_range :: "Selection \<Rightarrow> IRange" where
  "selection_range s = IRange.truncate s"

lemma Selection_new_sel [simp]:
  "selectionStartLineNumber (Selection_new sl sc pl pc) = sl"
  "selectionStartColumn (Selection_new sl sc pl pc) = sc"
  "positionLineNumber (Selection_new sl sc pl pc) = pl"
  "positionColumn (Selection_new sl sc pl pc) = pc"
  "startLineNumber (Selection_new sl sc pl pc) = startLineNumber (Range_new sl sc pl pc)"
  "startColumn (Selection_new sl sc pl pc) = startColumn (Range_new sl sc pl pc)"
  "endLineNumber (Selection_new sl sc pl pc) = endLineNumber (Range_new sl sc pl pc)"
  "endColumn (Selection_new sl sc pl pc) = endColumn (Range_new sl sc pl pc)"
  by (simp_all add: Selection_new_def IRange.defs)

lemma Selection_new_wf: "selection_wf (Selection_new sl sc pl pc)"
  by (simp add: selection_wf_def Selection_liftSelection_def)

lemma selection_range_new: "selection_range (Selection_new sl sc pl pc) = Range_new sl sc pl pc"
  by (simp add: selection_range_def Selection_new_def IRange.defs)

lemma selectionsEqual_eq:
  "selection_wf a \<Longrightarrow> selection_wf b \<Longrightarrow> Selection_selectionsEqual a b \<longleftrightarrow> a = b"
  unfolding selection_wf_def Selection_liftSelection_def Selection_selectionsEqual_def by metis

section \<open>Properties\<close>

text \<open>Sorting positions with \<open>Position.compare\<close> as comparator, as the callers do, returns a
  rearrangement that \<open>Position.isBeforeOrEqual\<close> orders, for positions whose numbers fit 32 bits
  (the comparator truncates them with \<open>| 0\<close>).\<close>

lemma Position_sort_correct:
  assumes "\<forall>p \<in> set ps. is_int32_position p"
  shows "mset (js_sort Position_compare ps) = mset ps \<and>
    sorted_wrt Position_isBeforeOrEqual (js_sort Position_compare ps)"
proof
  show "mset (js_sort Position_compare ps) = mset ps" by simp
  have "sorted_wrt (\<lambda>a b. Position_compare a b \<le> 0) (js_sort Position_compare ps)"
    using assms by (intro position_cmp.sorted_js_sort) auto
  then show "sorted_wrt Position_isBeforeOrEqual (js_sort Position_compare ps)"
    by (rule sorted_wrt_mono_rel [rotated])
      (use assms in \<open>simp add: Position_compare_sign Position_isBeforeOrEqual_le\<close>)
qed

lemma Position_sort_correct_witness:
  "mset (js_sort Position_compare [Position_new 2 1, Position_new 1 5]) = {#Position_new 2 1, Position_new 1 5#} \<and>
   sorted_wrt Position_isBeforeOrEqual (js_sort Position_compare [Position_new 2 1, Position_new 1 5])"
  using Position_sort_correct [of "[Position_new 2 1, Position_new 1 5]"]
  by (simp add: is_int32_position_def is_int32_def add_mset_commute)

text \<open>\<open>Range.intersectRanges\<close> computes the set of positions two ordered ranges share: the range
  it returns is ordered and contains exactly those, and it returns null exactly when there are none.\<close>

lemma intersectRanges_set:
  assumes "range_wf a" and "range_wf b"
  shows "case Range_intersectRanges a b of
      Some r \<Rightarrow> range_wf r \<and> (\<forall>p. Range_containsPosition r p \<longleftrightarrow> Range_containsPosition a p \<and> Range_containsPosition b p)
    | None \<Rightarrow> (\<forall>p. \<not> (Range_containsPosition a p \<and> Range_containsPosition b p))"
proof -
  let ?s = "max (range_start a) (range_start b)" and ?e = "min (range_end a) (range_end b)"
  have both: "Range_containsPosition a p \<and> Range_containsPosition b p \<longleftrightarrow> ?s \<le> p \<and> p \<le> ?e" for p
    unfolding containsPosition_iff positions_of_def by auto
  show ?thesis
  proof (cases "?s \<le> ?e")
    case True
    then have "range_start (Range_fromPositions ?s ?e) = ?s" "range_end (Range_fromPositions ?s ?e) = ?e"
      by (simp_all only: Range_fromPositions_ends min_absorb1 max_absorb2)
    with True show ?thesis
      unfolding both unfolding containsPosition_iff positions_of_def intersectRanges_eq Let_def range_wf_def
      by simp
  next
    case False
    then show ?thesis unfolding both intersectRanges_eq Let_def by (auto dest: order.trans)
  qed
qed

lemma intersectRanges_set_witness:
  "range_wf (Range_new 1 1 3 4) \<and> Range_intersectRanges (Range_new 1 1 3 4) (Range_new 2 5 9 1) = Some (Range_new 2 5 3 4) \<and>
   (\<forall>p. Range_containsPosition (Range_new 2 5 3 4) p \<longleftrightarrow>
      Range_containsPosition (Range_new 1 1 3 4) p \<and> Range_containsPosition (Range_new 2 5 9 1) p)"
proof -
  have "Range_intersectRanges (Range_new 1 1 3 4) (Range_new 2 5 9 1) = Some (Range_new 2 5 3 4)" by code_simp
  with intersectRanges_set [OF Range_new_wf [of 1 1 3 4] Range_new_wf [of 2 5 9 1]] show ?thesis
    by (auto simp: Range_new_wf)
qed

text \<open>\<open>Range.plusRange\<close> is the least range containing both: it contains the two ranges, and
  every range that contains both contains it.\<close>

lemma plusRange_least:
  assumes "range_wf a" and "range_wf b"
  shows "range_wf (Range_plusRange a b) \<and>
    Range_containsRange (Range_plusRange a b) a \<and> Range_containsRange (Range_plusRange a b) b \<and>
    (\<forall>c. Range_containsRange c a \<and> Range_containsRange c b \<longleftrightarrow> Range_containsRange c (Range_plusRange a b))"
proof -
  have wf: "range_wf (Range_plusRange a b)"
    using assms unfolding range_wf_def plusRange_ends [OF assms] by (auto simp: min_le_iff_disj le_max_iff_disj)
  then show ?thesis
    using assms by (auto simp: containsRange_iff plusRange_ends)
qed

lemma plusRange_least_witness:
  "Range_plusRange (Range_new 1 4 2 1) (Range_new 1 2 1 9) = Range_new 1 2 2 1 \<and>
   Range_containsRange (Range_plusRange (Range_new 1 4 2 1) (Range_new 1 2 1 9)) (Range_new 1 2 1 9)"
proof
  show "Range_plusRange (Range_new 1 4 2 1) (Range_new 1 2 1 9) = Range_new 1 2 2 1" by code_simp
  show "Range_containsRange (Range_plusRange (Range_new 1 4 2 1) (Range_new 1 2 1 9)) (Range_new 1 2 1 9)"
    using plusRange_least [OF Range_new_wf [of 1 4 2 1] Range_new_wf [of 1 2 1 9]] by blast
qed

text \<open>For ordered ranges the three overlap predicates agree with the intersection:
  \<open>areIntersectingOrTouching\<close> holds exactly when \<open>intersectRanges\<close> is not null, and
  \<open>areIntersecting\<close> exactly when that intersection is not empty, for ranges that are not empty
  themselves; ranges that only touch are not intersecting.\<close>

lemma areIntersecting_spec:
  assumes "range_wf a" and "range_wf b"
  shows "(Range_areIntersectingOrTouching a b \<longleftrightarrow> Range_intersectRanges a b \<noteq> None) \<and>
    (\<not> Range_isEmpty a \<and> \<not> Range_isEmpty b \<longrightarrow>
      (Range_areIntersecting a b \<longleftrightarrow> (\<exists>r. Range_intersectRanges a b = Some r \<and> \<not> Range_isEmpty r))) \<and>
    (range_end a = range_start b \<longrightarrow> Range_areIntersectingOrTouching a b \<and> \<not> Range_areIntersecting a b)"
proof -
  have empty: "Range_isEmpty r \<longleftrightarrow> range_start r = range_end r" for r
    by (auto simp: Range_isEmpty_def IPosition_eq_iff)
  have ends: "range_start (Range_fromPositions s e) = s \<and> range_end (Range_fromPositions s e) = e" if "s \<le> e" for s e
    using that by (simp only: Range_fromPositions_ends min_absorb1 max_absorb2 simp_thms)
  have le: "range_start a \<le> range_end a" "range_start b \<le> range_end b"
    using assms by (simp_all only: range_wf_def)
  have "Range_areIntersectingOrTouching a b \<longleftrightarrow> Range_intersectRanges a b \<noteq> None"
    using le by (auto simp: intersectingOrTouching_iff intersectRanges_eq Let_def)
  moreover have "Range_areIntersecting a b \<longleftrightarrow> (\<exists>r. Range_intersectRanges a b = Some r \<and> \<not> Range_isEmpty r)"
    if "range_start a \<noteq> range_end a" "range_start b \<noteq> range_end b"
  proof -
    let ?s = "max (range_start a) (range_start b)" and ?e = "min (range_end a) (range_end b)"
    have "Range_areIntersecting a b \<longleftrightarrow> ?s < ?e" using le that by (auto simp: areIntersecting_iff)
    also have "\<dots> \<longleftrightarrow> ?s \<le> ?e \<and> \<not> Range_isEmpty (Range_fromPositions ?s ?e)"
      using ends [of ?s ?e] unfolding empty by (metis order_le_less order_less_irrefl)
    also have "\<dots> \<longleftrightarrow> (\<exists>r. Range_intersectRanges a b = Some r \<and> \<not> Range_isEmpty r)"
      unfolding intersectRanges_eq Let_def by (cases "?s \<le> ?e") (simp_all only: if_True if_False simp_thms option.inject option.distinct not_None_eq ex_simps)
    finally show ?thesis .
  qed
  moreover have "Range_areIntersectingOrTouching a b \<and> \<not> Range_areIntersecting a b" if "range_end a = range_start b"
    using that le unfolding intersectingOrTouching_iff areIntersecting_iff by (metis order.refl order.trans order_less_irrefl)
  ultimately show ?thesis unfolding empty by blast
qed

lemma areIntersecting_spec_witness:
  "Range_areIntersectingOrTouching (Range_new 1 1 1 5) (Range_new 1 5 1 8) \<and>
   \<not> Range_areIntersecting (Range_new 1 1 1 5) (Range_new 1 5 1 8)"
proof -
  have "range_end (Range_new 1 1 1 5) = range_start (Range_new 1 5 1 8)" by code_simp
  with areIntersecting_spec [OF Range_new_wf [of 1 1 1 5] Range_new_wf [of 1 5 1 8]] show ?thesis by blast
qed

text \<open>Selections keep their direction: from a range that is not empty, \<open>Selection.fromRange\<close>
  makes a selection that \<open>getDirection\<close> reads back, whose range is the given one, and moving an end
  of it with \<open>setEndPosition\<close> within the range's order keeps direction and start.\<close>

lemma Selection_fromRange_direction:
  assumes "range_wf r" and "\<not> Range_isEmpty r"
    and "startLineNumber r < el \<or> startLineNumber r = el \<and> startColumn r < ec"
  shows "selection_range (Selection_fromRange r d) = r \<and>
    Selection_getDirection (Selection_fromRange r d) = d \<and>
    Selection_getDirection (Selection_setEndPosition (Selection_fromRange r d) el ec) = d \<and>
    selection_range (Selection_setEndPosition (Selection_fromRange r d) el ec) = Range_setEndPosition r el ec"
  using assms
  by (cases d) (auto simp: Selection_fromRange_def selection_range_new Range_new_def range_wf_iff Range_isEmpty_def
      Selection_getDirection_def Selection_setEndPosition_def Range_setEndPosition_def)

lemma Selection_fromRange_direction_witness:
  "Selection_getDirection (Selection_setEndPosition (Selection_fromRange (Range_new 1 2 3 4) RTL) 2 1) = RTL"
  using Selection_fromRange_direction [OF Range_new_wf [of 1 2 3 4], of 2 1 RTL]
  by (simp add: Range_new_def Range_isEmpty_def)

end
