(* ===== verification/Interval_Sets.thy ===== *)
theory Interval_Sets
  imports Prelude
begin

text \<open>
  What \<open>OffsetRange\<close> and \<open>LineRange\<close> have in common: half-open integer intervals, and sorted
  arrays of intervals in which no two intervals touch.  The locale \<open>half_open\<close> states the interface
  (a start, an exclusive end and a constructor for ordered ends); the lemmas about inserting an
  interval into such an array are proved once in it and used for both classes.
\<close>

text \<open>\<open>while (i < xs.length && p(xs[i])) i++\<close>\<close>

function idx_while :: "('a \<Rightarrow> bool) \<Rightarrow> 'a list \<Rightarrow> nat \<Rightarrow> nat" where
  "idx_while p xs i = (if i < length xs \<and> p (xs ! i) then idx_while p xs (Suc i) else i)"
  by pat_completeness auto
termination by (relation "measure (\<lambda>(p, xs, i). length xs - i)") auto

declare idx_while.simps [simp del]

lemma idx_while_spec:
  "i \<le> length xs \<Longrightarrow> i \<le> idx_while p xs i \<and> idx_while p xs i \<le> length xs \<and>
     (\<forall>k. i \<le> k \<and> k < idx_while p xs i \<longrightarrow> p (xs ! k)) \<and>
     (idx_while p xs i < length xs \<longrightarrow> \<not> p (xs ! idx_while p xs i))"
proof (induction p xs i rule: idx_while.induct)
  case (1 p xs i)
  show ?case
  proof (cases "i < length xs \<and> p (xs ! i)")
    case True
    then have eq: "idx_while p xs i = idx_while p xs (Suc i)"
      by (simp add: idx_while.simps [of p xs i])
    have "p (xs ! k)" if "i \<le> k" "k < idx_while p xs (Suc i)" for k
      using that True 1 by (cases "k = i") auto
    with 1 True show ?thesis unfolding eq by auto
  next
    case False
    then have "idx_while p xs i = i" by (subst idx_while.simps) (simp only: if_False)
    with False "1.prems" show ?thesis by auto
  qed
qed

section \<open>Sorted arrays of intervals\<close>

text \<open>The points an array of intervals covers.\<close>

definition points_of :: "('r \<Rightarrow> int) \<Rightarrow> ('r \<Rightarrow> int) \<Rightarrow> 'r list \<Rightarrow> int set" where
  "points_of lo hi rs = (\<Union>r \<in> set rs. {lo r..<hi r})"

text \<open>Sorted, each interval ordered, and a gap between any two of them.\<close>

definition gap_sorted :: "('r \<Rightarrow> int) \<Rightarrow> ('r \<Rightarrow> int) \<Rightarrow> 'r list \<Rightarrow> bool" where
  "gap_sorted lo hi rs \<longleftrightarrow> (\<forall>r \<in> set rs. lo r \<le> hi r) \<and> sorted_wrt (\<lambda>r s. hi r < lo s) rs"

lemma points_of_simps [simp]:
  "points_of lo hi [] = {}"
  "points_of lo hi (r # rs) = {lo r..<hi r} \<union> points_of lo hi rs"
  "points_of lo hi (rs @ ss) = points_of lo hi rs \<union> points_of lo hi ss"
  by (auto simp: points_of_def)

lemma gap_sorted_Nil [simp]: "gap_sorted lo hi []"
  by (simp add: gap_sorted_def)

lemma gap_sorted_Cons:
  "gap_sorted lo hi (r # rs) \<longleftrightarrow> lo r \<le> hi r \<and> (\<forall>s \<in> set rs. hi r < lo s) \<and> gap_sorted lo hi rs"
  by (auto simp: gap_sorted_def)

lemma gap_sorted_append:
  "gap_sorted lo hi (rs @ ss) \<longleftrightarrow>
     gap_sorted lo hi rs \<and> gap_sorted lo hi ss \<and> (\<forall>r \<in> set rs. \<forall>s \<in> set ss. hi r < lo s)"
  by (auto simp: gap_sorted_def sorted_wrt_append)

lemma gap_sorted_take: "gap_sorted lo hi rs \<Longrightarrow> gap_sorted lo hi (take n rs)"
  by (metis append_take_drop_id gap_sorted_append)

lemma gap_sorted_drop: "gap_sorted lo hi rs \<Longrightarrow> gap_sorted lo hi (drop n rs)"
  by (metis append_take_drop_id gap_sorted_append)

lemma gap_sorted_nth_le: "gap_sorted lo hi rs \<Longrightarrow> i < length rs \<Longrightarrow> lo (rs ! i) \<le> hi (rs ! i)"
  by (auto simp: gap_sorted_def)

lemma gap_sorted_nth_less:
  "gap_sorted lo hi rs \<Longrightarrow> i < j \<Longrightarrow> j < length rs \<Longrightarrow> hi (rs ! i) < lo (rs ! j)"
  by (auto simp: gap_sorted_def sorted_wrt_iff_nth_less)

lemma gap_sorted_mono:
  assumes "gap_sorted lo hi rs" and "i \<le> j" and "j < length rs"
  shows "lo (rs ! i) \<le> lo (rs ! j)" and "hi (rs ! i) \<le> hi (rs ! j)"
  using assms gap_sorted_nth_less [OF assms(1), of i j] gap_sorted_nth_le [OF assms(1), of i]
    gap_sorted_nth_le [OF assms(1), of j]
  by (cases "i = j"; simp)+

lemma gap_sorted_le_last:
  assumes "gap_sorted lo hi rs" and "r \<in> set rs"
  shows "hi r \<le> hi (last rs)"
  using assms
proof (induction rs)
  case (Cons a rs)
  show ?case
  proof (cases "rs = []")
    case True
    with Cons.prems show ?thesis by simp
  next
    case False
    then have "hi a < lo (last rs)" "lo (last rs) \<le> hi (last rs)"
      using Cons.prems(1) by (auto simp: gap_sorted_def)
    moreover have "last (a # rs) = last rs" using False by simp
    moreover have "r = a \<or> hi r \<le> hi (last rs)"
      using Cons.IH Cons.prems by (auto simp: gap_sorted_Cons)
    ultimately show ?thesis by auto
  qed
qed simp

locale half_open =
  fixes lo hi :: "'r \<Rightarrow> int"
    and mk :: "int \<Rightarrow> int \<Rightarrow> 'r"
  assumes lo_mk: "a \<le> b \<Longrightarrow> lo (mk a b) = a"
    and hi_mk: "a \<le> b \<Longrightarrow> hi (mk a b) = b"
begin

text \<open>Inserting an interval into a gap.\<close>

lemma insert_gap:
  assumes "gap_sorted lo hi rs" and "i \<le> length rs" and "a \<le> b"
    and "\<And>k. k < i \<Longrightarrow> hi (rs ! k) < a" and "\<And>k. i \<le> k \<Longrightarrow> k < length rs \<Longrightarrow> b < lo (rs ! k)"
  shows "gap_sorted lo hi (take i rs @ mk a b # drop i rs)"
    and "points_of lo hi (take i rs @ mk a b # drop i rs) = points_of lo hi rs \<union> {a..<b}"
proof -
  have before: "hi r < a" if "r \<in> set (take i rs)" for r
    using that assms(2,4) by (auto simp: in_set_conv_nth)
  have after: "b < lo r" if "r \<in> set (drop i rs)" for r
    using that assms(2) assms(5) [of "i + _"] by (auto simp: in_set_conv_nth)
  have "hi r < lo s" if "r \<in> set (take i rs)" "s \<in> set (drop i rs)" for r s
    using before [OF that(1)] after [OF that(2)] assms(3) by simp
  then show "gap_sorted lo hi (take i rs @ mk a b # drop i rs)"
    using assms(1,3) before after
    by (auto simp: gap_sorted_append gap_sorted_Cons lo_mk hi_mk gap_sorted_take gap_sorted_drop)
  have "points_of lo hi rs = points_of lo hi (take i rs) \<union> points_of lo hi (drop i rs)"
    by (metis append_take_drop_id points_of_simps(3))
  then show "points_of lo hi (take i rs @ mk a b # drop i rs) = points_of lo hi rs \<union> {a..<b}"
    using assms(3) by (auto simp: lo_mk hi_mk)
qed

text \<open>
  Replacing the intervals \<open>i, \<dots>, j - 1\<close>, exactly those that touch \<open>[a, b)\<close>, by the hull of their
  union with \<open>[a, b)\<close>.
\<close>

lemma hull_points:
  assumes gs: "gap_sorted lo hi rs" and ij: "i < j" "j \<le> length rs" and ab: "a \<le> b"
    and touch: "\<And>k. i \<le> k \<Longrightarrow> k < j \<Longrightarrow> a \<le> hi (rs ! k) \<and> lo (rs ! k) \<le> b"
  shows "{min a (lo (rs ! i))..<max b (hi (rs ! (j - 1)))} =
    {a..<b} \<union> points_of lo hi (take (j - i) (drop i rs))" (is "?hull = _ \<union> ?mid")
proof
  let ?seg = "take (j - i) (drop i rs)"
  have seg: "?seg ! k = rs ! (i + k)" "k < length ?seg" if "k < j - i" for k
    using that ij by simp_all
  have mem: "x \<in> points_of lo hi ?seg" if "i \<le> k" "k < j" "lo (rs ! k) \<le> x" "x < hi (rs ! k)" for x k
  proof -
    have "rs ! k \<in> set ?seg"
      using seg [of "k - i"] that by (metis diff_less_mono le_add_diff_inverse nth_mem)
    with that show ?thesis by (auto simp: points_of_def)
  qed
  show "?hull \<subseteq> {a..<b} \<union> ?mid"
  proof
    fix x assume x: "x \<in> ?hull"
    then consider "x < a" | "b \<le> x" | "a \<le> x \<and> x < b" by linarith
    then show "x \<in> {a..<b} \<union> ?mid"
    proof cases
      case 1
      with x touch [of i] ij mem [of i x] show ?thesis by auto
    next
      case 2
      have "i \<le> j - 1" "j - 1 < j" using ij by auto
      with 2 x touch [of "j - 1"] mem [of "j - 1" x] show ?thesis by auto
    qed auto
  qed
  have "x \<in> ?hull" if "x \<in> ?mid" for x
  proof -
    from that obtain k where k: "k < length ?seg" "lo (?seg ! k) \<le> x" "x < hi (?seg ! k)"
      by (auto simp: points_of_def in_set_conv_nth)
    then have kj: "k < j - i" using ij by simp
    have "lo (rs ! i) \<le> lo (rs ! (i + k))" and "hi (rs ! (i + k)) \<le> hi (rs ! (j - 1))"
      using kj ij by (intro gap_sorted_mono [OF gs]; simp)+
    with k seg(1) [OF kj] show ?thesis by (auto simp: min_le_iff_disj less_max_iff_disj)
  qed
  then show "{a..<b} \<union> ?mid \<subseteq> ?hull" by auto
qed

lemma replace_segment:
  assumes gs: "gap_sorted lo hi rs" and ij: "i < j" "j \<le> length rs" and ab: "a \<le> b"
    and before: "\<And>k. k < i \<Longrightarrow> hi (rs ! k) < a"
    and touch: "\<And>k. i \<le> k \<Longrightarrow> k < j \<Longrightarrow> a \<le> hi (rs ! k) \<and> lo (rs ! k) \<le> b"
    and after: "\<And>k. j \<le> k \<Longrightarrow> k < length rs \<Longrightarrow> b < lo (rs ! k)"
  defines "h \<equiv> mk (min a (lo (rs ! i))) (max b (hi (rs ! (j - 1))))"
  shows "gap_sorted lo hi (take i rs @ h # drop j rs)"
    and "points_of lo hi (take i rs @ h # drop j rs) = points_of lo hi rs \<union> {a..<b}"
proof -
  have ord: "min a (lo (rs ! i)) \<le> max b (hi (rs ! (j - 1)))" using ab by linarith
  note hsel = lo_mk [OF ord] hi_mk [OF ord]
  have bef: "hi r < lo h" if "r \<in> set (take i rs)" for r
    using that ij before gap_sorted_nth_less [OF gs, of _ i] unfolding h_def hsel
    by (auto simp: in_set_conv_nth)
  have aft: "hi h < lo s" if "s \<in> set (drop j rs)" for s
    using that ij after [of "j + _"] gap_sorted_nth_less [OF gs, of "j - 1" "j + _"] unfolding h_def hsel
    by (auto simp: in_set_conv_nth)
  have ordh: "lo h \<le> hi h" unfolding h_def hsel by (rule ord)
  have "hi r < lo s" if "r \<in> set (take i rs)" "s \<in> set (drop j rs)" for r s
    using bef [OF that(1)] aft [OF that(2)] ordh by simp
  then show "gap_sorted lo hi (take i rs @ h # drop j rs)"
    using gs bef aft ordh
    by (simp add: gap_sorted_append gap_sorted_Cons gap_sorted_take gap_sorted_drop)
  have split: "rs = take i rs @ take (j - i) (drop i rs) @ drop j rs"
    using take_drop_split [of i j rs] ij by simp
  have "points_of lo hi rs =
      points_of lo hi (take i rs) \<union> points_of lo hi (take (j - i) (drop i rs)) \<union> points_of lo hi (drop j rs)"
    by (subst split) (simp only: points_of_simps Un_assoc)
  then show "points_of lo hi (take i rs @ h # drop j rs) = points_of lo hi rs \<union> {a..<b}"
    using hull_points [OF gs ij ab touch] unfolding points_of_simps(2,3) h_def hsel by auto
qed

end

end
