(* ===== verification/Offset_Ranges.thy ===== *)
theory Offset_Ranges
  imports Interval_Sets
begin

text \<open>
  \<open>src/vs/editor/common/core/ranges/offsetRange.ts\<close>: half-open ranges of offsets and sorted sets of
  them.  The constructor throws on ends out of order, so every operation that builds a range returns
  a result.  A range denotes the set \<open>offsets_of\<close> of the offsets it contains; the predicates and
  operations are compared with the set operations, and \<open>OffsetRangeSet\<close> is a refinement of a finite
  set of offsets through \<open>points_of\<close>.
\<close>

record OffsetRange =
  start :: int
  endExclusive :: int

definition OffsetRange_new :: "int \<Rightarrow> int \<Rightarrow> OffsetRange result" where
  "OffsetRange_new s e =
     (if s > e then Inl BugIndicatingError else Inr \<lparr>start = s, endExclusive = e\<rparr>)"

definition OffsetRange_equals :: "OffsetRange \<Rightarrow> OffsetRange \<Rightarrow> bool" where
  "OffsetRange_equals r1 r2 \<longleftrightarrow> start r1 = start r2 \<and> endExclusive r1 = endExclusive r2"

definition OffsetRange_tryCreate :: "int \<Rightarrow> int \<Rightarrow> OffsetRange option result" where
  "OffsetRange_tryCreate s e = (if s > e then Inr None else rbind (OffsetRange_new s e) (\<lambda>r. Inr (Some r)))"

definition OffsetRange_ofLength :: "int \<Rightarrow> OffsetRange result" where
  "OffsetRange_ofLength n = OffsetRange_new 0 n"

definition OffsetRange_ofStartAndLength :: "int \<Rightarrow> int \<Rightarrow> OffsetRange result" where
  "OffsetRange_ofStartAndLength s n = OffsetRange_new s (s + n)"

definition OffsetRange_emptyAt :: "int \<Rightarrow> OffsetRange result" where
  "OffsetRange_emptyAt offset = OffsetRange_new offset offset"

definition OffsetRange_isEmpty :: "OffsetRange \<Rightarrow> bool" where
  "OffsetRange_isEmpty r \<longleftrightarrow> start r = endExclusive r"

definition OffsetRange_delta :: "OffsetRange \<Rightarrow> int \<Rightarrow> OffsetRange result" where
  "OffsetRange_delta r offset = OffsetRange_new (start r + offset) (endExclusive r + offset)"

definition OffsetRange_deltaStart :: "OffsetRange \<Rightarrow> int \<Rightarrow> OffsetRange result" where
  "OffsetRange_deltaStart r offset = OffsetRange_new (start r + offset) (endExclusive r)"

definition OffsetRange_deltaEnd :: "OffsetRange \<Rightarrow> int \<Rightarrow> OffsetRange result" where
  "OffsetRange_deltaEnd r offset = OffsetRange_new (start r) (endExclusive r + offset)"

definition OffsetRange_length :: "OffsetRange \<Rightarrow> int" where
  "OffsetRange_length r = endExclusive r - start r"

definition OffsetRange_containsRange :: "OffsetRange \<Rightarrow> OffsetRange \<Rightarrow> bool" where
  "OffsetRange_containsRange r other \<longleftrightarrow> start r \<le> start other \<and> endExclusive other \<le> endExclusive r"

definition OffsetRange_contains :: "OffsetRange \<Rightarrow> int \<Rightarrow> bool" where
  "OffsetRange_contains r offset \<longleftrightarrow> start r \<le> offset \<and> offset < endExclusive r"

definition OffsetRange_join :: "OffsetRange \<Rightarrow> OffsetRange \<Rightarrow> OffsetRange result" where
  "OffsetRange_join r other =
     OffsetRange_new (min (start r) (start other)) (max (endExclusive r) (endExclusive other))"

definition OffsetRange_intersect :: "OffsetRange \<Rightarrow> OffsetRange \<Rightarrow> OffsetRange option result" where
  "OffsetRange_intersect r other =
     (let s = max (start r) (start other); e = min (endExclusive r) (endExclusive other)
      in if s \<le> e then rbind (OffsetRange_new s e) (\<lambda>x. Inr (Some x)) else Inr None)"

definition OffsetRange_intersectionLength :: "OffsetRange \<Rightarrow> OffsetRange \<Rightarrow> int" where
  "OffsetRange_intersectionLength r other =
     (let s = max (start r) (start other); e = min (endExclusive r) (endExclusive other)
      in max 0 (e - s))"

definition OffsetRange_intersects :: "OffsetRange \<Rightarrow> OffsetRange \<Rightarrow> bool" where
  "OffsetRange_intersects r other \<longleftrightarrow>
     (let s = max (start r) (start other); e = min (endExclusive r) (endExclusive other) in s < e)"

definition OffsetRange_intersectsOrTouches :: "OffsetRange \<Rightarrow> OffsetRange \<Rightarrow> bool" where
  "OffsetRange_intersectsOrTouches r other \<longleftrightarrow>
     (let s = max (start r) (start other); e = min (endExclusive r) (endExclusive other) in s \<le> e)"

definition OffsetRange_isBefore :: "OffsetRange \<Rightarrow> OffsetRange \<Rightarrow> bool" where
  "OffsetRange_isBefore r other \<longleftrightarrow> endExclusive r \<le> start other"

definition OffsetRange_isAfter :: "OffsetRange \<Rightarrow> OffsetRange \<Rightarrow> bool" where
  "OffsetRange_isAfter r other \<longleftrightarrow> start r \<ge> endExclusive other"

definition OffsetRange_slice :: "OffsetRange \<Rightarrow> 'a list \<Rightarrow> 'a list" where
  "OffsetRange_slice r arr = js_slice arr (start r) (endExclusive r)"

definition OffsetRange_substring :: "OffsetRange \<Rightarrow> 'c list \<Rightarrow> 'c list" where
  "OffsetRange_substring r str = js_substring str (start r) (endExclusive r)"

definition OffsetRange_clip :: "OffsetRange \<Rightarrow> int \<Rightarrow> int result" where
  "OffsetRange_clip r v =
     (if OffsetRange_isEmpty r then Inl BugIndicatingError
      else Inr (max (start r) (min (endExclusive r - 1) v)))"

text \<open>The JavaScript remainder \<open>%\<close> has the sign of the dividend.\<close>

definition js_rem :: "int \<Rightarrow> int \<Rightarrow> int" where
  "js_rem a b = sgn a * (\<bar>a\<bar> mod \<bar>b\<bar>)"

definition OffsetRange_clipCyclic :: "OffsetRange \<Rightarrow> int \<Rightarrow> int result" where
  "OffsetRange_clipCyclic r v =
     (if OffsetRange_isEmpty r then Inl BugIndicatingError
      else if v < start r then Inr (endExclusive r - js_rem (start r - v) (OffsetRange_length r))
      else if v \<ge> endExclusive r then Inr (start r + js_rem (v - start r) (OffsetRange_length r))
      else Inr v)"

text \<open>\<open>for (let i = this.start; i < this.endExclusive; i++) result.push(f(i))\<close>\<close>

definition OffsetRange_map :: "OffsetRange \<Rightarrow> (int \<Rightarrow> 'a) \<Rightarrow> 'a list" where
  "OffsetRange_map r f = List.map f [start r..endExclusive r - 1]"

definition OffsetRange_joinRightTouching :: "OffsetRange \<Rightarrow> OffsetRange \<Rightarrow> OffsetRange result" where
  "OffsetRange_joinRightTouching r rg =
     (if endExclusive r \<noteq> start rg then Inl BugIndicatingError
      else OffsetRange_new (start r) (endExclusive rg))"

definition OffsetRange_withMargin :: "OffsetRange \<Rightarrow> int \<Rightarrow> int option \<Rightarrow> OffsetRange result" where
  "OffsetRange_withMargin r marginStart marginEnd =
     (let marginEnd' = (case marginEnd of None \<Rightarrow> marginStart | Some m \<Rightarrow> m)
      in OffsetRange_new (start r - marginStart) (endExclusive r + marginEnd'))"

text \<open>
  \<open>OffsetRange.addRange\<close> and \<open>OffsetRangeSet.addRange\<close> have the same body; the array they change
  is returned.
\<close>

definition OffsetRange_addRange :: "OffsetRange \<Rightarrow> OffsetRange list \<Rightarrow> OffsetRange list result" where
  "OffsetRange_addRange rg sortedRanges =
     (let i = idx_while (\<lambda>r. endExclusive r < start rg) sortedRanges 0;
          j = idx_while (\<lambda>r. start r \<le> endExclusive rg) sortedRanges i
      in if i = j then Inr (js_splice sortedRanges (int i) 0 [rg])
         else let s = min (start rg) (start (sortedRanges ! i));
                  e = max (endExclusive rg) (endExclusive (sortedRanges ! (j - 1)))
              in rbind (OffsetRange_new s e)
                   (\<lambda>r. Inr (js_splice sortedRanges (int i) (int (j - i)) [r])))"

section \<open>Sets of offset ranges\<close>

record OffsetRangeSet =
  sortedRanges :: "OffsetRange list"

definition OffsetRangeSet_new :: OffsetRangeSet where
  "OffsetRangeSet_new = \<lparr>sortedRanges = []\<rparr>"

definition OffsetRangeSet_addRange :: "OffsetRangeSet \<Rightarrow> OffsetRange \<Rightarrow> OffsetRangeSet result" where
  "OffsetRangeSet_addRange st rg =
     (let rs = sortedRanges st;
          i = idx_while (\<lambda>r. endExclusive r < start rg) rs 0;
          j = idx_while (\<lambda>r. start r \<le> endExclusive rg) rs i
      in if i = j then Inr (st\<lparr>sortedRanges := js_splice rs (int i) 0 [rg]\<rparr>)
         else let s = min (start rg) (start (rs ! i));
                  e = max (endExclusive rg) (endExclusive (rs ! (j - 1)))
              in rbind (OffsetRange_new s e)
                   (\<lambda>r. Inr (st\<lparr>sortedRanges := js_splice rs (int i) (int (j - i)) [r]\<rparr>)))"

definition OffsetRangeSet_intersectsStrict :: "OffsetRangeSet \<Rightarrow> OffsetRange \<Rightarrow> bool" where
  "OffsetRangeSet_intersectsStrict st other =
     (let rs = sortedRanges st; i = idx_while (\<lambda>r. endExclusive r \<le> start other) rs 0
      in i < length rs \<and> start (rs ! i) < endExclusive other)"

text \<open>\<open>for (const range of this._sortedRanges)\<close>, adding each non-missing intersection.\<close>

fun intersectWithRange_loop :: "OffsetRange list \<Rightarrow> OffsetRange \<Rightarrow> OffsetRangeSet \<Rightarrow> OffsetRangeSet result" where
  "intersectWithRange_loop [] other acc = Inr acc"
| "intersectWithRange_loop (rg # rgs) other acc =
     rbind (OffsetRange_intersect rg other)
       (\<lambda>x. case x of
          Some i \<Rightarrow> rbind (OffsetRangeSet_addRange acc i) (intersectWithRange_loop rgs other)
        | None \<Rightarrow> intersectWithRange_loop rgs other acc)"

definition OffsetRangeSet_intersectWithRange :: "OffsetRangeSet \<Rightarrow> OffsetRange \<Rightarrow> OffsetRangeSet result" where
  "OffsetRangeSet_intersectWithRange st other =
     intersectWithRange_loop (sortedRanges st) other OffsetRangeSet_new"

definition OffsetRangeSet_length :: "OffsetRangeSet \<Rightarrow> int" where
  "OffsetRangeSet_length st = foldl (\<lambda>prev cur. prev + OffsetRange_length cur) 0 (sortedRanges st)"

definition OffsetRangeSet_intersectWithRangeLength :: "OffsetRangeSet \<Rightarrow> OffsetRange \<Rightarrow> int result" where
  "OffsetRangeSet_intersectWithRangeLength st other =
     rbind (OffsetRangeSet_intersectWithRange st other) (\<lambda>s. Inr (OffsetRangeSet_length s))"

section \<open>Lemmas\<close>

text \<open>What the constructor guarantees.\<close>

definition offset_wf :: "OffsetRange \<Rightarrow> bool" where
  "offset_wf r \<longleftrightarrow> start r \<le> endExclusive r"

abbreviation mk_offset :: "int \<Rightarrow> int \<Rightarrow> OffsetRange" where
  "mk_offset s e \<equiv> \<lparr>start = s, endExclusive = e\<rparr>"

definition offsets_of :: "OffsetRange \<Rightarrow> int set" where
  "offsets_of r = {start r..<endExclusive r}"

lemma OffsetRange_new_ok [simp]: "s \<le> e \<Longrightarrow> OffsetRange_new s e = Inr (mk_offset s e)"
  by (simp add: OffsetRange_new_def)

lemma OffsetRange_new_Inr: "OffsetRange_new s e = Inr r \<longleftrightarrow> s \<le> e \<and> r = mk_offset s e"
  by (auto simp: OffsetRange_new_def)

lemma offset_wf_mk [simp]: "offset_wf (mk_offset s e) \<longleftrightarrow> s \<le> e"
  by (simp add: offset_wf_def)

lemma mk_offset_sel [simp]: "mk_offset (start r) (endExclusive r) = r" for r :: OffsetRange
  by simp

interpretation offset_ivl: half_open start endExclusive mk_offset
  by unfold_locales simp_all

lemma offset_contains_iff: "OffsetRange_contains r n \<longleftrightarrow> n \<in> offsets_of r"
  by (simp add: OffsetRange_contains_def offsets_of_def)

lemma OffsetRange_join_ok:
  "offset_wf r \<Longrightarrow> offset_wf s \<Longrightarrow>
     OffsetRange_join r s = Inr (mk_offset (min (start r) (start s)) (max (endExclusive r) (endExclusive s)))"
  by (simp add: OffsetRange_join_def offset_wf_def)

lemma OffsetRange_intersect_eq:
  "OffsetRange_intersect r s =
     (if max (start r) (start s) \<le> min (endExclusive r) (endExclusive s)
      then Inr (Some (mk_offset (max (start r) (start s)) (min (endExclusive r) (endExclusive s))))
      else Inr None)"
  by (simp add: OffsetRange_intersect_def Let_def del: min.bounded_iff max.bounded_iff)

definition offset_set_wf :: "OffsetRangeSet \<Rightarrow> bool" where
  "offset_set_wf st \<longleftrightarrow> gap_sorted start endExclusive (sortedRanges st)"

definition offset_set_points :: "OffsetRangeSet \<Rightarrow> int set" where
  "offset_set_points st = points_of start endExclusive (sortedRanges st)"

lemma OffsetRangeSet_addRange_eq:
  "OffsetRangeSet_addRange st rg =
     rbind (OffsetRange_addRange rg (sortedRanges st)) (\<lambda>rs. Inr (st\<lparr>sortedRanges := rs\<rparr>))"
proof -
  have assoc: "rbind m (\<lambda>r. Inr (f (g r))) = rbind (rbind m (\<lambda>r. Inr (g r))) (\<lambda>x. Inr (f x))"
    for m :: "OffsetRange result" and f :: "OffsetRange list \<Rightarrow> OffsetRangeSet" and g
    by (cases m) simp_all
  show ?thesis
    unfolding OffsetRangeSet_addRange_def OffsetRange_addRange_def Let_def
    by (cases "idx_while (\<lambda>r. endExclusive r < start rg) (sortedRanges st) 0 =
        idx_while (\<lambda>r. start r \<le> endExclusive rg) (sortedRanges st)
          (idx_while (\<lambda>r. endExclusive r < start rg) (sortedRanges st) 0)")
      (simp_all only: if_True if_False rbind.simps simp_thms
        assoc [where f = "\<lambda>x. st\<lparr>sortedRanges := x\<rparr>"])
qed

text \<open>
  Adding a range never throws, keeps the array sorted with gaps, and adds exactly the offsets of
  the range.
\<close>

lemma offset_addRange_correct:
  assumes gs: "gap_sorted start endExclusive rs" and wf: "offset_wf rg"
  obtains rs' where "OffsetRange_addRange rg rs = Inr rs'"
    and "gap_sorted start endExclusive rs'"
    and "points_of start endExclusive rs' = points_of start endExclusive rs \<union> offsets_of rg"
proof -
  define i where "i = idx_while (\<lambda>r. endExclusive r < start rg) rs 0"
  define j where "j = idx_while (\<lambda>r. start r \<le> endExclusive rg) rs i"
  have i: "i \<le> length rs" "\<And>k. k < i \<Longrightarrow> endExclusive (rs ! k) < start rg"
    "i < length rs \<Longrightarrow> start rg \<le> endExclusive (rs ! i)"
    using idx_while_spec [of 0 rs "\<lambda>r. endExclusive r < start rg"] by (auto simp: i_def)
  have j: "i \<le> j" "j \<le> length rs" "\<And>k. i \<le> k \<Longrightarrow> k < j \<Longrightarrow> start (rs ! k) \<le> endExclusive rg"
    "j < length rs \<Longrightarrow> endExclusive rg < start (rs ! j)"
    using idx_while_spec [OF i(1), of "\<lambda>r. start r \<le> endExclusive rg"] by (auto simp: j_def)
  have eq: "OffsetRange_addRange rg rs =
     (if i = j then Inr (js_splice rs (int i) 0 [rg])
      else rbind (OffsetRange_new (min (start rg) (start (rs ! i)))
             (max (endExclusive rg) (endExclusive (rs ! (j - 1)))))
           (\<lambda>r. Inr (js_splice rs (int i) (int (j - i)) [r])))"
    by (simp only: OffsetRange_addRange_def Let_def i_def j_def)
  have ab: "start rg \<le> endExclusive rg" using wf by (simp add: offset_wf_def)
  have after: "endExclusive rg < start (rs ! k)" if "j \<le> k" "k < length rs" for k
    using j(4) gap_sorted_mono(1) [OF gs that] that by simp
  show ?thesis
  proof (cases "i = j")
    case True
    then have "OffsetRange_addRange rg rs = Inr (take i rs @ rg # drop i rs)"
      using i(1) by (simp add: eq js_splice_in)
    with offset_ivl.insert_gap [OF gs i(1) ab i(2) after [folded True]] that show ?thesis
      by (simp add: offsets_of_def)
  next
    case False
    with j have ij: "i < j" by simp
    have touch: "start rg \<le> endExclusive (rs ! k) \<and> start (rs ! k) \<le> endExclusive rg" if "i \<le> k" "k < j" for k
      using that i(3) j(2) j(3) [OF that] gap_sorted_mono(2) [OF gs that(1)] ij by simp
    have "OffsetRange_addRange rg rs = Inr (take i rs @
        mk_offset (min (start rg) (start (rs ! i))) (max (endExclusive rg) (endExclusive (rs ! (j - 1)))) # drop j rs)"
      using ij j(2) ab
      by (simp add: eq js_splice_in min.coboundedI1 max.coboundedI1)
    with offset_ivl.replace_segment [OF gs ij j(2) ab i(2) touch after] that show ?thesis
      by (simp add: offsets_of_def)
  qed
qed

subsection \<open>Intersection and length of a set\<close>

lemma OffsetRangeSet_addRange_correct:
  assumes "offset_set_wf st" and "offset_wf rg"
  obtains st' where "OffsetRangeSet_addRange st rg = Inr st'" and "offset_set_wf st'"
    and "offset_set_points st' = offset_set_points st \<union> offsets_of rg"
proof -
  obtain rs' where "OffsetRange_addRange rg (sortedRanges st) = Inr rs'" "gap_sorted start endExclusive rs'"
    "points_of start endExclusive rs' = points_of start endExclusive (sortedRanges st) \<union> offsets_of rg"
    using assms by (auto simp: offset_set_wf_def intro: offset_addRange_correct)
  then show thesis
    using that [of "st\<lparr>sortedRanges := rs'\<rparr>"]
    by (simp add: OffsetRangeSet_addRange_eq offset_set_wf_def offset_set_points_def)
qed

lemma intersectWithRange_loop_correct:
  assumes "offset_set_wf acc"
  shows "\<exists>st'. intersectWithRange_loop rs other acc = Inr st' \<and> offset_set_wf st' \<and>
    offset_set_points st' = offset_set_points acc \<union> (points_of start endExclusive rs \<inter> offsets_of other)"
  using assms
proof (induction rs arbitrary: acc)
  case (Cons r rs)
  let ?l = "max (start r) (start other)" and ?h = "min (endExclusive r) (endExclusive other)"
  have pts: "{start r..<endExclusive r} \<inter> offsets_of other = {?l..<?h}"
    by (auto simp: offsets_of_def)
  show ?case
  proof (cases "?l \<le> ?h")
    case True
    then have i: "OffsetRange_intersect r other = Inr (Some (mk_offset ?l ?h))"
      by (simp only: OffsetRange_intersect_eq if_True)
    have "offset_wf (mk_offset ?l ?h)" using True by (simp only: offset_wf_mk)
    with Cons.prems obtain acc' where "OffsetRangeSet_addRange acc (mk_offset ?l ?h) = Inr acc'"
      "offset_set_wf acc'" "offset_set_points acc' = offset_set_points acc \<union> {?l..<?h}"
      by (rule OffsetRangeSet_addRange_correct) (simp add: offsets_of_def)
    with Cons.IH [of acc'] i pts show ?thesis by (auto simp: Int_Un_distrib2)
  next
    case False
    then have i: "OffsetRange_intersect r other = Inr None"
      by (simp only: OffsetRange_intersect_eq if_False)
    have "{?l..<?h} = {}" using False by (intro atLeastLessThan_empty) linarith
    then have "{start r..<endExclusive r} \<inter> offsets_of other = {}" unfolding pts .
    with Cons.IH [OF Cons.prems] i show ?thesis by (simp add: Int_Un_distrib2)
  qed
qed simp

lemma foldl_plus: "foldl (\<lambda>prev cur. prev + f cur) (a :: int) xs = a + sum_list (List.map f xs)"
  by (induction xs arbitrary: a) auto

lemma points_of_finite [simp]: "finite (points_of lo hi rs)"
  by (simp add: points_of_def)

lemma points_of_card:
  "gap_sorted lo hi rs \<Longrightarrow> int (card (points_of lo hi rs)) = sum_list (List.map (\<lambda>r. hi r - lo r) rs)"
proof (induction rs)
  case (Cons r rs)
  have "{lo r..<hi r} \<inter> points_of lo hi rs = {}"
    using Cons.prems by (force simp: gap_sorted_Cons points_of_def)
  then have "card (points_of lo hi (r # rs)) = card {lo r..<hi r} + card (points_of lo hi rs)"
    by (simp add: card_Un_disjoint)
  with Cons show ?case by (simp add: gap_sorted_Cons)
qed simp

section \<open>Properties\<close>

text \<open>C37: \<open>OffsetRangeSet\<close> refines a finite set of offsets: \<open>addRange\<close> never throws on a sorted
  set and an ordered range, keeps the array sorted with a gap between neighbours, adds exactly the
  offsets of the range, and \<open>length\<close> of the result is the number of offsets in it.\<close>

lemma OffsetRangeSet_addRange_refines:
  assumes "offset_set_wf st" and "offset_wf rg"
  shows "\<exists>st'. OffsetRangeSet_addRange st rg = Inr st' \<and> offset_set_wf st' \<and>
    offset_set_points st' = offset_set_points st \<union> {n. OffsetRange_contains rg n} \<and>
    OffsetRangeSet_length st' = int (card (offset_set_points st'))"
proof -
  obtain st' where "OffsetRangeSet_addRange st rg = Inr st'" "offset_set_wf st'"
    "offset_set_points st' = offset_set_points st \<union> offsets_of rg"
    using OffsetRangeSet_addRange_correct [OF assms] .
  moreover from this(2) have "OffsetRangeSet_length st' = int (card (offset_set_points st'))"
    by (simp add: OffsetRangeSet_length_def OffsetRange_length_def foldl_plus offset_set_wf_def
        offset_set_points_def points_of_card)
  ultimately show ?thesis by (auto simp: offset_contains_iff)
qed

lemma OffsetRangeSet_addRange_refines_witness:
  "\<exists>st'. OffsetRangeSet_addRange \<lparr>sortedRanges = [mk_offset 0 2, mk_offset 5 7]\<rparr> (mk_offset 2 4) = Inr st' \<and>
     offset_set_wf st' \<and>
     offset_set_points st' = offset_set_points \<lparr>sortedRanges = [mk_offset 0 2, mk_offset 5 7]\<rparr> \<union> {2..<4}"
  using OffsetRangeSet_addRange_refines [of "\<lparr>sortedRanges = [mk_offset 0 2, mk_offset 5 7]\<rparr>" "mk_offset 2 4"]
  by (auto simp: offset_set_wf_def gap_sorted_Cons OffsetRange_contains_def)

text \<open>\<open>intersectWithRange\<close> never throws, keeps the invariant and computes the set intersection;
  \<open>intersectWithRangeLength\<close> is the number of common offsets.\<close>

lemma OffsetRangeSet_intersectWithRange_set:
  "\<exists>st'. OffsetRangeSet_intersectWithRange st other = Inr st' \<and> offset_set_wf st' \<and>
    offset_set_points st' = offset_set_points st \<inter> {n. OffsetRange_contains other n} \<and>
    OffsetRangeSet_intersectWithRangeLength st other =
      Inr (int (card (offset_set_points st \<inter> {n. OffsetRange_contains other n})))"
proof -
  have "offset_set_wf OffsetRangeSet_new" by (simp add: offset_set_wf_def OffsetRangeSet_new_def)
  from intersectWithRange_loop_correct [OF this, of "sortedRanges st" other]
  obtain st' where st': "OffsetRangeSet_intersectWithRange st other = Inr st'" "offset_set_wf st'"
    "offset_set_points st' = offset_set_points st \<inter> offsets_of other"
    by (auto simp: OffsetRangeSet_intersectWithRange_def offset_set_points_def OffsetRangeSet_new_def)
  moreover from st'(2) have "OffsetRangeSet_length st' = int (card (offset_set_points st'))"
    by (simp add: OffsetRangeSet_length_def OffsetRange_length_def foldl_plus offset_set_wf_def
        offset_set_points_def points_of_card)
  ultimately show ?thesis
    by (auto simp: OffsetRangeSet_intersectWithRangeLength_def offset_contains_iff)
qed

text \<open>\<open>intersectsStrict\<close> on a sorted set finds exactly whether some range starts before the
  other ends and ends after it starts; for a non-empty argument and a set of non-empty ranges that
  is whether they share an offset, but an empty argument strictly inside a range also counts.\<close>

lemma OffsetRangeSet_intersectsStrict_spec:
  assumes wf: "offset_set_wf st"
  shows "(OffsetRangeSet_intersectsStrict st other \<longleftrightarrow>
      list_ex (\<lambda>r. start r < endExclusive other \<and> start other < endExclusive r) (sortedRanges st)) \<and>
    (start other < endExclusive other \<and> list_all (\<lambda>r. \<not> OffsetRange_isEmpty r) (sortedRanges st) \<longrightarrow>
      (OffsetRangeSet_intersectsStrict st other \<longleftrightarrow>
       (\<exists>n \<in> offset_set_points st. OffsetRange_contains other n)))"
proof -
  define rs where "rs = sortedRanges st"
  define i where "i = idx_while (\<lambda>r. endExclusive r \<le> start other) rs 0"
  have gs: "gap_sorted start endExclusive rs" using wf by (simp add: offset_set_wf_def rs_def)
  have i: "i \<le> length rs" "\<And>k. k < i \<Longrightarrow> endExclusive (rs ! k) \<le> start other"
    "i < length rs \<Longrightarrow> start other < endExclusive (rs ! i)"
    using idx_while_spec [of 0 rs "\<lambda>r. endExclusive r \<le> start other"] by (auto simp: i_def)
  have run: "OffsetRangeSet_intersectsStrict st other \<longleftrightarrow> i < length rs \<and> start (rs ! i) < endExclusive other"
    by (simp add: OffsetRangeSet_intersectsStrict_def Let_def i_def rs_def)
  have ex: "OffsetRangeSet_intersectsStrict st other \<longleftrightarrow>
      (\<exists>k < length rs. start (rs ! k) < endExclusive other \<and> start other < endExclusive (rs ! k))"
  proof
    assume "OffsetRangeSet_intersectsStrict st other"
    with run i(3) show "\<exists>k < length rs. start (rs ! k) < endExclusive other \<and> start other < endExclusive (rs ! k)"
      by blast
  next
    assume "\<exists>k < length rs. start (rs ! k) < endExclusive other \<and> start other < endExclusive (rs ! k)"
    then obtain k where k: "k < length rs" "start (rs ! k) < endExclusive other" "start other < endExclusive (rs ! k)"
      by blast
    then have "i \<le> k" using i(2) [of k] by (cases "k < i") auto
    with k gap_sorted_mono(1) [OF gs, of i k] show "OffsetRangeSet_intersectsStrict st other"
      by (simp add: run)
  qed
  then have "OffsetRangeSet_intersectsStrict st other \<longleftrightarrow>
      list_ex (\<lambda>r. start r < endExclusive other \<and> start other < endExclusive r) rs"
    unfolding list_ex_iff by (metis in_set_conv_nth)
  moreover have "list_ex (\<lambda>r. start r < endExclusive other \<and> start other < endExclusive r) rs \<longleftrightarrow>
      (\<exists>n \<in> offset_set_points st. OffsetRange_contains other n)"
    if ne: "start other < endExclusive other" "list_all (\<lambda>r. \<not> OffsetRange_isEmpty r) rs"
  proof -
    have "start r < endExclusive other \<and> start other < endExclusive r \<longleftrightarrow>
        (\<exists>n. start r \<le> n \<and> n < endExclusive r \<and> start other \<le> n \<and> n < endExclusive other)"
      if r: "r \<in> set rs" for r
    proof -
      have "start r < endExclusive r"
        using gs ne(2) r by (auto simp: gap_sorted_def list_all_iff OffsetRange_isEmpty_def order_less_le)
      then show ?thesis
        using ne(1) by (auto intro: exI [of _ "max (start r) (start other)"])
    qed
    moreover have "(\<exists>n \<in> offset_set_points st. OffsetRange_contains other n) \<longleftrightarrow>
        (\<exists>r \<in> set rs. \<exists>n. start r \<le> n \<and> n < endExclusive r \<and> start other \<le> n \<and> n < endExclusive other)"
      unfolding offset_set_points_def points_of_def OffsetRange_contains_def rs_def
        UN_iff bex_UN Bex_def atLeastLessThan_iff by blast
    ultimately show ?thesis unfolding list_ex_iff by (simp cong: bex_cong)
  qed
  ultimately show ?thesis unfolding rs_def by blast
qed

lemma OffsetRangeSet_intersectsStrict_spec_witness:
  "OffsetRangeSet_intersectsStrict \<lparr>sortedRanges = [mk_offset 0 2, mk_offset 5 9]\<rparr> (mk_offset 7 7) \<and>
   \<not> OffsetRangeSet_intersectsStrict \<lparr>sortedRanges = [mk_offset 0 2, mk_offset 5 9]\<rparr> (mk_offset 2 5)"
  using OffsetRangeSet_intersectsStrict_spec [of "\<lparr>sortedRanges = [mk_offset 0 2, mk_offset 5 9]\<rparr>" "mk_offset 7 7"]
    OffsetRangeSet_intersectsStrict_spec [of "\<lparr>sortedRanges = [mk_offset 0 2, mk_offset 5 9]\<rparr>" "mk_offset 2 5"]
  by (simp add: offset_set_wf_def gap_sorted_Cons)

text \<open>\<open>clipCyclic\<close> on a non-empty range returns a value congruent to its argument modulo the
  length of the range.  The value lies in the range except in one case, where it is the exclusive
  end: exactly when the argument is below the start by a multiple of the length.\<close>

lemma OffsetRange_clipCyclic_spec:
  assumes "start r < endExclusive r"
  shows "\<exists>x. OffsetRange_clipCyclic r v = Inr x \<and> x mod OffsetRange_length r = v mod OffsetRange_length r \<and>
    (OffsetRange_contains r x \<longleftrightarrow> \<not> (v < start r \<and> OffsetRange_length r dvd start r - v)) \<and>
    (\<not> OffsetRange_contains r x \<longrightarrow> x = endExclusive r)"
proof -
  let ?n = "OffsetRange_length r"
  have n: "0 < ?n" "endExclusive r = start r + ?n" "\<not> OffsetRange_isEmpty r"
    using assms by (simp_all add: OffsetRange_length_def OffsetRange_isEmpty_def)
  have rem: "js_rem a ?n = a mod ?n" if "0 \<le> a" for a
    using that n(1) by (cases "a = 0") (auto simp: js_rem_def sgn_if)
  have bound: "0 \<le> a mod ?n" "a mod ?n < ?n" for a using n(1) by simp_all
  consider "v < start r" | "endExclusive r \<le> v" | "start r \<le> v" "v < endExclusive r" by linarith
  then show ?thesis
  proof cases
    case 1
    define x where "x = endExclusive r - (start r - v) mod ?n"
    have run: "OffsetRange_clipCyclic r v = Inr x"
      using 1 n(3) by (simp add: OffsetRange_clipCyclic_def rem x_def)
    have "x mod ?n = (start r + ?n - (start r - v)) mod ?n"
      unfolding x_def n(2) by (simp only: mod_diff_right_eq)
    then have "x mod ?n = v mod ?n" by simp
    moreover have "OffsetRange_contains r x \<longleftrightarrow> (start r - v) mod ?n \<noteq> 0"
      using bound [of "start r - v"] by (auto simp: OffsetRange_contains_def x_def n(2))
    moreover have "x = endExclusive r" if "(start r - v) mod ?n = 0" using that by (simp add: x_def)
    ultimately show ?thesis using run 1 by (auto simp: dvd_eq_mod_eq_0)
  next
    case 2
    define x where "x = start r + (v - start r) mod ?n"
    have "OffsetRange_clipCyclic r v = Inr x"
      using 2 n assms by (simp add: OffsetRange_clipCyclic_def rem x_def)
    moreover have "x mod ?n = v mod ?n"
      unfolding x_def by (simp add: mod_add_right_eq)
    moreover have "OffsetRange_contains r x"
      using bound [of "v - start r"] by (simp add: OffsetRange_contains_def x_def n(2))
    ultimately show ?thesis using 2 assms by auto
  next
    case 3
    then have "OffsetRange_clipCyclic r v = Inr v" using n by (simp add: OffsetRange_clipCyclic_def)
    with 3 show ?thesis by (auto simp: OffsetRange_contains_def)
  qed
qed

lemma OffsetRange_clipCyclic_spec_witness:
  "OffsetRange_clipCyclic (mk_offset 5 10) 0 = Inr 10 \<and> \<not> OffsetRange_contains (mk_offset 5 10) 10 \<and>
   (\<exists>x. OffsetRange_clipCyclic (mk_offset 5 10) 17 = Inr x \<and> OffsetRange_contains (mk_offset 5 10) x)"
proof -
  have "OffsetRange_clipCyclic (mk_offset 5 10) 0 = Inr 10" by code_simp
  with OffsetRange_clipCyclic_spec [of "mk_offset 5 10" 0] OffsetRange_clipCyclic_spec [of "mk_offset 5 10" 17]
  show ?thesis by (auto simp: OffsetRange_length_def)
qed

end
