(* ===== verification/Line_Ranges.thy ===== *)
theory Line_Ranges
  imports Positions Offset_Ranges
begin

text \<open>
  \<open>src/vs/editor/common/core/ranges/lineRange.ts\<close>: ranges of lines and \<open>LineRangeSet\<close>, a sorted
  array of line ranges in which no two touch or intersect.  Membership, union, intersection and
  subtraction are shown to be the set operations on \<open>line_set_points\<close>, and each operation keeps the
  representation invariant \<open>line_set_wf\<close> that the class states in its constructor.
\<close>

record LineRange =
  lrStartLineNumber :: int
  endLineNumberExclusive :: int

definition LineRange_new :: "int \<Rightarrow> int \<Rightarrow> LineRange result" where
  "LineRange_new s e =
     (if s > e then Inl BugIndicatingError
      else Inr \<lparr>lrStartLineNumber = s, endLineNumberExclusive = e\<rparr>)"

definition LineRange_ofLength :: "int \<Rightarrow> int \<Rightarrow> LineRange result" where
  "LineRange_ofLength s n = LineRange_new s (s + n)"

definition LineRange_fromRange :: "IRange \<Rightarrow> LineRange result" where
  "LineRange_fromRange r = LineRange_new (startLineNumber r) (endLineNumber r)"

definition LineRange_fromRangeInclusive :: "IRange \<Rightarrow> LineRange result" where
  "LineRange_fromRangeInclusive r = LineRange_new (startLineNumber r) (endLineNumber r + 1)"

text \<open>\<open>compareBy(l => l.startLineNumber, numberComparator)\<close>\<close>

definition LineRange_compareByStart :: "LineRange \<Rightarrow> LineRange \<Rightarrow> int" where
  "LineRange_compareByStart a b = lrStartLineNumber a - lrStartLineNumber b"

definition LineRange_subtract :: "LineRange \<Rightarrow> LineRange option \<Rightarrow> LineRange list result" where
  "LineRange_subtract a x =
     (case x of None \<Rightarrow> Inr [a]
      | Some b \<Rightarrow>
        (if lrStartLineNumber a < lrStartLineNumber b \<and> endLineNumberExclusive b < endLineNumberExclusive a
         then rbind (LineRange_new (lrStartLineNumber a) (lrStartLineNumber b)) (\<lambda>r1.
              rbind (LineRange_new (endLineNumberExclusive b) (endLineNumberExclusive a)) (\<lambda>r2. Inr [r1, r2]))
         else if lrStartLineNumber b \<le> lrStartLineNumber a \<and> endLineNumberExclusive a \<le> endLineNumberExclusive b
         then Inr []
         else if endLineNumberExclusive b < endLineNumberExclusive a
         then rbind (LineRange_new (max (endLineNumberExclusive b) (lrStartLineNumber a)) (endLineNumberExclusive a))
                (\<lambda>r. Inr [r])
         else rbind (LineRange_new (lrStartLineNumber a) (min (lrStartLineNumber b) (endLineNumberExclusive a)))
                (\<lambda>r. Inr [r])))"

definition LineRange_join_all :: "LineRange list \<Rightarrow> LineRange result" where
  "LineRange_join_all lineRanges =
     (case lineRanges of [] \<Rightarrow> Inl BugIndicatingError
      | r # rs \<Rightarrow>
          (let (s, e) = foldl (\<lambda>(s, e) x. (min s (lrStartLineNumber x), max e (endLineNumberExclusive x)))
                          (lrStartLineNumber r, endLineNumberExclusive r) rs
           in LineRange_new s e))"

definition LineRange_deserialize :: "int \<times> int \<Rightarrow> LineRange result" where
  "LineRange_deserialize p = LineRange_new (fst p) (snd p)"

definition LineRange_contains :: "LineRange \<Rightarrow> int \<Rightarrow> bool" where
  "LineRange_contains r n \<longleftrightarrow> lrStartLineNumber r \<le> n \<and> n < endLineNumberExclusive r"

definition LineRange_containsRange :: "LineRange \<Rightarrow> LineRange \<Rightarrow> bool" where
  "LineRange_containsRange r s \<longleftrightarrow>
     lrStartLineNumber r \<le> lrStartLineNumber s \<and> endLineNumberExclusive s \<le> endLineNumberExclusive r"

definition LineRange_isEmpty :: "LineRange \<Rightarrow> bool" where
  "LineRange_isEmpty r \<longleftrightarrow> lrStartLineNumber r = endLineNumberExclusive r"

definition LineRange_delta :: "LineRange \<Rightarrow> int \<Rightarrow> LineRange result" where
  "LineRange_delta r offset = LineRange_new (lrStartLineNumber r + offset) (endLineNumberExclusive r + offset)"

definition LineRange_deltaLength :: "LineRange \<Rightarrow> int \<Rightarrow> LineRange result" where
  "LineRange_deltaLength r offset = LineRange_new (lrStartLineNumber r) (endLineNumberExclusive r + offset)"

definition LineRange_length :: "LineRange \<Rightarrow> int" where
  "LineRange_length r = endLineNumberExclusive r - lrStartLineNumber r"

definition LineRange_join :: "LineRange \<Rightarrow> LineRange \<Rightarrow> LineRange result" where
  "LineRange_join r other =
     LineRange_new (min (lrStartLineNumber r) (lrStartLineNumber other))
       (max (endLineNumberExclusive r) (endLineNumberExclusive other))"

definition LineRange_intersect :: "LineRange \<Rightarrow> LineRange \<Rightarrow> LineRange option result" where
  "LineRange_intersect r other =
     (let s = max (lrStartLineNumber r) (lrStartLineNumber other);
          e = min (endLineNumberExclusive r) (endLineNumberExclusive other)
      in if s \<le> e then rbind (LineRange_new s e) (\<lambda>x. Inr (Some x)) else Inr None)"

definition LineRange_intersectsStrict :: "LineRange \<Rightarrow> LineRange \<Rightarrow> bool" where
  "LineRange_intersectsStrict r other \<longleftrightarrow>
     lrStartLineNumber r < endLineNumberExclusive other \<and> lrStartLineNumber other < endLineNumberExclusive r"

definition LineRange_intersectsOrTouches :: "LineRange \<Rightarrow> LineRange \<Rightarrow> bool" where
  "LineRange_intersectsOrTouches r other \<longleftrightarrow>
     lrStartLineNumber r \<le> endLineNumberExclusive other \<and> lrStartLineNumber other \<le> endLineNumberExclusive r"

definition LineRange_equals :: "LineRange \<Rightarrow> LineRange \<Rightarrow> bool" where
  "LineRange_equals r b \<longleftrightarrow>
     lrStartLineNumber r = lrStartLineNumber b \<and> endLineNumberExclusive r = endLineNumberExclusive b"

text \<open>\<open>Number.MAX_SAFE_INTEGER\<close>\<close>

definition max_safe_integer :: int where
  "max_safe_integer = 9007199254740991"

definition LineRange_toInclusiveRange :: "LineRange \<Rightarrow> IRange option" where
  "LineRange_toInclusiveRange r =
     (if LineRange_isEmpty r then None
      else Some (Range_new (lrStartLineNumber r) 1 (endLineNumberExclusive r - 1) max_safe_integer))"

definition LineRange_toExclusiveRange :: "LineRange \<Rightarrow> IRange" where
  "LineRange_toExclusiveRange r = Range_new (lrStartLineNumber r) 1 (endLineNumberExclusive r) 1"

definition LineRange_mapToLineArray :: "LineRange \<Rightarrow> (int \<Rightarrow> 'a) \<Rightarrow> 'a list" where
  "LineRange_mapToLineArray r f = List.map f [lrStartLineNumber r..endLineNumberExclusive r - 1]"

definition LineRange_serialize :: "LineRange \<Rightarrow> int \<times> int" where
  "LineRange_serialize r = (lrStartLineNumber r, endLineNumberExclusive r)"

definition LineRange_toOffsetRange :: "LineRange \<Rightarrow> OffsetRange result" where
  "LineRange_toOffsetRange r = OffsetRange_new (lrStartLineNumber r - 1) (endLineNumberExclusive r - 1)"

definition LineRange_distanceToRange :: "LineRange \<Rightarrow> LineRange \<Rightarrow> int" where
  "LineRange_distanceToRange r other =
     (if endLineNumberExclusive r \<le> lrStartLineNumber other
      then lrStartLineNumber other - endLineNumberExclusive r
      else if endLineNumberExclusive other \<le> lrStartLineNumber r
      then lrStartLineNumber r - endLineNumberExclusive other
      else 0)"

definition LineRange_distanceToLine :: "LineRange \<Rightarrow> int \<Rightarrow> int" where
  "LineRange_distanceToLine r n =
     (if LineRange_contains r n then 0
      else if n < lrStartLineNumber r then lrStartLineNumber r - n
      else n - endLineNumberExclusive r)"

definition LineRange_addMargin :: "LineRange \<Rightarrow> int \<Rightarrow> int \<Rightarrow> LineRange result" where
  "LineRange_addMargin r marginTop marginBottom =
     LineRange_new (lrStartLineNumber r - marginTop) (endLineNumberExclusive r + marginBottom)"

section \<open>Sets of line ranges\<close>

record LineRangeSet =
  normalizedRanges :: "LineRange list"

text \<open>
  Both indices are found by binary search; the array's items are never \<open>undefined\<close> there.
\<close>

definition touchStartIdx :: "LineRange list \<Rightarrow> LineRange \<Rightarrow> int" where
  "touchStartIdx rs rg =
     findFirstIdxMonotonousOrArrLen rs
       (on_item (\<lambda>r. endLineNumberExclusive r \<ge> lrStartLineNumber rg)) 0 (int (length rs))"

definition touchEndIdxExclusive :: "LineRange list \<Rightarrow> LineRange \<Rightarrow> int" where
  "touchEndIdxExclusive rs rg =
     findLastIdxMonotonous rs
       (on_item (\<lambda>r. lrStartLineNumber r \<le> endLineNumberExclusive rg)) 0 (int (length rs)) + 1"

definition LineRangeSet_addRange :: "LineRangeSet \<Rightarrow> LineRange \<Rightarrow> LineRangeSet result" where
  "LineRangeSet_addRange st rg =
     (if LineRange_length rg = 0 then Inr st
      else
        let rs = normalizedRanges st;
            i = touchStartIdx rs rg;
            j = touchEndIdxExclusive rs rg
        in if i = j then Inr (st\<lparr>normalizedRanges := js_splice rs i 0 [rg]\<rparr>)
           else if i = j - 1
           then rbind (LineRange_join (rs ! nat i) rg)
                  (\<lambda>r. Inr (st\<lparr>normalizedRanges := rs[nat i := r]\<rparr>))
           else rbind (LineRange_join (rs ! nat i) (rs ! nat (j - 1))) (\<lambda>r0.
                rbind (LineRange_join r0 rg)
                  (\<lambda>r. Inr (st\<lparr>normalizedRanges := js_splice rs i (j - i) [r]\<rparr>))))"

definition LineRangeSet_contains :: "LineRangeSet \<Rightarrow> int \<Rightarrow> bool" where
  "LineRangeSet_contains st n =
     (case findLastMonotonous (normalizedRanges st) (on_item (\<lambda>r. lrStartLineNumber r \<le> n)) of
        None \<Rightarrow> False
      | Some r \<Rightarrow> endLineNumberExclusive r > n)"

definition LineRangeSet_intersects :: "LineRangeSet \<Rightarrow> LineRange \<Rightarrow> bool" where
  "LineRangeSet_intersects st rg =
     (case findLastMonotonous (normalizedRanges st)
             (on_item (\<lambda>r. lrStartLineNumber r < endLineNumberExclusive rg)) of
        None \<Rightarrow> False
      | Some r \<Rightarrow> endLineNumberExclusive r > lrStartLineNumber rg)"

text \<open>
  The merge loop of \<open>getUnion\<close>.  The arguments are the unread suffixes of the two arrays, \<open>current\<close>
  and \<open>result\<close>; \<open>union_step\<close> is the part after \<open>next\<close> has been chosen.
\<close>

definition union_step ::
    "LineRange option \<Rightarrow> LineRange list \<Rightarrow> LineRange \<Rightarrow> (LineRange option \<times> LineRange list) result" where
  "union_step current res next =
     (case current of
        None \<Rightarrow> Inr (Some next, res)
      | Some c \<Rightarrow>
          if endLineNumberExclusive c \<ge> lrStartLineNumber next
          then rbind (LineRange_new (lrStartLineNumber c)
                        (max (endLineNumberExclusive c) (endLineNumberExclusive next)))
                 (\<lambda>c'. Inr (Some c', res))
          else Inr (Some next, res @ [c]))"

fun getUnion_loop ::
    "LineRange list \<Rightarrow> LineRange list \<Rightarrow> LineRange option \<Rightarrow> LineRange list \<Rightarrow> LineRange list result" where
  "getUnion_loop [] [] current res =
     Inr (case current of None \<Rightarrow> res | Some c \<Rightarrow> res @ [c])"
| "getUnion_loop (r1 # rs1) [] current res =
     rbind (union_step current res r1) (\<lambda>(c, out). getUnion_loop rs1 [] c out)"
| "getUnion_loop [] (r2 # rs2) current res =
     rbind (union_step current res r2) (\<lambda>(c, out). getUnion_loop [] rs2 c out)"
| "getUnion_loop (r1 # rs1) (r2 # rs2) current res =
     (if lrStartLineNumber r1 < lrStartLineNumber r2
      then rbind (union_step current res r1) (\<lambda>(c, out). getUnion_loop rs1 (r2 # rs2) c out)
      else rbind (union_step current res r2) (\<lambda>(c, out). getUnion_loop (r1 # rs1) rs2 c out))"

definition LineRangeSet_getUnion :: "LineRangeSet \<Rightarrow> LineRangeSet \<Rightarrow> LineRangeSet result" where
  "LineRangeSet_getUnion st other =
     (if normalizedRanges st = [] then Inr other
      else if normalizedRanges other = [] then Inr st
      else rbind (getUnion_loop (normalizedRanges st) (normalizedRanges other) None [])
             (\<lambda>rs. Inr \<lparr>normalizedRanges = rs\<rparr>))"

text \<open>The loop of \<open>subtractFrom\<close> over the touching ranges, with \<open>startLineNumber\<close> and \<open>result\<close>.\<close>

fun subtractFrom_loop :: "LineRange list \<Rightarrow> int \<Rightarrow> LineRange list \<Rightarrow> (int \<times> LineRange list) result" where
  "subtractFrom_loop [] s res = Inr (s, res)"
| "subtractFrom_loop (r # rs) s res =
     rbind (if lrStartLineNumber r > s
            then rbind (LineRange_new s (lrStartLineNumber r)) (\<lambda>x. Inr (res @ [x]))
            else Inr res)
       (\<lambda>res'. subtractFrom_loop rs (endLineNumberExclusive r) res')"

definition LineRangeSet_subtractFrom :: "LineRangeSet \<Rightarrow> LineRange \<Rightarrow> LineRangeSet result" where
  "LineRangeSet_subtractFrom st rg =
     (let rs = normalizedRanges st;
          i = touchStartIdx rs rg;
          j = touchEndIdxExclusive rs rg
      in if i = j then Inr \<lparr>normalizedRanges = [rg]\<rparr>
         else rbind (subtractFrom_loop (take (nat (j - i)) (drop (nat i) rs)) (lrStartLineNumber rg) [])
           (\<lambda>(s, res).
              if s < endLineNumberExclusive rg
              then rbind (LineRange_new s (endLineNumberExclusive rg))
                     (\<lambda>x. Inr \<lparr>normalizedRanges = res @ [x]\<rparr>)
              else Inr \<lparr>normalizedRanges = res\<rparr>))"

fun getIntersection_loop ::
    "LineRange list \<Rightarrow> LineRange list \<Rightarrow> LineRange list \<Rightarrow> LineRange list result" where
  "getIntersection_loop (r1 # rs1) (r2 # rs2) res =
     rbind (LineRange_intersect r1 r2) (\<lambda>i.
       let res' = (case i of Some x \<Rightarrow> (if LineRange_isEmpty x then res else res @ [x]) | None \<Rightarrow> res)
       in if endLineNumberExclusive r1 < endLineNumberExclusive r2
          then getIntersection_loop rs1 (r2 # rs2) res'
          else getIntersection_loop (r1 # rs1) rs2 res')"
| "getIntersection_loop _ _ res = Inr res"

definition LineRangeSet_getIntersection :: "LineRangeSet \<Rightarrow> LineRangeSet \<Rightarrow> LineRangeSet result" where
  "LineRangeSet_getIntersection st other =
     rbind (getIntersection_loop (normalizedRanges st) (normalizedRanges other) [])
       (\<lambda>rs. Inr \<lparr>normalizedRanges = rs\<rparr>)"

definition LineRangeSet_getWithDelta :: "LineRangeSet \<Rightarrow> int \<Rightarrow> LineRangeSet result" where
  "LineRangeSet_getWithDelta st v =
     rbind (rmap (\<lambda>r. LineRange_delta r v) (normalizedRanges st)) (\<lambda>rs. Inr \<lparr>normalizedRanges = rs\<rparr>)"

definition LineRange_joinMany :: "LineRange list list \<Rightarrow> LineRange list result" where
  "LineRange_joinMany lineRanges =
     (case lineRanges of [] \<Rightarrow> Inr []
      | r # rs \<Rightarrow>
          rbind (rfold (\<lambda>x acc. LineRangeSet_getUnion acc \<lparr>normalizedRanges = x\<rparr>) rs \<lparr>normalizedRanges = r\<rparr>)
            (\<lambda>st. Inr (normalizedRanges st)))"

section \<open>Lemmas\<close>

definition line_wf :: "LineRange \<Rightarrow> bool" where
  "line_wf r \<longleftrightarrow> lrStartLineNumber r \<le> endLineNumberExclusive r"

abbreviation mk_line :: "int \<Rightarrow> int \<Rightarrow> LineRange" where
  "mk_line s e \<equiv> \<lparr>lrStartLineNumber = s, endLineNumberExclusive = e\<rparr>"

definition lines_of :: "LineRange \<Rightarrow> int set" where
  "lines_of r = {lrStartLineNumber r..<endLineNumberExclusive r}"

abbreviation line_gap_sorted :: "LineRange list \<Rightarrow> bool" where
  "line_gap_sorted \<equiv> gap_sorted lrStartLineNumber endLineNumberExclusive"

abbreviation line_points :: "LineRange list \<Rightarrow> int set" where
  "line_points \<equiv> points_of lrStartLineNumber endLineNumberExclusive"

text \<open>The representation invariant of \<open>LineRangeSet\<close>, and the set of lines it stands for.\<close>

abbreviation line_nonempty :: "LineRange list \<Rightarrow> bool" where
  "line_nonempty rs \<equiv> \<forall>r \<in> set rs. lrStartLineNumber r < endLineNumberExclusive r"

definition line_set_wf :: "LineRangeSet \<Rightarrow> bool" where
  "line_set_wf st \<longleftrightarrow> line_gap_sorted (normalizedRanges st) \<and> line_nonempty (normalizedRanges st)"

definition line_set_points :: "LineRangeSet \<Rightarrow> int set" where
  "line_set_points st = line_points (normalizedRanges st)"

lemma line_set_sel [simp]:
  "line_set_wf \<lparr>normalizedRanges = rs\<rparr> = (line_gap_sorted rs \<and> line_nonempty rs)"
  "line_set_points \<lparr>normalizedRanges = rs\<rparr> = line_points rs"
  by (simp_all add: line_set_wf_def line_set_points_def)

lemma LineRange_new_ok [simp]: "s \<le> e \<Longrightarrow> LineRange_new s e = Inr (mk_line s e)"
  by (simp add: LineRange_new_def)

lemma line_wf_mk [simp]: "line_wf (mk_line s e) \<longleftrightarrow> s \<le> e"
  by (simp add: line_wf_def)

interpretation line_ivl: half_open lrStartLineNumber endLineNumberExclusive mk_line
  by unfold_locales simp_all

interpretation line_cmp: comparator LineRange_compareByStart "\<lambda>_. True"
  by unfold_locales (auto simp: LineRange_compareByStart_def sgn_if)

subsection \<open>The two binary searches\<close>

text \<open>The ranges between the two indices are exactly those that touch or intersect \<open>rg\<close>.\<close>

lemma touch_idx:
  assumes gs: "line_gap_sorted rs" and wf: "line_wf rg"
  shows "0 \<le> touchStartIdx rs rg" and "touchStartIdx rs rg \<le> touchEndIdxExclusive rs rg"
    and "touchEndIdxExclusive rs rg \<le> int (length rs)"
    and "\<And>k. k < nat (touchStartIdx rs rg) \<Longrightarrow> endLineNumberExclusive (rs ! k) < lrStartLineNumber rg"
    and "\<And>k. nat (touchStartIdx rs rg) \<le> k \<Longrightarrow> k < nat (touchEndIdxExclusive rs rg) \<Longrightarrow>
      lrStartLineNumber rg \<le> endLineNumberExclusive (rs ! k) \<and> lrStartLineNumber (rs ! k) \<le> endLineNumberExclusive rg"
    and "\<And>k. nat (touchEndIdxExclusive rs rg) \<le> k \<Longrightarrow> k < length rs \<Longrightarrow>
      endLineNumberExclusive rg < lrStartLineNumber (rs ! k)"
proof -
  let ?p = "on_item (\<lambda>r. endLineNumberExclusive r \<ge> lrStartLineNumber rg)"
  let ?q = "on_item (\<lambda>r. lrStartLineNumber r \<le> endLineNumberExclusive rg)"
  have "monotonous_on rs ?p 0 (int (length rs))"
    unfolding monotonous_on_def
  proof (intro allI impI)
    fix k l :: int assume h: "0 \<le> k \<and> k \<le> l \<and> l < int (length rs) \<and> ?p (js_at rs k)"
    then have "k < int (length rs)" "nat k \<le> nat l" "nat l < length rs" by linarith+
    moreover have "js_at rs k = Some (rs ! nat k)" "js_at rs l = Some (rs ! nat l)"
      using h by (auto simp: js_at_def)
    ultimately show "?p (js_at rs l)" using h gap_sorted_mono(2) [OF gs, of "nat k" "nat l"] by auto
  qed
  note first = findFirst_whole [OF this, folded touchStartIdx_def]
  have "monotonous_on rs (\<lambda>x. \<not> ?q x) 0 (int (length rs))"
    unfolding monotonous_on_def
  proof (intro allI impI)
    fix k l :: int assume h: "0 \<le> k \<and> k \<le> l \<and> l < int (length rs) \<and> \<not> ?q (js_at rs k)"
    then have "k < int (length rs)" "nat k \<le> nat l" "nat l < length rs" by linarith+
    moreover have "js_at rs k = Some (rs ! nat k)" "js_at rs l = Some (rs ! nat l)"
      using h by (auto simp: js_at_def)
    ultimately show "\<not> ?q (js_at rs l)" using h gap_sorted_mono(1) [OF gs, of "nat k" "nat l"] by auto
  qed
  note last = findLast_whole [OF this]
  have lastE: "- 1 \<le> touchEndIdxExclusive rs rg - 1" "touchEndIdxExclusive rs rg - 1 < int (length rs)"
    "\<And>k. k < length rs \<Longrightarrow> lrStartLineNumber (rs ! k) \<le> endLineNumberExclusive rg \<longleftrightarrow> int k < touchEndIdxExclusive rs rg"
    using last by (auto simp: touchEndIdxExclusive_def)
  have firstE: "0 \<le> touchStartIdx rs rg" "touchStartIdx rs rg \<le> int (length rs)"
    "\<And>k. k < length rs \<Longrightarrow> lrStartLineNumber rg \<le> endLineNumberExclusive (rs ! k) \<longleftrightarrow> touchStartIdx rs rg \<le> int k"
    using first by auto
  show "0 \<le> touchStartIdx rs rg" and "touchEndIdxExclusive rs rg \<le> int (length rs)"
    using firstE lastE by auto
  show before: "endLineNumberExclusive (rs ! k) < lrStartLineNumber rg" if "k < nat (touchStartIdx rs rg)" for k
  proof -
    from that firstE have "k < length rs" "\<not> touchStartIdx rs rg \<le> int k" by linarith+
    with firstE(3) show ?thesis by force
  qed
  show "endLineNumberExclusive rg < lrStartLineNumber (rs ! k)"
    if "nat (touchEndIdxExclusive rs rg) \<le> k" "k < length rs" for k
    using lastE(3) [OF that(2)] that(1) by linarith
  show "lrStartLineNumber rg \<le> endLineNumberExclusive (rs ! k) \<and> lrStartLineNumber (rs ! k) \<le> endLineNumberExclusive rg"
    if "nat (touchStartIdx rs rg) \<le> k" "k < nat (touchEndIdxExclusive rs rg)" for k
  proof -
    from that lastE have "k < length rs" "int k < touchEndIdxExclusive rs rg" by linarith+
    moreover have "touchStartIdx rs rg \<le> int k" using that(1) by linarith
    ultimately show ?thesis using firstE(3) lastE(3) by blast
  qed
  show "touchStartIdx rs rg \<le> touchEndIdxExclusive rs rg"
  proof (rule ccontr)
    assume "\<not> touchStartIdx rs rg \<le> touchEndIdxExclusive rs rg"
    then have k: "nat (touchEndIdxExclusive rs rg) < nat (touchStartIdx rs rg)" and len: "nat (touchEndIdxExclusive rs rg) < length rs"
      using firstE(1,2) lastE(1,2) by linarith+
    have "lrStartLineNumber (rs ! nat (touchEndIdxExclusive rs rg)) \<le> endLineNumberExclusive rg"
      using before [OF k] gap_sorted_nth_le [OF gs len] wf by (simp add: line_wf_def)
    then show False using lastE(3) [OF len] lastE(1) by simp
  qed
qed

lemma join_ok:
  "line_wf r \<Longrightarrow> line_wf s \<Longrightarrow> LineRange_join r s =
     Inr (mk_line (min (lrStartLineNumber r) (lrStartLineNumber s))
       (max (endLineNumberExclusive r) (endLineNumberExclusive s)))"
  by (simp add: LineRange_join_def line_wf_def)

lemma gap_sorted_nth_wf: "line_gap_sorted rs \<Longrightarrow> i < length rs \<Longrightarrow> line_wf (rs ! i)"
  by (simp add: gap_sorted_nth_le line_wf_def)

lemma addRange_joined:
  assumes gs: "line_gap_sorted rs" and wf: "line_wf rg" and ij: "i < j" "j \<le> length rs"
  shows "(if i = j - 1 then LineRange_join (rs ! i) rg
     else rbind (LineRange_join (rs ! i) (rs ! (j - 1))) (\<lambda>r0. LineRange_join r0 rg)) =
     Inr (mk_line (min (lrStartLineNumber rg) (lrStartLineNumber (rs ! i)))
       (max (endLineNumberExclusive rg) (endLineNumberExclusive (rs ! (j - 1)))))"
proof -
  have wfs: "line_wf (rs ! i)" "line_wf (rs ! (j - 1))" using ij gs gap_sorted_nth_wf by auto
  have "lrStartLineNumber (rs ! i) \<le> lrStartLineNumber (rs ! (j - 1))"
    "endLineNumberExclusive (rs ! i) \<le> endLineNumberExclusive (rs ! (j - 1))"
    using ij by (intro gap_sorted_mono [OF gs]; simp)+
  with wfs wf ij show ?thesis
    by (auto simp: join_ok line_wf_def min.commute max.commute)
qed

lemma addRange_eq:
  assumes gs: "line_gap_sorted (normalizedRanges st)" and wf: "line_wf rg" and ne: "LineRange_length rg \<noteq> 0"
  defines "rs \<equiv> normalizedRanges st"
  defines "i \<equiv> nat (touchStartIdx rs rg)" and "j \<equiv> nat (touchEndIdxExclusive rs rg)"
  shows "LineRangeSet_addRange st rg =
    (if i = j then Inr (st\<lparr>normalizedRanges := take i rs @ rg # drop i rs\<rparr>)
     else Inr (st\<lparr>normalizedRanges := take i rs @
       mk_line (min (lrStartLineNumber rg) (lrStartLineNumber (rs ! i)))
         (max (endLineNumberExclusive rg) (endLineNumberExclusive (rs ! (j - 1)))) # drop j rs\<rparr>))"
proof -
  note idx = touch_idx [OF gs [folded rs_def] wf]
  have I: "touchStartIdx rs rg = int i" and J: "touchEndIdxExclusive rs rg = int j"
    using idx(1,2) by (auto simp: i_def j_def)
  have le: "i \<le> j" "j \<le> length rs" using idx(2,3) by (auto simp: I J)
  show ?thesis
  proof (cases "i = j")
    case True
    with ne le show ?thesis
      by (simp add: LineRangeSet_addRange_def Let_def I J js_splice_in flip: rs_def)
  next
    case False
    with le have ij: "i < j" by simp
    note joined = addRange_joined [OF gs [folded rs_def] wf ij le(2)]
    show ?thesis
    proof (cases "i = j - 1")
      case True
      then have "int i = int j - 1" "nat (int j - 1) = j - 1" using ij by linarith+
      moreover have "rs[i := x] = take i rs @ x # drop j rs" for x
        using True ij le upd_conv_take_nth_drop [of i rs x] by simp
      ultimately show ?thesis
        using ne ij joined True
        by (simp add: LineRangeSet_addRange_def Let_def I J flip: rs_def)
    next
      case False
      then have "int i \<noteq> int j - 1" and "nat (int j - 1) = j - 1" using ij by linarith+
      moreover have "js_splice rs (int i) (int j - int i) ys = take i rs @ ys @ drop j rs" for ys
        using ij le by (simp add: js_splice_in)
      moreover obtain r0 where "LineRange_join (rs ! i) (rs ! (j - 1)) = Inr r0"
        "LineRange_join r0 rg = Inr (mk_line (min (lrStartLineNumber rg) (lrStartLineNumber (rs ! i)))
         (max (endLineNumberExclusive rg) (endLineNumberExclusive (rs ! (j - 1)))))"
        using joined False by auto
      ultimately show ?thesis
        using ne ij by (simp add: LineRangeSet_addRange_def Let_def I J flip: rs_def)
    qed
  qed
qed

lemma addRange_correct:
  assumes "line_set_wf st" and "line_wf rg"
  obtains st' where "LineRangeSet_addRange st rg = Inr st'" and "line_set_wf st'"
    and "line_set_points st' = line_set_points st \<union> lines_of rg"
proof (cases "LineRange_length rg = 0")
  case True
  then have "LineRangeSet_addRange st rg = Inr st" "lines_of rg = {}"
    by (simp_all add: LineRangeSet_addRange_def LineRange_length_def lines_of_def)
  with that assms show ?thesis by simp
next
  case False
  define rs where "rs = normalizedRanges st"
  define i j where "i = nat (touchStartIdx rs rg)" and "j = nat (touchEndIdxExclusive rs rg)"
  have gs: "line_gap_sorted rs" and ne: "line_nonempty rs"
    using assms(1) by (simp_all add: line_set_wf_def rs_def)
  have ne_rg: "lrStartLineNumber rg < endLineNumberExclusive rg"
    using False assms(2) by (simp add: LineRange_length_def line_wf_def)
  have ne_upd: "line_nonempty (take i rs @ x # drop j rs)"
    if "lrStartLineNumber x < endLineNumberExclusive x" for x i j
    using ne that by (auto dest: in_set_takeD in_set_dropD)
  note idx = touch_idx [OF gs assms(2), folded i_def j_def]
  have le: "i \<le> j" "j \<le> length rs" using idx(1,2,3) by (auto simp: i_def j_def)
  have ab: "lrStartLineNumber rg \<le> endLineNumberExclusive rg" using assms(2) by (simp add: line_wf_def)
  note eq = addRange_eq [OF gs [unfolded rs_def] assms(2) False, folded rs_def, folded i_def j_def]
  show ?thesis
  proof (cases "i = j")
    case True
    have after: "endLineNumberExclusive rg < lrStartLineNumber (rs ! k)" if "i \<le> k" "k < length rs" for k
      using idx(6) that True by simp
    let ?rg = "mk_line (lrStartLineNumber rg) (endLineNumberExclusive rg)"
    have "line_gap_sorted (take i rs @ ?rg # drop i rs)"
      by (rule line_ivl.insert_gap(1) [OF gs _ ab]) (use le idx(4) after in auto)
    moreover have "line_points (take i rs @ ?rg # drop i rs) =
        line_points rs \<union> {lrStartLineNumber rg..<endLineNumberExclusive rg}"
      by (rule line_ivl.insert_gap(2) [OF gs _ ab]) (use le idx(4) after in auto)
    moreover have "?rg = rg" by simp
    ultimately have "line_gap_sorted (take i rs @ rg # drop i rs)"
      "line_points (take i rs @ rg # drop i rs) = line_points rs \<union> lines_of rg"
      by (simp_all only: lines_of_def)
    with True eq that ne_upd [OF ne_rg] show ?thesis
      by (simp add: line_set_wf_def line_set_points_def rs_def del: set_append)
  next
    case neq: False
    with le have ij: "i < j" by simp
    have "min (lrStartLineNumber rg) (lrStartLineNumber (rs ! i))
        < max (endLineNumberExclusive rg) (endLineNumberExclusive (rs ! (j - 1)))"
      using ne_rg by linarith
    from line_ivl.replace_segment [OF gs ij le(2) ab idx(4) idx(5) idx(6)] ne_upd [of "mk_line _ _"] this neq eq that
    show ?thesis by (simp add: line_set_wf_def line_set_points_def rs_def lines_of_def del: set_append)
  qed
qed

subsection \<open>Membership\<close>

lemma findLastMonotonous_sorted:
  assumes mono: "\<And>k l. k \<le> l \<Longrightarrow> l < length rs \<Longrightarrow> p (rs ! l) \<Longrightarrow> p (rs ! k)"
  shows "(findLastMonotonous rs (on_item p) = None \<and> (\<forall>k < length rs. \<not> p (rs ! k))) \<or>
    (\<exists>i < length rs. findLastMonotonous rs (on_item p) = Some (rs ! i) \<and> (\<forall>k < length rs. p (rs ! k) \<longleftrightarrow> k \<le> i))"
proof -
  let ?idx = "findLastIdxMonotonous rs (on_item p) 0 (int (length rs))"
  have "monotonous_on rs (\<lambda>x. \<not> on_item p x) 0 (int (length rs))"
    unfolding monotonous_on_def
  proof (intro allI impI)
    fix k l :: int assume h: "0 \<le> k \<and> k \<le> l \<and> l < int (length rs) \<and> \<not> on_item p (js_at rs k)"
    then have "js_at rs k = Some (rs ! nat k)" "js_at rs l = Some (rs ! nat l)" "nat k \<le> nat l" "nat l < length rs"
      by (auto simp: js_at_def)
    then show "\<not> on_item p (js_at rs l)" using h mono by auto
  qed
  from findLast_whole [OF this]
  have idx: "- 1 \<le> ?idx" "?idx < int (length rs)" "\<And>k. k < length rs \<Longrightarrow> p (rs ! k) \<longleftrightarrow> int k \<le> ?idx"
    by auto
  show ?thesis
  proof (cases "?idx = - 1")
    case True
    with idx show ?thesis by (auto simp: findLastMonotonous_def Let_def)
  next
    case False
    with idx(1,2) have i: "nat ?idx < length rs" "int (nat ?idx) = ?idx" by linarith+
    then have "findLastMonotonous rs (on_item p) = Some (rs ! nat ?idx)"
      using False idx(1,2) by (simp add: findLastMonotonous_def Let_def js_at_def)
    moreover have "\<forall>k < length rs. p (rs ! k) \<longleftrightarrow> k \<le> nat ?idx"
      using idx(1,3) i by (metis nat_int nat_mono of_nat_le_iff)
    ultimately show ?thesis using i by blast
  qed
qed

lemma points_of_nth: "x \<in> points_of lo hi rs \<longleftrightarrow> (\<exists>k < length rs. lo (rs ! k) \<le> x \<and> x < hi (rs ! k))"
  by (force simp: points_of_def in_set_conv_nth)

lemma contains_correct:
  assumes gs: "line_gap_sorted (normalizedRanges st)"
  shows "LineRangeSet_contains st n \<longleftrightarrow> n \<in> line_set_points st"
proof -
  let ?rs = "normalizedRanges st"
  let ?p = "\<lambda>r. lrStartLineNumber r \<le> n"
  have mono: "?p (?rs ! k)" if "k \<le> l" "l < length ?rs" "?p (?rs ! l)" for k l
    using that gap_sorted_mono(1) [OF gs that(1,2)] by simp
  have "(findLastMonotonous ?rs (on_item ?p) = None \<and> (\<forall>k < length ?rs. \<not> ?p (?rs ! k))) \<or>
    (\<exists>i < length ?rs. findLastMonotonous ?rs (on_item ?p) = Some (?rs ! i) \<and>
       (\<forall>k < length ?rs. ?p (?rs ! k) \<longleftrightarrow> k \<le> i))"
    by (rule findLastMonotonous_sorted) (rule mono)
  then show ?thesis
  proof (elim disjE conjE exE)
    assume "findLastMonotonous ?rs (on_item (\<lambda>r. lrStartLineNumber r \<le> n)) = None"
      and "\<forall>k < length ?rs. \<not> lrStartLineNumber (?rs ! k) \<le> n"
    then show ?thesis
      by (auto simp: LineRangeSet_contains_def line_set_points_def points_of_nth)
  next
    fix i assume i: "i < length ?rs"
      "findLastMonotonous ?rs (on_item (\<lambda>r. lrStartLineNumber r \<le> n)) = Some (?rs ! i)"
      "\<forall>k < length ?rs. lrStartLineNumber (?rs ! k) \<le> n \<longleftrightarrow> k \<le> i"
    have "k = i" if "k < length ?rs" "lrStartLineNumber (?rs ! k) \<le> n" "n < endLineNumberExclusive (?rs ! k)" for k
    proof (rule ccontr)
      assume "k \<noteq> i"
      with that i have "k < i" by fastforce
      then show False using gap_sorted_nth_less [OF gs, of k i] that i by fastforce
    qed
    then have "n \<in> line_set_points st \<longleftrightarrow> n < endLineNumberExclusive (?rs ! i)"
      using i(1,3) unfolding line_set_points_def points_of_nth by blast
    moreover have "LineRangeSet_contains st n \<longleftrightarrow> n < endLineNumberExclusive (?rs ! i)"
      using i(2) by (simp add: LineRangeSet_contains_def)
    ultimately show ?thesis by blast
  qed
qed

lemma intersects_correct:
  assumes gs: "line_set_wf st" and rg: "lrStartLineNumber rg < endLineNumberExclusive rg"
  shows "LineRangeSet_intersects st rg \<longleftrightarrow> line_set_points st \<inter> lines_of rg \<noteq> {}"
proof -
  let ?rs = "normalizedRanges st"
  let ?p = "\<lambda>r. lrStartLineNumber r < endLineNumberExclusive rg"
  have gs': "line_gap_sorted ?rs" and ne: "line_nonempty ?rs" using gs by (simp_all add: line_set_wf_def)
  have mono: "?p (?rs ! k)" if "k \<le> l" "l < length ?rs" "?p (?rs ! l)" for k l
    using that gap_sorted_mono(1) [OF gs' that(1,2)] by simp
  have meet: "line_set_points st \<inter> lines_of rg \<noteq> {} \<longleftrightarrow>
      (\<exists>k < length ?rs. ?p (?rs ! k) \<and> lrStartLineNumber rg < endLineNumberExclusive (?rs ! k))" (is "?L \<longleftrightarrow> ?R")
  proof
    assume ?R
    then obtain k where k: "k < length ?rs" "?p (?rs ! k)" "lrStartLineNumber rg < endLineNumberExclusive (?rs ! k)"
      by blast
    with ne rg have "max (lrStartLineNumber rg) (lrStartLineNumber (?rs ! k)) \<in> line_set_points st \<inter> lines_of rg"
      by (auto simp: line_set_points_def points_of_nth lines_of_def intro!: exI [of _ k])
    then show ?L by blast
  qed (force simp: line_set_points_def points_of_nth lines_of_def)
  have "(findLastMonotonous ?rs (on_item ?p) = None \<and> (\<forall>k < length ?rs. \<not> ?p (?rs ! k))) \<or>
    (\<exists>i < length ?rs. findLastMonotonous ?rs (on_item ?p) = Some (?rs ! i) \<and>
       (\<forall>k < length ?rs. ?p (?rs ! k) \<longleftrightarrow> k \<le> i))"
    by (rule findLastMonotonous_sorted) (rule mono)
  then show ?thesis
  proof (elim disjE conjE exE)
    assume "findLastMonotonous ?rs (on_item ?p) = None" and "\<forall>k < length ?rs. \<not> ?p (?rs ! k)"
    then show ?thesis unfolding meet by (auto simp: LineRangeSet_intersects_def)
  next
    fix i assume i: "i < length ?rs" "findLastMonotonous ?rs (on_item ?p) = Some (?rs ! i)"
      "\<forall>k < length ?rs. ?p (?rs ! k) \<longleftrightarrow> k \<le> i"
    have "endLineNumberExclusive (?rs ! k) \<le> endLineNumberExclusive (?rs ! i)" if "k < length ?rs" "?p (?rs ! k)" for k
      using that i gap_sorted_mono(2) [OF gs', of k i] by blast
    moreover have "LineRangeSet_intersects st rg \<longleftrightarrow> lrStartLineNumber rg < endLineNumberExclusive (?rs ! i)"
      using i(2) by (simp add: LineRangeSet_intersects_def)
    ultimately show ?thesis unfolding meet using i(1,3) by (meson order.refl order.strict_trans2)
  qed
qed

subsection \<open>Union\<close>

text \<open>
  The state of the merge loop: what has been pushed lies strictly before \<open>current\<close>, and everything
  unread starts at or after its start.
\<close>

definition union_inv :: "LineRange option \<Rightarrow> LineRange list \<Rightarrow> LineRange list \<Rightarrow> bool" where
  "union_inv current res unread \<longleftrightarrow>
     line_gap_sorted res \<and> line_nonempty res \<and>
     (case current of
        None \<Rightarrow> res = []
      | Some c \<Rightarrow> lrStartLineNumber c < endLineNumberExclusive c \<and>
          (\<forall>r \<in> set res. endLineNumberExclusive r < lrStartLineNumber c) \<and>
          (\<forall>r \<in> set unread. lrStartLineNumber c \<le> lrStartLineNumber r))"

definition current_points :: "LineRange option \<Rightarrow> int set" where
  "current_points current = (case current of None \<Rightarrow> {} | Some c \<Rightarrow> lines_of c)"

lemma union_step_correct:
  assumes inv: "union_inv current res unread" and next_in: "next \<in> set unread"
    and ne: "lrStartLineNumber next < endLineNumberExclusive next"
    and rest: "set unread' \<subseteq> set unread" "\<And>r. r \<in> set unread' \<Longrightarrow> lrStartLineNumber next \<le> lrStartLineNumber r"
  obtains c out where "union_step current res next = Inr (c, out)" and "union_inv c out unread'"
    and "current_points c \<union> line_points out = current_points current \<union> line_points res \<union> lines_of next"
proof (cases current)
  case None
  with inv ne rest that [of "Some next" res] show ?thesis
    by (auto simp: union_step_def union_inv_def current_points_def)
next
  case (Some c)
  with inv next_in have c: "lrStartLineNumber c < endLineNumberExclusive c" "lrStartLineNumber c \<le> lrStartLineNumber next"
    "\<forall>r \<in> set res. endLineNumberExclusive r < lrStartLineNumber c"
    "\<forall>r \<in> set unread. lrStartLineNumber c \<le> lrStartLineNumber r" "line_gap_sorted res" "line_nonempty res"
    by (auto simp: union_inv_def)
  show ?thesis
  proof (cases "endLineNumberExclusive c \<ge> lrStartLineNumber next")
    case True
    let ?c = "mk_line (lrStartLineNumber c) (max (endLineNumberExclusive c) (endLineNumberExclusive next))"
    have "union_step current res next = Inr (Some ?c, res)"
      using Some True c ne by (simp add: union_step_def max_def)
    moreover have "union_inv (Some ?c) res unread'"
      using c ne rest by (auto simp: union_inv_def)
    moreover have "current_points (Some ?c) \<union> line_points res = current_points current \<union> line_points res \<union> lines_of next"
      using Some True c ne by (auto simp: current_points_def lines_of_def)
    ultimately show ?thesis by (rule that)
  next
    case False
    then have "union_step current res next = Inr (Some next, res @ [c])"
      using Some by (simp add: union_step_def)
    moreover have "union_inv (Some next) (res @ [c]) unread'"
      using c ne rest False by (fastforce simp: union_inv_def gap_sorted_append gap_sorted_Cons)
    moreover have "current_points (Some next) \<union> line_points (res @ [c]) =
        current_points current \<union> line_points res \<union> lines_of next"
      using Some by (auto simp: current_points_def lines_of_def)
    ultimately show ?thesis by (rule that)
  qed
qed

lemma getUnion_loop_correct:
  assumes "line_gap_sorted rs1" "line_nonempty rs1" "line_gap_sorted rs2" "line_nonempty rs2"
    and "union_inv current res (rs1 @ rs2)"
  shows "\<exists>out. getUnion_loop rs1 rs2 current res = Inr out \<and> line_gap_sorted out \<and> line_nonempty out \<and>
    line_points out = current_points current \<union> line_points res \<union> line_points rs1 \<union> line_points rs2"
  using assms
proof (induction rs1 rs2 current res rule: getUnion_loop.induct)
  case (1 current res)
  then show ?case
    by (auto simp: union_inv_def current_points_def lines_of_def gap_sorted_append gap_sorted_Cons
        split: option.splits)
next
  case (2 r1 rs1 current res)
  have "lrStartLineNumber r1 \<le> lrStartLineNumber r" if "r \<in> set (rs1 @ [])" for r
    using that 2(2,3) by (fastforce simp: gap_sorted_Cons)
  then obtain c out where "union_step current res r1 = Inr (c, out)" "union_inv c out (rs1 @ [])"
    "current_points c \<union> line_points out = current_points current \<union> line_points res \<union> lines_of r1"
    using union_step_correct [OF 2(6), of r1 "rs1 @ []"] 2(3) by auto
  moreover from this(1,2) obtain out' where "getUnion_loop rs1 [] c out = Inr out'" "line_gap_sorted out'"
    "line_nonempty out'" "line_points out' = current_points c \<union> line_points out \<union> line_points rs1 \<union> line_points []"
    using 2(1) [of "(c, out)" c out] 2(2,3) by (auto simp: gap_sorted_Cons)
  ultimately show ?case by (auto simp: lines_of_def)
next
  case (3 r2 rs2 current res)
  have "lrStartLineNumber r2 \<le> lrStartLineNumber r" if "r \<in> set ([] @ rs2)" for r
    using that 3(4,5) by (fastforce simp: gap_sorted_Cons)
  then obtain c out where "union_step current res r2 = Inr (c, out)" "union_inv c out ([] @ rs2)"
    "current_points c \<union> line_points out = current_points current \<union> line_points res \<union> lines_of r2"
    using union_step_correct [OF 3(6), of r2 "[] @ rs2"] 3(5) by auto
  moreover from this(1,2) obtain out' where "getUnion_loop [] rs2 c out = Inr out'" "line_gap_sorted out'"
    "line_nonempty out'" "line_points out' = current_points c \<union> line_points out \<union> line_points [] \<union> line_points rs2"
    using 3(1) [of "(c, out)" c out] 3(4,5) by (auto simp: gap_sorted_Cons)
  ultimately show ?case by (auto simp: lines_of_def)
next
  case (4 r1 rs1 r2 rs2 current res)
  note gs = 4(3,5) [unfolded gap_sorted_Cons] and ne = 4(4,6)
  show ?case
  proof (cases "lrStartLineNumber r1 < lrStartLineNumber r2")
    case True
    have "lrStartLineNumber r1 \<le> lrStartLineNumber r" if "r \<in> set (rs1 @ r2 # rs2)" for r
      using that gs ne True by fastforce
    then obtain c out where "union_step current res r1 = Inr (c, out)" "union_inv c out (rs1 @ r2 # rs2)"
      "current_points c \<union> line_points out = current_points current \<union> line_points res \<union> lines_of r1"
      using union_step_correct [OF 4(7), of r1 "rs1 @ r2 # rs2"] ne by auto
    moreover from this(1,2) obtain out' where "getUnion_loop rs1 (r2 # rs2) c out = Inr out'" "line_gap_sorted out'"
      "line_nonempty out'" "line_points out' = current_points c \<union> line_points out \<union> line_points rs1 \<union> line_points (r2 # rs2)"
      using 4(1) [of "(c, out)" c out] True gs ne 4(5,6) by auto
    ultimately show ?thesis using True by (auto simp: lines_of_def)
  next
    case False
    have "lrStartLineNumber r2 \<le> lrStartLineNumber r" if "r \<in> set ((r1 # rs1) @ rs2)" for r
      using that gs ne False by fastforce
    then obtain c out where "union_step current res r2 = Inr (c, out)" "union_inv c out ((r1 # rs1) @ rs2)"
      "current_points c \<union> line_points out = current_points current \<union> line_points res \<union> lines_of r2"
      using union_step_correct [OF 4(7), of r2 "(r1 # rs1) @ rs2"] ne by auto
    moreover from this(1,2) obtain out' where "getUnion_loop (r1 # rs1) rs2 c out = Inr out'" "line_gap_sorted out'"
      "line_nonempty out'" "line_points out' = current_points c \<union> line_points out \<union> line_points (r1 # rs1) \<union> line_points rs2"
      using 4(2) [of "(c, out)" c out] False gs ne 4(3,4) by auto
    ultimately show ?thesis using False by (auto simp: lines_of_def)
  qed
qed

lemma getUnion_correct:
  assumes "line_set_wf st" and "line_set_wf other"
  obtains st' where "LineRangeSet_getUnion st other = Inr st'" and "line_set_wf st'"
    and "line_set_points st' = line_set_points st \<union> line_set_points other"
proof -
  have "union_inv None [] (normalizedRanges st @ normalizedRanges other)" by (simp add: union_inv_def)
  with assms getUnion_loop_correct [of "normalizedRanges st" "normalizedRanges other" None "[]"]
  obtain out where "getUnion_loop (normalizedRanges st) (normalizedRanges other) None [] = Inr out"
    "line_gap_sorted out" "line_nonempty out"
    "line_points out = line_points (normalizedRanges st) \<union> line_points (normalizedRanges other)"
    by (auto simp: line_set_wf_def current_points_def)
  with assms that show ?thesis
    by (cases "normalizedRanges st = []"; cases "normalizedRanges other = []")
      (auto simp: LineRangeSet_getUnion_def line_set_points_def)
qed

subsection \<open>Subtraction\<close>

lemma subtractFrom_loop_correct:
  assumes "line_gap_sorted rs" and "line_nonempty rs" and "\<forall>r \<in> set rs. s \<le> endLineNumberExclusive r"
    and "line_gap_sorted res" and "line_nonempty res" and "\<forall>r \<in> set res. endLineNumberExclusive r < s"
  shows "\<exists>res'. subtractFrom_loop rs s res = Inr (if rs = [] then s else endLineNumberExclusive (last rs), res') \<and>
    line_gap_sorted res' \<and> line_nonempty res' \<and>
    (\<forall>r \<in> set res'. endLineNumberExclusive r < (if rs = [] then s else endLineNumberExclusive (last rs))) \<and>
    line_points res' = line_points res \<union>
      ({s..<(if rs = [] then s else endLineNumberExclusive (last rs))} - line_points rs)"
  using assms
proof (induction rs arbitrary: s res)
  case Nil
  then show ?case by simp
next
  case (Cons r rs)
  define res1 where "res1 = (if lrStartLineNumber r > s then res @ [mk_line s (lrStartLineNumber r)] else res)"
  have r: "lrStartLineNumber r < endLineNumberExclusive r" "s \<le> endLineNumberExclusive r"
    "\<forall>x \<in> set rs. endLineNumberExclusive r < lrStartLineNumber x" "line_gap_sorted rs" "line_nonempty rs"
    using Cons.prems by (auto simp: gap_sorted_Cons)
  have step: "subtractFrom_loop (r # rs) s res = subtractFrom_loop rs (endLineNumberExclusive r) res1"
    by (simp add: res1_def)
  have "line_gap_sorted res1"
    using Cons.prems(4,6) by (auto simp: res1_def gap_sorted_append gap_sorted_Cons)
  moreover have "line_nonempty res1" using Cons.prems(5) by (auto simp: res1_def)
  moreover have "\<forall>x \<in> set res1. endLineNumberExclusive x < endLineNumberExclusive r"
    using Cons.prems(6) r(1,2) by (auto simp: res1_def dest: order.strict_trans2)
  moreover have hi_le: "\<forall>x \<in> set rs. endLineNumberExclusive r \<le> endLineNumberExclusive x"
    using r(3,5) by force
  ultimately obtain res' where res': "subtractFrom_loop rs (endLineNumberExclusive r) res1 =
      Inr (if rs = [] then endLineNumberExclusive r else endLineNumberExclusive (last rs), res')"
    "line_gap_sorted res'" "line_nonempty res'"
    "\<forall>x \<in> set res'. endLineNumberExclusive x < (if rs = [] then endLineNumberExclusive r else endLineNumberExclusive (last rs))"
    "line_points res' = line_points res1 \<union>
      ({endLineNumberExclusive r..<(if rs = [] then endLineNumberExclusive r else endLineNumberExclusive (last rs))} - line_points rs)"
    using Cons.IH [OF r(4,5), of "endLineNumberExclusive r" res1] by blast
  have last: "(if rs = [] then endLineNumberExclusive r else endLineNumberExclusive (last rs)) = endLineNumberExclusive (last (r # rs))"
    by simp
  define e where "e = endLineNumberExclusive (last (r # rs))"
  have "endLineNumberExclusive r \<le> e" using hi_le by (auto simp: e_def)
  moreover have "line_points res1 = line_points res \<union> {s..<lrStartLineNumber r}"
    by (auto simp: res1_def)
  moreover have "{s..<lrStartLineNumber r} \<inter> line_points rs = {}" "lines_of r \<inter> line_points rs = {}"
    using r(1,3) by (force simp: points_of_def lines_of_def)+
  moreover have "{s..<e} = {s..<lrStartLineNumber r} \<union> ({s..<e} \<inter> lines_of r) \<union> {endLineNumberExclusive r..<e}"
    if "endLineNumberExclusive r \<le> e" using that r(1,2) by (auto simp: lines_of_def)
  moreover have "{s..<lrStartLineNumber r} \<inter> lines_of r = {}" "{endLineNumberExclusive r..<e} \<inter> lines_of r = {}"
    by (auto simp: lines_of_def)
  ultimately have pts: "line_points res' = line_points res \<union> ({s..<e} - line_points (r # rs))"
    unfolding res'(5) last e_def [symmetric] by (simp only: points_of_simps lines_of_def) blast
  have e: "(if r # rs = [] then s else endLineNumberExclusive (last (r # rs))) = e"
    by (simp only: e_def list.distinct if_False)
  have "subtractFrom_loop (r # rs) s res = Inr (e, res')"
    unfolding step res'(1) last e_def [symmetric] ..
  moreover have "\<forall>x \<in> set res'. endLineNumberExclusive x < e"
    using res'(4) unfolding last e_def [symmetric] .
  ultimately show ?case unfolding e using res'(2,3) pts by blast
qed

lemma subtractFrom_correct:
  assumes wf: "line_set_wf st" and rg: "lrStartLineNumber rg < endLineNumberExclusive rg"
  obtains st' where "LineRangeSet_subtractFrom st rg = Inr st'" and "line_set_wf st'"
    and "line_set_points st' = lines_of rg - line_set_points st"
proof -
  define rs where "rs = normalizedRanges st"
  define i j where "i = nat (touchStartIdx rs rg)" and "j = nat (touchEndIdxExclusive rs rg)"
  have gs: "line_gap_sorted rs" and ne: "line_nonempty rs"
    using wf by (simp_all add: line_set_wf_def rs_def)
  have "line_wf rg" using rg by (simp add: line_wf_def)
  note idx = touch_idx [OF gs this, folded i_def j_def]
  have I: "touchStartIdx rs rg = int i" and J: "touchEndIdxExclusive rs rg = int j"
    using idx(1,2) by (auto simp: i_def j_def)
  have le: "i \<le> j" "j \<le> length rs" using idx(2,3) by (auto simp: I J)
  let ?seg = "take (j - i) (drop i rs)"
  have seg_gs: "line_gap_sorted ?seg" "line_nonempty ?seg"
    using gs ne by (auto simp: gap_sorted_take gap_sorted_drop dest!: in_set_takeD in_set_dropD)
  have seg_touch: "lrStartLineNumber rg \<le> endLineNumberExclusive r \<and> lrStartLineNumber r \<le> endLineNumberExclusive rg"
    if "r \<in> set ?seg" for r
    using that idx(5) le by (auto simp: in_set_conv_nth)
  have outside: "x \<in> line_points ?seg" if "x \<in> line_points rs" "x \<in> lines_of rg" for x
  proof -
    from that(1) obtain k where k: "k < length rs" "lrStartLineNumber (rs ! k) \<le> x" "x < endLineNumberExclusive (rs ! k)"
      by (auto simp: points_of_nth)
    then have "i \<le> k" "k < j" using idx(4,6) that(2) by (force simp: lines_of_def not_le [symmetric])+
    then have "?seg ! (k - i) = rs ! k" "k - i < length ?seg" using le by auto
    with k show ?thesis by (metis points_of_nth)
  qed
  have sub: "line_points ?seg \<subseteq> line_points rs"
    by (auto simp: points_of_def dest!: in_set_takeD in_set_dropD)
  show ?thesis
  proof (cases "i = j")
    case True
    then have "LineRangeSet_subtractFrom st rg = Inr \<lparr>normalizedRanges = [rg]\<rparr>"
      by (simp add: LineRangeSet_subtractFrom_def Let_def I J flip: rs_def)
    moreover have "lines_of rg \<inter> line_points rs = {}" using True outside by fastforce
    ultimately show ?thesis
      using that rg by (auto simp: line_set_points_def lines_of_def gap_sorted_Cons rs_def)
  next
    case False
    with le have ne_seg: "?seg \<noteq> []" by simp
    let ?e = "endLineNumberExclusive (last ?seg)"
    obtain res where res: "subtractFrom_loop ?seg (lrStartLineNumber rg) [] = Inr (?e, res)"
      "line_gap_sorted res" "line_nonempty res" "\<forall>r \<in> set res. endLineNumberExclusive r < ?e"
      "line_points res = {lrStartLineNumber rg..<?e} - line_points ?seg"
      using subtractFrom_loop_correct [OF seg_gs, of "lrStartLineNumber rg" "[]"] seg_touch ne_seg by auto
    have last_seg: "last ?seg \<in> set ?seg" using ne_seg by simp
    have lastpts: "x \<in> line_points ?seg" if "endLineNumberExclusive rg \<le> x" "x < ?e" for x
      using that seg_touch [OF last_seg] unfolding points_of_def
      by (intro UN_I [OF last_seg]) auto
    have e_ge: "lrStartLineNumber rg \<le> ?e" using seg_touch [OF last_seg] by simp
    have run: "LineRangeSet_subtractFrom st rg =
        (if ?e < endLineNumberExclusive rg
         then Inr \<lparr>normalizedRanges = res @ [mk_line ?e (endLineNumberExclusive rg)]\<rparr>
         else Inr \<lparr>normalizedRanges = res\<rparr>)"
    proof -
      have "nat (int j - int i) = j - i" by simp
      with False res(1) show ?thesis
        by (simp add: LineRangeSet_subtractFrom_def Let_def I J flip: rs_def)
    qed
    have pts: "lines_of rg - line_points rs = lines_of rg - line_points ?seg"
      using outside sub by blast
    have tail: "x \<notin> line_points ?seg" if "?e \<le> x" for x
    proof
      assume "x \<in> line_points ?seg"
      then obtain r where "r \<in> set ?seg" "x < endLineNumberExclusive r" by (auto simp: points_of_def)
      moreover from this(1) have "endLineNumberExclusive r \<le> ?e" by (rule gap_sorted_le_last [OF seg_gs(1)])
      ultimately show False using that by simp
    qed
    show ?thesis
    proof (cases "?e < endLineNumberExclusive rg")
      case True
      let ?st = "\<lparr>normalizedRanges = res @ [mk_line ?e (endLineNumberExclusive rg)]\<rparr>"
      have "line_set_wf ?st" using True res by (auto simp: gap_sorted_append gap_sorted_Cons)
      moreover have "line_set_points ?st = lines_of rg - line_set_points st"
        unfolding line_set_points_def rs_def [symmetric] pts
        using True res(5) tail e_ge by (auto simp: lines_of_def)
      ultimately show ?thesis using that run True by simp
    next
      case F: False
      have "line_points res = lines_of rg - line_points ?seg"
      proof -
        have "x < endLineNumberExclusive rg" if "x < ?e" "x \<notin> line_points ?seg" for x
          using lastpts [of x] that by (cases "endLineNumberExclusive rg \<le> x") auto
        with F show ?thesis unfolding res(5) lines_of_def by force
      qed
      with that run F res show ?thesis
        by (simp add: line_set_points_def pts flip: rs_def)
    qed
  qed
qed

subsection \<open>Intersection\<close>

lemma points_of_ge:
  "\<forall>s \<in> set rs. b < lo s \<Longrightarrow> x \<in> points_of lo hi rs \<Longrightarrow> b < x"
  by (force simp: points_of_def)

lemma LineRange_intersect_nonempty:
  assumes "lrStartLineNumber r1 < endLineNumberExclusive r1" and "lrStartLineNumber r2 < endLineNumberExclusive r2"
  defines "l \<equiv> max (lrStartLineNumber r1) (lrStartLineNumber r2)"
    and "h \<equiv> min (endLineNumberExclusive r1) (endLineNumberExclusive r2)"
  shows "LineRange_intersect r1 r2 = Inr (if l \<le> h then Some (mk_line l h) else None)"
  unfolding l_def h_def using assms(1,2) by (auto simp: LineRange_intersect_def LineRange_new_def Let_def)

lemma getIntersection_loop_correct:
  assumes "line_gap_sorted rs1" and "line_nonempty rs1" and "line_gap_sorted rs2" and "line_nonempty rs2"
    and "line_gap_sorted res" and "line_nonempty res"
    and "\<forall>r \<in> set res. \<forall>x \<in> set rs1. \<forall>y \<in> set rs2.
           endLineNumberExclusive r < max (lrStartLineNumber x) (lrStartLineNumber y)"
  shows "\<exists>res'. getIntersection_loop rs1 rs2 res = Inr res' \<and> line_gap_sorted res' \<and> line_nonempty res' \<and>
    line_points res' = line_points res \<union> (line_points rs1 \<inter> line_points rs2)"
  using assms
proof (induction rs1 rs2 res rule: getIntersection_loop.induct)
  case (1 r1 rs1 r2 rs2 res)
  define l h where "l = max (lrStartLineNumber r1) (lrStartLineNumber r2)"
    and "h = min (endLineNumberExclusive r1) (endLineNumberExclusive r2)"
  define res' where "res' = (if l < h then res @ [mk_line l h] else res)"
  define i where "i = (if l \<le> h then Some (mk_line l h) else None)"
  have r: "lrStartLineNumber r1 < endLineNumberExclusive r1" "lrStartLineNumber r2 < endLineNumberExclusive r2"
    "\<forall>x \<in> set rs1. endLineNumberExclusive r1 < lrStartLineNumber x" "line_gap_sorted rs1" "line_nonempty rs1"
    "\<forall>x \<in> set rs2. endLineNumberExclusive r2 < lrStartLineNumber x" "line_gap_sorted rs2" "line_nonempty rs2"
    using "1.prems" by (auto simp: gap_sorted_Cons)
  have i: "LineRange_intersect r1 r2 = Inr i"
    using LineRange_intersect_nonempty [OF r(1,2)] by (simp add: l_def h_def i_def)
  have res': "(case i of Some x \<Rightarrow> (if LineRange_isEmpty x then res else res @ [x]) | None \<Rightarrow> res) = res'"
    by (auto simp: i_def res'_def LineRange_isEmpty_def)
  have below: "\<forall>x \<in> set res. endLineNumberExclusive x < l"
    using "1.prems"(7) by (simp add: l_def)
  have gs: "line_gap_sorted res'" "line_nonempty res'"
    using "1.prems"(5,6) below by (auto simp: res'_def gap_sorted_append gap_sorted_Cons)
  have pts: "line_points res' = line_points res \<union> (lines_of r1 \<inter> lines_of r2)"
    by (auto simp: res'_def l_def h_def lines_of_def)
  have sep1: "\<forall>r \<in> set res'. endLineNumberExclusive r < max (lrStartLineNumber x) (lrStartLineNumber y)"
    if "x \<in> set rs1" "y \<in> set (r2 # rs2)" for x y
    using that r(3) "1.prems"(7) by (auto simp: res'_def h_def less_max_iff_disj min_less_iff_disj)
  have sep2: "\<forall>r \<in> set res'. endLineNumberExclusive r < max (lrStartLineNumber x) (lrStartLineNumber y)"
    if "x \<in> set (r1 # rs1)" "y \<in> set rs2" for x y
    using that r(6) "1.prems"(7) by (auto simp: res'_def h_def less_max_iff_disj min_less_iff_disj)
  have P1: "line_points (r1 # rs1) = lines_of r1 \<union> line_points rs1"
    and P2: "line_points (r2 # rs2) = lines_of r2 \<union> line_points rs2" by (simp_all add: lines_of_def)
  show ?case
  proof (cases "endLineNumberExclusive r1 < endLineNumberExclusive r2")
    case True
    have "lines_of r1 \<inter> line_points rs2 = {}"
      using points_of_ge [OF r(6)] True by (force simp: lines_of_def)
    moreover have "\<exists>out. getIntersection_loop rs1 (r2 # rs2) res' = Inr out \<and> line_gap_sorted out \<and> line_nonempty out \<and>
        line_points out = line_points res' \<union> (line_points rs1 \<inter> line_points (r2 # rs2))"
      using "1.IH"(1) [of i res'] res' i True r(4,5) "1.prems"(3,4) gs sep1 by simp
    moreover have "getIntersection_loop (r1 # rs1) (r2 # rs2) res = getIntersection_loop rs1 (r2 # rs2) res'"
      using True by (simp add: i res')
    moreover have "line_points res \<union> (lines_of r1 \<inter> lines_of r2) \<union> (line_points rs1 \<inter> (lines_of r2 \<union> line_points rs2)) =
        line_points res \<union> ((lines_of r1 \<union> line_points rs1) \<inter> (lines_of r2 \<union> line_points rs2))"
      if "lines_of r1 \<inter> line_points rs2 = {}" using that by blast
    ultimately show ?thesis unfolding pts P1 P2 by simp
  next
    case False
    have "lines_of r2 \<inter> line_points rs1 = {}"
      using points_of_ge [OF r(3)] False by (force simp: lines_of_def)
    moreover have "\<exists>out. getIntersection_loop (r1 # rs1) rs2 res' = Inr out \<and> line_gap_sorted out \<and> line_nonempty out \<and>
        line_points out = line_points res' \<union> (line_points (r1 # rs1) \<inter> line_points rs2)"
      using "1.IH"(2) [of i res'] res' i False r(7,8) "1.prems"(1,2) gs sep2 by simp
    moreover have "getIntersection_loop (r1 # rs1) (r2 # rs2) res = getIntersection_loop (r1 # rs1) rs2 res'"
      using False by (simp add: i res')
    moreover have "line_points res \<union> (lines_of r1 \<inter> lines_of r2) \<union> ((lines_of r1 \<union> line_points rs1) \<inter> line_points rs2) =
        line_points res \<union> ((lines_of r1 \<union> line_points rs1) \<inter> (lines_of r2 \<union> line_points rs2))"
      if "lines_of r2 \<inter> line_points rs1 = {}" using that by blast
    ultimately show ?thesis unfolding pts P1 P2 by simp
  qed
qed auto

lemma getIntersection_correct:
  assumes "line_set_wf st" and "line_set_wf other"
  obtains st' where "LineRangeSet_getIntersection st other = Inr st'" and "line_set_wf st'"
    and "line_set_points st' = line_set_points st \<inter> line_set_points other"
proof -
  from assms getIntersection_loop_correct [of "normalizedRanges st" "normalizedRanges other" "[]"]
  obtain out where "getIntersection_loop (normalizedRanges st) (normalizedRanges other) [] = Inr out"
    "line_gap_sorted out" "line_nonempty out"
    "line_points out = line_points (normalizedRanges st) \<inter> line_points (normalizedRanges other)"
    by (auto simp: line_set_wf_def)
  with that show ?thesis
    by (auto simp: LineRangeSet_getIntersection_def line_set_points_def)
qed

section \<open>Properties\<close>

lemma contains_points: "line_set_wf st \<Longrightarrow> LineRangeSet_contains st n \<longleftrightarrow> n \<in> line_set_points st"
  by (simp add: contains_correct line_set_wf_def)

lemma LineRange_contains_iff: "LineRange_contains r n \<longleftrightarrow> n \<in> lines_of r"
  by (simp add: LineRange_contains_def lines_of_def)

text \<open>Two small sets the witnesses use.\<close>

definition example_lines :: LineRangeSet where
  "example_lines = \<lparr>normalizedRanges = [mk_line 1 3, mk_line 5 8, mk_line 10 11]\<rparr>"

definition other_lines :: LineRangeSet where
  "other_lines = \<lparr>normalizedRanges = [mk_line 2 6, mk_line 12 14]\<rparr>"

lemma example_lines_wf: "line_set_wf example_lines" "line_set_wf other_lines"
  by (simp_all add: line_set_wf_def gap_sorted_Cons example_lines_def other_lines_def)

text \<open>C33: \<open>LineRangeSet.addRange\<close> on a set with the invariant (sorted, gaps between neighbours, no
  empty range) and an ordered range never throws, keeps the invariant, and \<open>contains\<close> afterwards
  answers true exactly for the lines that were in the set or are in the range.\<close>

lemma LineRangeSet_addRange_set:
  assumes "line_set_wf st" and "line_wf rg"
  shows "\<exists>st'. LineRangeSet_addRange st rg = Inr st' \<and> line_set_wf st' \<and>
    (\<forall>n. LineRangeSet_contains st' n \<longleftrightarrow> LineRangeSet_contains st n \<or> LineRange_contains rg n)"
  using assms addRange_correct [OF assms]
  by (metis LineRange_contains_iff Un_iff contains_points)

lemma LineRangeSet_addRange_set_witness:
  "LineRangeSet_addRange example_lines (mk_line 3 6) = Inr \<lparr>normalizedRanges = [mk_line 1 8, mk_line 10 11]\<rparr> \<and>
   LineRangeSet_contains \<lparr>normalizedRanges = [mk_line 1 8, mk_line 10 11]\<rparr> 4"
proof -
  have "LineRangeSet_addRange example_lines (mk_line 3 6) = Inr \<lparr>normalizedRanges = [mk_line 1 8, mk_line 10 11]\<rparr>"
    by code_simp
  with LineRangeSet_addRange_set [OF example_lines_wf(1), of "mk_line 3 6"] show ?thesis
    by (auto simp: LineRange_contains_def)
qed

text \<open>\<open>LineRangeSet.intersects\<close> answers, for a range that is not empty, whether some line is in
  both; it and \<open>contains\<close> find the answer with one binary search.\<close>

lemma LineRangeSet_intersects_iff:
  assumes "line_set_wf st" and "\<not> LineRange_isEmpty rg" and "line_wf rg"
  shows "LineRangeSet_intersects st rg \<longleftrightarrow> (\<exists>n. LineRangeSet_contains st n \<and> LineRange_contains rg n)"
  using intersects_correct [OF assms(1), of rg] assms(2,3)
  by (auto simp: contains_points [OF assms(1)] LineRange_contains_iff LineRange_isEmpty_def line_wf_def)

lemma LineRangeSet_intersects_iff_witness:
  "LineRangeSet_intersects example_lines (mk_line 3 6) \<and>
   (\<exists>n. LineRangeSet_contains example_lines n \<and> LineRange_contains (mk_line 3 6) n)"
proof -
  have "LineRangeSet_intersects example_lines (mk_line 3 6)" by code_simp
  with LineRangeSet_intersects_iff [OF example_lines_wf(1), of "mk_line 3 6"] show ?thesis
    by (simp add: LineRange_isEmpty_def)
qed

text \<open>C34: The merge of \<open>LineRangeSet.getUnion\<close> never throws on two sets with the invariant, its
  result has the invariant, and contains exactly the lines of either.\<close>

lemma LineRangeSet_getUnion_set:
  assumes "line_set_wf st" and "line_set_wf other"
  shows "\<exists>st'. LineRangeSet_getUnion st other = Inr st' \<and> line_set_wf st' \<and>
    (\<forall>n. LineRangeSet_contains st' n \<longleftrightarrow> LineRangeSet_contains st n \<or> LineRangeSet_contains other n)"
  using assms getUnion_correct [OF assms] by (metis Un_iff contains_points)

lemma LineRangeSet_getUnion_set_witness:
  "\<exists>st'. LineRangeSet_getUnion example_lines other_lines = Inr st' \<and> LineRangeSet_contains st' 4"
proof -
  have "LineRangeSet_contains other_lines 4" by code_simp
  with LineRangeSet_getUnion_set [OF example_lines_wf] show ?thesis by blast
qed

text \<open>C35: \<open>LineRangeSet.subtractFrom\<close> returns, for a non-empty range, a set with the invariant that
  contains exactly the lines of the range that are not in this set, without throwing.\<close>

lemma LineRangeSet_subtractFrom_set:
  assumes "line_set_wf st" and "line_wf rg" and "\<not> LineRange_isEmpty rg"
  shows "\<exists>st'. LineRangeSet_subtractFrom st rg = Inr st' \<and> line_set_wf st' \<and>
    (\<forall>n. LineRangeSet_contains st' n \<longleftrightarrow> LineRange_contains rg n \<and> \<not> LineRangeSet_contains st n)"
proof -
  have "lrStartLineNumber rg < endLineNumberExclusive rg"
    using assms(2,3) by (simp add: line_wf_def LineRange_isEmpty_def)
  from subtractFrom_correct [OF assms(1) this] show ?thesis
    by (metis Diff_iff LineRange_contains_iff assms(1) contains_points)
qed

lemma LineRangeSet_subtractFrom_set_witness:
  "LineRangeSet_subtractFrom example_lines (mk_line 2 12) =
     Inr \<lparr>normalizedRanges = [mk_line 3 5, mk_line 8 10, mk_line 11 12]\<rparr> \<and>
   \<not> LineRangeSet_contains \<lparr>normalizedRanges = [mk_line 3 5, mk_line 8 10, mk_line 11 12]\<rparr> 6"
proof -
  have "LineRangeSet_subtractFrom example_lines (mk_line 2 12) =
      Inr \<lparr>normalizedRanges = [mk_line 3 5, mk_line 8 10, mk_line 11 12]\<rparr>"
    "LineRangeSet_contains example_lines 6" by code_simp+
  with LineRangeSet_subtractFrom_set [OF example_lines_wf(1), of "mk_line 2 12"] show ?thesis
    by (auto simp: LineRange_isEmpty_def)
qed

text \<open>C36: The two-pointer loop of \<open>LineRangeSet.getIntersection\<close> never throws on two sets with the
  invariant, and its result has the invariant and contains exactly the lines of both.\<close>

lemma LineRangeSet_getIntersection_set:
  assumes "line_set_wf st" and "line_set_wf other"
  shows "\<exists>st'. LineRangeSet_getIntersection st other = Inr st' \<and> line_set_wf st' \<and>
    (\<forall>n. LineRangeSet_contains st' n \<longleftrightarrow> LineRangeSet_contains st n \<and> LineRangeSet_contains other n)"
  using assms getIntersection_correct [OF assms] by (metis Int_iff contains_points)

lemma LineRangeSet_getIntersection_set_witness:
  "LineRangeSet_getIntersection example_lines other_lines = Inr \<lparr>normalizedRanges = [mk_line 2 3, mk_line 5 6]\<rparr> \<and>
   LineRangeSet_contains \<lparr>normalizedRanges = [mk_line 2 3, mk_line 5 6]\<rparr> 5"
proof -
  have "LineRangeSet_getIntersection example_lines other_lines = Inr \<lparr>normalizedRanges = [mk_line 2 3, mk_line 5 6]\<rparr>"
    "LineRangeSet_contains example_lines 5" "LineRangeSet_contains other_lines 5" by code_simp+
  with LineRangeSet_getIntersection_set [OF example_lines_wf] show ?thesis by auto
qed

end
