(* ===== verification/Edits.thy ===== *)
theory Edits
  imports Offset_Ranges
begin

text \<open>
  \<open>src/vs/editor/common/core/edits/edit.ts\<close>: sorted lists of replacements applied at once, generic in
  the kind of replacement.  The abstract class \<open>BaseReplacement\<close> is the record \<open>replacement_class\<close> of
  its methods, an argument of the generic operations; each concrete kind of replacement supplies such
  a record.  The laws of such records and the correctness of the operations are in \<open>Edit_Laws\<close>.
\<close>

section \<open>The operations\<close>

text \<open>
  The methods of a kind of replacement.  \<open>slice\<close> has an optional second argument; \<open>BaseEdit\<close> always
  passes it.
\<close>

record 't replacement_class =
  replaceRange :: "'t \<Rightarrow> OffsetRange"
  getNewLength :: "'t \<Rightarrow> int"
  tryJoinTouching :: "'t \<Rightarrow> 't \<Rightarrow> 't option result"
  sliceReplacement :: "'t \<Rightarrow> OffsetRange \<Rightarrow> OffsetRange \<Rightarrow> 't"
  equalsReplacement :: "'t \<Rightarrow> 't \<Rightarrow> bool"

definition BaseReplacement_delta :: "'t replacement_class \<Rightarrow> 't \<Rightarrow> int \<Rightarrow> 't result" where
  "BaseReplacement_delta C r offset =
     rbind (OffsetRange_delta (replaceRange C r) offset) (\<lambda>rg.
     rbind (OffsetRange_new 0 (getNewLength C r)) (\<lambda>w.
     Inr (sliceReplacement C r rg w)))"

definition BaseReplacement_getLengthDelta :: "'t replacement_class \<Rightarrow> 't \<Rightarrow> int" where
  "BaseReplacement_getLengthDelta C r = getNewLength C r - OffsetRange_length (replaceRange C r)"

definition BaseReplacement_isEmpty :: "'t replacement_class \<Rightarrow> 't \<Rightarrow> bool" where
  "BaseReplacement_isEmpty C r \<longleftrightarrow> getNewLength C r = 0 \<and> OffsetRange_length (replaceRange C r) = 0"

definition BaseReplacement_getRangeAfterReplace :: "'t replacement_class \<Rightarrow> 't \<Rightarrow> OffsetRange result" where
  "BaseReplacement_getRangeAfterReplace C r =
     OffsetRange_new (start (replaceRange C r)) (start (replaceRange C r) + getNewLength C r)"

record 't BaseEdit =
  replacements :: "'t list"

text \<open>The constructor throws unless the replacements are disjoint and sorted; \<open>lastEndEx\<close> starts at -1.\<close>

fun BaseEdit_check :: "'t replacement_class \<Rightarrow> int \<Rightarrow> 't list \<Rightarrow> bool" where
  "BaseEdit_check C lastEndEx [] = True"
| "BaseEdit_check C lastEndEx (r # rs) =
     (start (replaceRange C r) \<ge> lastEndEx \<and> BaseEdit_check C (endExclusive (replaceRange C r)) rs)"

definition BaseEdit_new :: "'t replacement_class \<Rightarrow> 't list \<Rightarrow> 't BaseEdit result" where
  "BaseEdit_new C rs =
     (if BaseEdit_check C (- 1) rs then Inr \<lparr>replacements = rs\<rparr> else Inl BugIndicatingError)"

definition BaseEdit_equals :: "'t replacement_class \<Rightarrow> 't BaseEdit \<Rightarrow> 't BaseEdit \<Rightarrow> bool" where
  "BaseEdit_equals C a b \<longleftrightarrow>
     length (replacements a) = length (replacements b) \<and>
     list_all2 (equalsReplacement C) (replacements a) (replacements b)"

definition BaseEdit_isEmpty :: "'t BaseEdit \<Rightarrow> bool" where
  "BaseEdit_isEmpty ed \<longleftrightarrow> length (replacements ed) = 0"

text \<open>The loop of \<open>normalize\<close> with \<open>lastReplacement\<close> and \<open>newReplacements\<close>.\<close>

fun normalize_loop ::
    "'t replacement_class \<Rightarrow> 't list \<Rightarrow> 't option \<Rightarrow> 't list \<Rightarrow> 't list result" where
  "normalize_loop C [] lastReplacement news =
     Inr (case lastReplacement of None \<Rightarrow> news | Some l \<Rightarrow> news @ [l])"
| "normalize_loop C (r # rs) lastReplacement news =
     (if getNewLength C r = 0 \<and> OffsetRange_length (replaceRange C r) = 0
      then normalize_loop C rs lastReplacement news
      else
        case lastReplacement of
          None \<Rightarrow> normalize_loop C rs (Some r) news
        | Some l \<Rightarrow>
            if endExclusive (replaceRange C l) = start (replaceRange C r)
            then rbind (tryJoinTouching C l r) (\<lambda>joined.
                   case joined of
                     Some j \<Rightarrow> normalize_loop C rs (Some j) news
                   | None \<Rightarrow> normalize_loop C rs (Some r) (news @ [l]))
            else normalize_loop C rs (Some r) (news @ [l]))"

definition BaseEdit_normalize :: "'t replacement_class \<Rightarrow> 't BaseEdit \<Rightarrow> 't BaseEdit result" where
  "BaseEdit_normalize C ed =
     rbind (normalize_loop C (replacements ed) None []) (BaseEdit_new C)"

text \<open>
  The two inner loops of \<open>compose\<close>: copying the replacements of the first edit that end before the
  next one of the second edit starts, then collecting those that intersect or touch it.
\<close>

fun compose_copy ::
    "'t replacement_class \<Rightarrow> 't \<Rightarrow> 't list \<Rightarrow> int \<Rightarrow> 't list \<Rightarrow> 't list \<times> int \<times> 't list" where
  "compose_copy C r2 [] d res = ([], d, res)"
| "compose_copy C r2 (r1 # q) d res =
     (if start (replaceRange C r1) + d + getNewLength C r1 \<ge> start (replaceRange C r2)
      then (r1 # q, d, res)
      else compose_copy C r2 q (d + (getNewLength C r1 - OffsetRange_length (replaceRange C r1))) (res @ [r1]))"

fun compose_collect ::
    "'t replacement_class \<Rightarrow> 't \<Rightarrow> 't list \<Rightarrow> int \<Rightarrow> 't option \<Rightarrow> 't option \<Rightarrow>
       't list \<times> int \<times> 't option \<times> 't option" where
  "compose_collect C r2 [] d firstI lastI = ([], d, firstI, lastI)"
| "compose_collect C r2 (r1 # q) d firstI lastI =
     (if start (replaceRange C r1) + d > endExclusive (replaceRange C r2)
      then (r1 # q, d, firstI, lastI)
      else compose_collect C r2 q (d + (getNewLength C r1 - OffsetRange_length (replaceRange C r1)))
             (case firstI of None \<Rightarrow> Some r1 | Some f \<Rightarrow> Some f) (Some r1))"

text \<open>The pieces of the intersecting replacements before and after \<open>r2\<close>, and \<open>r2\<close> between them.\<close>

definition compose_prefix ::
    "'t replacement_class \<Rightarrow> 't \<Rightarrow> 't \<Rightarrow> int \<Rightarrow> int \<Rightarrow> 't list result" where
  "compose_prefix C r2 f firstD newStart =
     (let prefixLength = start (replaceRange C r2) - (start (replaceRange C f) + firstD)
      in if prefixLength > 0
         then rbind (OffsetRange_emptyAt newStart) (\<lambda>pos.
              rbind (OffsetRange_new 0 prefixLength) (\<lambda>w.
              Inr [sliceReplacement C f pos w]))
         else Inr [])"

definition compose_suffix ::
    "'t replacement_class \<Rightarrow> 't \<Rightarrow> 't \<Rightarrow> 't list \<Rightarrow> int \<Rightarrow> ('t list \<times> int) result" where
  "compose_suffix C r2 l q d =
     (let suffixLength = (endExclusive (replaceRange C l) + d) - endExclusive (replaceRange C r2)
      in if suffixLength > 0
         then rbind (OffsetRange_ofStartAndLength (endExclusive (replaceRange C l)) 0) (\<lambda>pos.
              rbind (OffsetRange_new (getNewLength C l - suffixLength) (getNewLength C l)) (\<lambda>w.
              let e = sliceReplacement C l pos w
              in Inr (e # q, d - (getNewLength C e - OffsetRange_length (replaceRange C e)))))
         else Inr (q, d))"

text \<open>
  The body of the loop over the second edit: the queue, \<open>edit1ToEdit2\<close> and the result so far.
  \<open>compose_merge\<close> is the part after the copying loop.
\<close>

definition compose_merge ::
    "'t replacement_class \<Rightarrow> 't \<Rightarrow> 't list \<Rightarrow> int \<Rightarrow> 't list \<Rightarrow> ('t list \<times> int \<times> 't list) result" where
  "compose_merge C r2 q1 d1 res =
     (let (q2, d2, firstI, lastI) = compose_collect C r2 q1 d1 None None
      in case firstI of
           None \<Rightarrow> rbind (BaseReplacement_delta C r2 (- d2)) (\<lambda>r. Inr (q2, d2, res @ [r]))
         | Some f \<Rightarrow>
             (let newStart = min (start (replaceRange C f)) (start (replaceRange C r2) - d1)
              in rbind (compose_prefix C r2 f d1 newStart) (\<lambda>prefix.
                 case lastI of
                   None \<Rightarrow> Inl BugIndicatingError
                 | Some l \<Rightarrow>
                     rbind (compose_suffix C r2 l q2 d2) (\<lambda>(q3, d3).
                     rbind (OffsetRange_new newStart (endExclusive (replaceRange C r2) - d3)) (\<lambda>rg.
                     rbind (OffsetRange_new 0 (getNewLength C r2)) (\<lambda>w.
                     Inr (q3, d3, res @ prefix @ [sliceReplacement C r2 rg w])))))))"

definition compose_step ::
    "'t replacement_class \<Rightarrow> 't \<Rightarrow> 't list \<times> int \<times> 't list \<Rightarrow> ('t list \<times> int \<times> 't list) result" where
  "compose_step C r2 st =
     (let (q, d, res) = st; (q1, d1, res1) = compose_copy C r2 q d res
      in compose_merge C r2 q1 d1 res1)"

fun compose_loop ::
    "'t replacement_class \<Rightarrow> 't list \<Rightarrow> 't list \<times> int \<times> 't list \<Rightarrow> 't list result" where
  "compose_loop C [] st = (case st of (q, d, res) \<Rightarrow> Inr (res @ q))"
| "compose_loop C (r2 # rs) st = rbind (compose_step C r2 st) (compose_loop C rs)"

definition BaseEdit_compose ::
    "'t replacement_class \<Rightarrow> 't BaseEdit \<Rightarrow> 't BaseEdit \<Rightarrow> 't BaseEdit result" where
  "BaseEdit_compose C this other =
     rbind (BaseEdit_normalize C this) (\<lambda>edits1.
     rbind (BaseEdit_normalize C other) (\<lambda>edits2.
     if BaseEdit_isEmpty edits1 then Inr edits2
     else if BaseEdit_isEmpty edits2 then Inr edits1
     else rbind (compose_loop C (replacements edits2) (replacements edits1, 0, [])) (\<lambda>res.
          rbind (BaseEdit_new C res) (BaseEdit_normalize C))))"

fun decomposeSplit_loop ::
    "'t replacement_class \<Rightarrow> ('t \<Rightarrow> bool) \<Rightarrow> 't list \<Rightarrow> int \<Rightarrow> 't list \<Rightarrow> 't list \<Rightarrow>
       ('t list \<times> 't list) result" where
  "decomposeSplit_loop C p [] e2delta e1 e2 = Inr (e1, e2)"
| "decomposeSplit_loop C p (r # rs) e2delta e1 e2 =
     (if p r
      then decomposeSplit_loop C p rs
             (e2delta + (getNewLength C r - OffsetRange_length (replaceRange C r))) (e1 @ [r]) e2
      else rbind (OffsetRange_delta (replaceRange C r) e2delta) (\<lambda>rg.
           rbind (OffsetRange_new 0 (getNewLength C r)) (\<lambda>w.
           decomposeSplit_loop C p rs e2delta e1 (e2 @ [sliceReplacement C r rg w]))))"

definition BaseEdit_decomposeSplit ::
    "'t replacement_class \<Rightarrow> 't BaseEdit \<Rightarrow> ('t \<Rightarrow> bool) \<Rightarrow> ('t BaseEdit \<times> 't BaseEdit) result" where
  "BaseEdit_decomposeSplit C ed shouldBeInE1 =
     rbind (decomposeSplit_loop C shouldBeInE1 (replacements ed) 0 [] []) (\<lambda>(e1, e2).
     rbind (BaseEdit_new C e1) (\<lambda>x. rbind (BaseEdit_new C e2) (\<lambda>y. Inr (x, y))))"

fun getNewRanges_loop :: "'t replacement_class \<Rightarrow> 't list \<Rightarrow> int \<Rightarrow> OffsetRange list result" where
  "getNewRanges_loop C [] offset = Inr []"
| "getNewRanges_loop C (r # rs) offset =
     rbind (OffsetRange_ofStartAndLength (start (replaceRange C r) + offset) (getNewLength C r)) (\<lambda>rg.
     rbind (getNewRanges_loop C rs (offset + BaseReplacement_getLengthDelta C r)) (\<lambda>rgs.
     Inr (rg # rgs)))"

definition BaseEdit_getNewRanges :: "'t replacement_class \<Rightarrow> 't BaseEdit \<Rightarrow> OffsetRange list result" where
  "BaseEdit_getNewRanges C ed = getNewRanges_loop C (replacements ed) 0"

definition BaseEdit_getJoinedReplaceRange ::
    "'t replacement_class \<Rightarrow> 't BaseEdit \<Rightarrow> OffsetRange option result" where
  "BaseEdit_getJoinedReplaceRange C ed =
     (if replacements ed = [] then Inr None
      else rbind (OffsetRange_join (replaceRange C (hd (replacements ed))) (replaceRange C (last (replacements ed))))
             (\<lambda>r. Inr (Some r)))"

definition BaseEdit_getLengthDelta :: "'t replacement_class \<Rightarrow> 't BaseEdit \<Rightarrow> int" where
  "BaseEdit_getLengthDelta C ed =
     foldl (\<lambda>sum r. sum + BaseReplacement_getLengthDelta C r) 0 (replacements ed)"

definition BaseEdit_getNewDataLength :: "'t replacement_class \<Rightarrow> 't BaseEdit \<Rightarrow> int \<Rightarrow> int" where
  "BaseEdit_getNewDataLength C ed dataLength = dataLength + BaseEdit_getLengthDelta C ed"

fun applyToOffset_loop :: "'t replacement_class \<Rightarrow> 't list \<Rightarrow> int \<Rightarrow> int \<Rightarrow> int" where
  "applyToOffset_loop C [] originalOffset acc = originalOffset + acc"
| "applyToOffset_loop C (r # rs) originalOffset acc =
     (if start (replaceRange C r) \<le> originalOffset
      then if originalOffset < endExclusive (replaceRange C r)
           then start (replaceRange C r) + acc
           else applyToOffset_loop C rs originalOffset
                  (acc + (getNewLength C r - OffsetRange_length (replaceRange C r)))
      else originalOffset + acc)"

definition BaseEdit_applyToOffset :: "'t replacement_class \<Rightarrow> 't BaseEdit \<Rightarrow> int \<Rightarrow> int" where
  "BaseEdit_applyToOffset C ed originalOffset = applyToOffset_loop C (replacements ed) originalOffset 0"

definition BaseEdit_applyToOffsetRange ::
    "'t replacement_class \<Rightarrow> 't BaseEdit \<Rightarrow> OffsetRange \<Rightarrow> OffsetRange result" where
  "BaseEdit_applyToOffsetRange C ed rg =
     OffsetRange_new (BaseEdit_applyToOffset C ed (start rg)) (BaseEdit_applyToOffset C ed (endExclusive rg))"

fun applyInverseToOffset_loop :: "'t replacement_class \<Rightarrow> 't list \<Rightarrow> int \<Rightarrow> int \<Rightarrow> int" where
  "applyInverseToOffset_loop C [] postEditsOffset acc = postEditsOffset - acc"
| "applyInverseToOffset_loop C (r # rs) postEditsOffset acc =
     (let editLength = getNewLength C r
      in if start (replaceRange C r) \<le> postEditsOffset - acc
         then if postEditsOffset - acc < start (replaceRange C r) + editLength
              then start (replaceRange C r)
              else applyInverseToOffset_loop C rs postEditsOffset
                     (acc + (editLength - OffsetRange_length (replaceRange C r)))
         else postEditsOffset - acc)"

definition BaseEdit_applyInverseToOffset :: "'t replacement_class \<Rightarrow> 't BaseEdit \<Rightarrow> int \<Rightarrow> int" where
  "BaseEdit_applyInverseToOffset C ed postEditsOffset =
     applyInverseToOffset_loop C (replacements ed) postEditsOffset 0"

fun applyToOffsetOrUndefined_loop :: "'t replacement_class \<Rightarrow> 't list \<Rightarrow> int \<Rightarrow> int \<Rightarrow> int option" where
  "applyToOffsetOrUndefined_loop C [] originalOffset acc = Some (originalOffset + acc)"
| "applyToOffsetOrUndefined_loop C (r # rs) originalOffset acc =
     (if start (replaceRange C r) \<le> originalOffset
      then if originalOffset < endExclusive (replaceRange C r)
           then None
           else applyToOffsetOrUndefined_loop C rs originalOffset
                  (acc + (getNewLength C r - OffsetRange_length (replaceRange C r)))
      else Some (originalOffset + acc))"

definition BaseEdit_applyToOffsetOrUndefined ::
    "'t replacement_class \<Rightarrow> 't BaseEdit \<Rightarrow> int \<Rightarrow> int option" where
  "BaseEdit_applyToOffsetOrUndefined C ed originalOffset =
     applyToOffsetOrUndefined_loop C (replacements ed) originalOffset 0"

definition BaseEdit_applyToOffsetRangeOrUndefined ::
    "'t replacement_class \<Rightarrow> 't BaseEdit \<Rightarrow> OffsetRange \<Rightarrow> OffsetRange option result" where
  "BaseEdit_applyToOffsetRangeOrUndefined C ed rg =
     (case BaseEdit_applyToOffsetOrUndefined C ed (start rg) of
        None \<Rightarrow> Inr None
      | Some s \<Rightarrow>
          (case BaseEdit_applyToOffsetOrUndefined C ed (endExclusive rg) of
             None \<Rightarrow> Inr None
           | Some e \<Rightarrow> rbind (OffsetRange_new s e) (\<lambda>r. Inr (Some r))))"

text \<open>\<open>AnnotationReplacement\<close>.\<close>

record 'a AnnotationReplacement =
  ar_range :: OffsetRange
  newLength :: int
  annotation :: 'a

definition AnnotationReplacement_equals :: "'a AnnotationReplacement \<Rightarrow> 'a AnnotationReplacement \<Rightarrow> bool" where
  "AnnotationReplacement_equals r other \<longleftrightarrow>
     OffsetRange_equals (ar_range r) (ar_range other) \<and> newLength r = newLength other \<and>
     annotation r = annotation other"

definition AnnotationReplacement_tryJoinTouching ::
    "'a AnnotationReplacement \<Rightarrow> 'a AnnotationReplacement \<Rightarrow> 'a AnnotationReplacement option result" where
  "AnnotationReplacement_tryJoinTouching r other =
     (if annotation r \<noteq> annotation other then Inr None
      else rbind (OffsetRange_joinRightTouching (ar_range r) (ar_range other)) (\<lambda>rg.
           Inr (Some \<lparr>ar_range = rg, newLength = newLength r + newLength other, annotation = annotation r\<rparr>)))"

definition AnnotationReplacement_slice ::
    "'a AnnotationReplacement \<Rightarrow> OffsetRange \<Rightarrow> OffsetRange option \<Rightarrow> 'a AnnotationReplacement" where
  "AnnotationReplacement_slice r rg w =
     \<lparr>ar_range = rg,
      newLength = (case w of Some x \<Rightarrow> OffsetRange_length x | None \<Rightarrow> newLength r),
      annotation = annotation r\<rparr>"

definition AnnotationReplacement_class :: "'a AnnotationReplacement replacement_class" where
  "AnnotationReplacement_class =
     \<lparr>replaceRange = ar_range, getNewLength = newLength,
      tryJoinTouching = AnnotationReplacement_tryJoinTouching,
      sliceReplacement = (\<lambda>r rg w. AnnotationReplacement_slice r rg (Some w)), equalsReplacement = AnnotationReplacement_equals\<rparr>"

end
