(* ===== verification/Edit_Laws.thy ===== *)
theory Edit_Laws
  imports Edits
begin

text \<open>
  What the generic code of \<open>edit.ts\<close> relies on and what it guarantees.  The locale \<open>replacement\<close> is
  the interface between \<open>BaseEdit\<close> and the kinds of replacement: a replacement stands for a content,
  \<open>getNewLength\<close> is its length, \<open>slice\<close> a segment of it and \<open>tryJoinTouching\<close> a concatenation.
  In it the effect of a list of replacements on a text is \<open>appl\<close>, and \<open>normalize\<close>, \<open>compose\<close> and
  \<open>decomposeSplit\<close> are proved to preserve, chain and split effects without throwing.
\<close>

section \<open>The effect of replacements\<close>

text \<open>
  \<open>appl\<close> works relative to the position \<open>p\<close> of the first element of the text it is given; \<open>fits\<close>
  says that the replacements are ordered, disjoint and lie between \<open>p\<close> and \<open>n\<close>.
\<close>

fun appl :: "('t \<Rightarrow> OffsetRange) \<Rightarrow> ('t \<Rightarrow> 'c list) \<Rightarrow> int \<Rightarrow> 't list \<Rightarrow> 'c list \<Rightarrow> 'c list" where
  "appl rg content p [] xs = xs"
| "appl rg content p (r # rs) xs =
     take (nat (start (rg r) - p)) xs @ content r @
     appl rg content (endExclusive (rg r)) rs (drop (nat (endExclusive (rg r) - p)) xs)"

fun fits :: "('t \<Rightarrow> OffsetRange) \<Rightarrow> int \<Rightarrow> int \<Rightarrow> 't list \<Rightarrow> bool" where
  "fits rg p n [] \<longleftrightarrow> p \<le> n"
| "fits rg p n (r # rs) \<longleftrightarrow>
     p \<le> start (rg r) \<and> start (rg r) \<le> endExclusive (rg r) \<and> fits rg (endExclusive (rg r)) n rs"

lemma fits_le: "fits rg p n rs \<Longrightarrow> p \<le> n"
  by (induction rs arbitrary: p) force+

lemma fits_mono: "fits rg p n rs \<Longrightarrow> q \<le> p \<Longrightarrow> fits rg q n rs"
  by (cases rs) auto

lemma fits_append:
  "fits rg p n (xs @ ys) \<longleftrightarrow> (\<exists>m. fits rg p m xs \<and> fits rg m n ys)"
proof (induction xs arbitrary: p)
  case Nil
  then show ?case by (auto intro: fits_mono)
qed auto

lemma fits_snoc:
  "fits rg p n (xs @ [r]) \<longleftrightarrow>
     fits rg p (start (rg r)) xs \<and> start (rg r) \<le> endExclusive (rg r) \<and> endExclusive (rg r) \<le> n"
  by (induction xs arbitrary: p) auto

lemma fits_check: "fits (replaceRange C) p n rs \<Longrightarrow> q \<le> p \<Longrightarrow> BaseEdit_check C q rs"
  by (induction rs arbitrary: p q) auto

lemma appl_map: "appl rg content p (List.map f rs) xs = appl (\<lambda>r. rg (f r)) (\<lambda>r. content (f r)) p rs xs"
  by (induction rs arbitrary: p xs) auto

lemma fits_through: "fits rg p n (List.map f rs) = fits (\<lambda>r. rg (f r)) p n rs"
  by (induction rs arbitrary: p) auto

text \<open>Segments of a text at absolute positions.\<close>

lemma segment_shift:
  fixes p m k :: int
  assumes "p \<le> m" and "m \<le> k"
  shows "drop (nat (m - p)) (take (nat (k - p)) xs) = take (nat (k - m)) (drop (nat (m - p)) xs)"
    and "take (nat (m - p)) (take (nat (k - p)) xs) = take (nat (m - p)) xs"
proof -
  have "nat (k - p) = nat (m - p) + nat (k - m)" using assms by simp
  then show "drop (nat (m - p)) (take (nat (k - p)) xs) = take (nat (k - m)) (drop (nat (m - p)) xs)"
    and "take (nat (m - p)) (take (nat (k - p)) xs) = take (nat (m - p)) xs"
    by (simp_all add: drop_take)
qed

lemma nat_shift: "b = a + int k \<Longrightarrow> b \<le> g \<Longrightarrow> nat (g - a) = k + nat (g - b)"
  by simp

text \<open>The part of the text before the first replacement is copied.\<close>

lemma appl_skip:
  assumes "fits rg (p + int (length a)) n rs"
  shows "appl rg content p rs (a @ xs) = a @ appl rg content (p + int (length a)) rs xs"
proof (cases rs)
  case (Cons r rs')
  define k where "k = nat (start (rg r) - (p + int (length a)))"
  define m where "m = nat (endExclusive (rg r) - (p + int (length a)))"
  have "nat (start (rg r) - p) = length a + k" "nat (endExclusive (rg r) - p) = length a + m"
    using assms Cons by (auto simp: k_def m_def)
  then show ?thesis using Cons by (simp add: k_def m_def)
qed simp

lemma appl_split:
  assumes "fits rg q n rs" and "p \<le> q" and "q - p \<le> int (length xs)"
  shows "appl rg content p rs xs =
    take (nat (q - p)) xs @ appl rg content q rs (drop (nat (q - p)) xs)"
proof -
  have "int (length (take (nat (q - p)) xs)) = q - p" using assms(2,3) by simp
  with appl_skip [of rg p "take (nat (q - p)) xs" n rs content "drop (nat (q - p)) xs"] assms(1)
  show ?thesis by simp
qed

lemma appl_append:
  assumes "fits rg p m xs" and "fits rg m n ys" and "n \<le> p + int (length z)"
  shows "appl rg content p (xs @ ys) z =
    appl rg content p xs (take (nat (m - p)) z) @ appl rg content m ys (drop (nat (m - p)) z)"
  using assms
proof (induction xs arbitrary: p z)
  case Nil
  then show ?case using appl_split [of rg m n ys p z content] fits_le [of rg m n ys] by simp
next
  case (Cons r xs)
  have r: "p \<le> start (rg r)" "start (rg r) \<le> endExclusive (rg r)" "fits rg (endExclusive (rg r)) m xs"
    using Cons.prems(1) by auto
  then have em: "endExclusive (rg r) \<le> m" using fits_le by blast
  have "n \<le> endExclusive (rg r) + int (length (drop (nat (endExclusive (rg r) - p)) z))"
    using Cons.prems(3) r em by simp
  note IH = Cons.IH [OF r(3) Cons.prems(2) this]
  have s1: "take (nat (start (rg r) - p)) (take (nat (m - p)) z) = take (nat (start (rg r) - p)) z"
    using r em by (simp add: min_def nat_le_iff)
  have s2: "drop (nat (endExclusive (rg r) - p)) (take (nat (m - p)) z) =
      take (nat (m - endExclusive (rg r))) (drop (nat (endExclusive (rg r) - p)) z)"
    using r em by (simp add: drop_take flip: nat_diff_distrib')
  have s3: "drop (nat (m - endExclusive (rg r))) (drop (nat (endExclusive (rg r) - p)) z) = drop (nat (m - p)) z"
    using r em by (simp add: add.commute nat_add_distrib [symmetric])
  show ?case
    unfolding append_Cons appl.simps IH s1 s2 s3 append_assoc ..
qed

text \<open>The change of length.\<close>

definition delta_sum :: "('t \<Rightarrow> OffsetRange) \<Rightarrow> ('t \<Rightarrow> 'c list) \<Rightarrow> 't list \<Rightarrow> int" where
  "delta_sum rg content rs =
     sum_list (List.map (\<lambda>r. int (length (content r)) - (endExclusive (rg r) - start (rg r))) rs)"

lemma delta_sum_simps [simp]:
  "delta_sum rg content [] = 0"
  "delta_sum rg content (r # rs) =
     int (length (content r)) - (endExclusive (rg r) - start (rg r)) + delta_sum rg content rs"
  "delta_sum rg content (rs @ ss) = delta_sum rg content rs + delta_sum rg content ss"
  by (simp_all add: delta_sum_def)

lemma length_appl:
  "fits rg p n rs \<Longrightarrow> n \<le> p + int (length xs) \<Longrightarrow>
     int (length (appl rg content p rs xs)) = int (length xs) + delta_sum rg content rs"
proof (induction rs arbitrary: p xs)
  case (Cons r rs)
  then have r: "p \<le> start (rg r)" "start (rg r) \<le> endExclusive (rg r)" "fits rg (endExclusive (rg r)) n rs" by auto
  moreover from this(3) have "endExclusive (rg r) \<le> n" by (rule fits_le)
  ultimately show ?case
    using Cons.prems(2) Cons.IH [OF r(3), of "drop (nat (endExclusive (rg r) - p)) xs"] by simp
qed simp

text \<open>
  A non-empty run of replacements turns the text into the text before it, a middle part that starts
  with the content of the first and ends with that of the last, and the text after it.
\<close>

lemma appl_run:
  assumes "fits rg p n (f # rs @ q)" and "n \<le> p + int (length xs)"
  defines "l \<equiv> last (f # rs)"
  shows "\<exists>mid. appl rg content p (f # rs @ q) xs =
      take (nat (start (rg f) - p)) xs @ mid @
      appl rg content (endExclusive (rg l)) q (drop (nat (endExclusive (rg l) - p)) xs) \<and>
    (\<exists>m1. mid = content f @ m1) \<and> (\<exists>m2. mid = m2 @ content l) \<and>
    int (length mid) = (endExclusive (rg l) - start (rg f)) + delta_sum rg content (f # rs) \<and>
    fits rg (endExclusive (rg l)) n q \<and> start (rg f) \<le> endExclusive (rg l) \<and> p \<le> start (rg f)"
  using assms(1,2) unfolding l_def
proof (induction rs arbitrary: p f xs)
  case Nil
  then show ?case by auto
next
  case (Cons g rs)
  let ?ys = "drop (nat (endExclusive (rg f) - p)) xs" and ?l = "last (g # rs)"
  have f: "p \<le> start (rg f)" "start (rg f) \<le> endExclusive (rg f)"
    and gq: "fits rg (endExclusive (rg f)) n (g # rs @ q)" using Cons.prems(1) by auto
  from fits_le [OF gq] have n: "endExclusive (rg f) \<le> n" .
  then have "n \<le> endExclusive (rg f) + int (length ?ys)" using Cons.prems(2) f by simp
  from Cons.IH [OF gq this] obtain mid where mid:
    "appl rg content (endExclusive (rg f)) (g # rs @ q) ?ys =
      take (nat (start (rg g) - endExclusive (rg f))) ?ys @ mid @
      appl rg content (endExclusive (rg ?l)) q (drop (nat (endExclusive (rg ?l) - endExclusive (rg f))) ?ys)"
    "\<exists>m2. mid = m2 @ content ?l"
    "int (length mid) = (endExclusive (rg ?l) - start (rg g)) + delta_sum rg content (g # rs)"
    "fits rg (endExclusive (rg ?l)) n q" "start (rg g) \<le> endExclusive (rg ?l)" "endExclusive (rg f) \<le> start (rg g)"
    by blast
  have ln: "endExclusive (rg ?l) \<le> n" using fits_le [OF mid(4)] .
  have s3: "drop (nat (endExclusive (rg ?l) - endExclusive (rg f))) ?ys = drop (nat (endExclusive (rg ?l) - p)) xs"
    using f mid(5,6) by (simp add: add.commute nat_add_distrib [symmetric])
  let ?mid = "content f @ take (nat (start (rg g) - endExclusive (rg f))) ?ys @ mid"
  have "appl rg content p (f # (g # rs) @ q) xs = take (nat (start (rg f) - p)) xs @ ?mid @
      appl rg content (endExclusive (rg ?l)) q (drop (nat (endExclusive (rg ?l) - p)) xs)"
    by (simp only: append_Cons appl.simps(2) [of rg content p f "g # rs @ q"] mid(1) s3 append_assoc)
  moreover have "int (length (take (nat (start (rg g) - endExclusive (rg f))) ?ys)) = start (rg g) - endExclusive (rg f)"
    using f mid(5,6) ln Cons.prems(2) by simp
  then have "int (length ?mid) = (endExclusive (rg ?l) - start (rg f)) + delta_sum rg content (f # g # rs)"
    using mid(3) by simp
  moreover have "\<exists>m2. ?mid = m2 @ content ?l" using mid(2) by (metis append_assoc)
  moreover have "start (rg f) \<le> endExclusive (rg ?l)" using f mid(5,6) by simp
  ultimately show ?case using mid(4) f(1) by (intro exI [of _ ?mid]) auto
qed

text \<open>
  A tagged sequence of replacements on one text: those tagged True, moved by the length changes of
  the others before them, form an edit of the text the others produce.
\<close>

fun rebased :: "'t replacement_class \<Rightarrow> (bool \<times> 't) list \<Rightarrow> int \<Rightarrow> 't list" where
  "rebased C [] d = []"
| "rebased C ((t, r) # m) d =
     (if t
      then sliceReplacement C r (mk_offset (start (replaceRange C r) + d) (endExclusive (replaceRange C r) + d))
             (mk_offset 0 (getNewLength C r)) # rebased C m d
      else rebased C m (d + (getNewLength C r - OffsetRange_length (replaceRange C r))))"

definition tagged :: "bool \<Rightarrow> (bool \<times> 't) list \<Rightarrow> 't list" where
  "tagged t m = List.map snd (filter (\<lambda>x. fst x = t) m)"

lemma tagged_simps [simp]:
  "tagged t [] = []" "tagged t ((u, r) # m) = (if u = t then r # tagged t m else tagged t m)"
  by (simp_all add: tagged_def)

section \<open>Inverting the effect\<close>

text \<open>The ranges of the new contents with the contents they replaced; \<open>d\<close> is the growth so far.\<close>

fun inverses :: "('t \<Rightarrow> OffsetRange) \<Rightarrow> ('t \<Rightarrow> 'c list) \<Rightarrow> 'c list \<Rightarrow> 't list \<Rightarrow> int \<Rightarrow> (OffsetRange \<times> 'c list) list" where
  "inverses rg content base [] d = []"
| "inverses rg content base (r # rs) d =
     (mk_offset (start (rg r) + d) (start (rg r) + d + int (length (content r))),
      take (nat (endExclusive (rg r) - start (rg r))) (drop (nat (start (rg r))) base)) #
     inverses rg content base rs (d + (int (length (content r)) - (endExclusive (rg r) - start (rg r))))"

lemma inverses_effect:
  assumes "fits rg p (int (length base)) rs" and "0 \<le> p"
  shows "fits fst (p + d) (p + d + int (length (appl rg content p rs (drop (nat p) base)))) (inverses rg content base rs d) \<and>
    appl fst snd (p + d) (inverses rg content base rs d) (appl rg content p rs (drop (nat p) base)) = drop (nat p) base"
  using assms
proof (induction rs arbitrary: p d)
  case (Cons r rs)
  let ?s = "start (rg r)" and ?e = "endExclusive (rg r)"
  let ?t = "appl rg content ?e rs (drop (nat ?e) base)"
  let ?a = "take (nat (?s - p)) (drop (nat p) base)"
  let ?old = "take (nat (?e - ?s)) (drop (nat ?s) base)"
  define d' where "d' = d + (int (length (content r)) - (?e - ?s))"
  have r: "p \<le> ?s" "?s \<le> ?e" "fits rg ?e (int (length base)) rs" "0 \<le> ?e" using Cons.prems by auto
  have en: "?e \<le> int (length base)" using fits_le [OF r(3)] .
  have IH: "fits fst (?e + d') (?e + d' + int (length ?t)) (inverses rg content base rs d')"
    "appl fst snd (?e + d') (inverses rg content base rs d') ?t = drop (nat ?e) base"
    using Cons.IH [OF r(3,4), of d'] by auto
  have whole: "appl rg content p (r # rs) (drop (nat p) base) = ?a @ content r @ ?t"
    using r Cons.prems(2) by (simp flip: nat_add_distrib)
  have e': "?e + d' = ?s + d + int (length (content r))" by (simp add: d'_def)
  have len: "int (length ?a) = ?s - p" using r en Cons.prems(2) by simp
  let ?r = "(mk_offset (?s + d) (?s + d + int (length (content r))), ?old)"
  have run: "inverses rg content base (r # rs) d = ?r # inverses rg content base rs d'" by (simp add: d'_def)
  have "appl fst snd (p + d) (?r # inverses rg content base rs d') (?a @ content r @ ?t) =
      ?a @ ?old @ appl fst snd (?e + d') (inverses rg content base rs d') ?t"
  proof -
    have "nat (?s + d - (p + d)) = length ?a" "nat (?s + d + int (length (content r)) - (p + d)) = length (?a @ content r)"
      using len r(1) by simp_all
    then show ?thesis
      by (simp only: appl.simps OffsetRange.simps e' prod.sel append_eq_conv_conj [THEN iffD1, OF refl]
          append_assoc [symmetric] take_append drop_append) simp
  qed
  also have "\<dots> = drop (nat p) base"
  proof -
    have "?old @ drop (nat ?e) base = drop (nat ?s) base" "?a @ drop (nat ?s) base = drop (nat p) base"
      using r en Cons.prems(2) by (simp_all add: nat_diff_distrib' take_drop_split nat_mono)
    then show ?thesis by (simp add: IH(2))
  qed
  finally have "appl fst snd (p + d) (?r # inverses rg content base rs d') (appl rg content p (r # rs) (drop (nat p) base)) = drop (nat p) base"
    unfolding whole .
  moreover have "fits fst (p + d) (p + d + int (length (?a @ content r @ ?t))) (?r # inverses rg content base rs d')"
  proof -
    have total: "p + d + int (length (?a @ content r @ ?t)) = ?e + d' + int (length ?t)" using len e' by simp
    have "?s + d \<le> ?e + d'" using e' by simp
    then show ?thesis unfolding total using IH(1) r by (simp flip: e')
  qed
  ultimately show ?case unfolding run whole by blast
qed simp

section \<open>The interface\<close>

locale replacement =
  fixes C :: "'t replacement_class"
    and content :: "'t \<Rightarrow> 'c list"
    and valid :: "'t \<Rightarrow> bool"
  assumes getNewLength_content: "valid r \<Longrightarrow> getNewLength C r = int (length (content r))"
    and slice_laws: "valid r \<Longrightarrow> 0 \<le> start w \<Longrightarrow> start w \<le> endExclusive w \<Longrightarrow>
          endExclusive w \<le> int (length (content r)) \<Longrightarrow>
        valid (sliceReplacement C r x w) \<and> replaceRange C (sliceReplacement C r x w) = x \<and>
        content (sliceReplacement C r x w) =
          take (nat (endExclusive w - start w)) (drop (nat (start w)) (content r))"
    and join_laws: "valid a \<Longrightarrow> valid b \<Longrightarrow> offset_wf (replaceRange C a) \<Longrightarrow> offset_wf (replaceRange C b) \<Longrightarrow>
        endExclusive (replaceRange C a) = start (replaceRange C b) \<Longrightarrow>
        \<exists>x. tryJoinTouching C a b = Inr x \<and>
          (case x of None \<Rightarrow> True
           | Some j \<Rightarrow> valid j \<and> replaceRange C j = mk_offset (start (replaceRange C a)) (endExclusive (replaceRange C b)) \<and>
               content j = content a @ content b)"
begin

abbreviation effect :: "int \<Rightarrow> 't list \<Rightarrow> 'c list \<Rightarrow> 'c list" where
  "effect \<equiv> appl (replaceRange C) content"

abbreviation rfits :: "int \<Rightarrow> int \<Rightarrow> 't list \<Rightarrow> bool" where
  "rfits \<equiv> fits (replaceRange C)"

lemma slice_whole:
  "valid r \<Longrightarrow> valid (sliceReplacement C r x (mk_offset 0 (getNewLength C r))) \<and>
     replaceRange C (sliceReplacement C r x (mk_offset 0 (getNewLength C r))) = x \<and>
     content (sliceReplacement C r x (mk_offset 0 (getNewLength C r))) = content r"
  using slice_laws [of r "mk_offset 0 (getNewLength C r)" x] by (simp add: getNewLength_content)

lemma new_whole: "valid r \<Longrightarrow> OffsetRange_new 0 (getNewLength C r) = Inr (mk_offset 0 (getNewLength C r))"
  by (simp add: getNewLength_content)

lemma delta_ok:
  assumes "valid r" and "offset_wf (replaceRange C r)"
  obtains r' where "BaseReplacement_delta C r d = Inr r'" and "valid r'" and "content r' = content r"
    and "replaceRange C r' = mk_offset (start (replaceRange C r) + d) (endExclusive (replaceRange C r) + d)"
  using assms slice_whole [OF assms(1)]
  by (auto simp: BaseReplacement_delta_def OffsetRange_delta_def new_whole offset_wf_def)

text \<open>\<open>normalize\<close> keeps the effect.\<close>

lemma normalize_loop_effect:
  assumes "\<forall>r \<in> set rs. valid r" and "\<forall>r \<in> set_option lastR. valid r" and "\<forall>r \<in> set news. valid r"
    and "rfits p n (news @ (case lastR of None \<Rightarrow> [] | Some l \<Rightarrow> [l]) @ rs)"
    and "n \<le> p + int (length xs)"
  shows "\<exists>out. normalize_loop C rs lastR news = Inr out \<and> (\<forall>r \<in> set out. valid r) \<and> rfits p n out \<and>
    effect p out xs = effect p (news @ (case lastR of None \<Rightarrow> [] | Some l \<Rightarrow> [l]) @ rs) xs"
  using assms
proof (induction rs arbitrary: lastR news)
  case Nil
  then show ?case by (auto split: option.splits)
next
  case (Cons r rs)
  let ?last = "case lastR of None \<Rightarrow> [] | Some l \<Rightarrow> [l]"
  obtain m where m: "rfits p m (news @ ?last)" "rfits m n (r # rs)"
    using Cons.prems(4) by (auto simp: fits_append simp flip: append_assoc)
  have r: "m \<le> start (replaceRange C r)" "start (replaceRange C r) \<le> endExclusive (replaceRange C r)"
    "rfits (endExclusive (replaceRange C r)) n rs" using m(2) by auto
  have bound: "n \<le> m + int (length (drop (nat (m - p)) xs))"
    using Cons.prems(5) fits_le [OF m(1)] fits_le [OF m(2)] by simp
  have whole: "effect p (news @ ?last @ ys) xs =
      effect p (news @ ?last) (take (nat (m - p)) xs) @ effect m ys (drop (nat (m - p)) xs)"
    if "rfits m n ys" for ys
    using appl_append [OF m(1) that Cons.prems(5)] by simp
  have valid_r: "valid r" using Cons.prems(1) by simp
  show ?case
  proof (cases "getNewLength C r = 0 \<and> OffsetRange_length (replaceRange C r) = 0")
    case True
    then have emp: "content r = []" "endExclusive (replaceRange C r) = start (replaceRange C r)"
      using valid_r by (auto simp: getNewLength_content OffsetRange_length_def)
    have fm: "rfits m n rs" using fits_mono r by blast
    have skip: "effect m (r # rs) ys = effect m rs ys" if "n \<le> m + int (length ys)" for ys
      using appl_split [OF r(3), of m ys content] r fits_le [OF r(3)] that by (simp add: emp)
    have "effect p (news @ ?last @ r # rs) xs = effect p (news @ ?last @ rs) xs"
      unfolding whole [OF m(2)] whole [OF fm] skip [OF bound] ..
    moreover have "rfits p n (news @ ?last @ rs)"
      using m(1) fm unfolding append_assoc [symmetric] fits_append by blast
    ultimately have "effect p (news @ ?last @ r # rs) xs = effect p (news @ ?last @ rs) xs"
      and "rfits p n (news @ ?last @ rs)" by blast+
    with Cons.IH [of lastR news] Cons.prems True show ?thesis by simp
  next
    case nonempty: False
    show ?thesis
    proof (cases lastR)
      case None
      with Cons.IH [of "Some r" news] Cons.prems nonempty show ?thesis by auto
    next
      case (Some l)
      have push: "\<exists>out. normalize_loop C rs (Some r) (news @ [l]) = Inr out \<and> (\<forall>r \<in> set out. valid r) \<and> rfits p n out \<and>
          effect p out xs = effect p (news @ [l] @ r # rs) xs"
        using Cons.IH [of "Some r" "news @ [l]"] Cons.prems Some by auto
      show ?thesis
      proof (cases "endExclusive (replaceRange C l) = start (replaceRange C r)")
        case False
        with push nonempty Some show ?thesis by auto
      next
        case touch: True
        obtain k where k: "rfits p k news" "k \<le> start (replaceRange C l)"
          "start (replaceRange C l) \<le> endExclusive (replaceRange C l)"
          using Cons.prems(4) Some by (auto simp: fits_append)
        obtain x where x: "tryJoinTouching C l r = Inr x"
          "case x of None \<Rightarrow> True | Some j \<Rightarrow> valid j \<and>
             replaceRange C j = mk_offset (start (replaceRange C l)) (endExclusive (replaceRange C r)) \<and>
             content j = content l @ content r"
          using join_laws [of l r] Cons.prems(2) valid_r Some touch r(2) k(3) by (auto simp: offset_wf_def)
        show ?thesis
        proof (cases x)
          case None
          with push nonempty Some touch x show ?thesis by auto
        next
          case j: (Some j)
          have fj: "rfits k n (j # rs)" using j x(2) k r touch by simp
          have fl: "rfits k n (l # r # rs)" using k r touch by simp
          have eq: "effect k (j # rs) ys = effect k (l # r # rs) ys" for ys
            using j x(2) k r touch by (simp add: add.commute flip: nat_add_distrib)
          have "effect p (news @ j # rs) xs = effect p (news @ l # r # rs) xs"
            unfolding appl_append [OF k(1) fj Cons.prems(5)] appl_append [OF k(1) fl Cons.prems(5)] eq ..
          moreover have "rfits p n (news @ j # rs)" using k(1) fj by (auto simp: fits_append)
          ultimately show ?thesis
            using Cons.IH [of "Some j" news] Cons.prems nonempty Some touch x j by auto
        qed
      qed
    qed
  qed
qed

lemma normalize_effect:
  assumes "\<forall>r \<in> set (replacements ed). valid r" and "rfits 0 n (replacements ed)" and "n \<le> int (length xs)"
  obtains ed' where "BaseEdit_normalize C ed = Inr ed'" and "\<forall>r \<in> set (replacements ed'). valid r"
    and "rfits 0 n (replacements ed')" and "effect 0 (replacements ed') xs = effect 0 (replacements ed) xs"
proof -
  from assms normalize_loop_effect [of "replacements ed" None "[]" 0 n xs]
  obtain out where out: "normalize_loop C (replacements ed) None [] = Inr out" "\<forall>r \<in> set out. valid r"
    "rfits 0 n out" "effect 0 out xs = effect 0 (replacements ed) xs" by auto
  moreover from out(3) have "BaseEdit_check C (- 1) out" by (rule fits_check) simp
  ultimately show thesis using that [of "\<lparr>replacements = out\<rparr>"]
    by (simp add: BaseEdit_normalize_def BaseEdit_new_def)
qed

text \<open>The two inner loops of \<open>compose\<close> split the queue.\<close>

abbreviation dsum :: "'t list \<Rightarrow> int" where
  "dsum \<equiv> delta_sum (replaceRange C) content"

lemma compose_copy_spec:
  "\<forall>r \<in> set q. valid r \<Longrightarrow> compose_copy C r2 q d res = (q', d', res') \<Longrightarrow>
     \<exists>a. q = a @ q' \<and> res' = res @ a \<and> d' = d + dsum a \<and>
       (a \<noteq> [] \<longrightarrow> endExclusive (replaceRange C (last a)) + d' < start (replaceRange C r2)) \<and>
       (q' \<noteq> [] \<longrightarrow> start (replaceRange C r2) \<le>
          start (replaceRange C (hd q')) + d' + int (length (content (hd q'))))"
proof (induction q arbitrary: d res)
  case (Cons r q)
  let ?d = "d + (getNewLength C r - OffsetRange_length (replaceRange C r))"
  show ?case
  proof (cases "start (replaceRange C r) + d + getNewLength C r \<ge> start (replaceRange C r2)")
    case True
    with Cons.prems show ?thesis by (auto simp: getNewLength_content)
  next
    case False
    then have "compose_copy C r2 q ?d (res @ [r]) = (q', d', res')" using Cons.prems by simp
    with Cons.IH [of ?d "res @ [r]"] Cons.prems(1) obtain a where a: "q = a @ q'" "res' = (res @ [r]) @ a"
      "d' = ?d + dsum a" "a \<noteq> [] \<longrightarrow> endExclusive (replaceRange C (last a)) + d' < start (replaceRange C r2)"
      "q' \<noteq> [] \<longrightarrow> start (replaceRange C r2) \<le> start (replaceRange C (hd q')) + d' + int (length (content (hd q')))"
      by auto
    with False Cons.prems(1) show ?thesis
      by (intro exI [of _ "r # a"]) (auto simp: getNewLength_content OffsetRange_length_def)
  qed
qed auto

lemma compose_collect_spec:
  "\<forall>r \<in> set q. valid r \<Longrightarrow> compose_collect C r2 q d f0 l0 = (q', d', f, l) \<Longrightarrow>
     \<exists>a. q = a @ q' \<and> d' = d + dsum a \<and>
       (if a = [] then f = f0 \<and> l = l0
        else f = (case f0 of None \<Rightarrow> Some (hd a) | Some x \<Rightarrow> Some x) \<and> l = Some (last a) \<and>
          endExclusive (replaceRange C (last a)) + d' - int (length (content (last a)))
            \<le> endExclusive (replaceRange C r2)) \<and>
       (q' \<noteq> [] \<longrightarrow> endExclusive (replaceRange C r2) < start (replaceRange C (hd q')) + d')"
proof (induction q arbitrary: d f0 l0)
  case (Cons r q)
  let ?d = "d + (getNewLength C r - OffsetRange_length (replaceRange C r))"
  let ?f = "case f0 of None \<Rightarrow> Some r | Some f \<Rightarrow> Some f"
  show ?case
  proof (cases "start (replaceRange C r) + d > endExclusive (replaceRange C r2)")
    case True
    with Cons.prems show ?thesis by auto
  next
    case False
    then have "compose_collect C r2 q ?d ?f (Some r) = (q', d', f, l)" using Cons.prems by simp
    with Cons.IH [of ?d ?f "Some r"] Cons.prems(1) obtain a where a: "q = a @ q'" "d' = ?d + dsum a"
      "if a = [] then f = ?f \<and> l = Some r
       else f = (case ?f of None \<Rightarrow> Some (hd a) | Some x \<Rightarrow> Some x) \<and> l = Some (last a) \<and>
          endExclusive (replaceRange C (last a)) + d' - int (length (content (last a)))
            \<le> endExclusive (replaceRange C r2)"
      "q' \<noteq> [] \<longrightarrow> endExclusive (replaceRange C r2) < start (replaceRange C (hd q')) + d'" by auto
    with False Cons.prems(1) show ?thesis
      by (intro exI [of _ "r # a"])
        (auto simp: getNewLength_content OffsetRange_length_def split: option.splits if_splits)
  qed
qed auto

text \<open>
  One round of \<open>compose\<close>.  The queue \<open>q\<close> applies from position \<open>p\<close> of the base text; \<open>ys\<close> is what it
  makes of the rest \<open>xs\<close> of the text, on which \<open>r2\<close> works from position \<open>p + d\<close>.  The round appends
  replacements up to a position \<open>m\<close> that do what \<open>q\<close> and then \<open>r2\<close> do there, and leaves a queue that
  makes of the text after \<open>m\<close> what remains of \<open>ys\<close> after \<open>r2\<close>.
\<close>

definition round_ok :: "int \<Rightarrow> int \<Rightarrow> 'c list \<Rightarrow> int \<Rightarrow> 'c list \<Rightarrow> 't \<Rightarrow> 't list \<Rightarrow> 't list \<Rightarrow> int \<Rightarrow> int \<Rightarrow> bool" where
  "round_ok p n xs d ys r2 new q3 d3 m \<longleftrightarrow>
     (\<forall>r \<in> set new. valid r) \<and> (\<forall>r \<in> set q3. valid r) \<and> rfits p m new \<and> rfits m n q3 \<and>
     m + d3 = endExclusive (replaceRange C r2) \<and>
     effect p new (take (nat (m - p)) xs) = take (nat (start (replaceRange C r2) - (p + d))) ys @ content r2 \<and>
     effect m q3 (drop (nat (m - p)) xs) = drop (nat (endExclusive (replaceRange C r2) - (p + d))) ys"

lemma fits_from: "rfits p n q \<Longrightarrow> m \<le> n \<Longrightarrow> q \<noteq> [] \<longrightarrow> m \<le> start (replaceRange C (hd q)) \<Longrightarrow> rfits m n q"
  by (cases q) auto

lemma merge_disjoint:
  assumes v2: "valid r2" and v: "\<forall>r \<in> set q. valid r" and q: "rfits p n q" and n: "n = p + int (length xs)"
    and ys: "ys = effect p q xs"
    and r2: "p + d \<le> start (replaceRange C r2)" "start (replaceRange C r2) \<le> endExclusive (replaceRange C r2)"
      "endExclusive (replaceRange C r2) \<le> p + d + int (length ys)"
    and before: "q \<noteq> [] \<longrightarrow> endExclusive (replaceRange C r2) < start (replaceRange C (hd q)) + d"
  obtains r' where "BaseReplacement_delta C r2 (- d) = Inr r'"
    and "round_ok p n xs d ys r2 [r'] q d (endExclusive (replaceRange C r2) - d)"
proof -
  have "offset_wf (replaceRange C r2)" using r2(2) by (simp add: offset_wf_def)
  then obtain r' where r': "BaseReplacement_delta C r2 (- d) = Inr r'" "valid r'" "content r' = content r2"
    "replaceRange C r' = mk_offset (start (replaceRange C r2) + - d) (endExclusive (replaceRange C r2) + - d)"
    by (rule delta_ok [OF v2])
  let ?m = "endExclusive (replaceRange C r2) - d"
  have "?m \<le> n"
  proof (cases q)
    case Nil
    with r2(3) ys n show ?thesis by simp
  next
    case (Cons r q')
    with before q fits_le [of "replaceRange C" "endExclusive (replaceRange C r)" n q'] show ?thesis by simp
  qed
  moreover from this q before have m: "rfits ?m n q" by (auto intro: fits_from)
  ultimately have ys': "ys = take (nat (?m - p)) xs @ effect ?m q (drop (nat (?m - p)) xs)"
    unfolding ys using r2 n by (intro appl_split) auto
  have len: "length (take (nat (?m - p)) xs) = nat (?m - p)" using \<open>?m \<le> n\<close> n by simp
  have "round_ok p n xs d ys r2 [r'] q d ?m"
    unfolding round_ok_def
    using m v r' r2 len \<open>?m \<le> n\<close> n by (auto simp: ys' algebra_simps min_def nat_le_iff)
  with r'(1) that show thesis by blast
qed

lemma compose_prefix_ok:
  assumes "valid f" and "start (replaceRange C r2) - (start (replaceRange C f) + d) \<le> int (length (content f))"
  defines "k \<equiv> start (replaceRange C r2) - (start (replaceRange C f) + d)"
  obtains pre where "compose_prefix C r2 f d s = Inr pre" and "\<forall>r \<in> set pre. valid r"
    and "\<And>r n. start (replaceRange C r) = s \<Longrightarrow> rfits p n (pre @ [r]) \<longleftrightarrow> rfits p n [r]"
    and "\<And>r xs. start (replaceRange C r) = s \<Longrightarrow> p \<le> s \<Longrightarrow> s \<le> endExclusive (replaceRange C r) \<Longrightarrow>
      effect p (pre @ [r]) xs = take (nat (s - p)) xs @ take (nat k) (content f) @ content r @
        drop (nat (endExclusive (replaceRange C r) - p)) xs"
proof (cases "k > 0")
  case True
  let ?pre = "sliceReplacement C f (mk_offset s s) (mk_offset 0 k)"
  have sl: "valid ?pre" "replaceRange C ?pre = mk_offset s s" "content ?pre = take (nat k) (content f)"
    using slice_laws [OF assms(1), of "mk_offset 0 k" "mk_offset s s"] True assms(2) by (auto simp: k_def)
  have "compose_prefix C r2 f d s = Inr [?pre]"
    using True by (simp add: compose_prefix_def OffsetRange_emptyAt_def k_def [symmetric])
  with sl show thesis by (intro that) (auto simp: add.commute simp flip: nat_add_distrib)
next
  case False
  then have "compose_prefix C r2 f d s = Inr []" by (simp add: compose_prefix_def k_def [symmetric])
  with False show thesis by (intro that [of "[]"]) auto
qed

lemma compose_suffix_ok:
  assumes "valid l" and "k \<le> int (length (content l))" and "k = endExclusive (replaceRange C l) + d - endExclusive (replaceRange C r2)"
  obtains q3 d3 where "compose_suffix C r2 l q d = Inr (q3, d3)"
    and "k \<le> 0 \<Longrightarrow> q3 = q \<and> d3 = d"
    and "k > 0 \<Longrightarrow> d3 = d - k \<and> (\<exists>e. q3 = e # q \<and> valid e \<and>
       replaceRange C e = mk_offset (endExclusive (replaceRange C l)) (endExclusive (replaceRange C l)) \<and>
       content e = drop (length (content l) - nat k) (content l))"
proof (cases "k > 0")
  case True
  let ?x = "mk_offset (endExclusive (replaceRange C l)) (endExclusive (replaceRange C l))"
  let ?w = "mk_offset (getNewLength C l - k) (getNewLength C l)"
  let ?e = "sliceReplacement C l ?x ?w"
  have len: "getNewLength C l = int (length (content l))" using getNewLength_content [OF assms(1)] .
  have e: "valid ?e" "replaceRange C ?e = ?x" "content ?e = drop (length (content l) - nat k) (content l)"
    using slice_laws [OF assms(1), of ?w ?x] True assms(2)
    by (auto simp: len nat_diff_distrib)
  have "compose_suffix C r2 l q d = Inr (?e # q, d - k)"
    using True assms(2) e getNewLength_content [OF e(1)]
    by (simp add: compose_suffix_def OffsetRange_ofStartAndLength_def OffsetRange_length_def len assms(3) [symmetric])
  with e True show thesis by (intro that [of "?e # q" "d - k"]) auto
next
  case False
  then have "compose_suffix C r2 l q d = Inr (q, d)" by (simp add: compose_suffix_def assms(3) [symmetric])
  with False show thesis by (intro that) auto
qed

lemma merge_touching:
  assumes v2: "valid r2" and v: "\<forall>r \<in> set (f # rs @ q). valid r" and q: "rfits p n (f # rs @ q)"
    and n: "n = p + int (length xs)" and ys: "ys = effect p (f # rs @ q) xs"
    and r2: "p + d \<le> start (replaceRange C r2)" "start (replaceRange C r2) \<le> endExclusive (replaceRange C r2)"
      "endExclusive (replaceRange C r2) \<le> p + d + int (length ys)"
    and d': "d' = d + dsum (f # rs)" and l: "l = last (f # rs)"
    and first: "start (replaceRange C r2) \<le> start (replaceRange C f) + d + int (length (content f))"
    and last: "endExclusive (replaceRange C l) + d' - int (length (content l)) \<le> endExclusive (replaceRange C r2)"
    and after: "q \<noteq> [] \<longrightarrow> endExclusive (replaceRange C r2) < start (replaceRange C (hd q)) + d'"
  defines "s \<equiv> min (start (replaceRange C f)) (start (replaceRange C r2) - d)"
  obtains pre q3 d3 mid where "compose_prefix C r2 f d s = Inr pre"
    and "compose_suffix C r2 l q d' = Inr (q3, d3)" and "s \<le> endExclusive (replaceRange C r2) - d3"
    and "mid = sliceReplacement C r2 (mk_offset s (endExclusive (replaceRange C r2) - d3))
           (mk_offset 0 (getNewLength C r2))"
    and "round_ok p n xs d ys r2 (pre @ [mid]) q3 d3 (endExclusive (replaceRange C r2) - d3)"
proof -
  let ?s2 = "start (replaceRange C r2)" and ?e2 = "endExclusive (replaceRange C r2)"
  let ?sf = "start (replaceRange C f)" and ?el = "endExclusive (replaceRange C l)"
  let ?Z = "effect ?el q (drop (nat (?el - p)) xs)"
  have vf: "valid f" and vl: "valid l" and vq: "\<forall>r \<in> set q. valid r" using v l by auto
  have "n \<le> p + int (length xs)" using n by simp
  from appl_run [OF q this, of content, folded l] obtain mm m1 m2 where
    ys_eq: "ys = take (nat (?sf - p)) xs @ mm @ ?Z" and m1: "mm = content f @ m1" and m2: "mm = m2 @ content l"
    and len_mm: "int (length mm) = (?el - ?sf) + dsum (f # rs)"
    and fq: "rfits ?el n q" and pos: "?sf \<le> ?el" "p \<le> ?sf"
    unfolding ys by blast
  have el_n: "?el \<le> n" using fits_le [OF fq] .
  have len_T: "int (length (take (nat (?sf - p)) xs)) = ?sf - p" using pos el_n n by simp
  have aa: "nat (?sf - p) \<le> length xs" using pos el_n n by simp
  define k where "k = ?el + d' - ?e2"
  obtain pre where pre: "compose_prefix C r2 f d s = Inr pre" "\<forall>r \<in> set pre. valid r"
    "\<And>r n. start (replaceRange C r) = s \<Longrightarrow> rfits p n (pre @ [r]) \<longleftrightarrow> rfits p n [r]"
    "\<And>r xs. start (replaceRange C r) = s \<Longrightarrow> p \<le> s \<Longrightarrow> s \<le> endExclusive (replaceRange C r) \<Longrightarrow>
      effect p (pre @ [r]) xs = take (nat (s - p)) xs @ take (nat (?s2 - (?sf + d))) (content f) @ content r @
        drop (nat (endExclusive (replaceRange C r) - p)) xs"
    by (rule compose_prefix_ok [of f r2 d s p, OF vf]) (use first in auto)
  obtain q3 d3 where suf: "compose_suffix C r2 l q d' = Inr (q3, d3)" "k \<le> 0 \<Longrightarrow> q3 = q \<and> d3 = d'"
    "k > 0 \<Longrightarrow> d3 = d' - k \<and> (\<exists>e. q3 = e # q \<and> valid e \<and>
       replaceRange C e = mk_offset ?el ?el \<and> content e = drop (length (content l) - nat k) (content l))"
    by (rule compose_suffix_ok [OF vl, of k d' r2 q]) (use last in \<open>auto simp: k_def\<close>)
  let ?m = "?e2 - d3"
  have m_el: "?el \<le> ?m" using suf(2,3) by (cases "k > 0") (auto simp: k_def)
  have s_le: "p \<le> s" "s \<le> ?sf" "s \<le> ?m" using pos r2 m_el by (auto simp: s_def)
  define mid where "mid = sliceReplacement C r2 (mk_offset s ?m) (mk_offset 0 (getNewLength C r2))"
  have mid: "valid mid" "replaceRange C mid = mk_offset s ?m" "content mid = content r2"
    using slice_whole [OF v2] by (simp_all add: mid_def)
  have before: "take (nat (?s2 - (p + d))) ys = take (nat (s - p)) xs @ take (nat (?s2 - (?sf + d))) (content f)"
  proof (cases "?sf + d < ?s2")
    case True
    then have "s = ?sf" "nat (?s2 - (p + d)) = length (take (nat (?sf - p)) xs) + nat (?s2 - (?sf + d))"
      using pos len_T by (auto simp: s_def)
    then show ?thesis using first aa by (simp add: ys_eq m1)
  next
    case False
    then have e: "nat (?s2 - (p + d)) = nat (s - p)" and "nat (s - p) \<le> length (take (nat (?sf - p)) xs)"
      using pos len_T r2(1) by (auto simp: s_def)
    moreover have "take (nat (s - p)) (take (nat (?sf - p)) xs) = take (nat (s - p)) xs"
      using s_le pos by (simp add: min_def nat_le_iff)
    ultimately show ?thesis unfolding e ys_eq using False by simp
  qed
  have tot: "int (length (take (nat (?sf - p)) xs @ mm)) = ?el + d' - (p + d)"
    using len_T len_mm by (simp add: d')
  have rest: "rfits ?m n q3 \<and> (\<forall>r \<in> set q3. valid r) \<and> effect ?m q3 (drop (nat (?m - p)) xs) = drop (nat (?e2 - (p + d))) ys"
  proof (cases "k > 0")
    case True
    from suf(3) [OF True] obtain e where e: "d3 = d' - k" "q3 = e # q" "valid e"
      "replaceRange C e = mk_offset ?el ?el" "content e = drop (length (content l) - nat k) (content l)" by blast
    have m: "?m = ?el" using e(1) by (simp add: k_def)
    have "nat (?e2 - (p + d)) + nat k = length (take (nat (?sf - p)) xs @ mm)" using tot True r2 by (simp add: k_def)
    moreover have "nat k \<le> length (content l)" using last by (simp add: k_def)
    ultimately have "nat (?e2 - (p + d)) = length (take (nat (?sf - p)) xs @ m2) + (length (content l) - nat k)"
      unfolding m2 length_append by linarith
    then have "drop (nat (?e2 - (p + d))) ys = drop (length (content l) - nat k) (content l) @ ?Z"
      by (simp only: ys_eq m2 append_assoc [symmetric] drop_append) simp
    with e fq vq show ?thesis unfolding m by simp
  next
    case False
    then have e: "q3 = q" "d3 = d'" using suf(2) by auto
    have mn: "?m \<le> n"
    proof (cases q)
      case Nil
      then have "int (length ys) = ?el + d' - (p + d) + (n - ?el)" using tot el_n n pos by (simp add: ys_eq)
      with r2(3) show ?thesis by (simp add: e)
    next
      case (Cons r q')
      with after fq fits_le [of "replaceRange C" "endExclusive (replaceRange C r)" n q'] show ?thesis by (simp add: e)
    qed
    have fm: "rfits ?m n q" by (rule fits_from [OF fq mn]) (use after in \<open>auto simp: e\<close>)
    have Z: "?Z = take (nat (?m - ?el)) (drop (nat (?el - p)) xs) @ effect ?m q (drop (nat (?m - ?el)) (drop (nat (?el - p)) xs))"
      by (rule appl_split [OF fm m_el]) (use mn n el_n pos in simp)
    have "nat (?e2 - (p + d)) = length (take (nat (?sf - p)) xs @ mm) + nat (?m - ?el)"
      using tot m_el by (simp add: e)
    then have "drop (nat (?e2 - (p + d))) ys = drop (nat (?m - ?el)) ?Z"
      by (simp only: ys_eq append_assoc [symmetric] drop_append) simp
    also have "\<dots> = effect ?m q (drop (nat (?m - ?el)) (drop (nat (?el - p)) xs))"
    proof -
      have "length (take (nat (?m - ?el)) (drop (nat (?el - p)) xs)) = nat (?m - ?el)"
        using mn n m_el pos by auto
      then show ?thesis by (subst Z) (metis append_eq_conv_conj)
    qed
    also have "drop (nat (?m - ?el)) (drop (nat (?el - p)) xs) = drop (nat (?m - p)) xs"
      using m_el pos by (simp add: add.commute flip: nat_add_distrib)
    finally show ?thesis using fm vq by (simp add: e)
  qed
  have "effect p (pre @ [mid]) (take (nat (?m - p)) xs) = take (nat (?s2 - (p + d))) ys @ content r2"
    using pre(4) [of mid "take (nat (?m - p)) xs"] mid s_le by (simp add: before min_def nat_le_iff)
  moreover have "rfits p ?m (pre @ [mid])" using pre(3) [of mid ?m] mid s_le by simp
  ultimately have "round_ok p n xs d ys r2 (pre @ [mid]) q3 d3 ?m"
    using rest pre(2) mid(1) by (simp add: round_ok_def)
  with pre(1) suf(1) s_le(3) mid_def that show thesis by blast
qed

lemma compose_merge_ok:
  assumes v2: "valid r2" and v: "\<forall>r \<in> set q. valid r" and q: "rfits p n q"
    and n: "n = p + int (length xs)" and ys: "ys = effect p q xs"
    and r2: "p + d \<le> start (replaceRange C r2)" "start (replaceRange C r2) \<le> endExclusive (replaceRange C r2)"
      "endExclusive (replaceRange C r2) \<le> p + d + int (length ys)"
    and first: "q \<noteq> [] \<longrightarrow> start (replaceRange C r2) \<le>
      start (replaceRange C (hd q)) + d + int (length (content (hd q)))"
  obtains q3 d3 new where "compose_merge C r2 q d res = Inr (q3, d3, res @ new)"
    and "round_ok p n xs d ys r2 new q3 d3 (endExclusive (replaceRange C r2) - d3)"
proof -
  obtain q' d' f l where coll: "compose_collect C r2 q d None None = (q', d', f, l)"
    by (metis prod_cases4)
  from compose_collect_spec [OF v coll, unfolded option.case] obtain a where a: "q = a @ q'" "d' = d + dsum a"
    "if a = [] then f = None \<and> l = None
     else f = Some (hd a) \<and> l = Some (last a) \<and>
       endExclusive (replaceRange C (last a)) + d' - int (length (content (last a))) \<le> endExclusive (replaceRange C r2)"
    "q' \<noteq> [] \<longrightarrow> endExclusive (replaceRange C r2) < start (replaceRange C (hd q')) + d'" by blast
  show thesis
  proof (cases a)
    case Nil
    then have e: "q' = q" "d' = d" "f = None" using a by auto
    from merge_disjoint [OF v2 v q n ys r2] a(4) obtain r' where
      "BaseReplacement_delta C r2 (- d) = Inr r'"
      "round_ok p n xs d ys r2 [r'] q d (endExclusive (replaceRange C r2) - d)" by (auto simp: e)
    then show thesis using that [of q d "[r']"] coll by (simp add: compose_merge_def e)
  next
    case (Cons x rs)
    then have e: "q = x # rs @ q'" "f = Some x" "l = Some (last (x # rs))" using a by auto
    have a': "endExclusive (replaceRange C (last (x # rs))) + d' - int (length (content (last (x # rs)))) \<le>
        endExclusive (replaceRange C r2)" "d' = d + dsum (x # rs)" using a(2,3) Cons by auto
    have first': "start (replaceRange C r2) \<le> start (replaceRange C x) + d + int (length (content x))"
      using first by (simp add: e(1))
    show thesis
      by (rule merge_touching [OF v2 v [unfolded e(1)] q [unfolded e(1)] n ys [unfolded e(1)] r2 a'(2) refl first' a'(1) a(4)])
        (rule that, use coll v2 in \<open>auto simp: compose_merge_def e(2,3) new_whole simp del: last.simps\<close>)
  qed
qed

lemma compose_step_ok:
  assumes v2: "valid r2" and v: "\<forall>r \<in> set q. valid r" and q: "rfits p n q"
    and n: "n = p + int (length xs)" and ys: "ys = effect p q xs"
    and r2: "p + d \<le> start (replaceRange C r2)" "start (replaceRange C r2) \<le> endExclusive (replaceRange C r2)"
      "endExclusive (replaceRange C r2) \<le> p + d + int (length ys)"
  obtains q3 d3 new where "compose_step C r2 (q, d, res) = Inr (q3, d3, res @ new)"
    and "round_ok p n xs d ys r2 new q3 d3 (endExclusive (replaceRange C r2) - d3)"
proof -
  let ?s2 = "start (replaceRange C r2)" and ?e2 = "endExclusive (replaceRange C r2)"
  obtain q1 d1 res1 where copy: "compose_copy C r2 q d res = (q1, d1, res1)"
    by (metis prod_cases3)
  from compose_copy_spec [OF v copy] obtain a where a: "q = a @ q1" "res1 = res @ a" "d1 = d + dsum a"
    "a \<noteq> [] \<longrightarrow> endExclusive (replaceRange C (last a)) + d1 < ?s2"
    "q1 \<noteq> [] \<longrightarrow> ?s2 \<le> start (replaceRange C (hd q1)) + d1 + int (length (content (hd q1)))" by auto
  define m where "m = (if a = [] then p else endExclusive (replaceRange C (last a)))"
  have fa: "rfits p m a" and f1: "rfits m n q1"
  proof -
    obtain k where k: "rfits p k a" "rfits k n q1" using q unfolding a(1) fits_append by blast
    show "rfits p m a" using k(1) by (cases a rule: rev_cases) (auto simp: m_def fits_snoc)
    show "rfits m n q1" using k by (cases a rule: rev_cases) (auto simp: m_def fits_snoc intro: fits_mono)
  qed
  let ?xs = "drop (nat (m - p)) xs"
  define b where "b = effect p a (take (nat (m - p)) xs)"
  have pm: "p \<le> m" "m \<le> n" using fits_le [OF fa] fits_le [OF f1] by auto
  have ys_eq: "ys = b @ effect m q1 ?xs"
    unfolding ys a(1) b_def using n by (intro appl_append [OF fa f1]) simp
  have len_b: "int (length b) = m + d1 - (p + d)"
    using length_appl [OF fa, of "take (nat (m - p)) xs" content] pm n by (simp add: b_def a(3))
  have n1: "n = m + int (length ?xs)" using n pm by simp
  have v1: "\<forall>r \<in> set q1. valid r" "\<forall>r \<in> set a. valid r" using v a(1) by auto
  have r2': "m + d1 \<le> ?s2" using a(3,4) r2(1) by (cases "a = []") (auto simp: m_def)
  have r2'': "?e2 \<le> m + d1 + int (length (effect m q1 ?xs))" using r2(3) len_b by (simp add: ys_eq)
  obtain q3 d3 new where run: "compose_merge C r2 q1 d1 res1 = Inr (q3, d3, res1 @ new)"
    and ok: "round_ok m n ?xs d1 (effect m q1 ?xs) r2 new q3 d3 (?e2 - d3)"
    by (rule compose_merge_ok [OF v2 v1(1) f1 n1 refl r2' r2(2) r2'' a(5)])
  let ?k = "?e2 - d3"
  have fnew: "rfits m ?k new" and f3: "rfits ?k n q3" using ok by (auto simp: round_ok_def)
  have mk: "m \<le> ?k" "?k \<le> n" using fits_le [OF fnew] fits_le [OF f3] by auto
  have "rfits p ?k (a @ new)" using fa fnew unfolding fits_append by blast
  moreover have "effect p (a @ new) (take (nat (?k - p)) xs) =
      b @ effect m new (take (nat (?k - m)) ?xs)"
  proof -
    have "?k \<le> p + int (length (take (nat (?k - p)) xs))" using mk pm n by simp
    from appl_append [OF fa fnew this, of content] show ?thesis
      by (simp only: b_def segment_shift [OF pm(1) mk(1)])
  qed
  moreover have "nat (?s2 - (p + d)) = length b + nat (?s2 - (m + d1))"
    "nat (?e2 - (p + d)) = length b + nat (?e2 - (m + d1))"
    using len_b r2' r2(2) by linarith+
  moreover have "drop (nat (?k - m)) ?xs = drop (nat (?k - p)) xs"
    using mk pm by (simp add: add.commute flip: nat_add_distrib)
  ultimately have "round_ok p n xs d ys r2 (a @ new) q3 d3 ?k"
    using ok v1(2) by (auto simp: round_ok_def ys_eq)
  moreover have "compose_step C r2 (q, d, res) = Inr (q3, d3, res @ (a @ new))"
    using copy run by (simp add: compose_step_def a(2))
  ultimately show thesis by (rule that [rotated])
qed

lemma compose_loop_ok:
  assumes "\<forall>r \<in> set rs2. valid r" and "\<forall>r \<in> set q. valid r" and "rfits p n q"
    and "n = p + int (length xs)" and "rfits (p + d) (p + d + int (length (effect p q xs))) rs2"
  shows "\<exists>out. compose_loop C rs2 (q, d, res) = Inr (res @ out) \<and> (\<forall>r \<in> set out. valid r) \<and> rfits p n out \<and>
    effect p out xs = effect (p + d) rs2 (effect p q xs)"
  using assms
proof (induction rs2 arbitrary: q p d xs res)
  case (Cons r2 rs2)
  let ?ys = "effect p q xs" and ?s2 = "start (replaceRange C r2)" and ?e2 = "endExclusive (replaceRange C r2)"
  have r2: "p + d \<le> ?s2" "?s2 \<le> ?e2" "rfits ?e2 (p + d + int (length ?ys)) rs2" using Cons.prems(5) by auto
  have e2: "?e2 \<le> p + d + int (length ?ys)" using fits_le [OF r2(3)] .
  have v2: "valid r2" using Cons.prems(1) by simp
  obtain q3 d3 new where step: "compose_step C r2 (q, d, res) = Inr (q3, d3, res @ new)"
    and ok: "round_ok p n xs d ?ys r2 new q3 d3 (?e2 - d3)"
    by (rule compose_step_ok [OF v2 Cons.prems(2-4) refl r2(1,2) e2])
  let ?m = "?e2 - d3" and ?xs = "drop (nat (?e2 - d3 - p)) xs"
  have fn: "rfits p ?m new" "rfits ?m n q3" "\<forall>r \<in> set q3. valid r" "\<forall>r \<in> set new. valid r"
    and e_new: "effect p new (take (nat (?m - p)) xs) = take (nat (?s2 - (p + d))) ?ys @ content r2"
    and e_rest: "effect ?m q3 ?xs = drop (nat (?e2 - (p + d))) ?ys"
    using ok by (auto simp: round_ok_def)
  have pm: "p \<le> ?m" "?m \<le> n" using fits_le [OF fn(1)] fits_le [OF fn(2)] by auto
  have "n = ?m + int (length ?xs)" using Cons.prems(4) pm by simp
  moreover have "?e2 + int (length (effect ?m q3 ?xs)) = p + d + int (length ?ys)"
    using e2 r2 by (simp add: e_rest)
  then have "rfits (?m + d3) (?m + d3 + int (length (effect ?m q3 ?xs))) rs2" using r2(3) by simp
  ultimately obtain out where out: "compose_loop C rs2 (q3, d3, res @ new) = Inr ((res @ new) @ out)"
    "\<forall>r \<in> set out. valid r" "rfits ?m n out" "effect ?m out ?xs = effect (?m + d3) rs2 (effect ?m q3 ?xs)"
    using Cons.IH [of q3 ?m ?xs d3 "res @ new"] Cons.prems(1) fn(2,3) by auto
  have "rfits p n (new @ out)" using fn(1) out(3) unfolding fits_append by blast
  moreover have "effect p (new @ out) xs = effect (p + d) (r2 # rs2) ?ys"
    using appl_append [OF fn(1) out(3), of xs content] Cons.prems(4) by (simp add: e_new out(4) e_rest)
  ultimately show ?case using step out(1,2) fn(4) by (intro exI [of _ "new @ out"]) auto
qed auto

theorem compose_effect:
  assumes "\<forall>r \<in> set (replacements a). valid r" and "rfits 0 (int (length xs)) (replacements a)"
    and "\<forall>r \<in> set (replacements b). valid r"
    and "rfits 0 (int (length (effect 0 (replacements a) xs))) (replacements b)"
  obtains c where "BaseEdit_compose C a b = Inr c" and "\<forall>r \<in> set (replacements c). valid r"
    and "rfits 0 (int (length xs)) (replacements c)"
    and "effect 0 (replacements c) xs = effect 0 (replacements b) (effect 0 (replacements a) xs)"
proof -
  obtain a' where a': "BaseEdit_normalize C a = Inr a'" "\<forall>r \<in> set (replacements a'). valid r"
    "rfits 0 (int (length xs)) (replacements a')" "effect 0 (replacements a') xs = effect 0 (replacements a) xs"
    by (rule normalize_effect [OF assms(1,2) order.refl])
  obtain b' where b': "BaseEdit_normalize C b = Inr b'" "\<forall>r \<in> set (replacements b'). valid r"
    "rfits 0 (int (length (effect 0 (replacements a) xs))) (replacements b')"
    "effect 0 (replacements b') (effect 0 (replacements a) xs) = effect 0 (replacements b) (effect 0 (replacements a) xs)"
    by (rule normalize_effect [OF assms(3,4) order.refl])
  consider "BaseEdit_isEmpty a'" | "\<not> BaseEdit_isEmpty a'" "BaseEdit_isEmpty b'"
    | "\<not> BaseEdit_isEmpty a'" "\<not> BaseEdit_isEmpty b'" by blast
  then show thesis
  proof cases
    case 1
    then have "BaseEdit_compose C a b = Inr b'" by (simp add: BaseEdit_compose_def a' b')
    moreover have "effect 0 (replacements a) xs = xs" using a'(4) 1 by (simp add: BaseEdit_isEmpty_def)
    ultimately show thesis using that b' by simp
  next
    case 2
    then have "BaseEdit_compose C a b = Inr a'" by (simp add: BaseEdit_compose_def a' b')
    moreover have "effect 0 (replacements b) (effect 0 (replacements a) xs) = effect 0 (replacements a) xs"
      using b'(4) 2 by (simp add: BaseEdit_isEmpty_def)
    ultimately show thesis using that a' by simp
  next
    case 3
    from compose_loop_ok [OF b'(2) a'(2,3), of xs 0 "[]"] a'(4) b'(3,4)
    obtain out where out: "compose_loop C (replacements b') (replacements a', 0, []) = Inr out"
      "\<forall>r \<in> set out. valid r" "rfits 0 (int (length xs)) out"
      "effect 0 out xs = effect 0 (replacements b) (effect 0 (replacements a) xs)" by auto
    from out(3) have "BaseEdit_check C (- 1) out" by (rule fits_check) simp
    then have new: "BaseEdit_new C out = Inr \<lparr>replacements = out\<rparr>" by (simp add: BaseEdit_new_def)
    from normalize_effect [of "\<lparr>replacements = out\<rparr>" "int (length xs)" xs] out
    obtain c where c: "BaseEdit_normalize C \<lparr>replacements = out\<rparr> = Inr c" "\<forall>r \<in> set (replacements c). valid r"
      "rfits 0 (int (length xs)) (replacements c)" "effect 0 (replacements c) xs = effect 0 out xs" by auto
    have "BaseEdit_compose C a b = Inr c"
      using 3 by (simp add: BaseEdit_compose_def a' b' out new c)
    with c out(4) show thesis by (intro that) auto
  qed
qed

text \<open>The effect of a tagged sequence is that of its untagged part followed by the moved tagged part.\<close>

lemma rebased_effect:
  assumes "\<forall>x \<in> set m. valid (snd x)" and "rfits p n (List.map snd m)" and "n = p + int (length xs)"
  shows "rfits p n (tagged False m)"
    and "rfits (p + d) (p + d + int (length (effect p (tagged False m) xs))) (rebased C m d)"
    and "effect (p + d) (rebased C m d) (effect p (tagged False m) xs) = effect p (List.map snd m) xs"
    and "\<forall>r \<in> set (rebased C m d). valid r"
proof -
  have "rfits p n (tagged False m) \<and>
    rfits (p + d) (p + d + int (length (effect p (tagged False m) xs))) (rebased C m d) \<and>
    effect (p + d) (rebased C m d) (effect p (tagged False m) xs) = effect p (List.map snd m) xs \<and>
    (\<forall>r \<in> set (rebased C m d). valid r)"
    using assms
  proof (induction m arbitrary: p d xs)
    case (Cons x m)
    obtain t r where x: "x = (t, r)" by fastforce
    let ?s = "start (replaceRange C r)" and ?e = "endExclusive (replaceRange C r)"
    let ?xs = "drop (nat (?e - p)) xs" and ?f = "tagged False m" and ?g = "List.map snd m"
    have r: "p \<le> ?s" "?s \<le> ?e" "rfits ?e n ?g" "valid r" using Cons.prems by (auto simp: x)
    have en: "?e \<le> n" using fits_le [OF r(3)] .
    have n: "n = ?e + int (length ?xs)" using Cons.prems(3) r en by simp
    show ?case
    proof (cases t)
      case False
      define d' where "d' = d + (getNewLength C r - OffsetRange_length (replaceRange C r))"
      have IH: "rfits ?e n ?f" "rfits (?e + d') (?e + d' + int (length (effect ?e ?f ?xs))) (rebased C m d')"
        "effect (?e + d') (rebased C m d') (effect ?e ?f ?xs) = effect ?e ?g ?xs"
        "\<forall>r \<in> set (rebased C m d'). valid r"
        using Cons.IH [OF _ r(3) n, of d'] Cons.prems(1) by auto
      let ?a = "take (nat (?s - p)) xs @ content r"
      have len: "p + d + int (length ?a) = ?e + d'"
        using r en Cons.prems(3) by (simp add: d'_def getNewLength_content OffsetRange_length_def)
      have whole: "effect p (r # ?f) xs = ?a @ effect ?e ?f ?xs" by simp
      have "effect (p + d) (rebased C m d') (effect p (r # ?f) xs) = ?a @ effect (?e + d') (rebased C m d') (effect ?e ?f ?xs)"
        unfolding whole by (subst appl_skip [where n = "?e + d' + int (length (effect ?e ?f ?xs))"])
          (use IH(2) in \<open>simp_all only: len\<close>)
      then have "effect (p + d) (rebased C m d') (effect p (r # ?f) xs) = effect p (r # ?g) xs" by (simp add: IH(3))
      moreover have "rfits (p + d) (p + d + int (length (effect p (r # ?f) xs))) (rebased C m d')"
      proof -
        have total: "p + d + int (length (effect p (r # ?f) xs)) = ?e + d' + int (length (effect ?e ?f ?xs))"
          using len unfolding whole length_append by simp
        show ?thesis unfolding total by (rule fits_mono [OF IH(2)]) (use len in simp)
      qed
      moreover have "rebased C (x # m) d = rebased C m d'" "tagged False (x # m) = r # ?f"
        "List.map snd (x # m) = r # ?g" using False by (simp_all add: x d'_def)
      moreover have "rfits p n (r # ?f)" using IH(1) r by simp
      ultimately show ?thesis using IH(4) by (simp only: simp_thms)
    next
      case True
      let ?x = "mk_offset (?s + d) (?e + d)"
      let ?r = "sliceReplacement C r ?x (mk_offset 0 (getNewLength C r))"
      have sl: "valid ?r" "replaceRange C ?r = ?x" "content ?r = content r"
        using slice_whole [OF r(4)] by auto
      have IH: "rfits ?e n ?f" "rfits (?e + d) (?e + d + int (length (effect ?e ?f ?xs))) (rebased C m d)"
        "effect (?e + d) (rebased C m d) (effect ?e ?f ?xs) = effect ?e ?g ?xs"
        "\<forall>r \<in> set (rebased C m d). valid r"
        using Cons.IH [OF _ r(3) n, of d] Cons.prems(1) by auto
      have split: "effect p ?f xs = take (nat (?e - p)) xs @ effect ?e ?f ?xs"
        using r en Cons.prems(3) by (intro appl_split [OF IH(1)]) auto
      have len: "length (take (nat (?e - p)) xs) = nat (?e - p)" using en Cons.prems(3) by simp
      have "effect (p + d) (?r # rebased C m d) (effect p ?f xs) = effect p (r # ?g) xs"
        unfolding split using r len by (simp add: sl IH(3) min_def nat_le_iff)
      moreover have "rfits (p + d) (p + d + int (length (effect p ?f xs))) (?r # rebased C m d)"
      proof -
        have total: "p + d + int (length (effect p ?f xs)) = ?e + d + int (length (effect ?e ?f ?xs))"
          using r len unfolding split length_append by simp
        show ?thesis unfolding total by (simp only: fits.simps sl OffsetRange.simps) (use r IH(2) in simp)
      qed
      moreover have "rebased C (x # m) d = ?r # rebased C m d" "tagged False (x # m) = ?f"
        "List.map snd (x # m) = r # ?g" using True by (simp_all add: x)
      moreover have "rfits p n ?f" by (rule fits_mono [OF IH(1)]) (use r in simp)
      ultimately show ?thesis using IH(4) sl(1) by (simp only: set_simps ball_simps simp_thms)
    qed
  qed auto
  then show "rfits p n (tagged False m)"
    and "rfits (p + d) (p + d + int (length (effect p (tagged False m) xs))) (rebased C m d)"
    and "effect (p + d) (rebased C m d) (effect p (tagged False m) xs) = effect p (List.map snd m) xs"
    and "\<forall>r \<in> set (rebased C m d). valid r" by blast+
qed

text \<open>\<open>decomposeSplit\<close> moves the replacements that are not chosen.\<close>

lemma decomposeSplit_loop_eq:
  assumes "\<forall>r \<in> set rs. valid r" and "rfits p n rs"
  shows "decomposeSplit_loop C pr rs d e1 e2 =
    Inr (e1 @ filter pr rs, e2 @ rebased C (List.map (\<lambda>r. (\<not> pr r, r)) rs) d)"
  using assms
  by (induction rs arbitrary: p d e1 e2) (force simp: OffsetRange_delta_def new_whole)+

lemma decomposeSplit_effect:
  assumes "\<forall>r \<in> set (replacements a). valid r" and "rfits 0 (int (length xs)) (replacements a)"
  obtains e1 e2 where "BaseEdit_decomposeSplit C a pr = Inr (e1, e2)"
    and "replacements e1 = filter pr (replacements a)"
    and "rfits 0 (int (length xs)) (replacements e1)"
    and "rfits 0 (int (length (effect 0 (replacements e1) xs))) (replacements e2)"
    and "\<forall>r \<in> set (replacements e2). valid r"
    and "effect 0 (replacements e2) (effect 0 (replacements e1) xs) = effect 0 (replacements a) xs"
proof -
  let ?m = "List.map (\<lambda>r. (\<not> pr r, r)) (replacements a)"
  let ?o1 = "filter pr (replacements a)" and ?o2 = "rebased C ?m 0"
  have m: "\<forall>x \<in> set ?m. valid (snd x)" "rfits 0 (int (length xs)) (List.map snd ?m)"
    "tagged False ?m = ?o1" "List.map snd ?m = replacements a"
    using assms by (auto simp: tagged_def comp_def filter_map)
  have n: "int (length xs) = 0 + int (length xs)" by simp
  note eff = rebased_effect(1) [OF m(1,2) n, unfolded m(3,4)]
    rebased_effect(2-4) [OF m(1,2) n, where d = 0, unfolded m(3,4) add_0_left]
  have "BaseEdit_check C (- 1) ?o1" "BaseEdit_check C (- 1) ?o2"
    using fits_check [OF eff(1), of "- 1"] fits_check [OF eff(2), of "- 1"] by simp_all
  then have "BaseEdit_decomposeSplit C a pr = Inr (\<lparr>replacements = ?o1\<rparr>, \<lparr>replacements = ?o2\<rparr>)"
    using decomposeSplit_loop_eq [OF assms, of pr 0 "[]" "[]"]
    by (simp add: BaseEdit_decomposeSplit_def BaseEdit_new_def)
  with eff show thesis by (intro that) auto
qed

text \<open>\<open>getNewRanges\<close> points at the contents in the result.\<close>

lemma getNewRanges_loop_ok:
  assumes "\<forall>r \<in> set rs. valid r" and "rfits p n rs" and "n = p + int (length xs)"
  shows "\<exists>gs. getNewRanges_loop C rs d = Inr gs \<and>
    list_all2 (\<lambda>r g. p + d \<le> start g \<and> OffsetRange_length g = int (length (content r)) \<and>
      take (length (content r)) (drop (nat (start g - (p + d))) (effect p rs xs)) = content r) rs gs"
  using assms
proof (induction rs arbitrary: p d xs)
  case (Cons r rs)
  let ?s = "start (replaceRange C r)" and ?e = "endExclusive (replaceRange C r)"
  let ?xs = "drop (nat (?e - p)) xs"
  have r: "p \<le> ?s" "?s \<le> ?e" "rfits ?e n rs" "valid r" using Cons.prems by auto
  have en: "?e \<le> n" using fits_le [OF r(3)] .
  have n: "n = ?e + int (length ?xs)" using Cons.prems(3) r en by simp
  define d' where "d' = d + BaseReplacement_getLengthDelta C r"
  obtain gs where gs: "getNewRanges_loop C rs d' = Inr gs"
    "list_all2 (\<lambda>r g. ?e + d' \<le> start g \<and> OffsetRange_length g = int (length (content r)) \<and>
      take (length (content r)) (drop (nat (start g - (?e + d'))) (effect ?e rs ?xs)) = content r) rs gs"
    using Cons.IH [OF _ r(3) n, of d'] Cons.prems(1) by auto
  let ?a = "take (nat (?s - p)) xs @ content r"
  have len: "?e + d' = p + d + int (length ?a)"
    using r en Cons.prems(3)
    by (simp add: d'_def BaseReplacement_getLengthDelta_def getNewLength_content OffsetRange_length_def)
  have whole: "effect p (r # rs) xs = ?a @ effect ?e rs ?xs" by simp
  have shift: "p + d \<le> start g \<and> OffsetRange_length g = int (length (content r')) \<and>
      take (length (content r')) (drop (nat (start g - (p + d))) (effect p (r # rs) xs)) = content r'"
    if h: "?e + d' \<le> start g \<and> OffsetRange_length g = int (length (content r')) \<and>
      take (length (content r')) (drop (nat (start g - (?e + d'))) (effect ?e rs ?xs)) = content r'" for r' g
  proof -
    have "nat (start g - (p + d)) = length ?a + nat (start g - (?e + d'))"
      using nat_shift [OF len] h by blast
    then have "drop (nat (start g - (p + d))) (effect p (r # rs) xs) = drop (nat (start g - (?e + d'))) (effect ?e rs ?xs)"
      by (simp only: whole drop_append) simp
    with h len show ?thesis by simp
  qed
  have tail: "list_all2 (\<lambda>x g. p + d \<le> start g \<and> OffsetRange_length g = int (length (content x)) \<and>
      take (length (content x)) (drop (nat (start g - (p + d))) (effect p (r # rs) xs)) = content x) rs gs"
    by (rule list_all2_mono [OF gs(2)]) (rule shift)
  have "length (take (nat (?s - p)) xs) = nat (?s - p)" using r en Cons.prems(3) by simp
  then have "take (length (content r)) (drop (nat (?s - p)) (effect p (r # rs) xs)) = content r"
    unfolding whole append_assoc by (metis append_eq_conv_conj)
  then show ?case
    using gs(1) tail r by (simp add: OffsetRange_ofStartAndLength_def getNewLength_content d'_def OffsetRange_length_def del: appl.simps)
qed simp

text \<open>Offsets outside the replaced ranges keep their element and come back under the inverse.\<close>

lemma applyToOffset_track:
  assumes "\<forall>r \<in> set rs. valid r" and "rfits p n rs" and "n = p + int (length xs)" and "p \<le> off"
    and "\<forall>r \<in> set rs. \<not> OffsetRange_contains (replaceRange C r) off"
  shows "applyToOffsetOrUndefined_loop C rs off d = Some (applyToOffset_loop C rs off d) \<and>
    applyInverseToOffset_loop C rs (applyToOffset_loop C rs off d) d = off \<and>
    (off < n \<longrightarrow> nat (applyToOffset_loop C rs off d - (p + d)) < length (effect p rs xs) \<and>
       effect p rs xs ! nat (applyToOffset_loop C rs off d - (p + d)) = xs ! nat (off - p)) \<and>
    p + d \<le> applyToOffset_loop C rs off d"
  using assms
proof (induction rs arbitrary: p d xs)
  case (Cons r rs)
  let ?s = "start (replaceRange C r)" and ?e = "endExclusive (replaceRange C r)"
  let ?xs = "drop (nat (?e - p)) xs"
  have r: "p \<le> ?s" "?s \<le> ?e" "rfits ?e n rs" "valid r" using Cons.prems by auto
  have en: "?e \<le> n" using fits_le [OF r(3)] .
  have n: "n = ?e + int (length ?xs)" using Cons.prems(3) r en by simp
  show ?case
  proof (cases "?s \<le> off")
    case True
    then have e: "?e \<le> off" using Cons.prems(5) by (auto simp: OffsetRange_contains_def)
    define d' where "d' = d + (getNewLength C r - OffsetRange_length (replaceRange C r))"
    define z where "z = applyToOffset_loop C rs off d'"
    note IH = Cons.IH [OF _ r(3) n e, of d', folded z_def]
    let ?a = "take (nat (?s - p)) xs @ content r"
    have len: "?e + d' = p + d + int (length ?a)"
      using r en Cons.prems(3) by (simp add: d'_def getNewLength_content OffsetRange_length_def)
    have d': "?e + d' = ?s + d + int (length (content r))"
      using r(4) by (simp add: d'_def getNewLength_content OffsetRange_length_def)
    have whole: "effect p (r # rs) xs = ?a @ effect ?e rs ?xs" by simp
    have z: "applyToOffset_loop C (r # rs) off d = z" using True e by (simp add: z_def d'_def)
    from IH Cons.prems(1,5) have ih: "applyToOffsetOrUndefined_loop C rs off d' = Some z"
      "applyInverseToOffset_loop C rs z d' = off"
      "off < n \<longrightarrow> nat (z - (?e + d')) < length (effect ?e rs ?xs) \<and> effect ?e rs ?xs ! nat (z - (?e + d')) = ?xs ! nat (off - ?e)"
      "?e + d' \<le> z" by auto
    have "nat (z - (p + d)) = length ?a + nat (z - (?e + d'))" by (rule nat_shift [OF len ih(4)])
    moreover have "?xs ! nat (off - ?e) = xs ! nat (off - p)" if "off < n"
      using that e r Cons.prems(3) en by (simp add: nat_add_distrib [symmetric])
    ultimately have "off < n \<longrightarrow> nat (z - (p + d)) < length (effect p (r # rs) xs) \<and>
        effect p (r # rs) xs ! nat (z - (p + d)) = xs ! nat (off - p)"
      using ih(3) by (metis whole nth_append_length_plus length_append nat_add_left_cancel_less)
    moreover have "applyInverseToOffset_loop C (r # rs) z d = off"
      using ih(2,4) d' r(4) by (simp add: Let_def getNewLength_content d'_def)
    moreover have "applyToOffsetOrUndefined_loop C (r # rs) off d = Some z"
      using ih(1) True e by (simp add: d'_def)
    moreover have "p + d \<le> z" using ih(4) len by simp
    ultimately show ?thesis unfolding z by blast
  next
    case False
    have "nat (off - p) < nat (?s - p)" "nat (?s - p) \<le> length xs"
      using False r en Cons.prems(3,4) by auto
    with False Cons.prems(4) show ?thesis by (auto simp: nth_append intro: trans_less_add1)
  qed
qed (auto simp: nat_less_iff)

lemma applyToOffset_lower:
  "\<forall>r \<in> set rs. valid r \<Longrightarrow> rfits p n rs \<Longrightarrow> p \<le> off \<Longrightarrow> p + d \<le> applyToOffset_loop C rs off d"
proof (induction rs arbitrary: p d)
  case (Cons r rs)
  let ?d = "d + (getNewLength C r - OffsetRange_length (replaceRange C r))"
  have "endExclusive (replaceRange C r) + ?d = start (replaceRange C r) + d + int (length (content r))"
    using Cons.prems(1) by (simp add: getNewLength_content OffsetRange_length_def)
  moreover have "endExclusive (replaceRange C r) + ?d \<le> applyToOffset_loop C rs off ?d"
    if "endExclusive (replaceRange C r) \<le> off"
    using Cons.IH [of "endExclusive (replaceRange C r)" ?d] Cons.prems that by simp
  ultimately show ?case using Cons.prems(2,3) by auto
qed simp

lemma applyToOffset_mono:
  "\<forall>r \<in> set rs. valid r \<Longrightarrow> rfits p n rs \<Longrightarrow> p \<le> a \<Longrightarrow> a \<le> b \<Longrightarrow>
     applyToOffset_loop C rs a d \<le> applyToOffset_loop C rs b d"
proof (induction rs arbitrary: p d)
  case (Cons r rs)
  let ?d = "d + (getNewLength C r - OffsetRange_length (replaceRange C r))"
  let ?s = "start (replaceRange C r)" and ?e = "endExclusive (replaceRange C r)"
  have d: "?e + ?d = ?s + d + int (length (content r))"
    using Cons.prems(1) by (simp add: getNewLength_content OffsetRange_length_def)
  have low: "?e + ?d \<le> applyToOffset_loop C rs x ?d" if "?e \<le> x" for x
    using applyToOffset_lower [of rs ?e n x ?d] Cons.prems that by simp
  consider "a < ?s" | "?s \<le> a" "a < ?e" | "?s \<le> a" "?e \<le> a" by linarith
  then show ?case
  proof cases
    case 1
    then show ?thesis using Cons.prems(4) low [of b] d by (cases "b < ?e") auto
  next
    case 2
    then show ?thesis using Cons.prems(4) low [of b] d by (cases "b < ?e") auto
  next
    case 3
    then show ?thesis using Cons.IH [of ?e ?d] Cons.prems by simp
  qed
qed simp

end

text \<open>\<open>AnnotationReplacement\<close> stands for \<open>newLength\<close> copies of its annotation.\<close>

interpretation annotation_repl: replacement AnnotationReplacement_class
  "\<lambda>r. replicate (nat (newLength r)) (annotation r)" "\<lambda>r. 0 \<le> newLength r"
  by unfold_locales
    (auto simp: AnnotationReplacement_class_def AnnotationReplacement_slice_def OffsetRange_length_def
      AnnotationReplacement_tryJoinTouching_def OffsetRange_joinRightTouching_def offset_wf_def
      nat_add_distrib replicate_add min_def)

end
