(* ===== verification/String_Edits.thy ===== *)
theory String_Edits
  imports Edit_Laws
begin

text \<open>
  \<open>src/vs/editor/common/core/edits/stringEdit.ts\<close>: edits of strings, which are lists of 16-bit code
  units here.  \<open>BaseStringEdit\<close> is generic in the replacement (\<open>StringReplacement\<close> or
  \<open>AnnotatedStringReplacement\<close>), so its methods take the record of the class.  The lemmas instantiate
  the interface of \<open>Edit_Laws\<close> and show what \<open>apply\<close>, \<open>compose\<close>, \<open>inverse\<close>, the rebase and the
  removal of common prefixes and suffixes do to a string.
\<close>

section \<open>Strings\<close>

type_synonym text16 = "16 word list"

text \<open>The loops of \<open>commonPrefixLength\<close> and \<open>commonSuffixLength\<close> (\<open>src/vs/base/common/strings.ts\<close>).\<close>

function first_diff :: "(nat \<Rightarrow> bool) \<Rightarrow> nat \<Rightarrow> nat \<Rightarrow> nat" where
  "first_diff same len i = (if i < len then (if \<not> same i then i else first_diff same len (i + 1)) else len)"
  by pat_completeness auto
termination by (relation "measure (\<lambda>(same, len, i). len - i)") auto

declare first_diff.simps [simp del]

definition commonPrefixLength :: "text16 \<Rightarrow> text16 \<Rightarrow> int" where
  "commonPrefixLength a b =
     int (first_diff (\<lambda>i. a ! i = b ! i) (min (length a) (length b)) 0)"

definition commonSuffixLength :: "text16 \<Rightarrow> text16 \<Rightarrow> int" where
  "commonSuffixLength a b =
     int (first_diff (\<lambda>i. a ! (length a - 1 - i) = b ! (length b - 1 - i)) (min (length a) (length b)) 0)"

section \<open>Replacements\<close>

record StringReplacement =
  sr_range :: OffsetRange
  sr_newText :: text16

definition StringReplacement_insert :: "int \<Rightarrow> text16 \<Rightarrow> StringReplacement result" where
  "StringReplacement_insert offset t =
     rbind (OffsetRange_emptyAt offset) (\<lambda>rg. Inr \<lparr>sr_range = rg, sr_newText = t\<rparr>)"

definition StringReplacement_replace :: "OffsetRange \<Rightarrow> text16 \<Rightarrow> StringReplacement" where
  "StringReplacement_replace rg t = \<lparr>sr_range = rg, sr_newText = t\<rparr>"

definition StringReplacement_delete :: "OffsetRange \<Rightarrow> StringReplacement" where
  "StringReplacement_delete rg = \<lparr>sr_range = rg, sr_newText = []\<rparr>"

definition StringReplacement_equals :: "StringReplacement \<Rightarrow> StringReplacement \<Rightarrow> bool" where
  "StringReplacement_equals r other \<longleftrightarrow>
     OffsetRange_equals (sr_range r) (sr_range other) \<and> sr_newText r = sr_newText other"

definition StringReplacement_tryJoinTouching ::
    "StringReplacement \<Rightarrow> StringReplacement \<Rightarrow> StringReplacement option result" where
  "StringReplacement_tryJoinTouching r other =
     rbind (OffsetRange_joinRightTouching (sr_range r) (sr_range other)) (\<lambda>rg.
     Inr (Some \<lparr>sr_range = rg, sr_newText = sr_newText r @ sr_newText other\<rparr>))"

definition StringReplacement_slice ::
    "StringReplacement \<Rightarrow> OffsetRange \<Rightarrow> OffsetRange option \<Rightarrow> StringReplacement" where
  "StringReplacement_slice r rg w =
     \<lparr>sr_range = rg,
      sr_newText = (case w of Some x \<Rightarrow> OffsetRange_substring x (sr_newText r) | None \<Rightarrow> sr_newText r)\<rparr>"

text \<open>The methods of a string replacement: those of a replacement and the text.\<close>

record 't string_replacement_class = "'t replacement_class" +
  newText :: "'t \<Rightarrow> text16"

definition StringReplacement_class :: "StringReplacement string_replacement_class" where
  "StringReplacement_class =
     \<lparr>replaceRange = sr_range, getNewLength = (\<lambda>r. int (length (sr_newText r))),
      tryJoinTouching = StringReplacement_tryJoinTouching,
      sliceReplacement = (\<lambda>r rg w. StringReplacement_slice r rg (Some w)),
      equalsReplacement = StringReplacement_equals, newText = sr_newText\<rparr>"

text \<open>The record of the methods \<open>BaseEdit\<close> uses.\<close>

abbreviation base_class :: "'t string_replacement_class \<Rightarrow> 't replacement_class" where
  "base_class S \<equiv> replacement_class.truncate S"

text \<open>Methods of \<open>BaseStringReplacement\<close>.\<close>

definition BaseStringReplacement_replace :: "'t string_replacement_class \<Rightarrow> 't \<Rightarrow> text16 \<Rightarrow> text16" where
  "BaseStringReplacement_replace S r str =
     js_substring str 0 (start (replaceRange S r)) @ newText S r @
     js_substring_from str (endExclusive (replaceRange S r))"

definition BaseStringReplacement_isNeutralOn :: "'t string_replacement_class \<Rightarrow> 't \<Rightarrow> text16 \<Rightarrow> bool" where
  "BaseStringReplacement_isNeutralOn S r t \<longleftrightarrow>
     newText S r = js_substring t (start (replaceRange S r)) (endExclusive (replaceRange S r))"

definition BaseStringReplacement_removeCommonSuffixPrefix ::
    "'t string_replacement_class \<Rightarrow> 't \<Rightarrow> text16 \<Rightarrow> StringReplacement result" where
  "BaseStringReplacement_removeCommonSuffixPrefix S r originalText =
     (let oldText = js_substring originalText (start (replaceRange S r)) (endExclusive (replaceRange S r));
          prefixLen = commonPrefixLength oldText (newText S r);
          suffixLen = min (min (int (length oldText) - prefixLen) (int (length (newText S r)) - prefixLen))
                        (commonSuffixLength oldText (newText S r))
      in rbind (OffsetRange_new (start (replaceRange S r) + prefixLen) (endExclusive (replaceRange S r) - suffixLen))
           (\<lambda>rg. Inr \<lparr>sr_range = rg,
              sr_newText = js_substring (newText S r) prefixLen (int (length (newText S r)) - suffixLen)\<rparr>))"

text \<open>\<open>newText.replace(/\r\n|\n/g, eol)\<close>\<close>

fun replace_eol :: "text16 \<Rightarrow> text16 \<Rightarrow> text16" where
  "replace_eol eol [] = []"
| "replace_eol eol [c] = (if c = 10 then eol else [c])"
| "replace_eol eol (c # d # cs) =
     (if c = 13 \<and> d = 10 then eol @ replace_eol eol cs
      else if c = 10 then eol @ replace_eol eol (d # cs)
      else c # replace_eol eol (d # cs))"

definition BaseStringReplacement_normalizeEOL ::
    "'t string_replacement_class \<Rightarrow> 't \<Rightarrow> text16 \<Rightarrow> StringReplacement" where
  "BaseStringReplacement_normalizeEOL S r eol =
     \<lparr>sr_range = replaceRange S r, sr_newText = replace_eol eol (newText S r)\<rparr>"

definition BaseStringReplacement_removeCommonPrefix ::
    "'t string_replacement_class \<Rightarrow> 't \<Rightarrow> text16 \<Rightarrow> 't result" where
  "BaseStringReplacement_removeCommonPrefix S r source =
     (let oldText = OffsetRange_substring (replaceRange S r) source;
          prefixLen = commonPrefixLength oldText (newText S r)
      in if prefixLen = 0 then Inr r
         else rbind (OffsetRange_deltaStart (replaceRange S r) prefixLen) (\<lambda>rg.
              rbind (OffsetRange_new prefixLen (int (length (newText S r)))) (\<lambda>w.
              Inr (sliceReplacement S r rg w))))"

definition BaseStringReplacement_removeCommonSuffix ::
    "'t string_replacement_class \<Rightarrow> 't \<Rightarrow> text16 \<Rightarrow> 't result" where
  "BaseStringReplacement_removeCommonSuffix S r source =
     (let oldText = OffsetRange_substring (replaceRange S r) source;
          suffixLen = commonSuffixLength oldText (newText S r)
      in if suffixLen = 0 then Inr r
         else rbind (OffsetRange_deltaEnd (replaceRange S r) (- suffixLen)) (\<lambda>rg.
              rbind (OffsetRange_new 0 (int (length (newText S r)) - suffixLen)) (\<lambda>w.
              Inr (sliceReplacement S r rg w))))"

definition BaseStringReplacement_removeCommonSuffixAndPrefix ::
    "'t string_replacement_class \<Rightarrow> 't \<Rightarrow> text16 \<Rightarrow> 't result" where
  "BaseStringReplacement_removeCommonSuffixAndPrefix S r source =
     rbind (BaseStringReplacement_removeCommonSuffix S r source)
       (\<lambda>r'. BaseStringReplacement_removeCommonPrefix S r' source)"

text \<open>The serialized form.\<close>

record ISerializedStringReplacement =
  json_txt :: text16
  json_pos :: int
  json_len :: int

definition BaseStringReplacement_toJson :: "'t string_replacement_class \<Rightarrow> 't \<Rightarrow> ISerializedStringReplacement" where
  "BaseStringReplacement_toJson S r =
     \<lparr>json_txt = newText S r, json_pos = start (replaceRange S r), json_len = OffsetRange_length (replaceRange S r)\<rparr>"

definition StringReplacement_fromJson :: "ISerializedStringReplacement \<Rightarrow> StringReplacement result" where
  "StringReplacement_fromJson data =
     rbind (OffsetRange_ofStartAndLength (json_pos data) (json_len data)) (\<lambda>rg.
     Inr \<lparr>sr_range = rg, sr_newText = json_txt data\<rparr>)"

section \<open>Edits\<close>

abbreviation StringEdit_base :: "StringReplacement replacement_class" where
  "StringEdit_base \<equiv> base_class StringReplacement_class"

definition StringEdit_new :: "StringReplacement list \<Rightarrow> StringReplacement BaseEdit result" where
  "StringEdit_new rs = BaseEdit_new StringEdit_base rs"

definition StringEdit_empty :: "StringReplacement BaseEdit" where
  "StringEdit_empty = \<lparr>replacements = []\<rparr>"

definition BaseStringReplacement_toEdit :: "StringReplacement \<Rightarrow> StringReplacement BaseEdit result" where
  "BaseStringReplacement_toEdit r = StringEdit_new [r]"

definition StringEdit_replace :: "OffsetRange \<Rightarrow> text16 \<Rightarrow> StringReplacement BaseEdit result" where
  "StringEdit_replace rg t = StringEdit_new [\<lparr>sr_range = rg, sr_newText = t\<rparr>]"

definition StringEdit_insert :: "int \<Rightarrow> text16 \<Rightarrow> StringReplacement BaseEdit result" where
  "StringEdit_insert offset t =
     rbind (OffsetRange_emptyAt offset) (\<lambda>rg. StringEdit_new [\<lparr>sr_range = rg, sr_newText = t\<rparr>])"

definition StringEdit_delete :: "OffsetRange \<Rightarrow> StringReplacement BaseEdit result" where
  "StringEdit_delete rg = StringEdit_new [\<lparr>sr_range = rg, sr_newText = []\<rparr>]"

definition StringEdit_toJson ::
    "'t string_replacement_class \<Rightarrow> 't BaseEdit \<Rightarrow> ISerializedStringReplacement list" where
  "StringEdit_toJson S ed = List.map (BaseStringReplacement_toJson S) (replacements ed)"

definition StringEdit_fromJson :: "ISerializedStringReplacement list \<Rightarrow> StringReplacement BaseEdit result" where
  "StringEdit_fromJson data = rbind (rmap StringReplacement_fromJson data) StringEdit_new"

text \<open>\<open>apply\<close>: the loop appends to \<open>resultText\<close> and moves \<open>pos\<close>.\<close>

fun apply_loop :: "'t string_replacement_class \<Rightarrow> text16 \<Rightarrow> 't list \<Rightarrow> int \<Rightarrow> text16 \<Rightarrow> text16" where
  "apply_loop S base [] p out = out @ js_substring_from base p"
| "apply_loop S base (r # rs) p out =
     apply_loop S base rs (endExclusive (replaceRange S r))
       (out @ js_substring base p (start (replaceRange S r)) @ newText S r)"

definition BaseStringEdit_apply :: "'t string_replacement_class \<Rightarrow> 't BaseEdit \<Rightarrow> text16 \<Rightarrow> text16" where
  "BaseStringEdit_apply S ed base = apply_loop S base (replacements ed) 0 []"

fun inverseOnSlice_loop ::
    "'t string_replacement_class \<Rightarrow> (int \<Rightarrow> int \<Rightarrow> text16) \<Rightarrow> 't list \<Rightarrow> int \<Rightarrow> StringReplacement list result" where
  "inverseOnSlice_loop S getOriginalSlice [] offset = Inr []"
| "inverseOnSlice_loop S getOriginalSlice (r # rs) offset =
     rbind (OffsetRange_ofStartAndLength (start (replaceRange S r) + offset) (int (length (newText S r)))) (\<lambda>rg.
     rbind (inverseOnSlice_loop S getOriginalSlice rs
              (offset + (int (length (newText S r)) - OffsetRange_length (replaceRange S r)))) (\<lambda>edits.
     Inr (StringReplacement_replace rg (getOriginalSlice (start (replaceRange S r)) (endExclusive (replaceRange S r)))
            # edits)))"

definition BaseStringEdit_inverseOnSlice ::
    "'t string_replacement_class \<Rightarrow> 't BaseEdit \<Rightarrow> (int \<Rightarrow> int \<Rightarrow> text16) \<Rightarrow> StringReplacement BaseEdit result" where
  "BaseStringEdit_inverseOnSlice S ed getOriginalSlice =
     rbind (inverseOnSlice_loop S getOriginalSlice (replacements ed) 0) StringEdit_new"

definition BaseStringEdit_inverse ::
    "'t string_replacement_class \<Rightarrow> 't BaseEdit \<Rightarrow> text16 \<Rightarrow> StringReplacement BaseEdit result" where
  "BaseStringEdit_inverse S ed original =
     BaseStringEdit_inverseOnSlice S ed (\<lambda>s e. js_substring original s e)"

definition areConcurrentInserts :: "OffsetRange \<Rightarrow> OffsetRange \<Rightarrow> bool" where
  "areConcurrentInserts r1 r2 \<longleftrightarrow> OffsetRange_isEmpty r1 \<and> OffsetRange_isEmpty r2 \<and> start r1 = start r2"

definition isInsertStrictlyInsideRange :: "OffsetRange \<Rightarrow> OffsetRange \<Rightarrow> bool" where
  "isInsertStrictlyInsideRange ins rg \<longleftrightarrow>
     OffsetRange_isEmpty ins \<and> start rg < start ins \<and> start ins < endExclusive rg"

definition rebase_conflict :: "OffsetRange \<Rightarrow> OffsetRange \<Rightarrow> bool" where
  "rebase_conflict ours base \<longleftrightarrow>
     OffsetRange_intersects ours base \<or> areConcurrentInserts ours base \<or>
     isInsertStrictlyInsideRange ours base \<or> isInsertStrictlyInsideRange base ours"

text \<open>The loop of \<open>_tryRebase\<close> over the unread parts of both edits; None is the result undefined.\<close>

fun tryRebase_loop ::
    "'t string_replacement_class \<Rightarrow> bool \<Rightarrow> 't list \<Rightarrow> StringReplacement list \<Rightarrow> int \<Rightarrow> StringReplacement list \<Rightarrow>
       StringReplacement list option result" where
  "tryRebase_loop S noOverlap [] base offset newEdits = Inr (Some newEdits)"
| "tryRebase_loop S noOverlap (our # ours) [] offset newEdits =
     rbind (OffsetRange_delta (replaceRange S our) offset) (\<lambda>rg.
     tryRebase_loop S noOverlap ours [] offset (newEdits @ [\<lparr>sr_range = rg, sr_newText = newText S our\<rparr>]))"
| "tryRebase_loop S noOverlap (our # ours) (b # base) offset newEdits =
     (if rebase_conflict (replaceRange S our) (sr_range b)
      then if noOverlap then Inr None else tryRebase_loop S noOverlap ours (b # base) offset newEdits
      else if start (replaceRange S our) < start (sr_range b) \<or>
          OffsetRange_isEmpty (replaceRange S our) \<and> start (replaceRange S our) = start (sr_range b)
      then rbind (OffsetRange_delta (replaceRange S our) offset) (\<lambda>rg.
           tryRebase_loop S noOverlap ours (b # base) offset
             (newEdits @ [\<lparr>sr_range = rg, sr_newText = newText S our\<rparr>]))
      else tryRebase_loop S noOverlap (our # ours) base
             (offset + (int (length (sr_newText b)) - OffsetRange_length (sr_range b))) newEdits)"

definition BaseStringEdit_tryRebase' ::
    "'t string_replacement_class \<Rightarrow> 't BaseEdit \<Rightarrow> StringReplacement BaseEdit \<Rightarrow> bool \<Rightarrow>
       StringReplacement BaseEdit option result" where
  "BaseStringEdit_tryRebase' S ed base noOverlap =
     rbind (tryRebase_loop S noOverlap (replacements ed) (replacements base) 0 []) (\<lambda>x.
     case x of None \<Rightarrow> Inr None | Some es \<Rightarrow> rbind (StringEdit_new es) (\<lambda>e. Inr (Some e)))"

definition BaseStringEdit_tryRebase ::
    "'t string_replacement_class \<Rightarrow> 't BaseEdit \<Rightarrow> StringReplacement BaseEdit \<Rightarrow>
       StringReplacement BaseEdit option result" where
  "BaseStringEdit_tryRebase S ed base = BaseStringEdit_tryRebase' S ed base True"

definition BaseStringEdit_rebaseSkipConflicting ::
    "'t string_replacement_class \<Rightarrow> 't BaseEdit \<Rightarrow> StringReplacement BaseEdit \<Rightarrow>
       StringReplacement BaseEdit option result" where
  "BaseStringEdit_rebaseSkipConflicting S ed base = BaseStringEdit_tryRebase' S ed base False"

text \<open>\<open>trySwap\<close>; the slice function pads with blanks (code unit 32).\<close>

definition BaseStringEdit_trySwap ::
    "StringReplacement BaseEdit \<Rightarrow> StringReplacement BaseEdit \<Rightarrow>
       (StringReplacement BaseEdit \<times> StringReplacement BaseEdit) option result" where
  "BaseStringEdit_trySwap e1 e2 =
     rbind (BaseStringEdit_inverseOnSlice StringReplacement_class e1 (\<lambda>s e. replicate (nat (e - s)) 32)) (\<lambda>e1Inv.
     rbind (BaseStringEdit_tryRebase StringReplacement_class e2 e1Inv) (\<lambda>x.
     case x of None \<Rightarrow> Inr None
     | Some e1' \<Rightarrow>
         rbind (BaseStringEdit_tryRebase StringReplacement_class e1 e1') (\<lambda>y.
         case y of None \<Rightarrow> Inr None | Some e2' \<Rightarrow> Inr (Some (e1', e2')))))"

definition BaseStringEdit_isNeutralOn :: "'t string_replacement_class \<Rightarrow> 't BaseEdit \<Rightarrow> text16 \<Rightarrow> bool" where
  "BaseStringEdit_isNeutralOn S ed t \<longleftrightarrow>
     list_all (\<lambda>r. BaseStringReplacement_isNeutralOn S r t) (replacements ed)"

definition BaseStringEdit_removeCommonSuffixPrefix ::
    "'t string_replacement_class \<Rightarrow> 't BaseEdit \<Rightarrow> text16 \<Rightarrow> StringReplacement BaseEdit result" where
  "BaseStringEdit_removeCommonSuffixPrefix S ed originalText =
     rbind (rmap (\<lambda>r. BaseStringReplacement_removeCommonSuffixPrefix S r originalText) (replacements ed)) (\<lambda>edits.
     StringEdit_new (filter (\<lambda>r. \<not> BaseReplacement_isEmpty StringEdit_base r) edits))"

definition BaseStringEdit_normalizeEOL ::
    "'t string_replacement_class \<Rightarrow> 't BaseEdit \<Rightarrow> text16 \<Rightarrow> StringReplacement BaseEdit result" where
  "BaseStringEdit_normalizeEOL S ed eol =
     StringEdit_new (List.map (\<lambda>r. BaseStringReplacement_normalizeEOL S r eol) (replacements ed))"

definition BaseStringEdit_normalizeOnSource ::
    "'t string_replacement_class \<Rightarrow> 't BaseEdit \<Rightarrow> text16 \<Rightarrow> StringReplacement BaseEdit result" where
  "BaseStringEdit_normalizeOnSource S ed source =
     (let res = BaseStringEdit_apply S ed source
      in rbind (OffsetRange_ofLength (int (length source))) (\<lambda>rg.
         rbind (BaseStringReplacement_removeCommonSuffixAndPrefix StringReplacement_class
                  (StringReplacement_replace rg res) source) (\<lambda>e.
         if BaseReplacement_isEmpty StringEdit_base e then Inr StringEdit_empty
         else BaseStringReplacement_toEdit e)))"

definition BaseStringEdit_removeCommonSuffixAndPrefix ::
    "'t string_replacement_class \<Rightarrow> 't BaseEdit \<Rightarrow> text16 \<Rightarrow> 't BaseEdit result" where
  "BaseStringEdit_removeCommonSuffixAndPrefix S ed source =
     rbind (rmap (\<lambda>r. BaseStringReplacement_removeCommonSuffixAndPrefix S r source) (replacements ed)) (\<lambda>rs.
     rbind (BaseEdit_new (base_class S) rs) (BaseEdit_normalize (base_class S)))"

definition BaseStringEdit_composeOrUndefined ::
    "'t replacement_class \<Rightarrow> 't BaseEdit list \<Rightarrow> 't BaseEdit option result" where
  "BaseStringEdit_composeOrUndefined C edits =
     (case edits of [] \<Rightarrow> Inr None
      | e # es \<Rightarrow> rbind (rfold (\<lambda>x acc. BaseEdit_compose C acc x) es e) (\<lambda>r. Inr (Some r)))"

definition StringEdit_compose :: "StringReplacement BaseEdit list \<Rightarrow> StringReplacement BaseEdit result" where
  "StringEdit_compose edits =
     (case edits of [] \<Rightarrow> Inr StringEdit_empty
      | e # es \<Rightarrow> rfold (\<lambda>x acc. BaseEdit_compose StringEdit_base acc x) es e)"

text \<open>The loop of \<open>composeSequentialReplacements\<close>: \<open>edit\<close> and the reverse sorted \<open>cur\<close>.\<close>

fun composeSequentialReplacements_loop ::
    "StringReplacement list \<Rightarrow> StringReplacement BaseEdit \<Rightarrow> StringReplacement list \<Rightarrow>
       StringReplacement BaseEdit result" where
  "composeSequentialReplacements_loop [] ed cur =
     rbind (StringEdit_new (rev cur)) (\<lambda>c. BaseEdit_compose StringEdit_base ed c)"
| "composeSequentialReplacements_loop (r # rs) ed cur =
     (if cur = [] \<or> OffsetRange_isBefore (sr_range r) (sr_range (last cur))
      then composeSequentialReplacements_loop rs ed (cur @ [r])
      else rbind (StringEdit_new (rev cur)) (\<lambda>c.
           rbind (BaseEdit_compose StringEdit_base ed c) (\<lambda>ed'.
           composeSequentialReplacements_loop rs ed' [r])))"

definition StringEdit_composeSequentialReplacements ::
    "StringReplacement list \<Rightarrow> StringReplacement BaseEdit result" where
  "StringEdit_composeSequentialReplacements rs = composeSequentialReplacements_loop rs StringEdit_empty []"

text \<open>
  \<open>applyEditsToRanges\<close>: the two collecting loops read the queue of ranges, and the ranges that
  intersect or touch the replaced range are pushed back, the last one first.
\<close>

fun ranges_before :: "OffsetRange \<Rightarrow> OffsetRange list \<Rightarrow> int \<Rightarrow> OffsetRange list \<Rightarrow> (OffsetRange list \<times> OffsetRange list) result" where
  "ranges_before e [] offset out = Inr ([], out)"
| "ranges_before e (r # rs) offset out =
     (if endExclusive r \<ge> start e then Inr (r # rs, out)
      else rbind (OffsetRange_delta r offset) (\<lambda>x. ranges_before e rs offset (out @ [x])))"

fun ranges_touching :: "OffsetRange \<Rightarrow> OffsetRange list \<Rightarrow> OffsetRange list \<Rightarrow> OffsetRange list \<times> OffsetRange list" where
  "ranges_touching e [] out = ([], out)"
| "ranges_touching e (r # rs) out =
     (if \<not> OffsetRange_intersectsOrTouches r e then (r # rs, out) else ranges_touching e rs (out @ [r]))"

text \<open>The range \<open>intersecting[i]\<close> after the edit, in the coordinates before it; \<open>first\<close> is \<open>i === 0\<close>.\<close>

definition range_after_edit :: "StringReplacement \<Rightarrow> bool \<Rightarrow> OffsetRange \<Rightarrow> OffsetRange result" where
  "range_after_edit e first r =
     rbind (OffsetRange_intersect r (sr_range e)) (\<lambda>x.
     case x of None \<Rightarrow> Inl JsTypeError
     | Some i \<Rightarrow>
         rbind (OffsetRange_deltaEnd r (- OffsetRange_length i + (if first then int (length (sr_newText e)) else 0))) (\<lambda>r1.
         let ahead = start r1 - start (sr_range e)
         in rbind (if ahead > 0 then OffsetRange_delta r1 (- ahead) else Inr r1) (\<lambda>r2.
            rbind (if \<not> first then OffsetRange_delta r2 (int (length (sr_newText e))) else Inr r2) (\<lambda>r3.
            OffsetRange_delta r3 (- (int (length (sr_newText e)) - OffsetRange_length (sr_range e)))))))"

text \<open>\<open>for (let i = intersecting.length - 1; i >= 0; i--)\<close> over the reversed array.\<close>

fun push_back :: "StringReplacement \<Rightarrow> OffsetRange list \<Rightarrow> OffsetRange list \<Rightarrow> OffsetRange list result" where
  "push_back e [] queue = Inr queue"
| "push_back e (r # rs) queue =
     rbind (range_after_edit e (rs = []) r) (\<lambda>x. push_back e rs (x # queue))"

fun applyEditsToRanges_loop ::
    "StringReplacement list \<Rightarrow> OffsetRange list \<Rightarrow> int \<Rightarrow> OffsetRange list \<Rightarrow> OffsetRange list result" where
  "applyEditsToRanges_loop [] ranges offset out =
     rbind (rmap (\<lambda>r. OffsetRange_delta r offset) ranges) (\<lambda>rs. Inr (out @ rs))"
| "applyEditsToRanges_loop (e # es) ranges offset out =
     rbind (ranges_before (sr_range e) ranges offset out) (\<lambda>(q, out').
     (case ranges_touching (sr_range e) q [] of (q', intersecting) \<Rightarrow>
        rbind (push_back e (rev intersecting) q') (\<lambda>q''.
        applyEditsToRanges_loop es q''
          (offset + (int (length (sr_newText e)) - OffsetRange_length (sr_range e))) out')))"

definition applyEditsToRanges :: "OffsetRange list \<Rightarrow> StringReplacement BaseEdit \<Rightarrow> OffsetRange list result" where
  "applyEditsToRanges ranges ed = applyEditsToRanges_loop (replacements ed) ranges 0 []"

text \<open>
  \<open>AnnotatedStringReplacement\<close>: the data of two joined replacements is what \<open>IEditData.join\<close> makes
  of them, a parameter.
\<close>

record 'd AnnotatedStringReplacement = StringReplacement +
  ann_data :: 'd

definition AnnotatedStringReplacement_equals ::
    "'d AnnotatedStringReplacement \<Rightarrow> 'd AnnotatedStringReplacement \<Rightarrow> bool" where
  "AnnotatedStringReplacement_equals r other \<longleftrightarrow>
     OffsetRange_equals (sr_range r) (sr_range other) \<and> sr_newText r = sr_newText other \<and>
     ann_data r = ann_data other"

definition AnnotatedStringReplacement_tryJoinTouching ::
    "('d \<Rightarrow> 'd \<Rightarrow> 'd option) \<Rightarrow> 'd AnnotatedStringReplacement \<Rightarrow> 'd AnnotatedStringReplacement \<Rightarrow>
       'd AnnotatedStringReplacement option result" where
  "AnnotatedStringReplacement_tryJoinTouching join r other =
     (case join (ann_data r) (ann_data other) of
        None \<Rightarrow> Inr None
      | Some joined \<Rightarrow>
          rbind (OffsetRange_joinRightTouching (sr_range r) (sr_range other)) (\<lambda>rg.
          Inr (Some \<lparr>sr_range = rg, sr_newText = sr_newText r @ sr_newText other, ann_data = joined\<rparr>)))"

definition AnnotatedStringReplacement_slice ::
    "'d AnnotatedStringReplacement \<Rightarrow> OffsetRange \<Rightarrow> OffsetRange option \<Rightarrow> 'd AnnotatedStringReplacement" where
  "AnnotatedStringReplacement_slice r rg w =
     \<lparr>sr_range = rg,
      sr_newText = (case w of Some x \<Rightarrow> OffsetRange_substring x (sr_newText r) | None \<Rightarrow> sr_newText r),
      ann_data = ann_data r\<rparr>"

definition AnnotatedStringReplacement_class ::
    "('d \<Rightarrow> 'd \<Rightarrow> 'd option) \<Rightarrow> 'd AnnotatedStringReplacement string_replacement_class" where
  "AnnotatedStringReplacement_class join =
     \<lparr>replaceRange = sr_range, getNewLength = (\<lambda>r. int (length (sr_newText r))),
      tryJoinTouching = AnnotatedStringReplacement_tryJoinTouching join,
      sliceReplacement = (\<lambda>r rg w. AnnotatedStringReplacement_slice r rg (Some w)),
      equalsReplacement = AnnotatedStringReplacement_equals, newText = sr_newText\<rparr>"

definition BaseStringEdit_mapData ::
    "('d \<Rightarrow> 'd \<Rightarrow> 'd option) \<Rightarrow> 't string_replacement_class \<Rightarrow> ('t \<Rightarrow> 'd) \<Rightarrow> 't BaseEdit \<Rightarrow>
       'd AnnotatedStringReplacement BaseEdit result" where
  "BaseStringEdit_mapData join S f ed =
     BaseEdit_new (base_class (AnnotatedStringReplacement_class join))
       (List.map (\<lambda>e. \<lparr>sr_range = replaceRange S e, sr_newText = newText S e, ann_data = f e\<rparr>) (replacements ed))"

definition AnnotatedStringEdit_toStringEdit ::
    "('d AnnotatedStringReplacement \<Rightarrow> bool) option \<Rightarrow> 'd AnnotatedStringReplacement BaseEdit \<Rightarrow>
       StringReplacement BaseEdit result" where
  "AnnotatedStringEdit_toStringEdit flt ed =
     StringEdit_new (List.map (\<lambda>r. \<lparr>sr_range = sr_range r, sr_newText = sr_newText r\<rparr>)
       (filter (\<lambda>r. case flt of None \<Rightarrow> True | Some f \<Rightarrow> f r) (replacements ed)))"

section \<open>The interface\<close>

lemma base_class_sel [simp]:
  "replaceRange (base_class S) = replaceRange S" "getNewLength (base_class S) = getNewLength S"
  "tryJoinTouching (base_class S) = tryJoinTouching S" "sliceReplacement (base_class S) = sliceReplacement S"
  by (simp_all add: replacement_class.truncate_def)

lemma StringReplacement_class_sel [simp]:
  "replaceRange StringReplacement_class = sr_range"
  "getNewLength StringReplacement_class = (\<lambda>r. int (length (sr_newText r)))"
  "newText StringReplacement_class = sr_newText"
  "sliceReplacement StringReplacement_class = (\<lambda>r rg w. StringReplacement_slice r rg (Some w))"
  "tryJoinTouching StringReplacement_class = StringReplacement_tryJoinTouching"
  by (simp_all add: StringReplacement_class_def)

interpretation string_repl: replacement StringEdit_base sr_newText "\<lambda>_. True"
proof unfold_locales
  fix a b assume "offset_wf (replaceRange StringEdit_base a)" "offset_wf (replaceRange StringEdit_base b)"
    "endExclusive (replaceRange StringEdit_base a) = start (replaceRange StringEdit_base b)"
  then show "\<exists>x. tryJoinTouching StringEdit_base a b = Inr x \<and>
      (case x of None \<Rightarrow> True
       | Some j \<Rightarrow> True \<and> replaceRange StringEdit_base j =
             mk_offset (start (replaceRange StringEdit_base a)) (endExclusive (replaceRange StringEdit_base b)) \<and>
           sr_newText j = sr_newText a @ sr_newText b)"
    by (simp add: StringReplacement_tryJoinTouching_def OffsetRange_joinRightTouching_def offset_wf_def)
qed (auto simp: StringReplacement_slice_def OffsetRange_substring_def js_substring_in)

text \<open>The edit lies within a text of the given length.\<close>

definition edit_within :: "'t replacement_class \<Rightarrow> 't BaseEdit \<Rightarrow> nat \<Rightarrow> bool" where
  "edit_within C ed n \<longleftrightarrow> fits (replaceRange C) 0 (int n) (replacements ed)"

lemma apply_loop_appl:
  "fits (replaceRange S) p (int (length base)) rs \<Longrightarrow> 0 \<le> p \<Longrightarrow>
     apply_loop S base rs p out = out @ appl (replaceRange S) (newText S) p rs (drop (nat p) base)"
proof (induction rs arbitrary: p out)
  case Nil
  then show ?case by (simp add: js_substring_from_in)
next
  case (Cons r rs)
  let ?s = "start (replaceRange S r)" and ?e = "endExclusive (replaceRange S r)"
  have r: "p \<le> ?s" "?s \<le> ?e" "fits (replaceRange S) ?e (int (length base)) rs" using Cons.prems by auto
  then have "?e \<le> int (length base)" using fits_le by blast
  then have "js_substring base p ?s = take (nat (?s - p)) (drop (nat p) base)"
    using r Cons.prems(2) by (simp add: js_substring_in)
  moreover have "drop (nat (?e - p)) (drop (nat p) base) = drop (nat ?e) base"
    using r Cons.prems(2) by (simp flip: nat_add_distrib)
  ultimately show ?case using Cons.IH [OF r(3)] r Cons.prems(2) by (simp del: drop_drop)
qed

lemma apply_appl:
  "edit_within (base_class S) ed (length s) \<Longrightarrow>
     BaseStringEdit_apply S ed s = appl (replaceRange S) (newText S) 0 (replacements ed) s"
  using apply_loop_appl [of S 0 s "replacements ed" "[]"] by (simp add: BaseStringEdit_apply_def edit_within_def)

abbreviation StringEdit_apply :: "StringReplacement BaseEdit \<Rightarrow> text16 \<Rightarrow> text16" where
  "StringEdit_apply \<equiv> BaseStringEdit_apply StringReplacement_class"

abbreviation string_edit_within :: "StringReplacement BaseEdit \<Rightarrow> nat \<Rightarrow> bool" where
  "string_edit_within \<equiv> edit_within StringEdit_base"

lemma string_apply:
  "string_edit_within ed (length s) \<Longrightarrow> StringEdit_apply ed s = appl sr_range sr_newText 0 (replacements ed) s"
  by (simp add: apply_appl)

lemma string_within: "string_edit_within ed n \<longleftrightarrow> fits sr_range 0 (int n) (replacements ed)"
  by (simp add: edit_within_def)

lemma StringEdit_new_ok: "fits sr_range 0 n rs \<Longrightarrow> StringEdit_new rs = Inr \<lparr>replacements = rs\<rparr>"
  using fits_check [of StringEdit_base 0 n rs "- 1"] by (simp add: StringEdit_new_def BaseEdit_new_def)

text \<open>Composition on strings.\<close>

lemma StringEdit_compose_correct:
  assumes "string_edit_within a (length s)" and "string_edit_within b (length (StringEdit_apply a s))"
  obtains c where "BaseEdit_compose StringEdit_base a b = Inr c" and "string_edit_within c (length s)"
    and "StringEdit_apply c s = StringEdit_apply b (StringEdit_apply a s)"
proof -
  note w = assms [unfolded string_within string_apply [OF assms(1)]]
  obtain c where c: "BaseEdit_compose StringEdit_base a b = Inr c"
    "fits sr_range 0 (int (length s)) (replacements c)"
    "appl sr_range sr_newText 0 (replacements c) s =
      appl sr_range sr_newText 0 (replacements b) (appl sr_range sr_newText 0 (replacements a) s)"
    using string_repl.compose_effect [of a s b] w by auto
  then have "string_edit_within c (length s)" by (simp add: string_within)
  with c assms show thesis by (intro that [OF c(1)]) (simp_all add: string_apply)
qed

section \<open>Inverse\<close>

lemma inverseOnSlice_loop_ok:
  assumes "fits (replaceRange S) p (int (length base)) rs" and "0 \<le> p"
  shows "\<exists>es. inverseOnSlice_loop S (\<lambda>s e. js_substring base s e) rs d = Inr es \<and>
    fits sr_range (p + d) (p + d + int (length (appl (replaceRange S) (newText S) p rs (drop (nat p) base)))) es \<and>
    appl sr_range sr_newText (p + d) es (appl (replaceRange S) (newText S) p rs (drop (nat p) base)) = drop (nat p) base"
proof -
  let ?es = "List.map (\<lambda>(g, t). StringReplacement_replace g t) (inverses (replaceRange S) (newText S) base rs d)"
  have "inverseOnSlice_loop S (\<lambda>s e. js_substring base s e) rs d = Inr ?es"
    using assms
  proof (induction rs arbitrary: p d)
    case (Cons r rs)
    then have r: "0 \<le> start (replaceRange S r)" "start (replaceRange S r) \<le> endExclusive (replaceRange S r)"
      "fits (replaceRange S) (endExclusive (replaceRange S r)) (int (length base)) rs" by auto
    then have "endExclusive (replaceRange S r) \<le> int (length base)" using fits_le by blast
    then show ?case using Cons.IH [OF r(3)] r by (simp add: OffsetRange_ofStartAndLength_def OffsetRange_length_def js_substring_in)
  qed simp
  then show ?thesis
    using inverses_effect [OF assms, of d "newText S"]
    by (simp add: appl_map fits_through StringReplacement_replace_def case_prod_unfold)
qed

lemma inverse_correct:
  assumes "edit_within (base_class S) ed (length s)"
  obtains inv where "BaseStringEdit_inverse S ed s = Inr inv"
    and "string_edit_within inv (length (BaseStringEdit_apply S ed s))"
    and "StringEdit_apply inv (BaseStringEdit_apply S ed s) = s"
proof -
  have fit: "fits (replaceRange S) 0 (int (length s)) (replacements ed)" using assms by (simp add: edit_within_def)
  obtain es where es: "inverseOnSlice_loop S (\<lambda>a b. js_substring s a b) (replacements ed) 0 = Inr es"
    "fits sr_range 0 (int (length (BaseStringEdit_apply S ed s))) es"
    "appl sr_range sr_newText 0 es (BaseStringEdit_apply S ed s) = s"
    using inverseOnSlice_loop_ok [OF fit, of 0] by (auto simp: apply_appl [OF assms])
  then have "BaseStringEdit_inverse S ed s = Inr \<lparr>replacements = es\<rparr>"
    by (simp add: BaseStringEdit_inverse_def BaseStringEdit_inverseOnSlice_def StringEdit_new_ok)
  moreover have within: "string_edit_within \<lparr>replacements = es\<rparr> (length (BaseStringEdit_apply S ed s))"
    using es(2) by (simp add: string_within)
  moreover have "StringEdit_apply \<lparr>replacements = es\<rparr> (BaseStringEdit_apply S ed s) = s"
    unfolding string_apply [OF within] using es(3) by simp
  ultimately show thesis by (rule that)
qed

section \<open>Rebasing\<close>

lemma fits_tagged: "fits rg p n (List.map snd m) \<Longrightarrow> fits rg p n (tagged t m)"
proof (induction m arbitrary: p)
  case (Cons x m)
  then have r: "p \<le> start (rg (snd x))" "start (rg (snd x)) \<le> endExclusive (rg (snd x))"
    "fits rg (endExclusive (rg (snd x))) n (tagged t m)" by auto
  from fits_mono [OF this(3), of p] this show ?case by (cases x) auto
qed simp

lemma fits_mem: "fits rg p n rs \<Longrightarrow> r \<in> set rs \<Longrightarrow> p \<le> start (rg r) \<and> start (rg r) \<le> endExclusive (rg r)"
  by (induction rs arbitrary: p) fastforce+

lemma tagged_mem: "r \<in> set (tagged t m) \<Longrightarrow> r \<in> set (List.map snd m)"
  by (auto simp: tagged_def)

text \<open>Of two replacements in order, the only conflict is two insertions at one place.\<close>

lemma rebase_conflict_ordered:
  assumes "start a \<le> endExclusive a" and "endExclusive a \<le> start b" and "start b \<le> endExclusive b"
  shows "rebase_conflict a b \<longleftrightarrow> areConcurrentInserts a b"
    and "rebase_conflict b a \<longleftrightarrow> areConcurrentInserts b a"
    and "areConcurrentInserts b a \<longleftrightarrow> areConcurrentInserts a b"
  using assms
  by (auto simp: rebase_conflict_def OffsetRange_intersects_def isInsertStrictlyInsideRange_def
      areConcurrentInserts_def OffsetRange_isEmpty_def Let_def)

definition no_concurrent :: "(bool \<times> StringReplacement) list \<Rightarrow> bool" where
  "no_concurrent m \<longleftrightarrow>
     (\<forall>a \<in> set (tagged True m). \<forall>b \<in> set (tagged False m). \<not> areConcurrentInserts (sr_range a) (sr_range b))"

lemma no_concurrent_swap: "no_concurrent (List.map (\<lambda>(t, r). (\<not> t, r)) m) = no_concurrent m"
proof -
  have "tagged t (List.map (\<lambda>(t, r). (\<not> t, r)) m) = tagged (\<not> t) m" for t
    by (induction m) auto
  moreover have "areConcurrentInserts a b \<longleftrightarrow> areConcurrentInserts b a" for a b
    by (auto simp: areConcurrentInserts_def)
  ultimately show ?thesis unfolding no_concurrent_def by (simp, blast)
qed

text \<open>If the first of the other edit is no concurrent insertion, none of its later ones is.\<close>

lemma not_concurrent_first:
  assumes "fits sr_range (endExclusive (sr_range r)) n (b # bs)" and "start (sr_range r) \<le> endExclusive (sr_range r)"
    and "\<not> areConcurrentInserts (sr_range r) (sr_range b)"
  shows "\<forall>x \<in> set (b # bs). \<not> areConcurrentInserts (sr_range r) (sr_range x) \<and> \<not> areConcurrentInserts (sr_range x) (sr_range r)"
proof -
  have "endExclusive (sr_range b) \<le> start (sr_range x)" if "x \<in> set bs" for x
    using fits_mem [of sr_range "endExclusive (sr_range b)" n bs x] assms(1) that by simp
  then show ?thesis
    using assms unfolding areConcurrentInserts_def OffsetRange_isEmpty_def by fastforce
qed

lemma slice_string [simp]:
  "n = int (length (sr_newText r)) \<Longrightarrow> StringReplacement_slice r rg (Some (mk_offset 0 n)) =
     \<lparr>sr_range = rg, sr_newText = sr_newText r\<rparr>"
  by (simp add: StringReplacement_slice_def OffsetRange_substring_def js_substring_in)

lemma tryRebase_merged:
  assumes "fits sr_range p n (List.map snd m)"
  shows "tryRebase_loop StringReplacement_class True (tagged True m) (tagged False m) d news =
    Inr (if no_concurrent m then Some (news @ rebased StringEdit_base m d) else None)"
  using assms
proof (induction m arbitrary: p d news)
  case (Cons x m)
  obtain t r where x: "x = (t, r)" by fastforce
  let ?e = "endExclusive (sr_range r)"
  have r: "start (sr_range r) \<le> ?e" "fits sr_range ?e n (List.map snd m)" using Cons.prems by (auto simp: x)
  note fits_tagged [OF r(2)]
  note fT = this [of True] and fF = this [of False]
  show ?case
  proof (cases t)
    case True
    let ?r = "\<lparr>sr_range = mk_offset (start (sr_range r) + d) (?e + d), sr_newText = sr_newText r\<rparr>"
    note IH = Cons.IH [OF r(2), of d "news @ [?r]"]
    have reb: "rebased StringEdit_base (x # m) d = ?r # rebased StringEdit_base m d"
      using True by (simp add: x)
    show ?thesis
    proof (cases "tagged False m")
      case Nil
      then have "no_concurrent (x # m)" "no_concurrent m" using True by (auto simp: no_concurrent_def x)
      then show ?thesis using IH True Nil r(1) reb by (simp add: x OffsetRange_delta_def)
    next
      case (Cons b bs)
      note fb = fF [unfolded Cons]
      then have b: "?e \<le> start (sr_range b)" "start (sr_range b) \<le> endExclusive (sr_range b)" by auto
      note conf = rebase_conflict_ordered(1) [OF r(1) b]
      show ?thesis
      proof (cases "areConcurrentInserts (sr_range r) (sr_range b)")
        case conc: True
        then have "\<not> no_concurrent (x # m)" using True Cons by (simp add: no_concurrent_def x)
        then show ?thesis using True Cons conc conf by (simp add: x)
      next
        case False
        have "start (sr_range r) < start (sr_range b) \<or>
            OffsetRange_isEmpty (sr_range r) \<and> start (sr_range r) = start (sr_range b)"
          using r(1) b(1) by (auto simp: OffsetRange_isEmpty_def)
        moreover have "no_concurrent (x # m) \<longleftrightarrow> no_concurrent m"
          using not_concurrent_first [OF fb r(1) False] True Cons by (simp add: no_concurrent_def x)
        ultimately show ?thesis using True Cons False conf IH reb r(1) by (simp add: x OffsetRange_delta_def)
      qed
    qed
  next
    case False
    define d' where "d' = d + (int (length (sr_newText r)) - OffsetRange_length (sr_range r))"
    note IH = Cons.IH [OF r(2), of d' news]
    have reb: "rebased StringEdit_base (x # m) d = rebased StringEdit_base m d'"
      using False by (simp add: x d'_def)
    show ?thesis
    proof (cases "tagged True m")
      case Nil
      then have "no_concurrent (x # m)" using False by (auto simp: no_concurrent_def x)
      moreover have "rebased StringEdit_base m d = []" for d
        using Nil by (induction m arbitrary: d) (auto split: if_splits)
      ultimately show ?thesis using False Nil reb by (simp add: x)
    next
      case (Cons a as)
      note fa = fT [unfolded Cons]
      then have a: "?e \<le> start (sr_range a)" "start (sr_range a) \<le> endExclusive (sr_range a)" by auto
      note conf = rebase_conflict_ordered(2,3) [OF r(1) a]
      show ?thesis
      proof (cases "areConcurrentInserts (sr_range r) (sr_range a)")
        case conc: True
        then have "\<not> no_concurrent (x # m)" using False Cons conf by (simp add: no_concurrent_def x)
        then show ?thesis using False Cons conc conf by (simp add: x)
      next
        case nconc: False
        have later: "\<not> (start (sr_range a) < start (sr_range r) \<or>
            OffsetRange_isEmpty (sr_range a) \<and> start (sr_range a) = start (sr_range r))"
          using r(1) a nconc by (auto simp: OffsetRange_isEmpty_def areConcurrentInserts_def)
        have nc: "no_concurrent (x # m) \<longleftrightarrow> no_concurrent m"
          using not_concurrent_first [OF fa r(1) nconc] False Cons by (simp add: no_concurrent_def x)
        have "\<not> rebase_conflict (sr_range a) (sr_range r)" using conf nconc by simp
        with later have step: "tryRebase_loop StringReplacement_class True (a # as) (r # tagged False m) d news =
            tryRebase_loop StringReplacement_class True (a # as) (tagged False m) d' news"
          by (simp only: tryRebase_loop.simps StringReplacement_class_sel if_False d'_def)
        have "tagged True (x # m) = a # as" "tagged False (x # m) = r # tagged False m"
          using Cons False by (simp_all add: x)
        then show ?thesis using IH unfolding nc reb Cons by (simp only: step)
      qed
    qed
  qed
qed (simp add: no_concurrent_def)

text \<open>A rebase that succeeds has merged the two edits into one sequence.\<close>

lemma tryRebase_merge:
  assumes "tryRebase_loop StringReplacement_class True ours base d news = Inr (Some out)"
    and "fits sr_range p n ours" and "fits sr_range p n base"
  shows "\<exists>m. tagged True m = ours \<and> tagged False m = base \<and> fits sr_range p n (List.map snd m)"
  using assms
proof (induction "length ours + length base" arbitrary: ours base p d news rule: less_induct)
  case less
  consider "ours = []" | a as where "ours = a # as" "base = []"
    | a as b bs where "ours = a # as" "base = b # bs" by (metis list.exhaust)
  then show ?case
  proof cases
    case 1
    have "tagged t (List.map (\<lambda>r. (False, r)) rs) = (if t then [] else rs)" for t and rs :: "StringReplacement list"
      by (induction rs) auto
    moreover have "List.map snd (List.map (\<lambda>r. (False, r)) base) = base" by (simp add: comp_def)
    ultimately show ?thesis using 1 less.prems(3) by (intro exI [of _ "List.map (\<lambda>r. (False, r)) base"]) simp
  next
    case 2
    have "tagged t (List.map (\<lambda>r. (True, r)) rs) = (if t then rs else [])" for t and rs :: "StringReplacement list"
      by (induction rs) auto
    moreover have "List.map snd (List.map (\<lambda>r. (True, r)) ours) = ours" by (simp add: comp_def)
    ultimately show ?thesis using 2 less.prems(2) by (intro exI [of _ "List.map (\<lambda>r. (True, r)) ours"]) simp
  next
    case 3
    have a: "p \<le> start (sr_range a)" "start (sr_range a) \<le> endExclusive (sr_range a)"
      "fits sr_range (endExclusive (sr_range a)) n as" using less.prems(2) 3 by auto
    have b: "p \<le> start (sr_range b)" "start (sr_range b) \<le> endExclusive (sr_range b)"
      "fits sr_range (endExclusive (sr_range b)) n bs" using less.prems(3) 3 by auto
    have nc: "\<not> rebase_conflict (sr_range a) (sr_range b)"
      using less.prems(1) 3 by (auto split: if_splits)
    let ?first = "start (sr_range a) < start (sr_range b) \<or>
        OffsetRange_isEmpty (sr_range a) \<and> start (sr_range a) = start (sr_range b)"
    show ?thesis
    proof (cases ?first)
      case True
      then have eb: "endExclusive (sr_range a) \<le> start (sr_range b)"
        using nc a b by (auto simp: rebase_conflict_def OffsetRange_intersects_def isInsertStrictlyInsideRange_def
            OffsetRange_isEmpty_def Let_def)
      obtain news' where "tryRebase_loop StringReplacement_class True as base d news' = Inr (Some out)"
        using less.prems(1) 3 nc True by (auto split: if_splits)
      from less.hyps [OF _ this a(3)] obtain m where m: "tagged True m = as" "tagged False m = base"
        "fits sr_range (endExclusive (sr_range a)) n (List.map snd m)" using 3 b eb by auto
      then show ?thesis using 3 a by (intro exI [of _ "(True, a) # m"]) simp
    next
      case False
      then have eo: "endExclusive (sr_range b) \<le> start (sr_range a)"
        using nc a b by (auto simp: rebase_conflict_def OffsetRange_intersects_def isInsertStrictlyInsideRange_def
            OffsetRange_isEmpty_def Let_def)
      obtain d' where "tryRebase_loop StringReplacement_class True ours bs d' news = Inr (Some out)"
        using less.prems(1) 3 nc False by (auto split: if_splits)
      from less.hyps [OF _ this _ b(3)] obtain m where m: "tagged True m = ours" "tagged False m = bs"
        "fits sr_range (endExclusive (sr_range b)) n (List.map snd m)" using 3 a eo by auto
      then show ?thesis using 3 b by (intro exI [of _ "(False, b) # m"]) simp
    qed
  qed
qed

text \<open>The two ways around a successful rebase meet.\<close>

lemma rebased_within:
  assumes "fits sr_range 0 (int (length s)) (List.map snd m)"
    and "string_edit_within b (length s)" and "replacements b = tagged False m"
  shows "string_edit_within \<lparr>replacements = rebased StringEdit_base m 0\<rparr> (length (StringEdit_apply b s))"
    and "StringEdit_apply \<lparr>replacements = rebased StringEdit_base m 0\<rparr> (StringEdit_apply b s) =
      appl sr_range sr_newText 0 (List.map snd m) s"
proof -
  have n: "int (length s) = 0 + int (length s)" by simp
  have v: "\<forall>x \<in> set m. True" by simp
  have m: "fits (replaceRange StringEdit_base) 0 (int (length s)) (List.map snd m)" using assms(1) by simp
  note eff = string_repl.rebased_effect(2,3) [OF v m n, where d = 0]
  show within: "string_edit_within \<lparr>replacements = rebased StringEdit_base m 0\<rparr> (length (StringEdit_apply b s))"
    using eff(1) by (simp add: string_within string_apply [OF assms(2)] assms(3))
  show "StringEdit_apply \<lparr>replacements = rebased StringEdit_base m 0\<rparr> (StringEdit_apply b s) =
      appl sr_range sr_newText 0 (List.map snd m) s"
    unfolding string_apply [OF within] using eff(2) by (simp add: string_apply [OF assms(2)] assms(3))
qed

lemma tryRebase_Some:
  assumes "BaseStringEdit_tryRebase StringReplacement_class a b = Inr (Some a')"
    and "fits sr_range 0 n (replacements a)" and "fits sr_range 0 n (replacements b)"
  obtains m where "replacements a = tagged True m" and "replacements b = tagged False m"
    and "fits sr_range 0 n (List.map snd m)" and "no_concurrent m"
    and "a' = \<lparr>replacements = rebased StringEdit_base m 0\<rparr>"
proof -
  obtain es where es: "tryRebase_loop StringReplacement_class True (replacements a) (replacements b) 0 [] = Inr (Some es)"
    "StringEdit_new es = Inr a'"
    using assms(1) by (auto simp: BaseStringEdit_tryRebase_def BaseStringEdit_tryRebase'_def split: option.splits)
  from tryRebase_merge [OF es(1) assms(2,3)] obtain m where m: "tagged True m = replacements a"
    "tagged False m = replacements b" "fits sr_range 0 n (List.map snd m)" by blast
  from tryRebase_merged [OF m(3), of 0 "[]"] es(1) have "no_concurrent m" "es = rebased StringEdit_base m 0"
    by (auto simp: m split: if_splits)
  moreover have "a' = \<lparr>replacements = es\<rparr>"
    using es(2) by (auto simp: StringEdit_new_def BaseEdit_new_def split: if_splits)
  ultimately show thesis using m by (intro that [of m]) simp_all
qed

lemma tryRebase_Inr:
  fixes s :: text16
  assumes "fits sr_range 0 (int (length s)) (List.map snd m)" and "no_concurrent m"
    and "replacements a = tagged True m" and "replacements b = tagged False m"
    and "string_edit_within b (length s)"
  shows "BaseStringEdit_tryRebase StringReplacement_class a b =
    Inr (Some \<lparr>replacements = rebased StringEdit_base m 0\<rparr>)"
proof -
  have "fits sr_range 0 (int (length (StringEdit_apply b s))) (rebased StringEdit_base m 0)"
    using rebased_within(1) [OF assms(1,5,4)] by (simp add: string_within)
  from StringEdit_new_ok [OF this] show ?thesis
    using tryRebase_merged [OF assms(1), of 0 "[]"] assms(2-4)
    by (simp add: BaseStringEdit_tryRebase_def BaseStringEdit_tryRebase'_def)
qed

lemma tagged_swap: "tagged t (List.map (\<lambda>(t, r). (\<not> t, r)) m) = tagged (\<not> t) m"
  by (induction m) auto

lemma snd_swap: "List.map snd (List.map (\<lambda>(t, r). (\<not> t, r)) m) = List.map snd m"
  by (simp add: comp_def case_prod_beta)

lemma tryRebase_diamond:
  assumes "string_edit_within a (length s)" and "string_edit_within b (length s)"
    and "BaseStringEdit_tryRebase StringReplacement_class a b = Inr (Some a')"
  obtains b' where "BaseStringEdit_tryRebase StringReplacement_class b a = Inr (Some b')"
    and "string_edit_within a' (length (StringEdit_apply b s))"
    and "string_edit_within b' (length (StringEdit_apply a s))"
    and "StringEdit_apply a' (StringEdit_apply b s) = StringEdit_apply b' (StringEdit_apply a s)"
proof -
  obtain m where m: "replacements a = tagged True m" "replacements b = tagged False m"
    "fits sr_range 0 (int (length s)) (List.map snd m)" "no_concurrent m"
    "a' = \<lparr>replacements = rebased StringEdit_base m 0\<rparr>"
    by (rule tryRebase_Some [OF assms(3) assms(1,2) [unfolded string_within]])
  let ?m = "List.map (\<lambda>(t, r). (\<not> t, r)) m"
  let ?b = "\<lparr>replacements = rebased StringEdit_base ?m 0\<rparr>"
  have m': "fits sr_range 0 (int (length s)) (List.map snd ?m)" "no_concurrent ?m"
    "replacements b = tagged True ?m" "replacements a = tagged False ?m"
    using m by (simp_all only: snd_swap no_concurrent_swap tagged_swap not_True_eq_False not_False_eq_True)
  have "BaseStringEdit_tryRebase StringReplacement_class b a = Inr (Some ?b)"
    by (rule tryRebase_Inr [OF m'(1,2,3,4) assms(1)])
  moreover note rebased_within [OF m(3) assms(2) m(2), folded m(5)] rebased_within [OF m'(1) assms(1) m'(4), unfolded snd_swap]
  ultimately show thesis using that by simp
qed

section \<open>Swapping\<close>

lemma unmerge:
  assumes "inverseOnSlice_loop StringReplacement_class (\<lambda>s e. replicate (nat (e - s)) 32) es d = Inr (tagged False m)"
    and "fits sr_range (p + d) n (List.map snd m)" and "\<forall>r \<in> set es. start (sr_range r) \<le> endExclusive (sr_range r)"
  shows "\<exists>k. tagged True k = es \<and> tagged False k = rebased StringEdit_base m (- d) \<and>
    fits sr_range p (n - d - delta_sum sr_range sr_newText es) (List.map snd k) \<and>
    rebased StringEdit_base (List.map (\<lambda>(t, r). (\<not> t, r)) k) d = tagged True m"
  using assms
proof (induction m arbitrary: es d p)
  case Nil
  then show ?case by (cases es) (auto intro!: exI [of _ "[]"])
next
  case (Cons x m)
  obtain t r where x: "x = (t, r)" by fastforce
  have r: "p + d \<le> start (sr_range r)" "start (sr_range r) \<le> endExclusive (sr_range r)"
    "fits sr_range (endExclusive (sr_range r)) n (List.map snd m)" using Cons.prems(2) by (auto simp: x)
  show ?case
  proof (cases t)
    case True
    let ?r = "\<lparr>sr_range = mk_offset (start (sr_range r) - d) (endExclusive (sr_range r) - d), sr_newText = sr_newText r\<rparr>"
    have "inverseOnSlice_loop StringReplacement_class (\<lambda>s e. replicate (nat (e - s)) 32) es d = Inr (tagged False m)"
      using Cons.prems(1) True by (simp add: x)
    from Cons.IH [OF this, of "endExclusive (sr_range r) - d"] r(3) Cons.prems(3) obtain k where k:
      "tagged True k = es" "tagged False k = rebased StringEdit_base m (- d)"
      "fits sr_range (endExclusive (sr_range r) - d) (n - d - delta_sum sr_range sr_newText es) (List.map snd k)"
      "rebased StringEdit_base (List.map (\<lambda>(t, r). (\<not> t, r)) k) d = tagged True m" by auto
    with True r show ?thesis by (intro exI [of _ "(False, ?r) # k"]) (simp add: x)
  next
    case False
    obtain e es' where es: "es = e # es'" using Cons.prems(1) False by (cases es) (auto simp: x)
    define d' where "d' = d + (int (length (sr_newText e)) - OffsetRange_length (sr_range e))"
    have e: "start (sr_range e) \<le> endExclusive (sr_range e)" using Cons.prems(3) es by simp
    have inv: "r = StringReplacement_replace
        (mk_offset (start (sr_range e) + d) (start (sr_range e) + d + int (length (sr_newText e))))
        (replicate (nat (endExclusive (sr_range e) - start (sr_range e))) 32)"
      "inverseOnSlice_loop StringReplacement_class (\<lambda>s e. replicate (nat (e - s)) 32) es' d' = Inr (tagged False m)"
      using Cons.prems(1) False
      by (auto simp: x es d'_def OffsetRange_ofStartAndLength_def rbind_Inr_iff)
    have e': "endExclusive (sr_range r) = endExclusive (sr_range e) + d'"
      by (simp add: inv(1) StringReplacement_replace_def d'_def OffsetRange_length_def)
    from Cons.IH [OF inv(2), of "endExclusive (sr_range e)"] r(3) Cons.prems(3) obtain k where k:
      "tagged True k = es'" "tagged False k = rebased StringEdit_base m (- d')"
      "fits sr_range (endExclusive (sr_range e)) (n - d' - delta_sum sr_range sr_newText es') (List.map snd k)"
      "rebased StringEdit_base (List.map (\<lambda>(t, r). (\<not> t, r)) k) d' = tagged True m"
      by (auto simp: e' es)
    have pe: "p \<le> start (sr_range e)" using r(1) by (simp add: inv(1) StringReplacement_replace_def)
    have bound: "n - d - delta_sum sr_range sr_newText es = n - d' - delta_sum sr_range sr_newText es'"
      by (simp add: es d'_def OffsetRange_length_def)
    have "fits sr_range p (n - d - delta_sum sr_range sr_newText es) (List.map snd ((True, e) # k))"
      unfolding bound using k(3) pe e by simp
    moreover have "rebased StringEdit_base (x # m) (- d) = rebased StringEdit_base m (- d')"
      using False e by (simp add: x inv(1) StringReplacement_replace_def d'_def OffsetRange_length_def)
    moreover have "tagged True ((True, e) # k) = es" "tagged False ((True, e) # k) = rebased StringEdit_base m (- d')"
      "tagged True (x # m) = tagged True m" using k(1,2) es False by (simp_all add: x)
    moreover have "rebased StringEdit_base (List.map (\<lambda>(t, r). (\<not> t, r)) ((True, e) # k)) d = tagged True m"
      using k(4) by (simp add: d'_def)
    ultimately show ?thesis by metis
  qed
qed

lemma fits_map: "fits rg p n rs \<longleftrightarrow> fits (\<lambda>x. x) p n (List.map rg rs)"
  by (induction rs arbitrary: p) auto

lemma inverse_slices_fit:
  assumes "fits (replaceRange S) p (int (length base)) rs" and "0 \<le> p"
    and "inverseOnSlice_loop S f rs d = Inr es"
  shows "fits sr_range (p + d) (p + d + int (length (appl (replaceRange S) (newText S) p rs (drop (nat p) base)))) es"
proof -
  obtain es' where es': "inverseOnSlice_loop S (\<lambda>a b. js_substring base a b) rs d = Inr es'"
    "fits sr_range (p + d) (p + d + int (length (appl (replaceRange S) (newText S) p rs (drop (nat p) base)))) es'"
    using inverseOnSlice_loop_ok [OF assms(1,2), of d] by blast
  have "List.map sr_range es = List.map sr_range es'"
    using assms(3) es'(1)
  proof (induction rs arbitrary: d es es')
    case (Cons r rs)
    let ?d = "d + (int (length (newText S r)) - OffsetRange_length (replaceRange S r))"
    from Cons.prems(1) obtain g xs where a: "inverseOnSlice_loop S f rs ?d = Inr xs"
      "OffsetRange_ofStartAndLength (start (replaceRange S r) + d) (int (length (newText S r))) = Inr g"
      "List.map sr_range es = g # List.map sr_range xs" by (auto simp: StringReplacement_replace_def)
    from Cons.prems(2) a(2) obtain xs' where "inverseOnSlice_loop S (\<lambda>a b. js_substring base a b) rs ?d = Inr xs'"
      "List.map sr_range es' = g # List.map sr_range xs'" by (auto simp: StringReplacement_replace_def)
    with Cons.IH [OF a(1)] a(3) show ?case by simp
  qed simp
  then show ?thesis using es'(2) by (metis fits_map)
qed

lemma trySwap_correct:
  assumes "string_edit_within a (length s)" and "string_edit_within b (length (StringEdit_apply a s))"
    and "BaseStringEdit_trySwap a b = Inr (Some (b', a'))"
  shows "string_edit_within b' (length s)" and "string_edit_within a' (length (StringEdit_apply b' s))"
    and "StringEdit_apply a' (StringEdit_apply b' s) = StringEdit_apply b (StringEdit_apply a s)"
proof -
  obtain inv where inv: "BaseStringEdit_inverseOnSlice StringReplacement_class a (\<lambda>s e. replicate (nat (e - s)) 32) = Inr inv"
    "BaseStringEdit_tryRebase StringReplacement_class b inv = Inr (Some b')"
    "BaseStringEdit_tryRebase StringReplacement_class a b' = Inr (Some a')"
    using assms(3) by (auto simp: BaseStringEdit_trySwap_def split: option.splits)
  obtain es where es: "inverseOnSlice_loop StringReplacement_class (\<lambda>s e. replicate (nat (e - s)) 32) (replacements a) 0 = Inr es"
    "StringEdit_new es = Inr inv"
    using inv(1) by (auto simp: BaseStringEdit_inverseOnSlice_def)
  have inv_es: "replacements inv = es" using es(2) by (auto simp: StringEdit_new_def BaseEdit_new_def split: if_splits)
  have fa: "fits sr_range 0 (int (length s)) (replacements a)" using assms(1) by (simp add: string_within)
  have wf: "\<forall>r \<in> set (replacements a). start (sr_range r) \<le> endExclusive (sr_range r)" using fits_mem [OF fa] by blast
  let ?n = "int (length (StringEdit_apply a s))"
  have n: "?n = int (length s) + delta_sum sr_range sr_newText (replacements a)"
    unfolding string_apply [OF assms(1)] by (rule length_appl [OF fa]) simp
  have fb: "fits sr_range 0 ?n (replacements b)" using assms(2) by (simp add: string_within)
  have finv: "fits sr_range 0 ?n es"
  proof -
    have "fits sr_range (0 + 0) (0 + 0 + int (length (appl sr_range sr_newText 0 (replacements a) (drop (nat 0) s)))) es"
      if "inverseOnSlice_loop StringReplacement_class (\<lambda>s e. replicate (nat (e - s)) 32) (replacements a) 0 = Inr es" for es
      using inverse_slices_fit [of StringReplacement_class 0 s "replacements a" "\<lambda>s e. replicate (nat (e - s)) 32" 0 es] fa that
      by simp
    from this [OF es(1)] show ?thesis by (simp add: string_apply [OF assms(1)])
  qed
  obtain m where m: "replacements b = tagged True m" "replacements inv = tagged False m"
    "fits sr_range 0 ?n (List.map snd m)" "no_concurrent m" "b' = \<lparr>replacements = rebased StringEdit_base m 0\<rparr>"
    by (rule tryRebase_Some [OF inv(2) fb finv [folded inv_es]])
  have "inverseOnSlice_loop StringReplacement_class (\<lambda>s e. replicate (nat (e - s)) 32) (replacements a) 0 = Inr (tagged False m)"
    using es(1) inv_es m(2) by simp
  from unmerge [OF this _ wf, of 0 ?n] m(3) obtain k where k: "tagged True k = replacements a"
    "tagged False k = replacements b'" "fits sr_range 0 (int (length s)) (List.map snd k)"
    "rebased StringEdit_base (List.map (\<lambda>(t, r). (\<not> t, r)) k) 0 = replacements b"
    using n m(1,5) by auto
  have "fits sr_range 0 (int (length s)) (replacements b')" using fits_tagged [OF k(3), of False] by (simp add: k(2))
  then show wb: "string_edit_within b' (length s)" by (simp add: string_within)
  have "BaseStringEdit_tryRebase StringReplacement_class a b' = Inr (Some \<lparr>replacements = rebased StringEdit_base k 0\<rparr>)"
  proof -
    obtain es' where "tryRebase_loop StringReplacement_class True (replacements a) (replacements b') 0 [] = Inr (Some es')"
      using inv(3) by (auto simp: BaseStringEdit_tryRebase_def BaseStringEdit_tryRebase'_def split: option.splits)
    with tryRebase_merged [OF k(3), of 0 "[]"] have "no_concurrent k" by (auto simp: k(1,2) split: if_splits)
    then show ?thesis by (rule tryRebase_Inr [OF k(3) _ k(1,2) [symmetric] wb])
  qed
  then have a': "a' = \<lparr>replacements = rebased StringEdit_base k 0\<rparr>" using inv(3) by simp
  note first = rebased_within [OF k(3) wb k(2) [symmetric], folded a']
  let ?k = "List.map (\<lambda>(t, r). (\<not> t, r)) k"
  have k': "fits sr_range 0 (int (length s)) (List.map snd ?k)" "replacements a = tagged False ?k"
    using k(1,3) by (simp_all only: snd_swap tagged_swap not_False_eq_True)
  have b: "\<lparr>replacements = rebased StringEdit_base ?k 0\<rparr> = b" using k(4) by simp
  note second = rebased_within [OF k'(1) assms(1) k'(2), unfolded b snd_swap]
  show "string_edit_within a' (length (StringEdit_apply b' s))" by (rule first(1))
  show "StringEdit_apply a' (StringEdit_apply b' s) = StringEdit_apply b (StringEdit_apply a s)"
    using first(2) second(2) by simp
qed

section \<open>Sequential replacements\<close>

text \<open>Applying replacements one after the other, each within the text it is applied to.\<close>

abbreviation replace_one :: "StringReplacement \<Rightarrow> text16 \<Rightarrow> text16" where
  "replace_one r s \<equiv> BaseStringReplacement_replace StringReplacement_class r s"

fun sequence_within :: "StringReplacement list \<Rightarrow> text16 \<Rightarrow> bool" where
  "sequence_within [] s = True"
| "sequence_within (r # rs) s \<longleftrightarrow>
     0 \<le> start (sr_range r) \<and> start (sr_range r) \<le> endExclusive (sr_range r) \<and>
     endExclusive (sr_range r) \<le> int (length s) \<and> sequence_within rs (replace_one r s)"

lemma replace_one_cons:
  assumes "fits sr_range 0 (int (length s)) (r # rs)"
  shows "appl sr_range sr_newText 0 (r # rs) s = replace_one r (appl sr_range sr_newText 0 rs s)"
proof -
  let ?s = "start (sr_range r)" and ?e = "endExclusive (sr_range r)"
  have r: "0 \<le> ?s" "?s \<le> ?e" "fits sr_range ?e (int (length s)) rs" using assms by auto
  have en: "?e \<le> int (length s)" using fits_le [OF r(3)] .
  let ?w = "appl sr_range sr_newText ?e rs (drop (nat ?e) s)"
  have split: "appl sr_range sr_newText 0 rs s = take (nat ?e) s @ ?w"
    using appl_split [OF r(3), of 0 s sr_newText] r en by simp
  have len: "length (take (nat ?e) s) = nat ?e" using en by simp
  have "js_substring (take (nat ?e) s @ ?w) 0 ?s = take (nat ?s) s"
    using r en by (simp add: js_substring_in min_def nat_le_iff)
  moreover have "js_substring_from (take (nat ?e) s @ ?w) ?e = ?w"
    using r en len by (simp add: js_substring_from_in)
  ultimately show ?thesis
    unfolding split by (simp add: BaseStringReplacement_replace_def)
qed

lemma composeSequentialReplacements_loop_ok:
  assumes "string_edit_within ed (length s)" and "t = StringEdit_apply ed s"
    and "fits sr_range 0 (int (length t)) (rev cur)"
    and "sequence_within rs (appl sr_range sr_newText 0 (rev cur) t)"
  shows "\<exists>c. composeSequentialReplacements_loop rs ed cur = Inr c \<and> string_edit_within c (length s) \<and>
    StringEdit_apply c s = foldl (\<lambda>x r. replace_one r x) (appl sr_range sr_newText 0 (rev cur) t) rs"
  using assms
proof (induction rs arbitrary: ed cur t)
  case Nil
  have new: "StringEdit_new (rev cur) = Inr \<lparr>replacements = rev cur\<rparr>" by (rule StringEdit_new_ok [OF Nil.prems(3)])
  have within: "string_edit_within \<lparr>replacements = rev cur\<rparr> (length (StringEdit_apply ed s))"
    using Nil.prems(2,3) by (simp add: string_within)
  obtain c where "BaseEdit_compose StringEdit_base ed \<lparr>replacements = rev cur\<rparr> = Inr c" "string_edit_within c (length s)"
    "StringEdit_apply c s = StringEdit_apply \<lparr>replacements = rev cur\<rparr> (StringEdit_apply ed s)"
    by (rule StringEdit_compose_correct [OF Nil.prems(1) within])
  then show ?case using new Nil.prems(2) by (simp add: string_apply [OF within])
next
  case (Cons r rs)
  let ?t = "appl sr_range sr_newText 0 (rev cur) t"
  have r: "0 \<le> start (sr_range r)" "start (sr_range r) \<le> endExclusive (sr_range r)"
    "endExclusive (sr_range r) \<le> int (length ?t)" "sequence_within rs (replace_one r ?t)"
    using Cons.prems(4) by auto
  show ?case
  proof (cases "cur = [] \<or> OffsetRange_isBefore (sr_range r) (sr_range (last cur))")
    case True
    have f: "fits sr_range 0 (int (length t)) (rev (cur @ [r]))"
      using True r Cons.prems(3) by (cases cur rule: rev_cases) (auto simp: OffsetRange_isBefore_def)
    have "appl sr_range sr_newText 0 (rev (cur @ [r])) t = replace_one r ?t"
      using replace_one_cons [of t r "rev cur"] f by simp
    with Cons.IH [OF Cons.prems(1,2) f] r(4) True show ?thesis by simp
  next
    case False
    have new: "StringEdit_new (rev cur) = Inr \<lparr>replacements = rev cur\<rparr>" by (rule StringEdit_new_ok [OF Cons.prems(3)])
    have within: "string_edit_within \<lparr>replacements = rev cur\<rparr> (length (StringEdit_apply ed s))"
      using Cons.prems(2,3) by (simp add: string_within)
    obtain c where c: "BaseEdit_compose StringEdit_base ed \<lparr>replacements = rev cur\<rparr> = Inr c" "string_edit_within c (length s)"
      "StringEdit_apply c s = StringEdit_apply \<lparr>replacements = rev cur\<rparr> (StringEdit_apply ed s)"
      by (rule StringEdit_compose_correct [OF Cons.prems(1) within])
    then have ct: "?t = StringEdit_apply c s" using Cons.prems(2) by (simp add: string_apply [OF within])
    have f: "fits sr_range 0 (int (length ?t)) (rev [r])" using r by simp
    have one: "appl sr_range sr_newText 0 (rev [r]) ?t = replace_one r ?t"
      using replace_one_cons [of ?t r "[]"] f by simp
    from Cons.IH [OF c(2) ct f] r(4) have "\<exists>d. composeSequentialReplacements_loop rs c [r] = Inr d \<and> string_edit_within d (length s) \<and>
      StringEdit_apply d s = foldl (\<lambda>x r. replace_one r x) (replace_one r ?t) rs" unfolding one by simp
    with False new c(1) show ?thesis by simp
  qed
qed

section \<open>Common prefixes and suffixes\<close>

lemma first_diff_spec:
  "i \<le> len \<Longrightarrow> i \<le> first_diff same len i \<and> first_diff same len i \<le> len \<and>
     (\<forall>k. i \<le> k \<and> k < first_diff same len i \<longrightarrow> same k) \<and>
     (first_diff same len i < len \<longrightarrow> \<not> same (first_diff same len i))"
proof (induction same len i rule: first_diff.induct)
  case (1 same len i)
  show ?case
  proof (cases "i < len \<and> same i")
    case True
    then have "first_diff same len i = first_diff same len (i + 1)" by (simp add: first_diff.simps [of same len i])
    moreover have "same k" if "i \<le> k" "k < first_diff same len (i + 1)" for k
      using that 1 True by (cases "k = i") auto
    ultimately show ?thesis using 1 True by auto
  next
    case False
    then have "first_diff same len i = i" using "1.prems" by (subst first_diff.simps) auto
    with False "1.prems" show ?thesis by (metis order.refl order.strict_trans1 not_less order_less_irrefl)
  qed
qed

lemma commonPrefixLength_spec:
  obtains k where "commonPrefixLength a b = int k" and "k \<le> length a" and "k \<le> length b" and "take k a = take k b"
proof -
  let ?k = "first_diff (\<lambda>i. a ! i = b ! i) (min (length a) (length b)) 0"
  have "?k \<le> length a" "?k \<le> length b" "\<forall>i < ?k. a ! i = b ! i"
    using first_diff_spec [of 0 "min (length a) (length b)" "\<lambda>i. a ! i = b ! i"] by auto
  then have "take ?k a = take ?k b" by (auto intro!: nth_equalityI)
  then show thesis using that \<open>?k \<le> length a\<close> \<open>?k \<le> length b\<close> by (simp add: commonPrefixLength_def)
qed

lemma commonSuffixLength_spec:
  obtains k where "commonSuffixLength a b = int k" and "k \<le> length a" and "k \<le> length b"
    and "drop (length a - k) a = drop (length b - k) b"
proof -
  define p where "p i \<longleftrightarrow> a ! (length a - 1 - i) = b ! (length b - 1 - i)" for i
  define k where "k = first_diff p (min (length a) (length b)) 0"
  have k: "k \<le> length a" "k \<le> length b" "\<And>i. i < k \<Longrightarrow> p i"
    using first_diff_spec [of 0 "min (length a) (length b)" p] by (auto simp: k_def)
  have "drop (length a - k) a = drop (length b - k) b"
  proof (rule nth_equalityI)
    show "length (drop (length a - k) a) = length (drop (length b - k) b)" using k by simp
    fix i assume "i < length (drop (length a - k) a)"
    then have i: "i < k" using k by simp
    have "length a - 1 - (k - 1 - i) = length a - k + i" "length b - 1 - (k - 1 - i) = length b - k + i"
      using i k(1,2) by auto
    moreover have "p (k - 1 - i)" using k(3) [of "k - 1 - i"] i by simp
    ultimately show "drop (length a - k) a ! i = drop (length b - k) b ! i" by (simp add: p_def)
  qed
  moreover have "commonSuffixLength a b = int k" by (simp add: commonSuffixLength_def k_def p_def [abs_def])
  ultimately show thesis using that k by simp
qed

definition replacement_within :: "StringReplacement \<Rightarrow> nat \<Rightarrow> bool" where
  "replacement_within r n \<longleftrightarrow>
     0 \<le> start (sr_range r) \<and> start (sr_range r) \<le> endExclusive (sr_range r) \<and> endExclusive (sr_range r) \<le> int n"

lemma replace_one_in:
  "replacement_within r (length s) \<Longrightarrow>
     replace_one r s = take (nat (start (sr_range r))) s @ sr_newText r @ drop (nat (endExclusive (sr_range r))) s"
  by (simp add: BaseStringReplacement_replace_def replacement_within_def js_substring_in js_substring_from_in)

lemma slice_segment:
  "0 \<le> a \<Longrightarrow> a \<le> b \<Longrightarrow> b \<le> int (length (sr_newText r)) \<Longrightarrow>
     StringReplacement_slice r rg (Some (mk_offset a b)) =
       \<lparr>sr_range = rg, sr_newText = take (nat (b - a)) (drop (nat a) (sr_newText r))\<rparr>"
  by (simp add: StringReplacement_slice_def OffsetRange_substring_def js_substring_in)

lemma removeCommonSuffix_ok:
  assumes "replacement_within r (length s)"
  obtains r' where "BaseStringReplacement_removeCommonSuffix StringReplacement_class r s = Inr r'"
    and "replacement_within r' (length s)" and "replace_one r' s = replace_one r s"
proof -
  let ?s = "start (sr_range r)" and ?e = "endExclusive (sr_range r)"
  have w: "0 \<le> ?s" "?s \<le> ?e" "?e \<le> int (length s)" using assms by (simp_all add: replacement_within_def)
  define old where "old = take (nat (?e - ?s)) (drop (nat ?s) s)"
  have old: "OffsetRange_substring (sr_range r) s = old" "length old = nat (?e - ?s)"
    using w by (simp_all add: OffsetRange_substring_def js_substring_in old_def)
  obtain k where k: "commonSuffixLength old (sr_newText r) = int k" "k \<le> length old" "k \<le> length (sr_newText r)"
    "drop (length old - k) old = drop (length (sr_newText r) - k) (sr_newText r)"
    by (rule commonSuffixLength_spec)
  show thesis
  proof (cases "k = 0")
    case True
    then show thesis using that [OF _ assms] k(1) by (simp add: BaseStringReplacement_removeCommonSuffix_def old)
  next
    case False
    let ?r = "\<lparr>sr_range = mk_offset ?s (?e - int k), sr_newText = take (length (sr_newText r) - k) (sr_newText r)\<rparr>"
    have run: "BaseStringReplacement_removeCommonSuffix StringReplacement_class r s = Inr ?r"
      using False k(1-3) w old(2)
      by (simp add: BaseStringReplacement_removeCommonSuffix_def old(1) OffsetRange_deltaEnd_def Let_def
          slice_segment nat_diff_distrib)
    have within: "replacement_within ?r (length s)" using k(2) w old(2) by (simp add: replacement_within_def)
    have "drop (length old - k) old = take k (drop (nat (?e - int k)) s)"
    proof -
      have e: "nat ?s + (length old - k) = nat (?e - int k)" "length old - (length old - k) = k"
        using k(2) old(2) w by auto
      have "drop m old = take (length old - m) (drop (nat ?s + m) s)" for m
        unfolding old(2) by (simp add: old_def drop_take add.commute)
      from this [of "length old - k"] show ?thesis by (simp only: e)
    qed
    moreover have "take k (drop (nat (?e - int k)) s) @ drop (nat ?e) s = drop (nat (?e - int k)) s"
    proof -
      have "nat ?e = k + nat (?e - int k)" using k(2) old(2) w by simp
      then show ?thesis by (metis append_take_drop_id drop_drop)
    qed
    ultimately have "sr_newText r @ drop (nat ?e) s =
        take (length (sr_newText r) - k) (sr_newText r) @ drop (nat (?e - int k)) s"
      using k(4) by (metis append_assoc append_take_drop_id)
    then show thesis
      using that [OF run within] by (simp add: replace_one_in [OF within] replace_one_in [OF assms])
  qed
qed

lemma removeCommonPrefix_ok:
  assumes "replacement_within r (length s)"
  obtains r' where "BaseStringReplacement_removeCommonPrefix StringReplacement_class r s = Inr r'"
    and "replacement_within r' (length s)" and "replace_one r' s = replace_one r s"
proof -
  let ?s = "start (sr_range r)" and ?e = "endExclusive (sr_range r)"
  have w: "0 \<le> ?s" "?s \<le> ?e" "?e \<le> int (length s)" using assms by (simp_all add: replacement_within_def)
  define old where "old = take (nat (?e - ?s)) (drop (nat ?s) s)"
  have old: "OffsetRange_substring (sr_range r) s = old" "length old = nat (?e - ?s)"
    using w by (simp_all add: OffsetRange_substring_def js_substring_in old_def)
  obtain k where k: "commonPrefixLength old (sr_newText r) = int k" "k \<le> length old" "k \<le> length (sr_newText r)"
    "take k old = take k (sr_newText r)"
    by (rule commonPrefixLength_spec)
  show thesis
  proof (cases "k = 0")
    case True
    then show thesis using that [OF _ assms] k(1) by (simp add: BaseStringReplacement_removeCommonPrefix_def old)
  next
    case False
    let ?r = "\<lparr>sr_range = mk_offset (?s + int k) ?e, sr_newText = drop k (sr_newText r)\<rparr>"
    have run: "BaseStringReplacement_removeCommonPrefix StringReplacement_class r s = Inr ?r"
      using False k(1-3) w old(2)
      by (simp add: BaseStringReplacement_removeCommonPrefix_def old(1) OffsetRange_deltaStart_def Let_def
          slice_segment)
    have within: "replacement_within ?r (length s)" using k(2) w old(2) by (simp add: replacement_within_def)
    have "take k old = take k (drop (nat ?s) s)"
      using k(2) unfolding old(2) by (simp add: old_def min_def)
    moreover have "take (nat ?s) s @ take k (drop (nat ?s) s) = take (nat (?s + int k)) s"
      using w by (simp add: nat_add_distrib take_add)
    ultimately have "take (nat ?s) s @ sr_newText r = take (nat (?s + int k)) s @ drop k (sr_newText r)"
      using k(4) by (metis append_assoc append_take_drop_id)
    then show thesis
      using that [OF run within] by (simp add: replace_one_in [OF within] replace_one_in [OF assms] flip: append_assoc)
  qed
qed

lemma normalizeOnSource_ok:
  assumes "StringEdit_apply ed s = t"
  obtains ed' where "BaseStringEdit_normalizeOnSource StringReplacement_class ed s = Inr ed'"
    and "string_edit_within ed' (length s)" and "StringEdit_apply ed' s = t"
    and "length (replacements ed') \<le> 1"
proof -
  let ?r = "\<lparr>sr_range = mk_offset 0 (int (length s)), sr_newText = t\<rparr>"
  have r: "replacement_within ?r (length s)" by (simp add: replacement_within_def)
  have rt: "replace_one ?r s = t" by (simp add: replace_one_in [OF r])
  obtain r1 where r1: "BaseStringReplacement_removeCommonSuffix StringReplacement_class ?r s = Inr r1"
    "replacement_within r1 (length s)" "replace_one r1 s = replace_one ?r s" by (rule removeCommonSuffix_ok [OF r])
  obtain r2 where r2: "BaseStringReplacement_removeCommonPrefix StringReplacement_class r1 s = Inr r2"
    "replacement_within r2 (length s)" "replace_one r2 s = replace_one r1 s" by (rule removeCommonPrefix_ok [OF r1(2)])
  have f: "fits sr_range 0 (int (length s)) [r2]" using r2(2) by (simp add: replacement_within_def)
  have within: "string_edit_within \<lparr>replacements = [r2]\<rparr> (length s)" "string_edit_within StringEdit_empty (length s)"
    using f by (simp_all add: string_within StringEdit_empty_def)
  have app: "StringEdit_apply \<lparr>replacements = [r2]\<rparr> s = t"
    unfolding string_apply [OF within(1)] using replace_one_cons [OF f] r2(3) r1(3) rt by simp
  have run: "BaseStringEdit_normalizeOnSource StringReplacement_class ed s =
      (if BaseReplacement_isEmpty StringEdit_base r2 then Inr StringEdit_empty else Inr \<lparr>replacements = [r2]\<rparr>)"
    using r1(1) r2(1) StringEdit_new_ok [OF f]
    by (simp add: BaseStringEdit_normalizeOnSource_def OffsetRange_ofLength_def assms StringReplacement_replace_def
        BaseStringReplacement_removeCommonSuffixAndPrefix_def BaseStringReplacement_toEdit_def Let_def)
  show thesis
  proof (cases "BaseReplacement_isEmpty StringEdit_base r2")
    case True
    then have "sr_newText r2 = []" "endExclusive (sr_range r2) = start (sr_range r2)"
      by (auto simp: BaseReplacement_isEmpty_def OffsetRange_length_def)
    then have "t = s" using app unfolding string_apply [OF within(1)] by simp
    moreover have "StringEdit_apply StringEdit_empty s = s"
      unfolding string_apply [OF within(2)] by (simp add: StringEdit_empty_def)
    ultimately show thesis using that [of StringEdit_empty] run True within(2) by (simp add: StringEdit_empty_def)
  next
    case False
    then show thesis using that [of "\<lparr>replacements = [r2]\<rparr>"] run within(1) app by simp
  qed
qed

section \<open>Normal forms\<close>

text \<open>Normal form: no empty replacement and no two that touch.\<close>

definition separated :: "StringReplacement list \<Rightarrow> bool" where
  "separated rs \<longleftrightarrow> list_all (\<lambda>r. sr_newText r \<noteq> [] \<or> start (sr_range r) < endExclusive (sr_range r)) rs \<and>
     sorted_wrt (\<lambda>a b. endExclusive (sr_range a) < start (sr_range b)) rs"

lemma separated_Cons:
  "separated (r # rs) \<longleftrightarrow> (sr_newText r \<noteq> [] \<or> start (sr_range r) < endExclusive (sr_range r)) \<and>
     (\<forall>x \<in> set rs. endExclusive (sr_range r) < start (sr_range x)) \<and> separated rs"
  by (auto simp: separated_def)

lemma separated_append:
  "separated (xs @ ys) \<longleftrightarrow> separated xs \<and> separated ys \<and>
     (\<forall>x \<in> set xs. \<forall>y \<in> set ys. endExclusive (sr_range x) < start (sr_range y))"
  by (auto simp: separated_def sorted_wrt_append)

lemma normalize_loop_separated:
  assumes "normalize_loop StringEdit_base rs lastR news = Inr out"
    and "fits sr_range p n (news @ (case lastR of None \<Rightarrow> [] | Some l \<Rightarrow> [l]) @ rs)"
    and "separated (news @ (case lastR of None \<Rightarrow> [] | Some l \<Rightarrow> [l]))"
    and "lastR = None \<longrightarrow> news = []"
  shows "separated out"
  using assms
proof (induction rs arbitrary: lastR news)
  case Nil
  then show ?case by (auto split: option.splits)
next
  case (Cons r rs)
  have r: "start (sr_range r) \<le> endExclusive (sr_range r)"
    using Cons.prems(2) by (auto simp: fits_append)
  show ?case
  proof (cases "sr_newText r = [] \<and> OffsetRange_length (sr_range r) = 0")
    case True
    have "fits sr_range p n (news @ (case lastR of None \<Rightarrow> [] | Some l \<Rightarrow> [l]) @ rs)"
    proof -
      obtain m where "fits sr_range p m (news @ (case lastR of None \<Rightarrow> [] | Some l \<Rightarrow> [l]))" "fits sr_range m n (r # rs)"
        using Cons.prems(2) unfolding append_assoc [symmetric] fits_append by blast
      moreover from this(2) have "fits sr_range m n rs" by (auto intro: fits_mono)
      ultimately show ?thesis unfolding append_assoc [symmetric] fits_append by blast
    qed
    with Cons.IH [of lastR news] Cons.prems True show ?thesis by simp
  next
    case False
    then have ne: "sr_newText r \<noteq> [] \<or> start (sr_range r) < endExclusive (sr_range r)"
      using r by (auto simp: OffsetRange_length_def)
    show ?thesis
    proof (cases lastR)
      case None
      then show ?thesis using Cons.IH [of "Some r" news] Cons.prems False ne by (auto simp: separated_def)
    next
      case (Some l)
      obtain k where k: "fits sr_range p k news" "k \<le> start (sr_range l)"
        "start (sr_range l) \<le> endExclusive (sr_range l)" "endExclusive (sr_range l) \<le> start (sr_range r)"
        "fits sr_range (endExclusive (sr_range r)) n rs"
        using Cons.prems(2) Some by (auto simp: fits_append)
      show ?thesis
      proof (cases "endExclusive (sr_range l) = start (sr_range r)")
        case True
        let ?j = "\<lparr>sr_range = mk_offset (start (sr_range l)) (endExclusive (sr_range r)), sr_newText = sr_newText l @ sr_newText r\<rparr>"
        have "tryJoinTouching StringEdit_base l r = Inr (Some ?j)"
          using True k(3) r by (simp add: StringReplacement_tryJoinTouching_def OffsetRange_joinRightTouching_def)
        then have "normalize_loop StringEdit_base rs (Some ?j) news = Inr out"
          using Cons.prems(1) Some True False by auto
        moreover have "fits sr_range p n (news @ [?j] @ rs)"
          using k r True by (auto simp: fits_append)
        moreover have "separated (news @ [?j])"
          using Cons.prems(3) Some ne True k(3) by (auto simp: separated_append separated_Cons)
        ultimately show ?thesis using Cons.IH [of "Some ?j" news] by simp
      next
        case gap: False
        then have "normalize_loop StringEdit_base rs (Some r) (news @ [l]) = Inr out"
          using Cons.prems(1) Some False by auto
        moreover have "separated ((news @ [l]) @ [r])"
        proof -
          have "endExclusive (sr_range x) < start (sr_range r)" if "x \<in> set (news @ [l])" for x
            using that Cons.prems(3) Some k(3,4) gap by (auto simp: separated_append separated_Cons)
          then show ?thesis using Cons.prems(3) Some ne by (simp add: separated_append separated_Cons)
        qed
        ultimately show ?thesis using Cons.IH [of "Some r" "news @ [l]"] Cons.prems(2) Some by simp
      qed
    qed
  qed
qed

text \<open>The element after a replacement that nothing touches, and the elements before the first one.\<close>

lemma appl_gap:
  assumes "fits sr_range p n rs" and "\<forall>x \<in> set rs. p < start (sr_range x)" and "n < p + int (length xs)"
  shows "\<exists>ys. appl sr_range sr_newText p rs xs = xs ! 0 # ys"
proof (cases rs)
  case Nil
  then show ?thesis using assms by (cases xs) auto
next
  case (Cons r rs')
  then have "0 < nat (start (sr_range r) - p)" using assms(2) by simp
  moreover have "p \<le> n" using fits_le [OF assms(1)] .
  then obtain x xs' where "xs = x # xs'" using assms(3) by (cases xs) auto
  ultimately show ?thesis using Cons by (cases "nat (start (sr_range r) - p)") auto
qed

lemma appl_before:
  assumes "fits sr_range p n rs" and "\<forall>x \<in> set rs. q < start (sr_range x)" and "p \<le> q" and "n \<le> p + int (length xs)"
    and "q < p + int (length xs)"
  shows "appl sr_range sr_newText p rs xs ! nat (q - p) = xs ! nat (q - p)"
proof (cases rs)
  case (Cons r rs')
  then have "q < start (sr_range r)" "start (sr_range r) \<le> n"
    using assms(1,2) fits_le [of sr_range "endExclusive (sr_range r)" n rs'] by auto
  then have "nat (q - p) < length (take (nat (start (sr_range r) - p)) xs)" using assms(3-5) by auto
  then show ?thesis using Cons by (simp add: nth_append)
qed simp

text \<open>The first replacement of a normal form is visible on some text.\<close>

lemma first_visible:
  assumes "separated (b # bs)" and "fits sr_range p n (b # bs)"
  obtains xs where "n < p + int (length xs)"
    and "appl sr_range sr_newText p (b # bs) xs ! nat (start (sr_range b) - p) \<noteq> xs ! nat (start (sr_range b) - p)"
proof -
  let ?s = "start (sr_range b)" and ?e = "endExclusive (sr_range b)"
  have b: "p \<le> ?s" "?s \<le> ?e" "fits sr_range ?e n bs" using assms(2) by auto
  have en: "?e \<le> n" using fits_le [OF b(3)] .
  define L where "L = nat (n - p) + 1"
  have L: "n < p + int L" "nat (?s - p) < L" "nat (?e - p) < L" using b en by (auto simp: L_def)
  show thesis
  proof (cases "sr_newText b")
    case (Cons c cs)
    have "appl sr_range sr_newText p (b # bs) (replicate L (c + 1)) ! nat (?s - p) = c"
      using L by (simp add: nth_append Cons)
    then show thesis using that [of "replicate L (c + 1)"] L by simp
  next
    case Nil
    then have se: "?s < ?e" using assms(1) by (simp add: separated_Cons)
    define xs where "xs = (replicate L (0 :: 16 word))[nat (?e - p) := 1]"
    have xs: "length xs = L" "xs ! nat (?e - p) = 1" "xs ! nat (?s - p) = 0"
      using L se b by (auto simp: xs_def)
    have gap: "\<forall>x \<in> set bs. ?e < start (sr_range x)" using assms(1) by (simp add: separated_Cons)
    have "n < ?e + int (length (drop (nat (?e - p)) xs))" using L b by (simp add: xs(1))
    from appl_gap [OF b(3) gap this] obtain ys where
      "appl sr_range sr_newText ?e bs (drop (nat (?e - p)) xs) = drop (nat (?e - p)) xs ! 0 # ys" by blast
    then have "appl sr_range sr_newText p (b # bs) xs ! nat (?s - p) = 1"
      using L xs by (simp add: nth_append Nil)
    then show thesis using that [of xs] L xs by simp
  qed
qed

text \<open>Two normal forms with the same effect on every text long enough are equal.\<close>

lemma separated_unique:
  assumes "separated as" and "separated bs" and "fits sr_range p n as" and "fits sr_range p n bs"
    and "\<forall>xs. n < p + int (length xs) \<longrightarrow> appl sr_range sr_newText p as xs = appl sr_range sr_newText p bs xs"
  shows "as = bs"
  using assms
proof (induction as arbitrary: p bs)
  case Nil
  show ?case
  proof (rule ccontr)
    assume "[] \<noteq> bs"
    then obtain b bs' where "bs = b # bs'" by (cases bs) auto
    with Nil.prems first_visible [of b bs' p n] show False by (metis appl.simps(1))
  qed
next
  case (Cons a as)
  let ?s = "start (sr_range a)" and ?e = "endExclusive (sr_range a)"
  have "bs \<noteq> []"
  proof
    assume "bs = []"
    with Cons.prems first_visible [of a as p n] show False by (metis appl.simps(1))
  qed
  then obtain b bs' where bs: "bs = b # bs'" by (cases bs) auto
  let ?t = "start (sr_range b)" and ?f = "endExclusive (sr_range b)"
  have a: "p \<le> ?s" "?s \<le> ?e" "fits sr_range ?e n as" "\<forall>x \<in> set as. ?e < start (sr_range x)" "separated as"
    using Cons.prems(1,3) by (auto simp: separated_Cons)
  have b: "p \<le> ?t" "?t \<le> ?f" "fits sr_range ?f n bs'" "\<forall>x \<in> set bs'. ?f < start (sr_range x)" "separated bs'"
    using Cons.prems(2,4) by (auto simp: separated_Cons bs)
  have en: "?e \<le> n" "?f \<le> n" using fits_le [OF a(3)] fits_le [OF b(3)] .
  note same = Cons.prems(5) [rule_format]
  have "\<not> ?s < ?t"
  proof
    assume lt: "?s < ?t"
    obtain xs where xs: "n < p + int (length xs)" "appl sr_range sr_newText p (a # as) xs ! nat (?s - p) \<noteq> xs ! nat (?s - p)"
      by (rule first_visible [OF Cons.prems(1,3)])
    have "\<forall>x \<in> set bs. ?s < start (sr_range x)" using lt b(2,4) by (auto simp: bs)
    from appl_before [OF Cons.prems(4) this a(1), of xs] xs same [OF xs(1)] a en show False by simp
  qed
  moreover have "\<not> ?t < ?s"
  proof
    assume lt: "?t < ?s"
    obtain xs where xs: "n < p + int (length xs)" "appl sr_range sr_newText p bs xs ! nat (?t - p) \<noteq> xs ! nat (?t - p)"
      unfolding bs by (rule first_visible [OF Cons.prems(2,4) [unfolded bs]])
    have "\<forall>x \<in> set (a # as). ?t < start (sr_range x)" using lt a(2,4) by auto
    from appl_before [OF Cons.prems(3) this b(1), of xs] xs same [OF xs(1)] b en show False by simp
  qed
  ultimately have st: "?t = ?s" by simp
  have tail: "\<exists>ys zs. sr_newText a @ xs ! nat (?e - p) # ys = sr_newText b @ xs ! nat (?f - p) # zs"
    if xs: "n < p + int (length xs)" for xs
  proof -
    have "n < ?e + int (length (drop (nat (?e - p)) xs))" "n < ?f + int (length (drop (nat (?f - p)) xs))"
      using xs a b en by auto
    from appl_gap [OF a(3,4) this(1)] appl_gap [OF b(3,4) this(2)] same [OF xs]
    show ?thesis using xs a b en by (auto simp: bs st) blast
  qed
  define L where "L = nat (n - p) + 1"
  have L: "n < p + int L" "nat (?e - p) < L" "nat (?f - p) < L" using a b en by (auto simp: L_def)
  have "\<not> length (sr_newText a) < length (sr_newText b)"
  proof
    assume lt: "length (sr_newText a) < length (sr_newText b)"
    let ?c = "sr_newText b ! length (sr_newText a)"
    obtain ys zs where "sr_newText a @ (?c + 1) # ys = sr_newText b @ (?c + 1) # zs"
      using tail [of "replicate L (?c + 1)"] L by auto
    then have "(sr_newText a @ (?c + 1) # ys) ! length (sr_newText a) = (sr_newText b @ (?c + 1) # zs) ! length (sr_newText a)"
      by simp
    then show False using lt by (simp add: nth_append)
  qed
  moreover have "\<not> length (sr_newText b) < length (sr_newText a)"
  proof
    assume lt: "length (sr_newText b) < length (sr_newText a)"
    let ?c = "sr_newText a ! length (sr_newText b)"
    obtain ys zs where "sr_newText a @ (?c + 1) # ys = sr_newText b @ (?c + 1) # zs"
      using tail [of "replicate L (?c + 1)"] L by auto
    then have "(sr_newText a @ (?c + 1) # ys) ! length (sr_newText b) = (sr_newText b @ (?c + 1) # zs) ! length (sr_newText b)"
      by simp
    then show False using lt by (simp add: nth_append)
  qed
  ultimately have len: "length (sr_newText a) = length (sr_newText b)" by simp
  then have same_text: "sr_newText a = sr_newText b" using tail [of "replicate L 0"] L by auto
  have "?e = ?f"
  proof (rule ccontr)
    assume "?e \<noteq> ?f"
    then have ne: "nat (?e - p) \<noteq> nat (?f - p)" using a b by simp
    obtain ys zs where "sr_newText a @ (replicate L (0 :: 16 word))[nat (?e - p) := 1] ! nat (?e - p) # ys =
        sr_newText b @ (replicate L 0)[nat (?e - p) := 1] ! nat (?f - p) # zs"
      using tail [of "(replicate L (0 :: 16 word))[nat (?e - p) := 1]"] L by auto
    then show False using ne L len by simp
  qed
  then have "sr_range a = sr_range b" using st by simp
  then have ab: "a = b" using same_text by simp
  have "appl sr_range sr_newText ?e as ys = appl sr_range sr_newText ?e bs' ys" if ys: "n < ?e + int (length ys)" for ys
  proof -
    let ?xs = "replicate (nat (?e - p)) 0 @ ys"
    have "n < p + int (length ?xs)" using ys a by simp
    from same [OF this] show ?thesis by (simp add: bs flip: ab)
  qed
  with Cons.IH [OF a(5) b(5) a(3)] b(3) ab show ?case by (simp add: bs)
qed

section \<open>Properties\<close>

text \<open>The examples of the witnesses: the text ``hello'' and edits of it.\<close>

definition example_text :: text16 where
  "example_text = [104, 101, 108, 108, 111]"

definition example_edit :: "StringReplacement BaseEdit" where
  "example_edit = \<lparr>replacements = [\<lparr>sr_range = mk_offset 0 1, sr_newText = [74, 33]\<rparr>,
     \<lparr>sr_range = mk_offset 3 4, sr_newText = []\<rparr>]\<rparr>"

definition example_edit2 :: "StringReplacement BaseEdit" where
  "example_edit2 = \<lparr>replacements = [\<lparr>sr_range = mk_offset 1 3, sr_newText = [120]\<rparr>]\<rparr>"

lemma example_within:
  "string_edit_within example_edit 5" "string_edit_within example_edit2 5" "length example_text = 5"
  "length (StringEdit_apply example_edit example_text) = 5"
  by (simp_all add: string_within example_edit_def example_edit2_def example_text_def
      BaseStringEdit_apply_def js_substring_in js_substring_from_in)

text \<open>C1: \<open>compose\<close> has the documented effect: for string edits within their texts it never throws,
  and applying the composed edit equals applying the first edit and then the second.\<close>

theorem compose_applies:
  assumes "string_edit_within a (length s)" and "string_edit_within b (length (StringEdit_apply a s))"
  shows "\<exists>c. BaseEdit_compose StringEdit_base a b = Inr c \<and> string_edit_within c (length s) \<and>
    StringEdit_apply c s = StringEdit_apply b (StringEdit_apply a s)"
  using StringEdit_compose_correct [OF assms] by metis

lemma compose_applies_witness:
  "\<exists>c. BaseEdit_compose StringEdit_base example_edit example_edit2 = Inr c \<and>
     StringEdit_apply c example_text = StringEdit_apply example_edit2 (StringEdit_apply example_edit example_text)"
  using compose_applies [of example_edit example_text example_edit2] by (auto simp: example_within)

text \<open>C3: \<open>normalize\<close> never throws and its result is a normal form: for edits within texts of length
  \<open>n\<close>, the normalized edit has the same effect on every longer text, and two edits have the same effect
  on all of these texts if and only if their normalized edits are equal.\<close>

theorem normalize_canonical:
  assumes "string_edit_within a n" and "string_edit_within b n"
  shows "\<exists>a' b'. BaseEdit_normalize StringEdit_base a = Inr a' \<and> BaseEdit_normalize StringEdit_base b = Inr b' \<and>
    (\<forall>s. n < length s \<longrightarrow> StringEdit_apply a' s = StringEdit_apply a s) \<and>
    (a' = b' \<longleftrightarrow> (\<forall>s. n < length s \<longrightarrow> StringEdit_apply a s = StringEdit_apply b s))"
proof -
  have norm: "\<exists>c'. BaseEdit_normalize StringEdit_base c = Inr c' \<and> string_edit_within c' n \<and>
      separated (replacements c') \<and> (\<forall>s. n < length s \<longrightarrow> StringEdit_apply c' s = StringEdit_apply c s)"
    if c: "string_edit_within c n" for c
  proof -
    obtain out where out: "normalize_loop StringEdit_base (replacements c) None [] = Inr out"
      "fits sr_range 0 (int n) out"
      using string_repl.normalize_loop_effect [of "replacements c" None "[]" 0 "int n" "replicate n 0"] c
      by (auto simp: string_within)
    have sep: "separated out"
      by (rule normalize_loop_separated [OF out(1)]) (use c in \<open>auto simp: string_within separated_def\<close>)
    have eff: "appl sr_range sr_newText 0 out s = appl sr_range sr_newText 0 (replacements c) s" if "n < length s" for s
      using string_repl.normalize_loop_effect [of "replacements c" None "[]" 0 "int n" s] c out(1) that
      by (auto simp: string_within)
    have within: "string_edit_within x (length s)" if "string_edit_within x n" "n < length s"
      for x and s :: text16
    proof -
      have "fits sr_range p k rs" if "fits sr_range p j rs" "j \<le> k" for p j k and rs :: "StringReplacement list"
        using that by (induction rs arbitrary: p) auto
      with that show ?thesis unfolding string_within by force
    qed
    have "BaseEdit_normalize StringEdit_base c = Inr \<lparr>replacements = out\<rparr>"
      using out fits_check [of StringEdit_base 0 "int n" out "- 1"]
      by (simp add: BaseEdit_normalize_def BaseEdit_new_def)
    moreover have "string_edit_within \<lparr>replacements = out\<rparr> n" using out(2) by (simp add: string_within)
    moreover have "StringEdit_apply \<lparr>replacements = out\<rparr> s = StringEdit_apply c s" if "n < length s" for s
      unfolding string_apply [OF within [OF calculation(2) that]] string_apply [OF within [OF c that]]
      using eff [OF that] by simp
    ultimately show ?thesis using sep by auto
  qed
  obtain a' where a': "BaseEdit_normalize StringEdit_base a = Inr a'" "string_edit_within a' n"
    "separated (replacements a')" "\<forall>s. n < length s \<longrightarrow> StringEdit_apply a' s = StringEdit_apply a s"
    using norm [OF assms(1)] by blast
  obtain b' where b': "BaseEdit_normalize StringEdit_base b = Inr b'" "string_edit_within b' n"
    "separated (replacements b')" "\<forall>s. n < length s \<longrightarrow> StringEdit_apply b' s = StringEdit_apply b s"
    using norm [OF assms(2)] by blast
  have "a' = b'" if same: "\<forall>s. n < length s \<longrightarrow> StringEdit_apply a s = StringEdit_apply b s"
  proof -
    have f: "fits sr_range 0 (int n) (replacements a')" "fits sr_range 0 (int n) (replacements b')"
      using a'(2) b'(2) by (simp_all add: string_within)
    have "appl sr_range sr_newText 0 (replacements a') s = appl sr_range sr_newText 0 (replacements b') s"
      if "n < length s" for s
    proof -
      have up: "fits sr_range 0 (int (length s)) rs" if "fits sr_range 0 (int n) rs" for rs :: "StringReplacement list"
        using that \<open>n < length s\<close> by (induction rs rule: rev_induct) (auto simp: fits_snoc)
      have "string_edit_within a' (length s)" "string_edit_within b' (length s)"
        using up f by (simp_all add: string_within)
      then show ?thesis using a'(4) b'(4) same that by (metis string_apply)
    qed
    then have "replacements a' = replacements b'"
      by (intro separated_unique [OF a'(3) b'(3) f]) auto
    then show ?thesis by (cases a'; cases b') simp
  qed
  moreover have "\<forall>s. n < length s \<longrightarrow> StringEdit_apply a s = StringEdit_apply b s" if "a' = b'"
    using a'(4) b'(4) that by simp
  ultimately show ?thesis using a'(1,4) b'(1) by blast
qed

lemma normalize_canonical_witness:
  "\<exists>c. BaseEdit_normalize StringEdit_base example_edit = Inr c \<and>
     (\<forall>s. 5 < length s \<longrightarrow> StringEdit_apply c s = StringEdit_apply example_edit s)"
  using normalize_canonical [OF example_within(1) example_within(1)] by blast

text \<open>C5: \<open>inverse\<close> reverts an edit: applied to the edited text it gives the original text back.\<close>

theorem inverse_reverts:
  assumes "string_edit_within ed (length s)"
  shows "\<exists>inv. BaseStringEdit_inverse StringReplacement_class ed s = Inr inv \<and>
    string_edit_within inv (length (StringEdit_apply ed s)) \<and> StringEdit_apply inv (StringEdit_apply ed s) = s"
  using inverse_correct [OF assms] by metis

lemma inverse_reverts_witness:
  "\<exists>inv. BaseStringEdit_inverse StringReplacement_class example_edit example_text = Inr inv \<and>
     StringEdit_apply inv (StringEdit_apply example_edit example_text) = example_text"
  using inverse_reverts [of example_edit example_text] by (auto simp: example_within)

text \<open>C2: \<open>tryRebase\<close> converges: when the rebase of one edit over another succeeds, so does the
  opposite one, and applying either edit followed by the other rebased gives the same text.\<close>

theorem tryRebase_converges:
  assumes "string_edit_within a (length s)" and "string_edit_within b (length s)"
    and "BaseStringEdit_tryRebase StringReplacement_class a b = Inr (Some a')"
  shows "\<exists>b'. BaseStringEdit_tryRebase StringReplacement_class b a = Inr (Some b') \<and>
    StringEdit_apply a' (StringEdit_apply b s) = StringEdit_apply b' (StringEdit_apply a s)"
  using tryRebase_diamond [OF assms] by metis

lemma tryRebase_converges_witness:
  "\<exists>a' b'. BaseStringEdit_tryRebase StringReplacement_class example_edit example_edit2 = Inr (Some a') \<and>
     BaseStringEdit_tryRebase StringReplacement_class example_edit2 example_edit = Inr (Some b') \<and>
     StringEdit_apply a' (StringEdit_apply example_edit2 example_text) =
       StringEdit_apply b' (StringEdit_apply example_edit example_text)"
proof -
  obtain a' where "BaseStringEdit_tryRebase StringReplacement_class example_edit example_edit2 = Inr (Some a')"
    by (simp add: example_edit_def example_edit2_def BaseStringEdit_tryRebase_def BaseStringEdit_tryRebase'_def
        rebase_conflict_def OffsetRange_intersects_def areConcurrentInserts_def isInsertStrictlyInsideRange_def
        OffsetRange_isEmpty_def OffsetRange_delta_def OffsetRange_length_def StringEdit_new_def BaseEdit_new_def)
  with tryRebase_converges [of example_edit example_text example_edit2 a'] show ?thesis
    by (auto simp: example_within)
qed

text \<open>C4: \<open>trySwap\<close> exchanges two consecutive edits: when it succeeds, applying its two edits in turn
  gives the text that the original two give in turn.\<close>

theorem trySwap_swaps:
  assumes "string_edit_within a (length s)" and "string_edit_within b (length (StringEdit_apply a s))"
    and "BaseStringEdit_trySwap a b = Inr (Some (b', a'))"
  shows "StringEdit_apply a' (StringEdit_apply b' s) = StringEdit_apply b (StringEdit_apply a s)"
  by (rule trySwap_correct(3) [OF assms])

lemma trySwap_swaps_witness:
  "\<exists>a' b'. BaseStringEdit_trySwap example_edit \<lparr>replacements = [\<lparr>sr_range = mk_offset 2 3, sr_newText = []\<rparr>]\<rparr> =
       Inr (Some (b', a')) \<and>
     StringEdit_apply a' (StringEdit_apply b' example_text) =
       StringEdit_apply \<lparr>replacements = [\<lparr>sr_range = mk_offset 2 3, sr_newText = []\<rparr>]\<rparr>
         (StringEdit_apply example_edit example_text)"
proof -
  let ?b = "\<lparr>replacements = [\<lparr>sr_range = mk_offset 2 3, sr_newText = []\<rparr>]\<rparr>"
  have "string_edit_within ?b 5" by (simp add: string_within)
  moreover obtain a' b' where "BaseStringEdit_trySwap example_edit ?b = Inr (Some (b', a'))"
    by (simp add: example_edit_def BaseStringEdit_trySwap_def BaseStringEdit_inverseOnSlice_def
        BaseStringEdit_tryRebase_def BaseStringEdit_tryRebase'_def StringReplacement_replace_def
        rebase_conflict_def OffsetRange_intersects_def areConcurrentInserts_def isInsertStrictlyInsideRange_def
        OffsetRange_isEmpty_def OffsetRange_delta_def OffsetRange_length_def OffsetRange_ofStartAndLength_def
        StringEdit_new_def BaseEdit_new_def)
  ultimately show ?thesis using trySwap_swaps [of example_edit example_text ?b b' a'] by (auto simp: example_within)
qed

text \<open>C6: \<open>composeSequentialReplacements\<close> returns, for replacements each within the text it is applied
  to, one edit whose effect is that of applying the replacements one after the other.\<close>

theorem composeSequentialReplacements_applies:
  assumes "sequence_within rs s"
  shows "\<exists>c. StringEdit_composeSequentialReplacements rs = Inr c \<and> string_edit_within c (length s) \<and>
    StringEdit_apply c s = foldl (\<lambda>t r. BaseStringReplacement_replace StringReplacement_class r t) s rs"
proof -
  have e: "string_edit_within StringEdit_empty (length s)" by (simp add: string_within StringEdit_empty_def)
  have "StringEdit_apply StringEdit_empty s = s"
    unfolding string_apply [OF e] by (simp add: StringEdit_empty_def)
  with composeSequentialReplacements_loop_ok [OF e, of s "[]" rs] assms show ?thesis
    by (simp add: StringEdit_composeSequentialReplacements_def)
qed

lemma composeSequentialReplacements_applies_witness:
  "\<exists>c. StringEdit_composeSequentialReplacements
        [\<lparr>sr_range = mk_offset 3 4, sr_newText = [1, 2]\<rparr>, \<lparr>sr_range = mk_offset 0 2, sr_newText = []\<rparr>,
         \<lparr>sr_range = mk_offset 1 1, sr_newText = [9]\<rparr>] = Inr c \<and>
      StringEdit_apply c example_text = [108, 9, 1, 2, 111]"
  using composeSequentialReplacements_applies
    [of "[\<lparr>sr_range = mk_offset 3 4, sr_newText = [1, 2]\<rparr>, \<lparr>sr_range = mk_offset 0 2, sr_newText = []\<rparr>,
         \<lparr>sr_range = mk_offset 1 1, sr_newText = [9]\<rparr>]" example_text]
  by (auto simp: example_text_def BaseStringReplacement_replace_def js_substring_in js_substring_from_in)

text \<open>C38: \<open>normalizeOnSource\<close> keeps the effect on the source: its result is at most one replacement that
  lies in the source and turns it into the same text, and it depends on that text only, so edits with
  the same result on the source have the same normal form.\<close>

theorem normalizeOnSource_effect:
  "\<exists>c. BaseStringEdit_normalizeOnSource StringReplacement_class ed s = Inr c \<and>
    string_edit_within c (length s) \<and> length (replacements c) \<le> 1 \<and>
    StringEdit_apply c s = StringEdit_apply ed s \<and>
    (\<forall>ed2. StringEdit_apply ed2 s = StringEdit_apply ed s \<longrightarrow>
       BaseStringEdit_normalizeOnSource StringReplacement_class ed2 s = Inr c)"
proof -
  obtain c where "BaseStringEdit_normalizeOnSource StringReplacement_class ed s = Inr c"
    "string_edit_within c (length s)" "StringEdit_apply c s = StringEdit_apply ed s" "length (replacements c) \<le> 1"
    by (rule normalizeOnSource_ok [OF refl])
  moreover have "BaseStringEdit_normalizeOnSource StringReplacement_class ed2 s =
      BaseStringEdit_normalizeOnSource StringReplacement_class ed s"
    if "StringEdit_apply ed2 s = StringEdit_apply ed s" for ed2
    by (simp only: BaseStringEdit_normalizeOnSource_def that)
  ultimately show ?thesis by metis
qed

lemma normalizeOnSource_effect_witness:
  "\<exists>c. BaseStringEdit_normalizeOnSource StringReplacement_class example_edit example_text = Inr c \<and>
     StringEdit_apply c example_text = StringEdit_apply example_edit example_text"
  using normalizeOnSource_effect [of example_edit example_text] by blast

text \<open>\<open>decomposeSplit\<close> splits an edit: the first part consists of the chosen replacements unchanged,
  and applying the second part after the first has the effect of the whole edit.\<close>

theorem decomposeSplit_applies:
  assumes "string_edit_within ed (length s)"
  shows "\<exists>e1 e2. BaseEdit_decomposeSplit StringEdit_base ed p = Inr (e1, e2) \<and>
    replacements e1 = filter p (replacements ed) \<and>
    StringEdit_apply e2 (StringEdit_apply e1 s) = StringEdit_apply ed s"
proof -
  have "fits (replaceRange StringEdit_base) 0 (int (length s)) (replacements ed)"
    using assms by (simp add: string_within)
  from string_repl.decomposeSplit_effect [OF _ this, of p] obtain e1 e2 where e:
    "BaseEdit_decomposeSplit StringEdit_base ed p = Inr (e1, e2)" "replacements e1 = filter p (replacements ed)"
    "fits sr_range 0 (int (length s)) (replacements e1)"
    "fits sr_range 0 (int (length (appl sr_range sr_newText 0 (replacements e1) s))) (replacements e2)"
    "appl sr_range sr_newText 0 (replacements e2) (appl sr_range sr_newText 0 (replacements e1) s) =
      appl sr_range sr_newText 0 (replacements ed) s" by auto
  have w1: "string_edit_within e1 (length s)" using e(3) by (simp add: string_within)
  have w2: "string_edit_within e2 (length (StringEdit_apply e1 s))"
    unfolding string_apply [OF w1] using e(4) by (simp add: string_within)
  have "StringEdit_apply e2 (StringEdit_apply e1 s) = StringEdit_apply ed s"
    unfolding string_apply [OF w2] by (simp only: string_apply [OF assms] string_apply [OF w1] e(5))
  with e(1,2) show ?thesis by blast
qed

lemma decomposeSplit_applies_witness:
  "\<exists>e1 e2. BaseEdit_decomposeSplit StringEdit_base example_edit (\<lambda>r. sr_newText r = []) = Inr (e1, e2) \<and>
     StringEdit_apply e2 (StringEdit_apply e1 example_text) = StringEdit_apply example_edit example_text"
  using decomposeSplit_applies [of example_edit example_text "\<lambda>r. sr_newText r = []"] by (auto simp: example_within)

text \<open>\<open>getNewRanges\<close> gives, for each replacement, the range of the edited text that holds its new
  text.\<close>

theorem getNewRanges_hold:
  assumes "string_edit_within ed (length s)"
  shows "\<exists>gs. BaseEdit_getNewRanges StringEdit_base ed = Inr gs \<and>
    list_all2 (\<lambda>r g. OffsetRange_substring g (StringEdit_apply ed s) = sr_newText r) (replacements ed) gs"
proof -
  have f: "fits (replaceRange StringEdit_base) 0 (int (length s)) (replacements ed)"
    using assms by (simp add: string_within)
  let ?t = "appl sr_range sr_newText 0 (replacements ed) s"
  obtain gs where gs: "getNewRanges_loop StringEdit_base (replacements ed) 0 = Inr gs"
    "list_all2 (\<lambda>r g. 0 \<le> start g \<and> OffsetRange_length g = int (length (sr_newText r)) \<and>
      take (length (sr_newText r)) (drop (nat (start g)) ?t) = sr_newText r) (replacements ed) gs"
    using string_repl.getNewRanges_loop_ok [OF _ f, of s 0] by auto
  have "list_all2 (\<lambda>r g. OffsetRange_substring g ?t = sr_newText r) (replacements ed) gs"
  proof (rule list_all2_mono [OF gs(2)])
    fix r g assume h: "0 \<le> start g \<and> OffsetRange_length g = int (length (sr_newText r)) \<and>
      take (length (sr_newText r)) (drop (nat (start g)) ?t) = sr_newText r"
    then have e: "endExclusive g = start g + int (length (sr_newText r))" by (simp add: OffsetRange_length_def)
    show "OffsetRange_substring g ?t = sr_newText r"
    proof (cases "sr_newText r")
      case Nil
      then show ?thesis using e by (simp add: OffsetRange_substring_def js_substring_def)
    next
      case (Cons c cs)
      have "length (sr_newText r) \<le> length ?t - nat (start g)" using h by (metis length_drop length_take min.cobounded1 min.commute)
      then have "endExclusive g \<le> int (length ?t)" using e Cons h by simp
      then show ?thesis using h e by (simp add: OffsetRange_substring_def js_substring_in)
    qed
  qed
  then show ?thesis using gs(1) by (auto simp: BaseEdit_getNewRanges_def string_apply [OF assms])
qed

lemma getNewRanges_hold_witness:
  "\<exists>gs. BaseEdit_getNewRanges StringEdit_base example_edit = Inr gs \<and>
     list_all2 (\<lambda>r g. OffsetRange_substring g (StringEdit_apply example_edit example_text) = sr_newText r)
       (replacements example_edit) gs"
  using getNewRanges_hold [of example_edit example_text] by (simp add: example_within)

text \<open>C39: \<open>applyToOffset\<close> follows the text: an offset in no replaced range maps to the offset of the same
  character in the edited text, \<open>applyToOffsetOrUndefined\<close> agrees and \<open>applyInverseToOffset\<close> maps it
  back; for any offsets the map is monotone, so \<open>applyToOffsetRange\<close> never throws.\<close>

theorem applyToOffset_follows:
  assumes w: "string_edit_within ed (length s)" and off: "0 \<le> off"
    and out: "list_all (\<lambda>r. \<not> OffsetRange_contains (sr_range r) off) (replacements ed)"
    and range: "0 \<le> start rg" "start rg \<le> endExclusive rg"
  shows "BaseEdit_applyToOffsetOrUndefined StringEdit_base ed off = Some (BaseEdit_applyToOffset StringEdit_base ed off) \<and>
    BaseEdit_applyInverseToOffset StringEdit_base ed (BaseEdit_applyToOffset StringEdit_base ed off) = off \<and>
    (off < int (length s) \<longrightarrow>
      js_at (StringEdit_apply ed s) (BaseEdit_applyToOffset StringEdit_base ed off) = js_at s off) \<and>
    (\<exists>g. BaseEdit_applyToOffsetRange StringEdit_base ed rg = Inr g)"
proof -
  have f: "fits (replaceRange StringEdit_base) 0 (int (length s)) (replacements ed)"
    using w by (simp add: string_within)
  have n: "int (length s) = 0 + int (length s)" by simp
  have out': "\<forall>r \<in> set (replacements ed). \<not> OffsetRange_contains (replaceRange StringEdit_base r) off"
    using out by (auto simp: list_all_iff)
  from string_repl.applyToOffset_track [OF _ f n off out', of 0]
  have track: "BaseEdit_applyToOffsetOrUndefined StringEdit_base ed off = Some (BaseEdit_applyToOffset StringEdit_base ed off)"
    "BaseEdit_applyInverseToOffset StringEdit_base ed (BaseEdit_applyToOffset StringEdit_base ed off) = off"
    "0 \<le> BaseEdit_applyToOffset StringEdit_base ed off"
    "off < int (length s) \<longrightarrow> nat (BaseEdit_applyToOffset StringEdit_base ed off) < length (StringEdit_apply ed s) \<and>
      StringEdit_apply ed s ! nat (BaseEdit_applyToOffset StringEdit_base ed off) = s ! nat off"
    by (simp_all add: BaseEdit_applyToOffsetOrUndefined_def BaseEdit_applyInverseToOffset_def BaseEdit_applyToOffset_def
        string_apply [OF w])
  moreover have "BaseEdit_applyToOffset StringEdit_base ed (start rg) \<le> BaseEdit_applyToOffset StringEdit_base ed (endExclusive rg)"
    unfolding BaseEdit_applyToOffset_def by (rule string_repl.applyToOffset_mono [OF _ f range]) simp
  ultimately show ?thesis using off by (simp add: BaseEdit_applyToOffsetRange_def js_at_def nat_less_iff)
qed

lemma applyToOffset_follows_witness:
  "BaseEdit_applyToOffset StringEdit_base example_edit 4 = 4 \<and>
   BaseEdit_applyInverseToOffset StringEdit_base example_edit 4 = 4 \<and>
   js_at (StringEdit_apply example_edit example_text) 4 = Some 111"
proof -
  have "BaseEdit_applyToOffset StringEdit_base example_edit 4 = 4"
    by (simp add: BaseEdit_applyToOffset_def example_edit_def OffsetRange_length_def)
  with applyToOffset_follows [of example_edit example_text 4 "mk_offset 0 2"] show ?thesis
    by (simp add: example_within) (simp add: example_edit_def example_text_def OffsetRange_contains_def)
qed

end
