(* ===== verification/Array_Edits.thy ===== *)
theory Array_Edits
  imports Edit_Laws
begin

text \<open>
  \<open>src/vs/editor/common/core/edits/arrayEdit.ts\<close> and \<open>lengthEdit.ts\<close>: edits of arrays and edits that
  record only lengths.  Both kinds of replacement satisfy the interface of \<open>Edit_Laws\<close> (a length
  replacement stands for that many unit values), so \<open>compose\<close> and \<open>normalize\<close> are correct for them.
\<close>

section \<open>Array edits\<close>

record 'a ArrayReplacement =
  arr_range :: OffsetRange
  newValue :: "'a list"

definition ArrayReplacement_equals :: "'a ArrayReplacement \<Rightarrow> 'a ArrayReplacement \<Rightarrow> bool" where
  "ArrayReplacement_equals r other \<longleftrightarrow>
     OffsetRange_equals (arr_range r) (arr_range other) \<and> length (newValue r) = length (newValue other) \<and>
     list_all2 (=) (newValue r) (newValue other)"

definition ArrayReplacement_tryJoinTouching ::
    "'a ArrayReplacement \<Rightarrow> 'a ArrayReplacement \<Rightarrow> 'a ArrayReplacement option result" where
  "ArrayReplacement_tryJoinTouching r other =
     rbind (OffsetRange_joinRightTouching (arr_range r) (arr_range other)) (\<lambda>rg.
     Inr (Some \<lparr>arr_range = rg, newValue = newValue r @ newValue other\<rparr>))"

definition ArrayReplacement_slice :: "'a ArrayReplacement \<Rightarrow> OffsetRange \<Rightarrow> OffsetRange \<Rightarrow> 'a ArrayReplacement" where
  "ArrayReplacement_slice r rg w = \<lparr>arr_range = rg, newValue = OffsetRange_slice w (newValue r)\<rparr>"

definition ArrayReplacement_class :: "'a ArrayReplacement replacement_class" where
  "ArrayReplacement_class =
     \<lparr>replaceRange = arr_range, getNewLength = (\<lambda>r. int (length (newValue r))),
      tryJoinTouching = ArrayReplacement_tryJoinTouching, sliceReplacement = ArrayReplacement_slice,
      equalsReplacement = ArrayReplacement_equals\<rparr>"

definition ArrayEdit_new :: "'a ArrayReplacement list \<Rightarrow> 'a ArrayReplacement BaseEdit result" where
  "ArrayEdit_new rs = BaseEdit_new ArrayReplacement_class rs"

definition ArrayEdit_replace :: "OffsetRange \<Rightarrow> 'a list \<Rightarrow> 'a ArrayReplacement BaseEdit result" where
  "ArrayEdit_replace rg v = ArrayEdit_new [\<lparr>arr_range = rg, newValue = v\<rparr>]"

definition ArrayEdit_insert :: "int \<Rightarrow> 'a list \<Rightarrow> 'a ArrayReplacement BaseEdit result" where
  "ArrayEdit_insert offset v =
     rbind (OffsetRange_emptyAt offset) (\<lambda>rg. ArrayEdit_new [\<lparr>arr_range = rg, newValue = v\<rparr>])"

definition ArrayEdit_delete :: "OffsetRange \<Rightarrow> 'a ArrayReplacement BaseEdit result" where
  "ArrayEdit_delete rg = ArrayEdit_new [\<lparr>arr_range = rg, newValue = []\<rparr>]"

fun ArrayEdit_apply_loop :: "'a list \<Rightarrow> 'a ArrayReplacement list \<Rightarrow> int \<Rightarrow> 'a list \<Rightarrow> 'a list" where
  "ArrayEdit_apply_loop data [] p out = out @ js_slice data p (int (length data))"
| "ArrayEdit_apply_loop data (r # rs) p out =
     ArrayEdit_apply_loop data rs (endExclusive (arr_range r))
       (out @ js_slice data p (start (arr_range r)) @ newValue r)"

definition ArrayEdit_apply :: "'a ArrayReplacement BaseEdit \<Rightarrow> 'a list \<Rightarrow> 'a list" where
  "ArrayEdit_apply ed data = ArrayEdit_apply_loop data (replacements ed) 0 []"

fun ArrayEdit_inverse_loop :: "'a list \<Rightarrow> 'a ArrayReplacement list \<Rightarrow> int \<Rightarrow> 'a ArrayReplacement list result" where
  "ArrayEdit_inverse_loop baseVal [] offset = Inr []"
| "ArrayEdit_inverse_loop baseVal (r # rs) offset =
     rbind (OffsetRange_ofStartAndLength (start (arr_range r) + offset) (int (length (newValue r)))) (\<lambda>rg.
     rbind (ArrayEdit_inverse_loop baseVal rs
              (offset + (int (length (newValue r)) - OffsetRange_length (arr_range r)))) (\<lambda>es.
     Inr (\<lparr>arr_range = rg, newValue = js_slice baseVal (start (arr_range r)) (endExclusive (arr_range r))\<rparr> # es)))"

definition ArrayEdit_inverse :: "'a ArrayReplacement BaseEdit \<Rightarrow> 'a list \<Rightarrow> 'a ArrayReplacement BaseEdit result" where
  "ArrayEdit_inverse ed baseVal = rbind (ArrayEdit_inverse_loop baseVal (replacements ed) 0) ArrayEdit_new"

section \<open>Length edits\<close>

record LengthReplacement =
  len_range :: OffsetRange
  lenNewLength :: int

definition LengthReplacement_create :: "int \<Rightarrow> int \<Rightarrow> int \<Rightarrow> LengthReplacement result" where
  "LengthReplacement_create startOffset endOffsetExclusive n =
     rbind (OffsetRange_new startOffset endOffsetExclusive) (\<lambda>rg. Inr \<lparr>len_range = rg, lenNewLength = n\<rparr>)"

definition LengthReplacement_equals :: "LengthReplacement \<Rightarrow> LengthReplacement \<Rightarrow> bool" where
  "LengthReplacement_equals r other \<longleftrightarrow>
     OffsetRange_equals (len_range r) (len_range other) \<and> lenNewLength r = lenNewLength other"

definition LengthReplacement_tryJoinTouching ::
    "LengthReplacement \<Rightarrow> LengthReplacement \<Rightarrow> LengthReplacement option result" where
  "LengthReplacement_tryJoinTouching r other =
     rbind (OffsetRange_joinRightTouching (len_range r) (len_range other)) (\<lambda>rg.
     Inr (Some \<lparr>len_range = rg, lenNewLength = lenNewLength r + lenNewLength other\<rparr>))"

definition LengthReplacement_slice :: "LengthReplacement \<Rightarrow> OffsetRange \<Rightarrow> OffsetRange \<Rightarrow> LengthReplacement" where
  "LengthReplacement_slice r rg w = \<lparr>len_range = rg, lenNewLength = OffsetRange_length w\<rparr>"

definition LengthReplacement_class :: "LengthReplacement replacement_class" where
  "LengthReplacement_class =
     \<lparr>replaceRange = len_range, getNewLength = lenNewLength,
      tryJoinTouching = LengthReplacement_tryJoinTouching, sliceReplacement = LengthReplacement_slice,
      equalsReplacement = LengthReplacement_equals\<rparr>"

definition LengthEdit_new :: "LengthReplacement list \<Rightarrow> LengthReplacement BaseEdit result" where
  "LengthEdit_new rs = BaseEdit_new LengthReplacement_class rs"

definition LengthEdit_empty :: "LengthReplacement BaseEdit" where
  "LengthEdit_empty = \<lparr>replacements = []\<rparr>"

definition LengthEdit_fromEdit :: "'t replacement_class \<Rightarrow> 't BaseEdit \<Rightarrow> LengthReplacement BaseEdit result" where
  "LengthEdit_fromEdit C ed =
     LengthEdit_new (List.map (\<lambda>r. \<lparr>len_range = replaceRange C r, lenNewLength = getNewLength C r\<rparr>) (replacements ed))"

definition LengthEdit_replace :: "OffsetRange \<Rightarrow> int \<Rightarrow> LengthReplacement BaseEdit result" where
  "LengthEdit_replace rg n = LengthEdit_new [\<lparr>len_range = rg, lenNewLength = n\<rparr>]"

definition LengthEdit_insert :: "int \<Rightarrow> int \<Rightarrow> LengthReplacement BaseEdit result" where
  "LengthEdit_insert offset n =
     rbind (OffsetRange_emptyAt offset) (\<lambda>rg. LengthEdit_new [\<lparr>len_range = rg, lenNewLength = n\<rparr>])"

definition LengthEdit_delete :: "OffsetRange \<Rightarrow> LengthReplacement BaseEdit result" where
  "LengthEdit_delete rg = LengthEdit_new [\<lparr>len_range = rg, lenNewLength = 0\<rparr>]"

definition LengthEdit_compose :: "LengthReplacement BaseEdit list \<Rightarrow> LengthReplacement BaseEdit result" where
  "LengthEdit_compose edits = rfold (\<lambda>x acc. BaseEdit_compose LengthReplacement_class acc x) edits LengthEdit_empty"

fun LengthEdit_inverse_loop :: "LengthReplacement list \<Rightarrow> int \<Rightarrow> LengthReplacement list result" where
  "LengthEdit_inverse_loop [] offset = Inr []"
| "LengthEdit_inverse_loop (r # rs) offset =
     rbind (OffsetRange_ofStartAndLength (start (len_range r) + offset) (lenNewLength r)) (\<lambda>rg.
     rbind (LengthEdit_inverse_loop rs (offset + (lenNewLength r - OffsetRange_length (len_range r)))) (\<lambda>es.
     Inr (\<lparr>len_range = rg, lenNewLength = OffsetRange_length (len_range r)\<rparr> # es)))"

definition LengthEdit_inverse :: "LengthReplacement BaseEdit \<Rightarrow> LengthReplacement BaseEdit result" where
  "LengthEdit_inverse ed = rbind (LengthEdit_inverse_loop (replacements ed) 0) LengthEdit_new"

text \<open>
  \<open>applyArray\<close>: \<open>new Array(n)\<close> throws unless \<open>n\<close> is below \<open>2^32\<close> and not negative; the loops write \<open>newArr[dstPos++]\<close>, reading
  \<open>undefined\<close> (None) outside the source.  Slots that are not written stay undefined.
\<close>

fun applyArray_loop :: "'a list \<Rightarrow> 'a \<Rightarrow> LengthReplacement list \<Rightarrow> int \<Rightarrow> 'a option list" where
  "applyArray_loop arr fillItem [] srcPos =
     List.map (js_at arr) [srcPos..int (length arr) - 1]"
| "applyArray_loop arr fillItem (r # rs) srcPos =
     List.map (js_at arr) [srcPos..start (len_range r) - 1] @
     replicate (nat (lenNewLength r)) (Some fillItem) @
     applyArray_loop arr fillItem rs (endExclusive (len_range r))"

definition LengthEdit_applyArray :: "LengthReplacement BaseEdit \<Rightarrow> 'a list \<Rightarrow> 'a \<Rightarrow> 'a option list result" where
  "LengthEdit_applyArray ed arr fillItem =
     (let n = BaseEdit_getNewDataLength LengthReplacement_class ed (int (length arr));
          written = applyArray_loop arr fillItem (replacements ed) 0
      in if n < 0 \<or> n \<ge> 4294967296 then Inl RangeError
         else Inr (written @ replicate (nat n - length written) None))"

section \<open>The interface\<close>

lemma ArrayReplacement_class_sel [simp]:
  "replaceRange ArrayReplacement_class = arr_range"
  "getNewLength ArrayReplacement_class = (\<lambda>r. int (length (newValue r)))"
  "tryJoinTouching ArrayReplacement_class = ArrayReplacement_tryJoinTouching"
  "sliceReplacement ArrayReplacement_class = ArrayReplacement_slice"
  by (simp_all add: ArrayReplacement_class_def)

lemma LengthReplacement_class_sel [simp]:
  "replaceRange LengthReplacement_class = len_range"
  "getNewLength LengthReplacement_class = lenNewLength"
  "tryJoinTouching LengthReplacement_class = LengthReplacement_tryJoinTouching"
  "sliceReplacement LengthReplacement_class = LengthReplacement_slice"
  by (simp_all add: LengthReplacement_class_def)

interpretation array_repl: replacement ArrayReplacement_class newValue "\<lambda>_. True"
  by unfold_locales
    (auto simp: ArrayReplacement_slice_def OffsetRange_slice_def js_slice_in
      ArrayReplacement_tryJoinTouching_def OffsetRange_joinRightTouching_def offset_wf_def)

interpretation length_repl: replacement LengthReplacement_class
  "\<lambda>r. replicate (nat (lenNewLength r)) ()" "\<lambda>r. 0 \<le> lenNewLength r"
  by unfold_locales
    (auto simp: LengthReplacement_slice_def OffsetRange_length_def
      LengthReplacement_tryJoinTouching_def OffsetRange_joinRightTouching_def offset_wf_def
      nat_add_distrib replicate_add min_def)

definition array_within :: "'a ArrayReplacement BaseEdit \<Rightarrow> nat \<Rightarrow> bool" where
  "array_within ed n \<longleftrightarrow> fits arr_range 0 (int n) (replacements ed)"

lemma ArrayEdit_apply_loop_appl:
  "fits arr_range p (int (length xs)) rs \<Longrightarrow> 0 \<le> p \<Longrightarrow>
     ArrayEdit_apply_loop xs rs p out = out @ appl arr_range newValue p rs (drop (nat p) xs)"
proof (induction rs arbitrary: p out)
  case Nil
  then show ?case by (simp add: js_slice_in)
next
  case (Cons r rs)
  let ?s = "start (arr_range r)" and ?e = "endExclusive (arr_range r)"
  have r: "p \<le> ?s" "?s \<le> ?e" "fits arr_range ?e (int (length xs)) rs" using Cons.prems by auto
  then have "?e \<le> int (length xs)" using fits_le by blast
  then have "js_slice xs p ?s = take (nat (?s - p)) (drop (nat p) xs)"
    using r Cons.prems(2) by (simp add: js_slice_in)
  moreover have "drop (nat (?e - p)) (drop (nat p) xs) = drop (nat ?e) xs"
    using r Cons.prems(2) by (simp flip: nat_add_distrib)
  ultimately show ?case using Cons.IH [OF r(3)] r Cons.prems(2) by (simp del: drop_drop)
qed

lemma array_apply:
  "array_within ed (length xs) \<Longrightarrow> ArrayEdit_apply ed xs = appl arr_range newValue 0 (replacements ed) xs"
  using ArrayEdit_apply_loop_appl [of 0 xs "replacements ed" "[]"] by (simp add: ArrayEdit_apply_def array_within_def)

lemma map_js_at_upto:
  "0 \<le> a \<Longrightarrow> a \<le> b \<Longrightarrow> b \<le> int (length xs) \<Longrightarrow>
     List.map (js_at xs) [a..b - 1] = List.map Some (take (nat (b - a)) (drop (nat a) xs))"
  by (rule nth_equalityI) (auto simp: nth_upto nat_add_distrib)

lemma applyArray_loop_appl:
  "fits len_range p (int (length xs)) rs \<Longrightarrow> 0 \<le> p \<Longrightarrow>
     applyArray_loop xs c rs p =
       List.map Some (appl len_range (\<lambda>r. replicate (nat (lenNewLength r)) c) p rs (drop (nat p) xs))"
proof (induction rs arbitrary: p)
  case Nil
  then show ?case using map_js_at_upto [of p "int (length xs)" xs] by simp
next
  case (Cons r rs)
  let ?s = "start (len_range r)" and ?e = "endExclusive (len_range r)"
  have r: "p \<le> ?s" "?s \<le> ?e" "fits len_range ?e (int (length xs)) rs" using Cons.prems by auto
  then have "?e \<le> int (length xs)" using fits_le by blast
  moreover have "drop (nat (?e - p)) (drop (nat p) xs) = drop (nat ?e) xs"
    using r Cons.prems(2) by (simp flip: nat_add_distrib)
  ultimately show ?case
    using Cons.IH [OF r(3)] r Cons.prems(2) map_js_at_upto [of p ?s xs] by (simp del: drop_drop)
qed

text \<open>\<open>inverse\<close> lists the replaced items at the new ranges.\<close>

lemma ArrayEdit_inverse_loop_ok:
  assumes "fits arr_range p (int (length xs)) rs" and "0 \<le> p"
  shows "ArrayEdit_inverse_loop xs rs d =
    Inr (List.map (\<lambda>(g, v). \<lparr>arr_range = g, newValue = v\<rparr>) (inverses arr_range newValue xs rs d))"
  using assms
proof (induction rs arbitrary: p d)
  case (Cons r rs)
  then have r: "0 \<le> start (arr_range r)" "start (arr_range r) \<le> endExclusive (arr_range r)"
    "fits arr_range (endExclusive (arr_range r)) (int (length xs)) rs" by auto
  then have "endExclusive (arr_range r) \<le> int (length xs)" using fits_le by blast
  then show ?case using Cons.IH [OF r(3)] r by (simp add: OffsetRange_ofStartAndLength_def OffsetRange_length_def js_slice_in)
qed simp

lemma array_inverse:
  assumes "array_within ed (length xs)"
  obtains inv where "ArrayEdit_inverse ed xs = Inr inv" and "array_within inv (length (ArrayEdit_apply ed xs))"
    and "ArrayEdit_apply inv (ArrayEdit_apply ed xs) = xs"
proof -
  let ?ys = "ArrayEdit_apply ed xs"
  define inv where "inv = \<lparr>replacements = List.map (\<lambda>(g, v). \<lparr>arr_range = g, newValue = v\<rparr>)
      (inverses arr_range newValue xs (replacements ed) 0)\<rparr>"
  have f: "fits arr_range 0 (int (length xs)) (replacements ed)" using assms by (simp add: array_within_def)
  note eff = inverses_effect [OF f order_refl, of 0 newValue]
  have within: "array_within inv (length ?ys)"
    using eff by (simp add: inv_def array_within_def array_apply [OF assms] fits_through case_prod_unfold)
  have "ArrayEdit_inverse ed xs = Inr inv"
    using ArrayEdit_inverse_loop_ok [OF f, of 0] fits_check [of ArrayReplacement_class 0 "int (length ?ys)" "replacements inv" "- 1"] within
    by (simp add: ArrayEdit_inverse_def ArrayEdit_new_def BaseEdit_new_def inv_def array_within_def)
  moreover have "ArrayEdit_apply inv ?ys = xs"
    using eff unfolding array_apply [OF within] by (simp add: inv_def array_apply [OF assms] appl_map case_prod_unfold)
  ultimately show thesis using within that by blast
qed

section \<open>Properties\<close>

text \<open>C40: Array edits compose: for edits within their arrays, \<open>compose\<close> never throws and the composed
  edit applied to the array equals the second edit applied to the result of the first.\<close>

theorem ArrayEdit_compose_applies:
  assumes "array_within a (length xs)" and "array_within b (length (ArrayEdit_apply a xs))"
  shows "\<exists>c. BaseEdit_compose ArrayReplacement_class a b = Inr c \<and>
    ArrayEdit_apply c xs = ArrayEdit_apply b (ArrayEdit_apply a xs)"
proof -
  note w = assms [unfolded array_within_def array_apply [OF assms(1)]]
  obtain c where c: "BaseEdit_compose ArrayReplacement_class a b = Inr c"
    "fits arr_range 0 (int (length xs)) (replacements c)"
    "appl arr_range newValue 0 (replacements c) xs =
      appl arr_range newValue 0 (replacements b) (appl arr_range newValue 0 (replacements a) xs)"
    using array_repl.compose_effect [of a xs b] w by auto
  then have "array_within c (length xs)" by (simp add: array_within_def)
  with c assms show ?thesis by (simp add: array_apply)
qed

lemma ArrayEdit_compose_applies_witness:
  "\<exists>c. BaseEdit_compose ArrayReplacement_class
      \<lparr>replacements = [\<lparr>arr_range = mk_offset 0 1, newValue = [7, 8 :: int]\<rparr>]\<rparr>
      \<lparr>replacements = [\<lparr>arr_range = mk_offset 1 3, newValue = []\<rparr>]\<rparr> = Inr c \<and>
     ArrayEdit_apply c [1, 2, 3 :: int] = [7, 3]"
  using ArrayEdit_compose_applies [of "\<lparr>replacements = [\<lparr>arr_range = mk_offset 0 1, newValue = [7, 8 :: int]\<rparr>]\<rparr>"
      "[1, 2, 3]" "\<lparr>replacements = [\<lparr>arr_range = mk_offset 1 3, newValue = []\<rparr>]\<rparr>"]
  by (simp add: array_within_def ArrayEdit_apply_def js_slice_in)

text \<open>\<open>LengthEdit.applyArray\<close> of a length edit within the array writes every slot of the new array:
  the kept items in order, and \<open>newLength\<close> fill items for each replaced range.\<close>

theorem LengthEdit_applyArray_fills:
  assumes "fits len_range 0 (int (length arr)) (replacements ed)"
    and "list_all (\<lambda>r. 0 \<le> lenNewLength r) (replacements ed)"
    and "BaseEdit_getNewDataLength LengthReplacement_class ed (int (length arr)) < 4294967296"
  shows "LengthEdit_applyArray ed arr c = Inr (List.map Some
    (appl len_range (\<lambda>r. replicate (nat (lenNewLength r)) c) 0 (replacements ed) arr))"
proof -
  let ?t = "appl len_range (\<lambda>r. replicate (nat (lenNewLength r)) c) 0 (replacements ed) arr"
  have "foldl (\<lambda>sum r. sum + BaseReplacement_getLengthDelta LengthReplacement_class r) k rs =
      k + delta_sum len_range (\<lambda>r. replicate (nat (lenNewLength r)) c) rs"
    if "list_all (\<lambda>r. 0 \<le> lenNewLength r) rs" for k rs
    using that
    by (induction rs arbitrary: k) (auto simp: BaseReplacement_getLengthDelta_def OffsetRange_length_def)
  from this [OF assms(2), of 0] have "BaseEdit_getNewDataLength LengthReplacement_class ed (int (length arr)) = int (length ?t)"
    using length_appl [OF assms(1), of arr "\<lambda>r. replicate (nat (lenNewLength r)) c"]
    by (simp add: BaseEdit_getNewDataLength_def BaseEdit_getLengthDelta_def)
  then show ?thesis
    using applyArray_loop_appl [OF assms(1), of c] assms(3) by (simp add: LengthEdit_applyArray_def Let_def)
qed

lemma LengthEdit_applyArray_fills_witness:
  "LengthEdit_applyArray \<lparr>replacements = [\<lparr>len_range = mk_offset 1 2, lenNewLength = 2\<rparr>]\<rparr> [5, 6, 7 :: int] 0 =
     Inr [Some 5, Some 0, Some 0, Some 7]"
  using LengthEdit_applyArray_fills [of "[5, 6, 7 :: int]" "\<lparr>replacements = [\<lparr>len_range = mk_offset 1 2, lenNewLength = 2\<rparr>]\<rparr>" 0]
  by (simp add: numeral_2_eq_2 BaseEdit_getNewDataLength_def BaseEdit_getLengthDelta_def
      BaseReplacement_getLengthDelta_def OffsetRange_length_def)

end
