(* ===== verification/Prefix_Sums.thy ===== *)
theory Prefix_Sums
  imports Prelude
begin

text \<open>
  \<open>src/vs/editor/common/model/prefixSumComputer.ts\<close> and the conversion \<open>toUint32\<close> of
  \<open>src/vs/base/common/uint.ts\<close>.  \<open>PrefixSumComputer\<close> keeps its values and a lazily extended cache of
  prefix sums in typed arrays, so both are lists of 32-bit words and sums wrap; a read outside the
  array is undefined (None), a write outside it is ignored.  The valid index is the entry of an \<open>Int32Array\<close> and
  the middle of the binary search is truncated, so both wrap to 32 bits; the theorems are about arrays of less than
  \<open>2 ^ 31\<close> values.  \<open>ConstantTimePrefixSumComputer\<close> keeps
  ordinary arrays of numbers and a table from sums to indices.  The invariants say which part of a
  cache can be trusted; both classes satisfy the interface \<open>index_lookup\<close>.
\<close>

section \<open>The 32-bit computer\<close>

definition toUint32 :: "int \<Rightarrow> int" where
  "toUint32 v = (if v < 0 then 0 else if v > 4294967295 then 4294967295 else to_int32 v)"

definition toUint8 :: "int \<Rightarrow> int" where
  "toUint8 v = (if v < 0 then 0 else if v > 255 then 255 else to_int32 v)"

text \<open>Element access of a typed array.\<close>

definition word_at :: "32 word list \<Rightarrow> int \<Rightarrow> int option" where
  "word_at xs i = map_option uint (js_at xs i)"

definition word_put :: "32 word list \<Rightarrow> int \<Rightarrow> int \<Rightarrow> 32 word list" where
  "word_put xs i v = (if 0 \<le> i \<and> i < int (length xs) then xs[nat i := word_of_int v] else xs)"

record PrefixSumComputer =
  ps_values :: "32 word list"
  prefixSum :: "32 word list"
  prefixSumValidIndex :: int

definition PrefixSumComputer_new :: "32 word list \<Rightarrow> PrefixSumComputer" where
  "PrefixSumComputer_new values =
     \<lparr>ps_values = values, prefixSum = replicate (length values) 0, prefixSumValidIndex = - 1\<rparr>"

definition PrefixSumComputer_getCount :: "PrefixSumComputer \<Rightarrow> int" where
  "PrefixSumComputer_getCount st = int (length (ps_values st))"

text \<open>\<open>new Uint32Array(n)\<close> with the trusted part of the old cache copied into it.\<close>

definition copy_trusted :: "32 word list \<Rightarrow> int \<Rightarrow> nat \<Rightarrow> 32 word list" where
  "copy_trusted old valid n =
     (if valid \<ge> 0 then take (nat (valid + 1)) old @ replicate (n - length (take (nat (valid + 1)) old)) 0
      else replicate n 0)"

text \<open>\<open>TypedArray.set\<close> throws a RangeError when the source does not fit behind the offset.\<close>

definition PrefixSumComputer_insertValues ::
    "PrefixSumComputer \<Rightarrow> int \<Rightarrow> 32 word list \<Rightarrow> (bool \<times> PrefixSumComputer) result" where
  "PrefixSumComputer_insertValues st insertIndex0 insertValues =
     (let insertIndex = toUint32 insertIndex0; old = ps_values st
      in if insertValues = [] then Inr (False, st)
         else if insertIndex < 0 \<or> insertIndex > int (length old) then Inl RangeError
         else
           let values = take (nat insertIndex) old @ insertValues @ drop (nat insertIndex) old;
               valid = (if insertIndex - 1 < prefixSumValidIndex st then to_int32 (insertIndex - 1) else prefixSumValidIndex st)
           in Inr (True, \<lparr>ps_values = values, prefixSum = copy_trusted (prefixSum st) valid (length values),
                          prefixSumValidIndex = valid\<rparr>))"

definition PrefixSumComputer_setValue :: "PrefixSumComputer \<Rightarrow> int \<Rightarrow> int \<Rightarrow> bool \<times> PrefixSumComputer" where
  "PrefixSumComputer_setValue st index0 value0 =
     (let index = toUint32 index0; v = toUint32 value0
      in if word_at (ps_values st) index = Some v then (False, st)
         else (True, st\<lparr>ps_values := word_put (ps_values st) index v,
                        prefixSumValidIndex :=
                          (if index - 1 < prefixSumValidIndex st then to_int32 (index - 1) else prefixSumValidIndex st)\<rparr>))"

definition PrefixSumComputer_removeValues :: "PrefixSumComputer \<Rightarrow> int \<Rightarrow> int \<Rightarrow> (bool \<times> PrefixSumComputer) result" where
  "PrefixSumComputer_removeValues st startIndex0 count0 =
     (let startIndex = toUint32 startIndex0; count1 = toUint32 count0; old = ps_values st
      in if startIndex \<ge> int (length old) then Inr (False, st)
         else
           let maxCount = int (length old) - startIndex;
               count = (if count1 \<ge> maxCount then maxCount else count1)
           in if count = 0 then Inr (False, st)
              else if startIndex < 0 \<or> count < 0 then Inl RangeError
              else
                let values = take (nat startIndex) old @ drop (nat (startIndex + count)) old;
                    valid = (if startIndex - 1 < prefixSumValidIndex st then to_int32 (startIndex - 1) else prefixSumValidIndex st)
                in Inr (True, \<lparr>ps_values = values, prefixSum = copy_trusted (prefixSum st) valid (length values),
                               prefixSumValidIndex = valid\<rparr>))"

text \<open>
  \<open>for (let i = startIndex; i <= index; i++)\<close> of \<open>_getPrefixSum\<close>: a sum with \<open>undefined\<close> is NaN and stored as 0.
\<close>

function fill_sums :: "32 word list \<Rightarrow> 32 word list \<Rightarrow> int \<Rightarrow> int \<Rightarrow> 32 word list" where
  "fill_sums values sums i index =
     (if i \<le> index
      then fill_sums values
             (word_put sums i (case (word_at sums (i - 1), word_at values i) of (Some a, Some b) \<Rightarrow> a + b | _ \<Rightarrow> 0)) (i + 1) index
      else sums)"
  by pat_completeness auto
termination by (relation "measure (\<lambda>(values, sums, i, index). nat (index + 1 - i))") auto

declare fill_sums.simps [simp del]

definition getPrefixSum' :: "PrefixSumComputer \<Rightarrow> int \<Rightarrow> int option \<times> PrefixSumComputer" where
  "getPrefixSum' st index0 =
     (if index0 \<le> prefixSumValidIndex st then (word_at (prefixSum st) index0, st)
      else
        let startIndex0 = prefixSumValidIndex st + 1;
            sums0 = (if startIndex0 = 0
                     then (case ps_values st of [] \<Rightarrow> prefixSum st | v # _ \<Rightarrow> (prefixSum st)[0 := v])
                     else prefixSum st);
            startIndex = (if startIndex0 = 0 then startIndex0 + 1 else startIndex0);
            index = (if index0 \<ge> int (length (ps_values st)) then int (length (ps_values st)) - 1 else index0);
            sums = fill_sums (ps_values st) sums0 startIndex index
        in (word_at sums index,
            st\<lparr>prefixSum := sums, prefixSumValidIndex := to_int32 (max (prefixSumValidIndex st) index)\<rparr>))"

definition PrefixSumComputer_getTotalSum :: "PrefixSumComputer \<Rightarrow> int option \<times> PrefixSumComputer" where
  "PrefixSumComputer_getTotalSum st =
     (if ps_values st = [] then (Some 0, st)
      else getPrefixSum' st (int (length (ps_values st)) - 1))"

definition PrefixSumComputer_getPrefixSum :: "PrefixSumComputer \<Rightarrow> int \<Rightarrow> int option \<times> PrefixSumComputer" where
  "PrefixSumComputer_getPrefixSum st index =
     (if index < 0 then (Some 0, st) else getPrefixSum' st (toUint32 index))"

record PrefixSumIndexOfResult =
  psi_index :: int
  remainder :: int

text \<open>
  The binary search of \<open>getIndexOf\<close> with \<open>mid\<close> and \<open>midStart\<close> of the last round; None is NaN or \<open>undefined\<close>, which no
  comparison holds of.  \<open>mid\<close> is truncated to 32 bits, so the search need not come to an end on a longer array.
\<close>

partial_function (option) getIndexOf_loop ::
    "32 word list \<Rightarrow> 32 word list \<Rightarrow> int \<Rightarrow> int \<Rightarrow> int \<Rightarrow> int \<Rightarrow> int option \<Rightarrow> (int \<times> int option) option" where
  "getIndexOf_loop values sums target low high mid midStart =
     (if low \<le> high
      then
        let mid' = to_int32 (low + (high - low) div 2);
            midStop = word_at sums mid';
            midStart' = (case (midStop, word_at values mid') of (Some p, Some v) \<Rightarrow> Some (p - v) | _ \<Rightarrow> None)
        in if \<exists>s \<in> set_option midStart'. target < s then getIndexOf_loop values sums target low (mid' - 1) mid' midStart'
           else if \<exists>p \<in> set_option midStop. target \<ge> p then getIndexOf_loop values sums target (mid' + 1) high mid' midStart'
           else Some (mid', midStart')
      else Some (mid, midStart))"

declare getIndexOf_loop.simps [code]

text \<open>The outer option is whether the search returns, the inner one whether the remainder is a number.\<close>

definition PrefixSumComputer_getIndexOf ::
    "PrefixSumComputer \<Rightarrow> int \<Rightarrow> (PrefixSumIndexOfResult option \<times> PrefixSumComputer) option" where
  "PrefixSumComputer_getIndexOf st target =
     (let st' = snd (PrefixSumComputer_getTotalSum st)
      in map_option (\<lambda>(mid, midStart). (map_option (\<lambda>s. \<lparr>psi_index = mid, remainder = target - s\<rparr>) midStart, st'))
           (getIndexOf_loop (ps_values st') (prefixSum st') target 0 (int (length (ps_values st')) - 1) 0 (Some 0)))"

section \<open>The constant-time computer\<close>

text \<open>Writing and truncating an ordinary array: a hole is None.\<close>

definition js_put :: "'a option list \<Rightarrow> int \<Rightarrow> 'a \<Rightarrow> 'a option list" where
  "js_put xs i v =
     (if i < 0 then xs
      else if i < int (length xs) then xs[nat i := Some v]
      else xs @ replicate (nat i - length xs) None @ [Some v])"

definition js_set_length :: "'a option list \<Rightarrow> int \<Rightarrow> 'a option list result" where
  "js_set_length xs n =
     (if n < 0 \<or> n \<ge> 4294967296 then Inl RangeError
      else Inr (take (nat n) xs @ replicate (nat n - length xs) None))"

record ConstantTimePrefixSumComputer =
  ct_values :: "int list"
  isValid :: bool
  validEndIndex :: int
  ct_prefixSum :: "int option list"
  indexBySum :: "int option list"

definition ConstantTimePrefixSumComputer_new :: "int list \<Rightarrow> ConstantTimePrefixSumComputer" where
  "ConstantTimePrefixSumComputer_new values =
     \<lparr>ct_values = values, isValid = False, validEndIndex = - 1, ct_prefixSum = [], indexBySum = []\<rparr>"

definition ct_invalidate :: "ConstantTimePrefixSumComputer \<Rightarrow> int \<Rightarrow> ConstantTimePrefixSumComputer" where
  "ct_invalidate st index = st\<lparr>isValid := False, validEndIndex := min (validEndIndex st) (index - 1)\<rparr>"

text \<open>\<open>for (let j = 0; j < v; j++) this._indexBySum[sumAbove + j] = i\<close>\<close>

fun write_index :: "int option list \<Rightarrow> int \<Rightarrow> int \<Rightarrow> nat \<Rightarrow> int option list" where
  "write_index table p i 0 = table"
| "write_index table p i (Suc n) = write_index (js_put table p i) (p + 1) i n"

text \<open>
  The loop of \<open>_ensureValid\<close> over the values from index \<open>i\<close> on; an undefined entry of the cache, which
  the invariant excludes, would make the sums NaN and ends the run with an error here.
\<close>

fun ensureValid_loop ::
    "int list \<Rightarrow> int \<Rightarrow> int option list \<Rightarrow> int option list \<Rightarrow> (int option list \<times> int option list) result" where
  "ensureValid_loop [] i sums table = Inr (sums, table)"
| "ensureValid_loop (v # values) i sums table =
     (case (if i > 0 then Option.bind (js_at sums (i - 1)) id else Some 0) of
        None \<Rightarrow> Inl JsTypeError
      | Some sumAbove \<Rightarrow>
          ensureValid_loop values (i + 1) (js_put sums i (sumAbove + v))
            (write_index table sumAbove i (nat v)))"

definition ct_ensureValid :: "ConstantTimePrefixSumComputer \<Rightarrow> ConstantTimePrefixSumComputer result" where
  "ct_ensureValid st =
     (if isValid st then Inr st
      else
        let n = int (length (ct_values st))
        in rbind (ensureValid_loop (drop (nat (validEndIndex st + 1)) (ct_values st)) (validEndIndex st + 1)
                    (ct_prefixSum st) (indexBySum st)) (\<lambda>(sums0, table0).
           rbind (js_set_length sums0 n) (\<lambda>sums.
           case (if n > 0 then Option.bind (js_at sums (n - 1)) id else Some 0) of
             None \<Rightarrow> Inl RangeError
           | Some sumAll \<Rightarrow>
               rbind (js_set_length table0 sumAll) (\<lambda>table.
               Inr (st\<lparr>ct_prefixSum := sums, indexBySum := table, isValid := True, validEndIndex := n - 1\<rparr>)))))"

definition ConstantTimePrefixSumComputer_getTotalSum ::
    "ConstantTimePrefixSumComputer \<Rightarrow> (int \<times> ConstantTimePrefixSumComputer) result" where
  "ConstantTimePrefixSumComputer_getTotalSum st =
     rbind (ct_ensureValid st) (\<lambda>st'. Inr (int (length (indexBySum st')), st'))"

definition ConstantTimePrefixSumComputer_getPrefixSum ::
    "ConstantTimePrefixSumComputer \<Rightarrow> int \<Rightarrow> (int option \<times> ConstantTimePrefixSumComputer) result" where
  "ConstantTimePrefixSumComputer_getPrefixSum st cnt =
     rbind (ct_ensureValid st) (\<lambda>st'.
     Inr (if cnt = 0 then Some 0 else Option.bind (js_at (ct_prefixSum st') (cnt - 1)) id, st'))"

text \<open>An undefined prefix sum would make the remainder NaN: None.\<close>

definition ConstantTimePrefixSumComputer_getIndexOf ::
    "ConstantTimePrefixSumComputer \<Rightarrow> int \<Rightarrow> (PrefixSumIndexOfResult option \<times> ConstantTimePrefixSumComputer) result" where
  "ConstantTimePrefixSumComputer_getIndexOf st target =
     rbind (ct_ensureValid st) (\<lambda>st'.
     let idx = (case Option.bind (js_at (indexBySum st') target) id of
                  None \<Rightarrow> max 0 (int (length (ct_values st')) - 1)
                | Some i \<Rightarrow> i);
         above = (if idx > 0 then Option.bind (js_at (ct_prefixSum st') (idx - 1)) id else Some 0)
     in Inr (map_option (\<lambda>a. \<lparr>psi_index = idx, remainder = target - a\<rparr>) above, st'))"

definition ConstantTimePrefixSumComputer_removeValues ::
    "ConstantTimePrefixSumComputer \<Rightarrow> int \<Rightarrow> int \<Rightarrow> ConstantTimePrefixSumComputer" where
  "ConstantTimePrefixSumComputer_removeValues st startI deleteCount =
     ct_invalidate (st\<lparr>ct_values := js_splice (ct_values st) startI deleteCount []\<rparr>) startI"

text \<open>\<open>arrayInsert\<close> is \<open>slice(0, i)\<close>, the new values, \<open>slice(i)\<close>.\<close>

definition ConstantTimePrefixSumComputer_insertValues ::
    "ConstantTimePrefixSumComputer \<Rightarrow> int \<Rightarrow> int list \<Rightarrow> ConstantTimePrefixSumComputer" where
  "ConstantTimePrefixSumComputer_insertValues st insertIndex insertArr =
     ct_invalidate (st\<lparr>ct_values := js_slice (ct_values st) 0 insertIndex @ insertArr @
       js_slice (ct_values st) insertIndex (int (length (ct_values st)))\<rparr>) insertIndex"

text \<open>
  \<open>setValue\<close> for an index of the array or its end; a write further out would leave holes in the
  array of values, which is outside this model (None).
\<close>

definition ConstantTimePrefixSumComputer_setValue ::
    "ConstantTimePrefixSumComputer \<Rightarrow> int \<Rightarrow> int \<Rightarrow> ConstantTimePrefixSumComputer option" where
  "ConstantTimePrefixSumComputer_setValue st index v =
     (if index < 0 \<or> index > int (length (ct_values st)) then None
      else if js_at (ct_values st) index = Some v then Some st
      else Some (ct_invalidate (st\<lparr>ct_values :=
             (if index < int (length (ct_values st)) then (ct_values st)[nat index := v]
              else ct_values st @ [v])\<rparr>) index))"

section \<open>Reference: a linear scan\<close>

definition psum :: "int list \<Rightarrow> nat \<Rightarrow> int" where
  "psum vs k = sum_list (take k vs)"

text \<open>The first index whose value covers the target, else the last index, by subtracting the values in turn.\<close>

fun scan_index :: "int list \<Rightarrow> int \<Rightarrow> int \<Rightarrow> PrefixSumIndexOfResult" where
  "scan_index [] i t = \<lparr>psi_index = i, remainder = t\<rparr>"
| "scan_index [v] i t = \<lparr>psi_index = i, remainder = t\<rparr>"
| "scan_index (v # w # vs) i t =
     (if t < v then \<lparr>psi_index = i, remainder = t\<rparr> else scan_index (w # vs) (i + 1) (t - v))"

lemma psum_0 [simp]: "psum vs 0 = 0"
  by (simp add: psum_def)

lemma psum_Suc: "k < length vs \<Longrightarrow> psum vs (Suc k) = psum vs k + vs ! k"
  by (simp add: psum_def take_Suc_conv_app_nth)

lemma psum_Cons [simp]: "psum (v # vs) (Suc k) = v + psum vs k"
  by (simp add: psum_def)

lemma psum_mono:
  assumes "\<forall>v \<in> set vs. 0 \<le> v" and "i \<le> j"
  shows "psum vs i \<le> psum vs j"
proof -
  have "take j vs = take i vs @ take (j - i) (drop i vs)"
    using assms(2) by (metis le_add_diff_inverse take_add)
  moreover have "0 \<le> sum_list (take (j - i) (drop i vs))"
    using assms(1) by (intro sum_list_nonneg) (meson in_set_dropD in_set_takeD)
  ultimately show ?thesis by (simp add: psum_def)
qed

lemma psum_all: "length vs \<le> k \<Longrightarrow> psum vs k = sum_list vs"
  by (simp add: psum_def)

lemma take_eq_shorter: "take m xs = take m ys \<Longrightarrow> k \<le> m \<Longrightarrow> take k xs = take k ys"
  by (metis min.absorb1 take_take)

lemma psum_cong: "take m vs = take m ws \<Longrightarrow> k \<le> m \<Longrightarrow> psum vs k = psum ws k"
  unfolding psum_def by (simp only: take_eq_shorter [of m vs ws k])

lemma scan_index_hit:
  assumes "\<forall>v \<in> set vs. 0 \<le> v" and "k < length vs" and "psum vs k \<le> t" and "t < psum vs (Suc k)"
  shows "scan_index vs i t = \<lparr>psi_index = i + int k, remainder = t - psum vs k\<rparr>"
  using assms
proof (induction vs i t arbitrary: k rule: scan_index.induct)
  case (3 v w vs i t)
  show ?case
  proof (cases k)
    case 0
    with 3 show ?thesis by simp
  next
    case (Suc k')
    have "v \<le> psum (v # w # vs) k"
      using psum_mono [of "w # vs" 0 k'] 3(2) Suc by simp
    then have "\<not> t < v" using 3 by simp
    then show ?thesis using 3(1) [of k'] 3(2-) Suc by (simp add: algebra_simps)
  qed
qed auto

lemma scan_index_miss:
  assumes "\<forall>v \<in> set vs. 0 \<le> v" and "sum_list vs \<le> t"
  shows "scan_index vs i t =
    \<lparr>psi_index = i + max 0 (int (length vs) - 1), remainder = t - psum vs (length vs - 1)\<rparr>"
  using assms
proof (induction vs i t rule: scan_index.induct)
  case (3 v w vs i t)
  have "0 \<le> sum_list (w # vs)" using 3(2) by (intro sum_list_nonneg) auto
  then have "\<not> t < v" using 3(3) by simp
  then show ?case using 3 by (simp add: algebra_simps)
qed auto

lemma psum_locate:
  assumes "\<forall>v \<in> set vs. 0 \<le> v" and "0 \<le> t" and "t < sum_list vs"
  shows "\<exists>k < length vs. psum vs k \<le> t \<and> t < psum vs (Suc k)"
  using assms
proof (induction vs arbitrary: t)
  case (Cons v vs)
  show ?case
  proof (cases "t < v")
    case True
    with Cons show ?thesis by (intro exI [of _ 0]) auto
  next
    case False
    then obtain k where "k < length vs" "psum vs k \<le> t - v" "t - v < psum vs (Suc k)"
      using Cons.IH [of "t - v"] Cons.prems by auto
    then show ?thesis by (intro exI [of _ "Suc k"]) auto
  qed
qed simp

text \<open>
  The contract of a computer of prefix sums: \<open>lookup\<close> answers like the scan over the values it holds.
\<close>

locale index_lookup =
  fixes held :: "'s \<Rightarrow> int list"
    and ready :: "'s \<Rightarrow> bool"
    and lookup :: "'s \<Rightarrow> int \<Rightarrow> PrefixSumIndexOfResult option"
  assumes held_nonneg: "ready st \<Longrightarrow> \<forall>v \<in> set (held st). 0 \<le> v"
    and lookup_scan: "ready st \<Longrightarrow> 0 \<le> t \<Longrightarrow> lookup st t = Some (scan_index (held st) 0 t)"
begin

lemma lookup_hit:
  assumes "ready st" and "0 \<le> t" and "t < sum_list (held st)"
  shows "\<exists>k < length (held st). psum (held st) k \<le> t \<and> t < psum (held st) (Suc k) \<and>
           lookup st t = Some \<lparr>psi_index = int k, remainder = t - psum (held st) k\<rparr>"
  using psum_locate [OF held_nonneg [OF assms(1)] assms(2,3)] scan_index_hit [OF held_nonneg [OF assms(1)]]
  by (auto simp: lookup_scan [OF assms(1,2)])

lemma lookup_sum:
  assumes "ready st" and "0 \<le> t" and "lookup st t = Some r"
  shows "psum (held st) (nat (psi_index r)) + remainder r = t"
proof (cases "t < sum_list (held st)")
  case True
  then show ?thesis using lookup_hit [OF assms(1,2)] assms(3) by auto
next
  case False
  then have "r = \<lparr>psi_index = max 0 (int (length (held st)) - 1),
      remainder = t - psum (held st) (length (held st) - 1)\<rparr>"
    using scan_index_miss [OF held_nonneg [OF assms(1)], of t 0] assms lookup_scan [OF assms(1,2)] by simp
  then show ?thesis by (cases "held st") simp_all
qed

lemma lookup_remainder_nonneg:
  assumes "ready st" and "0 \<le> t" and "lookup st t = Some r"
  shows "0 \<le> remainder r"
proof (cases "t < sum_list (held st)")
  case True
  then show ?thesis using lookup_hit [OF assms(1,2)] assms(3) by auto
next
  case False
  then have "r = \<lparr>psi_index = max 0 (int (length (held st)) - 1),
      remainder = t - psum (held st) (length (held st) - 1)\<rparr>"
    using scan_index_miss [OF held_nonneg [OF assms(1)], of t 0] assms lookup_scan [OF assms(1,2)] by simp
  moreover have "psum (held st) (length (held st) - 1) \<le> sum_list (held st)"
    using psum_mono [OF held_nonneg [OF assms(1)], of "length (held st) - 1" "length (held st)"]
    by (simp add: psum_all)
  ultimately show ?thesis using False by simp
qed

end

section \<open>Correctness of the 32-bit computer\<close>

text \<open>The sums up to \<open>valid\<close> are the wrapped prefix sums.\<close>

definition trusted :: "32 word list \<Rightarrow> 32 word list \<Rightarrow> int \<Rightarrow> bool" where
  "trusted values sums valid \<longleftrightarrow>
     (\<forall>k < length values. int k \<le> valid \<longrightarrow> sums ! k = sum_list (take (Suc k) values))"

definition ps_inv :: "PrefixSumComputer \<Rightarrow> bool" where
  "ps_inv st \<longleftrightarrow> length (ps_values st) < 2147483648 \<and> length (prefixSum st) = length (ps_values st) \<and> - 1 \<le> prefixSumValidIndex st \<and>
     prefixSumValidIndex st < int (length (ps_values st)) \<and>
     trusted (ps_values st) (prefixSum st) (prefixSumValidIndex st)"

lemma trusted_empty [simp]: "trusted values sums (- 1)"
  by (simp add: trusted_def)

lemma trusted_cong:
  assumes "trusted values sums valid" and "take (nat (valid' + 1)) values' = take (nat (valid' + 1)) values"
    and "take (nat (valid' + 1)) sums' = take (nat (valid' + 1)) sums" and "valid' \<le> valid"
    and "valid' < int (length values)"
  shows "trusted values' sums' valid'"
  unfolding trusted_def
proof (intro allI impI)
  fix k assume k: "k < length values'" "int k \<le> valid'"
  then have "Suc k \<le> nat (valid' + 1)" by simp
  then have "take (Suc k) values' = take (Suc k) values"
    by (rule take_eq_shorter [OF assms(2)])
  moreover have "sums' ! k = sums ! k"
    using assms(3) \<open>Suc k \<le> nat (valid' + 1)\<close> by (metis Suc_le_eq nth_take)
  ultimately show "sums' ! k = sum_list (take (Suc k) values')"
    using assms k by (simp add: trusted_def)
qed

lemma length_copy_trusted:
  "valid < int n \<Longrightarrow> length (copy_trusted old valid n) = n"
  by (auto simp: copy_trusted_def)

lemma take_copy_trusted:
  "valid < int (length old) \<Longrightarrow> take (nat (valid + 1)) (copy_trusted old valid n) = take (nat (valid + 1)) old"
  by (auto simp: copy_trusted_def)

lemma toUint32_nonneg_id: "0 \<le> v \<Longrightarrow> v < 2147483648 \<Longrightarrow> toUint32 v = v"
  by (simp add: toUint32_def is_int32_def)

lemma to_int32_index: "- 1 \<le> v \<Longrightarrow> v < 2147483648 \<Longrightarrow> to_int32 v = v"
  by (simp add: is_int32_def)

lemma ps_inv_new [simp]: "length values < 2147483648 \<Longrightarrow> ps_inv (PrefixSumComputer_new values)"
  by (simp add: ps_inv_def PrefixSumComputer_new_def)

text \<open>A rebuilt cache keeps the trusted sums in front of the first changed value.\<close>

lemma ps_inv_rebuild:
  assumes "ps_inv st" and "valid = min (i - 1) (prefixSumValidIndex st)" and "0 \<le> i" and "i \<le> int (length values)"
    and "take (nat i) values = take (nat i) (ps_values st)" and "length values < 2147483648"
  shows "ps_inv \<lparr>ps_values = values, prefixSum = copy_trusted (prefixSum st) valid (length values),
           prefixSumValidIndex = valid\<rparr>"
proof -
  have valid: "- 1 \<le> valid" "valid < int (length values)" "valid < int (length (ps_values st))"
    "valid \<le> prefixSumValidIndex st" "valid + 1 \<le> i"
    using assms by (auto simp: ps_inv_def)
  have same: "take (nat (valid + 1)) values = take (nat (valid + 1)) (ps_values st)"
    by (rule take_eq_shorter [OF assms(5)]) (use valid in simp)
  have "trusted (ps_values st) (prefixSum st) (prefixSumValidIndex st)"
    and "length (prefixSum st) = length (ps_values st)"
    using assms(1) by (simp_all add: ps_inv_def)
  then have "trusted values (copy_trusted (prefixSum st) valid (length values)) valid"
    using trusted_cong [OF _ same take_copy_trusted valid(4,3)] valid(3) by simp
  then show ?thesis using valid assms(6) by (simp add: ps_inv_def length_copy_trusted)
qed

lemma insertValues_run:
  assumes "ps_inv st" and "0 \<le> i" and "i \<le> int (length (ps_values st))" and "length (ps_values st) + length new < 2147483648"
  shows "\<exists>st'. PrefixSumComputer_insertValues st i new = Inr (new \<noteq> [], st') \<and> ps_inv st' \<and>
    ps_values st' = take (nat i) (ps_values st) @ new @ drop (nat i) (ps_values st)"
proof (cases "new = []")
  case False
  let ?vs = "take (nat i) (ps_values st) @ new @ drop (nat i) (ps_values st)"
  have "ps_inv \<lparr>ps_values = ?vs, prefixSum = copy_trusted (prefixSum st) (min (i - 1) (prefixSumValidIndex st)) (length ?vs),
           prefixSumValidIndex = min (i - 1) (prefixSumValidIndex st)\<rparr>"
    using assms by (intro ps_inv_rebuild) auto
  moreover have "(if i - 1 < prefixSumValidIndex st then to_int32 (i - 1) else prefixSumValidIndex st) =
      min (i - 1) (prefixSumValidIndex st)" using assms(2-4) by (simp add: to_int32_index min_def)
  ultimately show ?thesis
    using assms False by (simp add: PrefixSumComputer_insertValues_def toUint32_nonneg_id Let_def)
qed (use assms in \<open>simp add: PrefixSumComputer_insertValues_def\<close>)

lemma removeValues_run:
  assumes "ps_inv st" and "0 \<le> i" and "i < 2147483648" and "0 \<le> n" and "n < 2147483648"
  shows "\<exists>st'. PrefixSumComputer_removeValues st i n = Inr (i < int (length (ps_values st)) \<and> n \<noteq> 0, st') \<and> ps_inv st' \<and>
    ps_values st' = take (nat i) (ps_values st) @ drop (nat (i + n)) (ps_values st)"
proof (cases "i \<ge> int (length (ps_values st)) \<or> n = 0")
  case True
  then show ?thesis
    using assms by (auto simp: PrefixSumComputer_removeValues_def toUint32_nonneg_id Let_def)
next
  case False
  define m where "m = min n (int (length (ps_values st)) - i)"
  let ?vs = "take (nat i) (ps_values st) @ drop (nat (i + m)) (ps_values st)"
  have m: "0 < m" "(if n \<ge> int (length (ps_values st)) - i then int (length (ps_values st)) - i else n) = m"
    using False assms by (auto simp: m_def)
  have "nat i \<le> nat (i + m)" "length (ps_values st) < 2147483648" using m(1) assms(1) by (simp_all add: ps_inv_def)
  then have small: "length ?vs < 2147483648" by simp
  have "ps_inv \<lparr>ps_values = ?vs, prefixSum = copy_trusted (prefixSum st) (min (i - 1) (prefixSumValidIndex st)) (length ?vs),
           prefixSumValidIndex = min (i - 1) (prefixSumValidIndex st)\<rparr>"
    using assms False small by (intro ps_inv_rebuild) auto
  moreover have "(if i - 1 < prefixSumValidIndex st then to_int32 (i - 1) else prefixSumValidIndex st) =
      min (i - 1) (prefixSumValidIndex st)" using assms(2,3) by (simp add: to_int32_index min_def)
  moreover have "drop (nat (i + m)) (ps_values st) = drop (nat (i + n)) (ps_values st)"
    by (cases "n \<ge> int (length (ps_values st)) - i") (auto simp: m_def)
  ultimately show ?thesis
    using assms False m by (simp add: PrefixSumComputer_removeValues_def toUint32_nonneg_id Let_def)
qed

lemma trusted_shrink: "trusted values sums valid \<Longrightarrow> valid' \<le> valid \<Longrightarrow> trusted values sums valid'"
  by (simp add: trusted_def)

lemma setValue_run:
  assumes "ps_inv st" and "0 \<le> i" and "i < int (length (ps_values st))" and "i < 2147483648"
    and "0 \<le> v" and "v < 2147483648"
  shows "\<exists>st'. PrefixSumComputer_setValue st i v = (ps_values st ! nat i \<noteq> word_of_int v, st') \<and>
    ps_inv st' \<and> ps_values st' = (ps_values st)[nat i := word_of_int v]"
proof -
  have same: "word_at (ps_values st) i = Some v \<longleftrightarrow> ps_values st ! nat i = word_of_int v"
    using assms by (auto simp: word_at_def uint_word_of_int)
  show ?thesis
  proof (cases "ps_values st ! nat i = word_of_int v")
    case True
    then have "(ps_values st)[nat i := word_of_int v] = ps_values st" by (metis list_update_id)
    then show ?thesis
      using assms same True by (simp add: PrefixSumComputer_setValue_def toUint32_nonneg_id)
  next
    case False
    let ?valid = "min (i - 1) (prefixSumValidIndex st)"
    have inv: "length (prefixSum st) = length (ps_values st)" "- 1 \<le> prefixSumValidIndex st"
      "prefixSumValidIndex st < int (length (ps_values st))" "length (ps_values st) < 2147483648"
      and tr: "trusted (ps_values st) (prefixSum st) (prefixSumValidIndex st)"
      using assms(1) by (simp_all add: ps_inv_def)
    have "take (nat (?valid + 1)) ((ps_values st)[nat i := word_of_int v]) = take (nat (?valid + 1)) (ps_values st)"
      by (rule take_update_cancel) (use assms(2) in simp)
    then have "trusted ((ps_values st)[nat i := word_of_int v]) (prefixSum st) ?valid"
      using trusted_cong [OF tr _ refl] inv by simp
    moreover have "(if i - 1 < prefixSumValidIndex st then to_int32 (i - 1) else prefixSumValidIndex st) = ?valid"
      using assms(2,4) by (simp add: to_int32_index min_def)
    ultimately show ?thesis
      using assms(2-) same False inv
      by (simp add: PrefixSumComputer_setValue_def toUint32_nonneg_id ps_inv_def word_put_def)
  qed
qed

lemma fill_sums_trusted:
  assumes "length sums = length vals" and "trusted vals sums (i - 1)" and "1 \<le> i"
    and "index < int (length vals)" and "i - 1 \<le> index"
  shows "length (fill_sums vals sums i index) = length vals \<and>
    trusted vals (fill_sums vals sums i index) index"
  using assms
proof (induction vals sums i index rule: fill_sums.induct)
  case (1 vals sums i index)
  show ?case
  proof (cases "i \<le> index")
    case True
    let ?sums = "sums[nat i := sums ! nat (i - 1) + vals ! nat i]"
    have i: "nat i < length vals" "nat i = Suc (nat (i - 1))" using 1(5,6) True 1(4) by auto
    have "word_at sums (i - 1) = Some (uint (sums ! nat (i - 1)))" "word_at vals i = Some (uint (vals ! nat i))"
      using 1(2,4,5) True by (simp_all add: word_at_def)
    then have put: "word_put sums i (case word_at sums (i - 1) of None \<Rightarrow> 0 | Some a \<Rightarrow> case word_at vals i of None \<Rightarrow> 0 | Some b \<Rightarrow> a + b) = ?sums"
      using 1(2,4,5) True by (simp add: word_put_def)
    have "sums ! nat (i - 1) = sum_list (take (nat i) vals)"
      using 1(3) [unfolded trusted_def, rule_format, of "nat (i - 1)"] i 1(4) by simp
    then have "sums ! nat (i - 1) + vals ! nat i = sum_list (take (Suc (nat i)) vals)"
      using i by (simp add: take_Suc_conv_app_nth)
    then have "trusted vals ?sums i"
      using 1(2,3,4) i by (auto simp: trusted_def nth_list_update)
    then show ?thesis
      using 1(1) [OF True] 1(2,4,5) True put by (simp add: fill_sums.simps [of vals sums i index] put)
  next
    case False
    then have "fill_sums vals sums i index = sums" by (simp add: fill_sums.simps [of vals sums i index])
    moreover have "index = i - 1" using False 1(6) by simp
    ultimately show ?thesis using 1(2,3) by simp
  qed
qed

definition clamp_index :: "PrefixSumComputer \<Rightarrow> int \<Rightarrow> int" where
  "clamp_index st i = min i (int (length (ps_values st)) - 1)"

lemma getPrefixSum'_run:
  assumes "ps_inv st" and "0 \<le> i" and "ps_values st \<noteq> []"
  shows "\<exists>st'. getPrefixSum' st i =
      (Some (uint (sum_list (take (Suc (nat (clamp_index st i))) (ps_values st)))), st') \<and>
    ps_inv st' \<and> ps_values st' = ps_values st \<and> clamp_index st i \<le> prefixSumValidIndex st'"
proof -
  have inv: "length (prefixSum st) = length (ps_values st)" "- 1 \<le> prefixSumValidIndex st"
    "prefixSumValidIndex st < int (length (ps_values st))" "length (ps_values st) < 2147483648"
    and tr: "trusted (ps_values st) (prefixSum st) (prefixSumValidIndex st)"
    using assms(1) by (simp_all add: ps_inv_def)
  show ?thesis
  proof (cases "i \<le> prefixSumValidIndex st")
    case True
    then have "word_at (prefixSum st) i = Some (uint (sum_list (take (Suc (nat i)) (ps_values st))))"
      using inv assms(2) tr [unfolded trusted_def, rule_format, of "nat i"] by (simp add: word_at_def nat_less_iff)
    moreover have "clamp_index st i = i" using True inv by (simp add: clamp_index_def)
    ultimately show ?thesis using True assms(1) by (simp add: getPrefixSum'_def)
  next
    case False
    let ?n = "int (length (ps_values st))"
    define index where "index = clamp_index st i"
    define start where "start = (if prefixSumValidIndex st = - 1 then 1 else prefixSumValidIndex st + 1)"
    define sums0 where "sums0 = (if prefixSumValidIndex st = - 1 then (prefixSum st)[0 := hd (ps_values st)] else prefixSum st)"
    define sums where "sums = fill_sums (ps_values st) sums0 start index"
    have n: "0 < ?n" using assms(3) by simp
    have index: "0 \<le> index" "index < ?n" "index \<le> i" "(if i \<ge> ?n then ?n - 1 else i) = index"
      using n assms(2) by (auto simp: index_def clamp_index_def)
    have "trusted (ps_values st) sums0 (start - 1)"
      using tr n assms(3) inv(1) by (auto simp: sums0_def start_def trusted_def take_Suc hd_conv_nth)
    moreover have "start - 1 \<le> index"
      using index(1) False inv(2,3) n by (auto simp: start_def index_def clamp_index_def)
    moreover have "1 \<le> start" "length sums0 = length (ps_values st)"
      using inv by (auto simp: start_def sums0_def)
    moreover have "max (prefixSumValidIndex st) index = index"
      using False inv(2,3) n by (auto simp: index_def clamp_index_def)
    ultimately have sums: "length sums = length (ps_values st)"
        "trusted (ps_values st) sums (max (prefixSumValidIndex st) index)"
      using fill_sums_trusted [of sums0 "ps_values st" start index] index(2) by (simp_all add: sums_def)
    have "word_at sums index = Some (uint (sum_list (take (Suc (nat index)) (ps_values st))))"
      using sums index trusted_def by (simp add: word_at_def nat_less_iff trusted_def)
    moreover have wrap: "to_int32 (max (prefixSumValidIndex st) index) = max (prefixSumValidIndex st) index"
      using inv(2-4) index(2) by (intro to_int32_index) auto
    moreover have "getPrefixSum' st i = (word_at sums index,
        st\<lparr>prefixSum := sums, prefixSumValidIndex := max (prefixSumValidIndex st) index\<rparr>)"
      using False index(4) assms(3) wrap
      by (auto simp: getPrefixSum'_def Let_def sums_def sums0_def start_def neq_Nil_conv)
    moreover have "ps_inv (st\<lparr>prefixSum := sums, prefixSumValidIndex := max (prefixSumValidIndex st) index\<rparr>)"
      using sums inv index by (simp add: ps_inv_def)
    ultimately show ?thesis by (auto simp: index_def)
  qed
qed

definition ps_numbers :: "PrefixSumComputer \<Rightarrow> int list" where
  "ps_numbers st = map uint (ps_values st)"

lemma ps_numbers_nonneg: "\<forall>v \<in> set (ps_numbers st). 0 \<le> v"
  by (simp add: ps_numbers_def)

lemma sum_list_uint_nonneg: "0 \<le> sum_list (map uint ws)"
  by (intro sum_list_nonneg) auto

lemma uint_sum_list:
  fixes ws :: "32 word list"
  assumes "sum_list (map uint ws) < 4294967296"
  shows "uint (sum_list ws) = sum_list (map uint ws)"
  using assms
proof (induction ws)
  case (Cons w ws)
  have "0 \<le> uint w" and total: "uint w + sum_list (map uint ws) < 4294967296"
    using Cons.prems by simp_all
  then have "uint (sum_list ws) = sum_list (map uint ws)"
    by (intro Cons.IH) linarith
  with total show ?case
    using Cons.prems by (simp add: uint_word_ariths sum_list_uint_nonneg)
qed simp

lemma uint_prefix_sum:
  fixes ws :: "32 word list"
  assumes "sum_list (map uint ws) < 4294967296"
  shows "uint (sum_list (take k ws)) = psum (map uint ws) k"
proof -
  have "psum (map uint ws) k \<le> sum_list (map uint ws)"
    using psum_mono [of "map uint ws" k "max k (length ws)"] by (simp add: psum_all)
  then show ?thesis using uint_sum_list [of "take k ws"] assms by (simp add: psum_def take_map)
qed

text \<open>The binary search over a fully trusted cache finds the value that covers the target.\<close>

definition sums_of :: "32 word list \<Rightarrow> 32 word list \<Rightarrow> bool" where
  "sums_of vals sums \<longleftrightarrow> length vals < 2147483648 \<and> length sums = length vals \<and>
     (\<forall>k < length vals. uint (sums ! k) = psum (map uint vals) (Suc k))"

lemma getIndexOf_loop_step:
  assumes "sums_of vals sums" and "0 \<le> low" "low \<le> high" "high < int (length vals)" and "m = low + (high - low) div 2"
  shows "getIndexOf_loop vals sums target low high mid midStart =
    (if target < psum (map uint vals) (nat m) then getIndexOf_loop vals sums target low (m - 1) m (Some (psum (map uint vals) (nat m)))
     else if psum (map uint vals) (nat (m + 1)) \<le> target
     then getIndexOf_loop vals sums target (m + 1) high m (Some (psum (map uint vals) (nat m)))
     else Some (m, Some (psum (map uint vals) (nat m))))"
proof -
  have m: "0 \<le> m" "m < int (length vals)" using assms(2-5) by auto
  then have k: "nat m < length vals" "Suc (nat m) = nat (m + 1)" by auto
  have "to_int32 m = m" using m assms(1) by (intro to_int32_index) (auto simp: sums_of_def)
  moreover have "word_at sums m = Some (psum (map uint vals) (nat (m + 1)))"
    using assms(1) k m by (simp add: word_at_def sums_of_def)
  moreover have "word_at vals m = Some (uint (vals ! nat m))" using m by (simp add: word_at_def)
  moreover have "psum (map uint vals) (nat (m + 1)) - uint (vals ! nat m) = psum (map uint vals) (nat m)"
    using psum_Suc [of "nat m" "map uint vals"] k by simp
  ultimately show ?thesis
    using assms(3) by (simp add: getIndexOf_loop.simps [of vals sums target low high] Let_def flip: assms(5))
qed

lemma getIndexOf_loop_hit:
  assumes sums: "sums_of vals sums"
    and "0 \<le> low" and "high < int (length vals)" and "low \<le> high + 1"
    and "psum (map uint vals) (nat low) \<le> target" and "target < psum (map uint vals) (nat (high + 1))"
  shows "\<exists>k < length vals. getIndexOf_loop vals sums target low high mid midStart = Some (int k, Some (psum (map uint vals) k)) \<and>
    psum (map uint vals) k \<le> target \<and> target < psum (map uint vals) (Suc k)"
  using assms(2-)
proof (induction "nat (high + 1 - low)" arbitrary: low high mid midStart rule: less_induct)
  case less
  show ?case
  proof (cases "low \<le> high")
    case True
    define m where "m = low + (high - low) div 2"
    have m: "low \<le> m" "m \<le> high" using True by (auto simp: m_def)
    note step = getIndexOf_loop_step [OF sums less.prems(1) True less.prems(2) m_def, of target mid midStart]
    consider "target < psum (map uint vals) (nat m)" | "psum (map uint vals) (nat (m + 1)) \<le> target" "\<not> target < psum (map uint vals) (nat m)"
      | "\<not> target < psum (map uint vals) (nat m)" "\<not> psum (map uint vals) (nat (m + 1)) \<le> target" by blast
    then show ?thesis
    proof cases
      case 1
      then show ?thesis using less.hyps [of "m - 1" low m "Some (psum (map uint vals) (nat m))"] less.prems m step by simp
    next
      case 2
      then show ?thesis using less.hyps [of high "m + 1" m "Some (psum (map uint vals) (nat m))"] less.prems m step by simp
    next
      case 3
      moreover have "Suc (nat m) = nat (m + 1)" "int (nat m) = m" "nat m < length vals" using m less.prems(1,2) by auto
      ultimately show ?thesis using step by (intro exI [of _ "nat m"]) simp
    qed
  next
    case False
    with less.prems(3) have "low = high + 1" by simp
    with less.prems(4,5) show ?thesis by simp
  qed
qed

lemma getIndexOf_loop_miss:
  assumes sums: "sums_of vals sums"
    and "0 \<le> low" and "low \<le> high" and "high = int (length vals) - 1" and "sum_list (map uint vals) \<le> target"
  shows "getIndexOf_loop vals sums target low high mid midStart = Some (high, Some (psum (map uint vals) (nat high)))"
  using assms(2-4)
proof (induction "nat (high + 1 - low)" arbitrary: low mid midStart rule: less_induct)
  case less
  define m where "m = low + (high - low) div 2"
  have m: "low \<le> m" "m \<le> high" using less.prems(2) by (auto simp: m_def)
  have le: "psum (map uint vals) k \<le> target" for k
    using psum_mono [of "map uint vals" k "max k (length vals)"] assms(5) by (simp add: psum_all)
  then have "\<not> target < psum (map uint vals) (nat m)" by (simp add: not_less)
  moreover have "high < int (length vals)" using less.prems(3) by simp
  ultimately have step: "getIndexOf_loop vals sums target low high mid midStart =
      getIndexOf_loop vals sums target (m + 1) high m (Some (psum (map uint vals) (nat m)))"
    using getIndexOf_loop_step [OF sums less.prems(1,2) _ m_def] le by simp
  show ?case
  proof (cases "m + 1 \<le> high")
    case True
    then show ?thesis using step less.hyps [of "m + 1"] less.prems m by simp
  next
    case False
    with m have "m = high" by simp
    then show ?thesis using step getIndexOf_loop.simps [of vals sums target "m + 1" high] by simp
  qed
qed

definition ps_small :: "PrefixSumComputer \<Rightarrow> bool" where
  "ps_small st \<longleftrightarrow> ps_inv st \<and> sum_list (ps_numbers st) < 4294967296"

lemma getTotalSum_run:
  assumes "ps_inv st"
  shows "\<exists>st'. PrefixSumComputer_getTotalSum st = (Some (uint (sum_list (ps_values st))), st') \<and>
    ps_inv st' \<and> ps_values st' = ps_values st \<and> int (length (ps_values st)) - 1 \<le> prefixSumValidIndex st'"
proof (cases "ps_values st = []")
  case True
  then show ?thesis using assms by (simp add: PrefixSumComputer_getTotalSum_def ps_inv_def trusted_def)
next
  case False
  then show ?thesis
    using getPrefixSum'_run [OF assms, of "int (length (ps_values st)) - 1"]
    by (cases "ps_values st") (simp_all add: PrefixSumComputer_getTotalSum_def clamp_index_def)
qed

lemma getIndexOf_run:
  assumes "ps_small st" and "0 \<le> t"
  shows "\<exists>st'. PrefixSumComputer_getIndexOf st t = Some (Some (scan_index (ps_numbers st) 0 t), st') \<and>
    ps_inv st' \<and> ps_values st' = ps_values st"
proof -
  obtain st' where run: "snd (PrefixSumComputer_getTotalSum st) = st'" and inv: "ps_inv st'"
    and vals: "ps_values st' = ps_values st" and full: "int (length (ps_values st)) - 1 \<le> prefixSumValidIndex st'"
    using getTotalSum_run [of st] assms by (auto simp: ps_small_def)
  define vs where "vs = ps_values st"
  have bound: "sum_list (map uint vs) < 4294967296"
    using assms(1) by (simp add: ps_small_def ps_numbers_def vs_def)
  have nonneg: "\<forall>v \<in> set (map uint vs). 0 \<le> v" by auto
  have sums: "sums_of vs (prefixSum st')"
    unfolding sums_of_def
  proof (intro conjI allI impI)
    show "length vs < 2147483648" "length (prefixSum st') = length vs" using inv by (simp_all add: ps_inv_def vals vs_def)
    fix k assume "k < length vs"
    then have "prefixSum st' ! k = sum_list (take (Suc k) vs)"
      using inv full by (auto simp: ps_inv_def trusted_def vals vs_def)
    then show "uint (prefixSum st' ! k) = psum (map uint vs) (Suc k)" using uint_prefix_sum [OF bound] by simp
  qed
  have "\<exists>mid start. getIndexOf_loop vs (prefixSum st') t 0 (int (length vs) - 1) 0 (Some 0) = Some (mid, Some start) \<and>
      \<lparr>psi_index = mid, remainder = t - start\<rparr> = scan_index (map uint vs) 0 t"
  proof (cases "t < sum_list (map uint vs)")
    case True
    then show ?thesis
      using getIndexOf_loop_hit [OF sums, of 0 "int (length vs) - 1" t 0 "Some 0"] assms(2)
        scan_index_hit [OF nonneg]
      by (fastforce simp: psum_all)
  next
    case False
    show ?thesis
    proof (cases "vs = []")
      case True
      then show ?thesis by (simp add: getIndexOf_loop.simps)
    next
      case nonempty: False
      then have "1 \<le> length vs" by (cases vs) simp_all
      then show ?thesis
        using getIndexOf_loop_miss [OF sums, of 0 "int (length vs) - 1" t 0 "Some 0"] False
          scan_index_miss [OF nonneg, of t 0] nonempty
        by (simp add: nat_diff_distrib)
    qed
  qed
  then show ?thesis
    using run inv vals by (auto simp: PrefixSumComputer_getIndexOf_def vs_def ps_numbers_def)
qed

interpretation prefix_lookup: index_lookup ps_numbers ps_small
  "\<lambda>st t. Option.bind (PrefixSumComputer_getIndexOf st t) fst"
  by unfold_locales (use ps_numbers_nonneg getIndexOf_run in \<open>fastforce+\<close>)

text \<open>The calls a client makes, what they do to the values, and the histories of calls in range.\<close>

datatype ps_call =
    CallInsert int "32 word list"
  | CallSet int int
  | CallRemove int int
  | CallPrefixSum int
  | CallIndexOf int

text \<open>Calls in turn; None when one does not return.\<close>

fun perform_all :: "('c \<Rightarrow> 's \<Rightarrow> 's result option) \<Rightarrow> 'c list \<Rightarrow> 's \<Rightarrow> 's result option" where
  "perform_all f [] st = Some (Inr st)"
| "perform_all f (c # cs) st =
     (case f c st of None \<Rightarrow> None | Some (Inl e) \<Rightarrow> Some (Inl e) | Some (Inr st) \<Rightarrow> perform_all f cs st)"

fun ps_perform :: "ps_call \<Rightarrow> PrefixSumComputer \<Rightarrow> PrefixSumComputer result option" where
  "ps_perform (CallInsert i new) st = Some (rbind (PrefixSumComputer_insertValues st i new) (\<lambda>r. Inr (snd r)))"
| "ps_perform (CallSet i v) st = Some (Inr (snd (PrefixSumComputer_setValue st i v)))"
| "ps_perform (CallRemove i n) st = Some (rbind (PrefixSumComputer_removeValues st i n) (\<lambda>r. Inr (snd r)))"
| "ps_perform (CallPrefixSum i) st = Some (Inr (snd (PrefixSumComputer_getPrefixSum st i)))"
| "ps_perform (CallIndexOf t) st = map_option (\<lambda>r. Inr (snd r)) (PrefixSumComputer_getIndexOf st t)"

fun ps_effect :: "ps_call \<Rightarrow> 32 word list \<Rightarrow> 32 word list" where
  "ps_effect (CallInsert i new) vs = take (nat i) vs @ new @ drop (nat i) vs"
| "ps_effect (CallSet i v) vs = vs[nat i := word_of_int v]"
| "ps_effect (CallRemove i n) vs = take (nat i) vs @ drop (nat (i + n)) vs"
| "ps_effect _ vs = vs"

fun ps_in_range :: "ps_call \<Rightarrow> 32 word list \<Rightarrow> bool" where
  "ps_in_range (CallInsert i new) vs \<longleftrightarrow> 0 \<le> i \<and> i \<le> int (length vs) \<and> int (length vs) + int (length new) < 2147483648"
| "ps_in_range (CallSet i v) vs \<longleftrightarrow> 0 \<le> i \<and> i < int (length vs) \<and> 0 \<le> v \<and> v < 2147483648"
| "ps_in_range (CallRemove i n) vs \<longleftrightarrow> 0 \<le> i \<and> i < 2147483648 \<and> 0 \<le> n \<and> n < 2147483648"
| "ps_in_range (CallPrefixSum i) vs \<longleftrightarrow> i < 2147483648"
| "ps_in_range (CallIndexOf t) vs \<longleftrightarrow> 0 \<le> t \<and> sum_list (map uint vs) < 4294967296"

fun ps_history_ok :: "ps_call list \<Rightarrow> 32 word list \<Rightarrow> bool" where
  "ps_history_ok [] vs \<longleftrightarrow> True"
| "ps_history_ok (c # cs) vs \<longleftrightarrow> ps_in_range c vs \<and> ps_history_ok cs (ps_effect c vs)"

lemma getPrefixSum'_keeps:
  assumes "ps_inv st" and "0 \<le> i"
  shows "ps_inv (snd (getPrefixSum' st i)) \<and> ps_values (snd (getPrefixSum' st i)) = ps_values st"
proof (cases "ps_values st = []")
  case True
  with assms(1) have "prefixSumValidIndex st = - 1" "prefixSum st = []" by (auto simp: ps_inv_def)
  then show ?thesis
    using True assms by (simp add: getPrefixSum'_def Let_def fill_sums.simps ps_inv_def trusted_def to_int32_index)
next
  case False
  then show ?thesis using getPrefixSum'_run [OF assms False] by auto
qed

lemma getPrefixSum_run:
  assumes "ps_inv st" and "0 \<le> i" and "i < int (length (ps_values st))"
  shows "fst (PrefixSumComputer_getPrefixSum st i) = Some (uint (sum_list (take (Suc (nat i)) (ps_values st))))"
proof -
  have "ps_values st \<noteq> []" and "clamp_index st i = i" and "i < 2147483648"
    using assms by (auto simp: clamp_index_def ps_inv_def)
  then show ?thesis
    using getPrefixSum'_run [OF assms(1,2)] assms(2)
    by (auto simp: PrefixSumComputer_getPrefixSum_def toUint32_nonneg_id)
qed

lemma ps_perform_effect:
  assumes "ps_inv st" and "ps_in_range c (ps_values st)"
  shows "\<exists>st'. ps_perform c st = Some (Inr st') \<and> ps_inv st' \<and> ps_values st' = ps_effect c (ps_values st)"
proof (cases c)
  case (CallInsert i new)
  then show ?thesis using insertValues_run [of st i new] assms by auto
next
  case (CallSet i v)
  moreover have "length (ps_values st) < 2147483648" using assms(1) by (simp add: ps_inv_def)
  ultimately show ?thesis using setValue_run [of st i v] assms by auto
next
  case (CallRemove i n)
  then show ?thesis using removeValues_run [of st i n] assms by auto
next
  case (CallPrefixSum i)
  then show ?thesis
    using getPrefixSum'_keeps [of st i] assms
    by (auto simp: PrefixSumComputer_getPrefixSum_def toUint32_nonneg_id)
next
  case (CallIndexOf t)
  then show ?thesis using getIndexOf_run [of st t] assms by (auto simp: ps_small_def ps_numbers_def)
qed

lemma ps_history_effect:
  "ps_inv st \<Longrightarrow> ps_history_ok cs (ps_values st) \<Longrightarrow>
     \<exists>st'. perform_all ps_perform cs st = Some (Inr st') \<and> ps_inv st' \<and> ps_values st' = fold ps_effect cs (ps_values st)"
proof (induction cs arbitrary: st)
  case (Cons c cs)
  then obtain st1 where "ps_perform c st = Some (Inr st1)" "ps_inv st1" "ps_values st1 = ps_effect c (ps_values st)"
    using ps_perform_effect [of st c] by auto
  then show ?case using Cons.IH [of st1] Cons.prems by simp
qed simp

text \<open>C7: After any history of inserts, updates, removals and queries with arguments in range, the lazily
  cached prefix sums of PrefixSumComputer are right: every call returns, none throws, the values are those the same
  calls give on a plain list, and getPrefixSum(i) returns the sum of the first i + 1 of them modulo 2^32.  The array has
  less than 2^31 values at any time, and the total is below 2^32 when an index is asked for.\<close>

theorem PrefixSumComputer_history:
  assumes "length vs < 2147483648" and "ps_history_ok calls vs"
    and "0 \<le> i" and "i < int (length (fold ps_effect calls vs))"
  shows "\<exists>st. perform_all ps_perform calls (PrefixSumComputer_new vs) = Some (Inr st) \<and>
    ps_values st = fold ps_effect calls vs \<and>
    fst (PrefixSumComputer_getPrefixSum st i) =
      Some (uint (sum_list (take (Suc (nat i)) (fold ps_effect calls vs))))"
proof -
  have "ps_values (PrefixSumComputer_new vs) = vs" by (simp add: PrefixSumComputer_new_def)
  then obtain st where "perform_all ps_perform calls (PrefixSumComputer_new vs) = Some (Inr st)" "ps_inv st"
    "ps_values st = fold ps_effect calls vs"
    using ps_history_effect [of "PrefixSumComputer_new vs" calls] assms(1,2) by auto
  then show ?thesis using getPrefixSum_run [of st i] assms(3,4) by auto
qed

definition example_calls :: "ps_call list" where
  "example_calls = [CallPrefixSum 2, CallInsert 1 [7, 0], CallSet 3 10, CallIndexOf 9, CallRemove 0 1]"

lemma PrefixSumComputer_history_witness:
  "\<exists>st. perform_all ps_perform example_calls (PrefixSumComputer_new [3, 4, 5]) = Some (Inr st) \<and>
    fst (PrefixSumComputer_getPrefixSum st 3) = Some 22"
proof -
  have ok: "ps_history_ok example_calls [3, 4, 5]" and vs: "fold ps_effect example_calls [3, 4, 5] = [7, 0, 10, 5]"
    by code_simp+
  have "length [3, 4, 5 :: 32 word] < 2147483648" by simp
  from PrefixSumComputer_history [OF this ok, of 3] show ?thesis by (auto simp: vs)
qed

text \<open>C8: The binary search of getIndexOf over wrapped prefix sums returns and agrees with a linear scan that subtracts
  the values in turn, for every non-negative target and also when the array is empty, when values are zero, and when
  the target lies beyond the total (the last index is reported): provided the total stays below 2^32 and there are less
  than 2^31 values, as the invariant says.\<close>

theorem PrefixSumComputer_getIndexOf_linear:
  assumes "ps_inv st" and "sum_list (map uint (ps_values st)) < 4294967296" and "0 \<le> target"
  shows "\<exists>st'. PrefixSumComputer_getIndexOf st target = Some (Some (scan_index (map uint (ps_values st)) 0 target), st')"
  using prefix_lookup.lookup_scan [of st target] assms by (auto simp: ps_small_def ps_numbers_def bind_eq_Some_conv)

lemma PrefixSumComputer_getIndexOf_linear_witness:
  "\<exists>st'. PrefixSumComputer_getIndexOf (PrefixSumComputer_new [2, 0, 3]) 2 = Some (Some \<lparr>psi_index = 2, remainder = 0\<rparr>, st')"
  using PrefixSumComputer_getIndexOf_linear [OF ps_inv_new, of "[2, 0, 3]" 2]
  by (simp add: PrefixSumComputer_new_def)

section \<open>Correctness of the constant-time computer\<close>

text \<open>An entry of an array with holes.\<close>

definition cell :: "'a option list \<Rightarrow> int \<Rightarrow> 'a option" where
  "cell xs i = Option.bind (js_at xs i) id"

lemma cell_nth: "k < length xs \<Longrightarrow> cell xs (int k) = xs ! k"
  by (simp add: cell_def)

lemma cell_out: "int (length xs) \<le> i \<Longrightarrow> cell xs i = None"
  by (simp add: cell_def)

lemma cell_js_put: "0 \<le> i \<Longrightarrow> 0 \<le> q \<Longrightarrow> cell (js_put xs i v) q = (if q = i then Some v else cell xs q)"
  by (auto simp: cell_def js_put_def js_at_def nth_append nth_list_update nth_Cons')

lemma cell_some_length: "cell xs i = Some v \<Longrightarrow> 0 \<le> i \<and> i < int (length xs)"
  by (auto simp: cell_def js_at_def split: if_splits)

lemma cell_write_index:
  "0 \<le> p \<Longrightarrow> 0 \<le> q \<Longrightarrow>
     cell (write_index table p i n) q = (if p \<le> q \<and> q < p + int n then Some i else cell table q)"
  by (induction table p i n rule: write_index.induct) (auto simp: cell_js_put)

lemma cell_js_set_length:
  assumes "js_set_length xs n = Inr ys" and "0 \<le> q" and "q < n"
  shows "cell ys q = cell xs q"
  using assms by (auto simp: js_set_length_def cell_def js_at_def nth_append split: if_splits)

text \<open>The caches are right for the first \<open>m\<close> values.\<close>

definition ct_cached :: "int list \<Rightarrow> int option list \<Rightarrow> int option list \<Rightarrow> nat \<Rightarrow> bool" where
  "ct_cached vals sums table m \<longleftrightarrow>
     (\<forall>k < m. cell sums (int k) = Some (psum vals (Suc k))) \<and>
     (\<forall>k < m. \<forall>q. psum vals k \<le> q \<and> q < psum vals (Suc k) \<longrightarrow> cell table q = Some (int k))"

definition ct_inv :: "ConstantTimePrefixSumComputer \<Rightarrow> bool" where
  "ct_inv st \<longleftrightarrow> (\<forall>v \<in> set (ct_values st). 0 \<le> v) \<and> - 1 \<le> validEndIndex st \<and>
     validEndIndex st < int (length (ct_values st)) \<and>
     ct_cached (ct_values st) (ct_prefixSum st) (indexBySum st) (nat (validEndIndex st + 1)) \<and>
     (isValid st \<longrightarrow> validEndIndex st = int (length (ct_values st)) - 1 \<and>
        length (ct_prefixSum st) = length (ct_values st) \<and>
        int (length (indexBySum st)) = sum_list (ct_values st))"

lemma ct_cached_0 [simp]: "ct_cached vals sums table 0"
  by (simp add: ct_cached_def)

lemma ct_cached_less: "ct_cached vals sums table m \<Longrightarrow> k \<le> m \<Longrightarrow> ct_cached vals sums table k"
  by (simp add: ct_cached_def)

lemma ct_cached_cong:
  assumes "ct_cached vals sums table m" and "take m vals = take m vals'"
  shows "ct_cached vals' sums table m"
proof -
  have "psum vals k = psum vals' k" if "k \<le> m" for k
    using psum_cong [OF assms(2) that] .
  then show ?thesis using assms(1) by (simp add: ct_cached_def)
qed

lemma ct_inv_new: "\<forall>v \<in> set vals. 0 \<le> v \<Longrightarrow> ct_inv (ConstantTimePrefixSumComputer_new vals)"
  by (simp add: ct_inv_def ConstantTimePrefixSumComputer_new_def)

text \<open>One round of \<open>_ensureValid\<close> extends the caches by one value.\<close>

lemma ct_cached_step:
  assumes "ct_cached vals sums table m" and "m < length vals" and "\<forall>v \<in> set vals. 0 \<le> v"
  shows "ct_cached vals (js_put sums (int m) (psum vals m + vals ! m))
           (write_index table (psum vals m) (int m) (nat (vals ! m))) (Suc m)"
proof -
  have v: "0 \<le> vals ! m" using assms(2,3) by simp
  have suc: "psum vals (Suc m) = psum vals m + vals ! m" by (rule psum_Suc) (rule assms(2))
  have pos: "0 \<le> psum vals k" for k using psum_mono [OF assms(3), of 0 k] by simp
  have le: "psum vals (Suc k) \<le> psum vals m" if "k < m" for k using psum_mono [OF assms(3)] that by simp
  have sums: "cell (js_put sums (int m) (psum vals m + vals ! m)) (int k) = Some (psum vals (Suc k))"
    if "k < Suc m" for k
    using assms(1) that suc by (auto simp: cell_js_put ct_cached_def less_Suc_eq)
  have table: "cell (write_index table (psum vals m) (int m) (nat (vals ! m))) q = Some (int k)"
    if k: "k < Suc m" and q: "psum vals k \<le> q" "q < psum vals (Suc k)" for k q
  proof (cases "k = m")
    case True
    then show ?thesis using q v suc pos [of m] by (simp add: cell_write_index)
  next
    case False
    with k have "k < m" by simp
    then have "cell table q = Some (int k)" using assms(1) q by (simp add: ct_cached_def)
    moreover have "\<not> psum vals m \<le> q" using le [OF \<open>k < m\<close>] q by simp
    ultimately show ?thesis using q pos [of k] pos [of m] by (simp add: cell_write_index)
  qed
  show ?thesis unfolding ct_cached_def using sums table by blast
qed

lemma ensureValid_loop_run:
  assumes "ct_cached vals sums table m" and "m \<le> length vals" and "\<forall>v \<in> set vals. 0 \<le> v"
  shows "\<exists>sums' table'. ensureValid_loop (drop m vals) (int m) sums table = Inr (sums', table') \<and>
    ct_cached vals sums' table' (length vals)"
  using assms
proof (induction "length vals - m" arbitrary: m sums table)
  case 0
  then show ?case by simp
next
  case (Suc n)
  then have m: "m < length vals" by simp
  have above: "(if int m > 0 then Option.bind (js_at sums (int m - 1)) id else Some 0) = Some (psum vals m)"
  proof (cases m)
    case (Suc k)
    then have "cell sums (int k) = Some (psum vals (Suc k))" using Suc.prems(1) by (simp add: ct_cached_def)
    then show ?thesis using Suc by (simp add: cell_def)
  qed simp
  have "\<exists>sums' table'. ensureValid_loop (drop (Suc m) vals) (int (Suc m)) (js_put sums (int m) (psum vals m + vals ! m))
      (write_index table (psum vals m) (int m) (nat (vals ! m))) = Inr (sums', table') \<and>
    ct_cached vals sums' table' (length vals)"
    using Suc m by (intro Suc.hyps(1) ct_cached_step) auto
  moreover have "drop m vals = vals ! m # drop (Suc m) vals" using m by (simp add: Cons_nth_drop_Suc)
  ultimately show ?case using above by (simp add: add.commute)
qed

lemma ct_cached_trim:
  assumes "ct_cached vals sums table (length vals)" and "\<forall>v \<in> set vals. 0 \<le> v"
    and "js_set_length sums (int (length vals)) = Inr sums'" and "js_set_length table (sum_list vals) = Inr table'"
  shows "ct_cached vals sums' table' (length vals)"
  unfolding ct_cached_def
proof (intro conjI allI impI)
  fix k assume k: "k < length vals"
  then have "cell sums' (int k) = cell sums (int k)" by (intro cell_js_set_length [OF assms(3)]) simp_all
  then show "cell sums' (int k) = Some (psum vals (Suc k))" using k assms(1) by (simp add: ct_cached_def)
next
  fix k q assume k: "k < length vals" and q: "psum vals k \<le> q \<and> q < psum vals (Suc k)"
  have "0 \<le> psum vals k" "psum vals (Suc k) \<le> sum_list vals"
    using psum_mono [OF assms(2), of 0 k] psum_mono [OF assms(2), of "Suc k" "length vals"] k
    by (simp_all add: psum_all)
  then have "cell table' q = cell table q" using q by (intro cell_js_set_length [OF assms(4)]) simp_all
  then show "cell table' q = Some (int k)" using k q assms(1) by (simp add: ct_cached_def)
qed

definition ct_small :: "ConstantTimePrefixSumComputer \<Rightarrow> bool" where
  "ct_small st \<longleftrightarrow> ct_inv st \<and> sum_list (ct_values st) < 4294967296 \<and> length (ct_values st) < 4294967296"

lemma length_js_set_length: "js_set_length xs n = Inr ys \<Longrightarrow> int (length ys) = n"
  by (auto simp: js_set_length_def split: if_splits)

lemma js_set_length_ok: "0 \<le> n \<Longrightarrow> n < 4294967296 \<Longrightarrow> \<exists>ys. js_set_length xs n = Inr ys"
  by (simp add: js_set_length_def)

lemma ct_ensureValid_run:
  assumes "ct_small st"
  shows "\<exists>st'. ct_ensureValid st = Inr st' \<and> ct_inv st' \<and> isValid st' \<and> ct_values st' = ct_values st"
proof (cases "isValid st")
  case True
  then show ?thesis using assms by (simp add: ct_ensureValid_def ct_small_def)
next
  case False
  define vals where "vals = ct_values st"
  define m where "m = nat (validEndIndex st + 1)"
  have inv: "\<forall>v \<in> set vals. 0 \<le> v" "m \<le> length vals" "ct_cached vals (ct_prefixSum st) (indexBySum st) m"
    and m: "validEndIndex st + 1 = int m"
    and small: "sum_list vals < 4294967296" "int (length vals) < 4294967296"
    using assms by (auto simp: ct_small_def ct_inv_def vals_def m_def)
  obtain sums0 table0 where loop: "ensureValid_loop (drop m vals) (int m) (ct_prefixSum st) (indexBySum st) = Inr (sums0, table0)"
    and cached: "ct_cached vals sums0 table0 (length vals)"
    using ensureValid_loop_run [OF inv(3,2,1)] by auto
  obtain sums where sums: "js_set_length sums0 (int (length vals)) = Inr sums"
    using js_set_length_ok small(2) by (metis of_nat_0_le_iff)
  have "0 \<le> sum_list vals" using inv(1) by (intro sum_list_nonneg) simp
  then obtain table where table: "js_set_length table0 (sum_list vals) = Inr table"
    using js_set_length_ok small(1) by blast
  note trimmed = ct_cached_trim [OF cached inv(1) sums table]
  have last: "(if int (length vals) > 0 then Option.bind (js_at sums (int (length vals) - 1)) id else Some 0) =
      Some (sum_list vals)"
  proof (cases "length vals")
    case (Suc k)
    then have "cell sums (int k) = Some (psum vals (Suc k))" using trimmed by (simp add: ct_cached_def)
    then show ?thesis using Suc psum_all [of vals "Suc k"] by (simp add: cell_def)
  qed simp
  let ?st = "st\<lparr>ct_prefixSum := sums, indexBySum := table, isValid := True, validEndIndex := int (length vals) - 1\<rparr>"
  have "ct_ensureValid st = Inr ?st"
    using False loop sums last table by (simp add: ct_ensureValid_def Let_def m flip: vals_def)
  moreover have "ct_inv ?st"
    using inv trimmed length_js_set_length [OF sums] length_js_set_length [OF table]
    by (simp add: ct_inv_def flip: vals_def)
  ultimately show ?thesis by (intro exI [of _ ?st]) (simp add: vals_def)
qed

lemma ct_getIndexOf_run:
  assumes "ct_small st" and "0 \<le> t"
  shows "\<exists>st'. ConstantTimePrefixSumComputer_getIndexOf st t = Inr (Some (scan_index (ct_values st) 0 t), st') \<and>
    ct_inv st' \<and> isValid st' \<and> ct_values st' = ct_values st"
proof -
  obtain st' where run: "ct_ensureValid st = Inr st'" and inv: "ct_inv st'" and valid: "isValid st'"
    and vals: "ct_values st' = ct_values st"
    using ct_ensureValid_run [OF assms(1)] by auto
  define vs where "vs = ct_values st"
  have nonneg: "\<forall>v \<in> set vs. 0 \<le> v" using assms(1) by (simp add: ct_small_def ct_inv_def vs_def)
  have cached: "ct_cached vs (ct_prefixSum st') (indexBySum st') (length vs)"
    and len: "int (length (indexBySum st')) = sum_list vs"
    using inv valid vals by (auto simp: ct_inv_def vs_def)
  have above: "(if int k > 0 then cell (ct_prefixSum st') (int k - 1) else Some 0) = Some (psum vs k)"
    if k: "k < length vs \<or> k = 0" for k
  proof (cases k)
    case (Suc j)
    then have "cell (ct_prefixSum st') (int j) = Some (psum vs (Suc j))" using cached k by (simp add: ct_cached_def)
    then show ?thesis using Suc by simp
  qed simp
  have "\<exists>k. (k < length vs \<or> k = 0) \<and>
      (case cell (indexBySum st') t of None \<Rightarrow> max 0 (int (length vs) - 1) | Some i \<Rightarrow> i) = int k \<and>
      scan_index vs 0 t = \<lparr>psi_index = int k, remainder = t - psum vs k\<rparr>"
  proof (cases "t < sum_list vs")
    case True
    then obtain k where k: "k < length vs" "psum vs k \<le> t" "t < psum vs (Suc k)"
      using psum_locate [OF nonneg assms(2)] by auto
    then have "cell (indexBySum st') t = Some (int k)" using cached by (simp add: ct_cached_def)
    then show ?thesis using k scan_index_hit [OF nonneg k] by auto
  next
    case False
    then have "cell (indexBySum st') t = None" using len by (intro cell_out) simp
    then show ?thesis
      using scan_index_miss [OF nonneg, of t 0] False by (intro exI [of _ "length vs - 1"]) auto
  qed
  then obtain k where k: "k < length vs \<or> k = 0"
    and idx: "(case cell (indexBySum st') t of None \<Rightarrow> max 0 (int (length vs) - 1) | Some i \<Rightarrow> i) = int k"
    and scan: "scan_index vs 0 t = \<lparr>psi_index = int k, remainder = t - psum vs k\<rparr>"
    by blast
  have "ConstantTimePrefixSumComputer_getIndexOf st t = Inr (Some (scan_index vs 0 t), st')"
    using run idx [folded vals [folded vs_def]] above [OF k] scan
    by (simp add: ConstantTimePrefixSumComputer_getIndexOf_def Let_def split: if_splits flip: cell_def)
  then show ?thesis using inv valid vals by (simp add: vs_def)
qed

interpretation constant_lookup: index_lookup ct_values ct_small
  "\<lambda>st t. case ConstantTimePrefixSumComputer_getIndexOf st t of Inl _ \<Rightarrow> None | Inr r \<Rightarrow> fst r"
proof unfold_locales
  fix st :: ConstantTimePrefixSumComputer and t :: int
  show "ct_small st \<Longrightarrow> \<forall>v \<in> set (ct_values st). 0 \<le> v" by (simp add: ct_small_def ct_inv_def)
  show "ct_small st \<Longrightarrow> 0 \<le> t \<Longrightarrow>
      (case ConstantTimePrefixSumComputer_getIndexOf st t of Inl _ \<Rightarrow> None | Inr r \<Rightarrow> fst r) =
      Some (scan_index (ct_values st) 0 t)"
    using ct_getIndexOf_run [of st t] by auto
qed

lemma ct_invalidate_inv:
  assumes "ct_inv st" and "\<forall>v \<in> set vals. 0 \<le> v" and "0 \<le> i" and "i \<le> int (length vals)"
    and "take (nat i) vals = take (nat i) (ct_values st)"
  shows "ct_inv (ct_invalidate (st\<lparr>ct_values := vals\<rparr>) i)"
proof -
  let ?m = "nat (min (validEndIndex st) (i - 1) + 1)"
  have "take ?m (ct_values st) = take ?m vals"
    by (rule take_eq_shorter [OF assms(5) [symmetric]]) (use assms(3) in simp)
  moreover have "ct_cached (ct_values st) (ct_prefixSum st) (indexBySum st) ?m"
    using assms(1) by (auto simp: ct_inv_def intro: ct_cached_less)
  ultimately have "ct_cached vals (ct_prefixSum st) (indexBySum st) ?m"
    by (rule ct_cached_cong [rotated])
  then show ?thesis using assms(1-4) by (auto simp: ct_inv_def ct_invalidate_def)
qed

lemma ct_removeValues_inv:
  assumes "ct_inv st" and "0 \<le> i" and "i \<le> int (length (ct_values st))"
  shows "ct_inv (ConstantTimePrefixSumComputer_removeValues st i n)"
proof -
  have "set (js_splice (ct_values st) i n []) \<subseteq> set (ct_values st)"
    by (auto simp: js_splice_def Let_def dest: in_set_takeD in_set_dropD)
  moreover have "js_rel (ct_values st) i = i" using assms(2,3) by (simp add: js_rel_def)
  ultimately show ?thesis
    using assms unfolding ConstantTimePrefixSumComputer_removeValues_def
    by (intro ct_invalidate_inv) (auto simp: ct_inv_def js_splice_def Let_def)
qed

lemma ct_insertValues_inv:
  assumes "ct_inv st" and "0 \<le> i" and "i \<le> int (length (ct_values st))" and "\<forall>v \<in> set new. 0 \<le> v"
  shows "ct_inv (ConstantTimePrefixSumComputer_insertValues st i new)"
proof -
  have "js_slice (ct_values st) 0 i = take (nat i) (ct_values st)"
    and "js_slice (ct_values st) i (int (length (ct_values st))) = drop (nat i) (ct_values st)"
    using assms(2,3) by (simp_all add: js_slice_in)
  then show ?thesis
    using assms unfolding ConstantTimePrefixSumComputer_insertValues_def
    by (intro ct_invalidate_inv) (auto simp: ct_inv_def dest: in_set_takeD in_set_dropD)
qed

lemma ct_setValue_inv:
  assumes "ct_inv st" and "0 \<le> v" and "ConstantTimePrefixSumComputer_setValue st i v = Some st'"
  shows "ct_inv st'"
proof (cases "js_at (ct_values st) i = Some v")
  case True
  then show ?thesis using assms by (simp add: ConstantTimePrefixSumComputer_setValue_def split: if_splits)
next
  case False
  let ?vals = "if i < int (length (ct_values st)) then (ct_values st)[nat i := v] else ct_values st @ [v]"
  have i: "0 \<le> i" "i \<le> int (length (ct_values st))" and st': "st' = ct_invalidate (st\<lparr>ct_values := ?vals\<rparr>) i"
    using assms(3) False by (auto simp: ConstantTimePrefixSumComputer_setValue_def split: if_splits)
  have "set ?vals \<subseteq> insert v (set (ct_values st))" by (auto dest: set_update_subset_insert [THEN subsetD])
  then show ?thesis
    unfolding st' using assms(1,2) i by (intro ct_invalidate_inv) (auto simp: ct_inv_def)
qed

text \<open>The calls of a client, as for the other computer.\<close>

datatype ct_call =
    CtRemove int int
  | CtInsert int "int list"
  | CtSet int int
  | CtIndexOf int

fun ct_perform :: "ct_call \<Rightarrow> ConstantTimePrefixSumComputer \<Rightarrow> ConstantTimePrefixSumComputer result option" where
  "ct_perform (CtRemove i n) st = Some (Inr (ConstantTimePrefixSumComputer_removeValues st i n))"
| "ct_perform (CtInsert i new) st = Some (Inr (ConstantTimePrefixSumComputer_insertValues st i new))"
| "ct_perform (CtSet i v) st = map_option Inr (ConstantTimePrefixSumComputer_setValue st i v)"
| "ct_perform (CtIndexOf t) st = Some (rbind (ConstantTimePrefixSumComputer_getIndexOf st t) (\<lambda>r. Inr (snd r)))"

fun ct_effect :: "ct_call \<Rightarrow> int list \<Rightarrow> int list" where
  "ct_effect (CtRemove i n) vs = take (nat i) vs @ drop (nat i + nat n) vs"
| "ct_effect (CtInsert i new) vs = take (nat i) vs @ new @ drop (nat i) vs"
| "ct_effect (CtSet i v) vs = (if i < int (length vs) then vs[nat i := v] else vs @ [v])"
| "ct_effect (CtIndexOf t) vs = vs"

definition ct_answerable :: "int list \<Rightarrow> bool" where
  "ct_answerable vs \<longleftrightarrow> sum_list vs < 4294967296 \<and> int (length vs) < 4294967296"

fun ct_in_range :: "ct_call \<Rightarrow> int list \<Rightarrow> bool" where
  "ct_in_range (CtRemove i n) vs \<longleftrightarrow> 0 \<le> i \<and> i \<le> int (length vs)"
| "ct_in_range (CtInsert i new) vs \<longleftrightarrow> 0 \<le> i \<and> i \<le> int (length vs) \<and> (\<forall>v \<in> set new. 0 \<le> v)"
| "ct_in_range (CtSet i v) vs \<longleftrightarrow> 0 \<le> i \<and> i \<le> int (length vs) \<and> 0 \<le> v"
| "ct_in_range (CtIndexOf t) vs \<longleftrightarrow> 0 \<le> t \<and> ct_answerable vs"

fun ct_history_ok :: "ct_call list \<Rightarrow> int list \<Rightarrow> bool" where
  "ct_history_ok [] vs \<longleftrightarrow> True"
| "ct_history_ok (c # cs) vs \<longleftrightarrow> ct_in_range c vs \<and> ct_history_ok cs (ct_effect c vs)"

lemma ct_removeValues_values:
  "0 \<le> i \<Longrightarrow> i \<le> int (length (ct_values st)) \<Longrightarrow>
     ct_values (ConstantTimePrefixSumComputer_removeValues st i n) = take (nat i) (ct_values st) @ drop (nat i + nat n) (ct_values st)"
proof -
  assume i: "0 \<le> i" "i \<le> int (length (ct_values st))"
  have "js_rel (ct_values st) i = i" using i by (simp add: js_rel_def)
  moreover have "drop (nat (i + max 0 (min n (int (length (ct_values st)) - i)))) (ct_values st) = drop (nat i + nat n) (ct_values st)"
  proof (cases "n \<le> int (length (ct_values st)) - i")
    case True
    then have "nat (i + max 0 (min n (int (length (ct_values st)) - i))) = nat i + nat n" using i by (auto simp: max_def min_def nat_add_distrib)
    then show ?thesis by simp
  qed (use i in auto)
  ultimately show ?thesis
    by (simp add: ConstantTimePrefixSumComputer_removeValues_def ct_invalidate_def js_splice_def Let_def)
qed

lemma ct_insertValues_values:
  "0 \<le> i \<Longrightarrow> i \<le> int (length (ct_values st)) \<Longrightarrow>
     ct_values (ConstantTimePrefixSumComputer_insertValues st i new) = take (nat i) (ct_values st) @ new @ drop (nat i) (ct_values st)"
  by (simp add: ConstantTimePrefixSumComputer_insertValues_def ct_invalidate_def js_slice_in)

lemma ct_setValue_values:
  assumes "0 \<le> i" "i \<le> int (length (ct_values st))"
  obtains st' where "ConstantTimePrefixSumComputer_setValue st i v = Some st'" "ct_values st' = ct_effect (CtSet i v) (ct_values st)"
proof (cases "js_at (ct_values st) i = Some v")
  case True
  then have "i < int (length (ct_values st))" "ct_values st ! nat i = v" using assms by (auto simp: js_at_def split: if_splits)
  then have "ct_effect (CtSet i v) (ct_values st) = ct_values st" by auto
  then show thesis using that [of st] True assms by (simp add: ConstantTimePrefixSumComputer_setValue_def)
next
  case False
  then show thesis using that assms by (simp add: ConstantTimePrefixSumComputer_setValue_def ct_invalidate_def)
qed

lemma ct_perform_effect:
  assumes "ct_inv st" and "ct_in_range c (ct_values st)"
  shows "\<exists>st'. ct_perform c st = Some (Inr st') \<and> ct_inv st' \<and> ct_values st' = ct_effect c (ct_values st)"
proof (cases c)
  case (CtRemove i n)
  then show ?thesis using ct_removeValues_inv [OF assms(1)] ct_removeValues_values [of i st n] assms(2) by simp
next
  case (CtInsert i new)
  then show ?thesis using ct_insertValues_inv [OF assms(1)] ct_insertValues_values [of i st new] assms(2) by simp
next
  case (CtSet i v)
  then have "0 \<le> i" "i \<le> int (length (ct_values st))" "0 \<le> v" using assms(2) by auto
  then obtain st' where "ConstantTimePrefixSumComputer_setValue st i v = Some st'" "ct_values st' = ct_effect c (ct_values st)"
    using ct_setValue_values CtSet by metis
  then show ?thesis using ct_setValue_inv [OF assms(1) \<open>0 \<le> v\<close>] CtSet by simp
next
  case (CtIndexOf t)
  then have "ct_small st" "0 \<le> t" using assms by (auto simp: ct_small_def ct_answerable_def)
  from ct_getIndexOf_run [OF this] show ?thesis using CtIndexOf by auto
qed

lemma ct_history_effect:
  "ct_inv st \<Longrightarrow> ct_history_ok cs (ct_values st) \<Longrightarrow>
     \<exists>st'. perform_all ct_perform cs st = Some (Inr st') \<and> ct_inv st' \<and> ct_values st' = fold ct_effect cs (ct_values st)"
proof (induction cs arbitrary: st)
  case (Cons c cs)
  then obtain st1 where "ct_perform c st = Some (Inr st1)" "ct_inv st1" "ct_values st1 = ct_effect c (ct_values st)"
    using ct_perform_effect [of st c] by auto
  then show ?case using Cons.IH [of st1] Cons.prems by simp
qed simp

text \<open>C9: ConstantTimePrefixSumComputer, whose table from sums to indices is built lazily and survives edits up to
  the first changed value, answers getIndexOf after any history of calls like a linear scan over the values that the same
  calls give on a plain list.  The calls are removeValues, insertValues and setValue at an index of the array or its
  end, with non-negative values, in any order and number between two queries, and getIndexOf with a non-negative
  argument; whenever an index is asked for, the total and the number of values are below 2^32, the limit of an array's
  length.\<close>

theorem ConstantTimePrefixSumComputer_getIndexOf_linear:
  assumes "\<forall>v \<in> set vs. 0 \<le> v" and "ct_history_ok calls vs" and "ct_answerable (fold ct_effect calls vs)" and "0 \<le> target"
  shows "\<exists>st st'. perform_all ct_perform calls (ConstantTimePrefixSumComputer_new vs) = Some (Inr st) \<and>
    ct_values st = fold ct_effect calls vs \<and>
    ConstantTimePrefixSumComputer_getIndexOf st target = Inr (Some (scan_index (fold ct_effect calls vs) 0 target), st')"
proof -
  have "ct_inv (ConstantTimePrefixSumComputer_new vs)" "ct_values (ConstantTimePrefixSumComputer_new vs) = vs"
    using ct_inv_new [OF assms(1)] by (simp_all add: ConstantTimePrefixSumComputer_new_def)
  then obtain st where st: "perform_all ct_perform calls (ConstantTimePrefixSumComputer_new vs) = Some (Inr st)" "ct_inv st"
    "ct_values st = fold ct_effect calls vs"
    using ct_history_effect [of "ConstantTimePrefixSumComputer_new vs" calls] assms(2) by auto
  then have "ct_small st" using assms(3) by (simp add: ct_small_def ct_answerable_def)
  from ct_getIndexOf_run [OF this assms(4)] show ?thesis using st by auto
qed

text \<open>Two edits between the queries, the second one behind the first.\<close>

definition example_ct_calls :: "ct_call list" where
  "example_ct_calls = [CtIndexOf 3, CtSet 0 1, CtSet 2 4, CtIndexOf 0, CtInsert 1 [0, 2], CtRemove 3 1]"

lemma ConstantTimePrefixSumComputer_getIndexOf_linear_witness:
  "\<exists>st st'. perform_all ct_perform example_ct_calls (ConstantTimePrefixSumComputer_new [2, 0, 3]) = Some (Inr st) \<and>
     ConstantTimePrefixSumComputer_getIndexOf st 4 = Inr (Some \<lparr>psi_index = 3, remainder = 1\<rparr>, st')"
proof -
  have "ct_history_ok example_ct_calls [2, 0, 3]" "ct_answerable (fold ct_effect example_ct_calls [2, 0, 3])"
    "fold ct_effect example_ct_calls [2, 0, 3] = [1, 0, 2, 4]"
    by code_simp+
  then show ?thesis
    using ConstantTimePrefixSumComputer_getIndexOf_linear [of "[2, 0, 3]" example_ct_calls 4] by auto
qed

end
