(* ===== verification/Js_Numbers.thy ===== *)
theory Js_Numbers
  imports Prelude Complex_Main
begin

text \<open>
  The numbers of JavaScript where their range or their rounding shows: NaN, the infinities, and finite values as
  rationals.  A sum or a product of doubles is the exact one rounded to 53 significant bits, ties to even, with the
  gradual underflow of the smallest doubles; an overflow is an infinity.  The sign of zero is not kept.
\<close>

datatype js_number = JsNaN | JsInfinity bool | JsNum rat

text \<open>Relational comparison of numbers: false when one is NaN; an infinity carries whether it is negative.\<close>

fun num_less :: "js_number \<Rightarrow> js_number \<Rightarrow> bool" where
  "num_less (JsNum a) (JsNum b) \<longleftrightarrow> a < b"
| "num_less (JsNum a) (JsInfinity neg) \<longleftrightarrow> \<not> neg"
| "num_less (JsInfinity neg) (JsNum b) \<longleftrightarrow> neg"
| "num_less (JsInfinity a) (JsInfinity b) \<longleftrightarrow> a \<and> \<not> b"
| "num_less _ _ \<longleftrightarrow> False"

definition num_eq :: "js_number \<Rightarrow> js_number \<Rightarrow> bool" where
  "num_eq a b \<longleftrightarrow> a \<noteq> JsNaN \<and> a = b"

text \<open>\<open>Math.max\<close> is NaN when one argument is.\<close>

definition num_max :: "js_number \<Rightarrow> js_number \<Rightarrow> js_number" where
  "num_max a b = (if a = JsNaN \<or> b = JsNaN then JsNaN else if num_less a b then b else a)"

section \<open>Rounding to a double\<close>

definition round_even :: "rat \<Rightarrow> int" where
  "round_even x =
     (let f = \<lfloor>x\<rfloor>; r = x - of_int f
      in if r < 1 / 2 then f else if r > 1 / 2 then f + 1 else if even f then f else f + 1)"

text \<open>The distance of the doubles around a non-negative number: it has 53 bits in units of it.\<close>

fun ulp_below :: "rat \<Rightarrow> nat \<Rightarrow> rat \<Rightarrow> rat" where
  "ulp_below q 0 u = u"
| "ulp_below q (Suc n) u = (if q < 4503599627370496 * u then ulp_below q n (u / 2) else u)"

fun ulp_above :: "rat \<Rightarrow> nat \<Rightarrow> rat \<Rightarrow> rat" where
  "ulp_above q 0 u = u"
| "ulp_above q (Suc n) u = (if 9007199254740992 * u \<le> q then ulp_above q n (2 * u) else u)"

definition ulp :: "rat \<Rightarrow> rat" where
  "ulp q = (if q < 9007199254740992 then ulp_below q 1074 1 else ulp_above q 971 1)"

definition double_of :: "rat \<Rightarrow> rat" where
  "double_of q = (if q < 0 then - (of_int (round_even (- q / ulp (- q))) * ulp (- q)) else of_int (round_even (q / ulp q)) * ulp q)"

definition js_finite :: "rat \<Rightarrow> js_number" where
  "js_finite q = (if 2 ^ 1024 \<le> double_of q then JsInfinity False else if double_of q \<le> - (2 ^ 1024) then JsInfinity True else JsNum (double_of q))"

fun num_add :: "js_number \<Rightarrow> js_number \<Rightarrow> js_number" where
  "num_add JsNaN _ = JsNaN"
| "num_add _ JsNaN = JsNaN"
| "num_add (JsNum a) (JsNum b) = js_finite (a + b)"
| "num_add (JsInfinity a) (JsInfinity b) = (if a = b then JsInfinity a else JsNaN)"
| "num_add (JsInfinity a) (JsNum _) = JsInfinity a"
| "num_add (JsNum _) (JsInfinity b) = JsInfinity b"

text \<open>\<open>Math.round\<close> of a double: the nearest integer, exactly, and the larger one of two.\<close>

definition js_round :: "rat \<Rightarrow> int" where
  "js_round x = \<lfloor>x + 1 / 2\<rfloor>"

text \<open>Rounding does not leave an interval between 0 and an integer that is a double.\<close>

lemma round_even_nonneg: "0 \<le> x \<Longrightarrow> 0 \<le> round_even x"
  by (simp add: round_even_def Let_def)

lemma round_even_le:
  assumes "x \<le> of_int z"
  shows "round_even x \<le> z"
proof (cases "\<lfloor>x\<rfloor> = z")
  case True
  then have "x = of_int z" using assms by linarith
  then show ?thesis by (simp add: round_even_def Let_def)
next
  case False
  moreover have "\<lfloor>x\<rfloor> \<le> z" using assms by linarith
  ultimately show ?thesis by (simp add: round_even_def Let_def)
qed

lemma ulp_below_power: "\<exists>m. u = 1 / 2 ^ m \<Longrightarrow> \<exists>m. ulp_below q n u = 1 / 2 ^ m"
proof (induction n arbitrary: u)
  case (Suc n)
  then obtain m where "u = 1 / 2 ^ m" by blast
  then have "u / 2 = 1 / 2 ^ Suc m" by simp
  then have "\<exists>m. ulp_below q n (u / 2) = 1 / 2 ^ m" by (intro Suc.IH) blast
  then show ?case using Suc.prems by simp
qed simp

lemma ulp_power:
  assumes "q < 9007199254740992"
  obtains m where "ulp q = 1 / 2 ^ m"
proof -
  have "\<exists>m. ulp_below q 1074 1 = 1 / 2 ^ m" by (rule ulp_below_power) (rule exI [of _ 0], simp)
  then show thesis using that assms by (auto simp: ulp_def)
qed

lemma double_of_bounds:
  assumes "0 \<le> q" and "q \<le> of_int n" and "n < 9007199254740992"
  shows "0 \<le> double_of q" and "double_of q \<le> of_int n"
proof -
  have "q < 9007199254740992" using assms(2,3) by linarith
  then obtain m where u: "ulp q = 1 / 2 ^ m" by (rule ulp_power)
  have d: "double_of q = of_int (round_even (q * 2 ^ m)) / 2 ^ m" using assms(1) by (simp add: double_of_def u)
  have "0 \<le> round_even (q * 2 ^ m)" using assms(1) by (intro round_even_nonneg) simp
  then show "0 \<le> double_of q" by (simp add: d)
  have "q * 2 ^ m \<le> of_int (n * 2 ^ m)" using assms(2) by (simp add: mult_right_mono)
  then have "round_even (q * 2 ^ m) \<le> n * 2 ^ m" by (rule round_even_le)
  then have "(of_int (round_even (q * 2 ^ m)) :: rat) \<le> of_int (n * 2 ^ m)" by (simp only: of_int_le_iff)
  then show "double_of q \<le> of_int n" by (simp add: d divide_le_eq)
qed

lemma double_of_0 [simp]: "double_of 0 = 0"
  using double_of_bounds [of 0 0] by simp

text \<open>Integers below \<open>2 ^ 53\<close> are doubles, so sums of such numbers are exact.\<close>

lemma round_even_int [simp]: "round_even (of_int z) = z"
  by (simp add: round_even_def)

lemma double_of_int:
  assumes "0 \<le> n" and "n < 9007199254740992"
  shows "double_of (of_int n) = of_int n"
proof -
  have "(of_int n :: rat) < 9007199254740992" using assms(2) by simp
  then obtain m where u: "ulp (of_int n) = 1 / 2 ^ m" by (rule ulp_power)
  have "of_int n * 2 ^ m = (of_int (n * 2 ^ m) :: rat)" by simp
  then have "round_even (of_int n * 2 ^ m) = n * 2 ^ m" by (simp only: round_even_int)
  then show ?thesis using assms(1) by (simp add: double_of_def u)
qed

lemma double_of_minus: "0 < q \<Longrightarrow> double_of (- q) = - double_of q"
  by (simp add: double_of_def)

lemma js_finite_int:
  assumes "\<bar>n\<bar> < 9007199254740992"
  shows "js_finite (of_int n) = JsNum (of_int n)"
proof -
  have d: "double_of (of_int n) = of_int n"
  proof (cases "0 \<le> n")
    case True
    then show ?thesis using double_of_int assms by simp
  next
    case False
    then show ?thesis using double_of_minus [of "of_int (- n)"] double_of_int [of "- n"] assms by simp
  qed
  have "(of_int \<bar>n\<bar> :: rat) < of_int (2 ^ 1024)" unfolding of_int_less_iff using assms by simp
  then have "\<bar>of_int n :: rat\<bar> < 2 ^ 1024" by simp
  then show ?thesis by (simp add: js_finite_def d abs_less_iff not_le)
qed

lemma js_finite_code [code]:
  "js_finite q =
     (if q = of_int \<lfloor>q\<rfloor> \<and> \<bar>\<lfloor>q\<rfloor>\<bar> < 9007199254740992 then JsNum q
      else if 2 ^ 1024 \<le> double_of q then JsInfinity False else if double_of q \<le> - (2 ^ 1024) then JsInfinity True else JsNum (double_of q))"
proof (cases "q = of_int \<lfloor>q\<rfloor> \<and> \<bar>\<lfloor>q\<rfloor>\<bar> < 9007199254740992")
  case True
  then have "js_finite (of_int \<lfloor>q\<rfloor>) = JsNum (of_int \<lfloor>q\<rfloor>)" by (intro js_finite_int conjunct2 [OF True])
  then have "js_finite q = JsNum q" unfolding conjunct1 [OF True, symmetric] .
  then show ?thesis unfolding if_P [OF True] .
next
  case False
  then show ?thesis unfolding js_finite_def by (rule if_not_P [symmetric])
qed

text \<open>15 * 0.7, with 0.7 the nearest double, is exactly 10.5.\<close>

lemma double_of_example: "double_of (15 * (6305039478318694 / 9007199254740992)) = 21 / 2"
proof -
  have "\<lfloor>47287796087390205 / 8 :: rat\<rfloor> = 5910974510923775" by (simp add: floor_eq_iff)
  then have "round_even (47287796087390205 / 8) = 5910974510923776" by (simp add: round_even_def)
  moreover have "15 * (6305039478318694 / 9007199254740992) = (47287796087390205 / 4503599627370496 :: rat)" by simp
  moreover have "ulp (47287796087390205 / 4503599627370496) = 1 / 562949953421312" by (simp add: ulp_def numeral_eq_Suc)
  ultimately show ?thesis by (simp only: double_of_def) simp
qed

end
