(* ===== verification/Linked_Maps.thy ===== *)
theory Linked_Maps
  imports Js_Numbers
begin

text \<open>
  \<open>src/vs/base/common/map.ts\<close>: \<open>LinkedMap\<close>, the doubly linked list threaded through a hash map, and the
  caches built on it.  Items are mutable and shared between the map and the list, so the state holds a
  store of items indexed by address; \<open>undefined\<close> pointers are None and a write through one throws.
  A chain of addresses relates the state to the association list of its entries in order.  The limit of a cache is an
  integer, its ratio a finite number; their product is rounded to a double.
\<close>

section \<open>Items and the map\<close>

type_synonym addr = nat

record ('k, 'v) Item =
  item_previous :: "addr option"
  item_next :: "addr option"
  item_key :: 'k
  item_value :: 'v

datatype Touch = Touch_None | Touch_AsOld | Touch_AsNew

record ('k, 'v) LinkedMap =
  lm_items :: "('k, 'v) Item list"
  lm_map :: "'k \<Rightarrow> addr option"
  lm_head :: "addr option"
  lm_tail :: "addr option"
  lm_size :: int
  lm_state :: int

definition LinkedMap_new :: "('k, 'v) LinkedMap" where
  "LinkedMap_new = \<lparr>lm_items = [], lm_map = Map.empty, lm_head = None, lm_tail = None, lm_size = 0, lm_state = 0\<rparr>"

text \<open>Reading and assigning the fields of the item at an address.\<close>

definition item_at :: "('k, 'v, 'z) LinkedMap_scheme \<Rightarrow> addr \<Rightarrow> ('k, 'v) Item" where
  "item_at st a = lm_items st ! a"

definition put_item :: "addr \<Rightarrow> (('k, 'v) Item \<Rightarrow> ('k, 'v) Item) \<Rightarrow> ('k, 'v) Item list \<Rightarrow> ('k, 'v) Item list" where
  "put_item a f items = items[a := f (items ! a)]"

definition put_previous :: "addr \<Rightarrow> addr option \<Rightarrow> ('k, 'v, 'z) LinkedMap_scheme \<Rightarrow> ('k, 'v, 'z) LinkedMap_scheme" where
  "put_previous a p st = st\<lparr>lm_items := put_item a (item_previous_update (\<lambda>_. p)) (lm_items st)\<rparr>"

definition put_next :: "addr \<Rightarrow> addr option \<Rightarrow> ('k, 'v, 'z) LinkedMap_scheme \<Rightarrow> ('k, 'v, 'z) LinkedMap_scheme" where
  "put_next a n st = st\<lparr>lm_items := put_item a (item_next_update (\<lambda>_. n)) (lm_items st)\<rparr>"

definition put_value :: "addr \<Rightarrow> 'v \<Rightarrow> ('k, 'v, 'z) LinkedMap_scheme \<Rightarrow> ('k, 'v, 'z) LinkedMap_scheme" where
  "put_value a v st = st\<lparr>lm_items := put_item a (item_value_update (\<lambda>_. v)) (lm_items st)\<rparr>"

fun assign_previous :: "addr option \<Rightarrow> addr option \<Rightarrow> ('k, 'v, 'z) LinkedMap_scheme \<Rightarrow> ('k, 'v, 'z) LinkedMap_scheme result" where
  "assign_previous None p st = Inl JsTypeError"
| "assign_previous (Some a) p st = Inr (put_previous a p st)"

fun assign_next :: "addr option \<Rightarrow> addr option \<Rightarrow> ('k, 'v, 'z) LinkedMap_scheme \<Rightarrow> ('k, 'v, 'z) LinkedMap_scheme result" where
  "assign_next None n st = Inl JsTypeError"
| "assign_next (Some a) n st = Inr (put_next a n st)"

definition bump_state :: "('k, 'v, 'z) LinkedMap_scheme \<Rightarrow> ('k, 'v, 'z) LinkedMap_scheme" where
  "bump_state st = st\<lparr>lm_state := lm_state st + 1\<rparr>"

definition LinkedMap_clear :: "('k, 'v, 'z) LinkedMap_scheme \<Rightarrow> ('k, 'v, 'z) LinkedMap_scheme" where
  "LinkedMap_clear st = bump_state (st\<lparr>lm_map := Map.empty, lm_head := None, lm_tail := None, lm_size := 0\<rparr>)"

definition LinkedMap_isEmpty :: "('k, 'v, 'z) LinkedMap_scheme \<Rightarrow> bool" where
  "LinkedMap_isEmpty st \<longleftrightarrow> lm_head st = None \<and> lm_tail st = None"

definition LinkedMap_size :: "('k, 'v, 'z) LinkedMap_scheme \<Rightarrow> int" where
  "LinkedMap_size st = lm_size st"

definition LinkedMap_first :: "('k, 'v, 'z) LinkedMap_scheme \<Rightarrow> 'v option" where
  "LinkedMap_first st = map_option (\<lambda>a. item_value (item_at st a)) (lm_head st)"

definition LinkedMap_last :: "('k, 'v, 'z) LinkedMap_scheme \<Rightarrow> 'v option" where
  "LinkedMap_last st = map_option (\<lambda>a. item_value (item_at st a)) (lm_tail st)"

definition LinkedMap_has :: "'k \<Rightarrow> ('k, 'v, 'z) LinkedMap_scheme \<Rightarrow> bool" where
  "LinkedMap_has k st \<longleftrightarrow> lm_map st k \<noteq> None"

section \<open>Linking and unlinking items\<close>

definition addItemFirst :: "addr \<Rightarrow> ('k, 'v, 'z) LinkedMap_scheme \<Rightarrow> ('k, 'v, 'z) LinkedMap_scheme result" where
  "addItemFirst a st =
     rbind (if lm_head st = None \<and> lm_tail st = None then Inr (st\<lparr>lm_tail := Some a\<rparr>)
            else case lm_head st of
                None \<Rightarrow> Inl InvalidListError
              | Some h \<Rightarrow> Inr (put_previous h (Some a) (put_next a (Some h) st)))
       (\<lambda>st. Inr (bump_state (st\<lparr>lm_head := Some a\<rparr>)))"

definition addItemLast :: "addr \<Rightarrow> ('k, 'v, 'z) LinkedMap_scheme \<Rightarrow> ('k, 'v, 'z) LinkedMap_scheme result" where
  "addItemLast a st =
     rbind (if lm_head st = None \<and> lm_tail st = None then Inr (st\<lparr>lm_head := Some a\<rparr>)
            else case lm_tail st of
                None \<Rightarrow> Inl InvalidListError
              | Some t \<Rightarrow> Inr (put_next t (Some a) (put_previous a (Some t) st)))
       (\<lambda>st. Inr (bump_state (st\<lparr>lm_tail := Some a\<rparr>)))"

definition removeItem :: "addr \<Rightarrow> ('k, 'v, 'z) LinkedMap_scheme \<Rightarrow> ('k, 'v, 'z) LinkedMap_scheme result" where
  "removeItem a st =
     rbind (if Some a = lm_head st \<and> Some a = lm_tail st then Inr (st\<lparr>lm_head := None, lm_tail := None\<rparr>)
            else if Some a = lm_head st then
              (case item_next (item_at st a) of
                 None \<Rightarrow> Inl InvalidListError
               | Some n \<Rightarrow> Inr ((put_previous n None st)\<lparr>lm_head := Some n\<rparr>))
            else if Some a = lm_tail st then
              (case item_previous (item_at st a) of
                 None \<Rightarrow> Inl InvalidListError
               | Some p \<Rightarrow> Inr ((put_next p None st)\<lparr>lm_tail := Some p\<rparr>))
            else
              (case (item_next (item_at st a), item_previous (item_at st a)) of
                 (Some n, Some p) \<Rightarrow> Inr (put_next p (Some n) (put_previous n (Some p) st))
               | _ \<Rightarrow> Inl InvalidListError))
       (\<lambda>st. Inr (bump_state (put_previous a None (put_next a None st))))"

text \<open>\<open>touch\<close>: to the front (\<open>AsOld\<close>) or to the end (\<open>AsNew\<close>).\<close>

definition touch_old :: "addr \<Rightarrow> ('k, 'v, 'z) LinkedMap_scheme \<Rightarrow> ('k, 'v, 'z) LinkedMap_scheme result" where
  "touch_old a st =
     (if Some a = lm_head st then Inr st
      else
        let n = item_next (item_at st a); p = item_previous (item_at st a)
        in rbind (if Some a = lm_tail st
                  then rbind (assign_next p None st) (\<lambda>st. Inr (st\<lparr>lm_tail := p\<rparr>))
                  else rbind (assign_previous n p st) (assign_next p n)) (\<lambda>st.
           rbind (assign_previous (lm_head st) (Some a) (put_next a (lm_head st) (put_previous a None st))) (\<lambda>st.
           Inr (bump_state (st\<lparr>lm_head := Some a\<rparr>)))))"

definition touch_new :: "addr \<Rightarrow> ('k, 'v, 'z) LinkedMap_scheme \<Rightarrow> ('k, 'v, 'z) LinkedMap_scheme result" where
  "touch_new a st =
     (if Some a = lm_tail st then Inr st
      else
        let n = item_next (item_at st a); p = item_previous (item_at st a)
        in rbind (if Some a = lm_head st
                  then rbind (assign_previous n None st) (\<lambda>st. Inr (st\<lparr>lm_head := n\<rparr>))
                  else rbind (assign_previous n p st) (assign_next p n)) (\<lambda>st.
           rbind (assign_next (lm_tail st) (Some a) (put_previous a (lm_tail st) (put_next a None st))) (\<lambda>st.
           Inr (bump_state (st\<lparr>lm_tail := Some a\<rparr>)))))"

definition touch_item :: "addr \<Rightarrow> Touch \<Rightarrow> ('k, 'v, 'z) LinkedMap_scheme \<Rightarrow> ('k, 'v, 'z) LinkedMap_scheme result" where
  "touch_item a t st =
     (if lm_head st = None \<or> lm_tail st = None then Inl InvalidListError
      else case t of
          Touch_None \<Rightarrow> Inr st
        | Touch_AsOld \<Rightarrow> touch_old a st
        | Touch_AsNew \<Rightarrow> touch_new a st)"

section \<open>Operations of the map\<close>

definition LinkedMap_get :: "'k \<Rightarrow> Touch \<Rightarrow> ('k, 'v, 'z) LinkedMap_scheme \<Rightarrow> ('v option \<times> ('k, 'v, 'z) LinkedMap_scheme) result" where
  "LinkedMap_get k t st =
     (case lm_map st k of
        None \<Rightarrow> Inr (None, st)
      | Some a \<Rightarrow> rbind (if t \<noteq> Touch_None then touch_item a t st else Inr st)
                    (\<lambda>st. Inr (Some (item_value (item_at st a)), st)))"

definition LinkedMap_set :: "'k \<Rightarrow> 'v \<Rightarrow> Touch \<Rightarrow> ('k, 'v, 'z) LinkedMap_scheme \<Rightarrow> ('k, 'v, 'z) LinkedMap_scheme result" where
  "LinkedMap_set k v t st =
     (case lm_map st k of
        Some a \<Rightarrow> (if t \<noteq> Touch_None then touch_item a t (put_value a v st) else Inr (put_value a v st))
      | None \<Rightarrow>
          let a = length (lm_items st);
              st = st\<lparr>lm_items := lm_items st @ [\<lparr>item_previous = None, item_next = None, item_key = k, item_value = v\<rparr>]\<rparr>
          in rbind (case t of Touch_None \<Rightarrow> addItemLast a st
                            | Touch_AsOld \<Rightarrow> addItemFirst a st
                            | Touch_AsNew \<Rightarrow> addItemLast a st)
               (\<lambda>st. Inr (st\<lparr>lm_map := (lm_map st)(k := Some a), lm_size := lm_size st + 1\<rparr>)))"

definition LinkedMap_remove :: "'k \<Rightarrow> ('k, 'v, 'z) LinkedMap_scheme \<Rightarrow> ('v option \<times> ('k, 'v, 'z) LinkedMap_scheme) result" where
  "LinkedMap_remove k st =
     (case lm_map st k of
        None \<Rightarrow> Inr (None, st)
      | Some a \<Rightarrow> rbind (removeItem a (st\<lparr>lm_map := (lm_map st)(k := None)\<rparr>))
          (\<lambda>st. Inr (Some (item_value (item_at st a)), st\<lparr>lm_size := lm_size st - 1\<rparr>)))"

text \<open>\<open>!!this.remove(key)\<close>: the truth value of the removed value, not whether one was removed.\<close>

definition LinkedMap_delete :: "('v \<Rightarrow> bool) \<Rightarrow> 'k \<Rightarrow> ('k, 'v, 'z) LinkedMap_scheme \<Rightarrow> (bool \<times> ('k, 'v, 'z) LinkedMap_scheme) result" where
  "LinkedMap_delete truthy k st =
     rbind (LinkedMap_remove k st) (\<lambda>(v, st). Inr (case v of None \<Rightarrow> False | Some x \<Rightarrow> truthy x, st))"

definition LinkedMap_shift :: "('k, 'v, 'z) LinkedMap_scheme \<Rightarrow> ('v option \<times> ('k, 'v, 'z) LinkedMap_scheme) result" where
  "LinkedMap_shift st =
     (if lm_head st = None \<and> lm_tail st = None then Inr (None, st)
      else case (lm_head st, lm_tail st) of
          (Some a, Some _) \<Rightarrow>
            rbind (removeItem a (st\<lparr>lm_map := (lm_map st)(item_key (item_at st a) := None)\<rparr>))
              (\<lambda>st. Inr (Some (item_value (item_at st a)), st\<lparr>lm_size := lm_size st - 1\<rparr>))
        | _ \<Rightarrow> Inl InvalidListError)"

text \<open>
  \<open>forEach\<close> with a callback that sees and may change the map and a state of its own; the list may have been
  made cyclic by then, so the loop may run forever: None.
\<close>

partial_function (option) forEach_loop ::
    "('v \<Rightarrow> 'k \<Rightarrow> ('k, 'v, 'z) LinkedMap_scheme \<Rightarrow> 's \<Rightarrow> ('k, 'v, 'z) LinkedMap_scheme \<times> 's) \<Rightarrow> int \<Rightarrow> addr option \<Rightarrow>
       ('k, 'v, 'z) LinkedMap_scheme \<Rightarrow> 's \<Rightarrow> (('k, 'v, 'z) LinkedMap_scheme \<times> 's) result option" where
  "forEach_loop callbackfn state current st s =
     (case current of
        None \<Rightarrow> Some (Inr (st, s))
      | Some a \<Rightarrow>
          let r = callbackfn (item_value (item_at st a)) (item_key (item_at st a)) st s
          in if lm_state (fst r) \<noteq> state then Some (Inl ModifiedDuringIterationError)
             else forEach_loop callbackfn state (item_next (item_at (fst r) a)) (fst r) (snd r))"

declare forEach_loop.simps [code]

definition LinkedMap_forEach ::
    "('v \<Rightarrow> 'k \<Rightarrow> ('k, 'v, 'z) LinkedMap_scheme \<Rightarrow> 's \<Rightarrow> ('k, 'v, 'z) LinkedMap_scheme \<times> 's) \<Rightarrow>
       ('k, 'v, 'z) LinkedMap_scheme \<Rightarrow> 's \<Rightarrow> (('k, 'v, 'z) LinkedMap_scheme \<times> 's) result option" where
  "LinkedMap_forEach callbackfn st s = forEach_loop callbackfn (lm_state st) (lm_head st) st s"

definition LinkedMap_toJSON :: "('k, 'v, 'z) LinkedMap_scheme \<Rightarrow> ('k \<times> 'v) list result option" where
  "LinkedMap_toJSON st =
     map_option (\<lambda>r. rbind r (\<lambda>(_, data). Inr data)) (LinkedMap_forEach (\<lambda>v k st data. (st, data @ [(k, v)])) st [])"

definition LinkedMap_fromJSON :: "('k \<times> 'v) list \<Rightarrow> ('k, 'v, 'z) LinkedMap_scheme \<Rightarrow> ('k, 'v, 'z) LinkedMap_scheme result" where
  "LinkedMap_fromJSON data st = rfold (\<lambda>(k, v). LinkedMap_set k v Touch_None) data (LinkedMap_clear st)"

text \<open>The iterators \<open>keys\<close>, \<open>values\<close> and \<open>entries\<close>: the captured state counter and the current item.\<close>

record LinkedMapIterator =
  it_state :: int
  it_current :: "addr option"

definition iterator_next ::
    "(('k, 'v) Item \<Rightarrow> 'r) \<Rightarrow> ('k, 'v, 'z) LinkedMap_scheme \<Rightarrow> LinkedMapIterator \<Rightarrow> ('r option \<times> LinkedMapIterator) result" where
  "iterator_next pick st it =
     (if lm_state st \<noteq> it_state it then Inl ModifiedDuringIterationError
      else case it_current it of
          None \<Rightarrow> Inr (None, it)
        | Some a \<Rightarrow> Inr (Some (pick (item_at st a)), it\<lparr>it_current := item_next (item_at st a)\<rparr>))"

definition LinkedMap_iterator :: "('k, 'v, 'z) LinkedMap_scheme \<Rightarrow> LinkedMapIterator" where
  "LinkedMap_iterator st = \<lparr>it_state = lm_state st, it_current = lm_head st\<rparr>"

definition LinkedMap_keys where
  "LinkedMap_keys st = (LinkedMap_iterator st, iterator_next item_key)"

definition LinkedMap_values where
  "LinkedMap_values st = (LinkedMap_iterator st, iterator_next item_value)"

definition LinkedMap_entries where
  "LinkedMap_entries st = (LinkedMap_iterator st, iterator_next (\<lambda>item. (item_key item, item_value item)))"

text \<open>The loops of \<open>trimOld\<close> and \<open>trimNew\<close>: the map, the current item and the size left.\<close>

function trim_loop ::
    "(('k, 'v) Item \<Rightarrow> addr option) \<Rightarrow> ('k, 'v) Item list \<Rightarrow> int \<Rightarrow> ('k \<Rightarrow> addr option) \<Rightarrow> addr option \<Rightarrow> int \<Rightarrow>
       ('k \<Rightarrow> addr option) \<times> addr option \<times> int" where
  "trim_loop step items newSize m current currentSize =
     (case current of
        None \<Rightarrow> (m, current, currentSize)
      | Some a \<Rightarrow>
          if currentSize > newSize
          then trim_loop step items newSize (m(item_key (items ! a) := None)) (step (items ! a)) (currentSize - 1)
          else (m, current, currentSize))"
  by pat_completeness auto
termination by (relation "measure (\<lambda>(step, items, n, m, c, s). nat (s - n))") auto

declare trim_loop.simps [simp del]

definition trimOld :: "int \<Rightarrow> ('k, 'v, 'z) LinkedMap_scheme \<Rightarrow> ('k, 'v, 'z) LinkedMap_scheme" where
  "trimOld newSize st =
     (if newSize \<ge> lm_size st then st
      else if newSize = 0 then LinkedMap_clear st
      else
        let (m, current, currentSize) = trim_loop item_next (lm_items st) newSize (lm_map st) (lm_head st) (lm_size st);
            st = st\<lparr>lm_map := m, lm_head := current, lm_size := currentSize\<rparr>;
            st = (case current of None \<Rightarrow> st | Some a \<Rightarrow> put_previous a None st)
        in bump_state st)"

definition trimNew :: "int \<Rightarrow> ('k, 'v, 'z) LinkedMap_scheme \<Rightarrow> ('k, 'v, 'z) LinkedMap_scheme" where
  "trimNew newSize st =
     (if newSize \<ge> lm_size st then st
      else if newSize = 0 then LinkedMap_clear st
      else
        let (m, current, currentSize) = trim_loop item_previous (lm_items st) newSize (lm_map st) (lm_tail st) (lm_size st);
            st = st\<lparr>lm_map := m, lm_tail := current, lm_size := currentSize\<rparr>;
            st = (case current of None \<Rightarrow> st | Some a \<Rightarrow> put_next a None st)
        in bump_state st)"

section \<open>The caches\<close>

record ('k, 'v) Cache = "('k, 'v) LinkedMap" +
  cache_limit :: int
  cache_ratio :: rat

definition clamp_ratio :: "rat \<Rightarrow> rat" where
  "clamp_ratio ratio = min (max 0 ratio) 1"

definition Cache_new :: "int \<Rightarrow> rat \<Rightarrow> ('k, 'v) Cache" where
  "Cache_new limit ratio = LinkedMap.extend LinkedMap_new \<lparr>cache_limit = limit, cache_ratio = clamp_ratio ratio\<rparr>"

definition Cache_checkTrim :: "(int \<Rightarrow> ('k, 'v) Cache \<Rightarrow> ('k, 'v) Cache) \<Rightarrow> ('k, 'v) Cache \<Rightarrow> ('k, 'v) Cache" where
  "Cache_checkTrim trim st =
     (if lm_size st > cache_limit st then trim (js_round (double_of (of_int (cache_limit st) * cache_ratio st))) st else st)"

definition Cache_setLimit :: "(int \<Rightarrow> ('k, 'v) Cache \<Rightarrow> ('k, 'v) Cache) \<Rightarrow> int \<Rightarrow> ('k, 'v) Cache \<Rightarrow> ('k, 'v) Cache" where
  "Cache_setLimit trim limit st = Cache_checkTrim trim (st\<lparr>cache_limit := limit\<rparr>)"

definition Cache_setRatio :: "(int \<Rightarrow> ('k, 'v) Cache \<Rightarrow> ('k, 'v) Cache) \<Rightarrow> rat \<Rightarrow> ('k, 'v) Cache \<Rightarrow> ('k, 'v) Cache" where
  "Cache_setRatio trim ratio st = Cache_checkTrim trim (st\<lparr>cache_ratio := clamp_ratio ratio\<rparr>)"

text \<open>\<open>get\<close> with its default argument \<open>touch = Touch.AsNew\<close>.\<close>

definition Cache_get :: "'k \<Rightarrow> ('k, 'v) Cache \<Rightarrow> ('v option \<times> ('k, 'v) Cache) result" where
  "Cache_get k = LinkedMap_get k Touch_AsNew"

definition Cache_peek :: "'k \<Rightarrow> ('k, 'v) Cache \<Rightarrow> ('v option \<times> ('k, 'v) Cache) result" where
  "Cache_peek k = LinkedMap_get k Touch_None"

definition Cache_set :: "'k \<Rightarrow> 'v \<Rightarrow> ('k, 'v) Cache \<Rightarrow> ('k, 'v) Cache result" where
  "Cache_set k v = LinkedMap_set k v Touch_AsNew"

definition LRUCache_trim :: "int \<Rightarrow> ('k, 'v) Cache \<Rightarrow> ('k, 'v) Cache" where
  "LRUCache_trim = trimOld"

definition LRUCache_set :: "'k \<Rightarrow> 'v \<Rightarrow> ('k, 'v) Cache \<Rightarrow> ('k, 'v) Cache result" where
  "LRUCache_set k v st = rbind (Cache_set k v st) (\<lambda>st. Inr (Cache_checkTrim LRUCache_trim st))"

definition MRUCache_trim :: "int \<Rightarrow> ('k, 'v) Cache \<Rightarrow> ('k, 'v) Cache" where
  "MRUCache_trim = trimNew"

definition MRUCache_set :: "'k \<Rightarrow> 'v \<Rightarrow> ('k, 'v) Cache \<Rightarrow> ('k, 'v) Cache result" where
  "MRUCache_set k v st =
     Cache_set k v
       (if cache_limit st \<le> lm_size st \<and> \<not> LinkedMap_has k st
        then MRUCache_trim (js_round (double_of (of_int (cache_limit st) * cache_ratio st)) - 1) st else st)"

section \<open>Chains of items\<close>

text \<open>
  \<open>dll items p as n\<close>: the items at the addresses \<open>as\<close> are linked in this order, the first has \<open>p\<close>
  as its previous item and the last has \<open>n\<close> as its next item.
\<close>

fun first_of :: "addr list \<Rightarrow> addr option \<Rightarrow> addr option" where
  "first_of [] d = d"
| "first_of (a # as) d = Some a"

fun last_of :: "addr list \<Rightarrow> addr option \<Rightarrow> addr option" where
  "last_of [] d = d"
| "last_of (a # as) d = last_of as (Some a)"

fun dll :: "('k, 'v) Item list \<Rightarrow> addr option \<Rightarrow> addr list \<Rightarrow> addr option \<Rightarrow> bool" where
  "dll items p [] n \<longleftrightarrow> True"
| "dll items p (a # as) n \<longleftrightarrow>
     item_previous (items ! a) = p \<and> item_next (items ! a) = first_of as n \<and> dll items (Some a) as n"

lemma first_of_append [simp]: "first_of (xs @ ys) d = first_of xs (first_of ys d)"
  by (cases xs) auto

lemma last_of_append [simp]: "last_of (xs @ ys) d = last_of ys (last_of xs d)"
  by (induction xs arbitrary: d) auto

lemma first_of_None [simp]: "first_of as None = None \<longleftrightarrow> as = []"
  by (cases as) auto

lemma last_of_ne: "as \<noteq> [] \<Longrightarrow> last_of as d = Some (last as)"
  by (induction as arbitrary: d) auto

lemma last_of_None [simp]: "last_of as None = None \<longleftrightarrow> as = []"
  by (cases "as = []") (auto simp: last_of_ne)

lemma first_of_in: "first_of as None = Some a \<Longrightarrow> a \<in> set as"
  by (cases as) auto

lemma last_of_in: "last_of as None = Some a \<Longrightarrow> a \<in> set as"
  by (cases "as = []") (auto simp: last_of_ne)

lemma dll_append: "dll items p (xs @ ys) n \<longleftrightarrow> dll items p xs (first_of ys n) \<and> dll items (last_of xs p) ys n"
  by (induction xs arbitrary: p) auto

lemma length_put_item [simp]: "length (put_item a f items) = length items"
  by (simp add: put_item_def)

lemma put_item_same [simp]: "a < length items \<Longrightarrow> put_item a f items ! a = f (items ! a)"
  by (simp add: put_item_def)

lemma put_item_other [simp]: "a \<noteq> b \<Longrightarrow> put_item a f items ! b = items ! b"
  by (simp add: put_item_def)

lemma put_item_nth: "put_item a f items ! b = (if a = b \<and> a < length items then f (items ! b) else items ! b)"
  by (cases "a < length items") (auto simp: put_item_def list_update_beyond)

lemma put_item_key_value [simp]:
  "item_key (put_item a (item_previous_update g) items ! b) = item_key (items ! b)"
  "item_key (put_item a (item_next_update g) items ! b) = item_key (items ! b)"
  "item_key (put_item a (item_value_update w) items ! b) = item_key (items ! b)"
  "item_value (put_item a (item_previous_update g) items ! b) = item_value (items ! b)"
  "item_value (put_item a (item_next_update g) items ! b) = item_value (items ! b)"
  by (simp_all add: put_item_nth)

lemma dll_frame [simp]: "a \<notin> set as \<Longrightarrow> dll (put_item a f items) p as n \<longleftrightarrow> dll items p as n"
  by (induction as arbitrary: p) (auto simp: put_item_def nth_list_update)

lemma dll_put_value [simp]: "dll (put_item a (item_value_update g) items) p as n \<longleftrightarrow> dll items p as n"
proof -
  have "item_previous (put_item a (item_value_update g) items ! b) = item_previous (items ! b)"
    and "item_next (put_item a (item_value_update g) items ! b) = item_next (items ! b)" for b
    by (simp_all add: put_item_nth)
  then show ?thesis by (induction as arbitrary: p) auto
qed

lemma dll_put_previous:
  "dll items p (y # ys) n \<Longrightarrow> y \<notin> set ys \<Longrightarrow> y < length items \<Longrightarrow>
     dll (put_item y (item_previous_update (\<lambda>_. p')) items) p' (y # ys) n"
  by simp

lemma dll_put_next:
  "dll items p (xs @ [x]) n \<Longrightarrow> x \<notin> set xs \<Longrightarrow> x < length items \<Longrightarrow>
     dll (put_item x (item_next_update (\<lambda>_. n')) items) p (xs @ [x]) n'"
  by (simp add: dll_append)

text \<open>The list part of the state.\<close>

definition lm_links :: "('k, 'v, 'z) LinkedMap_scheme \<Rightarrow> addr list \<Rightarrow> bool" where
  "lm_links st as \<longleftrightarrow> dll (lm_items st) None as None \<and> distinct as \<and> (\<forall>a \<in> set as. a < length (lm_items st)) \<and>
     lm_head st = first_of as None \<and> lm_tail st = last_of as None"

text \<open>Nothing but links and the state counter differs.\<close>

definition same_entries :: "('k, 'v, 'z) LinkedMap_scheme \<Rightarrow> ('k, 'v, 'z) LinkedMap_scheme \<Rightarrow> bool" where
  "same_entries st st' \<longleftrightarrow> lm_map st' = lm_map st \<and> lm_size st' = lm_size st \<and>
     length (lm_items st') = length (lm_items st) \<and> LinkedMap.more st' = LinkedMap.more st \<and>
     (\<forall>a. item_key (lm_items st' ! a) = item_key (lm_items st ! a) \<and>
          item_value (lm_items st' ! a) = item_value (lm_items st ! a))"

lemmas link_defs = bump_state_def put_previous_def put_next_def item_at_def same_entries_def

lemma addItemLast_links:
  assumes "lm_links st as" and "a \<notin> set as" and "a < length (lm_items st)"
    and "item_previous (lm_items st ! a) = None" and "item_next (lm_items st ! a) = None"
  shows "\<exists>st'. addItemLast a st = Inr st' \<and> lm_links st' (as @ [a]) \<and> same_entries st st' \<and> lm_state st' = lm_state st + 1"
proof (cases as rule: rev_cases)
  case Nil
  then show ?thesis using assms by (simp add: addItemLast_def lm_links_def link_defs)
next
  case (snoc xs t)
  then have t: "t < length (lm_items st)" "t \<notin> set xs" "a \<noteq> t" "a \<notin> set xs" using assms by (auto simp: lm_links_def)
  have "dll (lm_items st) None (xs @ [t]) None" using assms(1) snoc by (simp add: lm_links_def)
  then have "dll (put_item t (item_next_update (\<lambda>_. Some a)) (put_item a (item_previous_update (\<lambda>_. Some t)) (lm_items st)))
      None ((xs @ [t]) @ [a]) None"
    using t assms(3-5) by (simp add: dll_append)
  then show ?thesis
    using assms snoc t by (auto simp: addItemLast_def lm_links_def link_defs last_of_ne)
qed

lemma addItemFirst_links:
  assumes "lm_links st as" and "a \<notin> set as" and "a < length (lm_items st)"
    and "item_previous (lm_items st ! a) = None" and "item_next (lm_items st ! a) = None"
  shows "\<exists>st'. addItemFirst a st = Inr st' \<and> lm_links st' (a # as) \<and> same_entries st st' \<and> lm_state st' = lm_state st + 1"
proof (cases as)
  case Nil
  then show ?thesis using assms by (simp add: addItemFirst_def lm_links_def link_defs)
next
  case (Cons h xs)
  then have h: "h < length (lm_items st)" "h \<notin> set xs" "a \<noteq> h" "a \<notin> set xs" using assms by (auto simp: lm_links_def)
  then show ?thesis
    using assms Cons h by (auto simp: addItemFirst_def lm_links_def link_defs)
qed

lemma lm_links_at:
  assumes "lm_links st (xs @ a # ys)"
  shows "item_previous (lm_items st ! a) = last_of xs None" and "item_next (lm_items st ! a) = first_of ys None"
    and "a < length (lm_items st)" and "a \<notin> set xs" and "a \<notin> set ys"
  using assms by (auto simp: lm_links_def dll_append)

text \<open>An item of a list is alone, the first, the last or in the middle.\<close>

lemma link_cases:
  fixes xs ys :: "'a list"
  obtains (alone) "xs = []" and "ys = []"
    | (front) n zs where "xs = []" and "ys = n # zs"
    | (final) ps p where "xs = ps @ [p]" and "ys = []"
    | (middle) ps p n zs where "xs = ps @ [p]" and "ys = n # zs"
  by (cases xs rule: rev_cases; cases ys) auto

lemma lm_links_ends:
  assumes "lm_links st (xs @ a # ys)"
  shows "Some a = lm_head st \<longleftrightarrow> xs = []" and "Some a = lm_tail st \<longleftrightarrow> ys = []"
proof -
  show "Some a = lm_head st \<longleftrightarrow> xs = []" using assms by (cases xs) (auto simp: lm_links_def)
  show "Some a = lm_tail st \<longleftrightarrow> ys = []"
    using assms by (cases ys rule: rev_cases) (auto simp: lm_links_def)
qed

lemma removeItem_links:
  assumes "lm_links st (xs @ a # ys)"
  shows "\<exists>st'. removeItem a st = Inr st' \<and> lm_links st' (xs @ ys) \<and> same_entries st st' \<and> lm_state st' = lm_state st + 1"
proof (cases rule: link_cases [of xs ys])
  case alone
  then show ?thesis using assms lm_links_ends [OF assms] by (simp add: removeItem_def lm_links_def link_defs)
next
  case (front n zs)
  then show ?thesis
    using assms lm_links_at [OF assms] lm_links_ends [OF assms] by (auto simp: removeItem_def lm_links_def link_defs)
next
  case (final ps p)
  then show ?thesis
    using assms lm_links_at [OF assms] lm_links_ends [OF assms]
    by (auto simp: removeItem_def lm_links_def link_defs dll_append)
next
  case (middle ps p n zs)
  then show ?thesis
    using assms lm_links_at [OF assms] lm_links_ends [OF assms]
    by (auto simp: removeItem_def lm_links_def link_defs dll_append)
qed

lemma touch_new_links:
  assumes "lm_links st (xs @ a # ys)"
  shows "\<exists>st'. touch_new a st = Inr st' \<and> lm_links st' (xs @ ys @ [a]) \<and> same_entries st st'"
proof (cases rule: link_cases [of xs ys])
  case alone
  then show ?thesis using assms lm_links_ends [OF assms] by (simp add: touch_new_def link_defs)
next
  case (front n zs)
  then show ?thesis
    using assms lm_links_at [OF assms] lm_links_ends [OF assms]
    by (cases zs rule: rev_cases) (auto simp: touch_new_def lm_links_def link_defs dll_append Let_def)
next
  case (final ps p)
  then show ?thesis using assms lm_links_ends [OF assms] by (simp add: touch_new_def link_defs)
next
  case (middle ps p n zs)
  then show ?thesis
    using assms lm_links_at [OF assms] lm_links_ends [OF assms]
    by (cases zs rule: rev_cases) (auto simp: touch_new_def lm_links_def link_defs dll_append Let_def)
qed

lemma touch_old_links:
  assumes "lm_links st (xs @ a # ys)"
  shows "\<exists>st'. touch_old a st = Inr st' \<and> lm_links st' (a # xs @ ys) \<and> same_entries st st'"
proof (cases rule: link_cases [of xs ys])
  case alone
  then show ?thesis using assms lm_links_ends [OF assms] by (simp add: touch_old_def link_defs)
next
  case (front n zs)
  then show ?thesis using assms lm_links_ends [OF assms] by (simp add: touch_old_def link_defs)
next
  case (final ps p)
  then show ?thesis
    using assms lm_links_at [OF assms] lm_links_ends [OF assms]
    by (cases ps) (auto simp: touch_old_def lm_links_def link_defs dll_append Let_def)
next
  case (middle ps p n zs)
  then show ?thesis
    using assms lm_links_at [OF assms] lm_links_ends [OF assms]
    by (cases ps) (auto simp: touch_old_def lm_links_def link_defs dll_append Let_def)
qed

section \<open>The entries in order\<close>

definition lm_rep :: "('k, 'v, 'z) LinkedMap_scheme \<Rightarrow> addr list \<Rightarrow> bool" where
  "lm_rep st as \<longleftrightarrow> lm_links st as \<and> lm_size st = int (length as) \<and>
     (\<forall>k a. lm_map st k = Some a \<longleftrightarrow> a \<in> set as \<and> item_key (lm_items st ! a) = k)"

definition lm_entries :: "('k, 'v, 'z) LinkedMap_scheme \<Rightarrow> addr list \<Rightarrow> ('k \<times> 'v) list" where
  "lm_entries st as = map (\<lambda>a. (item_key (lm_items st ! a), item_value (lm_items st ! a))) as"

text \<open>The abstraction: the map holds these entries, in this order.\<close>

definition lm_holds :: "('k, 'v, 'z) LinkedMap_scheme \<Rightarrow> ('k \<times> 'v) list \<Rightarrow> bool" where
  "lm_holds st es \<longleftrightarrow> (\<exists>as. lm_rep st as \<and> es = lm_entries st as)"

text \<open>What the operations do to the list of entries.\<close>

definition without :: "'k \<Rightarrow> ('k \<times> 'v) list \<Rightarrow> ('k \<times> 'v) list" where
  "without k es = filter (\<lambda>e. fst e \<noteq> k) es"

definition moved :: "Touch \<Rightarrow> 'k \<Rightarrow> 'v \<Rightarrow> ('k \<times> 'v) list \<Rightarrow> ('k \<times> 'v) list" where
  "moved t k v es =
     (case t of
        Touch_None \<Rightarrow> map (\<lambda>e. if fst e = k then (k, v) else e) es
      | Touch_AsOld \<Rightarrow> (k, v) # without k es
      | Touch_AsNew \<Rightarrow> without k es @ [(k, v)])"

definition get_entries :: "'k \<Rightarrow> Touch \<Rightarrow> ('k \<times> 'v) list \<Rightarrow> ('k \<times> 'v) list" where
  "get_entries k t es = (case map_of es k of None \<Rightarrow> es | Some v \<Rightarrow> moved t k v es)"

definition set_entries :: "'k \<Rightarrow> 'v \<Rightarrow> Touch \<Rightarrow> ('k \<times> 'v) list \<Rightarrow> ('k \<times> 'v) list" where
  "set_entries k v t es =
     (case map_of es k of
        None \<Rightarrow> (if t = Touch_AsOld then (k, v) # es else es @ [(k, v)])
      | Some _ \<Rightarrow> moved t k v es)"

lemma lm_entries_Nil [simp]: "lm_entries st [] = []"
  by (simp add: lm_entries_def)

lemma lm_entries_append [simp]: "lm_entries st (xs @ ys) = lm_entries st xs @ lm_entries st ys"
  by (simp add: lm_entries_def)

lemma lm_entries_Cons [simp]:
  "lm_entries st (a # as) = (item_key (lm_items st ! a), item_value (lm_items st ! a)) # lm_entries st as"
  by (simp add: lm_entries_def)

lemma length_lm_entries [simp]: "length (lm_entries st as) = length as"
  by (simp add: lm_entries_def)

lemma same_entries_entries: "same_entries st st' \<Longrightarrow> lm_entries st' as = lm_entries st as"
  by (simp add: lm_entries_def same_entries_def)

lemma same_entries_rep:
  assumes "lm_rep st as" and "same_entries st st'" and "lm_links st' as'" and "set as' = set as" and "length as' = length as"
  shows "lm_rep st' as'"
  using assms by (simp add: lm_rep_def same_entries_def)

lemma rep_lookup_None:
  assumes "lm_rep st as" and "lm_map st k = None"
  shows "map_of (lm_entries st as) k = None"
proof -
  have "item_key (lm_items st ! a) \<noteq> k" if "a \<in> set as" for a
    using that assms unfolding lm_rep_def by (metis option.distinct(1))
  then have "k \<notin> fst ` set (lm_entries st as)" by (fastforce simp: lm_entries_def)
  then show ?thesis by (simp add: map_of_eq_None_iff)
qed

text \<open>The items of a representation have different keys.\<close>

lemma rep_key_unique:
  assumes "lm_rep st as" and "a \<in> set as" and "b \<in> set as" and "item_key (lm_items st ! a) = item_key (lm_items st ! b)"
  shows "a = b"
proof -
  have "lm_map st (item_key (lm_items st ! b)) = Some a" "lm_map st (item_key (lm_items st ! b)) = Some b"
    using assms by (simp_all add: lm_rep_def)
  then show ?thesis by simp
qed

lemma rep_lookup_Some:
  assumes "lm_rep st as" and "lm_map st k = Some a"
  obtains xs ys where "as = xs @ a # ys" and "item_key (lm_items st ! a) = k"
    and "\<forall>e \<in> set (lm_entries st xs). fst e \<noteq> k" and "\<forall>e \<in> set (lm_entries st ys). fst e \<noteq> k"
    and "map_of (lm_entries st as) k = Some (item_value (lm_items st ! a))"
proof -
  have a: "a \<in> set as" "item_key (lm_items st ! a) = k" using assms by (auto simp: lm_rep_def)
  then obtain xs ys where as: "as = xs @ a # ys" by (meson split_list)
  have "distinct as" using assms(1) by (simp add: lm_rep_def lm_links_def)
  then have "b \<noteq> a" if "b \<in> set xs \<union> set ys" for b using that as by auto
  then have keys: "item_key (lm_items st ! b) \<noteq> k" if "b \<in> set xs \<union> set ys" for b
    using that rep_key_unique [OF assms(1), of b a] a as by auto
  then have "\<forall>e \<in> set (lm_entries st xs). fst e \<noteq> k" "\<forall>e \<in> set (lm_entries st ys). fst e \<noteq> k"
    by (auto simp: lm_entries_def)
  moreover have "map_of (lm_entries st xs) k = None"
    using calculation(1) by (auto simp: map_of_eq_None_iff)
  ultimately show ?thesis
    by (intro that [OF as a(2)]) (auto simp: as a(2) map_add_def)
qed

lemma without_id: "\<forall>e \<in> set es. fst e \<noteq> k \<Longrightarrow> without k es = es"
  by (simp add: without_def)

lemma moved_split:
  assumes "\<forall>e \<in> set es. fst e \<noteq> k" and "\<forall>e \<in> set fs. fst e \<noteq> k"
  shows "moved t k v (es @ (k, w) # fs) =
    (case t of Touch_None \<Rightarrow> es @ (k, v) # fs | Touch_AsOld \<Rightarrow> (k, v) # es @ fs | Touch_AsNew \<Rightarrow> es @ fs @ [(k, v)])"
proof -
  have "map (\<lambda>e. if fst e = k then (k, v) else e) es = es" "map (\<lambda>e. if fst e = k then (k, v) else e) fs = fs"
    by (rule map_idI; use assms in auto)+
  then show ?thesis using assms by (auto simp: moved_def without_id split: Touch.splits) (auto simp: without_def)
qed

lemma touch_rep:
  assumes "lm_rep st (xs @ a # ys)"
  shows "\<exists>st' as. touch_item a t st = Inr st' \<and> lm_rep st' as \<and> same_entries st st' \<and>
    as = (case t of Touch_None \<Rightarrow> xs @ a # ys | Touch_AsOld \<Rightarrow> a # xs @ ys | Touch_AsNew \<Rightarrow> xs @ ys @ [a])"
proof -
  have links: "lm_links st (xs @ a # ys)" using assms by (simp add: lm_rep_def)
  then have ends: "lm_head st \<noteq> None" "lm_tail st \<noteq> None"
    by (auto simp: lm_links_def simp del: last_of_append first_of_append)
  show ?thesis
  proof (cases t)
    case Touch_None
    then show ?thesis using assms ends by (auto simp: touch_item_def same_entries_def)
  next
    case Touch_AsOld
    obtain st' where "touch_old a st = Inr st'" "lm_links st' (a # xs @ ys)" "same_entries st st'"
      using touch_old_links [OF links] by blast
    then show ?thesis
      using Touch_AsOld ends same_entries_rep [OF assms, of st' "a # xs @ ys"] by (auto simp: touch_item_def)
  next
    case Touch_AsNew
    obtain st' where "touch_new a st = Inr st'" "lm_links st' (xs @ ys @ [a])" "same_entries st st'"
      using touch_new_links [OF links] by blast
    then show ?thesis
      using Touch_AsNew ends same_entries_rep [OF assms, of st' "xs @ ys @ [a]"] by (auto simp: touch_item_def)
  qed
qed

section \<open>Refinement of the operations\<close>

lemma lm_holds_new [simp]: "lm_holds LinkedMap_new []"
  by (auto simp: lm_holds_def lm_rep_def lm_links_def LinkedMap_new_def intro!: exI [of _ "[]"])

lemma lm_holds_clear: "lm_holds (LinkedMap_clear st) []"
  by (auto simp: lm_holds_def lm_rep_def lm_links_def LinkedMap_clear_def bump_state_def intro!: exI [of _ "[]"])

lemma lm_holds_size: "lm_holds st es \<Longrightarrow> lm_size st = int (length es)"
  by (auto simp: lm_holds_def lm_rep_def)

lemma lm_holds_distinct: "lm_holds st es \<Longrightarrow> distinct (map fst es)"
proof -
  assume "lm_holds st es"
  then obtain as where rep: "lm_rep st as" and es: "es = lm_entries st as" by (auto simp: lm_holds_def)
  have "inj_on (\<lambda>a. item_key (lm_items st ! a)) (set as)"
    by (rule inj_onI) (rule rep_key_unique [OF rep])
  moreover have "distinct as" using rep by (simp add: lm_rep_def lm_links_def)
  moreover have "map fst es = map (\<lambda>a. item_key (lm_items st ! a)) as" by (simp add: es lm_entries_def)
  ultimately show ?thesis by (simp add: distinct_map)
qed

lemma lm_holds_map: "lm_holds st es \<Longrightarrow> lm_map st k = None \<longleftrightarrow> map_of es k = None"
  unfolding lm_holds_def by (metis option.exhaust option.distinct(1) rep_lookup_None rep_lookup_Some)

lemma touch_if: "touch_item a t st = Inr st' \<Longrightarrow> (if t \<noteq> Touch_None then touch_item a t st else Inr st) = Inr st'"
  by (auto simp: touch_item_def split: if_splits)

lemma get_refines:
  assumes "lm_holds st es"
  shows "\<exists>st'. LinkedMap_get k t st = Inr (map_of es k, st') \<and> lm_holds st' (get_entries k t es) \<and>
    LinkedMap.more st' = LinkedMap.more st"
proof -
  obtain as where rep: "lm_rep st as" and es: "es = lm_entries st as" using assms by (auto simp: lm_holds_def)
  show ?thesis
  proof (cases "lm_map st k")
    case None
    then show ?thesis using assms rep_lookup_None [OF rep None] by (simp add: LinkedMap_get_def get_entries_def es)
  next
    case (Some a)
    obtain xs ys where as: "as = xs @ a # ys" and key: "item_key (lm_items st ! a) = k"
      and xs: "\<forall>e \<in> set (lm_entries st xs). fst e \<noteq> k" and ys: "\<forall>e \<in> set (lm_entries st ys). fst e \<noteq> k"
      and lookup: "map_of (lm_entries st as) k = Some (item_value (lm_items st ! a))"
      using rep_lookup_Some [OF rep Some] by blast
    obtain st' as' where touch: "touch_item a t st = Inr st'" "lm_rep st' as'" "same_entries st st'"
      "as' = (case t of Touch_None \<Rightarrow> xs @ a # ys | Touch_AsOld \<Rightarrow> a # xs @ ys | Touch_AsNew \<Rightarrow> xs @ ys @ [a])"
      using touch_rep [of st xs a ys t] rep as by blast
    have "lm_entries st' as' = get_entries k t es"
      using touch(3,4) same_entries_entries [OF touch(3)] xs ys lookup
      by (simp add: get_entries_def es as key moved_split split: Touch.splits)
    moreover have "LinkedMap_get k t st = Inr (map_of es k, st')"
      using Some touch_if [OF touch(1)] touch(3) lookup
      by (simp add: LinkedMap_get_def item_at_def same_entries_def es)
    ultimately show ?thesis
      using touch(2,3) by (auto simp: lm_holds_def same_entries_def)
  qed
qed

lemma put_value_rep:
  assumes "lm_rep st (xs @ a # ys)"
  shows "lm_rep (put_value a v st) (xs @ a # ys)" and "LinkedMap.more (put_value a v st) = LinkedMap.more st"
    and "lm_entries (put_value a v st) xs = lm_entries st xs" and "lm_entries (put_value a v st) ys = lm_entries st ys"
    and "item_value (lm_items (put_value a v st) ! a) = v" and "item_key (lm_items (put_value a v st) ! a) = item_key (lm_items st ! a)"
proof -
  have "a \<notin> set xs" "a \<notin> set ys" "a < length (lm_items st)" using assms by (auto simp: lm_rep_def lm_links_def)
  then show "lm_entries (put_value a v st) xs = lm_entries st xs" "lm_entries (put_value a v st) ys = lm_entries st ys"
    "item_value (lm_items (put_value a v st) ! a) = v" "item_key (lm_items (put_value a v st) ! a) = item_key (lm_items st ! a)"
    "LinkedMap.more (put_value a v st) = LinkedMap.more st"
    by (auto simp: put_value_def lm_entries_def put_item_nth)
  show "lm_rep (put_value a v st) (xs @ a # ys)"
    using assms by (simp add: lm_rep_def lm_links_def put_value_def)
qed

lemma set_old_refines:
  assumes "lm_rep st as" and "es = lm_entries st as" and "lm_map st k = Some a"
  shows "\<exists>st'. LinkedMap_set k v t st = Inr st' \<and> lm_holds st' (set_entries k v t es) \<and>
    LinkedMap.more st' = LinkedMap.more st"
proof -
  obtain xs ys where as: "as = xs @ a # ys" and key: "item_key (lm_items st ! a) = k"
    and xs: "\<forall>e \<in> set (lm_entries st xs). fst e \<noteq> k" and ys: "\<forall>e \<in> set (lm_entries st ys). fst e \<noteq> k"
    and lookup: "map_of (lm_entries st as) k = Some (item_value (lm_items st ! a))"
    using rep_lookup_Some [OF assms(1,3)] by blast
  note put = put_value_rep [OF assms(1) [unfolded as], of v]
  obtain st' as' where touch: "touch_item a t (put_value a v st) = Inr st'" "lm_rep st' as'" "same_entries (put_value a v st) st'"
    "as' = (case t of Touch_None \<Rightarrow> xs @ a # ys | Touch_AsOld \<Rightarrow> a # xs @ ys | Touch_AsNew \<Rightarrow> xs @ ys @ [a])"
    using touch_rep [OF put(1), of t] by blast
  have "lm_entries st' as' = set_entries k v t es"
    using touch(4) same_entries_entries [OF touch(3)] xs ys lookup put(3-6)
    by (simp add: set_entries_def assms(2) as key moved_split split: Touch.splits)
  moreover have "LinkedMap_set k v t st = Inr st'"
    using assms(3) touch_if [OF touch(1)] by (simp add: LinkedMap_set_def)
  ultimately show ?thesis
    using touch(2,3) put(2) by (auto simp: lm_holds_def same_entries_def)
qed

text \<open>A new key: the item is allocated behind the others and linked in.\<close>

definition alloc_item :: "'k \<Rightarrow> 'v \<Rightarrow> ('k, 'v, 'z) LinkedMap_scheme \<Rightarrow> ('k, 'v, 'z) LinkedMap_scheme" where
  "alloc_item k v st =
     st\<lparr>lm_items := lm_items st @ [\<lparr>item_previous = None, item_next = None, item_key = k, item_value = v\<rparr>]\<rparr>"

lemma dll_grow: "\<forall>a \<in> set as. a < length items \<Longrightarrow> dll (items @ rest) p as n \<longleftrightarrow> dll items p as n"
  by (induction as arbitrary: p) (auto simp: nth_append)

lemma lm_entries_grow:
  "\<forall>a \<in> set as. a < length (lm_items st) \<Longrightarrow> lm_entries (alloc_item k v st) as = lm_entries st as"
  by (simp add: lm_entries_def alloc_item_def nth_append)

lemma alloc_links:
  assumes "lm_links st as"
  shows "lm_links (alloc_item k v st) as"
  using assms dll_grow [of as "lm_items st"] by (auto simp: lm_links_def alloc_item_def less_Suc_eq)

lemma link_new_rep:
  assumes rep: "lm_rep st as" and new: "lm_map st k = None"
    and same: "same_entries (alloc_item k v st) st'" and links: "lm_links st' as'"
    and as': "set as' = insert (length (lm_items st)) (set as)" "length as' = Suc (length as)"
  shows "lm_rep (st'\<lparr>lm_map := (lm_map st')(k := Some (length (lm_items st))), lm_size := lm_size st' + 1\<rparr>) as'"
proof -
  let ?n = "length (lm_items st)" and ?st = "alloc_item k v st"
  have bound: "a < ?n" if "a \<in> set as" for a using rep that by (auto simp: lm_rep_def lm_links_def)
  have old: "item_key (lm_items st' ! a) = item_key (lm_items st ! a)" if "a \<in> set as" for a
    using same bound [OF that] by (simp add: same_entries_def alloc_item_def nth_append)
  have fresh: "item_key (lm_items st' ! ?n) = k" using same by (simp add: same_entries_def alloc_item_def nth_append)
  have map': "lm_map st' = lm_map st" "lm_size st' = lm_size st" using same by (simp_all add: same_entries_def alloc_item_def)
  have "((lm_map st)(k := Some ?n)) q = Some a \<longleftrightarrow> a \<in> set as' \<and> item_key (lm_items st' ! a) = q" for q a
  proof (cases "a = ?n")
    case True
    have "lm_map st q \<noteq> Some ?n" using rep bound by (auto simp: lm_rep_def)
    with True show ?thesis using as'(1) fresh by auto
  next
    case False
    have "lm_map st q = Some a \<longleftrightarrow> a \<in> set as \<and> item_key (lm_items st ! a) = q" using rep by (simp add: lm_rep_def)
    moreover have "lm_map st q = Some a \<Longrightarrow> q \<noteq> k" using new by auto
    ultimately show ?thesis using False as'(1) old by auto
  qed
  moreover have "lm_links (st'\<lparr>lm_map := (lm_map st')(k := Some ?n), lm_size := lm_size st' + 1\<rparr>) as'"
    using links by (simp add: lm_links_def)
  moreover have "lm_size st = int (length as)" using rep by (simp add: lm_rep_def)
  ultimately show ?thesis using as'(2) map' by (simp add: lm_rep_def)
qed

lemma set_new_refines:
  assumes "lm_rep st as" and "es = lm_entries st as" and "lm_map st k = None"
  shows "\<exists>st'. LinkedMap_set k v t st = Inr st' \<and> lm_holds st' (set_entries k v t es) \<and>
    LinkedMap.more st' = LinkedMap.more st"
proof -
  let ?n = "length (lm_items st)" and ?st = "alloc_item k v st"
  have bound: "\<forall>a \<in> set as. a < ?n" using assms(1) by (auto simp: lm_rep_def lm_links_def)
  have links: "lm_links ?st as" using assms(1) by (intro alloc_links) (simp add: lm_rep_def)
  have fresh: "?n \<notin> set as" "?n < length (lm_items ?st)"
    "item_previous (lm_items ?st ! ?n) = None" "item_next (lm_items ?st ! ?n) = None"
    "item_key (lm_items ?st ! ?n) = k" "item_value (lm_items ?st ! ?n) = v"
    using bound by (auto simp: alloc_item_def)
  define as' where "as' = (if t = Touch_AsOld then ?n # as else as @ [?n])"
  define link where "link = (if t = Touch_AsOld then addItemFirst ?n ?st else addItemLast ?n ?st)"
  have "\<exists>st'. link = Inr st' \<and> lm_links st' as' \<and> same_entries ?st st'"
    using addItemLast_links [OF links fresh(1-4)] addItemFirst_links [OF links fresh(1-4)]
    by (auto simp: link_def as'_def)
  then obtain st' where st': "link = Inr st'" "lm_links st' as'" "same_entries ?st st'" by blast
  let ?r = "st'\<lparr>lm_map := (lm_map st')(k := Some ?n), lm_size := lm_size st' + 1\<rparr>"
  have "lm_rep ?r as'"
    by (rule link_new_rep [OF assms(1,3) st'(3,2)]) (simp_all add: as'_def)
  moreover have "lm_entries ?r as' = set_entries k v t es"
  proof -
    have "lm_entries ?r as' = lm_entries st' as'" by (simp add: lm_entries_def)
    also have "\<dots> = lm_entries ?st as'" by (rule same_entries_entries) (rule st'(3))
    also have "\<dots> = set_entries k v t es"
      using rep_lookup_None [OF assms(1,3)] lm_entries_grow [OF bound, of k v] fresh(5,6)
      by (simp add: as'_def set_entries_def assms(2))
    finally show ?thesis .
  qed
  moreover have "LinkedMap_set k v t st = Inr ?r"
    using assms(3) st'(1) by (cases t) (simp_all add: LinkedMap_set_def link_def Let_def flip: alloc_item_def)
  moreover have "LinkedMap.more ?r = LinkedMap.more st" using st'(3) by (simp add: same_entries_def alloc_item_def)
  ultimately show ?thesis unfolding lm_holds_def by metis
qed

lemma set_refines:
  assumes "lm_holds st es"
  shows "\<exists>st'. LinkedMap_set k v t st = Inr st' \<and> lm_holds st' (set_entries k v t es) \<and>
    LinkedMap.more st' = LinkedMap.more st"
proof -
  obtain as where rep: "lm_rep st as" and es: "es = lm_entries st as" using assms by (auto simp: lm_holds_def)
  show ?thesis
    using set_new_refines [OF rep es] set_old_refines [OF rep es] by (cases "lm_map st k") simp_all
qed

text \<open>Unlinking an item whose key has been dropped from the map.\<close>

lemma unlink_rep:
  assumes "lm_rep st (xs @ a # ys)" and "k = item_key (lm_items st ! a)"
  shows "\<exists>st'. removeItem a (st\<lparr>lm_map := (lm_map st)(k := None)\<rparr>) = Inr st' \<and>
    lm_rep (st'\<lparr>lm_size := lm_size st' - 1\<rparr>) (xs @ ys) \<and> lm_entries st' (xs @ ys) = lm_entries st (xs @ ys) \<and>
    item_value (item_at st' a) = item_value (item_at st a) \<and> LinkedMap.more st' = LinkedMap.more st"
proof -
  let ?st = "st\<lparr>lm_map := (lm_map st)(k := None)\<rparr>"
  have "lm_links ?st (xs @ a # ys)" using assms by (simp add: lm_rep_def lm_links_def)
  then obtain st' where st': "removeItem a ?st = Inr st'" "lm_links st' (xs @ ys)" "same_entries ?st st'"
    using removeItem_links by blast
  have "a \<notin> set (xs @ ys)" using assms(1) by (simp add: lm_rep_def lm_links_def)
  then have "((lm_map st)(k := None)) q = Some b \<longleftrightarrow> b \<in> set (xs @ ys) \<and> item_key (lm_items st ! b) = q" for q b
    using assms rep_key_unique [OF assms(1), of b a] by (auto simp: lm_rep_def)
  then have "lm_rep (st'\<lparr>lm_size := lm_size st' - 1\<rparr>) (xs @ ys)"
    using st'(2,3) assms(1) by (simp add: lm_rep_def lm_links_def same_entries_def)
  moreover have "lm_entries st' (xs @ ys) = lm_entries st (xs @ ys)"
    using same_entries_entries [OF st'(3), of "xs @ ys"] by (simp add: lm_entries_def)
  ultimately show ?thesis using st' by (auto simp: same_entries_def item_at_def)
qed

lemma remove_refines:
  assumes "lm_holds st es"
  shows "\<exists>st'. LinkedMap_remove k st = Inr (map_of es k, st') \<and> lm_holds st' (without k es) \<and>
    LinkedMap.more st' = LinkedMap.more st"
proof -
  obtain as where rep: "lm_rep st as" and es: "es = lm_entries st as" using assms by (auto simp: lm_holds_def)
  show ?thesis
  proof (cases "lm_map st k")
    case None
    have "without k es = es"
      using rep_lookup_None [OF rep None] by (intro without_id) (auto simp: es map_of_eq_None_iff)
    then show ?thesis using None assms rep_lookup_None [OF rep None] by (simp add: LinkedMap_remove_def es)
  next
    case (Some a)
    obtain xs ys where as: "as = xs @ a # ys" and key: "item_key (lm_items st ! a) = k"
      and xs: "\<forall>e \<in> set (lm_entries st xs). fst e \<noteq> k" and ys: "\<forall>e \<in> set (lm_entries st ys). fst e \<noteq> k"
      and lookup: "map_of (lm_entries st as) k = Some (item_value (lm_items st ! a))"
      using rep_lookup_Some [OF rep Some] by blast
    obtain st' where st': "removeItem a (st\<lparr>lm_map := (lm_map st)(k := None)\<rparr>) = Inr st'"
      "lm_rep (st'\<lparr>lm_size := lm_size st' - 1\<rparr>) (xs @ ys)" "lm_entries st' (xs @ ys) = lm_entries st (xs @ ys)"
      "item_value (item_at st' a) = item_value (item_at st a)" "LinkedMap.more st' = LinkedMap.more st"
      using unlink_rep [OF rep [unfolded as] key [symmetric]] by blast
    have "without k es = lm_entries st (xs @ ys)"
      using xs ys by (simp add: es as key without_def)
    moreover have "lm_entries (st'\<lparr>lm_size := lm_size st' - 1\<rparr>) (xs @ ys) = lm_entries st' (xs @ ys)"
      by (simp add: lm_entries_def)
    ultimately have "lm_holds (st'\<lparr>lm_size := lm_size st' - 1\<rparr>) (without k es)"
      using st'(2,3) by (auto simp: lm_holds_def)
    then show ?thesis using st' Some lookup by (simp add: LinkedMap_remove_def es item_at_def)
  qed
qed

lemma shift_refines:
  assumes "lm_holds st es"
  shows "\<exists>st'. LinkedMap_shift st = Inr (case es of [] \<Rightarrow> None | e # _ \<Rightarrow> Some (snd e), st') \<and> lm_holds st' (tl es) \<and>
    LinkedMap.more st' = LinkedMap.more st"
proof -
  obtain as where rep: "lm_rep st as" and es: "es = lm_entries st as" using assms by (auto simp: lm_holds_def)
  show ?thesis
  proof (cases as)
    case Nil
    then have "lm_head st = None" "lm_tail st = None" using rep by (simp_all add: lm_rep_def lm_links_def)
    then show ?thesis using assms Nil es by (simp add: LinkedMap_shift_def)
  next
    case (Cons a as')
    then have ends: "lm_head st = Some a" "lm_tail st \<noteq> None"
      using rep last_of_None [of as] by (simp_all add: lm_rep_def lm_links_def)
    obtain st' where st': "removeItem a (st\<lparr>lm_map := (lm_map st)(item_key (lm_items st ! a) := None)\<rparr>) = Inr st'"
      "lm_rep (st'\<lparr>lm_size := lm_size st' - 1\<rparr>) as'" "lm_entries st' as' = lm_entries st as'"
      "item_value (item_at st' a) = item_value (item_at st a)" "LinkedMap.more st' = LinkedMap.more st"
      using unlink_rep [of st "[]" a as', OF _ refl] rep Cons by auto
    have "lm_holds (st'\<lparr>lm_size := lm_size st' - 1\<rparr>) (tl es)"
      using st'(2,3) by (auto simp: lm_holds_def es Cons lm_entries_def)
    then show ?thesis using ends st' by (auto simp: LinkedMap_shift_def item_at_def es Cons)
  qed
qed

text \<open>The map from keys to the addresses of a chain.\<close>

definition key_map :: "('k \<Rightarrow> addr option) \<Rightarrow> ('k, 'v) Item list \<Rightarrow> addr list \<Rightarrow> bool" where
  "key_map m items as \<longleftrightarrow> (\<forall>k a. m k = Some a \<longleftrightarrow> a \<in> set as \<and> item_key (items ! a) = k)"

lemma key_map_remove:
  assumes "key_map m items as" and "set as = insert a (set bs)" and "a \<notin> set bs"
  shows "key_map (m(item_key (items ! a) := None)) items bs"
proof -
  have a: "m (item_key (items ! a)) = Some a" using assms(1,2) by (simp add: key_map_def)
  show ?thesis
    unfolding key_map_def
  proof (intro allI)
    fix k b
    have b: "m k = Some b \<longleftrightarrow> b \<in> set as \<and> item_key (items ! b) = k" using assms(1) by (simp add: key_map_def)
    show "(m(item_key (items ! a) := None)) k = Some b \<longleftrightarrow> b \<in> set bs \<and> item_key (items ! b) = k"
    proof (cases "k = item_key (items ! a)")
      case True
      have "b \<noteq> a" if "b \<in> set bs" using that assms(3) by blast
      with True show ?thesis using a b assms(2) by auto
    next
      case False
      with b assms(2) show ?thesis by auto
    qed
  qed
qed

lemma trim_loop_front:
  "dll items p as None \<Longrightarrow> distinct as \<Longrightarrow> key_map m items as \<Longrightarrow> n \<le> length as \<Longrightarrow>
     \<exists>m'. trim_loop item_next items (int n) m (first_of as None) (int (length as)) =
       (m', first_of (drop (length as - n) as) None, int n) \<and> key_map m' items (drop (length as - n) as)"
proof (induction as arbitrary: p m)
  case Nil
  then show ?case by (simp add: trim_loop.simps)
next
  case (Cons a as)
  show ?case
  proof (cases "n \<le> length as")
    case True
    have "key_map (m(item_key (items ! a) := None)) items as"
      using Cons.prems by (intro key_map_remove [of m items "a # as"]) auto
    then obtain m' where "trim_loop item_next items (int n) (m(item_key (items ! a) := None)) (first_of as None) (int (length as)) =
        (m', first_of (drop (length as - n) as) None, int n)" "key_map m' items (drop (length as - n) as)"
      using Cons.IH [of "Some a"] Cons.prems True by auto
    then show ?thesis using True Cons.prems by (simp add: trim_loop.simps [of _ _ _ m] Suc_diff_le)
  next
    case False
    then have "n = Suc (length as)" using Cons.prems by simp
    then show ?thesis using Cons.prems by (simp add: trim_loop.simps)
  qed
qed

lemma trim_loop_end:
  "dll items None as q \<Longrightarrow> distinct as \<Longrightarrow> key_map m items as \<Longrightarrow> n \<le> length as \<Longrightarrow>
     \<exists>m'. trim_loop item_previous items (int n) m (last_of as None) (int (length as)) =
       (m', last_of (take n as) None, int n) \<and> key_map m' items (take n as)"
proof (induction as arbitrary: q m rule: rev_induct)
  case Nil
  then show ?case by (simp add: trim_loop.simps)
next
  case (snoc a as)
  show ?case
  proof (cases "n \<le> length as")
    case True
    have "key_map (m(item_key (items ! a) := None)) items as"
      using snoc.prems by (intro key_map_remove [of m items "as @ [a]"]) auto
    then obtain m' where "trim_loop item_previous items (int n) (m(item_key (items ! a) := None)) (last_of as None) (int (length as)) =
        (m', last_of (take n as) None, int n)" "key_map m' items (take n as)"
      using snoc.IH [of "Some a"] snoc.prems True by (auto simp: dll_append)
    then show ?thesis using True snoc.prems by (simp add: trim_loop.simps [of _ _ _ m] dll_append)
  next
    case False
    then have "n = Suc (length as)" using snoc.prems by simp
    then show ?thesis using snoc.prems by (simp add: trim_loop.simps)
  qed
qed

text \<open>The two trims keep the newest, respectively the oldest, entries.\<close>

definition newest :: "nat \<Rightarrow> 'e list \<Rightarrow> 'e list" where
  "newest n es = drop (length es - n) es"

definition oldest :: "nat \<Rightarrow> 'e list \<Rightarrow> 'e list" where
  "oldest n es = take n es"

lemma lm_entries_drop: "lm_entries st (drop n as) = drop n (lm_entries st as)"
  by (simp add: lm_entries_def drop_map)

lemma lm_entries_take: "lm_entries st (take n as) = take n (lm_entries st as)"
  by (simp add: lm_entries_def take_map)

lemma trimOld_refines:
  assumes "lm_holds st es"
  shows "lm_holds (trimOld (int n) st) (newest n es)" and "LinkedMap.more (trimOld (int n) st) = LinkedMap.more st"
proof -
  obtain as where rep: "lm_rep st as" and es: "es = lm_entries st as" using assms by (auto simp: lm_holds_def)
  have size: "lm_size st = int (length as)" and links: "lm_links st as"
    and keys: "key_map (lm_map st) (lm_items st) as"
    using rep by (simp_all add: lm_rep_def key_map_def)
  have "lm_holds (trimOld (int n) st) (newest n es) \<and> LinkedMap.more (trimOld (int n) st) = LinkedMap.more st"
  proof (cases "length as \<le> n \<or> n = 0")
    case True
    then show ?thesis
      using assms size lm_holds_clear [of st]
      by (auto simp: trimOld_def newest_def es LinkedMap_clear_def bump_state_def)
  next
    case False
    define bs where "bs = drop (length as - n) as"
    obtain b cs where bs: "bs = b # cs" using False by (cases bs) (auto simp: bs_def)
    obtain m' where loop: "trim_loop item_next (lm_items st) (int n) (lm_map st) (lm_head st) (lm_size st) = (m', Some b, int n)"
      and m': "key_map m' (lm_items st) bs"
      using trim_loop_front [of "lm_items st" None as "lm_map st" n] links keys False
      by (auto simp: lm_links_def size bs_def [symmetric] bs)
    let ?st = "bump_state (put_previous b None (st\<lparr>lm_map := m', lm_head := Some b, lm_size := int n\<rparr>))"
    have split: "as = take (length as - n) as @ bs" by (simp add: bs_def)
    have chain: "dll (lm_items st) (last_of (take (length as - n) as) None) bs None"
      using links dll_append [of "lm_items st" None "take (length as - n) as" bs None] split by (simp add: lm_links_def)
    have "distinct bs" "\<forall>a \<in> set bs. a < length (lm_items st)"
      using links by (auto simp: lm_links_def bs_def dest: in_set_dropD)
    moreover have "lm_tail st = last_of bs None"
      using links arg_cong [OF split, of "\<lambda>xs. last_of xs None"] bs by (simp add: lm_links_def last_of_ne)
    ultimately have "lm_links ?st bs" using chain by (simp add: lm_links_def link_defs bs)
    moreover have "length bs = n" using False by (simp add: bs_def)
    ultimately have "lm_rep ?st bs" using m' by (simp add: lm_rep_def key_map_def link_defs)
    moreover have "lm_entries ?st bs = newest n es"
      by (simp add: es newest_def lm_entries_drop [symmetric] bs_def [symmetric]) (simp add: lm_entries_def link_defs)
    moreover have "trimOld (int n) st = ?st" using False loop by (simp add: trimOld_def size)
    ultimately show ?thesis by (auto simp: lm_holds_def link_defs)
  qed
  then show "lm_holds (trimOld (int n) st) (newest n es)" and "LinkedMap.more (trimOld (int n) st) = LinkedMap.more st"
    by simp_all
qed

lemma trimNew_refines:
  assumes "lm_holds st es"
  shows "lm_holds (trimNew (int n) st) (oldest n es)" and "LinkedMap.more (trimNew (int n) st) = LinkedMap.more st"
proof -
  obtain as where rep: "lm_rep st as" and es: "es = lm_entries st as" using assms by (auto simp: lm_holds_def)
  have size: "lm_size st = int (length as)" and links: "lm_links st as"
    and keys: "key_map (lm_map st) (lm_items st) as"
    using rep by (simp_all add: lm_rep_def key_map_def)
  have "lm_holds (trimNew (int n) st) (oldest n es) \<and> LinkedMap.more (trimNew (int n) st) = LinkedMap.more st"
  proof (cases "length as \<le> n \<or> n = 0")
    case True
    then show ?thesis
      using assms size lm_holds_clear [of st]
      by (auto simp: trimNew_def oldest_def es LinkedMap_clear_def bump_state_def)
  next
    case False
    define bs where "bs = take n as"
    have "bs \<noteq> []" using False by (auto simp: bs_def)
    then obtain cs b where bs: "bs = cs @ [b]" by (meson rev_exhaust)
    obtain m' where loop: "trim_loop item_previous (lm_items st) (int n) (lm_map st) (lm_tail st) (lm_size st) = (m', Some b, int n)"
      and m': "key_map m' (lm_items st) bs"
      using trim_loop_end [of "lm_items st" as None "lm_map st" n] links keys False
      by (auto simp: lm_links_def size bs_def [symmetric] bs)
    let ?st = "bump_state (put_next b None (st\<lparr>lm_map := m', lm_tail := Some b, lm_size := int n\<rparr>))"
    have split: "as = bs @ drop n as" by (simp add: bs_def)
    have chain: "dll (lm_items st) None bs (first_of (drop n as) None)"
      using links dll_append [of "lm_items st" None bs "drop n as" None] split by (simp add: lm_links_def)
    have "distinct bs" "\<forall>a \<in> set bs. a < length (lm_items st)"
      using links by (auto simp: lm_links_def bs_def dest: in_set_takeD)
    moreover have "lm_head st = first_of bs None"
      using links arg_cong [OF split, of "\<lambda>xs. first_of xs None"] bs by (simp add: lm_links_def)
    ultimately have "lm_links ?st bs"
      using chain dll_put_next [of "lm_items st" None cs b] by (simp add: lm_links_def link_defs bs dll_append)
    moreover have "length bs = n" using False by (simp add: bs_def)
    ultimately have "lm_rep ?st bs" using m' by (simp add: lm_rep_def key_map_def link_defs)
    moreover have "lm_entries ?st bs = oldest n es"
      by (simp add: es oldest_def lm_entries_take [symmetric] bs_def [symmetric]) (simp add: lm_entries_def link_defs)
    moreover have "trimNew (int n) st = ?st" using False loop by (simp add: trimNew_def size)
    ultimately show ?thesis by (auto simp: lm_holds_def link_defs)
  qed
  then show "lm_holds (trimNew (int n) st) (oldest n es)" and "LinkedMap.more (trimNew (int n) st) = LinkedMap.more st"
    by simp_all
qed

section \<open>Iteration\<close>

lemma forEach_loop_pure:
  assumes "dll (lm_items st) p as None" and "\<And>v k s. callbackfn v k st s = (st, g v k s)"
  shows "forEach_loop callbackfn (lm_state st) (first_of as None) st s =
    Some (Inr (st, fold (\<lambda>e. g (snd e) (fst e)) (lm_entries st as) s))"
  using assms(1)
proof (induction as arbitrary: p s)
  case Nil
  then show ?case by (simp add: forEach_loop.simps)
next
  case (Cons a as)
  then show ?case
    using Cons.IH [of "Some a"] by (simp add: forEach_loop.simps [of _ _ "Some a"] assms(2) item_at_def Let_def)
qed

lemma forEach_pure:
  assumes "lm_holds st es" and "\<And>v k s. callbackfn v k st s = (st, g v k s)"
  shows "LinkedMap_forEach callbackfn st s = Some (Inr (st, fold (\<lambda>e. g (snd e) (fst e)) es s))"
  using assms forEach_loop_pure [of st None _ callbackfn g]
  by (auto simp: LinkedMap_forEach_def lm_holds_def lm_rep_def lm_links_def)

lemma toJSON_entries: "lm_holds st es \<Longrightarrow> LinkedMap_toJSON st = Some (Inr es)"
proof -
  assume holds: "lm_holds st es"
  have "fold (\<lambda>e data. data @ [(fst e, snd e)]) es data = data @ es" for data
    by (induction es arbitrary: data) simp_all
  then show ?thesis
    using forEach_pure [OF holds, of "\<lambda>v k st data. (st, data @ [(k, v)])" "\<lambda>v k data. data @ [(k, v)]" "[]"]
    by (simp add: LinkedMap_toJSON_def)
qed

lemma set_all_refines:
  assumes "lm_holds st es"
  shows "\<exists>st'. rfold (\<lambda>(k, v). LinkedMap_set k v Touch_None) data st = Inr st' \<and>
    lm_holds st' (foldl (\<lambda>es (k, v). set_entries k v Touch_None es) es data) \<and> LinkedMap.more st' = LinkedMap.more st"
  using assms
proof (induction data arbitrary: st es)
  case (Cons e data)
  obtain k v where e: "e = (k, v)" by (cases e)
  then obtain st1 where "LinkedMap_set k v Touch_None st = Inr st1" "lm_holds st1 (set_entries k v Touch_None es)"
    "LinkedMap.more st1 = LinkedMap.more st"
    using set_refines [OF Cons.prems] by blast
  then show ?case using Cons.IH [of st1] e by auto
qed simp

lemma set_all_distinct:
  "distinct (map fst (es @ data)) \<Longrightarrow> foldl (\<lambda>es (k, v). set_entries k v Touch_None es) es data = es @ data"
proof (induction data arbitrary: es)
  case (Cons e data)
  then have "map_of es (fst e) = None" by (simp add: map_of_eq_None_iff)
  then show ?case using Cons.IH [of "es @ [e]"] Cons.prems by (simp add: set_entries_def case_prod_unfold)
qed simp

text \<open>Several calls of \<open>next\<close> in a row.\<close>

fun iterator_take ::
    "(('k, 'v) Item \<Rightarrow> 'r) \<Rightarrow> ('k, 'v, 'z) LinkedMap_scheme \<Rightarrow> nat \<Rightarrow> LinkedMapIterator \<Rightarrow> ('r option list \<times> LinkedMapIterator) result" where
  "iterator_take pick st 0 it = Inr ([], it)"
| "iterator_take pick st (Suc n) it =
     rbind (iterator_next pick st it) (\<lambda>(r, it). rbind (iterator_take pick st n it) (\<lambda>(rs, it). Inr (r # rs, it)))"

lemma iterator_take_chain:
  assumes "dll (lm_items st) p as None" and "it_state it = lm_state st" and "it_current it = first_of as None"
  shows "\<exists>it'. iterator_take pick st n it =
    Inr (map (\<lambda>a. Some (pick (lm_items st ! a))) (take n as) @ replicate (n - length as) None, it') \<and> it_state it' = lm_state st"
  using assms
proof (induction n arbitrary: p as it)
  case (Suc n)
  show ?case
  proof (cases as)
    case Nil
    then have "iterator_next pick st it = Inr (None, it)" using Suc.prems by (simp add: iterator_next_def)
    then show ?thesis using Suc.IH [of None "[]" it] Suc.prems Nil by auto
  next
    case (Cons a bs)
    let ?it = "it\<lparr>it_current := first_of bs None\<rparr>"
    have "iterator_next pick st it = Inr (Some (pick (lm_items st ! a)), ?it)"
      using Suc.prems Cons by (simp add: iterator_next_def item_at_def)
    then show ?thesis using Suc.IH [of "Some a" bs ?it] Suc.prems Cons by auto
  qed
qed simp

section \<open>Bounded caches\<close>

text \<open>
  The contract between \<open>Cache\<close> and the eviction policy of its subclasses: \<open>trim(n)\<close> keeps \<open>kept n\<close> of the
  entries, at most \<open>n\<close> of them, and leaves limit and ratio alone.
\<close>

locale eviction =
  fixes trim :: "int \<Rightarrow> ('k, 'v) Cache \<Rightarrow> ('k, 'v) Cache"
    and kept :: "nat \<Rightarrow> ('k \<times> 'v) list \<Rightarrow> ('k \<times> 'v) list"
  assumes trim_holds: "lm_holds st es \<Longrightarrow> lm_holds (trim (int n) st) (kept n es)"
    and trim_settings: "lm_holds st es \<Longrightarrow> LinkedMap.more (trim (int n) st) = LinkedMap.more st"
    and length_kept: "length (kept n es) = min n (length es)"

definition cache_room :: "('k, 'v) Cache \<Rightarrow> nat" where
  "cache_room st = nat (js_round (double_of (of_int (cache_limit st) * cache_ratio st)))"

definition cache_ok :: "('k, 'v) Cache \<Rightarrow> bool" where
  "cache_ok st \<longleftrightarrow> 0 \<le> cache_limit st \<and> cache_limit st < 9007199254740992 \<and> 0 \<le> cache_ratio st \<and> cache_ratio st \<le> 1"

lemma cache_settings:
  "LinkedMap.more st' = LinkedMap.more (st :: ('k, 'v) Cache) \<Longrightarrow>
     cache_limit st' = cache_limit st \<and> cache_ratio st' = cache_ratio st"
  by (cases st; cases st') simp

lemma js_round_0 [simp]: "js_round 0 = 0"
  by (simp add: js_round_def floor_eq_iff)

lemma js_round_room:
  assumes "cache_ok st"
  shows "0 \<le> js_round (double_of (of_int (cache_limit st) * cache_ratio st))"
    and "js_round (double_of (of_int (cache_limit st) * cache_ratio st)) \<le> cache_limit st"
proof -
  have "0 \<le> of_int (cache_limit st) * cache_ratio st" using assms by (simp add: cache_ok_def)
  moreover have "of_int (cache_limit st) * cache_ratio st \<le> of_int (cache_limit st) * 1"
    using assms by (intro mult_left_mono) (simp_all add: cache_ok_def)
  ultimately have "0 \<le> double_of (of_int (cache_limit st) * cache_ratio st)"
    and "double_of (of_int (cache_limit st) * cache_ratio st) \<le> of_int (cache_limit st)"
    using double_of_bounds [of "of_int (cache_limit st) * cache_ratio st" "cache_limit st"] assms by (simp_all add: cache_ok_def)
  then show "0 \<le> js_round (double_of (of_int (cache_limit st) * cache_ratio st))"
    and "js_round (double_of (of_int (cache_limit st) * cache_ratio st)) \<le> cache_limit st"
    by (simp_all add: js_round_def floor_le_iff)
qed

context eviction begin

lemma checkTrim_holds:
  assumes "cache_ok st" and "lm_holds st es"
  shows "lm_holds (Cache_checkTrim trim st) (if int (length es) > cache_limit st then kept (cache_room st) es else es)"
  using assms lm_holds_size [OF assms(2)] trim_holds [OF assms(2), of "cache_room st"] js_round_room(1) [OF assms(1)]
  by (simp add: Cache_checkTrim_def cache_room_def)

lemma checkTrim_settings:
  assumes "cache_ok st" and "lm_holds st es"
  shows "LinkedMap.more (Cache_checkTrim trim st) = LinkedMap.more st"
  using trim_settings [OF assms(2), of "cache_room st"] js_round_room(1) [OF assms(1)]
  by (simp add: Cache_checkTrim_def cache_room_def)

lemma checkTrim_bound:
  assumes "cache_ok st" and "lm_holds st es"
  shows "lm_size (Cache_checkTrim trim st) \<le> cache_limit st"
proof -
  have "int (cache_room st) \<le> cache_limit st"
    using js_round_room [OF assms(1)] by (simp add: cache_room_def)
  then show ?thesis
    using lm_holds_size [OF checkTrim_holds [OF assms]] by (auto simp: length_kept)
qed

lemma setLimit_bound:
  assumes "cache_ok st" and "lm_holds st es" and "0 \<le> limit" "limit < 9007199254740992"
  shows "lm_size (Cache_setLimit trim limit st) \<le> limit"
proof -
  have "lm_holds (st\<lparr>cache_limit := limit\<rparr>) es" using assms(2)
    by (simp add: lm_holds_def lm_rep_def lm_links_def lm_entries_def)
  moreover have "cache_ok (st\<lparr>cache_limit := limit\<rparr>)" using assms(1,3,4) by (simp add: cache_ok_def)
  ultimately show ?thesis using checkTrim_bound by (fastforce simp: Cache_setLimit_def)
qed

end

lemma length_newest [simp]: "length (newest n es) = min n (length es)"
  by (simp add: newest_def)

lemma length_oldest [simp]: "length (oldest n es) = min n (length es)"
  by (simp add: oldest_def min.commute)

interpretation lru: eviction LRUCache_trim newest
  by unfold_locales (simp_all add: LRUCache_trim_def trimOld_refines)

interpretation mru: eviction MRUCache_trim oldest
  by unfold_locales (simp_all add: MRUCache_trim_def trimNew_refines)

lemma without_none: "map_of es k = None \<Longrightarrow> without k es = es"
  by (intro without_id) (auto simp: map_of_eq_None_iff)

lemma Cache_set_refines:
  assumes "lm_holds st es"
  shows "\<exists>st'. Cache_set k v st = Inr st' \<and> lm_holds st' (without k es @ [(k, v)]) \<and> LinkedMap.more st' = LinkedMap.more st"
proof -
  have "set_entries k v Touch_AsNew es = without k es @ [(k, v)]"
    by (simp add: set_entries_def moved_def without_none split: option.split)
  then show ?thesis using set_refines [OF assms, of k v Touch_AsNew] by (simp add: Cache_set_def)
qed

text \<open>Trimming to a negative size empties the chain but forgets to reset one of its ends.\<close>

lemma trim_loop_negative:
  assumes "n < 0" and "dll items None as q"
  shows "\<exists>m'. trim_loop item_previous items n m (last_of as None) (int (length as)) = (m', None, 0) \<and>
    (\<forall>k. m k = None \<longrightarrow> m' k = None)"
  using assms
proof (induction as arbitrary: q m rule: rev_induct)
  case Nil
  then show ?case by (simp add: trim_loop.simps)
next
  case (snoc a as)
  define m1 where "m1 = m(item_key (items ! a) := None)"
  obtain m' where "trim_loop item_previous items n m1 (last_of as None) (int (length as)) = (m', None, 0)"
    and "\<forall>k. m1 k = None \<longrightarrow> m' k = None"
    using snoc.IH [of "Some a" m1] snoc.prems by (auto simp: dll_append)
  moreover have "trim_loop item_previous items n m (last_of (as @ [a]) None) (int (length (as @ [a]))) =
      trim_loop item_previous items n m1 (last_of as None) (int (length as))"
    using snoc.prems by (simp add: trim_loop.simps [of _ _ _ m] dll_append m1_def)
  moreover have "m k = None \<longrightarrow> m1 k = None" for k by (simp add: m1_def)
  ultimately show ?case by auto
qed

lemma trimNew_negative:
  assumes "lm_holds st es" and "n < 0"
  shows "lm_head (trimNew n st) = None \<longleftrightarrow> es = []" and "lm_tail (trimNew n st) = None"
    and "lm_map st k = None \<Longrightarrow> lm_map (trimNew n st) k = None"
    and "LinkedMap.more (trimNew n st) = LinkedMap.more st"
    and "es = [] \<Longrightarrow> lm_holds (trimNew n st) []"
proof -
  obtain as where rep: "lm_rep st as" and es: "es = lm_entries st as" using assms by (auto simp: lm_holds_def)
  then have links: "lm_links st as" and size: "lm_size st = int (length as)" by (simp_all add: lm_rep_def)
  then obtain m' where "trim_loop item_previous (lm_items st) n (lm_map st) (lm_tail st) (lm_size st) = (m', None, 0)"
    and m': "\<forall>k. lm_map st k = None \<longrightarrow> m' k = None"
    using trim_loop_negative [OF assms(2), of "lm_items st" as None "lm_map st"] by (auto simp: lm_links_def)
  then have run: "trimNew n st = bump_state (st\<lparr>lm_map := m', lm_tail := None, lm_size := 0\<rparr>)"
    using assms(2) size by (simp add: trimNew_def)
  have "as = [] \<longleftrightarrow> es = []" by (simp add: es lm_entries_def)
  then show "lm_head (trimNew n st) = None \<longleftrightarrow> es = []" "lm_tail (trimNew n st) = None"
    "LinkedMap.more (trimNew n st) = LinkedMap.more st"
    using links by (simp_all add: run bump_state_def lm_links_def)
  show "lm_map st k = None \<Longrightarrow> lm_map (trimNew n st) k = None" using m' by (simp add: run bump_state_def)
  assume "es = []"
  then have "as = []" using \<open>as = [] \<longleftrightarrow> es = []\<close> by simp
  then have "m' = Map.empty" using m' rep by (auto simp: lm_rep_def)
  then show "lm_holds (trimNew n st) []"
    using links \<open>as = []\<close> by (auto simp: lm_holds_def lm_rep_def lm_links_def run bump_state_def intro!: exI [of _ "[]"])
qed

section \<open>Properties\<close>

text \<open>C10: The linked map refines an association list in iteration order: on any state that holds the entries
  \<open>es\<close>, no operation throws; \<open>get\<close> and \<open>set\<close> answer and update by key and move the entry to the
  front or the end as the touch mode says, \<open>remove\<close> and \<open>shift\<close> return the removed value and keep the
  order of the rest, and \<open>size\<close>, \<open>has\<close> and \<open>toJSON\<close> read the entries.\<close>

theorem LinkedMap_refines:
  assumes "lm_holds st es"
  shows "(\<exists>st'. LinkedMap_get k t st = Inr (map_of es k, st') \<and> lm_holds st' (get_entries k t es)) \<and>
    (\<exists>st'. LinkedMap_set k v t st = Inr st' \<and> lm_holds st' (set_entries k v t es)) \<and>
    (\<exists>st'. LinkedMap_remove k st = Inr (map_of es k, st') \<and> lm_holds st' (without k es)) \<and>
    (\<exists>st'. LinkedMap_shift st = Inr (case es of [] \<Rightarrow> None | e # _ \<Rightarrow> Some (snd e), st') \<and> lm_holds st' (tl es)) \<and>
    LinkedMap_size st = int (length es) \<and> (LinkedMap_has k st \<longleftrightarrow> k \<in> fst ` set es) \<and>
    LinkedMap_toJSON st = Some (Inr es)"
proof (intro conjI)
  show "LinkedMap_size st = int (length es)" using lm_holds_size [OF assms] by (simp add: LinkedMap_size_def)
  show "LinkedMap_has k st \<longleftrightarrow> k \<in> fst ` set es"
    using lm_holds_map [OF assms] by (simp add: LinkedMap_has_def map_of_eq_None_iff)
qed (use get_refines [OF assms] set_refines [OF assms] remove_refines [OF assms] shift_refines [OF assms]
      toJSON_entries [OF assms] in blast)+

lemma LinkedMap_refines_witness:
  "lm_holds LinkedMap_new [] \<and> (\<exists>st'. LinkedMap_set ''a'' (1 :: int) Touch_AsOld LinkedMap_new = Inr st' \<and> lm_holds st' [(''a'', 1)])"
  using LinkedMap_refines [OF lm_holds_new, of "''a''" Touch_AsOld "1 :: int"] by (simp add: set_entries_def)

text \<open>C13: \<open>fromJSON\<close> and \<open>toJSON\<close> are inverse: loading a list of entries with different keys into any map
  and writing it back returns the same list, in the same order.\<close>

theorem LinkedMap_json_roundtrip:
  assumes "distinct (map fst data)"
  shows "\<exists>st'. LinkedMap_fromJSON data st = Inr st' \<and> LinkedMap_toJSON st' = Some (Inr data)"
proof -
  obtain st' where "LinkedMap_fromJSON data st = Inr st'"
    and holds: "lm_holds st' (foldl (\<lambda>es (k, v). set_entries k v Touch_None es) [] data)"
    using set_all_refines [OF lm_holds_clear [of st], of data] by (auto simp: LinkedMap_fromJSON_def)
  then show ?thesis
    using toJSON_entries [OF holds] set_all_distinct [of "[]" data] assms by simp
qed

lemma LinkedMap_json_roundtrip_witness:
  "\<exists>st'. LinkedMap_fromJSON [(2 :: int, True), (1, False)] LinkedMap_new = Inr st' \<and>
     LinkedMap_toJSON st' = Some (Inr [(2, True), (1, False)])"
  by (rule LinkedMap_json_roundtrip) simp

text \<open>C14: Iterating while removing is detected: a \<open>forEach\<close> over a map that is not empty, with a callback that
  removes the key it is given, terminates with the error "LinkedMap got modified during iteration"; a callback
  that leaves the map alone is called once per entry, in order, and the loop terminates.\<close>

theorem LinkedMap_forEach_guard:
  assumes "lm_holds st es"
  shows "LinkedMap_forEach (\<lambda>v k st s. (st, s @ [(k, v)])) st [] = Some (Inr (st, es)) \<and>
    (es \<noteq> [] \<longrightarrow>
      LinkedMap_forEach (\<lambda>v k st s. case LinkedMap_remove k st of Inr (_, st') \<Rightarrow> (st', s) | Inl _ \<Rightarrow> (st, s)) st s =
        Some (Inl ModifiedDuringIterationError))"
proof (intro conjI impI)
  have "fold (\<lambda>e data. data @ [(fst e, snd e)]) es data = data @ es" for data
    by (induction es arbitrary: data) simp_all
  then show "LinkedMap_forEach (\<lambda>v k st s. (st, s @ [(k, v)])) st [] = Some (Inr (st, es))"
    using forEach_pure [OF assms, of "\<lambda>v k st s. (st, s @ [(k, v)])" "\<lambda>v k s. s @ [(k, v)]" "[]"] by simp
next
  assume "es \<noteq> []"
  obtain as where rep: "lm_rep st as" and es: "es = lm_entries st as" using assms by (auto simp: lm_holds_def)
  then obtain a bs where as: "as = a # bs" using \<open>es \<noteq> []\<close> by (cases as) auto
  let ?k = "item_key (lm_items st ! a)"
  have k: "lm_map st ?k = Some a" and head: "lm_head st = Some a" using rep as by (auto simp: lm_rep_def lm_links_def)
  have "lm_links (st\<lparr>lm_map := (lm_map st)(?k := None)\<rparr>) ([] @ a # bs)"
    using rep as by (simp add: lm_rep_def lm_links_def)
  then obtain st1 where "removeItem a (st\<lparr>lm_map := (lm_map st)(?k := None)\<rparr>) = Inr st1" "lm_state st1 = lm_state st + 1"
    using removeItem_links by fastforce
  then have "LinkedMap_remove ?k st = Inr (Some (item_value (item_at st1 a)), st1\<lparr>lm_size := lm_size st1 - 1\<rparr>)"
    and "lm_state (st1\<lparr>lm_size := lm_size st1 - 1\<rparr>) \<noteq> lm_state st"
    using k by (simp_all add: LinkedMap_remove_def)
  then show "LinkedMap_forEach (\<lambda>v k st s. case LinkedMap_remove k st of Inr (_, st') \<Rightarrow> (st', s) | Inl _ \<Rightarrow> (st, s)) st s =
      Some (Inl ModifiedDuringIterationError)"
    by (simp add: LinkedMap_forEach_def head forEach_loop.simps [of _ _ "Some a"] item_at_def Let_def)
qed

lemma LinkedMap_forEach_guard_witness:
  "\<exists>st. LinkedMap_fromJSON [(1 :: int, True)] LinkedMap_new = Inr st \<and>
    LinkedMap_forEach (\<lambda>v k st s. (st, s @ [(k, v)])) st [] = Some (Inr (st, [(1, True)])) \<and>
    LinkedMap_forEach (\<lambda>v k st s. case LinkedMap_remove k st of Inr (_, st') \<Rightarrow> (st', s) | Inl _ \<Rightarrow> (st, s)) st [()] =
      Some (Inl ModifiedDuringIterationError)"
proof -
  obtain st where st: "LinkedMap_fromJSON [(1 :: int, True)] LinkedMap_new = Inr st" "lm_holds st [(1, True)]"
    using set_refines [OF lm_holds_clear [of LinkedMap_new], of 1 True Touch_None]
    by (auto simp: LinkedMap_fromJSON_def set_entries_def)
  then show ?thesis using LinkedMap_forEach_guard [OF st(2), of "[()]"] by auto
qed

text \<open>C11: An LRU cache evicts the least recently used entries: \<open>set\<close> never throws, makes the entry the newest,
  and when the cache then exceeds its limit keeps exactly the newest \<open>Math.round(limit * ratio)\<close> entries, the product
  being that of doubles; afterwards the size is at most the limit, which \<open>set\<close> leaves unchanged.  The limit is a
  non-negative integer below \<open>2 ^ 53\<close>.\<close>

theorem LRUCache_set_evicts:
  assumes "cache_ok st" and "lm_holds st es"
  shows "\<exists>st'. LRUCache_set k v st = Inr st' \<and> cache_limit st' = cache_limit st \<and> lm_size st' \<le> cache_limit st \<and>
    lm_holds st' (if int (length (without k es @ [(k, v)])) > cache_limit st
                  then newest (cache_room st) (without k es @ [(k, v)]) else without k es @ [(k, v)])"
proof -
  obtain st1 where st1: "Cache_set k v st = Inr st1" "lm_holds st1 (without k es @ [(k, v)])"
    and more: "LinkedMap.more st1 = LinkedMap.more st"
    using Cache_set_refines [OF assms(2)] by blast
  have ok: "cache_ok st1" and same: "cache_limit st1 = cache_limit st" "cache_room st1 = cache_room st"
    using cache_settings [OF more] assms(1) by (simp_all add: cache_ok_def cache_room_def)
  show ?thesis
    using st1(1) lru.checkTrim_holds [OF ok st1(2), unfolded same] lru.checkTrim_bound [OF ok st1(2)]
      cache_settings [OF lru.checkTrim_settings [OF ok st1(2)]]
    by (simp add: LRUCache_set_def same)
qed

text \<open>The cache of the outline model, with limit 15 and ratio 0.7, keeps 11 entries.\<close>

lemma outline_cache_room: "cache_room (Cache_new 15 (6305039478318694 / 9007199254740992)) = 11"
proof -
  have "js_round (double_of (15 * (6305039478318694 / 9007199254740992))) = 11"
    unfolding double_of_example by (simp add: js_round_def)
  then show ?thesis by (simp add: cache_room_def Cache_new_def LinkedMap.defs clamp_ratio_def)
qed

definition example_cache :: "int \<Rightarrow> (string, int) Cache" where
  "example_cache limit = Cache_new limit 1"

lemma example_cache_ok: "0 \<le> limit \<Longrightarrow> limit < 9007199254740992 \<Longrightarrow> cache_ok (example_cache limit)" "lm_holds (example_cache limit) []"
  by (auto simp: example_cache_def Cache_new_def LinkedMap_new_def LinkedMap.defs cache_ok_def clamp_ratio_def
      lm_holds_def lm_rep_def lm_links_def intro!: exI [of _ "[]"])

lemma LRUCache_set_evicts_witness:
  "\<exists>st'. LRUCache_set ''a'' 1 (example_cache 0) = Inr st' \<and> lm_holds st' []"
  using LRUCache_set_evicts [OF example_cache_ok [of 0], of "''a''" 1]
  by (auto simp: newest_def cache_room_def example_cache_def Cache_new_def LinkedMap_new_def LinkedMap.defs without_def)

text \<open>C12: An MRU cache makes room before it adds: \<open>set\<close> of a new key on a full cache keeps the oldest
  \<open>Math.round(limit * ratio) - 1\<close> entries, the product being that of doubles, and appends the new one; the limit is a
  non-negative integer below \<open>2 ^ 53\<close>. When \<open>Math.round(limit * ratio)\<close> is 0 and the cache is not empty it throws "Invalid list" instead, since trimming to -1 leaves a list with a head and no tail.\<close>

theorem MRUCache_set_spec:
  assumes "cache_ok st" and "lm_holds st es"
  shows "if cache_limit st \<le> int (length es) \<and> map_of es k = None \<and> cache_room st = 0 \<and> es \<noteq> []
    then MRUCache_set k v st = Inl InvalidListError
    else \<exists>st'. MRUCache_set k v st = Inr st' \<and>
      lm_holds st' ((if cache_limit st \<le> int (length es) \<and> map_of es k = None
                     then oldest (cache_room st - 1) es else without k es) @ [(k, v)])"
proof (cases "cache_limit st \<le> int (length es) \<and> map_of es k = None")
  case False
  then have "MRUCache_set k v st = Cache_set k v st"
    using lm_holds_size [OF assms(2)] lm_holds_map [OF assms(2), of k] by (auto simp: MRUCache_set_def LinkedMap_has_def)
  then show ?thesis using False Cache_set_refines [OF assms(2), of k v] by auto
next
  case full: True
  define n where "n = js_round (double_of (of_int (cache_limit st) * cache_ratio st)) - 1"
  have n: "n = int (cache_room st) - 1" using js_round_room(1) [OF assms(1)] by (simp add: n_def cache_room_def)
  have run: "MRUCache_set k v st = Cache_set k v (trimNew n st)"
    using full lm_holds_size [OF assms(2)] lm_holds_map [OF assms(2), of k]
    by (simp add: MRUCache_set_def LinkedMap_has_def MRUCache_trim_def n_def)
  show ?thesis
  proof (cases "cache_room st = 0")
    case False
    then have "lm_holds (trimNew n st) (oldest (cache_room st - 1) es)"
      using trimNew_refines(1) [OF assms(2), of "cache_room st - 1"] by (simp add: n)
    moreover have "without k (oldest (cache_room st - 1) es) = oldest (cache_room st - 1) es"
      using full by (intro without_id) (auto simp: oldest_def map_of_eq_None_iff dest: in_set_takeD)
    ultimately show ?thesis
      using full False Cache_set_refines [of "trimNew n st" "oldest (cache_room st - 1) es" k v] by (auto simp: run)
  next
    case True
    note neg = trimNew_negative [OF assms(2), of n]
    show ?thesis
    proof (cases "es = []")
      case nil: True
      then show ?thesis
        using full True n neg(5) Cache_set_refines [of "trimNew n st" "[]" k v] by (auto simp: run oldest_def without_def)
    next
      case False
      have "lm_map (trimNew n st) k = None" using neg(3) [of k] full lm_holds_map [OF assms(2), of k] n True by simp
      then have "Cache_set k v (trimNew n st) = Inl InvalidListError"
        using neg(1,2) False n True by (simp add: Cache_set_def LinkedMap_set_def addItemLast_def Let_def)
      then show ?thesis using full True False by (simp add: run)
    qed
  qed
qed

lemma MRUCache_set_spec_witness:
  "\<exists>st st'. MRUCache_set ''a'' 1 (example_cache 0) = Inr st \<and> MRUCache_set ''b'' 2 st = Inl InvalidListError \<and>
    MRUCache_set ''a'' 3 st = Inr st'"
proof -
  have room: "cache_room (example_cache 0) = 0"
    by (simp add: cache_room_def example_cache_def Cache_new_def LinkedMap.defs)
  obtain st where st: "MRUCache_set ''a'' 1 (example_cache 0) = Inr st" "lm_holds st [(''a'', 1)]"
    using MRUCache_set_spec [OF example_cache_ok [of 0], of "''a''" 1] by (auto simp: oldest_def without_def split: if_splits)
  have "Cache_set ''a'' 1 (MRUCache_trim (- 1) (example_cache 0)) = Inr st"
    using st(1) by (simp add: MRUCache_set_def example_cache_def Cache_new_def LinkedMap.defs LinkedMap_new_def LinkedMap_has_def)
  moreover have "lm_holds (MRUCache_trim (- 1) (example_cache 0)) []"
    and "LinkedMap.more (MRUCache_trim (- 1) (example_cache 0)) = LinkedMap.more (example_cache 0)"
    using trimNew_negative(4,5) [OF example_cache_ok(2) [of 0], of "- 1"] by (simp_all add: MRUCache_trim_def)
  ultimately have "LinkedMap.more st = LinkedMap.more (example_cache 0)"
    using Cache_set_refines [of "MRUCache_trim (- 1) (example_cache 0)" "[]" "''a''" 1] by auto
  then have ok: "cache_ok st" and same: "cache_limit st = 0" "cache_room st = 0"
    using cache_settings [of st "example_cache 0"] example_cache_ok(1) [of 0] room
    by (simp_all add: cache_ok_def cache_room_def) (simp_all add: example_cache_def Cache_new_def LinkedMap.defs)
  show ?thesis
    using MRUCache_set_spec [OF ok st(2), of "''b''" 2] MRUCache_set_spec [OF ok st(2), of "''a''" 3] st(1) same
    by (auto split: if_splits)
qed

end
