(* ===== verification/Key_Maps.thy ===== *)
theory Key_Maps
  imports Prelude
begin

text \<open>
  The smaller containers of \<open>src/vs/base/common/map.ts\<close>: \<open>CounterSet\<close>, \<open>BidirectionalMap\<close>, \<open>SetMap\<close> and
  \<open>mapsStrictEqualIgnoreOrder\<close>.  A \<open>Map\<close> is a partial function here; none of these operations looks at the
  insertion order.  The lemmas relate them to a multiset, a bijection and a relation.
\<close>

section \<open>Counting sets\<close>

type_synonym 'a CounterSet = "'a \<Rightarrow> int option"

text \<open>\<open>this.map.get(value) || 0\<close>\<close>

definition counter_of :: "'a \<Rightarrow> 'a CounterSet \<Rightarrow> int" where
  "counter_of x m = (case m x of None \<Rightarrow> 0 | Some n \<Rightarrow> n)"

definition CounterSet_add :: "'a \<Rightarrow> 'a CounterSet \<Rightarrow> 'a CounterSet" where
  "CounterSet_add x m = m(x \<mapsto> counter_of x m + 1)"

definition CounterSet_delete :: "'a \<Rightarrow> 'a CounterSet \<Rightarrow> bool \<times> 'a CounterSet" where
  "CounterSet_delete x m =
     (let c = counter_of x m
      in if c = 0 then (False, m)
         else if c - 1 = 0 then (True, m(x := None))
         else (True, m(x \<mapsto> c - 1)))"

definition CounterSet_has :: "'a \<Rightarrow> 'a CounterSet \<Rightarrow> bool" where
  "CounterSet_has x m \<longleftrightarrow> m x \<noteq> None"

text \<open>The counters are the multiplicities of a multiset.\<close>

definition counts :: "'a CounterSet \<Rightarrow> 'a multiset \<Rightarrow> bool" where
  "counts m M \<longleftrightarrow> (\<forall>x. m x = (if x \<in># M then Some (int (count M x)) else None))"

lemma counts_empty: "counts Map.empty {#}"
  by (simp add: counts_def)

lemma counter_of_counts: "counts m M \<Longrightarrow> counter_of x m = int (count M x)"
  by (auto simp: counts_def counter_of_def not_in_iff)

lemma CounterSet_add_counts: "counts m M \<Longrightarrow> counts (CounterSet_add x m) (add_mset x M)"
  by (simp add: CounterSet_add_def counter_of_counts) (simp add: counts_def)

lemma CounterSet_delete_counts:
  assumes "counts m M"
  shows "fst (CounterSet_delete x m) \<longleftrightarrow> x \<in># M" and "counts (snd (CounterSet_delete x m)) (M - {#x#})"
proof -
  show "fst (CounterSet_delete x m) \<longleftrightarrow> x \<in># M"
    by (simp add: CounterSet_delete_def counter_of_counts [OF assms] Let_def count_greater_zero_iff [symmetric] del: count_greater_zero_iff)
  have "(snd (CounterSet_delete x m)) y = (if y \<in># M - {#x#} then Some (int (count (M - {#x#}) y)) else None)" for y
    using assms
    by (cases "count M x"; cases "count M x - 1")
      (auto simp: CounterSet_delete_def counter_of_counts [OF assms] counts_def Let_def in_diff_count not_in_iff)
  then show "counts (snd (CounterSet_delete x m)) (M - {#x#})" by (simp add: counts_def)
qed

lemma CounterSet_has_counts: "counts m M \<Longrightarrow> CounterSet_has x m \<longleftrightarrow> x \<in># M"
  by (simp add: counts_def CounterSet_has_def)

section \<open>Bidirectional maps\<close>

record ('k, 'v) BidirectionalMap =
  bi_m1 :: "'k \<Rightarrow> 'v option"
  bi_m2 :: "'v \<Rightarrow> 'k option"

definition BidirectionalMap_clear :: "('k, 'v) BidirectionalMap \<Rightarrow> ('k, 'v) BidirectionalMap" where
  "BidirectionalMap_clear m = m\<lparr>bi_m1 := Map.empty, bi_m2 := Map.empty\<rparr>"

definition BidirectionalMap_set :: "'k \<Rightarrow> 'v \<Rightarrow> ('k, 'v) BidirectionalMap \<Rightarrow> ('k, 'v) BidirectionalMap" where
  "BidirectionalMap_set k v m =
     (let m2 = (case bi_m1 m k of None \<Rightarrow> bi_m2 m | Some previous \<Rightarrow> (bi_m2 m)(previous := None))
      in m\<lparr>bi_m1 := (bi_m1 m)(k \<mapsto> v), bi_m2 := m2(v \<mapsto> k)\<rparr>)"

definition BidirectionalMap_new :: "('k \<times> 'v) list \<Rightarrow> ('k, 'v) BidirectionalMap" where
  "BidirectionalMap_new entries =
     foldl (\<lambda>m (k, v). BidirectionalMap_set k v m) \<lparr>bi_m1 = Map.empty, bi_m2 = Map.empty\<rparr> entries"

definition BidirectionalMap_get :: "'k \<Rightarrow> ('k, 'v) BidirectionalMap \<Rightarrow> 'v option" where
  "BidirectionalMap_get k m = bi_m1 m k"

definition BidirectionalMap_getKey :: "'v \<Rightarrow> ('k, 'v) BidirectionalMap \<Rightarrow> 'k option" where
  "BidirectionalMap_getKey v m = bi_m2 m v"

definition BidirectionalMap_delete :: "'k \<Rightarrow> ('k, 'v) BidirectionalMap \<Rightarrow> bool \<times> ('k, 'v) BidirectionalMap" where
  "BidirectionalMap_delete k m =
     (case bi_m1 m k of
        None \<Rightarrow> (False, m)
      | Some v \<Rightarrow> (True, m\<lparr>bi_m1 := (bi_m1 m)(k := None), bi_m2 := (bi_m2 m)(v := None)\<rparr>))"

text \<open>The two directions are inverse to each other.\<close>

definition bi_inverse :: "('k, 'v) BidirectionalMap \<Rightarrow> bool" where
  "bi_inverse m \<longleftrightarrow> (\<forall>k v. bi_m1 m k = Some v \<longleftrightarrow> bi_m2 m v = Some k)"

lemma bi_inverse_set:
  assumes "bi_inverse m" and "bi_m2 m v = None \<or> bi_m2 m v = Some k"
  shows "bi_inverse (BidirectionalMap_set k v m)"
proof -
  have inv: "bi_m1 m k' = Some v' \<longleftrightarrow> bi_m2 m v' = Some k'" for k' v' using assms(1) by (simp add: bi_inverse_def)
  show ?thesis
  proof (cases "bi_m1 m k")
    case None
    then have "bi_m2 m v' \<noteq> Some k" for v' using inv [of k v'] by simp
    with None show ?thesis
      unfolding bi_inverse_def BidirectionalMap_set_def using inv assms(2) by auto
  next
    case (Some w)
    then have run: "BidirectionalMap_set k v m =
        m\<lparr>bi_m1 := (bi_m1 m)(k \<mapsto> v), bi_m2 := (bi_m2 m)(w := None, v \<mapsto> k)\<rparr>"
      by (simp add: BidirectionalMap_set_def)
    have w: "bi_m2 m w = Some k" using inv [of k w] Some by simp
    have uniq: "bi_m2 m v' \<noteq> Some k" if "v' \<noteq> w" for v' using that inv [of k v'] Some by auto
    show ?thesis
      unfolding bi_inverse_def run
    proof (intro allI)
      fix k' v'
      show "bi_m1 (m\<lparr>bi_m1 := (bi_m1 m)(k \<mapsto> v), bi_m2 := (bi_m2 m)(w := None, v \<mapsto> k)\<rparr>) k' = Some v' \<longleftrightarrow>
        bi_m2 (m\<lparr>bi_m1 := (bi_m1 m)(k \<mapsto> v), bi_m2 := (bi_m2 m)(w := None, v \<mapsto> k)\<rparr>) v' = Some k'"
      proof (cases "v' = v")
        case True
        then show ?thesis using inv [of k' v] assms(2) by auto
      next
        case False
        then show ?thesis
          using inv [of k' v'] w uniq [of v'] by (cases "k' = k"; cases "v' = w") simp_all
      qed
    qed
  qed
qed

lemma bi_inverse_delete: "bi_inverse m \<Longrightarrow> bi_inverse (snd (BidirectionalMap_delete k m))"
proof (cases "bi_m1 m k")
  case None
  then show "bi_inverse m \<Longrightarrow> bi_inverse (snd (BidirectionalMap_delete k m))" by (simp add: BidirectionalMap_delete_def)
next
  case (Some w)
  assume inv: "bi_inverse m"
  then have iff: "bi_m1 m k' = Some v \<longleftrightarrow> bi_m2 m v = Some k'" for k' v by (simp add: bi_inverse_def)
  have run: "BidirectionalMap_delete k m = (True, m\<lparr>bi_m1 := (bi_m1 m)(k := None), bi_m2 := (bi_m2 m)(w := None)\<rparr>)"
    using Some by (simp add: BidirectionalMap_delete_def)
  show "bi_inverse (snd (BidirectionalMap_delete k m))"
    unfolding bi_inverse_def run
  proof (intro allI)
    fix k' v
    show "bi_m1 (snd (True, m\<lparr>bi_m1 := (bi_m1 m)(k := None), bi_m2 := (bi_m2 m)(w := None)\<rparr>)) k' = Some v \<longleftrightarrow>
      bi_m2 (snd (True, m\<lparr>bi_m1 := (bi_m1 m)(k := None), bi_m2 := (bi_m2 m)(w := None)\<rparr>)) v = Some k'"
      using iff [of k' v] iff [of k v] iff [of k w] iff [of k' w] Some by auto
  qed
qed

lemma bi_inverse_clear: "bi_inverse (BidirectionalMap_clear m)"
  by (simp add: bi_inverse_def BidirectionalMap_clear_def)

text \<open>The note in the source: values need to be unique. Setting a value another key has breaks the map.\<close>

lemma BidirectionalMap_stale:
  "let m = BidirectionalMap_new [(1 :: int, ''x''), (2, ''x'')]
   in BidirectionalMap_get 1 m = Some ''x'' \<and> BidirectionalMap_getKey ''x'' m = Some 2"
  by (simp add: BidirectionalMap_new_def BidirectionalMap_set_def BidirectionalMap_get_def BidirectionalMap_getKey_def)

section \<open>Maps to sets\<close>

type_synonym ('k, 'v) SetMap = "'k \<Rightarrow> 'v set option"

definition SetMap_add :: "'k \<Rightarrow> 'v \<Rightarrow> ('k, 'v) SetMap \<Rightarrow> ('k, 'v) SetMap" where
  "SetMap_add k v m = m(k \<mapsto> insert v (case m k of None \<Rightarrow> {} | Some vs \<Rightarrow> vs))"

definition SetMap_delete :: "'k \<Rightarrow> 'v \<Rightarrow> ('k, 'v) SetMap \<Rightarrow> ('k, 'v) SetMap" where
  "SetMap_delete k v m =
     (case m k of
        None \<Rightarrow> m
      | Some vs \<Rightarrow> if vs - {v} = {} then m(k := None) else m(k \<mapsto> vs - {v}))"

definition SetMap_get :: "'k \<Rightarrow> ('k, 'v) SetMap \<Rightarrow> 'v set" where
  "SetMap_get k m = (case m k of None \<Rightarrow> {} | Some vs \<Rightarrow> vs)"

lemma SetMap_get_add: "SetMap_get q (SetMap_add k v m) = (if q = k then insert v (SetMap_get k m) else SetMap_get q m)"
  by (simp add: SetMap_get_def SetMap_add_def)

lemma SetMap_get_delete: "SetMap_get q (SetMap_delete k v m) = (if q = k then SetMap_get k m - {v} else SetMap_get q m)"
  by (auto simp: SetMap_get_def SetMap_delete_def split: option.splits)

text \<open>No key is left with an empty set.\<close>

definition setmap_compact :: "('k, 'v) SetMap \<Rightarrow> bool" where
  "setmap_compact m \<longleftrightarrow> (\<forall>k. m k \<noteq> Some {})"

lemma setmap_compact_add: "setmap_compact m \<Longrightarrow> setmap_compact (SetMap_add k v m)"
  by (simp add: setmap_compact_def SetMap_add_def)

lemma setmap_compact_delete: "setmap_compact m \<Longrightarrow> setmap_compact (SetMap_delete k v m)"
  by (auto simp: setmap_compact_def SetMap_delete_def split: option.splits)

end
