(* ===== verification/Context_Keys.thy ===== *)
theory Context_Keys
  imports Js_Numbers "HOL-Library.Char_ord" "HOL-Library.List_Lexorder"
begin

text \<open>
  The when-clause expressions of \<open>src/vs/platform/contextkey/common/contextkey.ts\<close>: the expression classes
  with their comparison, evaluation, negation and serialisation, the normalisation to a disjunction of
  conjunctions in \<open>ContextKeyAndExpr\<close> and \<open>ContextKeyOrExpr\<close>, and the implication test.

  The host is a record: the constant keys, the platform test, and what the engine computes (regular expression
  matching, number formatting, lower casing).  The memo field
  \<open>negated\<close> is kept on the two node kinds where it can be seen (a node made by \<open>negate\<close> answers the expression it
  was made from); on the other kinds recomputing gives an equal node.
\<close>

section \<open>Values and the conversions of the language\<close>

datatype ck_prim =
    PUndefined
  | PNull
  | PBool bool
  | PNum js_number
  | PStr string

datatype ck_value =
    VPrim ck_prim
  | VArray "ck_prim list"
  | VRecord "(string \<times> ck_prim) list"

type_synonym ck_context = "string \<Rightarrow> ck_value"

record RegExp =
  re_source :: string
  re_flags :: string

record ck_host =
  constant_values :: "string \<Rightarrow> bool option"
  is_windows :: bool
  regex_test :: "RegExp \<Rightarrow> string \<Rightarrow> bool"
  number_to_string :: "js_number \<Rightarrow> string"
  to_lower_case :: "string \<Rightarrow> string"

text \<open>\<open>parseFloat\<close> reads the longest decimal literal at the start of a string.\<close>

definition is_digit :: "char \<Rightarrow> bool" where
  "is_digit c \<longleftrightarrow> CHR ''0'' \<le> c \<and> c \<le> CHR ''9''"

definition is_space :: "char \<Rightarrow> bool" where
  "is_space c \<longleftrightarrow> c \<in> set [CHR '' '', CHR 0x09, CHR 0x0A, CHR 0x0B, CHR 0x0C, CHR 0x0D, CHR 0xA0]"

definition digits_value :: "int \<Rightarrow> string \<Rightarrow> int" where
  "digits_value radix s =
     foldl (\<lambda>n c. radix * n + (if is_digit c then of_char c - 48 else if c \<ge> CHR ''a'' then of_char c - 87 else of_char c - 55)) 0 s"

definition read_exponent :: "string \<Rightarrow> int \<times> string" where
  "read_exponent s =
     (case s of
        [] \<Rightarrow> (0, s)
      | c # r \<Rightarrow>
          if c \<noteq> CHR ''e'' \<and> c \<noteq> CHR ''E'' then (0, s)
          else
            let neg = (r \<noteq> [] \<and> hd r = CHR ''-'');
                t = (if r \<noteq> [] \<and> (hd r = CHR ''-'' \<or> hd r = CHR ''+'') then tl r else r);
                ds = takeWhile is_digit t
            in if ds = [] then (0, s)
               else (if neg then - digits_value 10 ds else digits_value 10 ds, dropWhile is_digit t))"

definition scale10 :: "rat \<Rightarrow> int \<Rightarrow> rat" where
  "scale10 x e = (if e \<ge> 0 then x * 10 ^ nat e else x / 10 ^ nat (- e))"

definition read_unsigned :: "string \<Rightarrow> (js_number \<times> string) option" where
  "read_unsigned s =
     (if take 8 s = ''Infinity'' then Some (JsInfinity False, drop 8 s)
      else
        let whole = takeWhile is_digit s; r = dropWhile is_digit s;
            dot = (r \<noteq> [] \<and> hd r = CHR ''.'');
            frac = (if dot then takeWhile is_digit (tl r) else []);
            r2 = (if dot \<and> (whole \<noteq> [] \<or> frac \<noteq> []) then dropWhile is_digit (tl r) else r);
            (e, r3) = read_exponent r2
        in if whole = [] \<and> frac = [] then None
           else Some (JsNum (scale10 (of_int (digits_value 10 (whole @ frac))) (e - int (length frac))), r3))"

fun num_negate :: "js_number \<Rightarrow> js_number" where
  "num_negate JsNaN = JsNaN"
| "num_negate (JsInfinity neg) = JsInfinity (\<not> neg)"
| "num_negate (JsNum x) = JsNum (- x)"

definition read_signed :: "string \<Rightarrow> (js_number \<times> string) option" where
  "read_signed s =
     (if s \<noteq> [] \<and> hd s = CHR ''-'' then map_option (\<lambda>(n, r). (num_negate n, r)) (read_unsigned (tl s))
      else if s \<noteq> [] \<and> hd s = CHR ''+'' then read_unsigned (tl s)
      else read_unsigned s)"

definition parse_float :: "string \<Rightarrow> js_number" where
  "parse_float s = (case read_signed (dropWhile is_space s) of None \<Rightarrow> JsNaN | Some (n, _) \<Rightarrow> n)"

text \<open>\<open>Number(s)\<close> wants the whole trimmed string; the empty one is 0, and there are radix prefixes.\<close>

definition digit_of :: "int \<Rightarrow> char \<Rightarrow> bool" where
  "digit_of radix c \<longleftrightarrow>
     (is_digit c \<and> of_char c - 48 < radix) \<or>
     (radix = 16 \<and> ((CHR ''a'' \<le> c \<and> c \<le> CHR ''f'') \<or> (CHR ''A'' \<le> c \<and> c \<le> CHR ''F'')))"

definition radix_of :: "string \<Rightarrow> int option" where
  "radix_of s =
     (if take 2 s \<in> {''0x'', ''0X''} then Some 16
      else if take 2 s \<in> {''0o'', ''0O''} then Some 8
      else if take 2 s \<in> {''0b'', ''0B''} then Some 2
      else None)"

definition string_to_number :: "string \<Rightarrow> js_number" where
  "string_to_number s0 =
     (let s = rev (dropWhile is_space (rev (dropWhile is_space s0)))
      in if s = [] then JsNum 0
         else case radix_of s of
             Some radix \<Rightarrow>
               (if drop 2 s \<noteq> [] \<and> list_all (digit_of radix) (drop 2 s) then JsNum (of_int (digits_value radix (drop 2 s))) else JsNaN)
           | None \<Rightarrow> (case read_signed s of Some (n, []) \<Rightarrow> n | _ \<Rightarrow> JsNaN))"

fun to_number :: "ck_prim \<Rightarrow> js_number" where
  "to_number PUndefined = JsNaN"
| "to_number PNull = JsNum 0"
| "to_number (PBool b) = JsNum (if b then 1 else 0)"
| "to_number (PNum n) = n"
| "to_number (PStr s) = string_to_number s"

text \<open>Conversions to a string; an array joins its elements with commas and skips null and undefined.\<close>

fun prim_to_string :: "ck_host \<Rightarrow> ck_prim \<Rightarrow> string" where
  "prim_to_string H PUndefined = ''undefined''"
| "prim_to_string H PNull = ''null''"
| "prim_to_string H (PBool b) = (if b then ''true'' else ''false'')"
| "prim_to_string H (PNum n) = number_to_string H n"
| "prim_to_string H (PStr s) = s"

fun join_with :: "string \<Rightarrow> string list \<Rightarrow> string" where
  "join_with sep [] = []"
| "join_with sep [s] = s"
| "join_with sep (s # t # ss) = s @ sep @ join_with sep (t # ss)"

fun value_to_string :: "ck_host \<Rightarrow> ck_value \<Rightarrow> string" where
  "value_to_string H (VPrim p) = prim_to_string H p"
| "value_to_string H (VArray ps) =
     join_with '','' (map (\<lambda>p. if p = PUndefined \<or> p = PNull then [] else prim_to_string H p) ps)"
| "value_to_string H (VRecord fs) = ''[object Object]''"

text \<open>\<open>parseFloat(value)\<close>: a number survives the round trip through its decimal form.\<close>

fun value_parse_float :: "ck_host \<Rightarrow> ck_value \<Rightarrow> js_number" where
  "value_parse_float H (VPrim (PNum n)) = n"
| "value_parse_float H v = parse_float (value_to_string H v)"

fun truthy :: "ck_value \<Rightarrow> bool" where
  "truthy (VPrim PUndefined) = False"
| "truthy (VPrim PNull) = False"
| "truthy (VPrim (PBool b)) = b"
| "truthy (VPrim (PNum n)) = (n \<noteq> JsNaN \<and> n \<noteq> JsNum 0)"
| "truthy (VPrim (PStr s)) = (s \<noteq> [])"
| "truthy _ = True"

text \<open>\<open>===\<close> on primitives: NaN differs from itself.\<close>

fun strict_eq :: "ck_prim \<Rightarrow> ck_prim \<Rightarrow> bool" where
  "strict_eq (PNum a) (PNum b) \<longleftrightarrow> num_eq a b"
| "strict_eq a b \<longleftrightarrow> a = b"

text \<open>\<open>==\<close> between two primitives, and between a context value and a primitive.\<close>

fun is_nullish :: "ck_prim \<Rightarrow> bool" where
  "is_nullish PUndefined = True"
| "is_nullish PNull = True"
| "is_nullish _ = False"

fun loose_eq_prim :: "ck_prim \<Rightarrow> ck_prim \<Rightarrow> bool" where
  "loose_eq_prim (PStr a) (PStr b) \<longleftrightarrow> a = b"
| "loose_eq_prim a b \<longleftrightarrow>
     (if is_nullish a \<or> is_nullish b then is_nullish a \<and> is_nullish b else num_eq (to_number a) (to_number b))"

fun loose_eq :: "ck_host \<Rightarrow> ck_value \<Rightarrow> ck_prim \<Rightarrow> bool" where
  "loose_eq H (VPrim a) p \<longleftrightarrow> loose_eq_prim a p"
| "loose_eq H v p \<longleftrightarrow> \<not> is_nullish p \<and> loose_eq_prim (PStr (value_to_string H v)) p"

text \<open>\<open><\<close> on primitives: strings by code units, everything else as numbers.\<close>

fun prim_less :: "ck_prim \<Rightarrow> ck_prim \<Rightarrow> bool" where
  "prim_less (PStr a) (PStr b) \<longleftrightarrow> a < b"
| "prim_less a b \<longleftrightarrow> num_less (to_number a) (to_number b)"

definition cmp1 :: "string \<Rightarrow> string \<Rightarrow> int" where
  "cmp1 key1 key2 = (if key1 < key2 then - 1 else if key1 > key2 then 1 else 0)"

definition cmp2 :: "string \<Rightarrow> ck_prim \<Rightarrow> string \<Rightarrow> ck_prim \<Rightarrow> int" where
  "cmp2 key1 value1 key2 value2 =
     (if key1 < key2 then - 1
      else if key1 > key2 then 1
      else if prim_less value1 value2 then - 1
      else if prim_less value2 value1 then 1
      else 0)"

section \<open>Expressions\<close>

datatype ck_expr =
    FalseExpr
  | TrueExpr
  | DefinedExpr string
  | NotExpr string
  | EqualsExpr string ck_prim
  | NotEqualsExpr string ck_prim
  | AndExpr "ck_expr list" "ck_expr option"
  | RegexExpr string "RegExp option"
  | NotRegexExpr string "RegExp option"
  | OrExpr "ck_expr list" "ck_expr option"
  | InExpr string string
  | NotInExpr string string
  | GreaterExpr string ck_prim
  | GreaterEqualsExpr string ck_prim
  | SmallerExpr string ck_prim
  | SmallerEqualsExpr string ck_prim

text \<open>The enumeration \<open>ContextKeyExprType\<close>.\<close>

fun expr_type :: "ck_expr \<Rightarrow> int" where
  "expr_type FalseExpr = 0"
| "expr_type TrueExpr = 1"
| "expr_type (DefinedExpr _) = 2"
| "expr_type (NotExpr _) = 3"
| "expr_type (EqualsExpr _ _) = 4"
| "expr_type (NotEqualsExpr _ _) = 5"
| "expr_type (AndExpr _ _) = 6"
| "expr_type (RegexExpr _ _) = 7"
| "expr_type (NotRegexExpr _ _) = 8"
| "expr_type (OrExpr _ _) = 9"
| "expr_type (InExpr _ _) = 10"
| "expr_type (NotInExpr _ _) = 11"
| "expr_type (GreaterExpr _ _) = 12"
| "expr_type (GreaterEqualsExpr _ _) = 13"
| "expr_type (SmallerExpr _ _) = 14"
| "expr_type (SmallerEqualsExpr _ _) = 15"

definition regex_source :: "RegExp option \<Rightarrow> string" where
  "regex_source re = (case re of None \<Rightarrow> [] | Some r \<Rightarrow> re_source r)"

definition ContextKeyRegexExpr_cmp :: "string \<Rightarrow> RegExp option \<Rightarrow> string \<Rightarrow> RegExp option \<Rightarrow> int" where
  "ContextKeyRegexExpr_cmp key regexp key' regexp' =
     (if key < key' then - 1
      else if key > key' then 1
      else if regex_source regexp < regex_source regexp' then - 1
      else if regex_source regexp > regex_source regexp' then 1
      else 0)"

text \<open>
  \<open>cmp\<close> of the classes: the difference of the types, else the fields; conjunctions and disjunctions by
  length, then by the first child that differs.
\<close>

definition type_difference :: "ck_expr \<Rightarrow> ck_expr \<Rightarrow> int" where
  "type_difference a b = expr_type a - expr_type b"

fun ck_cmp :: "ck_expr \<Rightarrow> ck_expr \<Rightarrow> int" and ck_cmp_list :: "ck_expr list \<Rightarrow> ck_expr list \<Rightarrow> int" where
  "ck_cmp FalseExpr b = type_difference FalseExpr b"
| "ck_cmp TrueExpr b = type_difference TrueExpr b"
| "ck_cmp (DefinedExpr k) b =
     (case b of DefinedExpr k' \<Rightarrow> cmp1 k k' | _ \<Rightarrow> type_difference (DefinedExpr k) b)"
| "ck_cmp (NotExpr k) b =
     (case b of NotExpr k' \<Rightarrow> cmp1 k k' | _ \<Rightarrow> type_difference (NotExpr k) b)"
| "ck_cmp (EqualsExpr k v) b =
     (case b of EqualsExpr k' v' \<Rightarrow> cmp2 k v k' v' | _ \<Rightarrow> type_difference (EqualsExpr k v) b)"
| "ck_cmp (NotEqualsExpr k v) b =
     (case b of NotEqualsExpr k' v' \<Rightarrow> cmp2 k v k' v' | _ \<Rightarrow> type_difference (NotEqualsExpr k v) b)"
| "ck_cmp (InExpr k v) b =
     (case b of InExpr k' v' \<Rightarrow> cmp2 k (PStr v) k' (PStr v') | _ \<Rightarrow> type_difference (InExpr k v) b)"
| "ck_cmp (NotInExpr k v) b =
     (case b of NotInExpr k' v' \<Rightarrow> cmp2 k (PStr v) k' (PStr v') | _ \<Rightarrow> type_difference (NotInExpr k v) b)"
| "ck_cmp (GreaterExpr k v) b =
     (case b of GreaterExpr k' v' \<Rightarrow> cmp2 k v k' v' | _ \<Rightarrow> type_difference (GreaterExpr k v) b)"
| "ck_cmp (GreaterEqualsExpr k v) b =
     (case b of GreaterEqualsExpr k' v' \<Rightarrow> cmp2 k v k' v' | _ \<Rightarrow> type_difference (GreaterEqualsExpr k v) b)"
| "ck_cmp (SmallerExpr k v) b =
     (case b of SmallerExpr k' v' \<Rightarrow> cmp2 k v k' v' | _ \<Rightarrow> type_difference (SmallerExpr k v) b)"
| "ck_cmp (SmallerEqualsExpr k v) b =
     (case b of SmallerEqualsExpr k' v' \<Rightarrow> cmp2 k v k' v' | _ \<Rightarrow> type_difference (SmallerEqualsExpr k v) b)"
| "ck_cmp (RegexExpr k r) b =
     (case b of RegexExpr k' r' \<Rightarrow> ContextKeyRegexExpr_cmp k r k' r' | _ \<Rightarrow> type_difference (RegexExpr k r) b)"
| "ck_cmp (NotRegexExpr k r) b =
     (case b of NotRegexExpr k' r' \<Rightarrow> ContextKeyRegexExpr_cmp k r k' r' | _ \<Rightarrow> type_difference (NotRegexExpr k r) b)"
| "ck_cmp (AndExpr es m) b =
     (case b of AndExpr es' m2 \<Rightarrow> (if length es < length es' then - 1 else if length es > length es' then 1 else ck_cmp_list es es') | _ \<Rightarrow> type_difference (AndExpr es m) b)"
| "ck_cmp (OrExpr es m) b =
     (case b of OrExpr es' m2 \<Rightarrow> (if length es < length es' then - 1 else if length es > length es' then 1 else ck_cmp_list es es') | _ \<Rightarrow> type_difference (OrExpr es m) b)"
| "ck_cmp_list [] es = 0"
| "ck_cmp_list (e # es) fs =
     (case fs of [] \<Rightarrow> 0 | f # fs' \<Rightarrow> if ck_cmp e f \<noteq> 0 then ck_cmp e f else ck_cmp_list es fs')"

fun ck_equals :: "ck_expr \<Rightarrow> ck_expr \<Rightarrow> bool" and ck_equals_list :: "ck_expr list \<Rightarrow> ck_expr list \<Rightarrow> bool" where
  "ck_equals FalseExpr b = (b = FalseExpr)"
| "ck_equals TrueExpr b = (b = TrueExpr)"
| "ck_equals (DefinedExpr k) b =
     (case b of DefinedExpr k' \<Rightarrow> (k = k') | _ \<Rightarrow> False)"
| "ck_equals (NotExpr k) b =
     (case b of NotExpr k' \<Rightarrow> (k = k') | _ \<Rightarrow> False)"
| "ck_equals (EqualsExpr k v) b =
     (case b of EqualsExpr k' v' \<Rightarrow> (k = k' \<and> strict_eq v v') | _ \<Rightarrow> False)"
| "ck_equals (NotEqualsExpr k v) b =
     (case b of NotEqualsExpr k' v' \<Rightarrow> (k = k' \<and> strict_eq v v') | _ \<Rightarrow> False)"
| "ck_equals (InExpr k v) b =
     (case b of InExpr k' v' \<Rightarrow> (k = k' \<and> v = v') | _ \<Rightarrow> False)"
| "ck_equals (NotInExpr k v) b =
     (case b of NotInExpr k' v' \<Rightarrow> (k = k' \<and> v = v') | _ \<Rightarrow> False)"
| "ck_equals (GreaterExpr k v) b =
     (case b of GreaterExpr k' v' \<Rightarrow> (k = k' \<and> strict_eq v v') | _ \<Rightarrow> False)"
| "ck_equals (GreaterEqualsExpr k v) b =
     (case b of GreaterEqualsExpr k' v' \<Rightarrow> (k = k' \<and> strict_eq v v') | _ \<Rightarrow> False)"
| "ck_equals (SmallerExpr k v) b =
     (case b of SmallerExpr k' v' \<Rightarrow> (k = k' \<and> strict_eq v v') | _ \<Rightarrow> False)"
| "ck_equals (SmallerEqualsExpr k v) b =
     (case b of SmallerEqualsExpr k' v' \<Rightarrow> (k = k' \<and> strict_eq v v') | _ \<Rightarrow> False)"
| "ck_equals (RegexExpr k r) b =
     (case b of RegexExpr k' r' \<Rightarrow> (k = k' \<and> regex_source r = regex_source r') | _ \<Rightarrow> False)"
| "ck_equals (NotRegexExpr k r) b =
     (case b of NotRegexExpr k' r' \<Rightarrow> (k = k' \<and> regex_source r = regex_source r') | _ \<Rightarrow> False)"
| "ck_equals (AndExpr es m) b =
     (case b of AndExpr es' m2 \<Rightarrow> ck_equals_list es es' | _ \<Rightarrow> False)"
| "ck_equals (OrExpr es m) b =
     (case b of OrExpr es' m2 \<Rightarrow> ck_equals_list es es' | _ \<Rightarrow> False)"
| "ck_equals_list [] fs = (fs = [])"
| "ck_equals_list (e # es) fs = (case fs of [] \<Rightarrow> False | f # fs' \<Rightarrow> ck_equals e f \<and> ck_equals_list es fs')"

section \<open>Evaluation\<close>

text \<open>\<open>ContextKeyInExpr.evaluate\<close>: membership in an array, or a key of an object.\<close>

definition file_uri :: "string \<Rightarrow> bool" where
  "file_uri s \<longleftrightarrow> take 8 s = ''file:///''"

text \<open>\<open>Array.prototype.includes\<close> finds NaN too; an array or object is in no array of primitives.\<close>

definition in_array :: "ck_host \<Rightarrow> ck_value \<Rightarrow> ck_prim list \<Rightarrow> bool" where
  "in_array H item source =
     (case item of
        VPrim p \<Rightarrow>
          if p \<in> set source then True
          else (case p of
              PStr s \<Rightarrow>
                is_windows H \<and> file_uri s \<and>
                list_ex (\<lambda>q. case q of PStr t \<Rightarrow> to_lower_case H t = to_lower_case H s | _ \<Rightarrow> False) source
            | _ \<Rightarrow> False)
      | _ \<Rightarrow> False)"

definition in_record :: "ck_host \<Rightarrow> string \<Rightarrow> (string \<times> ck_prim) list \<Rightarrow> bool" where
  "in_record H s fs \<longleftrightarrow>
     s \<in> set (map fst fs) \<or>
     (is_windows H \<and> file_uri s \<and> list_ex (\<lambda>f. to_lower_case H (fst f) = to_lower_case H s) fs)"

text \<open>An array as \<open>source\<close> is handled by the first case, so only records reach the property lookup.\<close>

definition ContextKeyInExpr_evaluate :: "ck_host \<Rightarrow> ck_context \<Rightarrow> string \<Rightarrow> string \<Rightarrow> bool" where
  "ContextKeyInExpr_evaluate H c key valueKey =
     (case c valueKey of
        VArray source \<Rightarrow> in_array H (c key) source
      | VRecord fs \<Rightarrow> (case c key of VPrim (PStr s) \<Rightarrow> in_record H s fs | _ \<Rightarrow> False)
      | VPrim _ \<Rightarrow> False)"

definition number_test :: "ck_host \<Rightarrow> ck_context \<Rightarrow> string \<Rightarrow> ck_prim \<Rightarrow> (js_number \<Rightarrow> js_number \<Rightarrow> bool) \<Rightarrow> bool" where
  "number_test H c key v test =
     (case v of PStr _ \<Rightarrow> False | _ \<Rightarrow> test (value_parse_float H (c key)) (to_number v))"

fun ck_evaluate :: "ck_host \<Rightarrow> ck_context \<Rightarrow> ck_expr \<Rightarrow> bool" where
  "ck_evaluate H c FalseExpr = False"
| "ck_evaluate H c TrueExpr = True"
| "ck_evaluate H c (DefinedExpr k) = truthy (c k)"
| "ck_evaluate H c (NotExpr k) = (\<not> truthy (c k))"
| "ck_evaluate H c (EqualsExpr k v) = loose_eq H (c k) v"
| "ck_evaluate H c (NotEqualsExpr k v) = (\<not> loose_eq H (c k) v)"
| "ck_evaluate H c (InExpr k v) = ContextKeyInExpr_evaluate H c k v"
| "ck_evaluate H c (NotInExpr k v) = (\<not> ContextKeyInExpr_evaluate H c k v)"
| "ck_evaluate H c (GreaterExpr k v) = number_test H c k v (\<lambda>a b. num_less b a)"
| "ck_evaluate H c (GreaterEqualsExpr k v) = number_test H c k v (\<lambda>a b. num_less b a \<or> num_eq a b)"
| "ck_evaluate H c (SmallerExpr k v) = number_test H c k v num_less"
| "ck_evaluate H c (SmallerEqualsExpr k v) = number_test H c k v (\<lambda>a b. num_less a b \<or> num_eq a b)"
| "ck_evaluate H c (RegexExpr k r) =
     (case r of None \<Rightarrow> False | Some re \<Rightarrow> regex_test H re (value_to_string H (c k)))"
| "ck_evaluate H c (NotRegexExpr k r) =
     (\<not> (case r of None \<Rightarrow> False | Some re \<Rightarrow> regex_test H re (value_to_string H (c k))))"
| "ck_evaluate H c (AndExpr es _) = list_all (ck_evaluate H c) es"
| "ck_evaluate H c (OrExpr es _) = list_ex (ck_evaluate H c) es"

section \<open>Creation of the leaves\<close>

definition ContextKeyDefinedExpr_create :: "ck_host \<Rightarrow> string \<Rightarrow> ck_expr" where
  "ContextKeyDefinedExpr_create H key =
     (case constant_values H key of
        Some constantValue \<Rightarrow> if constantValue then TrueExpr else FalseExpr
      | None \<Rightarrow> DefinedExpr key)"

definition ContextKeyNotExpr_create :: "ck_host \<Rightarrow> string \<Rightarrow> ck_expr" where
  "ContextKeyNotExpr_create H key =
     (case constant_values H key of
        Some constantValue \<Rightarrow> if constantValue then FalseExpr else TrueExpr
      | None \<Rightarrow> NotExpr key)"

definition ContextKeyEqualsExpr_create :: "ck_host \<Rightarrow> string \<Rightarrow> ck_prim \<Rightarrow> ck_expr" where
  "ContextKeyEqualsExpr_create H key v =
     (case v of
        PBool b \<Rightarrow> if b then ContextKeyDefinedExpr_create H key else ContextKeyNotExpr_create H key
      | _ \<Rightarrow>
          (case constant_values H key of
             Some constantValue \<Rightarrow> if v = PStr (if constantValue then ''true'' else ''false'') then TrueExpr else FalseExpr
           | None \<Rightarrow> EqualsExpr key v))"

definition ContextKeyNotEqualsExpr_create :: "ck_host \<Rightarrow> string \<Rightarrow> ck_prim \<Rightarrow> ck_expr" where
  "ContextKeyNotEqualsExpr_create H key v =
     (case v of
        PBool b \<Rightarrow> if b then ContextKeyNotExpr_create H key else ContextKeyDefinedExpr_create H key
      | _ \<Rightarrow>
          (case constant_values H key of
             Some constantValue \<Rightarrow> if v = PStr (if constantValue then ''true'' else ''false'') then FalseExpr else TrueExpr
           | None \<Rightarrow> NotEqualsExpr key v))"

definition ContextKeyInExpr_create :: "string \<Rightarrow> string \<Rightarrow> ck_expr" where
  "ContextKeyInExpr_create key valueKey = InExpr key valueKey"

definition ContextKeyNotInExpr_create :: "string \<Rightarrow> string \<Rightarrow> ck_expr" where
  "ContextKeyNotInExpr_create key valueKey = NotInExpr key valueKey"

definition withFloatOrStr :: "ck_prim \<Rightarrow> (ck_prim \<Rightarrow> ck_expr) \<Rightarrow> ck_expr" where
  "withFloatOrStr v callback =
     (case v of
        PStr s \<Rightarrow> callback (if parse_float s \<noteq> JsNaN then PNum (parse_float s) else v)
      | PNum _ \<Rightarrow> callback v
      | _ \<Rightarrow> FalseExpr)"

definition ContextKeyGreaterExpr_create :: "string \<Rightarrow> ck_prim \<Rightarrow> ck_expr" where
  "ContextKeyGreaterExpr_create key v = withFloatOrStr v (GreaterExpr key)"

definition ContextKeyGreaterEqualsExpr_create :: "string \<Rightarrow> ck_prim \<Rightarrow> ck_expr" where
  "ContextKeyGreaterEqualsExpr_create key v = withFloatOrStr v (GreaterEqualsExpr key)"

definition ContextKeySmallerExpr_create :: "string \<Rightarrow> ck_prim \<Rightarrow> ck_expr" where
  "ContextKeySmallerExpr_create key v = withFloatOrStr v (SmallerExpr key)"

definition ContextKeySmallerEqualsExpr_create :: "string \<Rightarrow> ck_prim \<Rightarrow> ck_expr" where
  "ContextKeySmallerEqualsExpr_create key v = withFloatOrStr v (SmallerEqualsExpr key)"

definition ContextKeyRegexExpr_create :: "string \<Rightarrow> RegExp option \<Rightarrow> ck_expr" where
  "ContextKeyRegexExpr_create key regexp = RegexExpr key regexp"

definition ContextKeyNotRegexExpr_create :: "string \<Rightarrow> RegExp option \<Rightarrow> ck_expr" where
  "ContextKeyNotRegexExpr_create key regexp = NotRegexExpr key regexp"

section \<open>Normalisation and negation\<close>

text \<open>
  \<open>ContextKeyAndExpr.create\<close>, \<open>ContextKeyOrExpr.create\<close> and \<open>negate\<close> call each other.  Each body below takes
  the calls it makes as an argument, and \<open>ck_run\<close> ties the knot with fuel: the outer None means that the
  fuel ran out or that a method was called on \<open>undefined\<close>; the inner None is the result \<open>undefined\<close>.
\<close>

datatype ck_call =
    CreateAnd "ck_expr option list" "ck_expr option" bool
  | CreateOr "ck_expr option list" "ck_expr option" bool
  | Negate ck_expr

type_synonym ck_engine = "ck_call \<Rightarrow> ck_expr option option"

fun omap :: "('a \<Rightarrow> 'b option) \<Rightarrow> 'a list \<Rightarrow> 'b list option" where
  "omap f [] = Some []"
| "omap f (x # xs) = Option.bind (f x) (\<lambda>y. Option.bind (omap f xs) (\<lambda>ys. Some (y # ys)))"

lemma omap_cong [fundef_cong]:
  "xs = ys \<Longrightarrow> (\<And>x. x \<in> set ys \<Longrightarrow> f x = g x) \<Longrightarrow> omap f xs = omap g ys"
  by (induction xs arbitrary: ys) auto

text \<open>A value on which a method is called next.\<close>

definition defined :: "'a option option \<Rightarrow> 'a option" where
  "defined r = Option.bind r id"

text \<open>The first loop of \<open>ContextKeyAndExpr._normalizeArr\<close>; None is the early return of \<open>false\<close>.\<close>

fun and_collect :: "ck_expr option list \<Rightarrow> ck_expr list \<Rightarrow> bool \<Rightarrow> (ck_expr list \<times> bool) option" where
  "and_collect [] expr hasTrue = Some (expr, hasTrue)"
| "and_collect (e # arr) expr hasTrue =
     (case e of
        None \<Rightarrow> and_collect arr expr hasTrue
      | Some TrueExpr \<Rightarrow> and_collect arr expr True
      | Some FalseExpr \<Rightarrow> None
      | Some (AndExpr es _) \<Rightarrow> and_collect arr (expr @ es) hasTrue
      | Some x \<Rightarrow> and_collect arr (expr @ [x]) hasTrue)"

fun or_collect :: "ck_expr option list \<Rightarrow> ck_expr list \<Rightarrow> bool \<Rightarrow> (ck_expr list \<times> bool) option" where
  "or_collect [] expr hasFalse = Some (expr, hasFalse)"
| "or_collect (e # arr) expr hasFalse =
     (case e of
        None \<Rightarrow> or_collect arr expr hasFalse
      | Some FalseExpr \<Rightarrow> or_collect arr expr True
      | Some TrueExpr \<Rightarrow> None
      | Some (OrExpr es _) \<Rightarrow> or_collect arr (expr @ es) hasFalse
      | Some x \<Rightarrow> or_collect arr (expr @ [x]) hasFalse)"

text \<open>\<open>if (expr[i - 1].equals(expr[i])) { expr.splice(i, 1); i--; }\<close>\<close>

fun eliminate_duplicates :: "ck_expr list \<Rightarrow> ck_expr list" where
  "eliminate_duplicates (x # y # es) =
     (if ck_equals x y then eliminate_duplicates (x # es) else x # eliminate_duplicates (y # es))"
| "eliminate_duplicates es = es"

text \<open>Whether some element's negation equals a later one.\<close>

fun opposite_pair :: "ck_engine \<Rightarrow> ck_expr list \<Rightarrow> bool option" where
  "opposite_pair call [] = Some False"
| "opposite_pair call (x # es) =
     (if es = [] then Some False
      else Option.bind (defined (call (Negate x)))
        (\<lambda>n. if list_ex (ck_equals n) es then Some True else opposite_pair call es))"

text \<open>Distributing a trailing disjunction over the element before it.\<close>

function and_distribute :: "ck_engine \<Rightarrow> bool \<Rightarrow> ck_expr list \<Rightarrow> ck_expr list option" where
  "and_distribute call extra expr =
     (if length expr > 1 then
        (case last expr of
           OrExpr els _ \<Rightarrow>
             let second = last (butlast expr); rest = butlast (butlast expr)
             in Option.bind (omap (\<lambda>el. call (CreateAnd [Some el, Some second] None extra)) els) (\<lambda>parts.
                Option.bind (call (CreateOr parts None (rest = []))) (\<lambda>resultElement.
                and_distribute call extra
                  (case resultElement of None \<Rightarrow> rest | Some e \<Rightarrow> js_sort ck_cmp (rest @ [e]))))
         | _ \<Rightarrow> Some expr)
      else Some expr)"
  by pat_completeness auto
termination by (relation "measure (\<lambda>(call, extra, expr). length expr)") (auto split: option.splits)

declare and_distribute.simps [simp del]

definition ContextKeyAndExpr_normalizeArr ::
    "ck_engine \<Rightarrow> ck_expr option list \<Rightarrow> ck_expr option \<Rightarrow> bool \<Rightarrow> ck_expr option option" where
  "ContextKeyAndExpr_normalizeArr call arr negated extraRedundantCheck =
     (case and_collect arr [] False of
        None \<Rightarrow> Some (Some FalseExpr)
      | Some (expr, hasTrue) \<Rightarrow>
          if expr = [] then Some (if hasTrue then Some TrueExpr else None)
          else if length expr = 1 then Some (Some (hd expr))
          else
            let expr = eliminate_duplicates (js_sort ck_cmp expr)
            in if length expr = 1 then Some (Some (hd expr))
               else Option.bind (and_distribute call extraRedundantCheck expr) (\<lambda>expr.
                 if length expr = 1 then Some (Some (hd expr))
                 else if extraRedundantCheck
                 then Option.bind (opposite_pair call expr)
                        (\<lambda>found. Some (Some (if found then FalseExpr else AndExpr expr negated)))
                 else Some (Some (AndExpr expr negated))))"

definition ContextKeyOrExpr_normalizeArr ::
    "ck_engine \<Rightarrow> ck_expr option list \<Rightarrow> ck_expr option \<Rightarrow> bool \<Rightarrow> ck_expr option option" where
  "ContextKeyOrExpr_normalizeArr call arr negated extraRedundantCheck =
     (case or_collect arr [] False of
        None \<Rightarrow> Some (Some TrueExpr)
      | Some (expr, hasFalse) \<Rightarrow>
          if expr = [] then Some (if hasFalse then Some FalseExpr else None)
          else
            let expr = js_sort ck_cmp expr
            in if length expr = 1 then Some (Some (hd expr))
               else
                 let expr = eliminate_duplicates expr
                 in if length expr = 1 then Some (Some (hd expr))
                    else if extraRedundantCheck
                    then Option.bind (opposite_pair call expr)
                           (\<lambda>found. Some (Some (if found then TrueExpr else OrExpr expr negated)))
                    else Some (Some (OrExpr expr negated)))"

fun getTerminals :: "ck_expr \<Rightarrow> ck_expr list" where
  "getTerminals (OrExpr es _) = es"
| "getTerminals e = [e]"

definition ContextKeyAndExpr_negate :: "ck_engine \<Rightarrow> ck_expr list \<Rightarrow> ck_expr option \<Rightarrow> ck_expr option option" where
  "ContextKeyAndExpr_negate call es negated =
     (case negated of
        Some n \<Rightarrow> Some (Some n)
      | None \<Rightarrow>
          Option.bind (omap (\<lambda>e. call (Negate e)) es) (\<lambda>res.
          call (CreateOr res (Some (AndExpr es None)) True)))"

text \<open>The loop that multiplies the first two of the negated disjuncts until one is left.\<close>

function negate_distribute :: "ck_engine \<Rightarrow> ck_expr option list \<Rightarrow> ck_expr option list option" where
  "negate_distribute call res =
     (case res of
        Some l # Some r # rest \<Rightarrow>
          Option.bind (omap (\<lambda>(left, right). call (CreateAnd [Some left, Some right] None False))
              (List.product (getTerminals l) (getTerminals r))) (\<lambda>all.
          Option.bind (call (CreateOr all None False)) (\<lambda>x. negate_distribute call (x # rest)))
      | _ # _ # _ \<Rightarrow> None
      | _ \<Rightarrow> Some res)"
  by pat_completeness auto
termination by (relation "measure (\<lambda>(call, res). length res)") auto

declare negate_distribute.simps [simp del]

definition ContextKeyOrExpr_negate :: "ck_engine \<Rightarrow> ck_expr list \<Rightarrow> ck_expr option \<Rightarrow> ck_expr option option" where
  "ContextKeyOrExpr_negate call es negated =
     (case negated of
        Some n \<Rightarrow> Some (Some n)
      | None \<Rightarrow>
          Option.bind (omap (\<lambda>e. call (Negate e)) es) (\<lambda>res.
          Option.bind (negate_distribute call res) (\<lambda>res.
          call (CreateOr res (Some (OrExpr es None)) True))))"

fun ck_negate :: "ck_host \<Rightarrow> ck_engine \<Rightarrow> ck_expr \<Rightarrow> ck_expr option option" where
  "ck_negate H call FalseExpr = Some (Some TrueExpr)"
| "ck_negate H call TrueExpr = Some (Some FalseExpr)"
| "ck_negate H call (DefinedExpr k) = Some (Some (ContextKeyNotExpr_create H k))"
| "ck_negate H call (NotExpr k) = Some (Some (ContextKeyDefinedExpr_create H k))"
| "ck_negate H call (EqualsExpr k v) = Some (Some (ContextKeyNotEqualsExpr_create H k v))"
| "ck_negate H call (NotEqualsExpr k v) = Some (Some (ContextKeyEqualsExpr_create H k v))"
| "ck_negate H call (InExpr k v) = Some (Some (ContextKeyNotInExpr_create k v))"
| "ck_negate H call (NotInExpr k v) = Some (Some (ContextKeyInExpr_create k v))"
| "ck_negate H call (GreaterExpr k v) = Some (Some (ContextKeySmallerEqualsExpr_create k v))"
| "ck_negate H call (GreaterEqualsExpr k v) = Some (Some (ContextKeySmallerExpr_create k v))"
| "ck_negate H call (SmallerExpr k v) = Some (Some (ContextKeyGreaterEqualsExpr_create k v))"
| "ck_negate H call (SmallerEqualsExpr k v) = Some (Some (ContextKeyGreaterExpr_create k v))"
| "ck_negate H call (RegexExpr k r) = Some (Some (ContextKeyNotRegexExpr_create k r))"
| "ck_negate H call (NotRegexExpr k r) = Some (Some (RegexExpr k r))"
| "ck_negate H call (AndExpr es n) = ContextKeyAndExpr_negate call es n"
| "ck_negate H call (OrExpr es n) = ContextKeyOrExpr_negate call es n"

fun ck_run :: "ck_host \<Rightarrow> nat \<Rightarrow> ck_engine" where
  "ck_run H 0 c = None"
| "ck_run H (Suc n) c =
     (case c of
        CreateAnd arr negated extra \<Rightarrow> ContextKeyAndExpr_normalizeArr (ck_run H n) arr negated extra
      | CreateOr arr negated extra \<Rightarrow> ContextKeyOrExpr_normalizeArr (ck_run H n) arr negated extra
      | Negate e \<Rightarrow> ck_negate H (ck_run H n) e)"

definition ContextKeyExpr_and :: "ck_host \<Rightarrow> nat \<Rightarrow> ck_expr option list \<Rightarrow> ck_expr option option" where
  "ContextKeyExpr_and H n exprs = ck_run H n (CreateAnd exprs None True)"

definition ContextKeyExpr_or :: "ck_host \<Rightarrow> nat \<Rightarrow> ck_expr option list \<Rightarrow> ck_expr option option" where
  "ContextKeyExpr_or H n exprs = ck_run H n (CreateOr exprs None True)"

section \<open>Constant substitution\<close>

definition substitute_boolean :: "ck_host \<Rightarrow> string \<Rightarrow> (bool \<Rightarrow> ck_expr) \<Rightarrow> ck_expr \<Rightarrow> bool \<times> ck_expr option" where
  "substitute_boolean H key f this =
     (case constant_values H key of
        Some b \<Rightarrow> (True, Some (f b))
      | None \<Rightarrow> (False, Some this))"

definition bool_expr :: "bool \<Rightarrow> ck_expr" where
  "bool_expr b = (if b then TrueExpr else FalseExpr)"

text \<open>
  \<open>substituteConstants\<close>: whether the result is another object than the receiver, and the result.  A node whose
  children all stay the same object answers itself.
\<close>

fun ck_substituteConstants :: "ck_host \<Rightarrow> nat \<Rightarrow> ck_expr \<Rightarrow> (bool \<times> ck_expr option) option" where
  "ck_substituteConstants H n (DefinedExpr k) = Some (substitute_boolean H k bool_expr (DefinedExpr k))"
| "ck_substituteConstants H n (NotExpr k) = Some (substitute_boolean H k (\<lambda>b. bool_expr (\<not> b)) (NotExpr k))"
| "ck_substituteConstants H n (EqualsExpr k v) =
     Some (substitute_boolean H k (\<lambda>b. bool_expr (v = PStr (if b then ''true'' else ''false''))) (EqualsExpr k v))"
| "ck_substituteConstants H n (NotEqualsExpr k v) =
     Some (substitute_boolean H k (\<lambda>b. bool_expr (v \<noteq> PStr (if b then ''true'' else ''false''))) (NotEqualsExpr k v))"
| "ck_substituteConstants H n (AndExpr es negated) =
     Option.bind (omap (ck_substituteConstants H n) es) (\<lambda>rs.
       if list_ex fst rs then map_option (Pair True) (ck_run H n (CreateAnd (map snd rs) negated False))
       else Some (False, Some (AndExpr es negated)))"
| "ck_substituteConstants H n (OrExpr es negated) =
     Option.bind (omap (ck_substituteConstants H n) es) (\<lambda>rs.
       if list_ex fst rs then map_option (Pair True) (ck_run H n (CreateOr (map snd rs) negated False))
       else Some (False, Some (OrExpr es negated)))"
| "ck_substituteConstants H n e = Some (False, Some e)"

definition expressionsAreEqualWithConstantSubstitution ::
    "ck_host \<Rightarrow> nat \<Rightarrow> ck_expr option \<Rightarrow> ck_expr option \<Rightarrow> bool option" where
  "expressionsAreEqualWithConstantSubstitution H n a b =
     (let subst = (\<lambda>e. case e of None \<Rightarrow> Some None | Some x \<Rightarrow> map_option snd (ck_substituteConstants H n x))
      in Option.bind (subst a) (\<lambda>aExpr. Option.bind (subst b) (\<lambda>bExpr.
         case (aExpr, bExpr) of
           (None, None) \<Rightarrow> Some True
         | (Some x, Some y) \<Rightarrow> Some (ck_equals x y)
         | _ \<Rightarrow> Some False)))"

section \<open>Keys and serialisation\<close>

fun ck_keys :: "ck_expr \<Rightarrow> string list" where
  "ck_keys FalseExpr = []"
| "ck_keys TrueExpr = []"
| "ck_keys (DefinedExpr k) = [k]"
| "ck_keys (NotExpr k) = [k]"
| "ck_keys (EqualsExpr k v) = [k]"
| "ck_keys (NotEqualsExpr k v) = [k]"
| "ck_keys (InExpr k v) = [k, v]"
| "ck_keys (NotInExpr k v) = [k, v]"
| "ck_keys (GreaterExpr k v) = [k]"
| "ck_keys (GreaterEqualsExpr k v) = [k]"
| "ck_keys (SmallerExpr k v) = [k]"
| "ck_keys (SmallerEqualsExpr k v) = [k]"
| "ck_keys (RegexExpr k r) = [k]"
| "ck_keys (NotRegexExpr k r) = [k]"
| "ck_keys (AndExpr es m) = concat (map ck_keys es)"
| "ck_keys (OrExpr es m) = concat (map ck_keys es)"

definition quote :: "string" where
  "quote = [CHR 0x27]"

definition regex_serialize :: "string \<Rightarrow> RegExp option \<Rightarrow> string" where
  "regex_serialize k r =
     k @ '' =~ '' @ (case r of None \<Rightarrow> ''/invalid/'' | Some re \<Rightarrow> ''/'' @ re_source re @ ''/'' @ re_flags re)"

fun ck_serialize :: "ck_host \<Rightarrow> ck_expr \<Rightarrow> string" where
  "ck_serialize H FalseExpr = ''false''"
| "ck_serialize H TrueExpr = ''true''"
| "ck_serialize H (DefinedExpr k) = k"
| "ck_serialize H (NotExpr k) = ''!'' @ k"
| "ck_serialize H (EqualsExpr k v) = k @ '' == '' @ quote @ prim_to_string H v @ quote"
| "ck_serialize H (NotEqualsExpr k v) = k @ '' != '' @ quote @ prim_to_string H v @ quote"
| "ck_serialize H (InExpr k v) = k @ '' in '' @ quote @ v @ quote"
| "ck_serialize H (NotInExpr k v) = k @ '' not in '' @ quote @ v @ quote"
| "ck_serialize H (GreaterExpr k v) = k @ '' > '' @ prim_to_string H v"
| "ck_serialize H (GreaterEqualsExpr k v) = k @ '' >= '' @ prim_to_string H v"
| "ck_serialize H (SmallerExpr k v) = k @ '' < '' @ prim_to_string H v"
| "ck_serialize H (SmallerEqualsExpr k v) = k @ '' <= '' @ prim_to_string H v"
| "ck_serialize H (RegexExpr k r) = regex_serialize k r"
| "ck_serialize H (NotRegexExpr k r) = ''!('' @ regex_serialize k r @ '')''"
| "ck_serialize H (AndExpr es m) = join_with '' && '' (map (ck_serialize H) es)"
| "ck_serialize H (OrExpr es m) = join_with '' || '' (map (ck_serialize H) es)"

section \<open>Implication\<close>

function allElementsIncluded :: "ck_expr list \<Rightarrow> ck_expr list \<Rightarrow> bool" where
  "allElementsIncluded [] q = True"
| "allElementsIncluded (p # ps) [] = False"
| "allElementsIncluded (p # ps) (q # qs) =
     (if ck_cmp p q < 0 then False
      else if ck_cmp p q = 0 then allElementsIncluded ps qs
      else allElementsIncluded (p # ps) qs)"
  by pat_completeness auto
termination by (relation "measure (\<lambda>(p, q). length q)") auto

text \<open>The field \<open>expr\<close> of a conjunction or disjunction.\<close>

fun expr_terms :: "ck_expr \<Rightarrow> ck_expr list" where
  "expr_terms (AndExpr es _) = es"
| "expr_terms (OrExpr es _) = es"
| "expr_terms _ = []"

lemma size_expr_terms: "x \<in> set (expr_terms e) \<Longrightarrow> size x < size e"
proof -
  have "x \<in> set es \<Longrightarrow> size x < Suc (size_list size es + m)" for es m
    using size_list_estimation' [of x es "size x" size] by simp
  then show "x \<in> set (expr_terms e) \<Longrightarrow> size x < size e" by (cases e) auto
qed

function ck_implies :: "ck_expr \<Rightarrow> ck_expr \<Rightarrow> bool" where
  "ck_implies p q =
     (if expr_type p = 0 \<or> expr_type q = 1 then True
      else if expr_type p = 9 then
        (if expr_type q = 9 then allElementsIncluded (expr_terms p) (expr_terms q) else False)
      else if expr_type q = 9 then list_ex (\<lambda>element. ck_implies p element) (expr_terms q)
      else if expr_type p = 6 then
        (if expr_type q = 6 then allElementsIncluded (expr_terms q) (expr_terms p)
         else list_ex (\<lambda>element. ck_implies element q) (expr_terms p))
      else ck_equals p q)"
  by pat_completeness auto
termination
  by (relation "measure (\<lambda>(p, q). size p + size q)") (auto dest: size_expr_terms)

declare ck_implies.simps [simp del]

end
