(* ===== verification/Context_Termination.thy ===== *)
theory Context_Termination
  imports Context_Laws
begin

text \<open>
  The mutual recursion of \<open>create\<close> and \<open>negate\<close> in \<open>contextkey.ts\<close> ends on every well-formed expression.  The
  distribution loop is measured by the number of products the full expansion has; negation is measured by
  how deep memos hold memos, since the terms of a freshly negated expression are flat.
\<close>

section \<open>Calls that return\<close>

text \<open>A call returns when all fuel from some point on gives the same result.\<close>

definition returns :: "ck_host \<Rightarrow> ck_call \<Rightarrow> ck_expr option \<Rightarrow> bool" where
  "returns H q r \<longleftrightarrow> (\<forall>\<^sub>F n in sequentially. ck_run H n q = Some r)"

lemma returns_step:
  assumes "\<forall>\<^sub>F n in sequentially. ck_run H (Suc n) q = Some r"
  shows "returns H q r"
  unfolding returns_def using assms by (rule iffD1 [OF eventually_sequentially_Suc])

text \<open>A list of calls that all return expressions.\<close>

lemma omap_eventually:
  assumes "\<And>x. x \<in> set xs \<Longrightarrow> \<exists>e. (\<forall>\<^sub>F n in sequentially. f n x = Some (Some e)) \<and> P x e"
  shows "\<exists>es. (\<forall>\<^sub>F n in sequentially. omap (f n) xs = Some (map Some es)) \<and> length es = length xs \<and> list_all2 P xs es"
  using assms
proof (induction xs)
  case (Cons x xs)
  obtain e where e: "\<forall>\<^sub>F n in sequentially. f n x = Some (Some e)" "P x e" using Cons.prems by auto
  obtain es where es: "\<forall>\<^sub>F n in sequentially. omap (f n) xs = Some (map Some es)" "length es = length xs" "list_all2 P xs es"
    using Cons by auto
  have "\<forall>\<^sub>F n in sequentially. omap (f n) (x # xs) = Some (map Some (e # es))"
    using e(1) es(1) by eventually_elim simp
  then show ?case using e(2) es(2,3) by (metis length_Cons list_all2_Cons)
qed simp

lemma list_all2_constant: "list_all2 (\<lambda>_. P) xs es \<Longrightarrow> \<forall>e \<in> set es. P e"
  by (induction xs es rule: list_all2_induct) auto

lemma opposite_pair_eventually:
  assumes "\<forall>e \<in> set es. \<exists>r. returns H (Negate e) (Some r)"
  shows "\<exists>b. \<forall>\<^sub>F n in sequentially. opposite_pair (ck_run H n) es = Some b"
  using assms
proof (induction es)
  case (Cons x es)
  obtain r where r: "\<forall>\<^sub>F n in sequentially. ck_run H n (Negate x) = Some (Some r)"
    using Cons.prems by (auto simp: returns_def)
  obtain b where b: "\<forall>\<^sub>F n in sequentially. opposite_pair (ck_run H n) es = Some b" using Cons by auto
  have "\<forall>\<^sub>F n in sequentially. opposite_pair (ck_run H n) (x # es) =
      Some (if es = [] then False else if list_ex (ck_equals r) es then True else b)"
    using r b by eventually_elim (simp add: defined_def)
  then show ?case by blast
qed auto

section \<open>The number of products\<close>

fun weight :: "ck_expr \<Rightarrow> nat" where
  "weight (AndExpr es _) = prod_list (map weight es)"
| "weight (OrExpr es _) = Suc (sum_list (map weight es))"
| "weight _ = 1"

definition products :: "ck_expr list \<Rightarrow> nat" where
  "products es = prod_list (map weight es)"

lemma products_simps [simp]:
  "products [] = 1" "products (e # es) = weight e * products es" "products (es @ fs) = products es * products fs"
  by (simp_all add: products_def)

lemma prod_list_pos: "\<forall>x \<in> set xs. (0 :: nat) < f x \<Longrightarrow> 0 < prod_list (map f xs)"
  by (induction xs) auto

lemma weight_pos: "0 < weight e"
  by (induction e rule: weight.induct) (auto simp: prod_list_pos)

lemma products_pos: "0 < products es"
  by (induction es) (auto simp: weight_pos)

lemma js_sort_Nil [simp]: "js_sort cmp es = [] \<longleftrightarrow> es = []"
  by (simp flip: length_0_conv)

lemma products_sort: "products (js_sort ck_cmp es) = products es"
  unfolding products_def by (simp add: mset_js_sort flip: prod_mset_prod_list)

lemma products_duplicates: "products (eliminate_duplicates es) \<le> products es"
proof (induction es rule: eliminate_duplicates.induct)
  case (1 x y es)
  have "weight x * products es \<le> weight x * (weight y * products es)"
    using weight_pos [of y] by (simp add: Suc_leI)
  then show ?case using 1 by (auto intro: order_trans)
qed auto

lemma sum_sort: "sum_list (map weight (js_sort ck_cmp es)) = sum_list (map weight es)"
  by (simp add: mset_js_sort flip: sum_mset_sum_list)

lemma sum_duplicates: "sum_list (map weight (eliminate_duplicates es)) \<le> sum_list (map weight es)"
  by (induction es rule: eliminate_duplicates.induct) auto

lemma set_eliminate_duplicates: "set (eliminate_duplicates es) \<subseteq> set es"
  by (induction es rule: eliminate_duplicates.induct) auto

lemma eliminate_duplicates_Nil [simp]: "eliminate_duplicates es = [] \<longleftrightarrow> es = []"
  by (induction es rule: eliminate_duplicates.induct) auto

lemma weight_and_terms: "products (and_terms e) = weight e"
  by (cases e) (auto simp: products_def)

lemma weight_getTerminals: "sum_list (map weight (getTerminals e)) \<le> weight e"
  by (cases e) auto

lemma and_collect_weight:
  "and_collect arr expr t = Some (expr', t') \<Longrightarrow> products expr' \<le> products expr * products (present arr)"
proof (induction arr arbitrary: expr t)
  case (Cons e arr)
  show ?case
  proof (cases e)
    case None
    then show ?thesis using Cons by simp
  next
    case (Some x)
    then show ?thesis using Cons.IH [of expr True] Cons.IH [of "expr @ and_terms x" t] Cons.prems
      by (auto simp: weight_and_terms mult.assoc split: if_splits)
  qed
qed simp

lemma or_collect_weight:
  "or_collect arr expr t = Some (expr', t') \<Longrightarrow>
     sum_list (map weight expr') \<le> sum_list (map weight expr) + sum_list (map weight (present arr))"
proof (induction arr arbitrary: expr t)
  case (Cons e arr)
  show ?case
  proof (cases e)
    case None
    then show ?thesis using Cons by simp
  next
    case (Some x)
    then show ?thesis
      using Cons.IH [of expr True] Cons.IH [of "expr @ getTerminals x" t] Cons.prems weight_getTerminals [of x]
      by (auto split: if_splits)
  qed
qed simp

section \<open>Calls over a class of expressions\<close>

text \<open>The expressions collected satisfy what the terms of the arguments satisfy.\<close>

lemma and_collect_all:
  "and_collect arr expr t = Some (expr', t') \<Longrightarrow> \<forall>x \<in> set (present arr). \<forall>e \<in> set (and_terms x). C e \<Longrightarrow>
     \<forall>e \<in> set expr. C e \<Longrightarrow> \<forall>e \<in> set expr'. C e"
proof (induction arr arbitrary: expr t)
  case (Cons e arr)
  show ?case
  proof (cases e)
    case None
    then show ?thesis using Cons.IH [of expr t] Cons.prems by auto
  next
    case (Some x)
    then show ?thesis using Cons.IH [of expr True] Cons.IH [of "expr @ and_terms x" t] Cons.prems
      by (auto split: if_splits)
  qed
qed simp

lemma or_collect_all:
  "or_collect arr expr t = Some (expr', t') \<Longrightarrow> \<forall>x \<in> set (present arr). \<forall>e \<in> set (getTerminals x). C e \<Longrightarrow>
     \<forall>e \<in> set expr. C e \<Longrightarrow> \<forall>e \<in> set expr'. C e"
proof (induction arr arbitrary: expr t)
  case (Cons e arr)
  show ?case
  proof (cases e)
    case None
    then show ?thesis using Cons.IH [of expr t] Cons.prems by auto
  next
    case (Some x)
    then show ?thesis using Cons.IH [of expr True] Cons.IH [of "expr @ getTerminals x" t] Cons.prems
      by (auto split: if_splits)
  qed
qed simp

lemma or_collect_empty:
  "or_collect arr expr t = Some (expr', t') \<Longrightarrow> \<forall>x \<in> set (present arr). getTerminals x \<noteq> [] \<Longrightarrow> expr' = [] \<Longrightarrow>
     expr = [] \<and> (t' \<or> present arr = [] \<and> t' = t)"
proof (induction arr arbitrary: expr t)
  case (Cons e arr)
  show ?case
  proof (cases e)
    case None
    then show ?thesis using Cons.IH [of expr t] Cons.prems by auto
  next
    case (Some x)
    then show ?thesis using Cons.IH [of expr True] Cons.IH [of "expr @ getTerminals x" t] Cons.prems
      by (auto split: if_splits)
  qed
qed simp

lemma and_collect_empty:
  "and_collect arr expr t = Some (expr', t') \<Longrightarrow> \<forall>x \<in> set (present arr). and_terms x \<noteq> [] \<Longrightarrow> expr' = [] \<Longrightarrow>
     expr = [] \<and> (t' \<or> present arr = [] \<and> t' = t)"
proof (induction arr arbitrary: expr t)
  case (Cons e arr)
  show ?case
  proof (cases e)
    case None
    then show ?thesis using Cons.IH [of expr t] Cons.prems by auto
  next
    case (Some x)
    then show ?thesis using Cons.IH [of expr True] Cons.IH [of "expr @ and_terms x" t] Cons.prems
      by (auto split: if_splits)
  qed
qed simp

text \<open>
  \<open>create\<close> of a disjunction only needs the negations of its terms.  Its result is a constant, one term, or a
  disjunction of terms.
\<close>

lemma CreateOr_returns:
  assumes "\<forall>x \<in> set (present arr). getTerminals x \<noteq> [] \<and> (\<forall>e \<in> set (getTerminals x). C e)"
    and "\<And>e. C e \<Longrightarrow> \<exists>r. returns H (Negate e) (Some r)" and "present arr \<noteq> []"
  shows "\<exists>e. returns H (CreateOr arr m x) (Some e) \<and> weight e \<le> Suc (sum_list (map weight (present arr))) \<and>
    (e = TrueExpr \<or> e = FalseExpr \<or> C e \<or> (\<exists>es. e = OrExpr es m \<and> es \<noteq> [] \<and> (\<forall>e \<in> set es. C e)))"
proof (cases "or_collect arr [] False")
  case None
  then have "\<forall>\<^sub>F n in sequentially. ck_run H (Suc n) (CreateOr arr m x) = Some (Some TrueExpr)"
    by (simp add: ContextKeyOrExpr_normalizeArr_def)
  then show ?thesis by (intro exI [of _ TrueExpr]) (auto intro: returns_step)
next
  case (Some p)
  obtain expr t where p: "p = (expr, t)" by force
  have all: "\<forall>e \<in> set expr. C e" by (rule or_collect_all [OF Some [unfolded p]]) (use assms(1) in auto)
  have weight: "sum_list (map weight expr) \<le> sum_list (map weight (present arr))"
    using or_collect_weight [OF Some [unfolded p]] by simp
  have empty: "t" if "expr = []" using or_collect_empty [OF Some [unfolded p]] that assms(1,3) by auto
  define s where "s = js_sort ck_cmp expr"
  define es where "es = eliminate_duplicates s"
  have s: "set s = set expr" "s = [] \<longleftrightarrow> expr = []" "length s = length expr"
    "sum_list (map weight s) = sum_list (map weight expr)"
    by (simp_all add: s_def sum_sort flip: length_0_conv)
  have es: "set es \<subseteq> set expr" "es = [] \<longleftrightarrow> expr = []" "sum_list (map weight es) \<le> sum_list (map weight expr)"
    using set_eliminate_duplicates [of s] sum_duplicates [of s] by (simp_all add: es_def s)
  obtain b where b: "\<forall>\<^sub>F n in sequentially. opposite_pair (ck_run H n) es = Some b"
    using opposite_pair_eventually [of es H] assms(2) all es(1) by blast
  define r where "r = (if expr = [] then FalseExpr else if length s = 1 then hd s else if length es = 1 then hd es
    else if x \<and> b then TrueExpr else OrExpr es m)"
  have "\<forall>\<^sub>F n in sequentially. ck_run H (Suc n) (CreateOr arr m x) = Some (Some r)"
    using b
  proof eventually_elim
    case (elim n)
    then show ?case using Some p empty
      by (auto simp: ContextKeyOrExpr_normalizeArr_def Let_def r_def simp flip: s_def es_def)
  qed
  then have "returns H (CreateOr arr m x) (Some r)" by (rule returns_step)
  moreover have "weight r \<le> Suc (sum_list (map weight (present arr))) \<and>
      (r = TrueExpr \<or> r = FalseExpr \<or> C r \<or> (\<exists>es. r = OrExpr es m \<and> es \<noteq> [] \<and> (\<forall>e \<in> set es. C e)))"
  proof -
    have hd: "C (hd ys) \<and> weight (hd ys) \<le> sum_list (map weight ys)" if "ys \<noteq> []" "set ys \<subseteq> set expr" for ys
      using that all by (cases ys) auto
    show ?thesis
      using hd [of s] hd [of es] s es all weight by (auto simp: r_def)
  qed
  ultimately show ?thesis by blast
qed

text \<open>A class closed under taking terms and under building nodes without memo.\<close>

definition node_closed :: "(ck_expr \<Rightarrow> bool) \<Rightarrow> bool" where
  "node_closed C \<longleftrightarrow>
     (\<forall>es m. C (AndExpr es m) \<or> C (OrExpr es m) \<longrightarrow> es \<noteq> [] \<and> (\<forall>e \<in> set es. C e)) \<and> C TrueExpr \<and> C FalseExpr \<and>
     (\<forall>es. es \<noteq> [] \<and> (\<forall>e \<in> set es. C e) \<longrightarrow> C (AndExpr es None) \<and> C (OrExpr es None))"

lemma node_closed_node:
  assumes "node_closed C"
  shows "C (AndExpr es m) \<Longrightarrow> es \<noteq> [] \<and> (\<forall>e \<in> set es. C e)" and "C (OrExpr es m) \<Longrightarrow> es \<noteq> [] \<and> (\<forall>e \<in> set es. C e)"
  using assms unfolding node_closed_def by blast+

lemma node_closed_terms:
  assumes "node_closed C" and "C e"
  shows "getTerminals e \<noteq> [] \<and> (\<forall>x \<in> set (getTerminals e). C x)" and "and_terms e \<noteq> [] \<and> (\<forall>x \<in> set (and_terms e). C x)"
proof -
  show "getTerminals e \<noteq> [] \<and> (\<forall>x \<in> set (getTerminals e). C x)"
  proof (cases "\<exists>es m. e = OrExpr es m")
    case True
    then obtain es m where e: "e = OrExpr es m" by blast
    show ?thesis using node_closed_node(2) [OF assms(1) assms(2) [unfolded e]] unfolding e getTerminals.simps .
  next
    case False
    then have "getTerminals e = [e]" by (cases e) auto
    then show ?thesis using assms(2) by simp
  qed
  show "and_terms e \<noteq> [] \<and> (\<forall>x \<in> set (and_terms e). C x)"
  proof (cases "\<exists>es m. e = AndExpr es m")
    case True
    then obtain es m where e: "e = AndExpr es m" by blast
    show ?thesis using node_closed_node(1) [OF assms(1) assms(2) [unfolded e]] unfolding e and_terms.simps .
  next
    case False
    then have "and_terms e = [e]" by (cases e) auto
    then show ?thesis using assms(2) by simp
  qed
qed

lemma node_closed_built:
  assumes "node_closed C" shows "C TrueExpr" and "C FalseExpr"
    and "es \<noteq> [] \<Longrightarrow> \<forall>e \<in> set es. C e \<Longrightarrow> C (AndExpr es None)" and "es \<noteq> [] \<Longrightarrow> \<forall>e \<in> set es. C e \<Longrightarrow> C (OrExpr es None)"
  using assms unfolding node_closed_def by blast+

lemma CreateOr_returns_closed:
  assumes "node_closed C" and "\<And>e. C e \<Longrightarrow> \<exists>r. returns H (Negate e) (Some r)" and "\<forall>e \<in> set es. C e" and "es \<noteq> []"
  shows "\<exists>e. returns H (CreateOr (map Some es) None x) (Some e) \<and> C e \<and> weight e \<le> Suc (sum_list (map weight es))"
proof -
  obtain e where e: "returns H (CreateOr (map Some es) None x) (Some e)" "weight e \<le> Suc (sum_list (map weight es))"
    "e = TrueExpr \<or> e = FalseExpr \<or> C e \<or> (\<exists>es. e = OrExpr es None \<and> es \<noteq> [] \<and> (\<forall>e \<in> set es. C e))"
  proof (rule exE [OF CreateOr_returns [of "map Some es" C H None x]])
    show "\<forall>x \<in> set (present (map Some es)). getTerminals x \<noteq> [] \<and> (\<forall>e \<in> set (getTerminals x). C e)"
      using assms(3) node_closed_terms(1) [OF assms(1)] unfolding present_map_Some by blast
  qed (use assms in auto)
  then show ?thesis using node_closed_built [OF assms(1)] by blast
qed

definition pairs_return :: "ck_host \<Rightarrow> (ck_expr \<Rightarrow> bool) \<Rightarrow> bool \<Rightarrow> nat \<Rightarrow> bool" where
  "pairs_return H C x bound \<longleftrightarrow>
     (\<forall>a b. C a \<longrightarrow> C b \<longrightarrow> weight a * weight b < bound \<longrightarrow>
       (\<exists>e. returns H (CreateAnd [Some a, Some b] None x) (Some e) \<and> C e \<and> weight e \<le> weight a * weight b))"

lemma pairs_returnD:
  assumes "pairs_return H C x bound" and "C a" and "C b" and "weight a * weight b < bound"
  shows "\<exists>e. returns H (CreateAnd [Some a, Some b] None x) (Some e) \<and> C e \<and> weight e \<le> weight a * weight b"
  using assms(1) [unfolded pairs_return_def, rule_format, OF assms(2-4)] .

lemma list_all2_weights:
  "list_all2 (\<lambda>a e. C e \<and> weight e \<le> weight a * w) es parts \<Longrightarrow>
     (\<forall>e \<in> set parts. C e) \<and> sum_list (map weight parts) \<le> sum_list (map weight es) * w"
  by (induction es parts rule: list_all2_induct) (auto simp: distrib_right)

text \<open>One product over a disjunction.\<close>

lemma distribute_returns:
  assumes "node_closed C" and "\<And>e. C e \<Longrightarrow> \<exists>r. returns H (Negate e) (Some r)" and "pairs_return H C x bound"
    and "C (OrExpr els m)" and "C second" and "weight (OrExpr els m) * weight second \<le> bound"
  shows "\<exists>e parts. (\<forall>\<^sub>F n in sequentially. omap (\<lambda>el. ck_run H n (CreateAnd [Some el, Some second] None x)) els = Some parts) \<and>
    (\<forall>\<^sub>F n in sequentially. ck_run H n (CreateOr parts None y) = Some (Some e)) \<and> C e \<and>
    weight e \<le> weight (OrExpr els m) * weight second"
proof -
  have els: "els \<noteq> []" "\<forall>e \<in> set els. C e" using node_closed_node(2) [OF assms(1,4)] by simp_all
  have each: "\<exists>e. (\<forall>\<^sub>F n in sequentially. ck_run H n (CreateAnd [Some el, Some second] None x) = Some (Some e)) \<and>
      C e \<and> weight e \<le> weight el * weight second" if "el \<in> set els" for el
  proof -
    have "weight el < weight (OrExpr els m)" using member_le_sum_list [of "weight el" "map weight els"] that by simp
    then have "weight el * weight second < bound"
      using assms(6) weight_pos [of second] by (meson mult_less_mono1 order_less_le_trans)
    from pairs_returnD [OF assms(3) bspec [OF els(2) that] assms(5) this] show ?thesis unfolding returns_def by blast
  qed
  obtain parts where ys: "\<forall>\<^sub>F n in sequentially. omap (\<lambda>el. ck_run H n (CreateAnd [Some el, Some second] None x)) els = Some (map Some parts)"
    and len: "length parts = length els" and "list_all2 (\<lambda>el e. C e \<and> weight e \<le> weight el * weight second) els parts"
    using omap_eventually [of els "\<lambda>n el. ck_run H n (CreateAnd [Some el, Some second] None x)"
        "\<lambda>el e. C e \<and> weight e \<le> weight el * weight second"] each by blast
  then have parts: "\<forall>e \<in> set parts. C e" "sum_list (map weight parts) \<le> sum_list (map weight els) * weight second"
    using list_all2_weights by blast+
  have "parts \<noteq> []" using len els(1) by auto
  then obtain e where "returns H (CreateOr (map Some parts) None y) (Some e)" "C e" "weight e \<le> Suc (sum_list (map weight parts))"
    using CreateOr_returns_closed [OF assms(1,2) parts(1)] by blast
  moreover have "Suc (sum_list (map weight parts)) \<le> weight (OrExpr els m) * weight second"
  proof -
    have "weight (OrExpr els m) * weight second = weight second + sum_list (map weight els) * weight second" by simp
    then show ?thesis using parts(2) weight_pos [of second] by linarith
  qed
  ultimately have "C e \<and> weight e \<le> weight (OrExpr els m) * weight second" by linarith
  then show ?thesis using ys(1) \<open>returns H (CreateOr (map Some parts) None y) (Some e)\<close> unfolding returns_def by blast
qed

lemma split_last_two:
  assumes "length es > 1"
  shows "es = butlast (butlast es) @ [last (butlast es), last es]"
proof -
  have "es \<noteq> []" "butlast es \<noteq> []" using assms by (cases es rule: rev_cases; auto)+
  then have "es = (butlast (butlast es) @ [last (butlast es)]) @ [last es]"
    using append_butlast_last_id [of es] append_butlast_last_id [of "butlast es"] by simp
  then show ?thesis by simp
qed

lemma and_distribute_step:
  "and_distribute call x (rest @ [second, OrExpr els m]) =
     Option.bind (omap (\<lambda>el. call (CreateAnd [Some el, Some second] None x)) els) (\<lambda>parts.
     Option.bind (call (CreateOr parts None (rest = []))) (\<lambda>resultElement.
     and_distribute call x (case resultElement of None \<Rightarrow> rest | Some e \<Rightarrow> js_sort ck_cmp (rest @ [e]))))"
  by (subst and_distribute.simps) (simp add: butlast_append)

lemma and_distribute_stop:
  "length es \<le> 1 \<or> (\<forall>els m. last es \<noteq> OrExpr els m) \<Longrightarrow> and_distribute call x es = Some es"
  by (subst and_distribute.simps) (auto split: ck_expr.splits)

lemma and_distribute_returns:
  assumes "node_closed C" and "\<And>e. C e \<Longrightarrow> \<exists>r. returns H (Negate e) (Some r)" and "pairs_return H C x bound"
    and "\<forall>e \<in> set es. C e" and "es \<noteq> []" and "products es \<le> bound"
  shows "\<exists>fs. (\<forall>\<^sub>F n in sequentially. and_distribute (ck_run H n) x es = Some fs) \<and> fs \<noteq> [] \<and> (\<forall>e \<in> set fs. C e) \<and>
    products fs \<le> products es"
  using assms(4-6)
proof (induction "length es" arbitrary: es rule: less_induct)
  case less
  show ?case
  proof (cases "length es > 1 \<and> (\<exists>els m. last es = OrExpr els m)")
    case False
    then have "and_distribute call x es = Some es" for call by (intro and_distribute_stop) auto
    then show ?thesis using less.prems by (intro exI [of _ es]) simp
  next
    case True
    then obtain els m rest second where es: "es = rest @ [second, OrExpr els m]" using split_last_two [of es] by metis
    have C: "C (OrExpr els m)" "C second" using less.prems(1) by (simp_all add: es)
    have "weight (OrExpr els m) * weight second \<le> products es"
      using products_pos [of rest] by (simp add: es mult.commute Suc_leI del: weight.simps)
    then have le: "weight (OrExpr els m) * weight second \<le> bound" using less.prems(3) by linarith
    obtain e parts where e: "\<forall>\<^sub>F n in sequentially. omap (\<lambda>el. ck_run H n (CreateAnd [Some el, Some second] None x)) els = Some parts"
      "\<forall>\<^sub>F n in sequentially. ck_run H n (CreateOr parts None (rest = [])) = Some (Some e)"
      "C e" "weight e \<le> weight (OrExpr els m) * weight second"
      using distribute_returns [OF assms(1-3) C le] by blast
    define next_es where "next_es = js_sort ck_cmp (rest @ [e])"
    have next_es: "length next_es < length es" "next_es \<noteq> []" "set next_es = insert e (set rest)" "products next_es = products rest * weight e"
      by (simp_all add: next_es_def es products_sort flip: length_0_conv)
    have le': "products next_es \<le> products es"
      using e(4) by (simp add: next_es es mult.commute del: weight.simps)
    obtain fs where fs: "\<forall>\<^sub>F n in sequentially. and_distribute (ck_run H n) x next_es = Some fs" "fs \<noteq> []" "\<forall>e \<in> set fs. C e"
      "products fs \<le> products next_es"
      using less.hyps [OF next_es(1)] next_es(2,3) le' less.prems(1,3) e(3) by (auto simp: es)
    have "\<forall>\<^sub>F n in sequentially. and_distribute (ck_run H n) x es = Some fs"
      using e(1,2) fs(1) by eventually_elim (simp add: es and_distribute_step flip: next_es_def)
    then show ?thesis using fs(2-4) le' by (meson order_trans)
  qed
qed

lemma products_member: "e \<in> set es \<Longrightarrow> weight e \<le> products es"
proof (induction es)
  case (Cons x es)
  then show ?case using weight_pos [of x] products_pos [of es]
    by (auto intro: order_trans [of _ "products es"] simp: Suc_leI)
qed simp

text \<open>\<open>create\<close> of a conjunction, given the calls on pairs with fewer products.\<close>

lemma CreateAnd_step:
  assumes "node_closed C" and "\<And>e. C e \<Longrightarrow> \<exists>r. returns H (Negate e) (Some r)" and "pairs_return H C x (products (present arr))"
    and "\<forall>e \<in> set (present arr). C e" and "present arr \<noteq> []" and "\<And>es. es \<noteq> [] \<Longrightarrow> \<forall>e \<in> set es. C e \<Longrightarrow> C (AndExpr es m)"
  shows "\<exists>e. returns H (CreateAnd arr m x) (Some e) \<and> C e \<and> weight e \<le> products (present arr)"
proof (cases "and_collect arr [] False")
  case None
  then have "\<forall>\<^sub>F n in sequentially. ck_run H (Suc n) (CreateAnd arr m x) = Some (Some FalseExpr)"
    by (simp add: ContextKeyAndExpr_normalizeArr_def)
  then have "returns H (CreateAnd arr m x) (Some FalseExpr)" by (rule returns_step)
  then show ?thesis using node_closed_built(2) [OF assms(1)] products_pos [of "present arr"]
    by (intro exI [of _ FalseExpr]) simp
next
  case (Some p)
  obtain expr t where p: "p = (expr, t)" by force
  have terms: "and_terms y \<noteq> []" "\<forall>e \<in> set (and_terms y). C e" if "y \<in> set (present arr)" for y
    using node_closed_terms(2) [OF assms(1), of y] assms(4) that by simp_all
  have all: "\<forall>e \<in> set expr. C e" by (rule and_collect_all [OF Some [unfolded p]]) (use terms in auto)
  have weight: "products expr \<le> products (present arr)"
    using and_collect_weight [OF Some [unfolded p]] by simp
  have empty: "t" if "expr = []" using and_collect_empty [OF Some [unfolded p]] that terms(1) assms(5) by blast
  define es where "es = eliminate_duplicates (js_sort ck_cmp expr)"
  have es: "set es \<subseteq> set expr" "es = [] \<longleftrightarrow> expr = []" "products es \<le> products expr"
    using set_eliminate_duplicates [of "js_sort ck_cmp expr"] products_duplicates [of "js_sort ck_cmp expr"]
    by (simp_all add: es_def products_sort)
  show ?thesis
  proof (cases "expr = []")
    case True
    then have "\<forall>\<^sub>F n in sequentially. ck_run H (Suc n) (CreateAnd arr m x) = Some (Some TrueExpr)"
      using Some p empty by (simp add: ContextKeyAndExpr_normalizeArr_def)
    then have "returns H (CreateAnd arr m x) (Some TrueExpr)" by (rule returns_step)
    then show ?thesis using node_closed_built(1) [OF assms(1)] products_pos [of "present arr"]
      by (intro exI [of _ TrueExpr]) simp
  next
    case False
    then have ne: "es \<noteq> []" "\<forall>e \<in> set es. C e" "products es \<le> products (present arr)" using es all weight by auto
    obtain fs where fs: "\<forall>\<^sub>F n in sequentially. and_distribute (ck_run H n) x es = Some fs" "fs \<noteq> []"
      "\<forall>e \<in> set fs. C e" "products fs \<le> products es"
      using and_distribute_returns [OF assms(1-3) ne(2,1,3)] by blast
    obtain b where b: "\<forall>\<^sub>F n in sequentially. opposite_pair (ck_run H n) fs = Some b"
      using opposite_pair_eventually [of fs H] assms(2) fs(3) by blast
    define r where "r = (if length expr = 1 then hd expr else if length es = 1 then hd es
      else if length fs = 1 then hd fs else if x \<and> b then FalseExpr else AndExpr fs m)"
    have "\<forall>\<^sub>F n in sequentially. ck_run H (Suc n) (CreateAnd arr m x) = Some (Some r)"
      using fs(1) b
    proof eventually_elim
      case (elim n)
      then show ?case using Some p False
        by (auto simp: ContextKeyAndExpr_normalizeArr_def Let_def r_def simp flip: es_def)
    qed
    then have "returns H (CreateAnd arr m x) (Some r)" by (rule returns_step)
    moreover have "C r \<and> weight r \<le> products (present arr)"
    proof -
      have hd: "C (hd ys) \<and> weight (hd ys) \<le> products ys" if "ys \<noteq> []" "\<forall>e \<in> set ys. C e" for ys
        using that products_member [of "hd ys" ys] by simp
      have "weight (AndExpr fs m) = products fs" by (simp add: products_def)
      then show ?thesis
        using hd [OF False all] hd [OF ne(1,2)] hd [OF fs(2,3)] assms(6) [OF fs(2,3)] node_closed_built(2) [OF assms(1)]
          fs(4) ne(3) weight products_pos [of "present arr"]
        unfolding r_def by auto
    qed
    ultimately show ?thesis by blast
  qed
qed

lemma pairs_return_all:
  assumes "node_closed C" and "\<And>e. C e \<Longrightarrow> \<exists>r. returns H (Negate e) (Some r)"
  shows "pairs_return H C x bound"
proof (induction bound rule: less_induct)
  case (less bound)
  have "\<exists>e. returns H (CreateAnd [Some a, Some b] None x) (Some e) \<and> C e \<and> weight e \<le> weight a * weight b"
    if "C a" "C b" "weight a * weight b < bound" for a b
    using CreateAnd_step [of C H x "[Some a, Some b]" None, OF assms] less.IH [OF that(3)] that(1,2)
      node_closed_built(3) [OF assms(1)] by simp
  then show ?case unfolding pairs_return_def by blast
qed

lemma CreateAnd_returns:
  assumes "node_closed C" and "\<And>e. C e \<Longrightarrow> \<exists>r. returns H (Negate e) (Some r)"
    and "\<forall>e \<in> set (present arr). C e" and "present arr \<noteq> []" and "\<And>es. es \<noteq> [] \<Longrightarrow> \<forall>e \<in> set es. C e \<Longrightarrow> C (AndExpr es m)"
  shows "\<exists>e. returns H (CreateAnd arr m x) (Some e) \<and> C e \<and> weight e \<le> products (present arr)"
  using CreateAnd_step [OF assms(1,2) pairs_return_all [OF assms(1,2)] assms(3-5)] by simp

section \<open>Layers\<close>

text \<open>
  A layer is a class whose negations return, with pairs of terms whose conjunctions return in the layer.  The
  first layer has the leaves and their conjunctions; the nodes above a layer are built over leaves, with
  memos whose terms are in the layer.
\<close>

text \<open>A well-formed expression has no empty nodes, in its memos neither.\<close>

fun well_formed :: "ck_expr \<Rightarrow> bool" where
  "well_formed (AndExpr es None) \<longleftrightarrow> es \<noteq> [] \<and> list_all well_formed es"
| "well_formed (AndExpr es (Some m)) \<longleftrightarrow> es \<noteq> [] \<and> list_all well_formed es \<and> well_formed m"
| "well_formed (OrExpr es None) \<longleftrightarrow> es \<noteq> [] \<and> list_all well_formed es"
| "well_formed (OrExpr es (Some m)) \<longleftrightarrow> es \<noteq> [] \<and> list_all well_formed es \<and> well_formed m"
| "well_formed _ \<longleftrightarrow> True"

lemma well_formed_And [simp]:
  "well_formed (AndExpr es m) \<longleftrightarrow> es \<noteq> [] \<and> (\<forall>e \<in> set es. well_formed e) \<and> (\<forall>e. m = Some e \<longrightarrow> well_formed e)"
  by (cases m) (auto simp: list_all_iff)

lemma well_formed_Or [simp]:
  "well_formed (OrExpr es m) \<longleftrightarrow> es \<noteq> [] \<and> (\<forall>e \<in> set es. well_formed e) \<and> (\<forall>e. m = Some e \<longrightarrow> well_formed e)"
  by (cases m) (auto simp: list_all_iff)

declare well_formed.simps(1-4) [simp del]

lemma well_formed_leaf: "is_leaf e \<Longrightarrow> well_formed e"
  by (cases e) auto

definition terms_in :: "(ck_expr \<Rightarrow> bool) \<Rightarrow> ck_expr \<Rightarrow> bool" where
  "terms_in K e \<longleftrightarrow> well_formed e \<and> getTerminals e \<noteq> [] \<and> (\<forall>t \<in> set (getTerminals e). K t)"

definition flat :: "ck_expr \<Rightarrow> bool" where
  "flat e \<longleftrightarrow> is_leaf e \<or> (\<exists>es. e = AndExpr es None \<and> es \<noteq> [] \<and> (\<forall>e \<in> set es. is_leaf e))"

fun lifted :: "(ck_expr \<Rightarrow> bool) \<Rightarrow> ck_expr \<Rightarrow> bool" where
  "lifted K (AndExpr es m) \<longleftrightarrow> es \<noteq> [] \<and> list_all (lifted K) es \<and> (\<forall>e. m = Some e \<longrightarrow> terms_in K e)"
| "lifted K (OrExpr es m) \<longleftrightarrow> es \<noteq> [] \<and> list_all (lifted K) es \<and> (\<forall>e. m = Some e \<longrightarrow> terms_in K e)"
| "lifted K e \<longleftrightarrow> True"

definition layer_ok :: "ck_host \<Rightarrow> (ck_expr \<Rightarrow> bool) \<Rightarrow> bool" where
  "layer_ok H K \<longleftrightarrow>
     (\<forall>e. is_leaf e \<longrightarrow> K e) \<and>
     (\<forall>e. K e \<longrightarrow> (\<exists>r. returns H (Negate e) (Some r))) \<and>
     (\<forall>e. K e \<longrightarrow> terms_in K e) \<and>
     (\<forall>a b. K a \<longrightarrow> K b \<longrightarrow> (\<exists>e. returns H (CreateAnd [Some a, Some b] None False) (Some e) \<and> K e))"

lemma layer_okD:
  assumes "layer_ok H K"
  shows "is_leaf e \<Longrightarrow> K e" and "K e \<Longrightarrow> \<exists>r. returns H (Negate e) (Some r)"
    and "K e \<Longrightarrow> terms_in K e"
    and "K a \<Longrightarrow> K b \<Longrightarrow> \<exists>e. returns H (CreateAnd [Some a, Some b] None False) (Some e) \<and> K e"
  using assms unfolding layer_ok_def by simp_all

lemma negate_leaf_returns:
  assumes "is_leaf e" shows "\<exists>r. returns H (Negate e) (Some r) \<and> is_leaf r"
proof -
  have leaf: "is_leaf (ContextKeyDefinedExpr_create H k)" "is_leaf (ContextKeyNotExpr_create H k)" for k
    by (simp_all add: create_defs split: option.splits)
  have "\<exists>r. is_leaf r \<and> (\<forall>call. ck_negate H call e = Some (Some r))"
    using assms leaf by (cases e) (auto simp: create_defs withFloatOrStr_def split: option.splits ck_prim.splits)
  then obtain r where "is_leaf r" "\<forall>call. ck_negate H call e = Some (Some r)" by blast
  moreover from this(2) have "returns H (Negate e) (Some r)" by (intro returns_step) simp
  ultimately show ?thesis by blast
qed

lemma CreateOr_terms:
  assumes "\<And>e. K e \<Longrightarrow> \<exists>r. returns H (Negate e) (Some r)" and "\<And>e. K e \<Longrightarrow> terms_in K e" and "\<And>e. is_leaf e \<Longrightarrow> K e"
    and "\<forall>n \<in> set ns. terms_in K n" and "ns \<noteq> []" and "\<forall>e. m = Some e \<longrightarrow> well_formed e"
  shows "\<exists>e. returns H (CreateOr (map Some ns) m x) (Some e) \<and> terms_in K e"
proof -
  obtain e where e: "returns H (CreateOr (map Some ns) m x) (Some e)"
    "e = TrueExpr \<or> e = FalseExpr \<or> K e \<or> (\<exists>es. e = OrExpr es m \<and> es \<noteq> [] \<and> (\<forall>e \<in> set es. K e))"
  proof (rule exE [OF CreateOr_returns [of "map Some ns" K H m x]])
    show "\<forall>y \<in> set (present (map Some ns)). getTerminals y \<noteq> [] \<and> (\<forall>e \<in> set (getTerminals y). K e)"
      using assms(4) unfolding present_map_Some terms_in_def by blast
    show "\<exists>r. returns H (Negate e) (Some r)" if "K e" for e using assms(1) that .
  qed (use assms(5) in auto)
  have "terms_in K e"
    using e(2)
  proof (elim disjE exE conjE)
    fix es assume "e = OrExpr es m" "es \<noteq> []" "\<forall>e \<in> set es. K e"
    then show ?thesis using assms(2,6) unfolding terms_in_def by simp
  qed (simp_all add: assms(2,3))
  then show ?thesis using e(1) by blast
qed

lemma negate_all_returns:
  assumes "\<forall>e \<in> set es. \<exists>r. returns H (Negate e) (Some r) \<and> P r"
  shows "\<exists>ns. (\<forall>\<^sub>F n in sequentially. omap (\<lambda>e. ck_run H n (Negate e)) es = Some (map Some ns)) \<and>
    length ns = length es \<and> (\<forall>r \<in> set ns. P r)"
  using omap_eventually [of es "\<lambda>n e. ck_run H n (Negate e)" "\<lambda>_. P"] assms list_all2_constant [of P es]
  unfolding returns_def by blast

text \<open>The first layer.\<close>

lemma leaf_terms: "is_leaf e \<Longrightarrow> getTerminals e = [e] \<and> and_terms e = [e]"
  by (cases e) auto

lemma flat_terms: "flat e \<Longrightarrow> getTerminals e = [e] \<and> and_terms e \<noteq> [] \<and> (\<forall>t \<in> set (and_terms e). is_leaf t)"
  using leaf_terms [of e] by (auto simp: flat_def)

lemma negate_flat_returns:
  assumes "flat e" shows "\<exists>r. returns H (Negate e) (Some r)"
proof (cases "is_leaf e")
  case True
  then show ?thesis using negate_leaf_returns by blast
next
  case False
  then obtain es where e: "e = AndExpr es None" "es \<noteq> []" "\<forall>e \<in> set es. is_leaf e" using assms by (auto simp: flat_def)
  obtain ns where ns: "\<forall>\<^sub>F n in sequentially. omap (\<lambda>e. ck_run H n (Negate e)) es = Some (map Some ns)"
    "length ns = length es" "\<forall>r \<in> set ns. is_leaf r"
    using negate_all_returns [of es H is_leaf] negate_leaf_returns e(3) by blast
  have terms: "terms_in is_leaf n" if "is_leaf n" for n using leaf_terms [OF that] well_formed_leaf [OF that] that by (simp add: terms_in_def)
  have "ns \<noteq> []" using ns(2) e(2) by auto
  moreover have "\<exists>r. returns H (Negate e) (Some r)" if "is_leaf e" for e using negate_leaf_returns [OF that] by blast
  ultimately obtain r where r: "returns H (CreateOr (map Some ns) (Some e) True) (Some r)"
    using CreateOr_terms [of is_leaf H ns "Some e" True] terms ns(3) well_formed_leaf e by auto
  have "\<forall>\<^sub>F n in sequentially. ck_run H (Suc n) (Negate e) = Some (Some r)"
    using ns(1) r [unfolded returns_def] by eventually_elim (simp add: e(1) ContextKeyAndExpr_negate_def)
  then show ?thesis using returns_step by blast
qed

lemma flat_pair_returns:
  assumes "flat a" and "flat b"
  shows "\<exists>e. returns H (CreateAnd [Some a, Some b] None False) (Some e) \<and> flat e"
proof (cases "and_collect [Some a, Some b] [] False")
  case None
  then have "returns H (CreateAnd [Some a, Some b] None False) (Some FalseExpr)"
    by (intro returns_step) (simp add: ContextKeyAndExpr_normalizeArr_def)
  then show ?thesis by (intro exI [of _ FalseExpr]) (simp add: flat_def)
next
  case (Some p)
  obtain expr t where p: "p = (expr, t)" by force
  have terms: "\<forall>y \<in> set (present [Some a, Some b]). and_terms y \<noteq> [] \<and> (\<forall>e \<in> set (and_terms y). is_leaf e)"
    using flat_terms assms by simp
  have all: "\<forall>e \<in> set expr. is_leaf e" by (rule and_collect_all [OF Some [unfolded p]]) (use terms in auto)
  have empty: "t" if "expr = []" using and_collect_empty [OF Some [unfolded p]] that terms by auto
  define es where "es = eliminate_duplicates (js_sort ck_cmp expr)"
  have es: "set es \<subseteq> set expr" "es = [] \<longleftrightarrow> expr = []"
    using set_eliminate_duplicates [of "js_sort ck_cmp expr"] by (simp_all add: es_def)
  have stop: "and_distribute call False es = Some es" for call
  proof (rule and_distribute_stop, cases "es = []")
    case False
    then have "is_leaf (last es)" using es(1) all last_in_set by blast
    then show "length es \<le> 1 \<or> (\<forall>els m. last es \<noteq> OrExpr els m)" by auto
  qed simp
  define r where "r = (if expr = [] then TrueExpr else if length expr = 1 then hd expr else if length es = 1 then hd es else AndExpr es None)"
  have "returns H (CreateAnd [Some a, Some b] None False) (Some r)"
  proof (rule returns_step, rule always_eventually, rule allI)
    show "ck_run H (Suc n) (CreateAnd [Some a, Some b] None False) = Some (Some r)" for n
      using Some p empty stop by (simp add: ContextKeyAndExpr_normalizeArr_def Let_def r_def flip: es_def del: and_collect_Some)
  qed
  moreover have "flat r"
  proof -
    have "is_leaf (hd expr)" if "expr \<noteq> []" using all that by simp
    moreover have "is_leaf (hd es)" if "expr \<noteq> []" using all es that hd_in_set by blast
    ultimately show ?thesis using es all by (auto simp: r_def flat_def)
  qed
  ultimately show ?thesis by blast
qed

lemma layer_okI:
  assumes "\<And>e. is_leaf e \<Longrightarrow> K e" and "\<And>e. K e \<Longrightarrow> \<exists>r. returns H (Negate e) (Some r)" and "\<And>e. K e \<Longrightarrow> terms_in K e"
    and "\<And>a b. K a \<Longrightarrow> K b \<Longrightarrow> \<exists>e. returns H (CreateAnd [Some a, Some b] None False) (Some e) \<and> K e"
  shows "layer_ok H K"
  using assms unfolding layer_ok_def by simp

lemma layer_flat: "layer_ok H flat"
proof (rule layer_okI)
  show "terms_in flat e" if "flat e" for e using flat_terms [OF that] that well_formed_leaf by (auto simp: terms_in_def flat_def)
  show "flat e" if "is_leaf e" for e using that by (simp add: flat_def)
qed (rule negate_flat_returns flat_pair_returns; assumption)+

text \<open>The layer above a layer: first the negations, with terms in the layer below.\<close>

lemma layer_CreateOr:
  assumes "layer_ok H K" and "\<forall>n \<in> set ns. terms_in K n" and "ns \<noteq> []" and "\<forall>e. m = Some e \<longrightarrow> well_formed e"
  shows "\<exists>e. returns H (CreateOr (map Some ns) m x) (Some e) \<and> terms_in K e"
  by (rule CreateOr_terms) (use layer_okD(1-3) [OF assms(1)] assms(2-4) in blast)+

lemma layer_product:
  assumes "layer_ok H K" and "terms_in K l" and "terms_in K r"
  shows "\<exists>e parts. (\<forall>\<^sub>F n in sequentially. omap (\<lambda>(left, right). ck_run H n (CreateAnd [Some left, Some right] None False))
        (List.product (getTerminals l) (getTerminals r)) = Some parts) \<and>
    (\<forall>\<^sub>F n in sequentially. ck_run H n (CreateOr parts None False) = Some (Some e)) \<and> terms_in K e"
proof -
  let ?pairs = "List.product (getTerminals l) (getTerminals r)"
  have each: "\<exists>e. (\<forall>\<^sub>F n in sequentially.
      (\<lambda>(left, right). ck_run H n (CreateAnd [Some left, Some right] None False)) q = Some (Some e)) \<and> K e" if q: "q \<in> set ?pairs" for q
  proof -
    obtain a b where ab: "q = (a, b)" by force
    then have "K a" "K b" using q assms(2,3) by (simp_all add: terms_in_def)
    from layer_okD(4) [OF assms(1) this] show ?thesis by (simp add: returns_def ab)
  qed
  obtain es where ys: "\<forall>\<^sub>F n in sequentially.
      omap (\<lambda>(left, right). ck_run H n (CreateAnd [Some left, Some right] None False)) ?pairs = Some (map Some es)"
    and es: "length es = length ?pairs" "\<forall>e \<in> set es. K e"
    using omap_eventually [of ?pairs "\<lambda>n (left, right). ck_run H n (CreateAnd [Some left, Some right] None False)" "\<lambda>_. K"]
      each list_all2_constant [of K ?pairs] by blast
  have "?pairs \<noteq> []" using assms(2,3) by (cases "getTerminals l"; cases "getTerminals r"; simp add: terms_in_def)
  then have "es \<noteq> []" using es(1) by (metis length_0_conv)
  moreover have "\<forall>e \<in> set es. terms_in K e" using layer_okD(3) [OF assms(1)] es(2) by blast
  ultimately obtain e where "returns H (CreateOr (map Some es) None False) (Some e)" "terms_in K e"
    using layer_CreateOr [OF assms(1), of es None False] by auto
  then show ?thesis using ys unfolding returns_def by blast
qed

lemma negate_distribute_returns:
  assumes "layer_ok H K" and "\<forall>n \<in> set ns. terms_in K n" and "ns \<noteq> []"
  shows "\<exists>r. (\<forall>\<^sub>F n in sequentially. negate_distribute (ck_run H n) (map Some ns) = Some [Some r]) \<and> terms_in K r"
  using assms(2,3)
proof (induction "length ns" arbitrary: ns rule: less_induct)
  case less
  show ?case
  proof (cases "length ns = 1")
    case True
    then obtain n where "ns = [n]" by (cases ns) auto
    then show ?thesis using less.prems by (intro exI [of _ n]) (simp add: negate_distribute.simps)
  next
    case False
    then obtain l r rest where ns: "ns = l # r # rest" using less.prems(2) by (cases ns; cases "tl ns") auto
    obtain e parts where e: "\<forall>\<^sub>F n in sequentially. omap (\<lambda>(left, right). ck_run H n (CreateAnd [Some left, Some right] None False))
        (List.product (getTerminals l) (getTerminals r)) = Some parts"
      "\<forall>\<^sub>F n in sequentially. ck_run H n (CreateOr parts None False) = Some (Some e)" "terms_in K e"
      using layer_product [OF assms(1), of l r] less.prems(1) ns by auto
    obtain x where x: "\<forall>\<^sub>F n in sequentially. negate_distribute (ck_run H n) (map Some (e # rest)) = Some [Some x]" "terms_in K x"
      using less.hyps [of "e # rest"] less.prems(1) e(3) ns by auto
    have "\<forall>\<^sub>F n in sequentially. negate_distribute (ck_run H n) (map Some ns) = Some [Some x]"
      using e(1,2) x(1) by eventually_elim (simp add: ns negate_distribute_pair)
    then show ?thesis using x(2) by blast
  qed
qed

lemma lifted_leaf: "is_leaf e \<Longrightarrow> lifted K e"
  by (cases e) auto

lemma node_closed_lifted: "node_closed (lifted K)"
  unfolding node_closed_def by (simp add: list_all_iff)

lemma lifted_well_formed: "lifted K e \<Longrightarrow> well_formed e"
  by (induction K e rule: lifted.induct) (auto simp: list_all_iff terms_in_def)

lemma negate_memo_returns:
  "returns H (Negate (AndExpr es (Some n))) (Some n)" "returns H (Negate (OrExpr es (Some n))) (Some n)"
  by (rule returns_step; simp add: ContextKeyAndExpr_negate_def ContextKeyOrExpr_negate_def)+

lemma negate_leaf_terms: "layer_ok H K \<Longrightarrow> is_leaf e \<Longrightarrow> \<exists>r. returns H (Negate e) (Some r) \<and> terms_in K r"
  using negate_leaf_returns layer_okD(1,3) by blast

lemma negate_lifted:
  assumes "layer_ok H K" and "lifted K e"
  shows "\<exists>r. returns H (Negate e) (Some r) \<and> terms_in K r"
  using assms(2)
proof (induction e rule: weight.induct)
  case (1 es m)
  show ?case
  proof (cases m)
    case (Some n)
    then show ?thesis using 1(2) negate_memo_returns(1) by auto
  next
    case None
    obtain ns where ns: "\<forall>\<^sub>F n in sequentially. omap (\<lambda>e. ck_run H n (Negate e)) es = Some (map Some ns)"
      "length ns = length es" "\<forall>r \<in> set ns. terms_in K r"
      using negate_all_returns [of es H "terms_in K"] 1 by (auto simp: list_all_iff)
    have "ns \<noteq> []" "well_formed (AndExpr es None)" using ns(2) 1(2) lifted_well_formed [of K] by (auto simp: list_all_iff)
    then obtain r where r: "returns H (CreateOr (map Some ns) (Some (AndExpr es None)) True) (Some r)" "terms_in K r"
      using layer_CreateOr [OF assms(1) ns(3)] by blast
    have "\<forall>\<^sub>F n in sequentially. ck_run H (Suc n) (Negate (AndExpr es m)) = Some (Some r)"
      using ns(1) r(1) [unfolded returns_def] by eventually_elim (simp add: None ContextKeyAndExpr_negate_def)
    then show ?thesis using returns_step r(2) by blast
  qed
next
  case (2 es m)
  show ?case
  proof (cases m)
    case (Some n)
    then show ?thesis using 2(2) negate_memo_returns(2) by auto
  next
    case None
    obtain ns where ns: "\<forall>\<^sub>F n in sequentially. omap (\<lambda>e. ck_run H n (Negate e)) es = Some (map Some ns)"
      "length ns = length es" "\<forall>r \<in> set ns. terms_in K r"
      using negate_all_returns [of es H "terms_in K"] 2 by (auto simp: list_all_iff)
    have "ns \<noteq> []" "well_formed (OrExpr es None)" using ns(2) 2(2) lifted_well_formed [of K] by (auto simp: list_all_iff)
    then obtain d where d: "\<forall>\<^sub>F n in sequentially. negate_distribute (ck_run H n) (map Some ns) = Some [Some d]" "terms_in K d"
      using negate_distribute_returns [OF assms(1) ns(3)] by blast
    then obtain r where r: "returns H (CreateOr [Some d] (Some (OrExpr es None)) True) (Some r)" "terms_in K r"
      using layer_CreateOr [OF assms(1), of "[d]" "Some (OrExpr es None)"] \<open>well_formed (OrExpr es None)\<close> by auto
    have "\<forall>\<^sub>F n in sequentially. ck_run H (Suc n) (Negate (OrExpr es m)) = Some (Some r)"
      using ns(1) d(1) r(1) [unfolded returns_def] by eventually_elim (simp add: None ContextKeyOrExpr_negate_def)
    then show ?thesis using returns_step r(2) by blast
  qed
qed (rule negate_leaf_terms [OF assms(1)]; simp)+

lemma layer_lifted:
  assumes "layer_ok H K" shows "layer_ok H (lifted K)"
proof (rule layer_okI)
  show "terms_in (lifted K) e" if "lifted K e" for e
    using node_closed_terms(1) [OF node_closed_lifted that] lifted_well_formed [OF that] by (simp add: terms_in_def)
  show negate: "\<exists>r. returns H (Negate e) (Some r)" if "lifted K e" for e
    using negate_lifted [OF assms that] by blast
  show "\<exists>e. returns H (CreateAnd [Some a, Some b] None False) (Some e) \<and> lifted K e" if "lifted K a" "lifted K b" for a b
    using CreateAnd_returns [OF node_closed_lifted [of K] negate, of "[Some a, Some b]" None False] that
    by (auto simp: list_all_iff)
qed (rule lifted_leaf)

primrec layer :: "nat \<Rightarrow> ck_expr \<Rightarrow> bool" where
  "layer 0 = flat"
| "layer (Suc j) = lifted (layer j)"

lemma layer_ok_layer: "layer_ok H (layer j)"
  by (induction j) (simp_all add: layer_flat layer_lifted)

text \<open>Every well-formed expression is in some layer.\<close>

lemma well_formed_layer: "well_formed e \<Longrightarrow> \<forall>\<^sub>F j in sequentially. lifted (layer j) e"
proof -
  have memo: "\<forall>\<^sub>F j in sequentially. terms_in (layer j) m" if wf: "well_formed m" and m: "\<forall>\<^sub>F j in sequentially. lifted (layer j) m" for m
  proof (rule iffD1 [OF eventually_sequentially_Suc])
    show "\<forall>\<^sub>F j in sequentially. terms_in (layer (Suc j)) m"
      using m
    proof eventually_elim
      case (elim j)
      then show ?case using node_closed_terms(1) [OF node_closed_lifted elim] wf by (simp add: terms_in_def)
    qed
  qed
  have all: "\<forall>\<^sub>F j in sequentially. list_all (lifted (layer j)) es"
    if "\<And>e. e \<in> set es \<Longrightarrow> \<forall>\<^sub>F j in sequentially. lifted (layer j) e" for es
    unfolding list_all_iff using that by (simp add: eventually_ball_finite)
  show "well_formed e \<Longrightarrow> ?thesis"
  proof (induction e rule: well_formed.induct)
    case (1 es)
    show ?case using all [of es] 1 by auto
  next
    case (2 es m)
    have "\<forall>\<^sub>F j in sequentially. list_all (lifted (layer j)) es" "\<forall>\<^sub>F j in sequentially. terms_in (layer j) m"
      using all [of es] memo [of m] 2 by auto
    then show ?case by eventually_elim (use 2(3) in simp)
  next
    case (3 es)
    show ?case using all [of es] 3 by auto
  next
    case (4 es m)
    have "\<forall>\<^sub>F j in sequentially. list_all (lifted (layer j)) es" "\<forall>\<^sub>F j in sequentially. terms_in (layer j) m"
      using all [of es] memo [of m] 4 by auto
    then show ?case by eventually_elim (use 4(3) in simp)
  qed simp_all
qed

lemma well_formed_common_layer:
  assumes "\<forall>e \<in> set es. well_formed e"
  shows "\<exists>j. \<forall>e \<in> set es. lifted (layer j) e"
proof -
  have "\<forall>\<^sub>F j in sequentially. \<forall>e \<in> set es. lifted (layer j) e"
    using assms well_formed_layer by (simp add: eventually_ball_finite)
  then show ?thesis by (auto simp: eventually_sequentially)
qed

section \<open>The calls return, with the value of their arguments\<close>

lemma returns_value:
  assumes "returns H q r" shows "answers H c q r"
proof -
  obtain n where "ck_run H n q = Some r" using assms by (auto simp: returns_def eventually_sequentially)
  then show ?thesis using engine_okD [OF ck_run_ok] by blast
qed

lemma CreateAnd_total:
  assumes "\<forall>e \<in> set (present exprs). well_formed e" and "present exprs \<noteq> []"
  shows "\<exists>e. returns H (CreateAnd exprs None x) (Some e) \<and> well_formed e"
proof -
  obtain j where j: "\<forall>e \<in> set (present exprs). lifted (layer j) e" using well_formed_common_layer [OF assms(1)] by blast
  have negate: "\<exists>r. returns H (Negate e) (Some r)" if "lifted (layer j) e" for e
    using negate_lifted [OF layer_ok_layer that] by blast
  from CreateAnd_returns [OF node_closed_lifted negate j assms(2), of None x]
  obtain e where "returns H (CreateAnd exprs None x) (Some e)" "lifted (layer j) e" by (auto simp: list_all_iff)
  then show ?thesis using lifted_well_formed by blast
qed

lemma CreateOr_total:
  assumes "\<forall>e \<in> set (present exprs). well_formed e" and "present exprs \<noteq> []"
  shows "\<exists>e. returns H (CreateOr exprs None x) (Some e) \<and> well_formed e"
proof -
  obtain j where j: "\<forall>e \<in> set (present exprs). lifted (layer j) e" using well_formed_common_layer [OF assms(1)] by blast
  have negate: "\<exists>r. returns H (Negate e) (Some r)" if "lifted (layer j) e" for e
    using negate_lifted [OF layer_ok_layer that] by blast
  have terms: "\<forall>y \<in> set (present exprs). getTerminals y \<noteq> [] \<and> (\<forall>e \<in> set (getTerminals y). lifted (layer j) e)"
    using node_closed_terms(1) [OF node_closed_lifted] j by blast
  obtain e where e: "returns H (CreateOr exprs None x) (Some e)"
    "e = TrueExpr \<or> e = FalseExpr \<or> lifted (layer j) e \<or> (\<exists>es. e = OrExpr es None \<and> es \<noteq> [] \<and> (\<forall>e \<in> set es. lifted (layer j) e))"
    using CreateOr_returns [OF terms negate assms(2)] by blast
  then have "well_formed e" using lifted_well_formed [of "layer j"] by auto
  then show ?thesis using e(1) by blast
qed

lemma Negate_total:
  assumes "well_formed e" shows "\<exists>r. returns H (Negate e) (Some r) \<and> well_formed r"
proof -
  obtain j where "lifted (layer j) e" using well_formed_common_layer [of "[e]"] assms by auto
  from negate_lifted [OF layer_ok_layer this] show ?thesis by (auto simp: terms_in_def)
qed

section \<open>Implication\<close>

lemma prim_less_string: "is_string v \<Longrightarrow> is_string w \<Longrightarrow> \<not> prim_less v w \<Longrightarrow> \<not> prim_less w v \<Longrightarrow> v = w"
  by (cases v; cases w) auto

lemma prim_less_number:
  "sane_number H c k v \<Longrightarrow> sane_number H c k w \<Longrightarrow> \<not> prim_less v w \<Longrightarrow> \<not> prim_less w v \<Longrightarrow> v = w"
  by (auto simp: sane_number_def) (metis num_total num_eq_def)

lemma cmp1_0: "cmp1 a b = 0 \<longleftrightarrow> a = b"
  by (auto simp: cmp1_def)

lemma cmp2_0: "cmp2 a v b w = 0 \<longleftrightarrow> a = b \<and> \<not> prim_less v w \<and> \<not> prim_less w v"
  by (auto simp: cmp2_def)

lemma regex_cmp_0: "ContextKeyRegexExpr_cmp a r b s = 0 \<longleftrightarrow> a = b \<and> regex_source r = regex_source s"
  by (auto simp: ContextKeyRegexExpr_cmp_def)

lemma expr_type_constant: "expr_type e = 0 \<longleftrightarrow> e = FalseExpr" "expr_type e = 1 \<longleftrightarrow> e = TrueExpr"
  by (cases e; simp)+

lemma expr_type_node: "expr_type e = 6 \<longleftrightarrow> (\<exists>es m. e = AndExpr es m)" "expr_type e = 9 \<longleftrightarrow> (\<exists>es m. e = OrExpr es m)"
  by (cases e; simp)+

lemma ck_cmp_evaluate:
  "ck_cmp a b = 0 \<Longrightarrow> sane H c a \<Longrightarrow> sane H c b \<Longrightarrow> ck_evaluate H c a = ck_evaluate H c b"
  "ck_cmp_list es fs = 0 \<Longrightarrow> length es = length fs \<Longrightarrow> \<forall>e \<in> set es. sane H c e \<Longrightarrow> \<forall>f \<in> set fs. sane H c f \<Longrightarrow>
     map (ck_evaluate H c) es = map (ck_evaluate H c) fs"
proof (induction a b and es fs rule: ck_cmp_ck_cmp_list.induct)
  case (15 es m b)
  then obtain fs m2 where b: "b = AndExpr fs m2" by (auto simp: type_difference_def split: ck_expr.splits)
  with 15 have "map (ck_evaluate H c) es = map (ck_evaluate H c) fs" by (auto split: if_splits)
  from map_eq_all [OF this] show ?case by (simp add: b)
next
  case (16 es m b)
  then obtain fs m2 where b: "b = OrExpr fs m2" by (auto simp: type_difference_def split: ck_expr.splits)
  with 16 have "map (ck_evaluate H c) es = map (ck_evaluate H c) fs" by (auto split: if_splits)
  from map_eq_ex [OF this] show ?case by (simp add: b)
next
  case (18 e es fs)
  then show ?case by (cases fs) (auto split: if_splits)
qed (auto simp: expr_type_constant type_difference_def cmp1_0 cmp2_0 regex_cmp_0 sane_regex_source dest: prim_less_string prim_less_number
    split: ck_expr.splits)

lemma allElementsIncluded_value:
  assumes "allElementsIncluded ps qs" and "\<forall>p \<in> set ps. sane H c p" and "\<forall>q \<in> set qs. sane H c q" and "p \<in> set ps"
  shows "\<exists>q \<in> set qs. ck_evaluate H c p = ck_evaluate H c q"
  using assms
proof (induction ps qs rule: allElementsIncluded.induct)
  case (3 p' ps q qs)
  show ?case
  proof (cases "ck_cmp p' q = 0")
    case True
    then have "ck_evaluate H c p' = ck_evaluate H c q" using ck_cmp_evaluate(1) [OF True] 3(4,5) by simp
    then show ?thesis using 3(1) [OF _ True] 3(3-6) True by (cases "p = p'") auto
  next
    case False
    then have "allElementsIncluded (p' # ps) qs" "\<not> ck_cmp p' q < 0" using 3(3) by (auto split: if_splits)
    then show ?thesis using 3(2) [OF _ False] 3(4-6) by auto
  qed
qed simp_all

lemma implies_sound:
  "ck_implies p q \<Longrightarrow> sane H c p \<Longrightarrow> sane H c q \<Longrightarrow> ck_evaluate H c p \<Longrightarrow> ck_evaluate H c q"
proof (induction p q rule: ck_implies.induct)
  case (1 p q)
  consider "p = FalseExpr" | "q = TrueExpr"
    | es m fs n where "p = OrExpr es m" "q = OrExpr fs n" "allElementsIncluded es fs"
    | fs n e where "expr_type p \<noteq> 0" "expr_type q \<noteq> 1" "expr_type p \<noteq> 9" "q = OrExpr fs n" "e \<in> set fs" "ck_implies p e"
    | es m fs n where "p = AndExpr es m" "q = AndExpr fs n" "allElementsIncluded fs es"
    | es m e where "expr_type q \<noteq> 1" "expr_type q \<noteq> 9" "expr_type q \<noteq> 6" "p = AndExpr es m" "e \<in> set es" "ck_implies e q"
    | "ck_equals p q"
    using 1(3) by (auto simp: ck_implies.simps [of p q] expr_type_constant expr_type_node list_ex_iff split: if_splits)
  then show ?case
  proof cases
    case 3
    then show ?thesis using allElementsIncluded_value [OF 3(3)] 1(4-6) by simp blast
  next
    case 4
    then show ?thesis using 1(1) [of e] 1(4-6) by auto
  next
    case 5
    then show ?thesis using allElementsIncluded_value [OF 5(3)] 1(4-6) by simp blast
  next
    case 6
    then show ?thesis using 1(2) [of e] 1(4-6) by auto
  next
    case 7
    then show ?thesis using ck_equals_evaluate(1) 1(4-6) by blast
  qed (use 1(6) in simp_all)
qed

section \<open>Properties\<close>

definition example_host :: ck_host where
  "example_host = \<lparr>constant_values = (\<lambda>_. None), is_windows = False, regex_test = (\<lambda>_ _. False),
     number_to_string = (\<lambda>_. []), to_lower_case = id\<rparr>"

definition example_context :: ck_context where
  "example_context k =
     (if k = ''a'' then VPrim (PBool True) else if k = ''n'' then VPrim (PNum (JsNum 2)) else VPrim PUndefined)"

definition example_above :: "ck_expr" where
  "example_above = GreaterExpr ''n'' (PNum (JsNum 1))"

lemma example_host_constants [simp]: "constant_values example_host k = None"
  by (simp add: example_host_def)

lemma example_context_values [simp]: "example_context ''a'' = VPrim (PBool True)" "example_context ''b'' = VPrim PUndefined"
  "example_context ''n'' = VPrim (PNum (JsNum 2))"
  by (simp_all add: example_context_def)

lemma example_above_values [simp]:
  "ck_evaluate example_host example_context example_above" "sane example_host example_context example_above" "well_formed example_above"
  by (simp_all add: example_above_def number_test_def sane_number_def)

definition example_clauses :: "ck_expr option list" where
  "example_clauses = [Some (OrExpr [DefinedExpr ''b'', example_above] None), None, Some (DefinedExpr ''a'')]"

lemma example_clauses_values:
  "\<forall>e \<in> set (present example_clauses). well_formed e" "present example_clauses \<noteq> []"
  "\<forall>e \<in> set (present example_clauses). sane example_host example_context e"
  "\<forall>e \<in> set (present example_clauses). ck_evaluate example_host example_context e"
  by (simp_all add: example_clauses_def)

definition example_node :: "ck_expr" where
  "example_node = OrExpr [DefinedExpr ''b'', AndExpr [DefinedExpr ''a'', example_above] None] None"

lemma example_node_values:
  "well_formed example_node" "sane example_host example_context example_node" "ck_evaluate example_host example_context example_node"
  by (simp_all add: example_node_def)

text \<open>C15: \<open>ContextKeyExpr.and\<close> and \<open>ContextKeyExpr.or\<close> return and keep the meaning: on well-formed
  expressions (no empty conjunction or disjunction in them) there is an amount of fuel from which on the
  normalisation, with its distribution and its search for opposites, gives one and the same well-formed
  expression; and in every context where the arguments are sane (numeric comparisons read numbers, equalities
  compare strings, no constant keys, regular expressions without flags) the result evaluates to the
  conjunction, respectively the disjunction, of the arguments.\<close>
lemma create_normalises:
  assumes "\<forall>e \<in> set (present exprs). well_formed e" and "present exprs \<noteq> []"
  shows "\<exists>N a b. (\<forall>n \<ge> N. ContextKeyExpr_and H n exprs = Some (Some a) \<and> ContextKeyExpr_or H n exprs = Some (Some b)) \<and>
    well_formed a \<and> well_formed b \<and>
    (\<forall>c. (\<forall>e \<in> set (present exprs). sane H c e) \<longrightarrow>
      sane H c a \<and> (ck_evaluate H c a \<longleftrightarrow> (\<forall>e \<in> set (present exprs). ck_evaluate H c e)) \<and>
      sane H c b \<and> (ck_evaluate H c b \<longleftrightarrow> (\<exists>e \<in> set (present exprs). ck_evaluate H c e)))"
proof -
  obtain a where a: "returns H (CreateAnd exprs None True) (Some a)" "well_formed a" using CreateAnd_total [OF assms] by blast
  obtain b where b: "returns H (CreateOr exprs None True) (Some b)" "well_formed b" using CreateOr_total [OF assms] by blast
  have "\<forall>\<^sub>F n in sequentially. ContextKeyExpr_and H n exprs = Some (Some a) \<and> ContextKeyExpr_or H n exprs = Some (Some b)"
    using a(1) [unfolded returns_def] b(1) [unfolded returns_def]
    by eventually_elim (simp add: ContextKeyExpr_and_def ContextKeyExpr_or_def)
  moreover have "sane H c a \<and> (ck_evaluate H c a \<longleftrightarrow> (\<forall>e \<in> set (present exprs). ck_evaluate H c e)) \<and>
      sane H c b \<and> (ck_evaluate H c b \<longleftrightarrow> (\<exists>e \<in> set (present exprs). ck_evaluate H c e))"
    if "\<forall>e \<in> set (present exprs). sane H c e" for c
    using returns_value [OF a(1), of c] returns_value [OF b(1), of c] that by simp
  ultimately show ?thesis using a(2) b(2) unfolding eventually_sequentially by blast
qed

lemma create_normalises_witness:
  "\<exists>N a b. (\<forall>n \<ge> N. ContextKeyExpr_and example_host n example_clauses = Some (Some a) \<and>
      ContextKeyExpr_or example_host n example_clauses = Some (Some b)) \<and>
    ck_evaluate example_host example_context a \<and> ck_evaluate example_host example_context b"
  using create_normalises [OF example_clauses_values(1,2), of example_host] example_clauses_values(2-4)
  by (metis last_in_set)

text \<open>C16: \<open>negate\<close> is the complement: on a well-formed expression it returns with enough fuel, its result is
  well-formed and has, in every context where the expression is sane, the opposite value.\<close>
lemma negate_complements:
  assumes "well_formed e"
  shows "\<exists>N e'. (\<forall>n \<ge> N. ck_run H n (Negate e) = Some (Some e')) \<and> well_formed e' \<and>
    (\<forall>c. sane H c e \<longrightarrow> sane H c e' \<and> (ck_evaluate H c e' \<longleftrightarrow> \<not> ck_evaluate H c e))"
proof -
  obtain r where r: "returns H (Negate e) (Some r)" "well_formed r" using Negate_total [OF assms] by blast
  have "sane H c r \<and> (ck_evaluate H c r \<longleftrightarrow> \<not> ck_evaluate H c e)" if "sane H c e" for c
    using returns_value [OF r(1), of c] that by (simp add: negates_def)
  then show ?thesis using r unfolding returns_def eventually_sequentially by blast
qed

lemma negate_complements_witness:
  "\<exists>N e'. (\<forall>n \<ge> N. ck_run example_host n (Negate example_node) = Some (Some e')) \<and>
    \<not> ck_evaluate example_host example_context e'"
  using negate_complements [OF example_node_values(1), of example_host] example_node_values(2,3) by metis

text \<open>C17: The implication test is sound: when \<open>implies\<close> answers true for two expressions, then in every
  context where both are sane and the first evaluates to true, so does the second.\<close>
lemma implies_keeps_truth:
  assumes "ck_implies p q" and "sane H c p" and "sane H c q" and "ck_evaluate H c p"
  shows "ck_evaluate H c q"
  using assms by (rule implies_sound)

lemma implies_keeps_truth_witness:
  "ck_evaluate example_host example_context (OrExpr [DefinedExpr ''a'', DefinedExpr ''b''] None)"
proof (rule implies_keeps_truth [of "AndExpr [DefinedExpr ''a'', example_above] None"])
  show "ck_implies (AndExpr [DefinedExpr ''a'', example_above] None) (OrExpr [DefinedExpr ''a'', DefinedExpr ''b''] None)"
    by (simp add: ck_implies.simps example_above_def)
qed simp_all

section \<open>Where normalisation changes the meaning\<close>

text \<open>A key that reads as NaN makes a comparison and its negation both false, yet their disjunction is \<open>true\<close>.\<close>

lemma opposites_of_undefined:
  "ContextKeyExpr_or example_host 2 [Some (GreaterExpr ''u'' (PNum (JsNum 1))), Some (SmallerEqualsExpr ''u'' (PNum (JsNum 1)))] = Some (Some TrueExpr) \<and>
   \<not> ck_evaluate example_host example_context (GreaterExpr ''u'' (PNum (JsNum 1))) \<and>
   \<not> ck_evaluate example_host example_context (SmallerEqualsExpr ''u'' (PNum (JsNum 1)))"
  by code_simp

text \<open>
  A disjunction sorts before \<open>in\<close> and the comparisons, so it is not last and is not distributed: the
  serialised text has another meaning, since \<open>&&\<close> binds more tightly.
\<close>

lemma disjunction_not_last:
  "map_option (map_option (ck_serialize example_host))
     (ContextKeyExpr_and example_host 6 [Some (OrExpr [DefinedExpr ''a'', DefinedExpr ''b''] None), Some (InExpr ''c'' ''d'')]) =
   Some (Some (''a || b && c in '' @ quote @ ''d'' @ quote))"
  by code_simp

end
