(* ===== verification/Context_Scanner.thy ===== *)
theory Context_Scanner
  imports Context_Keys
begin

text \<open>
  The scanner of when-clauses, \<open>src/vs/platform/contextkey/common/scanner.ts\<close>: the tokens, the scanning loop
  over an index into the input, quoted strings, regular expression literals with their escapes and classes,
  and the lexing errors.  The state is the record of the fields of \<open>Scanner\<close>.  Characters are code units up
  to \<open>0xFF\<close>, where \<open>\p{L}\<close> is written out.
\<close>

section \<open>Tokens\<close>

datatype token_type =
    LParen | RParen | Neg
  | TEq bool | TNotEq bool
  | Lt | LtEq | Gt | GtEq
  | RegexOp | RegexStr string
  | TTrue | TFalse | TIn | TNot | TAnd | TOr
  | Str string | QuotedStr string | TError string
  | EOF

record Token =
  tk_type :: token_type
  tk_offset :: nat

record LexingError =
  le_offset :: nat
  le_lexeme :: string
  le_additionalInfo :: "string option"

fun getLexeme :: "token_type \<Rightarrow> string" where
  "getLexeme LParen = ''(''"
| "getLexeme RParen = '')''"
| "getLexeme Neg = ''!''"
| "getLexeme (TEq isTripleEq) = (if isTripleEq then ''==='' else ''=='')"
| "getLexeme (TNotEq isTripleEq) = (if isTripleEq then ''!=='' else ''!='')"
| "getLexeme Lt = ''<''"
| "getLexeme LtEq = ''<=''"
| "getLexeme Gt = ''>''"
| "getLexeme GtEq = ''>=''"
| "getLexeme RegexOp = ''=~''"
| "getLexeme (RegexStr lexeme) = lexeme"
| "getLexeme TTrue = ''true''"
| "getLexeme TFalse = ''false''"
| "getLexeme TIn = ''in''"
| "getLexeme TNot = ''not''"
| "getLexeme TAnd = ''&&''"
| "getLexeme TOr = ''||''"
| "getLexeme (Str lexeme) = lexeme"
| "getLexeme (QuotedStr lexeme) = lexeme"
| "getLexeme (TError lexeme) = lexeme"
| "getLexeme EOF = ''EOF''"

definition token_keywords :: "string \<Rightarrow> token_type option" where
  "token_keywords s =
     (if s = ''not'' then Some TNot
      else if s = ''in'' then Some TIn
      else if s = ''false'' then Some TFalse
      else if s = ''true'' then Some TTrue
      else None)"

text \<open>The hints, with the placeholders of \<open>localize\<close> filled in.\<close>

fun hintDidYouMean :: "string list \<Rightarrow> string option" where
  "hintDidYouMean [a] = Some (''Did you mean '' @ a @ ''?'')"
| "hintDidYouMean [a, b] = Some (''Did you mean '' @ a @ '' or '' @ b @ ''?'')"
| "hintDidYouMean [a, b, c] = Some (''Did you mean '' @ a @ '', '' @ b @ '' or '' @ c @ ''?'')"
| "hintDidYouMean _ = None"

definition hintDidYouForgetToOpenOrCloseQuote :: "string" where
  "hintDidYouForgetToOpenOrCloseQuote = ''Did you forget to open or close the quote?''"

definition hintDidYouForgetToEscapeSlash :: "string" where
  "hintDidYouForgetToEscapeSlash =
     ''Did you forget to escape the '' @ quote @ ''/'' @ quote @ '' (slash) character? Put two backslashes before it to escape, e.g., '' @
     quote @ [CHR 0x5C, CHR 0x5C] @ ''/'' @ quote @ ''.''"

section \<open>The state\<close>

record Scanner =
  sc_input :: string
  sc_start :: nat
  sc_current :: nat
  sc_tokens :: "Token list"
  sc_errors :: "LexingError list"

definition Scanner_reset :: "string \<Rightarrow> Scanner" where
  "Scanner_reset v = \<lparr>sc_input = v, sc_start = 0, sc_current = 0, sc_tokens = [], sc_errors = []\<rparr>"

definition Scanner_isAtEnd :: "Scanner \<Rightarrow> bool" where
  "Scanner_isAtEnd st \<longleftrightarrow> sc_current st \<ge> length (sc_input st)"

definition charCodeAt :: "string \<Rightarrow> nat \<Rightarrow> char option" where
  "charCodeAt s i = (if i < length s then Some (s ! i) else None)"

definition js_segment :: "string \<Rightarrow> nat \<Rightarrow> nat \<Rightarrow> string" where
  "js_segment s i j = take (j - i) (drop i s)"

definition Scanner_match :: "char \<Rightarrow> Scanner \<Rightarrow> bool \<times> Scanner" where
  "Scanner_match expected st =
     (if Scanner_isAtEnd st then (False, st)
      else if charCodeAt (sc_input st) (sc_current st) \<noteq> Some expected then (False, st)
      else (True, st\<lparr>sc_current := sc_current st + 1\<rparr>))"

definition Scanner_advance :: "Scanner \<Rightarrow> char option \<times> Scanner" where
  "Scanner_advance st = (charCodeAt (sc_input st) (sc_current st), st\<lparr>sc_current := sc_current st + 1\<rparr>)"

definition Scanner_addToken :: "token_type \<Rightarrow> Scanner \<Rightarrow> Scanner" where
  "Scanner_addToken t st = st\<lparr>sc_tokens := sc_tokens st @ [\<lparr>tk_type = t, tk_offset = sc_start st\<rparr>]\<rparr>"

definition Scanner_error :: "string option \<Rightarrow> Scanner \<Rightarrow> Scanner" where
  "Scanner_error additional st =
     (let offset = sc_start st; lexeme = js_segment (sc_input st) (sc_start st) (sc_current st)
      in st\<lparr>sc_errors := sc_errors st @ [\<lparr>le_offset = offset, le_lexeme = lexeme, le_additionalInfo = additional\<rparr>],
            sc_tokens := sc_tokens st @ [\<lparr>tk_type = TError lexeme, tk_offset = offset\<rparr>]\<rparr>)"

section \<open>Strings, quoted strings and regular expressions\<close>

text \<open>The character class of \<open>stringRe\<close>.\<close>

definition is_letter :: "char \<Rightarrow> bool" where
  "is_letter c \<longleftrightarrow>
     (CHR ''a'' \<le> c \<and> c \<le> CHR ''z'') \<or> (CHR ''A'' \<le> c \<and> c \<le> CHR ''Z'') \<or>
     c \<in> {CHR 0xAA, CHR 0xB5, CHR 0xBA} \<or> (CHR 0xC0 \<le> c \<and> c \<noteq> CHR 0xD7 \<and> c \<noteq> CHR 0xF7)"

definition string_char :: "char \<Rightarrow> bool" where
  "string_char c \<longleftrightarrow> is_letter c \<or> is_digit c \<or> c = CHR 0x5C \<or> c \<in> set ''_<>-./:*?+[]^,#@;%$'' \<or> c = CHR 0x22"

definition Scanner_string :: "Scanner \<Rightarrow> Scanner" where
  "Scanner_string st =
     (let matched = takeWhile string_char (drop (sc_start st) (sc_input st))
      in if matched = [] then st
         else
           let st = st\<lparr>sc_current := sc_start st + length matched\<rparr>;
               lexeme = js_segment (sc_input st) (sc_start st) (sc_current st)
           in (case token_keywords lexeme of
                 Some keyword \<Rightarrow> Scanner_addToken keyword st
               | None \<Rightarrow> Scanner_addToken (Str lexeme) st))"

function quote_index :: "string \<Rightarrow> nat \<Rightarrow> nat" where
  "quote_index s i = (if charCodeAt s i \<noteq> Some (CHR 0x27) \<and> i < length s then quote_index s (i + 1) else i)"
  by pat_completeness auto
termination by (relation "measure (\<lambda>(s, i). length s - i)") auto

declare quote_index.simps [simp del]

definition Scanner_quotedString :: "Scanner \<Rightarrow> Scanner" where
  "Scanner_quotedString st =
     (let st = st\<lparr>sc_current := quote_index (sc_input st) (sc_current st)\<rparr>
      in if Scanner_isAtEnd st then Scanner_error (Some hintDidYouForgetToOpenOrCloseQuote) st
         else
           let st = snd (Scanner_advance st)
           in st\<lparr>sc_tokens := sc_tokens st @
                  [\<lparr>tk_type = QuotedStr (js_segment (sc_input st) (sc_start st + 1) (sc_current st - 1)),
                    tk_offset = sc_start st + 1\<rparr>]\<rparr>)"

text \<open>The loop of \<open>_regex\<close>: the index after the closing slash, None when the input ends first.\<close>

function regex_close :: "string \<Rightarrow> nat \<Rightarrow> bool \<Rightarrow> bool \<Rightarrow> nat option" where
  "regex_close s p inEscape inCharacterClass =
     (if p \<ge> length s then None
      else
        let ch = s ! p
        in if inEscape then regex_close s (p + 1) False inCharacterClass
           else if ch = CHR ''/'' \<and> \<not> inCharacterClass then Some (p + 1)
           else if ch = CHR ''['' then regex_close s (p + 1) False True
           else if ch = CHR 0x5C then regex_close s (p + 1) True inCharacterClass
           else if ch = CHR '']'' then regex_close s (p + 1) False False
           else regex_close s (p + 1) False inCharacterClass)"
  by pat_completeness auto
termination by (relation "measure (\<lambda>(s, p, e, c). length s - p)") auto

declare regex_close.simps [simp del]

definition regexFlags :: "char set" where
  "regexFlags = set ''igsmyu''"

definition Scanner_regex :: "Scanner \<Rightarrow> Scanner" where
  "Scanner_regex st =
     (case regex_close (sc_input st) (sc_current st) False False of
        None \<Rightarrow> Scanner_error (Some hintDidYouForgetToEscapeSlash) (st\<lparr>sc_current := max (sc_current st) (length (sc_input st))\<rparr>)
      | Some p \<Rightarrow>
          let flags = takeWhile (\<lambda>c. c \<in> regexFlags) (drop p (sc_input st));
              st = st\<lparr>sc_current := p + length flags\<rparr>
          in Scanner_addToken (RegexStr (js_segment (sc_input st) (sc_start st) (sc_current st))) st)"

section \<open>The scanning loop\<close>

text \<open>\<open>NoBreakSpace\<close> is \<open>0xA0\<close>.  The last branch is the one for every other character.\<close>

definition scan_step :: "Scanner \<Rightarrow> Scanner" where
  "scan_step st =
     (let st = st\<lparr>sc_start := sc_current st\<rparr>;
          (ch, st) = Scanner_advance st
      in if ch = Some (CHR ''('') then Scanner_addToken LParen st
         else if ch = Some (CHR '')'') then Scanner_addToken RParen st
         else if ch = Some (CHR ''!'') then
           (let (eq, st) = Scanner_match (CHR ''='') st
            in if eq then let (isTripleEq, st) = Scanner_match (CHR ''='') st in Scanner_addToken (TNotEq isTripleEq) st
               else Scanner_addToken Neg st)
         else if ch = Some (CHR 0x27) then Scanner_quotedString st
         else if ch = Some (CHR ''/'') then Scanner_regex st
         else if ch = Some (CHR ''='') then
           (let (eq, st) = Scanner_match (CHR ''='') st
            in if eq then let (isTripleEq, st) = Scanner_match (CHR ''='') st in Scanner_addToken (TEq isTripleEq) st
               else
                 let (tilde, st) = Scanner_match (CHR ''~'') st
                 in if tilde then Scanner_addToken RegexOp st else Scanner_error (hintDidYouMean [''=='', ''=~'']) st)
         else if ch = Some (CHR ''<'') then
           (let (eq, st) = Scanner_match (CHR ''='') st in Scanner_addToken (if eq then LtEq else Lt) st)
         else if ch = Some (CHR ''>'') then
           (let (eq, st) = Scanner_match (CHR ''='') st in Scanner_addToken (if eq then GtEq else Gt) st)
         else if ch = Some (CHR ''&'') then
           (let (amp, st) = Scanner_match (CHR ''&'') st
            in if amp then Scanner_addToken TAnd st else Scanner_error (hintDidYouMean [''&&'']) st)
         else if ch = Some (CHR ''|'') then
           (let (pipe, st) = Scanner_match (CHR ''|'') st
            in if pipe then Scanner_addToken TOr st else Scanner_error (hintDidYouMean [''||'']) st)
         else if ch \<in> {Some (CHR '' ''), Some (CHR 0x0D), Some (CHR 0x09), Some (CHR 0x0A), Some (CHR 0xA0)} then st
         else Scanner_string st)"

lemma match_frame [simp]:
  "sc_input (snd (Scanner_match c st)) = sc_input st" "sc_start (snd (Scanner_match c st)) = sc_start st"
  "sc_tokens (snd (Scanner_match c st)) = sc_tokens st" "sc_errors (snd (Scanner_match c st)) = sc_errors st"
  "sc_current st \<le> sc_current (snd (Scanner_match c st))"
  by (simp_all add: Scanner_match_def)

lemma quote_index_ge: "i \<le> quote_index s i"
  by (induction s i rule: quote_index.induct) (subst quote_index.simps, auto)

lemma regex_close_gt: "regex_close s p e c = Some q \<Longrightarrow> p < q"
proof (induction "length s - p" arbitrary: p e c rule: less_induct)
  case less
  have "Suc p < q" if "p < length s" "regex_close s (Suc p) e' c' = Some q" for e' c'
    using less.hyps [of "Suc p" e' c'] that by simp
  with less.prems [unfolded regex_close.simps [of s p e c]] show ?case
    by (auto simp: Let_def dest: Suc_lessD split: if_splits)
qed

definition scanner_moves :: "Scanner \<Rightarrow> Scanner \<Rightarrow> bool" where
  "scanner_moves st st' \<longleftrightarrow> sc_input st' = sc_input st \<and> sc_current st < sc_current st'"

lemma addToken_frame [simp]:
  "sc_input (Scanner_addToken t st) = sc_input st" "sc_current (Scanner_addToken t st) = sc_current st"
  "sc_start (Scanner_addToken t st) = sc_start st" "sc_errors (Scanner_addToken t st) = sc_errors st"
  "sc_tokens (Scanner_addToken t st) = sc_tokens st @ [\<lparr>tk_type = t, tk_offset = sc_start st\<rparr>]"
  by (simp_all add: Scanner_addToken_def)

lemma error_frame [simp]:
  "sc_input (Scanner_error a st) = sc_input st" "sc_current (Scanner_error a st) = sc_current st"
  "sc_start (Scanner_error a st) = sc_start st"
  by (simp_all add: Scanner_error_def Let_def)

lemma string_frame:
  "sc_input (Scanner_string st) = sc_input st" "sc_current st \<le> Suc (sc_start st) \<Longrightarrow> sc_current st \<le> sc_current (Scanner_string st)"
proof -
  define m where "m = takeWhile string_char (drop (sc_start st) (sc_input st))"
  have "m = [] \<or> Suc 0 \<le> length m" by (cases m) auto
  then show "sc_input (Scanner_string st) = sc_input st" "sc_current st \<le> Suc (sc_start st) \<Longrightarrow> sc_current st \<le> sc_current (Scanner_string st)"
    by (auto simp: Scanner_string_def Let_def simp flip: m_def split: option.splits)
qed

lemma quotedString_frame:
  "sc_input (Scanner_quotedString st) = sc_input st" "sc_current st \<le> sc_current (Scanner_quotedString st)"
  using quote_index_ge [of "sc_current st" "sc_input st"]
  by (auto simp: Scanner_quotedString_def Scanner_advance_def Let_def)

lemma regex_frame:
  "sc_input (Scanner_regex st) = sc_input st" "sc_current st \<le> sc_current (Scanner_regex st)"
  using regex_close_gt [of "sc_input st" "sc_current st" False False]
  by (auto simp: Scanner_regex_def Let_def split: option.splits)

lemma scan_step_moves: "\<not> Scanner_isAtEnd st \<Longrightarrow> scanner_moves st (scan_step st)"
proof -
  let ?st = "st\<lparr>sc_start := sc_current st, sc_current := sc_current st + 1\<rparr>"
  have string: "sc_input (Scanner_string ?st) = sc_input st" "sc_current st < sc_current (Scanner_string ?st)"
    using string_frame [of ?st] by simp_all
  have quoted: "sc_input (Scanner_quotedString ?st) = sc_input st" "sc_current st < sc_current (Scanner_quotedString ?st)"
    using quotedString_frame [of ?st] by simp_all
  have regex: "sc_input (Scanner_regex ?st) = sc_input st" "sc_current st < sc_current (Scanner_regex ?st)"
    using regex_frame [of ?st] by simp_all
  show ?thesis
    unfolding scanner_moves_def scan_step_def Scanner_advance_def Let_def Scanner_match_def
    using string quoted regex by simp
qed

function scan_loop :: "Scanner \<Rightarrow> Scanner" where
  "scan_loop st = (if Scanner_isAtEnd st then st else scan_loop (scan_step st))"
  by pat_completeness auto
termination
proof (relation "measure (\<lambda>st. length (sc_input st) - sc_current st)")
  fix st assume "\<not> Scanner_isAtEnd st"
  then show "(scan_step st, st) \<in> measure (\<lambda>st. length (sc_input st) - sc_current st)"
    using scan_step_moves [of st] by (auto simp: scanner_moves_def Scanner_isAtEnd_def)
qed simp

declare scan_loop.simps [simp del]

definition Scanner_scan :: "Scanner \<Rightarrow> Token list \<times> Scanner" where
  "Scanner_scan st =
     (let st = scan_loop st; st = Scanner_addToken EOF (st\<lparr>sc_start := sc_current st\<rparr>)
      in (sc_tokens st, st))"

text \<open>The loop adds no \<open>EOF\<close> token, so there is one, at the end.\<close>

definition no_EOF :: "Scanner \<Rightarrow> bool" where
  "no_EOF st \<longleftrightarrow> (\<forall>t \<in> set (sc_tokens st). tk_type t \<noteq> EOF)"

lemma no_EOF_token: "no_EOF st \<Longrightarrow> t \<noteq> EOF \<Longrightarrow> no_EOF (Scanner_addToken t st)"
  by (auto simp: no_EOF_def)

lemma no_EOF_error: "no_EOF st \<Longrightarrow> no_EOF (Scanner_error a st)"
  by (auto simp: no_EOF_def Scanner_error_def Let_def)

lemma no_EOF_match: "no_EOF (snd (Scanner_match c st)) \<longleftrightarrow> no_EOF st"
  by (simp add: no_EOF_def)

lemma no_EOF_cursor: "no_EOF (st\<lparr>sc_current := i\<rparr>) \<longleftrightarrow> no_EOF st" "no_EOF (st\<lparr>sc_start := i\<rparr>) \<longleftrightarrow> no_EOF st"
  by (simp_all add: no_EOF_def)

lemma no_EOF_string: "no_EOF st \<Longrightarrow> no_EOF (Scanner_string st)"
  by (auto simp: Scanner_string_def Let_def token_keywords_def no_EOF_cursor intro!: no_EOF_token split: option.splits)

lemma no_EOF_quotedString: "no_EOF st \<Longrightarrow> no_EOF (Scanner_quotedString st)"
  by (simp add: Scanner_quotedString_def Let_def no_EOF_error no_EOF_cursor Scanner_advance_def) (auto simp: no_EOF_def)

lemma no_EOF_regex: "no_EOF st \<Longrightarrow> no_EOF (Scanner_regex st)"
  by (auto simp: Scanner_regex_def Let_def no_EOF_cursor intro!: no_EOF_token no_EOF_error split: option.splits)

lemma no_EOF_step: "no_EOF st \<Longrightarrow> no_EOF (scan_step st)"
  unfolding scan_step_def Scanner_advance_def Let_def
  by (auto simp: case_prod_unfold no_EOF_cursor no_EOF_match
      intro!: no_EOF_token no_EOF_error no_EOF_string no_EOF_quotedString no_EOF_regex)

lemma no_EOF_loop: "no_EOF st \<Longrightarrow> no_EOF (scan_loop st)"
proof (induction st rule: scan_loop.induct)
  case (1 st)
  then show ?case using no_EOF_step [of st] by (simp add: scan_loop.simps [of st])
qed

lemma scan_tokens:
  "\<exists>ts k. fst (Scanner_scan (Scanner_reset s)) = ts @ [\<lparr>tk_type = EOF, tk_offset = k\<rparr>] \<and> (\<forall>t \<in> set ts. tk_type t \<noteq> EOF)"
  using no_EOF_loop [of "Scanner_reset s"]
  by (auto simp: Scanner_scan_def Let_def no_EOF_def Scanner_reset_def)

section \<open>Scanning what was written\<close>

text \<open>The text of a token, and of a list of tokens separated by blanks, with none after \<open>!\<close>.\<close>

fun lexeme_text :: "token_type \<Rightarrow> string" where
  "lexeme_text (QuotedStr s) = quote @ s @ quote"
| "lexeme_text t = getLexeme t"

fun glue :: "token_type list \<Rightarrow> string" where
  "glue [] = []"
| "glue (t # ts) = lexeme_text t @ (if ts = [] \<or> t = Neg then [] else '' '') @ glue ts"

definition string_lexeme :: "string \<Rightarrow> bool" where
  "string_lexeme s \<longleftrightarrow> s \<noteq> [] \<and> list_all string_char s \<and> hd s \<notin> {CHR ''/'', CHR ''<'', CHR ''>''}"

fun clean_token :: "token_type \<Rightarrow> bool" where
  "clean_token (Str s) \<longleftrightarrow> string_lexeme s \<and> token_keywords s = None"
| "clean_token (QuotedStr s) \<longleftrightarrow> CHR 0x27 \<notin> set s"
| "clean_token (RegexStr s) \<longleftrightarrow> False"
| "clean_token (TError s) \<longleftrightarrow> False"
| "clean_token EOF \<longleftrightarrow> False"
| "clean_token t \<longleftrightarrow> True"

fun clean_tokens :: "token_type list \<Rightarrow> bool" where
  "clean_tokens [] \<longleftrightarrow> True"
| "clean_tokens (t # ts) \<longleftrightarrow>
     clean_token t \<and> (t = Neg \<and> ts \<noteq> [] \<longrightarrow> (\<forall>b. hd ts \<noteq> TEq b) \<and> hd ts \<noteq> RegexOp) \<and> clean_tokens ts"

text \<open>The tokens read so far without an error, and the text that is left.\<close>

definition scanned :: "Scanner \<Rightarrow> string \<Rightarrow> token_type list \<Rightarrow> bool" where
  "scanned st rest ts \<longleftrightarrow>
     drop (sc_current st) (sc_input st) = rest \<and> map tk_type (sc_tokens st) = ts \<and> sc_errors st = []"

lemma drop_head:
  assumes "drop i s = c # r"
  shows "charCodeAt s i = Some c" and "drop (Suc i) s = r" and "i < length s"
proof -
  show "i < length s" using assms by (metis drop_all leI list.distinct(1))
  then show "charCodeAt s i = Some c" "drop (Suc i) s = r"
    using assms by (simp_all add: charCodeAt_def Cons_nth_drop_Suc [symmetric])
qed

lemma drop_end: "drop i s = [] \<Longrightarrow> charCodeAt s i = None"
  by (simp add: charCodeAt_def)

text \<open>The next character, as \<open>match\<close> sees it.\<close>

lemma match_next:
  "Scanner_match c st =
     (case drop (sc_current st) (sc_input st) of
        x # r \<Rightarrow> if x = c then (True, st\<lparr>sc_current := Suc (sc_current st)\<rparr>) else (False, st)
      | [] \<Rightarrow> (False, st))"
  using drop_head [of "sc_current st" "sc_input st"]
  by (auto simp: Scanner_match_def Scanner_isAtEnd_def split: list.splits)

lemma advance_next:
  "drop (sc_current st) (sc_input st) = c # r \<Longrightarrow> Scanner_advance st = (Some c, st\<lparr>sc_current := Suc (sc_current st)\<rparr>)"
  using drop_head [of "sc_current st" "sc_input st" c r] by (simp add: Scanner_advance_def)

lemma drop_Suc_more: "drop i (s :: string) = c # r \<Longrightarrow> drop (Suc i) s = r"
  by (rule drop_head(2))

text \<open>After a token comes the end or a blank; after \<open>!\<close> anything but \<open>=\<close>.\<close>

definition boundary :: "token_type \<Rightarrow> string \<Rightarrow> bool" where
  "boundary t rest \<longleftrightarrow> (if t = Neg then rest = [] \<or> hd rest \<noteq> CHR ''='' else rest = [] \<or> hd rest = CHR '' '')"

lemma step_symbol:
  assumes "scanned st (getLexeme t @ rest) ts" and "boundary t rest"
    and "t \<in> {LParen, RParen, Neg, TEq False, TNotEq False, TEq True, TNotEq True, Lt, LtEq, Gt, GtEq, RegexOp, TAnd, TOr}"
  shows "scanned (scan_step st) rest (ts @ [t])"
  using assms
  by (cases rest; elim insertE emptyE)
    (auto simp: scanned_def scan_step_def advance_next match_next drop_Suc_more boundary_def Let_def)

lemma step_blank:
  "scanned st (CHR '' '' # rest) ts \<Longrightarrow> scanned (scan_step st) rest ts"
  by (auto simp: scanned_def scan_step_def advance_next drop_Suc_more)

text \<open>The characters that the loop treats before it tries \<open>stringRe\<close>.\<close>

lemma string_char_first:
  assumes "string_char c" and "c \<notin> {CHR ''/'', CHR ''<'', CHR ''>''}"
  shows "c \<notin> {CHR ''('', CHR '')'', CHR ''!'', CHR 0x27, CHR ''/'', CHR ''='', CHR ''<'', CHR ''>'', CHR ''&'', CHR ''|'',
    CHR '' '', CHR 0x0D, CHR 0x09, CHR 0x0A, CHR 0xA0}"
proof -
  have "\<not> string_char (CHR ''('')" "\<not> string_char (CHR '')'')" "\<not> string_char (CHR ''!'')" "\<not> string_char (CHR 0x27)"
    "\<not> string_char (CHR ''='')" "\<not> string_char (CHR ''&'')" "\<not> string_char (CHR ''|'')" "\<not> string_char (CHR '' '')"
    "\<not> string_char (CHR 0x0D)" "\<not> string_char (CHR 0x09)" "\<not> string_char (CHR 0x0A)" "\<not> string_char (CHR 0xA0)"
    by code_simp+
  then show ?thesis using assms by auto
qed

lemma takeWhile_word:
  "list_all P w \<Longrightarrow> rest = [] \<or> \<not> P (hd rest) \<Longrightarrow> takeWhile P (w @ rest) = w"
  by (induction w) (auto simp: takeWhile_eq_Nil_iff)

lemma step_word:
  assumes "scanned st (w @ rest) ts" and "string_lexeme w" and "rest = [] \<or> hd rest = CHR '' ''"
  shows "scanned (scan_step st) rest (ts @ [case token_keywords w of Some k \<Rightarrow> k | None \<Rightarrow> Str w])"
proof -
  obtain c r where w: "w = c # r" using assms(2) by (cases w) (auto simp: string_lexeme_def)
  have c: "string_char c" "c \<notin> {CHR ''/'', CHR ''<'', CHR ''>''}" using assms(2) by (auto simp: string_lexeme_def w)
  let ?st = "st\<lparr>sc_start := sc_current st, sc_current := Suc (sc_current st)\<rparr>"
  have d: "drop (sc_current st) (sc_input st) = c # (r @ rest)" using assms(1) by (simp add: scanned_def w)
  have "scan_step st = Scanner_string ?st"
    using string_char_first [OF c] d by (simp add: scan_step_def advance_next Let_def)
  moreover have "\<not> string_char (CHR '' '')" by code_simp
  then have "takeWhile string_char (drop (sc_current st) (sc_input st)) = w"
    using takeWhile_word [of string_char w rest] assms by (auto simp: scanned_def string_lexeme_def)
  moreover have "js_segment (sc_input st) (sc_current st) (sc_current st + length w) = w"
    "drop (sc_current st + length w) (sc_input st) = rest"
    using assms(1) by (simp_all add: js_segment_def scanned_def flip: drop_drop add.commute [of "length w"])
  ultimately show ?thesis
    using assms(1) by (auto simp: Scanner_string_def Let_def w scanned_def split: option.splits)
qed

lemma quote_index_word:
  "drop i s = w @ CHR 0x27 # rest \<Longrightarrow> CHR 0x27 \<notin> set w \<Longrightarrow> quote_index s i = i + length w"
proof (induction w arbitrary: i)
  case Nil
  then show ?case using drop_head [of i s "CHR 0x27" rest] by (simp add: quote_index.simps [of s i])
next
  case (Cons c w)
  then show ?case using drop_head [of i s c "w @ CHR 0x27 # rest"] Cons.IH [of "Suc i"] by (auto simp: quote_index.simps [of s i])
qed

lemma step_quoted:
  assumes "scanned st (quote @ w @ quote @ rest) ts" and "CHR 0x27 \<notin> set w"
  shows "scanned (scan_step st) rest (ts @ [QuotedStr w])"
proof -
  let ?i = "Suc (sc_current st)"
  have d: "drop (sc_current st) (sc_input st) = CHR 0x27 # (w @ CHR 0x27 # rest)" using assms(1) by (simp add: scanned_def quote_def)
  then have d1: "drop ?i (sc_input st) = w @ CHR 0x27 # rest" by (rule drop_head(2))
  then have d2: "drop (?i + length w) (sc_input st) = CHR 0x27 # rest" by (metis add.commute append_eq_conv_conj drop_drop)
  have "scan_step st = Scanner_quotedString (st\<lparr>sc_start := sc_current st, sc_current := ?i\<rparr>)"
    using d by (simp add: scan_step_def advance_next Let_def)
  moreover have "js_segment (sc_input st) ?i (?i + length w) = w" using d1 by (simp add: js_segment_def)
  ultimately show ?thesis
    using assms(1) quote_index_word [OF d1 assms(2)] drop_head [OF d2]
    by (simp add: Scanner_quotedString_def Scanner_isAtEnd_def Scanner_advance_def Let_def scanned_def)
qed

lemma step_token:
  assumes "scanned st (lexeme_text t @ rest) ts" and "clean_token t" and "boundary t rest"
  shows "scanned (scan_step st) rest (ts @ [t])"
proof (cases t)
  case (Str w)
  then show ?thesis using step_word [of st w rest ts] assms by (auto simp: boundary_def)
next
  case (QuotedStr w)
  then show ?thesis using step_quoted [of st w rest ts] assms by simp
next
  case TTrue
  have "string_lexeme ''true''" "token_keywords ''true'' = Some TTrue" by code_simp+
  then show ?thesis using step_word [of st "''true''" rest ts] assms TTrue by (auto simp: boundary_def)
next
  case TFalse
  have "string_lexeme ''false''" "token_keywords ''false'' = Some TFalse" by code_simp+
  then show ?thesis using step_word [of st "''false''" rest ts] assms TFalse by (auto simp: boundary_def)
next
  case TIn
  have "string_lexeme ''in''" "token_keywords ''in'' = Some TIn" by code_simp+
  then show ?thesis using step_word [of st "''in''" rest ts] assms TIn by (auto simp: boundary_def)
next
  case TNot
  have "string_lexeme ''not''" "token_keywords ''not'' = Some TNot" by code_simp+
  then show ?thesis using step_word [of st "''not''" rest ts] assms TNot by (auto simp: boundary_def)
next
  case (TEq b)
  then show ?thesis using step_symbol [of st t rest ts] assms by (cases b) auto
next
  case (TNotEq b)
  then show ?thesis using step_symbol [of st t rest ts] assms by (cases b) auto
qed (use step_symbol [of st t rest ts] assms in auto)

lemma glue_boundary:
  "clean_tokens (t # ts) \<Longrightarrow> boundary t ((if ts = [] \<or> t = Neg then [] else '' '') @ glue ts)"
proof (cases "t = Neg \<and> ts \<noteq> []")
  case True
  assume "clean_tokens (t # ts)"
  with True obtain u us where u: "ts = u # us" "clean_token u" "\<forall>b. u \<noteq> TEq b" "u \<noteq> RegexOp" by (cases ts) auto
  have "lexeme_text u \<noteq> [] \<and> hd (lexeme_text u) \<noteq> CHR ''=''"
  proof (cases u)
    case (Str w)
    have "\<not> string_char (CHR ''='')" by code_simp
    then show ?thesis using u(2) Str by (cases w) (auto simp: string_lexeme_def)
  next
    case (TNotEq b)
    then show ?thesis by simp
  qed (use u in \<open>auto simp: quote_def\<close>)
  then show ?thesis using True by (auto simp: boundary_def u(1) hd_append)
qed (auto simp: boundary_def)

lemma scanned_end: "scanned st [] ts \<Longrightarrow> scan_loop st = st"
  by (simp add: scanned_def Scanner_isAtEnd_def scan_loop.simps [of st])

lemma scanned_more: "scanned st (c # rest) ts \<Longrightarrow> scan_loop st = scan_loop (scan_step st)"
  using drop_head(3) [of "sc_current st" "sc_input st" c rest]
  by (simp add: scanned_def Scanner_isAtEnd_def scan_loop.simps [of st])

lemma lexeme_text_nonempty: "clean_token t \<Longrightarrow> lexeme_text t \<noteq> []"
  by (cases t) (auto simp: string_lexeme_def quote_def)

lemma scan_loop_glue:
  "scanned st (glue us) ts \<Longrightarrow> clean_tokens us \<Longrightarrow> scanned (scan_loop st) [] (ts @ us)"
proof (induction us arbitrary: st ts)
  case Nil
  then show ?case by (simp add: scanned_end)
next
  case (Cons u us)
  let ?blank = "if us = [] \<or> u = Neg then [] else '' ''"
  have u: "clean_token u" "clean_tokens us" using Cons.prems(2) by simp_all
  have whole: "scanned st (lexeme_text u @ (?blank @ glue us)) ts" using Cons.prems(1) by simp
  have step: "scanned (scan_step st) (?blank @ glue us) (ts @ [u])"
    by (rule step_token [OF whole u(1) glue_boundary [OF Cons.prems(2)]])
  obtain c r where "lexeme_text u @ (?blank @ glue us) = c # r" using lexeme_text_nonempty [OF u(1)] by (cases "lexeme_text u") auto
  then have loop: "scan_loop st = scan_loop (scan_step st)" using scanned_more whole by metis
  show ?case
  proof (cases "us = [] \<or> u = Neg")
    case True
    then show ?thesis using Cons.IH [of "scan_step st" "ts @ [u]"] step u(2) loop by simp
  next
    case False
    then have blank: "scanned (scan_step st) (CHR '' '' # glue us) (ts @ [u])" using step by simp
    then have "scan_loop (scan_step st) = scan_loop (scan_step (scan_step st))" by (rule scanned_more)
    then show ?thesis using Cons.IH [OF step_blank [OF blank] u(2)] loop by simp
  qed
qed

text \<open>Scanning the text of clean tokens gives these tokens back, without an error.\<close>

lemma scan_glue:
  assumes "clean_tokens us"
  shows "map tk_type (fst (Scanner_scan (Scanner_reset (glue us)))) = us @ [EOF] \<and>
    sc_errors (snd (Scanner_scan (Scanner_reset (glue us)))) = []"
proof -
  have "scanned (Scanner_reset (glue us)) (glue us) []" by (simp add: scanned_def Scanner_reset_def)
  from scan_loop_glue [OF this assms] show ?thesis by (simp add: scanned_def Scanner_scan_def Let_def)
qed

end
