(* ===== verification/Context_Parser.thy ===== *)
theory Context_Parser
  imports Context_Scanner Context_Termination
begin

text \<open>
  The parser of when-clauses, class \<open>Parser\<close> of \<open>contextkey.ts\<close>: recursive descent over the tokens of the
  scanner, with the errors it collects.  The parser does not build a syntax tree but calls \<open>and\<close>, \<open>or\<close> and
  \<open>negate\<close>, here the engine it gets as an argument.  A method answers a value and the state, or throws
  \<open>Parser._parseError\<close> with the state it leaves; \<open>Stuck\<close> is an engine call without answer, or the end of the
  recursion fuel, which \<open>Parser_parse\<close> chooses from the number of tokens.
\<close>

section \<open>State and results\<close>

record ParsingError =
  pe_message :: string
  pe_offset :: nat
  pe_lexeme :: string
  pe_additionalInfo :: "string option"

record Parser =
  pa_tokens :: "Token list"
  pa_current :: nat
  pa_errors :: "ParsingError list"
  pa_scanner :: Scanner

datatype 'a parsed = Done 'a Parser | Thrown Parser | Stuck

fun pbind :: "'a parsed \<Rightarrow> ('a \<Rightarrow> Parser \<Rightarrow> 'b parsed) \<Rightarrow> 'b parsed" where
  "pbind (Done x st) f = f x st"
| "pbind (Thrown st) f = Thrown st"
| "pbind Stuck f = Stuck"

lemma pbind_cong [fundef_cong]:
  "m = m' \<Longrightarrow> (\<And>x st. m' = Done x st \<Longrightarrow> f x st = g x st) \<Longrightarrow> pbind m f = pbind m' g"
  by (cases m') auto

text \<open>An answer of the engine.\<close>

definition answered :: "ck_expr option option \<Rightarrow> Parser \<Rightarrow> ck_expr option parsed" where
  "answered r st = (case r of None \<Rightarrow> Stuck | Some e \<Rightarrow> Done e st)"

text \<open>The tokens end with \<open>EOF\<close> and \<open>advance\<close> stops there, so the index stays in range.\<close>

definition Parser_peek :: "Parser \<Rightarrow> Token" where
  "Parser_peek st =
     (if pa_current st < length (pa_tokens st) then pa_tokens st ! pa_current st else \<lparr>tk_type = EOF, tk_offset = 0\<rparr>)"

definition Parser_isAtEnd :: "Parser \<Rightarrow> bool" where
  "Parser_isAtEnd st \<longleftrightarrow> tk_type (Parser_peek st) = EOF"

definition Parser_previous :: "Parser \<Rightarrow> Token" where
  "Parser_previous st = pa_tokens st ! (pa_current st - 1)"

definition Parser_advance :: "Parser \<Rightarrow> Parser" where
  "Parser_advance st = (if Parser_isAtEnd st then st else st\<lparr>pa_current := pa_current st + 1\<rparr>)"

definition Parser_check :: "token_type \<Rightarrow> Parser \<Rightarrow> bool" where
  "Parser_check t st \<longleftrightarrow> tk_type (Parser_peek st) = t"

definition Parser_matchOne :: "token_type \<Rightarrow> Parser \<Rightarrow> bool \<times> Parser" where
  "Parser_matchOne t st = (if Parser_check t st then (True, Parser_advance st) else (False, st))"

definition push_error :: "string \<Rightarrow> nat \<Rightarrow> string \<Rightarrow> string option \<Rightarrow> Parser \<Rightarrow> Parser" where
  "push_error message offset lexeme info st =
     st\<lparr>pa_errors := pa_errors st @
          [\<lparr>pe_message = message, pe_offset = offset, pe_lexeme = lexeme, pe_additionalInfo = info\<rparr>]\<rparr>"

definition newline :: "string" where
  "newline = [CHR 0x0A]"

definition Parser_errExpectedButGot :: "string \<Rightarrow> Token \<Rightarrow> Parser \<Rightarrow> 'a parsed" where
  "Parser_errExpectedButGot expected got st =
     Thrown (push_error (''Expected: '' @ expected @ newline @ ''Received: '' @ quote @ getLexeme (tk_type got) @ quote @ ''.'')
       (tk_offset got) (getLexeme (tk_type got)) None st)"

definition Parser_consume :: "token_type \<Rightarrow> string \<Rightarrow> Parser \<Rightarrow> unit parsed" where
  "Parser_consume t message st =
     (if Parser_check t st then Done () (Parser_advance st) else Parser_errExpectedButGot message (Parser_peek st) st)"

definition errorNoInAfterNot :: "string" where
  "errorNoInAfterNot = quote @ ''in'' @ quote @ '' after '' @ quote @ ''not'' @ quote @ ''.''"

definition errorClosingParenthesis :: "string" where
  "errorClosingParenthesis = ''closing parenthesis '' @ quote @ '')'' @ quote"

definition errorUnexpectedEOF :: "string" where
  "errorUnexpectedEOF = ''Unexpected end of expression''"

definition hintUnexpectedEOF :: "string" where
  "hintUnexpectedEOF = ''Did you forget to put a context key?''"

definition errorUnexpectedToken :: "string" where
  "errorUnexpectedToken = ''Unexpected token''"

definition hintUnexpectedToken :: "string" where
  "hintUnexpectedToken = ''Did you forget to put && or || before the token?''"

definition errorEmptyString :: "string" where
  "errorEmptyString = ''Empty context key expression''"

definition hintEmptyString :: "string" where
  "hintEmptyString =
     ''Did you forget to write an expression? You can also put '' @ quote @ ''false'' @ quote @ '' or '' @ quote @ ''true'' @ quote @
     '' to always evaluate to false or true, respectively.''"

section \<open>Values and regular expressions\<close>

text \<open>\<open>_value\<close>: a missing value is the empty string, and nothing is consumed then.\<close>

definition Parser_value :: "Parser \<Rightarrow> string \<times> Parser" where
  "Parser_value st =
     (case tk_type (Parser_peek st) of
        Str lexeme \<Rightarrow> (lexeme, Parser_advance st)
      | QuotedStr lexeme \<Rightarrow> (lexeme, Parser_advance st)
      | TTrue \<Rightarrow> (''true'', Parser_advance st)
      | TFalse \<Rightarrow> (''false'', Parser_advance st)
      | TIn \<Rightarrow> (''in'', Parser_advance st)
      | _ \<Rightarrow> ([], st))"

definition removeFlagsGY :: "string \<Rightarrow> string" where
  "removeFlagsGY flags = filter (\<lambda>c. c \<noteq> CHR ''g'' \<and> c \<noteq> CHR ''y'') flags"

text \<open>The constructor \<open>RegExp\<close> of the engine; None when it throws a syntax error.\<close>

type_synonym regexp_constructor = "string \<Rightarrow> string \<Rightarrow> RegExp option"

fun last_index_of :: "char \<Rightarrow> string \<Rightarrow> int" where
  "last_index_of c [] = - 1"
| "last_index_of c (x # s) = (if last_index_of c s \<ge> 0 then last_index_of c s + 1 else if x = c then 0 else - 1)"

fun index_of :: "char \<Rightarrow> string \<Rightarrow> int" where
  "index_of c [] = - 1"
| "index_of c (x # s) = (if x = c then 0 else if index_of c s \<ge> 0 then index_of c s + 1 else - 1)"

text \<open>From the lexeme of a literal, \<open>/REGEX/FLAGS\<close>, to the expression.\<close>

definition regex_of_lexeme :: "regexp_constructor \<Rightarrow> string \<Rightarrow> string \<Rightarrow> Token \<Rightarrow> Parser \<Rightarrow> ck_expr option parsed" where
  "regex_of_lexeme R key regexLexeme token st =
     (let closingSlashIndex = last_index_of (CHR ''/'') regexLexeme;
          flags = (if closingSlashIndex = int (length regexLexeme) - 1 then []
                   else removeFlagsGY (js_substring_from regexLexeme (closingSlashIndex + 1)))
      in case R (js_substring regexLexeme 1 closingSlashIndex) flags of
           None \<Rightarrow> Parser_errExpectedButGot ''REGEX'' token st
         | Some regexp \<Rightarrow> Done (Some (ContextKeyRegexExpr_create key (Some regexp))) st)"

definition regex_strict :: "regexp_constructor \<Rightarrow> string \<Rightarrow> Parser \<Rightarrow> ck_expr option parsed" where
  "regex_strict R key st =
     (let expr = Parser_peek st; st = Parser_advance st
      in case tk_type expr of
           RegexStr regexLexeme \<Rightarrow> regex_of_lexeme R key regexLexeme expr st
         | _ \<Rightarrow> Parser_errExpectedButGot ''REGEX'' expr st)"

fun paren_balance :: "string \<Rightarrow> int" where
  "paren_balance [] = 0"
| "paren_balance (c # s) = (if c = CHR ''('' then 1 else if c = CHR '')'' then - 1 else 0) + paren_balance s"

text \<open>
  The parentheses in a later literal: an opening one is looked for in that token, a closing one in the first
  literal, at the same index.
\<close>

definition following_balance :: "string \<Rightarrow> string \<Rightarrow> int" where
  "following_balance exprLexeme lexeme =
     sum_list (map (\<lambda>i. if lexeme ! i = CHR ''('' then 1
                        else if charCodeAt exprLexeme i = Some (CHR '')'') then - 1 else 0) [0..<length lexeme])"

text \<open>The loop that collects the lexemes up to the next \<open>&&\<close>, \<open>||\<close> or surplus closing parenthesis.\<close>

fun reconstruct :: "string \<Rightarrow> int \<Rightarrow> Token list \<Rightarrow> string list \<times> nat" where
  "reconstruct exprLexeme parenBalance [] = ([], 0)"
| "reconstruct exprLexeme parenBalance (followingToken # rest) =
     (if tk_type followingToken \<in> {EOF, TAnd, TOr} then ([], 0)
      else
        let balance =
              (case tk_type followingToken of
                 LParen \<Rightarrow> parenBalance + 1
               | RParen \<Rightarrow> parenBalance - 1
               | RegexStr lexeme \<Rightarrow> parenBalance + following_balance exprLexeme lexeme
               | QuotedStr lexeme \<Rightarrow> parenBalance + following_balance exprLexeme lexeme
               | _ \<Rightarrow> parenBalance)
        in if balance < 0 then ([], 0)
           else
             let (lexemes, n) = reconstruct exprLexeme balance rest
             in (getLexeme (tk_type followingToken) # lexemes, n + 1))"

definition regex_recover :: "regexp_constructor \<Rightarrow> string \<Rightarrow> string \<Rightarrow> Token \<Rightarrow> Parser \<Rightarrow> ck_expr option parsed" where
  "regex_recover R key exprLexeme expr st =
     (let st = Parser_advance st;
          (lexemes, n) = reconstruct exprLexeme (paren_balance exprLexeme) (drop (pa_current st) (pa_tokens st))
      in regex_of_lexeme R key (concat (exprLexeme # lexemes)) expr (st\<lparr>pa_current := pa_current st + n\<rparr>))"

text \<open>The old syntax, a quoted string that holds the literal.\<close>

definition regex_quoted :: "regexp_constructor \<Rightarrow> string \<Rightarrow> string \<Rightarrow> Token \<Rightarrow> Parser \<Rightarrow> ck_expr option parsed" where
  "regex_quoted R key serializedValue expr st0 =
     (let st = Parser_advance st0;
          start = index_of (CHR ''/'') serializedValue;
          end = last_index_of (CHR ''/'') serializedValue
      in if \<not> list_all is_space serializedValue \<and> start \<noteq> end \<and> start \<ge> 0
         then
           (case R (js_slice serializedValue (start + 1) end)
                   (if js_at serializedValue (end + 1) = Some (CHR ''i'') then ''i'' else []) of
              None \<Rightarrow> Parser_errExpectedButGot ''REGEX'' expr st
            | Some regex \<Rightarrow> Done (Some (ContextKeyRegexExpr_create key (Some regex))) st)
         else Parser_errExpectedButGot ''REGEX'' expr st)"

definition Parser_regex :: "regexp_constructor \<Rightarrow> bool \<Rightarrow> string \<Rightarrow> Parser \<Rightarrow> ck_expr option parsed" where
  "Parser_regex R regexParsingWithErrorRecovery key st =
     (let expr = Parser_peek st
      in if \<not> regexParsingWithErrorRecovery then regex_strict R key st
         else
           (case tk_type expr of
              RegexStr lexeme \<Rightarrow> regex_recover R key lexeme expr st
            | TError lexeme \<Rightarrow> regex_recover R key lexeme expr st
            | QuotedStr serializedValue \<Rightarrow> regex_quoted R key serializedValue expr st
            | _ \<Rightarrow> Parser_errExpectedButGot ''REGEX'' (Parser_peek st) st))"

section \<open>The grammar\<close>

text \<open>The part of \<open>_primary\<close> after a key.\<close>

definition Parser_key :: "ck_host \<Rightarrow> regexp_constructor \<Rightarrow> bool \<Rightarrow> string \<Rightarrow> Parser \<Rightarrow> ck_expr option parsed" where
  "Parser_key H R recover key st =
     (if Parser_check RegexOp st then Parser_regex R recover key (Parser_advance st)
      else if Parser_check TNot st then
        pbind (Parser_consume TIn errorNoInAfterNot (Parser_advance st)) (\<lambda>_ st.
          let (right, st) = Parser_value st in Done (Some (ContextKeyNotInExpr_create key right)) st)
      else
        let (right, after) = Parser_value (Parser_advance st);
            quoted = (case tk_type (Parser_previous after) of QuotedStr _ \<Rightarrow> True | _ \<Rightarrow> False)
        in case tk_type (Parser_peek st) of
             TEq _ \<Rightarrow>
               (if quoted then Done (Some (ContextKeyEqualsExpr_create H key (PStr right))) after
                else if right = ''true'' then Done (Some (ContextKeyDefinedExpr_create H key)) after
                else if right = ''false'' then Done (Some (ContextKeyNotExpr_create H key)) after
                else Done (Some (ContextKeyEqualsExpr_create H key (PStr right))) after)
           | TNotEq _ \<Rightarrow>
               (if quoted then Done (Some (ContextKeyNotEqualsExpr_create H key (PStr right))) after
                else if right = ''true'' then Done (Some (ContextKeyNotExpr_create H key)) after
                else if right = ''false'' then Done (Some (ContextKeyDefinedExpr_create H key)) after
                else Done (Some (ContextKeyNotEqualsExpr_create H key (PStr right))) after)
           | Lt \<Rightarrow> Done (Some (ContextKeySmallerExpr_create key (PStr right))) after
           | LtEq \<Rightarrow> Done (Some (ContextKeySmallerEqualsExpr_create key (PStr right))) after
           | Gt \<Rightarrow> Done (Some (ContextKeyGreaterExpr_create key (PStr right))) after
           | GtEq \<Rightarrow> Done (Some (ContextKeyGreaterEqualsExpr_create key (PStr right))) after
           | TIn \<Rightarrow> Done (Some (ContextKeyInExpr_create key right)) after
           | _ \<Rightarrow> Done (Some (ContextKeyDefinedExpr_create H key)) st)"

definition expected_term :: "string" where
  "expected_term = ''KEY | true | false | '' @ quote @ ''('' @ quote @ '' expression '' @ quote @ '')'' @ quote"

definition expected_primary :: "string" where
  "expected_primary =
     ''true | false | KEY '' @ newline @ [CHR 0x09] @ ''| KEY '' @ quote @ ''=~'' @ quote @ '' REGEX '' @ newline @ [CHR 0x09] @
     ''| KEY ('' @ join_with '' | '' (map (\<lambda>op. quote @ op @ quote) [''=='', ''!='', ''<'', ''<='', ''>'', ''>='', ''in'']) @
     '' | '' @ quote @ ''not'' @ quote @ '' '' @ quote @ ''in'' @ quote @ '') value''"

text \<open>
  \<open>_term\<close> and \<open>_primary\<close> call \<open>_expr\<close> between parentheses; they get it as an argument.
\<close>

type_synonym parser_method = "Parser \<Rightarrow> ck_expr option parsed"

definition Parser_primary :: "ck_host \<Rightarrow> regexp_constructor \<Rightarrow> bool \<Rightarrow> parser_method \<Rightarrow> parser_method" where
  "Parser_primary H R recover parse_expr st =
     (let peek = Parser_peek st
      in case tk_type peek of
           TTrue \<Rightarrow> Done (Some TrueExpr) (Parser_advance st)
         | TFalse \<Rightarrow> Done (Some FalseExpr) (Parser_advance st)
         | LParen \<Rightarrow>
             pbind (parse_expr (Parser_advance st)) (\<lambda>expr st.
             pbind (Parser_consume RParen errorClosingParenthesis st) (\<lambda>_ st. Done expr st))
         | Str key \<Rightarrow> Parser_key H R recover key (Parser_advance st)
         | EOF \<Rightarrow> Thrown (push_error errorUnexpectedEOF (tk_offset peek) [] (Some hintUnexpectedEOF) st)
         | _ \<Rightarrow> Parser_errExpectedButGot expected_primary (Parser_peek st) st)"

definition Parser_negated :: "ck_host \<Rightarrow> ck_engine \<Rightarrow> parser_method \<Rightarrow> parser_method" where
  "Parser_negated H call parse_expr st =
     (let peek = Parser_peek st
      in case tk_type peek of
           TTrue \<Rightarrow> Done (Some FalseExpr) (Parser_advance st)
         | TFalse \<Rightarrow> Done (Some TrueExpr) (Parser_advance st)
         | LParen \<Rightarrow>
             pbind (parse_expr (Parser_advance st)) (\<lambda>expr st.
             pbind (Parser_consume RParen errorClosingParenthesis st) (\<lambda>_ st.
             case expr of None \<Rightarrow> Done None st | Some e \<Rightarrow> answered (call (Negate e)) st))
         | Str lexeme \<Rightarrow> Done (Some (ContextKeyNotExpr_create H lexeme)) (Parser_advance st)
         | _ \<Rightarrow> Parser_errExpectedButGot expected_term peek st)"

definition Parser_term :: "ck_host \<Rightarrow> regexp_constructor \<Rightarrow> ck_engine \<Rightarrow> bool \<Rightarrow> parser_method \<Rightarrow> parser_method" where
  "Parser_term H R call recover parse_expr st =
     (if Parser_check Neg st then Parser_negated H call parse_expr (Parser_advance st)
      else Parser_primary H R recover parse_expr st)"

text \<open>The loop of \<open>_and\<close> and \<open>_or\<close>: operands separated by a token, then the step on all of them.\<close>

fun operand_loop :: "token_type \<Rightarrow> (ck_expr option list \<Rightarrow> parser_method) \<Rightarrow> parser_method \<Rightarrow> nat \<Rightarrow> ck_expr option list \<Rightarrow> parser_method" where
  "operand_loop t finish operand 0 expr st = Stuck"
| "operand_loop t finish operand (Suc d) expr st =
     (if Parser_check t st
      then pbind (operand (Parser_advance st)) (\<lambda>right st. operand_loop t finish operand d (expr @ [right]) st)
      else finish expr st)"

definition finish_and :: "ck_engine \<Rightarrow> ck_expr option list \<Rightarrow> parser_method" where
  "finish_and call expr st = (if length expr = 1 then Done (hd expr) st else answered (call (CreateAnd expr None True)) st)"

definition Parser_and :: "ck_engine \<Rightarrow> parser_method \<Rightarrow> nat \<Rightarrow> parser_method" where
  "Parser_and call parse_term d st =
     pbind (parse_term st) (\<lambda>e st. operand_loop TAnd (finish_and call) parse_term d [e] st)"

definition finish_or :: "ck_engine \<Rightarrow> ck_expr option list \<Rightarrow> parser_method" where
  "finish_or call expr st = (if length expr = 1 then Done (hd expr) st else answered (call (CreateOr expr None True)) st)"

definition Parser_or :: "ck_engine \<Rightarrow> parser_method \<Rightarrow> nat \<Rightarrow> parser_method" where
  "Parser_or call parse_and d st =
     pbind (parse_and st) (\<lambda>e st. operand_loop TOr (finish_or call) parse_and d [e] st)"

text \<open>The recursion, with fuel for the nesting of parentheses and for the loops.\<close>

fun Parser_expr :: "ck_host \<Rightarrow> regexp_constructor \<Rightarrow> ck_engine \<Rightarrow> bool \<Rightarrow> nat \<Rightarrow> parser_method" where
  "Parser_expr H R call recover 0 st = Stuck"
| "Parser_expr H R call recover (Suc d) st =
     Parser_or call (Parser_and call (Parser_term H R call recover (Parser_expr H R call recover d)) d) d st"

definition Parser_fuel :: "Token list \<Rightarrow> nat" where
  "Parser_fuel tokens = length tokens + 2"

definition Parser_new :: "Parser" where
  "Parser_new = \<lparr>pa_tokens = [], pa_current = 0, pa_errors = [], pa_scanner = Scanner_reset []\<rparr>"

text \<open>\<open>parse\<close>: None is an engine call that does not answer; the empty input leaves the old tokens and errors.\<close>

definition Parser_parse ::
    "ck_host \<Rightarrow> regexp_constructor \<Rightarrow> ck_engine \<Rightarrow> bool \<Rightarrow> string \<Rightarrow> Parser \<Rightarrow> (ck_expr option \<times> Parser) option" where
  "Parser_parse H R call recover input st =
     (if input = [] then Some (None, push_error errorEmptyString 0 [] (Some hintEmptyString) st)
      else
        let (tokens, scanner) = Scanner_scan (Scanner_reset input);
            st = st\<lparr>pa_tokens := tokens, pa_scanner := scanner, pa_current := 0, pa_errors := []\<rparr>
        in case Parser_expr H R call recover (Parser_fuel tokens) st of
             Done expr st \<Rightarrow>
               (if Parser_isAtEnd st then Some (expr, st)
                else
                  let peek = Parser_peek st;
                      additionalInfo = (case tk_type peek of Str _ \<Rightarrow> Some hintUnexpectedToken | _ \<Rightarrow> None)
                  in Some (None, push_error errorUnexpectedToken (tk_offset peek) (getLexeme (tk_type peek)) additionalInfo st))
           | Thrown st \<Rightarrow> Some (None, st)
           | Stuck \<Rightarrow> None)"

text \<open>\<open>ContextKeyExpr.deserialize\<close> with its static parser, which runs without recovery.\<close>

definition ContextKeyExpr_deserialize ::
    "ck_host \<Rightarrow> regexp_constructor \<Rightarrow> ck_engine \<Rightarrow> string option \<Rightarrow> Parser \<Rightarrow> (ck_expr option \<times> Parser) option" where
  "ContextKeyExpr_deserialize H R call serialized st =
     (case serialized of None \<Rightarrow> Some (None, st) | Some s \<Rightarrow> Parser_parse H R call False s st)"

text \<open>\<open>validateWhenClauses\<close>: the messages with offset and length, per clause, from one parser for all of them.\<close>

definition lexing_message :: "LexingError \<Rightarrow> string \<times> nat \<times> nat" where
  "lexing_message se =
     ((case le_additionalInfo se of
         Some info \<Rightarrow> if info = [] then ''Unexpected token.'' else ''Unexpected token. Hint: '' @ info
       | None \<Rightarrow> ''Unexpected token.''), le_offset se, length (le_lexeme se))"

definition parsing_message :: "ParsingError \<Rightarrow> string \<times> nat \<times> nat" where
  "parsing_message pe =
     ((case pe_additionalInfo pe of
         Some info \<Rightarrow> if info = [] then pe_message pe else pe_message pe @ ''. '' @ info
       | None \<Rightarrow> pe_message pe), pe_offset pe, length (pe_lexeme pe))"

fun validate_loop ::
    "ck_host \<Rightarrow> regexp_constructor \<Rightarrow> ck_engine \<Rightarrow> string list \<Rightarrow> Parser \<Rightarrow> (string \<times> nat \<times> nat) list list option" where
  "validate_loop H R call [] st = Some []"
| "validate_loop H R call (whenClause # rest) st =
     Option.bind (Parser_parse H R call False whenClause st) (\<lambda>(_, st).
     Option.bind (validate_loop H R call rest st) (\<lambda>results.
       Some ((if sc_errors (pa_scanner st) \<noteq> [] then map lexing_message (sc_errors (pa_scanner st))
              else map parsing_message (pa_errors st)) # results)))"

definition validateWhenClauses :: "ck_host \<Rightarrow> regexp_constructor \<Rightarrow> ck_engine \<Rightarrow> string list \<Rightarrow> (string \<times> nat \<times> nat) list list option" where
  "validateWhenClauses H R call whenClauses = validate_loop H R call whenClauses Parser_new"

section \<open>Parsing always ends\<close>

definition in_tokens :: "Parser \<Rightarrow> bool" where
  "in_tokens st \<longleftrightarrow>
     pa_current st < length (pa_tokens st) \<and>
     (\<forall>i < length (pa_tokens st). tk_type (pa_tokens st ! i) = EOF \<longleftrightarrow> Suc i = length (pa_tokens st))"

definition remaining :: "Parser \<Rightarrow> nat" where
  "remaining st = length (pa_tokens st) - pa_current st"

text \<open>A later state of the same run without new errors.\<close>

definition follows :: "Parser \<Rightarrow> Parser \<Rightarrow> bool" where
  "follows st st' \<longleftrightarrow>
     pa_tokens st' = pa_tokens st \<and> pa_errors st' = pa_errors st \<and> pa_scanner st' = pa_scanner st \<and>
     in_tokens st' \<and> pa_current st \<le> pa_current st'"

lemma follows_trans [trans]: "follows a b \<Longrightarrow> follows b c \<Longrightarrow> follows a c"
  by (auto simp: follows_def)

lemma follows_refl: "in_tokens st \<Longrightarrow> follows st st"
  by (simp add: follows_def)

lemma follows_remaining: "follows a b \<Longrightarrow> remaining b \<le> remaining a"
  by (auto simp: follows_def remaining_def)

lemma in_tokens_end: "in_tokens st \<Longrightarrow> Parser_isAtEnd st \<longleftrightarrow> Suc (pa_current st) = length (pa_tokens st)"
  by (simp add: in_tokens_def Parser_isAtEnd_def Parser_peek_def)

lemma advance_follows: "in_tokens st \<Longrightarrow> follows st (Parser_advance st)"
  using in_tokens_end [of st] by (auto simp: follows_def Parser_advance_def in_tokens_def)

lemma advance_remaining: "in_tokens st \<Longrightarrow> tk_type (Parser_peek st) \<noteq> EOF \<Longrightarrow> remaining (Parser_advance st) < remaining st"
  by (auto simp: remaining_def Parser_advance_def Parser_isAtEnd_def in_tokens_def)

lemma value_follows: "in_tokens st \<Longrightarrow> follows st (snd (Parser_value st))"
  using advance_follows [of st] follows_refl [of st] by (auto simp: Parser_value_def split: token_type.splits)

text \<open>A method parses: it answers a well-formed expression after at least one token, or reports an error.\<close>

definition parses :: "Parser \<Rightarrow> (nat \<Rightarrow> ck_expr option parsed) \<Rightarrow> bool" where
  "parses st F \<longleftrightarrow>
     (\<exists>e st'. (\<forall>\<^sub>F n in sequentially. F n = Done (Some e) st') \<and> well_formed e \<and> follows st st' \<and> remaining st' < remaining st) \<or>
     (\<exists>st'. (\<forall>\<^sub>F n in sequentially. F n = Thrown st') \<and> pa_errors st' \<noteq> [])"

lemma parses_Done: "well_formed e \<Longrightarrow> follows st st' \<Longrightarrow> remaining st' < remaining st \<Longrightarrow> parses st (\<lambda>n. Done (Some e) st')"
  by (auto simp: parses_def)

lemma parses_Thrown: "pa_errors st' \<noteq> [] \<Longrightarrow> parses st (\<lambda>n. Thrown st')"
  by (auto simp: parses_def)

lemma parses_expected: "parses st (\<lambda>n. Parser_errExpectedButGot expected got st')"
  by (auto simp: parses_def Parser_errExpectedButGot_def push_error_def)

text \<open>The part after a key answers a leaf.\<close>

definition reads_leaf :: "Parser \<Rightarrow> ck_expr option parsed \<Rightarrow> bool" where
  "reads_leaf st r \<longleftrightarrow> (\<exists>e st'. r = Done (Some e) st' \<and> is_leaf e \<and> follows st st') \<or> (\<exists>st'. r = Thrown st' \<and> pa_errors st' \<noteq> [])"

lemma reads_leaf_Done: "is_leaf e \<Longrightarrow> follows st st' \<Longrightarrow> reads_leaf st (Done (Some e) st')"
  by (simp add: reads_leaf_def)

lemma reads_leaf_expected: "reads_leaf st (Parser_errExpectedButGot expected got st')"
  by (simp add: reads_leaf_def Parser_errExpectedButGot_def push_error_def)

lemma reads_leaf_from: "reads_leaf st' r \<Longrightarrow> follows st st' \<Longrightarrow> reads_leaf st r"
  using follows_trans by (auto simp: reads_leaf_def)

lemma regex_of_lexeme_reads: "follows st st' \<Longrightarrow> reads_leaf st (regex_of_lexeme R key lexeme token st')"
  by (auto simp: regex_of_lexeme_def Let_def ContextKeyRegexExpr_create_def reads_leaf_Done reads_leaf_expected split: option.splits)

lemma reconstruct_EOF: "tokens \<noteq> [] \<Longrightarrow> tk_type (last tokens) = EOF \<Longrightarrow> snd (reconstruct first balance tokens) < length tokens"
proof (induction first balance tokens rule: reconstruct.induct)
  case (2 first balance t rest)
  show ?case
  proof (cases "rest = []")
    case True
    then show ?thesis using 2(3) by simp
  next
    case False
    then have "snd (reconstruct first b rest) < length rest" if "tk_type t \<notin> {EOF, TAnd, TOr}" "\<not> b < 0"
      "b = (case tk_type t of LParen \<Rightarrow> balance + 1 | RParen \<Rightarrow> balance - 1 | RegexStr l \<Rightarrow> balance + following_balance first l
        | QuotedStr l \<Rightarrow> balance + following_balance first l | _ \<Rightarrow> balance)" for b
      using 2(1) [OF that(1) that(3) that(2)] 2(3) by simp
    then show ?thesis by (simp add: Let_def case_prod_unfold)
  qed
qed simp

lemma regex_recover_reads:
  assumes "in_tokens st" shows "reads_leaf st (regex_recover R key lexeme token st)"
proof -
  let ?st = "Parser_advance st"
  have adv: "follows st ?st" "in_tokens ?st" using advance_follows [OF assms] by (simp_all add: follows_def)
  define rest where "rest = drop (pa_current ?st) (pa_tokens ?st)"
  have "rest \<noteq> []" "tk_type (last rest) = EOF"
    using adv(2) by (auto simp: rest_def in_tokens_def last_drop last_conv_nth)
  then have "snd (reconstruct lexeme (paren_balance lexeme) rest) < length rest" by (rule reconstruct_EOF)
  then have "pa_current ?st + snd (reconstruct lexeme (paren_balance lexeme) rest) < length (pa_tokens ?st)"
    by (simp add: rest_def)
  then have "follows st (?st\<lparr>pa_current := pa_current ?st + snd (reconstruct lexeme (paren_balance lexeme) rest)\<rparr>)"
    using adv by (auto simp: follows_def in_tokens_def)
  from regex_of_lexeme_reads [OF this] show ?thesis
    by (simp add: regex_recover_def Let_def case_prod_unfold flip: rest_def)
qed

lemma regex_reads:
  assumes "in_tokens st" shows "reads_leaf st (Parser_regex R recover key st)"
  using regex_of_lexeme_reads [OF advance_follows [OF assms]] regex_recover_reads [OF assms] advance_follows [OF assms]
  by (auto simp: Parser_regex_def regex_strict_def regex_quoted_def Let_def ContextKeyRegexExpr_create_def
      reads_leaf_Done reads_leaf_expected split: token_type.splits option.splits)

lemma create_leaves: 
  "is_leaf (ContextKeyDefinedExpr_create H k)" "is_leaf (ContextKeyNotExpr_create H k)"
  "is_leaf (ContextKeyEqualsExpr_create H k v)" "is_leaf (ContextKeyNotEqualsExpr_create H k v)"
  "is_leaf (ContextKeyInExpr_create k d)" "is_leaf (ContextKeyNotInExpr_create k d)"
  "is_leaf (ContextKeyGreaterExpr_create k v)" "is_leaf (ContextKeyGreaterEqualsExpr_create k v)"
  "is_leaf (ContextKeySmallerExpr_create k v)" "is_leaf (ContextKeySmallerEqualsExpr_create k v)"
  by (auto simp: create_defs withFloatOrStr_def split: option.splits ck_prim.splits)

lemma consume_cases:
  assumes "in_tokens st"
  shows "(\<exists>st'. Parser_consume t message st = Done () st' \<and> follows st st') \<or>
    (\<exists>st'. Parser_consume t message st = Thrown st' \<and> pa_errors st' \<noteq> [])"
  using advance_follows [OF assms] by (auto simp: Parser_consume_def Parser_errExpectedButGot_def push_error_def)

lemma key_reads:
  assumes "in_tokens st" shows "reads_leaf st (Parser_key H R recover key st)"
proof -
  have adv: "follows st (Parser_advance st)" "in_tokens (Parser_advance st)"
    using advance_follows [OF assms] by (simp_all add: follows_def)
  have v: "follows st (snd (Parser_value (Parser_advance st)))" using adv value_follows follows_trans by blast
  show ?thesis
  proof (cases "Parser_check RegexOp st")
    case True
    then show ?thesis using reads_leaf_from [OF regex_reads [OF adv(2)] adv(1)] by (simp add: Parser_key_def)
  next
    case regex: False
    show ?thesis
    proof (cases "Parser_check TNot st")
      case True
      from consume_cases [OF adv(2), of TIn errorNoInAfterNot] show ?thesis
      proof (elim disjE exE conjE)
        fix st' assume c: "Parser_consume TIn errorNoInAfterNot (Parser_advance st) = Done () st'" "follows (Parser_advance st) st'"
        then have "follows st (snd (Parser_value st'))"
          using adv(1) value_follows [of st'] follows_trans by (metis follows_def)
        then show ?thesis using regex True c(1) by (simp add: Parser_key_def Let_def case_prod_unfold create_leaves reads_leaf_Done)
      qed (simp add: regex True Parser_key_def reads_leaf_def)
    next
      case False
      then show ?thesis
        using regex v follows_refl [OF assms]
        by (simp add: Parser_key_def Let_def case_prod_unfold create_leaves reads_leaf_Done split: token_type.splits)
    qed
  qed
qed

lemma reads_leaf_parses:
  assumes "reads_leaf st' r" and "follows st st'" and "remaining st' < remaining st"
  shows "parses st (\<lambda>n. r)"
proof -
  from assms(1) consider (leaf) e st2 where "r = Done (Some e) st2" "is_leaf e" "follows st' st2"
    | (error) st2 where "r = Thrown st2" "pa_errors st2 \<noteq> []" by (auto simp: reads_leaf_def)
  then show ?thesis
  proof cases
    case leaf
    then have "follows st st2" "remaining st2 < remaining st"
      using assms(2,3) follows_trans follows_remaining [of st' st2] by (blast, simp)
    then show ?thesis using leaf(1,2) parses_Done well_formed_leaf by simp
  next
    case error
    then show ?thesis by (simp add: parses_Thrown)
  qed
qed

lemma parses_eventually:
  assumes "\<forall>\<^sub>F n in sequentially. F n = G n" and "parses st G" shows "parses st F"
proof -
  have step: "\<forall>\<^sub>F n in sequentially. F n = r" if "\<forall>\<^sub>F n in sequentially. G n = r" for r
    using assms(1) that by eventually_elim simp
  then show ?thesis using assms(2) unfolding parses_def by blast
qed

text \<open>A method that parses is followed by another step.\<close>

lemma parses_then:
  assumes "parses st F"
    and "\<And>e st'. well_formed e \<Longrightarrow> follows st st' \<Longrightarrow> remaining st' < remaining st \<Longrightarrow> parses st0 (\<lambda>n. G n (Some e) st')"
  shows "parses st0 (\<lambda>n. pbind (F n) (G n))"
  using assms(1) unfolding parses_def [of st F]
proof (elim disjE exE conjE)
  fix e st' assume F: "\<forall>\<^sub>F n in sequentially. F n = Done (Some e) st'" and e: "well_formed e" "follows st st'" "remaining st' < remaining st"
  from F have "\<forall>\<^sub>F n in sequentially. pbind (F n) (G n) = G n (Some e) st'" by (auto elim: eventually_mono)
  then show ?thesis using assms(2) [OF e] by (rule parses_eventually)
next
  fix st2 assume F: "\<forall>\<^sub>F n in sequentially. F n = Thrown st2" "pa_errors st2 \<noteq> []"
  then have "\<forall>\<^sub>F n in sequentially. pbind (F n) (G n) = Thrown st2" by (auto elim: eventually_mono)
  then show ?thesis using parses_Thrown [OF F(2)] by (rule parses_eventually)
qed

lemma parses_answered:
  assumes "\<exists>r. returns H q (Some r) \<and> well_formed r" and "follows st st'" and "remaining st' < remaining st"
  shows "parses st (\<lambda>n. answered (ck_run H n q) st')"
proof -
  obtain r where r: "\<forall>\<^sub>F n in sequentially. ck_run H n q = Some (Some r)" "well_formed r" using assms(1) by (auto simp: returns_def)
  then have "\<forall>\<^sub>F n in sequentially. answered (ck_run H n q) st' = Done (Some r) st'"
    by (auto simp: answered_def elim: eventually_mono)
  then show ?thesis using parses_Done [OF r(2) assms(2,3)] by (rule parses_eventually)
qed

lemma peek_step:
  assumes "in_tokens st" and "tk_type (Parser_peek st) \<noteq> EOF"
  shows "follows st (Parser_advance st)" and "in_tokens (Parser_advance st)" and "remaining (Parser_advance st) < remaining st"
  using advance_follows [OF assms(1)] advance_remaining [OF assms] by (simp_all add: follows_def)

lemma leaf_here:
  assumes "in_tokens st" and "tk_type (Parser_peek st) \<noteq> EOF" and "follows st0 st" and "is_leaf e"
  shows "parses st0 (\<lambda>n. Done (Some e) (Parser_advance st))"
  using peek_step [OF assms(1,2)] assms(3,4) follows_remaining [OF assms(3)] follows_trans
  by (intro parses_Done) (auto simp: well_formed_leaf)

text \<open>Parentheses: an expression, the closing parenthesis, and a last step on the expression.\<close>

lemma parenthesised_parses:
  assumes "parses st F" and "follows st0 st"
    and "\<And>e st'. well_formed e \<Longrightarrow> follows st0 st' \<Longrightarrow> remaining st' < remaining st0 \<Longrightarrow> parses st0 (\<lambda>n. G n (Some e) st')"
  shows "parses st0 (\<lambda>n. pbind (F n) (\<lambda>expr st. pbind (Parser_consume RParen m st) (\<lambda>_ st. G n expr st)))"
proof (rule parses_then [OF assms(1)])
  fix e st' assume e: "well_formed e" "follows st st'" "remaining st' < remaining st"
  then have "in_tokens st'" by (simp add: follows_def)
  from consume_cases [OF this, of RParen m]
  show "parses st0 (\<lambda>n. pbind (Parser_consume RParen m st') (\<lambda>_ st. G n (Some e) st))"
  proof (elim disjE exE conjE)
    fix st2 assume c: "Parser_consume RParen m st' = Done () st2" "follows st' st2"
    have "follows st0 st2" using assms(2) e(2) c(2) follows_trans by blast
    moreover have "remaining st2 < remaining st0"
      using e(3) follows_remaining [OF c(2)] follows_remaining [OF assms(2)] by simp
    ultimately show ?thesis using assms(3) [OF e(1)] c(1) by simp
  next
    fix st2 assume "Parser_consume RParen m st' = Thrown st2" "pa_errors st2 \<noteq> []"
    then show ?thesis by (simp add: parses_Thrown)
  qed
qed

lemma primary_parses:
  assumes "in_tokens st" and "\<And>st'. follows st st' \<Longrightarrow> remaining st' < remaining st \<Longrightarrow> parses st' (\<lambda>n. parse_expr n st')"
  shows "parses st (\<lambda>n. Parser_primary H R recover (parse_expr n) st)"
proof (cases "tk_type (Parser_peek st)")
  case LParen
  note adv = peek_step [OF assms(1)]
  have "parses st (\<lambda>n. pbind (parse_expr n (Parser_advance st)) (\<lambda>expr st.
      pbind (Parser_consume RParen errorClosingParenthesis st) (\<lambda>_ st. Done expr st)))"
    by (rule parenthesised_parses [OF assms(2)]) (use adv LParen parses_Done in auto)
  then show ?thesis by (simp add: Parser_primary_def Let_def LParen)
next
  case TTrue
  then show ?thesis using leaf_here [OF assms(1) _ follows_refl [OF assms(1)]] by (simp add: Parser_primary_def)
next
  case TFalse
  then show ?thesis using leaf_here [OF assms(1) _ follows_refl [OF assms(1)]] by (simp add: Parser_primary_def)
next
  case (Str key)
  note adv = peek_step [OF assms(1)]
  from reads_leaf_parses [OF key_reads] adv Str show ?thesis by (simp add: Parser_primary_def)
next
  case EOF
  then show ?thesis by (simp add: Parser_primary_def Let_def parses_Thrown push_error_def)
qed (simp_all add: Parser_primary_def Let_def parses_expected)

lemma negated_parses:
  assumes "in_tokens st" and "follows st0 st" and "remaining st < remaining st0"
    and "\<And>st'. follows st st' \<Longrightarrow> parses st' (\<lambda>n. parse_expr n st')"
  shows "parses st0 (\<lambda>n. Parser_negated H (ck_run H n) (parse_expr n) st)"
proof (cases "tk_type (Parser_peek st)")
  case LParen
  note adv = peek_step [OF assms(1)]
  have "follows st0 (Parser_advance st)" using assms(2) adv(1) LParen follows_trans by simp
  then have "parses st0 (\<lambda>n. pbind (parse_expr n (Parser_advance st)) (\<lambda>expr st.
      pbind (Parser_consume RParen errorClosingParenthesis st) (\<lambda>_ st.
      case expr of None \<Rightarrow> Done None st | Some e \<Rightarrow> answered (ck_run H n (Negate e)) st)))"
  proof (rule parenthesised_parses [OF assms(4) [OF adv(1)], rotated])
    show "parses st0 (\<lambda>n. case Some e of None \<Rightarrow> Done None st' | Some e \<Rightarrow> answered (ck_run H n (Negate e)) st')"
      if "well_formed e" "follows st0 st'" "remaining st' < remaining st0" for e st'
      using parses_answered [OF Negate_total [OF that(1)] that(2,3)] by simp
  qed (use LParen in simp)
  then show ?thesis by (simp add: Parser_negated_def Let_def LParen)
next
  case TTrue
  then show ?thesis using leaf_here [OF assms(1) _ assms(2)] by (simp add: Parser_negated_def)
next
  case TFalse
  then show ?thesis using leaf_here [OF assms(1) _ assms(2)] by (simp add: Parser_negated_def)
next
  case (Str key)
  then show ?thesis using leaf_here [OF assms(1) _ assms(2)] by (simp add: Parser_negated_def create_leaves)
qed (simp_all add: Parser_negated_def Let_def parses_expected)

lemma term_parses:
  assumes "in_tokens st" and "\<And>st'. in_tokens st' \<Longrightarrow> remaining st' < remaining st \<Longrightarrow> parses st' (\<lambda>n. parse_expr n st')"
  shows "parses st (\<lambda>n. Parser_term H R (ck_run H n) recover (parse_expr n) st)"
proof (cases "Parser_check Neg st")
  case True
  then have adv: "follows st (Parser_advance st)" "in_tokens (Parser_advance st)" "remaining (Parser_advance st) < remaining st"
    using peek_step [OF assms(1)] by (simp_all add: Parser_check_def)
  have "parses st' (\<lambda>n. parse_expr n st')" if "follows (Parser_advance st) st'" for st'
    using assms(2) follows_remaining [OF that] adv(3) that by (simp add: follows_def)
  then show ?thesis using negated_parses [OF adv(2,1,3)] True by (simp add: Parser_term_def)
next
  case False
  have "parses st (\<lambda>n. Parser_primary H R recover (parse_expr n) st)"
    by (rule primary_parses [OF assms(1)]) (use assms(2) in \<open>simp add: follows_def\<close>)
  then show ?thesis using False by (simp add: Parser_term_def)
qed

lemma loop_next:
  assumes "in_tokens st" and "tk_type (Parser_peek st) \<noteq> EOF" and "follows st0 st" and "remaining st < d"
    and "follows (Parser_advance st) st'" and "remaining st' < remaining (Parser_advance st)"
  shows "follows st0 st'" and "remaining st' < d - 1" and "remaining st' < remaining st" and "in_tokens st'"
proof -
  note adv = peek_step [OF assms(1,2)]
  show "follows st0 st'" using assms(3,5) adv(1) follows_trans by blast
  show "remaining st' < d - 1" "remaining st' < remaining st" using assms(4,6) adv(3) by simp_all
  show "in_tokens st'" using assms(5) by (simp add: follows_def)
qed

text \<open>A last step that parses, on one or more well-formed operands.\<close>

definition finishes :: "(nat \<Rightarrow> ck_expr option list \<Rightarrow> parser_method) \<Rightarrow> bool" where
  "finishes finish \<longleftrightarrow>
     (\<forall>xs st0 st. xs \<noteq> [] \<and> (\<forall>x \<in> set xs. well_formed x) \<and> follows st0 st \<and> remaining st < remaining st0 \<longrightarrow>
       parses st0 (\<lambda>n. finish n (map Some xs) st))"

lemma finishes_single:
  assumes "xs \<noteq> []" and "\<forall>x \<in> set xs. well_formed x" and "follows st0 st" and "remaining st < remaining st0"
    and "\<exists>r. returns H q (Some r) \<and> well_formed r"
  shows "parses st0 (\<lambda>n. if length (map Some xs) = 1 then Done (hd (map Some xs)) st else answered (ck_run H n q) st)"
proof (cases "length xs = 1")
  case True
  then obtain x where "xs = [x]" by (cases xs) auto
  then show ?thesis using assms(2-4) parses_Done by simp
next
  case False
  then show ?thesis using parses_answered [OF assms(5,3,4)] by simp
qed

lemma finishes_and: "finishes (\<lambda>n. finish_and (ck_run H n))"
  unfolding finishes_def finish_and_def using finishes_single [OF _ _ _ _ CreateAnd_total] by simp

lemma finishes_or: "finishes (\<lambda>n. finish_or (ck_run H n))"
  unfolding finishes_def finish_or_def using finishes_single [OF _ _ _ _ CreateOr_total] by simp

lemma operand_loop_parses:
  assumes "finishes finish" and "t \<noteq> EOF"
    and "\<And>st'. in_tokens st' \<Longrightarrow> remaining st' < remaining st0 \<Longrightarrow> parses st' (\<lambda>n. operand n st')"
    and "follows st0 st" and "remaining st < remaining st0" and "remaining st < d" and "xs \<noteq> []" and "\<forall>x \<in> set xs. well_formed x"
  shows "parses st0 (\<lambda>n. operand_loop t (finish n) (operand n) d (map Some xs) st)"
  using assms(4-)
proof (induction d arbitrary: st xs)
  case (Suc d)
  have st: "in_tokens st" using Suc.prems(1) by (simp add: follows_def)
  show ?case
  proof (cases "Parser_check t st")
    case True
    then have peek: "tk_type (Parser_peek st) \<noteq> EOF" using assms(2) by (simp add: Parser_check_def)
    note adv = peek_step [OF st peek]
    have "parses (Parser_advance st) (\<lambda>n. operand n (Parser_advance st))" using assms(3) [OF adv(2)] adv(3) Suc.prems(2) by simp
    then have "parses st0 (\<lambda>n. pbind (operand n (Parser_advance st))
        (\<lambda>right st. operand_loop t (finish n) (operand n) d (map Some xs @ [right]) st))"
    proof (rule parses_then)
      fix e st' assume e: "well_formed e" "follows (Parser_advance st) st'" "remaining st' < remaining (Parser_advance st)"
      note n = loop_next [OF st peek Suc.prems(1,3) e(2,3)]
      show "parses st0 (\<lambda>n. operand_loop t (finish n) (operand n) d (map Some xs @ [Some e]) st')"
        using Suc.IH [of st' "xs @ [e]"] n Suc.prems(2,5) e(1) by simp
    qed
    then show ?thesis using True by simp
  next
    case False
    then show ?thesis using assms(1) Suc.prems unfolding finishes_def by simp
  qed
qed simp

lemma operands_parse:
  assumes "finishes finish" and "t \<noteq> EOF"
    and "\<And>st'. in_tokens st' \<Longrightarrow> remaining st' \<le> remaining st \<Longrightarrow> parses st' (\<lambda>n. operand n st')"
    and "in_tokens st" and "remaining st \<le> d"
  shows "parses st (\<lambda>n. pbind (operand n st) (\<lambda>e st. operand_loop t (finish n) (operand n) d [e] st))"
proof (rule parses_then [OF assms(3) [OF assms(4) order_refl]])
  fix e st' assume "well_formed e" "follows st st'" "remaining st' < remaining st"
  then show "parses st (\<lambda>n. operand_loop t (finish n) (operand n) d [Some e] st')"
    using operand_loop_parses [OF assms(1,2), of st operand st' d "[e]"] assms(3,5) by simp
qed

lemmas and_parses = operands_parse [OF finishes_and, of TAnd, simplified, folded Parser_and_def]
lemmas or_parses = operands_parse [OF finishes_or, of TOr, simplified, folded Parser_or_def]

lemma expr_parses:
  "in_tokens st \<Longrightarrow> remaining st < d \<Longrightarrow> parses st (\<lambda>n. Parser_expr H R (ck_run H n) recover d st)"
proof (induction d arbitrary: st)
  case (Suc d)
  have t: "parses st' (\<lambda>n. Parser_term H R (ck_run H n) recover (Parser_expr H R (ck_run H n) recover d) st')"
    if "in_tokens st'" "remaining st' \<le> remaining st" for st'
    by (rule term_parses [OF that(1)]) (use Suc that(2) in simp)
  have a: "parses st' (\<lambda>n. Parser_and (ck_run H n) (Parser_term H R (ck_run H n) recover (Parser_expr H R (ck_run H n) recover d)) d st')"
    if "in_tokens st'" "remaining st' \<le> remaining st" for st'
    by (rule and_parses) (use t that Suc.prems(2) in simp_all)
  show ?case
    unfolding Parser_expr.simps by (rule or_parses) (use a Suc.prems in simp_all)
qed simp

lemma scan_in_tokens:
  "in_tokens (st\<lparr>pa_tokens := fst (Scanner_scan (Scanner_reset s)), pa_scanner := sc, pa_current := 0, pa_errors := es\<rparr>)"
proof -
  obtain ts k where ts: "fst (Scanner_scan (Scanner_reset s)) = ts @ [\<lparr>tk_type = EOF, tk_offset = k\<rparr>]" "\<forall>t \<in> set ts. tk_type t \<noteq> EOF"
    using scan_tokens by blast
  have "tk_type ((ts @ [\<lparr>tk_type = EOF, tk_offset = k\<rparr>]) ! i) = EOF \<longleftrightarrow> Suc i = length (ts @ [\<lparr>tk_type = EOF, tk_offset = k\<rparr>])"
    if "i < length (ts @ [\<lparr>tk_type = EOF, tk_offset = k\<rparr>])" for i
    using that ts(2) by (auto simp: nth_append less_Suc_eq)
  then show ?thesis by (simp add: in_tokens_def ts(1))
qed

lemma parse_settles:
  "\<exists>r st'. (\<forall>\<^sub>F n in sequentially. Parser_parse H R (ck_run H n) recover input st = Some (r, st')) \<and>
     (case r of None \<Rightarrow> pa_errors st' \<noteq> [] | Some e \<Rightarrow> well_formed e \<and> pa_errors st' = [])"
proof (cases "input = []")
  case True
  then show ?thesis
    by (intro exI [of _ None] exI [of _ "push_error errorEmptyString 0 [] (Some hintEmptyString) st"])
      (simp add: Parser_parse_def, simp add: push_error_def)
next
  case False
  obtain tokens sc where scan: "Scanner_scan (Scanner_reset input) = (tokens, sc)" by force
  define st0 where "st0 = st\<lparr>pa_tokens := tokens, pa_scanner := sc, pa_current := 0, pa_errors := []\<rparr>"
  have st0: "in_tokens st0" "remaining st0 < Parser_fuel tokens" "pa_errors st0 = []"
    using scan_in_tokens [where st = st and s = input and sc = sc and es = "[]"] by (simp_all add: st0_def scan remaining_def Parser_fuel_def)
  let ?parse = "\<lambda>n. Parser_expr H R (ck_run H n) recover (Parser_fuel tokens) st0"
  let ?ok = "\<lambda>r st'. case r of None \<Rightarrow> pa_errors st' \<noteq> [] | Some e \<Rightarrow> well_formed e \<and> pa_errors st' = []"
  have unfold: "Parser_parse H R (ck_run H n) recover input st =
    (case ?parse n of
       Done expr st \<Rightarrow>
         (if Parser_isAtEnd st then Some (expr, st)
          else Some (None, push_error errorUnexpectedToken (tk_offset (Parser_peek st)) (getLexeme (tk_type (Parser_peek st)))
                 (case tk_type (Parser_peek st) of Str _ \<Rightarrow> Some hintUnexpectedToken | _ \<Rightarrow> None) st))
     | Thrown st \<Rightarrow> Some (None, st) | Stuck \<Rightarrow> None)" for n
    using False unfolding Parser_parse_def Let_def st0_def scan by simp
  show ?thesis
    using expr_parses [OF st0(1,2), of H R recover] unfolding parses_def
  proof (elim disjE exE conjE)
    fix e st' assume e: "\<forall>\<^sub>F n in sequentially. ?parse n = Done (Some e) st'" "well_formed e" "follows st0 st'"
    define r where "r = (if Parser_isAtEnd st' then (Some e, st')
      else (None, push_error errorUnexpectedToken (tk_offset (Parser_peek st')) (getLexeme (tk_type (Parser_peek st')))
              (case tk_type (Parser_peek st') of Str _ \<Rightarrow> Some hintUnexpectedToken | _ \<Rightarrow> None) st'))"
    have "\<forall>\<^sub>F n in sequentially. Parser_parse H R (ck_run H n) recover input st = Some (fst r, snd r)"
      using e(1) by eventually_elim (simp add: unfold r_def)
    moreover have "?ok (fst r) (snd r)" using e(2,3) st0(3) by (simp add: r_def push_error_def follows_def)
    ultimately show ?thesis by blast
  next
    fix st' assume e: "\<forall>\<^sub>F n in sequentially. ?parse n = Thrown st'" "pa_errors st' \<noteq> []"
    have "\<forall>\<^sub>F n in sequentially. Parser_parse H R (ck_run H n) recover input st = Some (None, st')"
      using e(1) by eventually_elim (simp add: unfold)
    then show ?thesis using e(2) by (intro exI [of _ None] exI [of _ st']) simp
  qed
qed

text \<open>C19: Parsing always ends, and reports: for every input, host and configuration there is an amount of engine
  fuel from which on \<open>parse\<close> gives one and the same answer; when it is an expression, it is well-formed and no
  parsing error is recorded, and when it is \<open>undefined\<close> at least one error is.\<close>
lemma parse_total:
  "\<exists>N r st'. (\<forall>n \<ge> N. Parser_parse H R (ck_run H n) recover input st = Some (r, st')) \<and>
     (case r of None \<Rightarrow> pa_errors st' \<noteq> [] | Some e \<Rightarrow> well_formed e \<and> pa_errors st' = [])"
  using parse_settles [of H R recover input st] unfolding eventually_sequentially by blast

lemma dangling_and: "map_option fst (Parser_parse example_host (\<lambda>_ _. None) call True ''a &&'' Parser_new) = Some None"
  by code_simp
lemma parse_total_witness:
  "\<exists>N st'. (\<forall>n \<ge> N. Parser_parse example_host (\<lambda>_ _. None) (ck_run example_host n) True ''a &&'' Parser_new = Some (None, st')) \<and>
     pa_errors st' \<noteq> []"
proof -
  obtain N r st' where r: "\<forall>n \<ge> N. Parser_parse example_host (\<lambda>_ _. None) (ck_run example_host n) True ''a &&'' Parser_new = Some (r, st')"
    "case r of None \<Rightarrow> pa_errors st' \<noteq> [] | Some e \<Rightarrow> well_formed e \<and> pa_errors st' = []"
    using parse_total [of example_host "\<lambda>_ _. None" True "''a &&''" Parser_new] by blast
  then have "r = None" using dangling_and [of "ck_run example_host N"] by simp
  then show ?thesis using r by auto
qed

end
