(* ===== verification/Context_Roundtrip.thy ===== *)
theory Context_Roundtrip
  imports Context_Parser
begin

text \<open>
  Parsing the serialised form of a when-clause: for an expression in the normal form (a disjunction of
  conjunctions of leaves) with printable leaves, \<open>deserialize\<close> after \<open>serialize\<close> answers an expression of the
  same value.
\<close>

section \<open>The tokens of the serialised form\<close>

definition printable_key :: "string \<Rightarrow> bool" where
  "printable_key k \<longleftrightarrow> string_lexeme k \<and> token_keywords k = None"

definition printable_number :: "ck_host \<Rightarrow> ck_prim \<Rightarrow> bool" where
  "printable_number H v \<longleftrightarrow>
     (\<exists>n. v = PNum n \<and> n \<noteq> JsNaN \<and> printable_key (number_to_string H n) \<and> parse_float (number_to_string H n) = n)"

definition printable_string :: "ck_prim \<Rightarrow> bool" where
  "printable_string v \<longleftrightarrow> (\<exists>s. v = PStr s \<and> CHR 0x27 \<notin> set s)"

text \<open>
  Leaves whose text reads back: keys are single words, quoted values have no quote in them, and numbers read
  back from their decimal form, as \<open>parseFloat(String(n))\<close> does.
\<close>

fun printable_leaf :: "ck_host \<Rightarrow> ck_expr \<Rightarrow> bool" where
  "printable_leaf H FalseExpr \<longleftrightarrow> True"
| "printable_leaf H TrueExpr \<longleftrightarrow> True"
| "printable_leaf H (DefinedExpr k) \<longleftrightarrow> printable_key k"
| "printable_leaf H (NotExpr k) \<longleftrightarrow> printable_key k"
| "printable_leaf H (EqualsExpr k v) \<longleftrightarrow> printable_key k \<and> printable_string v"
| "printable_leaf H (NotEqualsExpr k v) \<longleftrightarrow> printable_key k \<and> printable_string v"
| "printable_leaf H (InExpr k d) \<longleftrightarrow> printable_key k \<and> CHR 0x27 \<notin> set d"
| "printable_leaf H (NotInExpr k d) \<longleftrightarrow> printable_key k \<and> CHR 0x27 \<notin> set d"
| "printable_leaf H (GreaterExpr k v) \<longleftrightarrow> printable_key k \<and> printable_number H v"
| "printable_leaf H (GreaterEqualsExpr k v) \<longleftrightarrow> printable_key k \<and> printable_number H v"
| "printable_leaf H (SmallerExpr k v) \<longleftrightarrow> printable_key k \<and> printable_number H v"
| "printable_leaf H (SmallerEqualsExpr k v) \<longleftrightarrow> printable_key k \<and> printable_number H v"
| "printable_leaf H _ \<longleftrightarrow> False"

definition printable_clause :: "ck_host \<Rightarrow> ck_expr \<Rightarrow> bool" where
  "printable_clause H e \<longleftrightarrow>
     printable_leaf H e \<or> (\<exists>es m. e = AndExpr es m \<and> es \<noteq> [] \<and> (\<forall>x \<in> set es. printable_leaf H x))"

definition printable :: "ck_host \<Rightarrow> ck_expr \<Rightarrow> bool" where
  "printable H e \<longleftrightarrow>
     printable_clause H e \<or> (\<exists>cs m. e = OrExpr cs m \<and> cs \<noteq> [] \<and> (\<forall>c \<in> set cs. printable_clause H c))"

fun leaf_tokens :: "ck_host \<Rightarrow> ck_expr \<Rightarrow> token_type list" where
  "leaf_tokens H FalseExpr = [TFalse]"
| "leaf_tokens H TrueExpr = [TTrue]"
| "leaf_tokens H (DefinedExpr k) = [Str k]"
| "leaf_tokens H (NotExpr k) = [Neg, Str k]"
| "leaf_tokens H (EqualsExpr k v) = [Str k, TEq False, QuotedStr (prim_to_string H v)]"
| "leaf_tokens H (NotEqualsExpr k v) = [Str k, TNotEq False, QuotedStr (prim_to_string H v)]"
| "leaf_tokens H (InExpr k d) = [Str k, TIn, QuotedStr d]"
| "leaf_tokens H (NotInExpr k d) = [Str k, TNot, TIn, QuotedStr d]"
| "leaf_tokens H (GreaterExpr k v) = [Str k, Gt, Str (prim_to_string H v)]"
| "leaf_tokens H (GreaterEqualsExpr k v) = [Str k, GtEq, Str (prim_to_string H v)]"
| "leaf_tokens H (SmallerExpr k v) = [Str k, Lt, Str (prim_to_string H v)]"
| "leaf_tokens H (SmallerEqualsExpr k v) = [Str k, LtEq, Str (prim_to_string H v)]"
| "leaf_tokens H _ = []"

text \<open>Lists of tokens with a token between them.\<close>

fun join_tokens :: "token_type \<Rightarrow> token_type list list \<Rightarrow> token_type list" where
  "join_tokens t [] = []"
| "join_tokens t (x # xs) = x @ concat (map (\<lambda>y. t # y) xs)"

fun clause_tokens :: "ck_host \<Rightarrow> ck_expr \<Rightarrow> token_type list" where
  "clause_tokens H (AndExpr es _) = join_tokens TAnd (map (leaf_tokens H) es)"
| "clause_tokens H e = leaf_tokens H e"

fun expr_tokens :: "ck_host \<Rightarrow> ck_expr \<Rightarrow> token_type list" where
  "expr_tokens H (OrExpr cs _) = join_tokens TOr (map (clause_tokens H) cs)"
| "expr_tokens H e = clause_tokens H e"

text \<open>Token lists that are clean on their own and may be followed by a blank.\<close>

definition solid :: "token_type list \<Rightarrow> bool" where
  "solid ts \<longleftrightarrow> ts \<noteq> [] \<and> last ts \<noteq> Neg \<and> clean_tokens ts"

lemma clean_append: "ts \<noteq> [] \<Longrightarrow> last ts \<noteq> Neg \<Longrightarrow> clean_tokens (ts @ us) \<longleftrightarrow> clean_tokens ts \<and> clean_tokens us"
proof (induction ts)
  case (Cons t ts)
  then show ?case by (cases ts) auto
qed simp

lemma glue_append: "ts \<noteq> [] \<Longrightarrow> last ts \<noteq> Neg \<Longrightarrow> us \<noteq> [] \<Longrightarrow> glue (ts @ us) = glue ts @ '' '' @ glue us"
proof (induction ts)
  case (Cons t ts)
  then show ?case by (cases "ts = []") auto
qed simp

lemma solid_append: "solid ts \<Longrightarrow> solid us \<Longrightarrow> solid (ts @ us)"
  by (simp add: solid_def clean_append)

lemma solid_single: "clean_token t \<Longrightarrow> t \<noteq> Neg \<Longrightarrow> solid [t]"
  by (simp add: solid_def)

lemma solid_join:
  assumes "clean_token t" and "t \<noteq> Neg" and "xs \<noteq> []" and "\<forall>x \<in> set xs. solid x"
  shows "solid (join_tokens t xs) \<and> glue (join_tokens t xs) = join_with ('' '' @ lexeme_text t @ '' '') (map glue xs)"
  using assms(3,4)
proof (induction xs)
  case (Cons x xs)
  show ?case
  proof (cases xs)
    case (Cons y ys)
    have IH: "solid (join_tokens t xs)" "glue (join_tokens t xs) = join_with ('' '' @ lexeme_text t @ '' '') (map glue xs)"
      using Cons.IH Cons.prems Cons by simp_all
    have j: "join_tokens t (x # xs) = x @ [t] @ join_tokens t xs" by (simp add: Cons)
    have s: "solid x" "solid [t]" using Cons.prems(2) solid_single assms(1,2) by simp_all
    have "glue (x @ [t] @ join_tokens t xs) = glue x @ '' '' @ glue ([t] @ join_tokens t xs)"
      by (rule glue_append) (use s in \<open>simp_all add: solid_def\<close>)
    also have "glue ([t] @ join_tokens t xs) = glue [t] @ '' '' @ glue (join_tokens t xs)"
      by (rule glue_append) (use s IH(1) in \<open>simp_all add: solid_def\<close>)
    finally show ?thesis
      unfolding j using IH s solid_append [OF s(1) solid_append [OF s(2) IH(1)]] by (simp add: Cons)
  qed (use Cons.prems in simp)
qed simp

lemma leaf_solid:
  assumes "printable_leaf H e" shows "solid (leaf_tokens H e) \<and> glue (leaf_tokens H e) = ck_serialize H e"
  using assms by (cases e) (auto simp: solid_def printable_key_def printable_string_def printable_number_def)

lemma clause_solid:
  assumes "printable_clause H e" shows "solid (clause_tokens H e) \<and> glue (clause_tokens H e) = ck_serialize H e"
  using assms unfolding printable_clause_def
proof (elim disjE exE conjE)
  assume leaf: "printable_leaf H e"
  then have "clause_tokens H e = leaf_tokens H e" by (cases e) auto
  then show ?thesis using leaf_solid [OF leaf] by simp
next
  fix es m assume e: "e = AndExpr es m" "es \<noteq> []" "\<forall>x \<in> set es. printable_leaf H x"
  have "join_with '' && '' (map (glue \<circ> leaf_tokens H) es) = join_with '' && '' (map (ck_serialize H) es)"
    using e(3) leaf_solid by (intro arg_cong [of _ _ "join_with _"] map_cong) auto
  then show ?thesis using solid_join [of TAnd "map (leaf_tokens H) es"] e leaf_solid by simp
qed

lemma expr_solid:
  assumes "printable H e" shows "solid (expr_tokens H e) \<and> glue (expr_tokens H e) = ck_serialize H e"
  using assms unfolding printable_def
proof (elim disjE exE conjE)
  assume clause: "printable_clause H e"
  then have "expr_tokens H e = clause_tokens H e" by (cases e) (auto simp: printable_clause_def)
  then show ?thesis using clause_solid [OF clause] by simp
next
  fix cs m assume e: "e = OrExpr cs m" "cs \<noteq> []" "\<forall>c \<in> set cs. printable_clause H c"
  have "join_with '' || '' (map (glue \<circ> clause_tokens H) cs) = join_with '' || '' (map (ck_serialize H) cs)"
    using e(3) clause_solid by (intro arg_cong [of _ _ "join_with _"] map_cong) auto
  then show ?thesis using solid_join [of TOr "map (clause_tokens H) cs"] e clause_solid by simp
qed

section \<open>Reading the tokens\<close>

text \<open>The types of the tokens from the current one on, ending with \<open>EOF\<close>.\<close>

definition upcoming :: "Parser \<Rightarrow> token_type list \<Rightarrow> bool" where
  "upcoming st ts \<longleftrightarrow> map tk_type (drop (pa_current st) (pa_tokens st)) = ts"

definition same_run :: "Parser \<Rightarrow> Parser \<Rightarrow> bool" where
  "same_run st st' \<longleftrightarrow> pa_errors st' = pa_errors st \<and> pa_scanner st' = pa_scanner st \<and> pa_tokens st' = pa_tokens st"

lemma same_run_refl [simp]: "same_run st st"
  by (simp add: same_run_def)

lemma same_run_trans [trans]: "same_run a b \<Longrightarrow> same_run b c \<Longrightarrow> same_run a c"
  by (simp add: same_run_def)

lemma upcoming_peek: "upcoming st (t # ts) \<Longrightarrow> tk_type (Parser_peek st) = t"
proof -
  assume up: "upcoming st (t # ts)"
  then have "pa_current st < length (pa_tokens st)" by (auto simp: upcoming_def intro: ccontr)
  then show ?thesis using up by (auto simp: upcoming_def Parser_peek_def simp flip: Cons_nth_drop_Suc)
qed

lemma upcoming_check: "upcoming st (t # ts) \<Longrightarrow> Parser_check u st \<longleftrightarrow> t = u"
  by (simp add: Parser_check_def upcoming_peek)

lemma upcoming_advance:
  assumes "upcoming st (t # ts)" and "t \<noteq> EOF"
  shows "upcoming (Parser_advance st) ts" and "same_run st (Parser_advance st)"
    and "tk_type (Parser_previous (Parser_advance st)) = t"
proof -
  have less: "pa_current st < length (pa_tokens st)" using assms(1) by (auto simp: upcoming_def intro: ccontr)
  have adv: "Parser_advance st = st\<lparr>pa_current := Suc (pa_current st)\<rparr>"
    using upcoming_peek [OF assms(1)] assms(2) by (simp add: Parser_advance_def Parser_isAtEnd_def)
  show "upcoming (Parser_advance st) ts"
    using assms(1) less by (simp add: adv upcoming_def flip: Cons_nth_drop_Suc)
  show "same_run st (Parser_advance st)" by (simp add: adv same_run_def)
  show "tk_type (Parser_previous (Parser_advance st)) = t"
    using assms(1) less by (simp add: adv upcoming_def Parser_previous_def flip: Cons_nth_drop_Suc)
qed

text \<open>What the text of a leaf reads back as.\<close>

fun reread :: "ck_host \<Rightarrow> ck_expr \<Rightarrow> ck_expr" where
  "reread H (DefinedExpr k) = ContextKeyDefinedExpr_create H k"
| "reread H (NotExpr k) = ContextKeyNotExpr_create H k"
| "reread H (EqualsExpr k v) = ContextKeyEqualsExpr_create H k v"
| "reread H (NotEqualsExpr k v) = ContextKeyNotEqualsExpr_create H k v"
| "reread H e = e"

lemma reread_leaf: "printable_leaf H e \<Longrightarrow> is_leaf (reread H e)"
  by (cases e) (auto simp: create_leaves)

lemma reread_sane: "printable_leaf H e \<Longrightarrow> sane H c e \<Longrightarrow> reread H e = e"
  by (cases e) (auto simp: create_defs printable_string_def)

text \<open>A method reads tokens up to one of the stops, with a value.\<close>

definition reads :: "parser_method \<Rightarrow> token_type list \<Rightarrow> token_type set \<Rightarrow> ck_expr \<Rightarrow> bool" where
  "reads m ts stops e \<longleftrightarrow>
     (\<forall>st s rest. upcoming st (ts @ s # rest) \<longrightarrow> s \<in> stops \<longrightarrow>
       (\<exists>st'. m st = Done (Some e) st' \<and> upcoming st' (s # rest) \<and> same_run st st'))"

lemma value_reads:
  assumes "upcoming st (t # ts)" and "t = Str w \<or> t = QuotedStr w"
  shows "fst (Parser_value st) = w \<and> snd (Parser_value st) = Parser_advance st"
  using upcoming_peek [OF assms(1)] assms(2) by (auto simp: Parser_value_def)

text \<open>An operator with a value after the key, quoted or not.\<close>

fun operator_result :: "ck_host \<Rightarrow> string \<Rightarrow> token_type \<Rightarrow> bool \<Rightarrow> string \<Rightarrow> ck_expr" where
  "operator_result H key (TEq _) quoted w =
     (if quoted \<or> w \<noteq> ''true'' \<and> w \<noteq> ''false'' then ContextKeyEqualsExpr_create H key (PStr w)
      else if w = ''true'' then ContextKeyDefinedExpr_create H key else ContextKeyNotExpr_create H key)"
| "operator_result H key (TNotEq _) quoted w =
     (if quoted \<or> w \<noteq> ''true'' \<and> w \<noteq> ''false'' then ContextKeyNotEqualsExpr_create H key (PStr w)
      else if w = ''true'' then ContextKeyNotExpr_create H key else ContextKeyDefinedExpr_create H key)"
| "operator_result H key Lt quoted w = ContextKeySmallerExpr_create key (PStr w)"
| "operator_result H key LtEq quoted w = ContextKeySmallerEqualsExpr_create key (PStr w)"
| "operator_result H key Gt quoted w = ContextKeyGreaterExpr_create key (PStr w)"
| "operator_result H key GtEq quoted w = ContextKeyGreaterEqualsExpr_create key (PStr w)"
| "operator_result H key _ quoted w = ContextKeyInExpr_create key w"

lemma key_operator:
  assumes "upcoming st (t # v # s # rest)" and "t \<in> {TEq False, TNotEq False, Lt, LtEq, Gt, GtEq, TIn}"
    and "v = (if quoted then QuotedStr w else Str w)"
  shows "\<exists>st'. Parser_key H R recover key st = Done (Some (operator_result H key t quoted w)) st' \<and> upcoming st' (s # rest) \<and> same_run st st'"
proof -
  have t: "t \<noteq> EOF" "t \<noteq> RegexOp" "t \<noteq> TNot" using assms(2) by auto
  note a1 = upcoming_advance [OF assms(1) t(1)]
  have v: "v \<noteq> EOF" using assms(3) by (cases quoted) auto
  note a2 = upcoming_advance [OF a1(1) v]
  define st2 where "st2 = Parser_advance (Parser_advance st)"
  have run: "upcoming st2 (s # rest)" "same_run st st2"
    using a2(1) same_run_trans [OF a1(2) a2(2)] by (simp_all add: st2_def)
  have val: "Parser_value (Parser_advance st) = (w, st2)"
    using value_reads [OF a1(1), of w] assms(3) by (simp add: st2_def prod_eq_iff split: if_splits)
  have prev: "tk_type (Parser_previous st2) = v" using a2(3) by (simp add: st2_def)
  have peek: "tk_type (Parser_peek st) = t" by (rule upcoming_peek [OF assms(1)])
  show ?thesis
    using assms(2) run
    by (intro exI [of _ st2], elim insertE emptyE) (simp_all add: Parser_key_def Parser_check_def val prev peek assms(3))
qed

lemma key_plain:
  assumes "upcoming st (s # rest)" and "s \<in> {TAnd, TOr, EOF}"
  shows "Parser_key H R recover key st = Done (Some (ContextKeyDefinedExpr_create H key)) st"
  using assms(2) upcoming_peek [OF assms(1)] by (auto simp: Parser_key_def Parser_check_def case_prod_unfold Let_def)

lemma key_not_in:
  assumes "upcoming st (TNot # TIn # QuotedStr d # s # rest)"
  shows "\<exists>st'. Parser_key H R recover key st = Done (Some (ContextKeyNotInExpr_create key d)) st' \<and> upcoming st' (s # rest) \<and> same_run st st'"
proof -
  note a1 = upcoming_advance [OF assms, simplified]
  note a2 = upcoming_advance [OF a1(1), simplified]
  note a3 = upcoming_advance [OF a2(1), simplified]
  define st3 where "st3 = Parser_advance (Parser_advance (Parser_advance st))"
  have val: "Parser_value (Parser_advance (Parser_advance st)) = (d, st3)"
    using value_reads [OF a2(1)] by (simp add: st3_def prod_eq_iff)
  have run: "upcoming st3 (s # rest)" "same_run st st3"
    using a3(1) same_run_trans [OF a1(2) same_run_trans [OF a2(2) a3(2)]] by (simp_all add: st3_def)
  have "Parser_consume TIn errorNoInAfterNot (Parser_advance st) = Done () (Parser_advance (Parser_advance st))"
    using upcoming_check [OF a1(1)] by (simp add: Parser_consume_def)
  then show ?thesis
    using run by (intro exI [of _ st3]) (simp add: Parser_key_def upcoming_check [OF assms] val)
qed

lemma term_key:
  assumes "upcoming st (Str key # t # ts)"
    and "\<exists>st'. Parser_key H R recover key (Parser_advance st) = Done (Some e) st' \<and> upcoming st' rest \<and> same_run (Parser_advance st) st'"
  shows "\<exists>st'. Parser_term H R call recover m st = Done (Some e) st' \<and> upcoming st' rest \<and> same_run st st'"
  using assms upcoming_advance(2) [OF assms(1)] same_run_trans
  by (fastforce simp: Parser_term_def Parser_primary_def upcoming_check [OF assms(1)] upcoming_peek [OF assms(1)])

lemma term_reads:
  assumes "printable_leaf H e"
  shows "reads (Parser_term H R call recover m) (leaf_tokens H e) {TAnd, TOr, EOF} (reread H e)"
  unfolding reads_def
proof (intro allI impI)
  fix st s rest assume up: "upcoming st (leaf_tokens H e @ s # rest)" and s: "s \<in> {TAnd, TOr, EOF}"
  have op: "\<exists>st'. Parser_term H R call recover m st = Done (Some (operator_result H k t quoted w)) st' \<and> upcoming st' (s # rest) \<and> same_run st st'"
    if "upcoming st (Str k # t # (if quoted then QuotedStr w else Str w) # s # rest)" "t \<in> {TEq False, TNotEq False, Lt, LtEq, Gt, GtEq, TIn}"
    for k t quoted w
    by (rule term_key [OF that(1) key_operator [OF upcoming_advance(1) [OF that(1)] that(2) refl]]) simp
  have number: "withFloatOrStr (PStr (number_to_string H n)) f = f (PNum n)" if "parse_float (number_to_string H n) = n" "n \<noteq> JsNaN" for n f
    using that by (simp add: withFloatOrStr_def)
  show "\<exists>st'. Parser_term H R call recover m st = Done (Some (reread H e)) st' \<and> upcoming st' (s # rest) \<and> same_run st st'"
  proof (cases e)
    case FalseExpr
    then show ?thesis using up upcoming_advance [of st TFalse "s # rest"] upcoming_peek [of st TFalse]
      by (auto simp: Parser_term_def Parser_primary_def Parser_check_def)
  next
    case TrueExpr
    then show ?thesis using up upcoming_advance [of st TTrue "s # rest"] upcoming_peek [of st TTrue]
      by (auto simp: Parser_term_def Parser_primary_def Parser_check_def)
  next
    case (DefinedExpr k)
    then have u: "upcoming st (Str k # s # rest)" using up by simp
    note a = upcoming_advance(1) [OF u]
    show ?thesis using term_key [OF u] key_plain [OF a _] s a DefinedExpr by auto
  next
    case (NotExpr k)
    then have u: "upcoming st (Neg # Str k # s # rest)" using up by simp
    note a1 = upcoming_advance [OF u, simplified]
    note a2 = upcoming_advance [OF a1(1), simplified]
    show ?thesis using a2(1) same_run_trans [OF a1(2) a2(2)] NotExpr
      by (simp add: Parser_term_def Parser_negated_def upcoming_check [OF u] upcoming_peek [OF a1(1)])
  next
    case (NotInExpr k d)
    then have u: "upcoming st (Str k # TNot # TIn # QuotedStr d # s # rest)" using up by simp
    have "\<exists>st'. Parser_key H R recover k (Parser_advance st) = Done (Some (ContextKeyNotInExpr_create k d)) st' \<and> upcoming st' (s # rest) \<and>
        same_run (Parser_advance st) st'"
      by (rule key_not_in [OF upcoming_advance(1) [OF u]]) simp
    from term_key [OF u this] show ?thesis using NotInExpr by (simp add: ContextKeyNotInExpr_create_def)
  next
    case (EqualsExpr k v)
    then obtain w where "v = PStr w" using assms by (auto simp: printable_string_def)
    then show ?thesis using op [of k "TEq False" True w] up EqualsExpr by simp
  next
    case (NotEqualsExpr k v)
    then obtain w where "v = PStr w" using assms by (auto simp: printable_string_def)
    then show ?thesis using op [of k "TNotEq False" True w] up NotEqualsExpr by simp
  next
    case (InExpr k d)
    then show ?thesis using op [of k TIn True d] up by (simp add: ContextKeyInExpr_create_def)
  next
    case (GreaterExpr k v)
    then obtain n where n: "v = PNum n" "parse_float (number_to_string H n) = n" "n \<noteq> JsNaN" using assms by (auto simp: printable_number_def)
    then show ?thesis using op [of k Gt False "number_to_string H n"] up GreaterExpr number [OF n(2,3)] by (simp add: ContextKeyGreaterExpr_create_def)
  next
    case (GreaterEqualsExpr k v)
    then obtain n where n: "v = PNum n" "parse_float (number_to_string H n) = n" "n \<noteq> JsNaN" using assms by (auto simp: printable_number_def)
    then show ?thesis using op [of k GtEq False "number_to_string H n"] up GreaterEqualsExpr number [OF n(2,3)] by (simp add: ContextKeyGreaterEqualsExpr_create_def)
  next
    case (SmallerExpr k v)
    then obtain n where n: "v = PNum n" "parse_float (number_to_string H n) = n" "n \<noteq> JsNaN" using assms by (auto simp: printable_number_def)
    then show ?thesis using op [of k Lt False "number_to_string H n"] up SmallerExpr number [OF n(2,3)] by (simp add: ContextKeySmallerExpr_create_def)
  next
    case (SmallerEqualsExpr k v)
    then obtain n where n: "v = PNum n" "parse_float (number_to_string H n) = n" "n \<noteq> JsNaN" using assms by (auto simp: printable_number_def)
    then show ?thesis using op [of k LtEq False "number_to_string H n"] up SmallerEqualsExpr number [OF n(2,3)] by (simp add: ContextKeySmallerEqualsExpr_create_def)
  qed (use assms in simp_all)
qed

section \<open>Reading operands\<close>

lemma readsD:
  assumes "reads m ts stops e" and "upcoming st (ts @ s # rest)" and "s \<in> stops"
  shows "\<exists>st'. m st = Done (Some e) st' \<and> upcoming st' (s # rest) \<and> same_run st st'"
  using assms unfolding reads_def by simp

lemma operand_loop_reads:
  assumes "\<forall>x \<in> set xs. reads operand (f x) (insert t stops) (g x)" and "t \<notin> stops" and "t \<noteq> EOF"
    and "upcoming st (concat (map (\<lambda>x. t # f x) xs) @ s # rest)" and "s \<in> stops" and "length xs < d"
  shows "\<exists>st'. operand_loop t finish operand d es st = finish (es @ map (\<lambda>x. Some (g x)) xs) st' \<and>
    upcoming st' (s # rest) \<and> same_run st st'"
  using assms(1,4,6)
proof (induction xs arbitrary: st es d)
  case Nil
  then obtain d' where "d = Suc d'" by (cases d) auto
  then show ?case using upcoming_check [of st s rest t] Nil.prems(2) assms(2,5) by (intro exI [of _ st]) auto
next
  case (Cons x xs)
  then obtain d' where d: "d = Suc d'" "length xs < d'" by (cases d) auto
  obtain u us where u: "concat (map (\<lambda>x. t # f x) xs) @ s # rest = u # us" "u \<in> insert t stops"
    using assms(5) by (cases xs) auto
  have up: "upcoming st (t # f x @ u # us)" using Cons.prems(2) u(1) by simp
  note a = upcoming_advance [OF up assms(3)]
  obtain st1 where st1: "operand (Parser_advance st) = Done (Some (g x)) st1" "upcoming st1 (u # us)" "same_run (Parser_advance st) st1"
    using readsD [of operand "f x" "insert t stops" "g x" "Parser_advance st" u us] Cons.prems(1) a(1) u(2) by auto
  obtain st2 where "operand_loop t finish operand d' (es @ [Some (g x)]) st1 =
      finish ((es @ [Some (g x)]) @ map (\<lambda>x. Some (g x)) xs) st2" "upcoming st2 (s # rest)" "same_run st1 st2"
    using Cons.IH [of st1 d' "es @ [Some (g x)]"] Cons.prems(1) st1(2) d(2) by (auto simp flip: u(1))
  moreover from this(3) have "same_run st st2" using same_run_trans [OF a(2) same_run_trans [OF st1(3)]] by simp
  ultimately show ?case using st1(1) upcoming_check [OF up] by (intro exI [of _ st2]) (simp add: d(1))
qed

lemma operands_read:
  assumes "\<forall>x \<in> set xs. reads operand (f x) (insert t stops) (g x)" and "t \<notin> stops" and "t \<noteq> EOF"
    and "xs \<noteq> []" and "length xs \<le> d" and "\<And>st. finish (map (\<lambda>x. Some (g x)) xs) st = Done (Some e) st"
  shows "reads (\<lambda>st. pbind (operand st) (\<lambda>e st. operand_loop t finish operand d [e] st)) (join_tokens t (map f xs)) stops e"
  unfolding reads_def
proof (intro allI impI)
  fix st s rest assume up: "upcoming st (join_tokens t (map f xs) @ s # rest)" and s: "s \<in> stops"
  obtain x ys where xs: "xs = x # ys" using assms(4) by (cases xs) auto
  obtain u us where u: "concat (map (\<lambda>x. t # f x) ys) @ s # rest = u # us" "u \<in> insert t stops"
    using s by (cases ys) auto
  have "upcoming st (f x @ u # us)" using up by (simp add: xs comp_def flip: u(1))
  then obtain st1 where st1: "operand st = Done (Some (g x)) st1" "upcoming st1 (u # us)" "same_run st st1"
    using readsD [of operand "f x" "insert t stops" "g x" st u us] assms(1) u(2) xs by auto
  obtain st2 where st2: "operand_loop t finish operand d [Some (g x)] st1 = finish ([Some (g x)] @ map (\<lambda>x. Some (g x)) ys) st2"
    "upcoming st2 (s # rest)" "same_run st1 st2"
    using operand_loop_reads [of ys operand f t stops g st1 s rest d finish "[Some (g x)]"] assms(1-3,5) s st1(2) u(1) xs by auto
  show "\<exists>st'. pbind (operand st) (\<lambda>e st. operand_loop t finish operand d [e] st) = Done (Some e) st' \<and>
      upcoming st' (s # rest) \<and> same_run st st'"
    using st1(1) st2 same_run_trans [OF st1(3) st2(3)] assms(6) xs by (intro exI [of _ st2]) simp
qed

text \<open>The value of \<open>_and\<close> and \<open>_or\<close> on their operands.\<close>

definition and_result :: "ck_engine \<Rightarrow> ck_expr list \<Rightarrow> ck_expr \<Rightarrow> bool" where
  "and_result call es e \<longleftrightarrow> (if length es = 1 then e = hd es else call (CreateAnd (map Some es) None True) = Some (Some e))"

definition or_result :: "ck_engine \<Rightarrow> ck_expr list \<Rightarrow> ck_expr \<Rightarrow> bool" where
  "or_result call es e \<longleftrightarrow> (if length es = 1 then e = hd es else call (CreateOr (map Some es) None True) = Some (Some e))"

lemma finish_and_result:
  assumes "and_result call (map g xs) e" and "xs \<noteq> []" shows "finish_and call (map (\<lambda>x. Some (g x)) xs) st = Done (Some e) st"
  using assms by (cases xs) (auto simp: finish_and_def and_result_def answered_def comp_def)

lemma finish_or_result:
  assumes "or_result call (map g xs) e" and "xs \<noteq> []" shows "finish_or call (map (\<lambda>x. Some (g x)) xs) st = Done (Some e) st"
  using assms by (cases xs) (auto simp: finish_or_def or_result_def answered_def comp_def)

lemma clause_terms:
  assumes "printable_clause H c"
  shows "and_terms c \<noteq> []" and "\<forall>x \<in> set (and_terms c). printable_leaf H x" and "clause_tokens H c = join_tokens TAnd (map (leaf_tokens H) (and_terms c))"
  using assms by (cases c; auto simp: printable_clause_def)+

lemma expr_clauses:
  assumes "printable H e"
  shows "getTerminals e \<noteq> []" and "\<forall>c \<in> set (getTerminals e). printable_clause H c" and "expr_tokens H e = join_tokens TOr (map (clause_tokens H) (getTerminals e))"
  using assms by (cases e; auto simp: printable_def printable_clause_def)+

lemma clause_reads:
  assumes "printable_clause H c" and "and_result call (map (reread H) (and_terms c)) a" and "length (and_terms c) \<le> d"
  shows "reads (Parser_and call (Parser_term H R call recover m) d) (clause_tokens H c) {TOr, EOF} a"
  unfolding Parser_and_def [abs_def] clause_terms(3) [OF assms(1)]
proof (rule operands_read)
  show "\<forall>x \<in> set (and_terms c). reads (Parser_term H R call recover m) (leaf_tokens H x) (insert TAnd {TOr, EOF}) (reread H x)"
    using term_reads clause_terms(2) [OF assms(1)] by simp
qed (use assms(3) clause_terms(1) [OF assms(1)] finish_and_result [OF assms(2)] in simp_all)

lemma expr_reads:
  assumes "printable H e" and "\<forall>c \<in> set (getTerminals e). and_result call (map (reread H) (and_terms c)) (g c)"
    and "or_result call (map g (getTerminals e)) r"
    and "length (getTerminals e) \<le> d" and "\<forall>c \<in> set (getTerminals e). length (and_terms c) \<le> d"
  shows "reads (Parser_expr H R call recover (Suc d)) (expr_tokens H e) {EOF} r"
  unfolding Parser_expr.simps [abs_def] Parser_or_def [abs_def] expr_clauses(3) [OF assms(1)]
proof (rule operands_read)
  show "\<forall>c \<in> set (getTerminals e). reads (Parser_and call (Parser_term H R call recover (Parser_expr H R call recover d)) d)
      (clause_tokens H c) (insert TOr {EOF}) (g c)"
    using clause_reads expr_clauses(2) [OF assms(1)] assms(2,5) by simp
qed (use assms(4) expr_clauses(1) [OF assms(1)] finish_or_result [OF assms(3)] in simp_all)

section \<open>The value of what is read\<close>

definition same_value :: "ck_host \<Rightarrow> ck_expr \<Rightarrow> ck_expr \<Rightarrow> bool" where
  "same_value H e a \<longleftrightarrow> (\<forall>c. sane H c e \<longrightarrow> sane H c a \<and> (ck_evaluate H c a \<longleftrightarrow> ck_evaluate H c e))"

lemma create_some:
  assumes "es \<noteq> []" and "\<forall>e \<in> set es. well_formed e"
  shows "\<exists>a. returns H (CreateAnd (map Some es) None True) (Some a) \<and> well_formed a \<and>
      (\<forall>c. (\<forall>e \<in> set es. sane H c e) \<longrightarrow> sane H c a \<and> (ck_evaluate H c a \<longleftrightarrow> (\<forall>e \<in> set es. ck_evaluate H c e)))"
    and "\<exists>a. returns H (CreateOr (map Some es) None True) (Some a) \<and> well_formed a \<and>
      (\<forall>c. (\<forall>e \<in> set es. sane H c e) \<longrightarrow> sane H c a \<and> (ck_evaluate H c a \<longleftrightarrow> (\<exists>e \<in> set es. ck_evaluate H c e)))"
proof -
  have p: "present (map Some es) = es" by simp
  obtain a where a: "returns H (CreateAnd (map Some es) None True) (Some a)" "well_formed a"
    using CreateAnd_total [of "map Some es" H True] assms unfolding p by blast
  obtain b where b: "returns H (CreateOr (map Some es) None True) (Some b)" "well_formed b"
    using CreateOr_total [of "map Some es" H True] assms unfolding p by blast
  show "\<exists>a. returns H (CreateAnd (map Some es) None True) (Some a) \<and> well_formed a \<and>
      (\<forall>c. (\<forall>e \<in> set es. sane H c e) \<longrightarrow> sane H c a \<and> (ck_evaluate H c a \<longleftrightarrow> (\<forall>e \<in> set es. ck_evaluate H c e)))"
    using a returns_value [OF a(1)] by (intro exI [of _ a]) (simp add: p)
  show "\<exists>a. returns H (CreateOr (map Some es) None True) (Some a) \<and> well_formed a \<and>
      (\<forall>c. (\<forall>e \<in> set es. sane H c e) \<longrightarrow> sane H c a \<and> (ck_evaluate H c a \<longleftrightarrow> (\<exists>e \<in> set es. ck_evaluate H c e)))"
    using b returns_value [OF b(1)] by (intro exI [of _ b]) (simp add: p)
qed

lemma clause_value:
  assumes "printable_clause H c"
  shows "\<exists>a. (\<forall>\<^sub>F n in sequentially. and_result (ck_run H n) (map (reread H) (and_terms c)) a) \<and> well_formed a \<and> same_value H c a"
proof -
  let ?es = "map (reread H) (and_terms c)"
  note terms = clause_terms [OF assms]
  have leaves: "\<forall>e \<in> set ?es. well_formed e" using terms(2) reread_leaf well_formed_leaf by auto
  have same: "(\<forall>e \<in> set ?es. sane H d e) \<and> ((\<forall>e \<in> set ?es. ck_evaluate H d e) \<longleftrightarrow> ck_evaluate H d c)" if "sane H d c" for d
  proof -
    note v = and_terms_value [OF that]
    have "?es = and_terms c" by (rule map_idI) (use v reread_sane terms(2) in blast)
    with v show ?thesis by metis
  qed
  show ?thesis
  proof (cases "length ?es = 1")
    case True
    then obtain x where x: "?es = [x]" by (metis One_nat_def length_0_conv length_Suc_conv)
    then show ?thesis
      using leaves same by (intro exI [of _ x]) (simp add: and_result_def same_value_def)
  next
    case False
    obtain a where a: "returns H (CreateAnd (map Some ?es) None True) (Some a)" "well_formed a"
      "\<forall>d. (\<forall>e \<in> set ?es. sane H d e) \<longrightarrow> sane H d a \<and> (ck_evaluate H d a \<longleftrightarrow> (\<forall>e \<in> set ?es. ck_evaluate H d e))"
      using create_some(1) [of ?es H] leaves terms(1) by blast
    have "same_value H c a" unfolding same_value_def
    proof (intro allI impI)
      fix d assume "sane H d c"
      from same [OF this] a(3) show "sane H d a \<and> (ck_evaluate H d a \<longleftrightarrow> ck_evaluate H d c)" by blast
    qed
    then show ?thesis using a False unfolding returns_def and_result_def by (intro exI [of _ a]) simp
  qed
qed

lemma expr_value:
  assumes "printable H e" and "\<forall>c \<in> set (getTerminals e). well_formed (g c) \<and> same_value H c (g c)"
  shows "\<exists>a. (\<forall>\<^sub>F n in sequentially. or_result (ck_run H n) (map g (getTerminals e)) a) \<and> well_formed a \<and> same_value H e a"
proof -
  let ?es = "map g (getTerminals e)"
  have same: "(\<forall>x \<in> set ?es. sane H d x) \<and> ((\<exists>x \<in> set ?es. ck_evaluate H d x) \<longleftrightarrow> ck_evaluate H d e)" if "sane H d e" for d
    using getTerminals_value [OF that] assms(2) by (simp add: same_value_def)
  show ?thesis
  proof (cases "length ?es = 1")
    case True
    then obtain x where x: "?es = [x]" by (metis One_nat_def length_0_conv length_Suc_conv)
    then show ?thesis
      using assms(2) same by (intro exI [of _ x]) (auto simp: or_result_def same_value_def)
  next
    case False
    obtain a where a: "returns H (CreateOr (map Some ?es) None True) (Some a)" "well_formed a"
      "\<forall>d. (\<forall>x \<in> set ?es. sane H d x) \<longrightarrow> sane H d a \<and> (ck_evaluate H d a \<longleftrightarrow> (\<exists>x \<in> set ?es. ck_evaluate H d x))"
      using create_some(2) [of ?es H] assms(2) expr_clauses(1) [OF assms(1)] by auto
    have "same_value H e a" unfolding same_value_def
    proof (intro allI impI)
      fix d assume "sane H d e"
      from same [OF this] a(3) show "sane H d a \<and> (ck_evaluate H d a \<longleftrightarrow> ck_evaluate H d e)" by blast
    qed
    then show ?thesis using a False unfolding returns_def or_result_def by (intro exI [of _ a]) simp
  qed
qed

lemma join_length:
  assumes "\<forall>x \<in> set xs. x \<noteq> []"
  shows "length xs \<le> length (join_tokens t xs) \<and> (\<forall>x \<in> set xs. length x \<le> length (join_tokens t xs))"
proof (cases xs)
  case (Cons y ys)
  have "length ys \<le> length (concat (map (\<lambda>y. t # y) ys)) \<and> (\<forall>x \<in> set ys. length x \<le> length (concat (map (\<lambda>y. t # y) ys)))"
    by (induction ys) auto
  then show ?thesis using assms Cons by (cases y) auto
qed simp

lemma clause_length:
  assumes "printable_clause H c" shows "length (and_terms c) \<le> length (clause_tokens H c)"
proof -
  have "\<forall>x \<in> set (map (leaf_tokens H) (and_terms c)). x \<noteq> []"
    using clause_terms(2) [OF assms] leaf_solid by (auto simp: solid_def)
  from conjunct1 [OF join_length [OF this, of TAnd]] show ?thesis by (simp add: clause_terms(3) [OF assms])
qed

lemma expr_length:
  assumes "printable H e"
  shows "length (getTerminals e) \<le> length (expr_tokens H e) \<and> (\<forall>c \<in> set (getTerminals e). length (and_terms c) \<le> length (expr_tokens H e))"
proof -
  have "\<forall>x \<in> set (map (clause_tokens H) (getTerminals e)). x \<noteq> []"
    using expr_clauses(2) [OF assms] clause_solid by (auto simp: solid_def)
  note l = join_length [OF this, of TOr]
  then have "\<forall>c \<in> set (getTerminals e). length (clause_tokens H c) \<le> length (expr_tokens H e)"
    by (simp add: expr_clauses(3) [OF assms])
  then show ?thesis using l clause_length expr_clauses(2) [OF assms] by (force simp: expr_clauses(3) [OF assms] intro: order_trans)
qed

lemma deserialize_reads:
  assumes "printable H e" and "reads (Parser_expr H R call False (Suc (length (expr_tokens H e) + 2))) (expr_tokens H e) {EOF} r"
  shows "\<exists>st'. ContextKeyExpr_deserialize H R call (Some (ck_serialize H e)) st = Some (Some r, st') \<and>
      pa_errors st' = [] \<and> pa_scanner st' = snd (Scanner_scan (Scanner_reset (ck_serialize H e)))"
proof -
  have solid: "solid (expr_tokens H e)" and serial: "ck_serialize H e = glue (expr_tokens H e)" using expr_solid [OF assms(1)] by simp_all
  obtain tokens sc where scan: "Scanner_scan (Scanner_reset (ck_serialize H e)) = (tokens, sc)" by force
  have types: "map tk_type tokens = expr_tokens H e @ [EOF]" using scan_glue [of "expr_tokens H e"] solid scan by (simp add: solid_def serial)
  from arg_cong [OF this, of length] have fuel: "Parser_fuel tokens = Suc (length (expr_tokens H e) + 2)" by (simp add: Parser_fuel_def)
  have "ck_serialize H e \<noteq> []"
  proof
    assume "ck_serialize H e = []"
    then have "tokens = fst (Scanner_scan (Scanner_reset []))" using scan by simp
    then have "map tk_type tokens = [EOF]" using scan_glue [of "[]"] by simp
    then show False using types solid by (simp add: solid_def)
  qed
  define st0 where "st0 = st\<lparr>pa_tokens := tokens, pa_scanner := sc, pa_current := 0, pa_errors := []\<rparr>"
  have "upcoming st0 (expr_tokens H e @ EOF # [])" using types by (simp add: upcoming_def st0_def)
  from readsD [OF assms(2) this] obtain st1
    where st1: "Parser_expr H R call False (Parser_fuel tokens) st0 = Done (Some r) st1" "upcoming st1 [EOF]" "same_run st0 st1"
    by (auto simp: fuel)
  have "Parser_isAtEnd st1" using upcoming_peek [OF st1(2)] by (simp add: Parser_isAtEnd_def)
  then have "Parser_parse H R call False (ck_serialize H e) st = Some (Some r, st1)"
    using \<open>ck_serialize H e \<noteq> []\<close> st1(1) unfolding Parser_parse_def Let_def scan by (simp add: st0_def)
  moreover have "pa_errors st1 = []" "pa_scanner st1 = sc" using st1(3) by (simp_all add: same_run_def st0_def)
  ultimately show ?thesis by (intro exI [of _ st1]) (simp add: ContextKeyExpr_deserialize_def scan)
qed

section \<open>The property\<close>

text \<open>C18: A when-clause survives its serialised form: for a disjunction of conjunctions of leaves, the form the
  constructors build, whose leaves are none of the regular-expression ones, whose keys are single words other than the
  keywords, whose equalities compare with strings, whose quoted values hold no quote and whose numbers read back from
  their decimal form, parsing the text of \<open>serialize\<close> with \<open>deserialize\<close> returns (from
  some fuel on, always the same) a well-formed expression, with no parsing and no lexing error, whatever state the
  parser was left in; and in every context where the expression is sane the answer is sane and has the same value.\<close>
lemma deserialize_serialize:
  assumes "printable H e"
  shows "\<exists>N e' st'. (\<forall>n \<ge> N. ContextKeyExpr_deserialize H R (ck_run H n) (Some (ck_serialize H e)) st = Some (Some e', st')) \<and>
    pa_errors st' = [] \<and> sc_errors (pa_scanner st') = [] \<and> well_formed e' \<and>
    (\<forall>c. sane H c e \<longrightarrow> sane H c e' \<and> (ck_evaluate H c e' \<longleftrightarrow> ck_evaluate H c e))"
proof -
  have "\<forall>c \<in> set (getTerminals e). \<exists>a. (\<forall>\<^sub>F n in sequentially. and_result (ck_run H n) (map (reread H) (and_terms c)) a) \<and>
      well_formed a \<and> same_value H c a"
    using clause_value expr_clauses(2) [OF assms] by blast
  then obtain g where g: "\<And>c. c \<in> set (getTerminals e) \<Longrightarrow> \<forall>\<^sub>F n in sequentially. and_result (ck_run H n) (map (reread H) (and_terms c)) (g c)"
      "\<And>c. c \<in> set (getTerminals e) \<Longrightarrow> well_formed (g c) \<and> same_value H c (g c)"
    by metis
  obtain a where a: "\<forall>\<^sub>F n in sequentially. or_result (ck_run H n) (map g (getTerminals e)) a" "well_formed a" "same_value H e a"
    using expr_value [OF assms, of g] g(2) by blast
  let ?answer = "\<lambda>n. ContextKeyExpr_deserialize H R (ck_run H n) (Some (ck_serialize H e)) st"
  have "\<forall>\<^sub>F n in sequentially. \<forall>c \<in> set (getTerminals e). and_result (ck_run H n) (map (reread H) (and_terms c)) (g c)"
    using g(1) by (simp add: eventually_ball_finite)
  then have "\<forall>\<^sub>F n in sequentially. reads (Parser_expr H R (ck_run H n) False (Suc (length (expr_tokens H e) + 2))) (expr_tokens H e) {EOF} a"
    using a(1) by eventually_elim (rule expr_reads [OF assms]; use expr_length [OF assms] in force)
  then have "\<forall>\<^sub>F n in sequentially. \<exists>st'. ?answer n = Some (Some a, st') \<and> pa_errors st' = [] \<and>
      pa_scanner st' = snd (Scanner_scan (Scanner_reset (ck_serialize H e)))"
    by eventually_elim (rule deserialize_reads [OF assms])
  moreover obtain r st1 where "\<forall>\<^sub>F n in sequentially. ?answer n = Some (r, st1)"
    unfolding ContextKeyExpr_deserialize_def using parse_settles [of H R False "ck_serialize H e" st] by auto
  ultimately have both: "\<forall>\<^sub>F n in sequentially. ?answer n = Some (Some a, st1) \<and> pa_errors st1 = [] \<and>
      pa_scanner st1 = snd (Scanner_scan (Scanner_reset (ck_serialize H e)))"
    by eventually_elim auto
  moreover have "sc_errors (snd (Scanner_scan (Scanner_reset (ck_serialize H e)))) = []"
    using expr_solid [OF assms] scan_glue [of "expr_tokens H e"] by (simp add: solid_def)
  ultimately show ?thesis
    using a(2,3) unfolding eventually_sequentially same_value_def by (metis order_refl)
qed

text \<open>A clause with a negated key, a conjunction with a numeric comparison, and an equality.\<close>

definition example_clause :: ck_expr where
  "example_clause = OrExpr [NotExpr ''b'', AndExpr [DefinedExpr ''a'', GreaterExpr ''n'' (PNum (JsNum 1))] None,
     EqualsExpr ''k'' (PStr ''x y'')] None"

definition number_host :: ck_host where
  "number_host = example_host\<lparr>number_to_string := \<lambda>_. ''1''\<rparr>"

lemma example_keys: "printable_key ''a''" "printable_key ''b''" "printable_key ''k''" "printable_key ''n''"
  by code_simp+

lemma example_number: "printable_number number_host (PNum (JsNum 1))"
proof -
  have "printable_key ''1''" "parse_float ''1'' = JsNum 1" by code_simp+
  then show ?thesis by (simp add: printable_number_def number_host_def)
qed

lemma example_clause_printable: "printable number_host example_clause"
  using example_keys example_number
  by (simp add: example_clause_def printable_def printable_clause_def printable_string_def)

lemma example_clause_serial:
  "ck_serialize number_host example_clause = ''!b || a && n > 1 || k == '' @ [CHR 0x27] @ ''x y'' @ [CHR 0x27]"
  by code_simp

lemma example_clause_values:
  "sane number_host example_context example_clause" "ck_evaluate number_host example_context example_clause"
  by (simp_all add: example_clause_def number_host_def number_test_def sane_number_def)

lemma deserialize_serialize_witness:
  "\<exists>N e' st'. (\<forall>n \<ge> N. ContextKeyExpr_deserialize number_host (\<lambda>_ _. None) (ck_run number_host n)
      (Some (''!b || a && n > 1 || k == '' @ [CHR 0x27] @ ''x y'' @ [CHR 0x27])) Parser_new = Some (Some e', st')) \<and>
    ck_evaluate number_host example_context e'"
  using deserialize_serialize [OF example_clause_printable, of "\<lambda>_ _. None" Parser_new] example_clause_values
  unfolding example_clause_serial by blast

end
