(* ===== verification/Text_Lengths.thy ===== *)
theory Text_Lengths
  imports Positions Line_Ranges String_Edits
begin

text \<open>
  \<open>src/vs/editor/common/core/text/textLength.ts\<close>: the length of a text as a number of line breaks and
  the number of columns after the last one.  Lengths add up as texts are concatenated, and they act on
  positions: \<open>addToPosition\<close> moves a position past a text of that length.
\<close>

section \<open>Lengths\<close>

record TextLength =
  lineCount :: int
  columnCount :: int

definition TextLength_new :: "int \<Rightarrow> int \<Rightarrow> TextLength" where
  "TextLength_new l c = \<lparr>lineCount = l, columnCount = c\<rparr>"

definition TextLength_zero :: TextLength where
  "TextLength_zero = TextLength_new 0 0"

definition TextLength_isZero :: "TextLength \<Rightarrow> bool" where
  "TextLength_isZero a \<longleftrightarrow> lineCount a = 0 \<and> columnCount a = 0"

definition TextLength_isLessThan :: "TextLength \<Rightarrow> TextLength \<Rightarrow> bool" where
  "TextLength_isLessThan a other =
     (if lineCount a \<noteq> lineCount other then lineCount a < lineCount other else columnCount a < columnCount other)"

definition TextLength_isGreaterThan :: "TextLength \<Rightarrow> TextLength \<Rightarrow> bool" where
  "TextLength_isGreaterThan a other =
     (if lineCount a \<noteq> lineCount other then lineCount a > lineCount other else columnCount a > columnCount other)"

definition TextLength_isGreaterThanOrEqualTo :: "TextLength \<Rightarrow> TextLength \<Rightarrow> bool" where
  "TextLength_isGreaterThanOrEqualTo a other =
     (if lineCount a \<noteq> lineCount other then lineCount a > lineCount other else columnCount a \<ge> columnCount other)"

definition TextLength_equals :: "TextLength \<Rightarrow> TextLength \<Rightarrow> bool" where
  "TextLength_equals a other \<longleftrightarrow> lineCount a = lineCount other \<and> columnCount a = columnCount other"

definition TextLength_compare :: "TextLength \<Rightarrow> TextLength \<Rightarrow> int" where
  "TextLength_compare a other =
     (if lineCount a \<noteq> lineCount other then lineCount a - lineCount other else columnCount a - columnCount other)"

definition TextLength_add :: "TextLength \<Rightarrow> TextLength \<Rightarrow> TextLength" where
  "TextLength_add a other =
     (if lineCount other = 0 then TextLength_new (lineCount a) (columnCount a + columnCount other)
      else TextLength_new (lineCount a + lineCount other) (columnCount other))"

definition TextLength_lengthDiffNonNegative :: "TextLength \<Rightarrow> TextLength \<Rightarrow> TextLength" where
  "TextLength_lengthDiffNonNegative s e =
     (if TextLength_isLessThan e s then TextLength_zero
      else if lineCount s = lineCount e then TextLength_new 0 (columnCount e - columnCount s)
      else TextLength_new (lineCount e - lineCount s) (columnCount e))"

definition TextLength_betweenPositions :: "IPosition \<Rightarrow> IPosition \<Rightarrow> TextLength" where
  "TextLength_betweenPositions p q =
     (if lineNumber p = lineNumber q then TextLength_new 0 (column q - column p)
      else TextLength_new (lineNumber q - lineNumber p) (column q - 1))"

definition TextLength_fromPosition :: "IPosition \<Rightarrow> TextLength" where
  "TextLength_fromPosition pos = TextLength_new (lineNumber pos - 1) (column pos - 1)"

definition TextLength_ofRange :: "IRange \<Rightarrow> TextLength" where
  "TextLength_ofRange rg = TextLength_betweenPositions (Range_getStartPosition rg) (Range_getEndPosition rg)"

text \<open>
  \<open>for (const c of text)\<close> iterates over code points: a high surrogate with a low one after it is one
  character.
\<close>

fun js_code_points :: "text16 \<Rightarrow> text16 list" where
  "js_code_points [] = []"
| "js_code_points [c] = [[c]]"
| "js_code_points (c # d # cs) =
     (if 0xD800 \<le> c \<and> c \<le> 0xDBFF \<and> 0xDC00 \<le> d \<and> d \<le> 0xDFFF then [c, d] # js_code_points cs
      else [c] # js_code_points (d # cs))"

fun ofText_loop :: "text16 list \<Rightarrow> int \<Rightarrow> int \<Rightarrow> TextLength" where
  "ofText_loop [] line col = TextLength_new line col"
| "ofText_loop (c # cs) line col =
     (if c = [10] then ofText_loop cs (line + 1) 0 else ofText_loop cs line (col + 1))"

definition TextLength_ofText :: "text16 \<Rightarrow> TextLength" where
  "TextLength_ofText t = ofText_loop (js_code_points t) 0 0"

definition TextLength_ofSubstr :: "text16 \<Rightarrow> OffsetRange \<Rightarrow> TextLength" where
  "TextLength_ofSubstr str rg = TextLength_ofText (OffsetRange_substring rg str)"

definition TextLength_sum :: "'a list \<Rightarrow> ('a \<Rightarrow> TextLength) \<Rightarrow> TextLength" where
  "TextLength_sum fragments getLength = foldl (\<lambda>acc f. TextLength_add acc (getLength f)) TextLength_zero fragments"

definition TextLength_createRange :: "TextLength \<Rightarrow> IPosition \<Rightarrow> IRange" where
  "TextLength_createRange a startPosition =
     (if lineCount a = 0
      then Range_new (lineNumber startPosition) (column startPosition) (lineNumber startPosition) (column startPosition + columnCount a)
      else Range_new (lineNumber startPosition) (column startPosition) (lineNumber startPosition + lineCount a) (columnCount a + 1))"

definition TextLength_toRange :: "TextLength \<Rightarrow> IRange" where
  "TextLength_toRange a = Range_new 1 1 (lineCount a + 1) (columnCount a + 1)"

definition TextLength_toLineRange :: "TextLength \<Rightarrow> LineRange result" where
  "TextLength_toLineRange a = LineRange_ofLength 1 (lineCount a + 1)"

definition TextLength_addToPosition :: "TextLength \<Rightarrow> IPosition \<Rightarrow> IPosition" where
  "TextLength_addToPosition a position =
     (if lineCount a = 0 then Position_new (lineNumber position) (column position + columnCount a)
      else Position_new (lineNumber position + lineCount a) (columnCount a + 1))"

definition TextLength_addToRange :: "TextLength \<Rightarrow> IRange \<Rightarrow> IRange" where
  "TextLength_addToRange a rg =
     Range_fromPositions (TextLength_addToPosition a (Range_getStartPosition rg)) (TextLength_addToPosition a (Range_getEndPosition rg))"

section \<open>Lengths add up\<close>

lemma length_sel [simp]: "lineCount (TextLength_new l c) = l" "columnCount (TextLength_new l c) = c"
  by (simp_all add: TextLength_new_def)

lemma length_collapse [simp]: "TextLength_new (lineCount a) (columnCount a) = a"
  by (simp add: TextLength_new_def)

lemma length_eq_iff: "a = b \<longleftrightarrow> lineCount a = lineCount b \<and> columnCount a = columnCount b" for a b :: TextLength
  by auto

text \<open>The lengths of texts are not negative.\<close>

definition length_wf :: "TextLength \<Rightarrow> bool" where
  "length_wf a \<longleftrightarrow> 0 \<le> lineCount a \<and> 0 \<le> columnCount a"

lemma length_wf_simps [simp]:
  "length_wf TextLength_zero" "length_wf a \<Longrightarrow> length_wf b \<Longrightarrow> length_wf (TextLength_add a b)"
  by (auto simp: length_wf_def TextLength_zero_def TextLength_add_def)

lemma add_zero [simp]: "TextLength_add a TextLength_zero = a" "TextLength_add TextLength_zero a = a"
  by (simp_all add: TextLength_add_def TextLength_zero_def length_eq_iff)

lemma add_assoc:
  assumes "length_wf b" and "length_wf c"
  shows "TextLength_add (TextLength_add a b) c = TextLength_add a (TextLength_add b c)"
  using assms by (auto simp: TextLength_add_def length_wf_def length_eq_iff)

lemma addToPosition_zero [simp]: "TextLength_addToPosition TextLength_zero p = p"
  by (simp add: TextLength_addToPosition_def TextLength_zero_def IPosition_eq_iff)

lemma addToPosition_add:
  assumes "length_wf a" and "length_wf b"
  shows "TextLength_addToPosition (TextLength_add a b) p = TextLength_addToPosition b (TextLength_addToPosition a p)"
  using assms by (auto simp: TextLength_addToPosition_def TextLength_add_def length_wf_def IPosition_eq_iff)

lemma addToPosition_between [simp]: "TextLength_addToPosition (TextLength_betweenPositions p q) p = q"
  by (auto simp: TextLength_addToPosition_def TextLength_betweenPositions_def IPosition_eq_iff)

lemma between_addToPosition:
  "length_wf a \<Longrightarrow> TextLength_betweenPositions p (TextLength_addToPosition a p) = a"
  by (auto simp: TextLength_addToPosition_def TextLength_betweenPositions_def length_wf_def length_eq_iff)

lemma addToPosition_le: "length_wf a \<Longrightarrow> p \<le> TextLength_addToPosition a p"
  by (auto simp: TextLength_addToPosition_def length_wf_def IPosition_le_iff)

lemma addToPosition_less: "length_wf a \<Longrightarrow> a \<noteq> TextLength_zero \<Longrightarrow> p < TextLength_addToPosition a p"
  by (auto simp: TextLength_addToPosition_def length_wf_def IPosition_less_iff TextLength_zero_def length_eq_iff)

lemma between_wf: "p \<le> q \<Longrightarrow> 1 \<le> column q \<Longrightarrow> length_wf (TextLength_betweenPositions p q)"
  by (auto simp: TextLength_betweenPositions_def length_wf_def IPosition_le_iff)

lemma lengthDiff_add:
  assumes "length_wf a" and "length_wf d"
  shows "TextLength_lengthDiffNonNegative a (TextLength_add a d) = d"
  using assms
  by (auto simp: TextLength_lengthDiffNonNegative_def TextLength_add_def TextLength_isLessThan_def length_wf_def
      TextLength_zero_def length_eq_iff)

lemma sum_append:
  assumes "\<And>f. length_wf (len f)"
  shows "TextLength_sum (xs @ ys) len = TextLength_add (TextLength_sum xs len) (TextLength_sum ys len)"
proof -
  have wf: "length_wf (TextLength_sum zs len)" for zs
    using assms by (induction zs rule: rev_induct) (simp_all add: TextLength_sum_def)
  show ?thesis
  proof (induction ys rule: rev_induct)
    case (snoc y ys)
    have last: "TextLength_sum (zs @ [y]) len = TextLength_add (TextLength_sum zs len) (len y)" for zs
      by (simp add: TextLength_sum_def)
    show ?case using snoc wf assms by (simp add: last add_assoc flip: append_assoc)
  qed (simp add: TextLength_sum_def)
qed

section \<open>The length of a text\<close>

text \<open>The length that counts code units: what the positions of the editor count.\<close>

definition unit_length :: "text16 \<Rightarrow> TextLength" where
  "unit_length t = ofText_loop (List.map (\<lambda>c. [c]) t) 0 0"

lemma ofText_loop_append: "ofText_loop (xs @ ys) l c =
    ofText_loop ys (lineCount (ofText_loop xs l c)) (columnCount (ofText_loop xs l c))"
  by (induction xs arbitrary: l c) auto

lemma ofText_loop_wf: "0 \<le> l \<Longrightarrow> 0 \<le> c \<Longrightarrow> length_wf (ofText_loop xs l c)"
  by (induction xs arbitrary: l c) (simp_all add: length_wf_def)

lemma ofText_loop_shift:
  "0 \<le> l \<Longrightarrow> 0 \<le> c \<Longrightarrow> ofText_loop xs l c = TextLength_add (TextLength_new l c) (ofText_loop xs 0 0)"
proof (induction xs arbitrary: l c)
  case Nil
  then show ?case by (simp add: TextLength_add_def)
next
  case (Cons x xs)
  have step: "ofText_loop xs (lineCount (TextLength_add (TextLength_new l c) u)) (columnCount (TextLength_add (TextLength_new l c) u)) =
      TextLength_add (TextLength_new l c) (ofText_loop xs (lineCount u) (columnCount u))" if u: "length_wf u" for u
  proof -
    let ?v = "TextLength_add (TextLength_new l c) u"
    have "length_wf ?v" using u Cons.prems by (intro length_wf_simps) (simp_all add: length_wf_def)
    then have "ofText_loop xs (lineCount ?v) (columnCount ?v) = TextLength_add ?v (ofText_loop xs 0 0)"
      using Cons.IH [of "lineCount ?v" "columnCount ?v"] unfolding length_wf_def length_collapse by blast
    also have "\<dots> = TextLength_add (TextLength_new l c) (TextLength_add u (ofText_loop xs 0 0))"
      by (rule add_assoc [OF u ofText_loop_wf]) simp_all
    also have "TextLength_add u (ofText_loop xs 0 0) = ofText_loop xs (lineCount u) (columnCount u)"
      using Cons.IH [of "lineCount u" "columnCount u"] u unfolding length_wf_def length_collapse by simp
    finally show ?thesis .
  qed
  show ?case
    using step [of "TextLength_new 1 0"] step [of "TextLength_new 0 1"] by (simp add: TextLength_add_def length_wf_def)
qed

lemma ofText_loop_add: "ofText_loop (xs @ ys) 0 0 = TextLength_add (ofText_loop xs 0 0) (ofText_loop ys 0 0)"
proof -
  define u where "u = ofText_loop xs 0 0"
  have "length_wf u" unfolding u_def by (rule ofText_loop_wf) simp_all
  then show ?thesis
    unfolding ofText_loop_append [of xs ys] u_def [symmetric]
    using ofText_loop_shift [of "lineCount u" "columnCount u" ys] by (simp add: length_wf_def)
qed

lemma unit_length_simps [simp]:
  "unit_length [] = TextLength_zero" "unit_length (s @ t) = TextLength_add (unit_length s) (unit_length t)"
  "length_wf (unit_length t)"
  using ofText_loop_wf [of 0 0 "List.map (\<lambda>c. [c]) t"]
  by (simp_all add: unit_length_def TextLength_zero_def ofText_loop_add)

lemma unit_length_single: "unit_length [c] = (if c = 10 then TextLength_new 1 0 else TextLength_new 0 1)"
  by (simp add: unit_length_def)

lemma unit_length_Cons: "unit_length (c # t) = TextLength_add (unit_length [c]) (unit_length t)"
  using unit_length_simps(2) [of "[c]" t] by simp

lemma unit_length_zero [simp]: "unit_length t = TextLength_zero \<longleftrightarrow> t = []"
proof (cases t)
  case (Cons c cs)
  have "length_wf (unit_length cs)" by simp
  then show ?thesis using Cons
    by (auto simp: unit_length_Cons [of c cs] unit_length_single TextLength_add_def TextLength_zero_def length_wf_def length_eq_iff)
qed simp

text \<open>\<open>ofText\<close> counts the same on texts without surrogate pairs.\<close>

fun no_pairs :: "text16 \<Rightarrow> bool" where
  "no_pairs (c # d # cs) \<longleftrightarrow> \<not> (0xD800 \<le> c \<and> c \<le> 0xDBFF \<and> 0xDC00 \<le> d \<and> d \<le> 0xDFFF) \<and> no_pairs (d # cs)"
| "no_pairs _ \<longleftrightarrow> True"

lemma code_points_units: "no_pairs t \<Longrightarrow> js_code_points t = List.map (\<lambda>c. [c]) t"
  by (induction t rule: js_code_points.induct) auto

lemma ofText_units: "no_pairs t \<Longrightarrow> TextLength_ofText t = unit_length t"
  by (simp add: TextLength_ofText_def unit_length_def code_points_units)

lemma ofText_wf [simp]: "length_wf (TextLength_ofText t)"
  using ofText_loop_wf [of 0 0] by (simp add: TextLength_ofText_def)

lemma code_points_append:
  assumes "s = [] \<or> t = [] \<or> \<not> (0xD800 \<le> last s \<and> last s \<le> 0xDBFF \<and> 0xDC00 \<le> hd t \<and> hd t \<le> 0xDFFF)"
  shows "js_code_points (s @ t) = js_code_points s @ js_code_points t"
  using assms
proof (induction s rule: js_code_points.induct)
  case (2 c)
  then show ?case by (cases t) auto
next
  case (3 c d cs)
  show ?case
  proof (cases "0xD800 \<le> c \<and> c \<le> 0xDBFF \<and> 0xDC00 \<le> d \<and> d \<le> 0xDFFF")
    case True
    show ?thesis
    proof (cases "cs = []")
      case Nil: True
      then show ?thesis using True by simp
    next
      case False
      then show ?thesis using 3 True by simp
    qed
  next
    case False
    then show ?thesis using 3 by auto
  qed
qed simp

lemma ofText_append:
  assumes "s = [] \<or> t = [] \<or> \<not> (0xD800 \<le> last s \<and> last s \<le> 0xDBFF \<and> 0xDC00 \<le> hd t \<and> hd t \<le> 0xDFFF)"
  shows "TextLength_ofText (s @ t) = TextLength_add (TextLength_ofText s) (TextLength_ofText t)"
  unfolding TextLength_ofText_def code_points_append [OF assms] ofText_loop_add ..

end
