(* ===== verification/Text_Positions.thy ===== *)
theory Text_Positions
  imports Text_Lengths
begin

text \<open>
  \<open>src/vs/editor/common/core/text/positionToOffsetImpl.ts\<close> and \<open>abstractText.ts\<close>: the offsets of a text and
  its positions.  The transformer computes the tables of line starts and line ends on first use and keeps them;
  its text is read-only, so the tables are functions of the text here.  The abstract class \<open>AbstractText\<close> is
  the record of its two abstract members, \<open>StringText\<close> and \<open>ArrayText\<close> supply such records, and the locale
  \<open>abstract_text\<close> is what their clients rely on.
\<close>

section \<open>The transformer\<close>

text \<open>\<open>_computeLineOffsets\<close>.\<close>

function lineOffsets_loop :: "text16 \<Rightarrow> nat \<Rightarrow> int list \<Rightarrow> int list \<Rightarrow> int list \<times> int list" where
  "lineOffsets_loop t i starts ends =
     (if i < length t then
        (if t ! i = 10 then
           lineOffsets_loop t (i + 1) (starts @ [int i + 1])
             (ends @ [if i > 0 \<and> t ! (i - 1) = 13 then int i - 1 else int i])
         else lineOffsets_loop t (i + 1) starts ends)
      else (starts, ends @ [int (length t)]))"
  by pat_completeness auto
termination by (relation "measure (\<lambda>(t, i, starts, ends). length t - i)") auto

declare lineOffsets_loop.simps [simp del]

definition Transformer_computeLineOffsets :: "text16 \<Rightarrow> int list \<times> int list" where
  "Transformer_computeLineOffsets t = lineOffsets_loop t 0 [0] []"

definition Transformer_lineStartOffsetByLineIdx :: "text16 \<Rightarrow> int list" where
  "Transformer_lineStartOffsetByLineIdx t = fst (Transformer_computeLineOffsets t)"

definition Transformer_lineEndOffsetByLineIdx :: "text16 \<Rightarrow> int list" where
  "Transformer_lineEndOffsetByLineIdx t = snd (Transformer_computeLineOffsets t)"

definition Transformer_textLength :: "text16 \<Rightarrow> TextLength" where
  "Transformer_textLength t =
     (let starts = Transformer_lineStartOffsetByLineIdx t; lineIdx = length starts - 1
      in TextLength_new (int lineIdx) (int (length t) - starts ! lineIdx))"

text \<open>\<open>undefined\<close>, for a line that does not exist, is None; arithmetic on it is \<open>NaN\<close>.\<close>

definition Transformer_getLineLength :: "text16 \<Rightarrow> int \<Rightarrow> int option" where
  "Transformer_getLineLength t line =
     (case (js_at (Transformer_lineEndOffsetByLineIdx t) (line - 1), js_at (Transformer_lineStartOffsetByLineIdx t) (line - 1)) of
        (Some e, Some s) \<Rightarrow> Some (e - s)
      | _ \<Rightarrow> None)"

text \<open>The lines asked for here exist, so the arithmetic is on numbers.\<close>

definition Transformer_validatePosition :: "text16 \<Rightarrow> IPosition \<Rightarrow> IPosition" where
  "Transformer_validatePosition t position =
     (if lineNumber position < 1 then Position_new 1 1
      else
        let count = lineCount (Transformer_textLength t) + 1
        in if lineNumber position > count
           then Position_new count (the (Transformer_getLineLength t count) + 1)
           else if column position < 1 then Position_new (lineNumber position) 1
           else
             let lineLength = the (Transformer_getLineLength t (lineNumber position))
             in if column position - 1 > lineLength then Position_new (lineNumber position) (lineLength + 1)
                else position)"

definition Transformer_getOffset :: "text16 \<Rightarrow> IPosition \<Rightarrow> int" where
  "Transformer_getOffset t position =
     (let valPos = Transformer_validatePosition t position
      in the (js_at (Transformer_lineStartOffsetByLineIdx t) (lineNumber valPos - 1)) + column valPos - 1)"

definition Transformer_getOffsetRange :: "text16 \<Rightarrow> IRange \<Rightarrow> OffsetRange result" where
  "Transformer_getOffsetRange t rg =
     OffsetRange_new (Transformer_getOffset t (Range_getStartPosition rg)) (Transformer_getOffset t (Range_getEndPosition rg))"

text \<open>None: the column is \<open>NaN\<close>, which only a negative offset gives.\<close>

definition Transformer_getPosition :: "text16 \<Rightarrow> int \<Rightarrow> IPosition option" where
  "Transformer_getPosition t offset =
     (let starts = Transformer_lineStartOffsetByLineIdx t;
          idx = findLastIdxMonotonous starts (on_item (\<lambda>i. i \<le> offset)) 0 (int (length starts))
      in map_option (\<lambda>s. Position_new (idx + 1) (offset - s + 1)) (js_at starts idx))"

definition Transformer_getRange :: "text16 \<Rightarrow> OffsetRange \<Rightarrow> IRange option" where
  "Transformer_getRange t rg =
     (case (Transformer_getPosition t (start rg), Transformer_getPosition t (endExclusive rg)) of
        (Some p, Some q) \<Rightarrow> Some (Range_fromPositions p q)
      | _ \<Rightarrow> None)"

definition Transformer_getTextLength :: "text16 \<Rightarrow> OffsetRange \<Rightarrow> TextLength option" where
  "Transformer_getTextLength t rg = map_option TextLength_ofRange (Transformer_getRange t rg)"

section \<open>The tables\<close>

definition newlines :: "text16 \<Rightarrow> nat list" where
  "newlines t = filter (\<lambda>i. t ! i = 10) [0..<length t]"

definition line_end :: "text16 \<Rightarrow> nat \<Rightarrow> int" where
  "line_end t i = (if i > 0 \<and> t ! (i - 1) = 13 then int i - 1 else int i)"

lemma lineOffsets_loop_eq:
  "lineOffsets_loop t i starts ends =
     (let ns = filter (\<lambda>i. t ! i = 10) [i..<length t]
      in (starts @ List.map (\<lambda>i. int i + 1) ns, ends @ List.map (line_end t) ns @ [int (length t)]))"
proof (induction t i starts ends rule: lineOffsets_loop.induct)
  case (1 t i starts ends)
  show ?case
  proof (cases "i < length t")
    case True
    then have "[i..<length t] = i # [i + 1..<length t]" by (simp add: upt_conv_Cons)
    then show ?thesis using 1 True lineOffsets_loop.simps [of t i starts ends] by (simp add: Let_def line_end_def)
  qed (simp add: lineOffsets_loop.simps [of t i starts ends])
qed

lemma starts_eq: "Transformer_lineStartOffsetByLineIdx t = 0 # List.map (\<lambda>i. int i + 1) (newlines t)"
  by (simp add: Transformer_lineStartOffsetByLineIdx_def Transformer_computeLineOffsets_def lineOffsets_loop_eq
      newlines_def Let_def)

lemma ends_eq: "Transformer_lineEndOffsetByLineIdx t = List.map (line_end t) (newlines t) @ [int (length t)]"
  by (simp add: Transformer_lineEndOffsetByLineIdx_def Transformer_computeLineOffsets_def lineOffsets_loop_eq
      newlines_def Let_def)

lemma newlines_append: "newlines (s @ t) = newlines s @ List.map (\<lambda>i. i + length s) (newlines t)"
proof -
  have "[0..<length (s @ t)] = [0..<length s] @ List.map (\<lambda>i. i + length s) [0..<length t]"
    using upt_add_eq_append [of 0 "length s" "length t"] by (simp add: map_add_upt add.commute)
  moreover have "filter (\<lambda>i. (s @ t) ! i = 10) [0..<length s] = newlines s"
    unfolding newlines_def by (rule filter_cong) (auto simp: nth_append)
  moreover have "filter (\<lambda>i. (s @ t) ! i = 10) (List.map (\<lambda>i. i + length s) [0..<length t]) =
      List.map (\<lambda>i. i + length s) (newlines t)"
    by (simp add: newlines_def filter_map comp_def nth_append)
  ultimately show ?thesis by (simp add: newlines_def [of "s @ t"])
qed

lemma newlines_single: "newlines [c] = (if c = 10 then [0] else [])"
  by (simp add: newlines_def)

lemma newlines_bound: "i \<in> set (newlines t) \<Longrightarrow> i < length t \<and> t ! i = 10"
  by (simp add: newlines_def)

lemma sorted_newlines: "sorted_wrt (<) (newlines t)"
  by (simp add: newlines_def sorted_wrt_filter)

text \<open>The table of line starts and the length of the text.\<close>

lemma starts_length: "int (length (newlines t)) = lineCount (unit_length t) \<and>
    last (0 # List.map (\<lambda>i. int i + 1) (newlines t)) = int (length t) - columnCount (unit_length t)"
proof (induction t rule: rev_induct)
  case (snoc c t)
  then show ?case
    by (auto simp: newlines_append newlines_single unit_length_single TextLength_add_def)
qed (simp add: newlines_def TextLength_zero_def)

lemma textLength_eq: "Transformer_textLength t = unit_length t"
  using starts_length [of t]
  by (simp add: Transformer_textLength_def starts_eq Let_def length_eq_iff last_conv_nth del: last.simps)


section \<open>The position of an offset\<close>

definition position_at :: "text16 \<Rightarrow> nat \<Rightarrow> IPosition" where
  "position_at t k = TextLength_addToPosition (unit_length (take k t)) (Position_new 1 1)"

lemma position_at_0 [simp]: "position_at t 0 = Position_new 1 1"
  by (simp add: position_at_def)

lemma unit_length_take: "k \<le> l \<Longrightarrow> unit_length (take l t) = TextLength_add (unit_length (take k t)) (unit_length (take (l - k) (drop k t)))"
  using unit_length_simps(2) [of "take k t" "take (l - k) (drop k t)"] by (simp flip: take_add)

lemma position_at_add:
  "k \<le> l \<Longrightarrow> position_at t l = TextLength_addToPosition (unit_length (take (l - k) (drop k t))) (position_at t k)"
  by (simp add: position_at_def unit_length_take [of k l] addToPosition_add)

lemma position_at_less: "k < l \<Longrightarrow> l \<le> length t \<Longrightarrow> position_at t k < position_at t l"
  by (simp add: position_at_add [of k l] addToPosition_less)

lemma position_at_less_iff [simp]:
  assumes "k \<le> length t" and "l \<le> length t"
  shows "position_at t k < position_at t l \<longleftrightarrow> k < l" and "position_at t k \<le> position_at t l \<longleftrightarrow> k \<le> l"
    and "position_at t k = position_at t l \<longleftrightarrow> k = l"
  using position_at_less [of k l t] position_at_less [of l k t] assms by (cases k l rule: linorder_cases; auto)+

lemma position_at_column: "1 \<le> column (position_at t k)" "1 \<le> lineNumber (position_at t k)"
  using unit_length_simps(3) [of "take k t"]
  by (auto simp: position_at_def TextLength_addToPosition_def length_wf_def)

lemma between_positions:
  "k \<le> l \<Longrightarrow> TextLength_betweenPositions (position_at t k) (position_at t l) = unit_length (take (l - k) (drop k t))"
  by (simp add: position_at_add [of k l] between_addToPosition)

text \<open>The line starts up to an offset are those of the text before it.\<close>

lemma line_count_at: "lineNumber (position_at t k) = int (length (newlines (take k t))) + 1"
  and column_at: "column (position_at t k) = int (min k (length t)) - last (0 # List.map (\<lambda>i. int i + 1) (newlines (take k t))) + 1"
  using starts_length [of "take k t"] by (auto simp: position_at_def TextLength_addToPosition_def min_def)

lemma starts_split:
  "k \<le> length t \<Longrightarrow> \<exists>zs. Transformer_lineStartOffsetByLineIdx t =
     Transformer_lineStartOffsetByLineIdx (take k t) @ zs \<and> (\<forall>z \<in> set zs. int k < z)"
  using newlines_append [of "take k t" "drop k t"]
  by (intro exI [of _ "List.map (\<lambda>i. int (i + k) + 1) (newlines (drop k t))"]) (simp add: starts_eq comp_def)

lemma starts_le: "s \<in> set (Transformer_lineStartOffsetByLineIdx t) \<Longrightarrow> 0 \<le> s \<and> s \<le> int (length t)"
  using newlines_bound by (fastforce simp: starts_eq)

lemma starts_at:
  assumes "k \<le> length t"
  shows "length (newlines (take k t)) < length (Transformer_lineStartOffsetByLineIdx t)"
    and "Transformer_lineStartOffsetByLineIdx t ! length (newlines (take k t)) = last (Transformer_lineStartOffsetByLineIdx (take k t))"
    and "i < length (Transformer_lineStartOffsetByLineIdx t) \<Longrightarrow>
      Transformer_lineStartOffsetByLineIdx t ! i \<le> int k \<longleftrightarrow> i \<le> length (newlines (take k t))"
proof -
  let ?n = "length (newlines (take k t))" and ?xs = "Transformer_lineStartOffsetByLineIdx (take k t)"
  obtain zs where zs: "Transformer_lineStartOffsetByLineIdx t = ?xs @ zs" "\<forall>z \<in> set zs. int k < z"
    using starts_split [OF assms] by blast
  have len: "length ?xs = Suc ?n" by (simp add: starts_eq)
  show "?n < length (Transformer_lineStartOffsetByLineIdx t)" using len zs(1) by simp
  have "last ?xs = ?xs ! ?n" using len by (subst last_conv_nth) auto
  then show "Transformer_lineStartOffsetByLineIdx t ! ?n = last ?xs" using zs(1) len by (simp add: nth_append)
  show "Transformer_lineStartOffsetByLineIdx t ! i \<le> int k \<longleftrightarrow> i \<le> ?n" if i: "i < length (Transformer_lineStartOffsetByLineIdx t)"
  proof (cases "i \<le> ?n")
    case True
    then have "?xs ! i \<in> set ?xs" using len by simp
    from starts_le [OF this] show ?thesis using True zs(1) len assms by (simp add: nth_append)
  next
    case False
    then have "zs ! (i - Suc ?n) \<in> set zs" using i zs(1) len by simp
    then show ?thesis using False zs len i by (fastforce simp: nth_append)
  qed
qed

lemma getPosition_at:
  assumes "k \<le> length t" shows "Transformer_getPosition t (int k) = Some (position_at t k)"
proof -
  let ?xs = "Transformer_lineStartOffsetByLineIdx t" and ?n = "length (newlines (take k t))"
  define idx where "idx = findLastIdxMonotonous ?xs (on_item (\<lambda>i. i \<le> int k)) 0 (int (length ?xs))"
  have le: "on_item (\<lambda>i. i \<le> int k) (Some (?xs ! i)) \<longleftrightarrow> i \<le> ?n" if "i < length ?xs" for i
    using starts_at(3) [OF assms that] by simp
  have mono: "monotonous_on ?xs (\<lambda>x. \<not> on_item (\<lambda>i. i \<le> int k) x) 0 (int (length ?xs))"
    unfolding monotonous_on_def using le by (auto simp: js_at_def)
  have idx: "- 1 \<le> idx" "idx < int (length ?xs)" "\<And>m. m < length ?xs \<Longrightarrow> m \<le> ?n \<longleftrightarrow> int m \<le> idx"
    using findLast_whole [OF mono] le by (simp_all add: idx_def)
  have "int ?n \<le> idx" using idx(3) [OF starts_at(1) [OF assms]] by simp
  moreover have "\<not> int ?n < idx"
  proof
    assume "int ?n < idx"
    then have "nat idx \<le> ?n" using idx(2) idx(3) [of "nat idx"] by simp
    with \<open>int ?n < idx\<close> show False by simp
  qed
  ultimately have idx_eq: "idx = int ?n" by simp
  have "js_at ?xs idx = Some (last (Transformer_lineStartOffsetByLineIdx (take k t)))"
    using starts_at(1,2) [OF assms] by (simp add: idx_eq)
  then show ?thesis
    unfolding Transformer_getPosition_def Let_def idx_def [symmetric]
    using line_count_at [of t k] column_at [of t k] assms by (simp add: idx_eq starts_eq IPosition_eq_iff del: last.simps)
qed


section \<open>Offsets of positions\<close>

text \<open>Offsets that are not inside a line break \<open>\r\n\<close>.\<close>

definition breakable :: "text16 \<Rightarrow> nat \<Rightarrow> bool" where
  "breakable t k \<longleftrightarrow> k \<le> length t \<and> \<not> (0 < k \<and> k < length t \<and> t ! (k - 1) = 13 \<and> t ! k = 10)"

text \<open>Line \<open>n\<close>, counted from 0, lies between an entry of each table.\<close>

abbreviation line_from :: "text16 \<Rightarrow> nat \<Rightarrow> int" where
  "line_from t n \<equiv> Transformer_lineStartOffsetByLineIdx t ! n"

abbreviation line_to :: "text16 \<Rightarrow> nat \<Rightarrow> int" where
  "line_to t n \<equiv> Transformer_lineEndOffsetByLineIdx t ! n"

lemma line_from_Suc: "n < length (newlines t) \<Longrightarrow> line_from t (Suc n) = int (newlines t ! n) + 1"
  and line_from_0: "line_from t 0 = 0"
  by (simp_all add: starts_eq)

lemma line_to_break: "n < length (newlines t) \<Longrightarrow> line_to t n = line_end t (newlines t ! n)"
  and line_to_last: "line_to t (length (newlines t)) = int (length t)"
  by (simp_all add: ends_eq nth_append)

lemma tables_length [simp]:
  "length (Transformer_lineStartOffsetByLineIdx t) = Suc (length (newlines t))"
  "length (Transformer_lineEndOffsetByLineIdx t) = Suc (length (newlines t))"
  by (simp_all add: starts_eq ends_eq)

lemma newline_at: "n < length (newlines t) \<Longrightarrow> newlines t ! n < length t \<and> t ! (newlines t ! n) = 10"
  using newlines_bound by simp

lemma newlines_less_iff: "i < length (newlines t) \<Longrightarrow> j < length (newlines t) \<Longrightarrow> newlines t ! i < newlines t ! j \<longleftrightarrow> i < j"
  using sorted_newlines [of t] by (metis linorder_neq_iff order_less_asym sorted_wrt_nth_less)

lemma line_end_le: "line_end t i \<le> int i" "int i - 1 \<le> line_end t i"
  by (auto simp: line_end_def)

lemma line_bounds:
  assumes "n \<le> length (newlines t)"
  shows "0 \<le> line_from t n \<and> line_from t n \<le> line_to t n \<and> line_to t n \<le> int (length t)"
proof -
  have to: "line_to t n \<le> int (length t)"
    using assms line_end_le(1) [of t "newlines t ! n"] newline_at [of n t]
    by (cases "n = length (newlines t)") (auto simp: line_to_break line_to_last)
  have "line_from t n \<le> line_to t n"
  proof (cases "n = length (newlines t)")
    case True
    show ?thesis
    proof (cases n)
      case 0
      then show ?thesis using True line_to_last [of t] by (simp add: line_from_0)
    next
      case (Suc m)
      then show ?thesis using True line_to_last [of t] line_from_Suc [of m t] newline_at [of m t] by simp
    qed
  next
    case False
    then have n: "n < length (newlines t)" using assms by simp
    show ?thesis
    proof (cases n)
      case 0
      then show ?thesis using n by (auto simp: line_from_0 line_to_break line_end_def)
    next
      case (Suc m)
      then have "newlines t ! m < newlines t ! n" using newlines_less_iff [of m t n] n by simp
      moreover have "t ! (newlines t ! m) = 10" using newline_at [of m t] n Suc by simp
      then have "t ! (newlines t ! n - 1) = 13 \<Longrightarrow> newlines t ! m \<noteq> newlines t ! n - 1" by auto
      ultimately show ?thesis using n Suc line_from_Suc [of m t] by (auto simp: line_to_break line_end_def)
    qed
  qed
  moreover have "0 \<le> line_from t n" by (cases n) (use assms in \<open>auto simp: line_from_0 line_from_Suc\<close>)
  ultimately show ?thesis using to by simp
qed

lemma line_of_offset:
  assumes "n \<le> length (newlines t)" and "line_from t n \<le> int k" and "int k \<le> line_to t n"
  shows "length (newlines (take k t)) = n" and "k \<le> length t"
proof -
  show k: "k \<le> length t" using line_bounds [OF assms(1)] assms(3) by simp
  let ?m = "length (newlines (take k t))"
  have le: "i \<le> length (newlines t) \<Longrightarrow> line_from t i \<le> int k \<longleftrightarrow> i \<le> ?m" for i
    using starts_at(3) [OF k, of i] by simp
  have "n \<le> ?m" using le assms by simp
  moreover have "\<not> n < ?m"
  proof
    assume m: "n < ?m"
    have mt: "?m \<le> length (newlines t)" using starts_at(1) [OF k] by simp
    with m have "line_from t (Suc n) \<le> int k" using le [of "Suc n"] by simp
    then show False using m mt assms(3) line_end_le(1) [of t "newlines t ! n"] by (simp add: line_from_Suc line_to_break)
  qed
  ultimately show "?m = n" by simp
qed

lemma position_at_line:
  assumes "n \<le> length (newlines t)" and "line_from t n \<le> int k" and "int k \<le> line_to t n"
  shows "position_at t k = Position_new (int n + 1) (int k - line_from t n + 1)"
  using line_of_offset [OF assms] starts_at(2) [of k t] line_count_at [of t k] column_at [of t k]
  by (simp add: IPosition_eq_iff starts_eq del: last.simps)

lemma line_breakable:
  assumes "n \<le> length (newlines t)" and "line_from t n \<le> int k" and "int k \<le> line_to t n"
  shows "breakable t k"
  unfolding breakable_def
proof (intro conjI notI)
  show "k \<le> length t" by (rule line_of_offset [OF assms])
  assume k: "0 < k \<and> k < length t \<and> t ! (k - 1) = 13 \<and> t ! k = 10"
  then have "k \<in> set (newlines t)" by (simp add: newlines_def)
  then obtain j where j: "j < length (newlines t)" "newlines t ! j = k" by (auto simp: in_set_conv_nth)
  have "line_end t k = int k - 1" using k by (simp add: line_end_def)
  then have "j \<noteq> n" using j assms(3) by (auto simp: line_to_break)
  then consider "j < n" | "n < j" by linarith
  then show False
  proof cases
    case 1
    then obtain m where n: "n = Suc m" "j \<le> m" by (cases n) auto
    then have "newlines t ! j \<le> newlines t ! m" using newlines_less_iff [of m t j] j assms(1) by (simp add: not_less [symmetric])
    then show False using assms(1,2) j n by (simp add: line_from_Suc)
  next
    case 2
    then have "newlines t ! n < k" using newlines_less_iff [of n t j] j by simp
    then show False using assms(3) 2 j line_end_le(1) [of t "newlines t ! n"] by (simp add: line_to_break)
  qed
qed

lemma breakable_line:
  assumes "breakable t k"
  defines "n \<equiv> length (newlines (take k t))"
  shows "n \<le> length (newlines t)" and "line_from t n \<le> int k" and "int k \<le> line_to t n"
proof -
  have k: "k \<le> length t" using assms(1) by (simp add: breakable_def)
  show n: "n \<le> length (newlines t)" using starts_at(1) [OF k] by (simp add: n_def)
  show "line_from t n \<le> int k" using starts_at(3) [OF k, of n] n by (simp add: n_def)
  show "int k \<le> line_to t n"
  proof (cases "n = length (newlines t)")
    case False
    then have less: "n < length (newlines t)" using n by simp
    then have "\<not> line_from t (Suc n) \<le> int k" using starts_at(3) [OF k, of "Suc n"] by (simp add: n_def)
    then have le: "k \<le> newlines t ! n" using less by (simp add: line_from_Suc)
    have "\<not> (0 < k \<and> t ! (k - 1) = 13 \<and> k = newlines t ! n)"
      using assms(1) newline_at [OF less] by (auto simp: breakable_def)
    then show ?thesis using le less by (cases "k = newlines t ! n") (auto simp: line_to_break line_end_def)
  qed (use k line_to_last in simp)
qed


lemma getLineLength_eq:
  "n \<le> length (newlines t) \<Longrightarrow> Transformer_getLineLength t (int n + 1) = Some (line_to t n - line_from t n)"
  by (simp add: Transformer_getLineLength_def)

lemma validatePosition_cases:
  "lineNumber p < 1 \<Longrightarrow> Transformer_validatePosition t p = Position_new 1 1"
  "lineNumber p > int (length (newlines t)) + 1 \<Longrightarrow> Transformer_validatePosition t p =
     Position_new (int (length (newlines t)) + 1) (line_to t (length (newlines t)) - line_from t (length (newlines t)) + 1)"
  "lineNumber p = int n + 1 \<Longrightarrow> n \<le> length (newlines t) \<Longrightarrow> Transformer_validatePosition t p =
     Position_new (int n + 1) (if column p < 1 then 1 else min (column p) (line_to t n - line_from t n + 1))"
  using starts_length [of t] getLineLength_eq [of n t] getLineLength_eq [of "length (newlines t)" t]
  unfolding Transformer_validatePosition_def Let_def textLength_eq by (simp_all add: IPosition_eq_iff)

lemma validatePosition_line:
  obtains n k where "n \<le> length (newlines t)" and "line_from t n \<le> int k" and "int k \<le> line_to t n"
    and "Transformer_validatePosition t p = Position_new (int n + 1) (int k - line_from t n + 1)"
proof -
  consider "lineNumber p < 1" | "lineNumber p > int (length (newlines t)) + 1"
    | n where "lineNumber p = int n + 1" "n \<le> length (newlines t)"
  proof (cases "1 \<le> lineNumber p \<and> lineNumber p \<le> int (length (newlines t)) + 1")
    case True
    then show thesis by (intro that(3) [of "nat (lineNumber p - 1)"]) (simp_all add: nat_le_iff)
  qed (use that(1,2) in linarith)
  then show thesis
  proof cases
    case 1
    then show thesis
      using that [of 0 0] validatePosition_cases(1) [of p t] line_bounds [of 0 t] by (simp add: line_from_0)
  next
    case 2
    then show thesis
      using that [of "length (newlines t)" "nat (line_to t (length (newlines t)))"] validatePosition_cases(2) [of t p]
        line_bounds [of "length (newlines t)" t] by simp
  next
    case (3 n)
    define k where "k = line_from t n + (if column p < 1 then 1 else min (column p) (line_to t n - line_from t n + 1)) - 1"
    have "line_from t n \<le> k" "k \<le> line_to t n" using line_bounds [OF 3(2)] by (auto simp: k_def)
    then show thesis
      using that [of n "nat k"] validatePosition_cases(3) [OF 3] line_bounds [OF 3(2)] 3(2) by (simp add: k_def)
  qed
qed

lemma validatePosition_id:
  assumes "n \<le> length (newlines t)" and "line_from t n \<le> int k" and "int k \<le> line_to t n"
  shows "Transformer_validatePosition t (Position_new (int n + 1) (int k - line_from t n + 1)) =
    Position_new (int n + 1) (int k - line_from t n + 1)"
  using assms getLineLength_eq [OF assms(1)] starts_length [of t]
  unfolding Transformer_validatePosition_def Let_def textLength_eq by simp

lemma getOffset_line:
  assumes "n \<le> length (newlines t)" and "Transformer_validatePosition t p = Position_new (int n + 1) (k - line_from t n + 1)"
  shows "Transformer_getOffset t p = k"
  using assms by (simp add: Transformer_getOffset_def)

lemma getOffset_at:
  assumes "breakable t k" shows "Transformer_getOffset t (position_at t k) = int k"
proof -
  note l = breakable_line [OF assms]
  show ?thesis
    by (rule getOffset_line [OF l(1)]) (simp only: position_at_line [OF l] validatePosition_id [OF l])
qed

lemma getOffset_valid:
  obtains k where "Transformer_getOffset t p = int k" and "breakable t k"
    and "Transformer_validatePosition t p = position_at t k"
proof -
  obtain n k where l: "n \<le> length (newlines t)" "line_from t n \<le> int k" "int k \<le> line_to t n"
    and v: "Transformer_validatePosition t p = Position_new (int n + 1) (int k - line_from t n + 1)"
    by (rule validatePosition_line)
  show thesis
    using that [of k] getOffset_line [OF l(1) v] line_breakable [OF l] position_at_line [OF l] v by simp
qed


text \<open>Offsets of ordered positions are ordered.\<close>

lemma validatePosition_mono:
  assumes "p \<le> q" shows "Transformer_validatePosition t p \<le> Transformer_validatePosition t q"
proof -
  have low: "Position_new 1 1 \<le> Transformer_validatePosition t r" for r
    using getOffset_valid [of t r] position_at_less_iff(2) [of 0 t] by (metis breakable_def le0 position_at_0)
  define top where "top = position_at t (length t)"
  have high: "Transformer_validatePosition t r \<le> top" for r
    using getOffset_valid [of t r] position_at_less_iff(2) [of _ t "length t"] unfolding top_def breakable_def by (metis le_refl)
  have last: "Transformer_validatePosition t r = top" if "lineNumber r > int (length (newlines t)) + 1" for r
    using validatePosition_cases(2) [OF that] position_at_line [of "length (newlines t)" t "length t"]
      line_bounds [of "length (newlines t)" t] line_to_last [of t] by (simp add: top_def)
  consider "lineNumber p < 1" | "lineNumber q > int (length (newlines t)) + 1"
    | "1 \<le> lineNumber p" "lineNumber p \<le> lineNumber q" "lineNumber q \<le> int (length (newlines t)) + 1"
    using assms unfolding IPosition_le_iff by linarith
  then show ?thesis
  proof cases
    case 3
    show ?thesis
    proof (cases "lineNumber p = lineNumber q")
      case True
      then show ?thesis
        using 3 assms validatePosition_cases(3) [of p "nat (lineNumber p - 1)" t] validatePosition_cases(3) [of q "nat (lineNumber q - 1)" t]
          line_bounds [of "nat (lineNumber p - 1)" t]
        by (auto simp: nat_le_iff IPosition_le_iff)
    next
      case False
      then show ?thesis
        using 3 validatePosition_cases(3) [of p "nat (lineNumber p - 1)" t] validatePosition_cases(3) [of q "nat (lineNumber q - 1)" t]
        by (simp add: nat_le_iff IPosition_le_iff)
    qed
  qed (use low high last validatePosition_cases(1) in auto)
qed

lemma getOffset_mono: "p \<le> q \<Longrightarrow> Transformer_getOffset t p \<le> Transformer_getOffset t q"
  using validatePosition_mono [of p q t] getOffset_valid [of t p] getOffset_valid [of t q]
  by (metis breakable_def of_nat_le_iff position_at_less_iff(2))


section \<open>Texts\<close>

text \<open>The abstract members of \<open>AbstractText\<close>.\<close>

record AbstractText =
  at_getValueOfRange :: "IRange \<Rightarrow> text16 result"
  at_length :: "TextLength result"

definition AbstractText_endPositionExclusive :: "AbstractText \<Rightarrow> IPosition result" where
  "AbstractText_endPositionExclusive A =
     rbind (at_length A) (\<lambda>n. Inr (TextLength_addToPosition n (Position_new 1 1)))"

definition AbstractText_lineRange :: "AbstractText \<Rightarrow> LineRange result" where
  "AbstractText_lineRange A = rbind (at_length A) TextLength_toLineRange"

definition AbstractText_getValue :: "AbstractText \<Rightarrow> text16 result" where
  "AbstractText_getValue A = rbind (at_length A) (\<lambda>n. at_getValueOfRange A (TextLength_toRange n))"

definition AbstractText_getLineLength :: "AbstractText \<Rightarrow> int \<Rightarrow> int result" where
  "AbstractText_getLineLength A line =
     rbind (at_getValueOfRange A (Range_new line 1 line max_safe_integer)) (\<lambda>v. Inr (int (length v)))"

definition AbstractText_getLineAt :: "AbstractText \<Rightarrow> int \<Rightarrow> text16 result" where
  "AbstractText_getLineAt A line = at_getValueOfRange A (Range_new line 1 line max_safe_integer)"

text \<open>\<open>splitLines\<close>: \<open>str.split(/\r\n|\r|\n/)\<close>.\<close>

fun splitLines :: "text16 \<Rightarrow> text16 list" where
  "splitLines [] = [[]]"
| "splitLines (c # cs) =
     (if c = 13 \<and> cs \<noteq> [] \<and> hd cs = 10 then [] # splitLines (tl cs)
      else if c = 13 \<or> c = 10 then [] # splitLines cs
      else (c # hd (splitLines cs)) # tl (splitLines cs))"

definition AbstractText_getLines :: "AbstractText \<Rightarrow> text16 list result" where
  "AbstractText_getLines A = rbind (AbstractText_getValue A) (\<lambda>v. Inr (splitLines v))"

definition AbstractText_getLinesOfRange :: "AbstractText \<Rightarrow> LineRange \<Rightarrow> text16 list result" where
  "AbstractText_getLinesOfRange A rg = rmap (AbstractText_getLineAt A) (LineRange_mapToLineArray rg (\<lambda>l. l))"

definition AbstractText_equals :: "AbstractText \<Rightarrow> AbstractText \<Rightarrow> bool result" where
  "AbstractText_equals A other =
     rbind (AbstractText_getValue A) (\<lambda>v. rbind (AbstractText_getValue other) (\<lambda>w. Inr (v = w)))"

definition StringText :: "text16 \<Rightarrow> AbstractText" where
  "StringText v = \<lparr>
     at_getValueOfRange = (\<lambda>rg. rbind (Transformer_getOffsetRange v rg) (\<lambda>o_rg. Inr (OffsetRange_substring o_rg v))),
     at_length = Inr (Transformer_textLength v)\<rparr>"

text \<open>
  \<open>LineBasedText\<close> over a function of the line number, which may throw; the loop from the second to the last
  but one line appends a line break and the line.
\<close>

definition LineBasedText_getValueOfRange :: "(int \<Rightarrow> text16 result) \<Rightarrow> IRange \<Rightarrow> text16 result" where
  "LineBasedText_getValueOfRange content rg =
     (if startLineNumber rg = endLineNumber rg then
        rbind (content (startLineNumber rg)) (\<lambda>l. Inr (js_substring l (startColumn rg - 1) (endColumn rg - 1)))
      else
        rbind (content (startLineNumber rg)) (\<lambda>first.
        rbind (rmap content [startLineNumber rg + 1..endLineNumber rg - 1]) (\<lambda>middle.
        rbind (content (endLineNumber rg)) (\<lambda>end.
        Inr (js_substring_from first (startColumn rg - 1) @ concat (List.map (\<lambda>l. 10 # l) middle) @
             10 # js_substring end 0 (endColumn rg - 1))))))"

definition LineBasedText_getLineLength :: "(int \<Rightarrow> text16 result) \<Rightarrow> int \<Rightarrow> int result" where
  "LineBasedText_getLineLength getLineContent lineNo = rbind (getLineContent lineNo) (\<lambda>l. Inr (int (length l)))"

definition LineBasedText_length :: "(int \<Rightarrow> text16 result) \<Rightarrow> int \<Rightarrow> TextLength result" where
  "LineBasedText_length content n =
     rbind (content n) (\<lambda>lastLine. Inr (TextLength_new (n - 1) (int (length lastLine))))"

definition LineBasedText :: "(int \<Rightarrow> text16 result) \<Rightarrow> int \<Rightarrow> AbstractText result" where
  "LineBasedText content n =
     (if n \<ge> 1
      then Inr \<lparr>at_getValueOfRange = LineBasedText_getValueOfRange content, at_length = LineBasedText_length content n\<rparr>
      else Inl BugIndicatingError)"

text \<open>\<open>lines[lineNumber - 1]\<close>; taking a substring of \<open>undefined\<close> is a type error.\<close>

definition array_line :: "text16 list \<Rightarrow> int \<Rightarrow> text16 result" where
  "array_line lines n = (case js_at lines (n - 1) of Some l \<Rightarrow> Inr l | None \<Rightarrow> Inl JsTypeError)"

definition ArrayText :: "text16 list \<Rightarrow> AbstractText result" where
  "ArrayText lines = LineBasedText (array_line lines) (int (length lines))"

section \<open>What clients of a text rely on\<close>

definition segment :: "text16 \<Rightarrow> nat \<Rightarrow> nat \<Rightarrow> text16" where
  "segment t k l = take (l - k) (drop k t)"

text \<open>A position of the text: one the transformer maps to an offset and back.\<close>

definition valid_position :: "text16 \<Rightarrow> IPosition \<Rightarrow> bool" where
  "valid_position t p \<longleftrightarrow> Transformer_getPosition t (Transformer_getOffset t p) = Some p"

lemma valid_position_iff: "valid_position t p \<longleftrightarrow> (\<exists>k. breakable t k \<and> p = position_at t k)"
proof
  obtain k where k: "Transformer_getOffset t p = int k" "breakable t k" by (rule getOffset_valid)
  moreover assume "valid_position t p"
  ultimately show "\<exists>k. breakable t k \<and> p = position_at t k"
    using getPosition_at [of k t] by (auto simp: valid_position_def breakable_def)
next
  assume "\<exists>k. breakable t k \<and> p = position_at t k"
  then obtain k where k: "breakable t k" "p = position_at t k" by blast
  show "valid_position t p"
    unfolding valid_position_def k(2) getOffset_at [OF k(1)] using k(1) by (intro getPosition_at) (simp add: breakable_def)
qed

locale abstract_text =
  fixes A :: AbstractText and content :: text16
  assumes value_law: "breakable content k \<Longrightarrow> breakable content l \<Longrightarrow> k \<le> l \<Longrightarrow>
      range_start rg = position_at content k \<Longrightarrow> range_end rg = position_at content l \<Longrightarrow>
      at_getValueOfRange A rg = Inr (segment content k l)"
    and length_law: "at_length A = Inr (unit_length content)"
begin

lemma endPosition: "AbstractText_endPositionExclusive A = Inr (position_at content (length content))"
  by (simp add: AbstractText_endPositionExclusive_def length_law position_at_def)

lemma getValue: "AbstractText_getValue A = Inr content"
proof -
  have "range_start (TextLength_toRange (unit_length content)) = position_at content 0"
    "range_end (TextLength_toRange (unit_length content)) = position_at content (length content)"
    using unit_length_simps(3) [of content]
    by (auto simp: TextLength_toRange_def Range_new_def position_at_def TextLength_addToPosition_def TextLength_zero_def length_wf_def IPosition_eq_iff)
  from value_law [OF _ _ _ this] show ?thesis
    by (simp add: AbstractText_getValue_def length_law breakable_def segment_def)
qed

end

interpretation string_text: abstract_text "StringText v" v for v
proof unfold_locales
  fix k l rg assume k: "breakable v k" "breakable v l" "k \<le> l" and rg: "range_start rg = position_at v k" "range_end rg = position_at v l"
  have "Transformer_getOffsetRange v rg = Inr (mk_offset (int k) (int l))"
    using k(3) by (simp add: Transformer_getOffsetRange_def rg getOffset_at [OF k(1)] getOffset_at [OF k(2)])
  moreover have "js_substring v (int k) (int l) = segment v k l"
    using k by (simp add: js_substring_in breakable_def segment_def nat_diff_distrib')
  ultimately show "at_getValueOfRange (StringText v) rg = Inr (segment v k l)"
    by (simp add: StringText_def OffsetRange_substring_def)
qed (simp add: StringText_def textLength_eq)

section \<open>Correctness\<close>

text \<open>C32: The offsets \<open>getOffset\<close> computes, for any positions, lie in the text and are ordered as the positions are.
\<close>

lemma Transformer_getOffset_bounds:
  assumes "Position_isBeforeOrEqual p q"
  shows "0 \<le> Transformer_getOffset t p \<and> Transformer_getOffset t p \<le> Transformer_getOffset t q \<and>
    Transformer_getOffset t q \<le> int (length t)"
proof -
  obtain j k where "Transformer_getOffset t p = int j" "Transformer_getOffset t q = int k" "breakable t k"
    using getOffset_valid [of t p] getOffset_valid [of t q] by metis
  then show ?thesis using getOffset_mono [of p q t] assms by (simp add: Position_isBeforeOrEqual_le breakable_def)
qed

lemma Transformer_getOffset_bounds_witness:
  "0 \<le> Transformer_getOffset [97, 13, 10, 98] (Position_new 1 7) \<and>
   Transformer_getOffset [97, 13, 10, 98] (Position_new 1 7) \<le> Transformer_getOffset [97, 13, 10, 98] (Position_new 9 (- 2)) \<and>
   Transformer_getOffset [97, 13, 10, 98] (Position_new 9 (- 2)) \<le> 4"
  using Transformer_getOffset_bounds [of "Position_new 1 7" "Position_new 9 (- 2)" "[97, 13, 10, 98]"]
  by (simp add: Position_isBeforeOrEqual_def)

text \<open>C31: Round trips between positions and offsets: the offset of any position reads back as the position
  \<open>validatePosition\<close> moves it to, validating twice is validating once, and an offset that is not inside a line break
  \<open>\r\n\<close> comes back from its position.
\<close>

lemma Transformer_position_roundtrip:
  assumes "breakable t k"
  shows "Transformer_getPosition t (Transformer_getOffset t p) = Some (Transformer_validatePosition t p) \<and>
    Transformer_validatePosition t (Transformer_validatePosition t p) = Transformer_validatePosition t p \<and>
    map_option (Transformer_getOffset t) (Transformer_getPosition t (int k)) = Some (int k)"
proof -
  obtain j where j: "Transformer_getOffset t p = int j" "breakable t j" "Transformer_validatePosition t p = position_at t j"
    by (rule getOffset_valid)
  obtain n where n: "n \<le> length (newlines t)" "line_from t n \<le> int j" "int j \<le> line_to t n"
    using breakable_line [OF j(2)] by blast
  have "Transformer_validatePosition t (position_at t j) = position_at t j"
    unfolding position_at_line [OF n] by (rule validatePosition_id [OF n])
  then show ?thesis using assms j by (simp add: getPosition_at getOffset_at breakable_def [of t])
qed

lemma Transformer_position_roundtrip_witness:
  "map_option (Transformer_getOffset [97, 13, 10, 98]) (Transformer_getPosition [97, 13, 10, 98] 3) = Some 3 \<and>
   Transformer_getPosition [97, 13, 10, 98] (Transformer_getOffset [97, 13, 10, 98] (Position_new 1 7)) =
     Some (Transformer_validatePosition [97, 13, 10, 98] (Position_new 1 7))"
proof -
  have "breakable [97, 13, 10, 98] 3" by code_simp
  from Transformer_position_roundtrip [OF this, of "Position_new 1 7"] show ?thesis by simp
qed

end
