(* ===== verification/Text_Edits.thy ===== *)
theory Text_Edits
  imports Text_Positions
begin

text \<open>
  \<open>src/vs/editor/common/core/edits/textEdit.ts\<close>: edits whose replacements are given by line and column.
  The constructor checks the order of the replacements with \<open>assertFn\<close>, which reports a violation to the error
  handler and goes on, so it always returns; \<open>TextEdit_check\<close> is that check.  The lemmas relate the operations
  to string edits through the transformer of the text, the code's own \<open>getStringEdit\<close>.
\<close>

section \<open>Replacements\<close>

record TextReplacement =
  tr_range :: IRange
  tr_text :: text16

definition TextReplacement_new :: "IRange \<Rightarrow> text16 \<Rightarrow> TextReplacement" where
  "TextReplacement_new rg t = \<lparr>tr_range = rg, tr_text = t\<rparr>"

definition TextReplacement_delete :: "IRange \<Rightarrow> TextReplacement" where
  "TextReplacement_delete rg = TextReplacement_new rg []"

definition TextReplacement_isEmpty :: "TextReplacement \<Rightarrow> bool" where
  "TextReplacement_isEmpty r \<longleftrightarrow> Range_isEmpty (tr_range r) \<and> length (tr_text r) = 0"

definition TextReplacement_equals :: "TextReplacement \<Rightarrow> TextReplacement \<Rightarrow> bool" where
  "TextReplacement_equals a b \<longleftrightarrow> Range_equalsRange (Some (tr_range a)) (Some (tr_range b)) \<and> tr_text a = tr_text b"

text \<open>The body of \<open>joinReplacements\<close>, with the text of the gap after each replacement but the last.\<close>

fun join_loop :: "AbstractText \<Rightarrow> TextReplacement list \<Rightarrow> text16 \<Rightarrow> text16 result" where
  "join_loop A [] new_text = Inr new_text"
| "join_loop A [curEdit] new_text = Inr (new_text @ tr_text curEdit)"
| "join_loop A (curEdit # nextEdit # rest) new_text =
     rbind (at_getValueOfRange A (Range_fromPositions (Range_getEndPosition (tr_range curEdit)) (Range_getStartPosition (tr_range nextEdit))))
       (\<lambda>gapText. join_loop A (nextEdit # rest) (new_text @ tr_text curEdit @ gapText))"

definition TextReplacement_joinReplacements :: "TextReplacement list \<Rightarrow> AbstractText \<Rightarrow> TextReplacement result" where
  "TextReplacement_joinReplacements rs A =
     (if rs = [] then Inl BugIndicatingError
      else if length rs = 1 then Inr (hd rs)
      else rbind (join_loop A rs []) (\<lambda>new_text.
             Inr (TextReplacement_new
               (Range_fromPositions (Range_getStartPosition (tr_range (hd rs))) (Range_getEndPosition (tr_range (last rs)))) new_text)))"

definition TextReplacement_extendToCoverRange :: "TextReplacement \<Rightarrow> IRange \<Rightarrow> AbstractText \<Rightarrow> TextReplacement result" where
  "TextReplacement_extendToCoverRange r rg A =
     (if Range_containsRange (tr_range r) rg then Inr r
      else
        let newRange = Range_plusRange (tr_range r) rg
        in rbind (at_getValueOfRange A (Range_fromPositions (Range_getStartPosition newRange) (Range_getStartPosition (tr_range r)))) (\<lambda>textBefore.
           rbind (at_getValueOfRange A (Range_fromPositions (Range_getEndPosition (tr_range r)) (Range_getEndPosition newRange))) (\<lambda>textAfter.
           Inr (TextReplacement_new newRange (textBefore @ tr_text r @ textAfter)))))"

text \<open>The line exists when the replacement lies in the text.\<close>

definition TextReplacement_extendToFullLine :: "TextReplacement \<Rightarrow> AbstractText \<Rightarrow> TextReplacement result" where
  "TextReplacement_extendToFullLine r A =
     rbind (AbstractText_getValue A) (\<lambda>v.
       let newRange = Range_new (startLineNumber (tr_range r)) 1 (endLineNumber (tr_range r))
             (the (Transformer_getLineLength v (endLineNumber (tr_range r))) + 1)
       in TextReplacement_extendToCoverRange r newRange A)"

text \<open>\<open>replaceAll('\r\n', '\n')\<close>.\<close>

fun normalize_breaks :: "text16 \<Rightarrow> text16" where
  "normalize_breaks (c # d # cs) =
     (if c = 13 \<and> d = 10 then 10 # normalize_breaks cs else c # normalize_breaks (d # cs))"
| "normalize_breaks cs = cs"

definition TextReplacement_removeCommonPrefix :: "TextReplacement \<Rightarrow> AbstractText \<Rightarrow> TextReplacement result" where
  "TextReplacement_removeCommonPrefix r A =
     rbind (at_getValueOfRange A (tr_range r)) (\<lambda>v.
       let normalizedOriginalText = normalize_breaks v;
           normalizedModifiedText = normalize_breaks (tr_text r);
           commonPrefixLen = commonPrefixLength normalizedOriginalText normalizedModifiedText;
           new_start = TextLength_addToPosition (TextLength_ofText (js_substring normalizedOriginalText 0 commonPrefixLen))
                     (Range_getStartPosition (tr_range r));
           new_text = js_substring_from normalizedModifiedText commonPrefixLen
       in Inr (TextReplacement_new (Range_fromPositions new_start (Range_getEndPosition (tr_range r))) new_text))"

definition TextReplacement_removeCommonSuffix :: "TextReplacement \<Rightarrow> AbstractText \<Rightarrow> TextReplacement result" where
  "TextReplacement_removeCommonSuffix r A =
     rbind (at_getValueOfRange A (tr_range r)) (\<lambda>v.
       let normalizedOriginalText = normalize_breaks v;
           normalizedModifiedText = normalize_breaks (tr_text r);
           commonSuffixLen = commonSuffixLength normalizedOriginalText normalizedModifiedText;
           new_end = TextLength_addToPosition
                   (TextLength_ofText (js_substring normalizedOriginalText 0 (int (length normalizedOriginalText) - commonSuffixLen)))
                   (Range_getStartPosition (tr_range r));
           new_text = js_substring normalizedModifiedText 0 (int (length normalizedModifiedText) - commonSuffixLen)
       in Inr (TextReplacement_new (Range_fromPositions (Range_getStartPosition (tr_range r)) new_end) new_text))"

definition TextReplacement_removeCommonPrefixAndSuffix :: "TextReplacement \<Rightarrow> AbstractText \<Rightarrow> TextReplacement result" where
  "TextReplacement_removeCommonPrefixAndSuffix r A =
     rbind (TextReplacement_removeCommonPrefix r A) (\<lambda>prefix. TextReplacement_removeCommonSuffix prefix A)"

definition TextReplacement_isEffectiveDeletion :: "TextReplacement \<Rightarrow> AbstractText \<Rightarrow> bool result" where
  "TextReplacement_isEffectiveDeletion r A =
     rbind (at_getValueOfRange A (tr_range r)) (\<lambda>v.
       let new_text = normalize_breaks (tr_text r);
           existingText = normalize_breaks v;
           l = commonPrefixLength new_text existingText;
           new_text = js_substring_from new_text l;
           existingText = js_substring_from existingText l;
           suffix = commonSuffixLength new_text existingText;
           new_text = js_substring new_text 0 (int (length new_text) - suffix)
       in Inr (new_text = []))"

text \<open>\<open>rangeFromPositions\<close>, the helper at the end of the file.\<close>

definition rangeFromPositions :: "IPosition \<Rightarrow> IPosition \<Rightarrow> IRange result" where
  "rangeFromPositions s e =
     (if lineNumber s = lineNumber e \<and> column s = max_safe_integer then Inr (Range_fromPositions e e)
      else if \<not> Position_isBeforeOrEqual s e then Inl BugIndicatingError
      else Inr (Range_new (lineNumber s) (column s) (lineNumber e) (column e)))"

section \<open>Edits\<close>

record TextEdit =
  te_replacements :: "TextReplacement list"

definition TextEdit_new :: "TextReplacement list \<Rightarrow> TextEdit" where
  "TextEdit_new rs = \<lparr>te_replacements = rs\<rparr>"

text \<open>\<open>checkAdjacentItems\<close> with the order of positions.\<close>

fun TextEdit_check :: "TextReplacement list \<Rightarrow> bool" where
  "TextEdit_check (a # b # rs) \<longleftrightarrow>
     Position_isBeforeOrEqual (Range_getEndPosition (tr_range a)) (Range_getStartPosition (tr_range b)) \<and> TextEdit_check (b # rs)"
| "TextEdit_check [] \<longleftrightarrow> True"
| "TextEdit_check [a] \<longleftrightarrow> True"

definition TextEdit_replace :: "IRange \<Rightarrow> text16 \<Rightarrow> TextEdit" where
  "TextEdit_replace originalRange new_text = TextEdit_new [TextReplacement_new originalRange new_text]"

definition TextEdit_delete :: "IRange \<Rightarrow> TextEdit" where
  "TextEdit_delete rg = TextEdit_new [TextReplacement_new rg []]"

definition TextEdit_insert :: "IPosition \<Rightarrow> text16 \<Rightarrow> TextEdit" where
  "TextEdit_insert position new_text = TextEdit_new [TextReplacement_new (Range_fromPositions position position) new_text]"

definition TextEdit_fromParallelReplacementsUnsorted :: "TextReplacement list \<Rightarrow> TextEdit" where
  "TextEdit_fromParallelReplacementsUnsorted rs =
     TextEdit_new (js_sort (\<lambda>a b. Range_compareRangesUsingStarts (Some (tr_range a)) (Some (tr_range b))) rs)"

definition TextReplacement_toEdit :: "TextReplacement \<Rightarrow> TextEdit" where
  "TextReplacement_toEdit r = TextEdit_new [r]"

text \<open>\<open>normalize\<close>: the last of \<open>replacements\<close> absorbs a replacement that starts where it ends.\<close>

fun TextEdit_normalize_loop :: "TextReplacement list \<Rightarrow> TextReplacement list \<Rightarrow> TextReplacement list" where
  "TextEdit_normalize_loop [] acc = acc"
| "TextEdit_normalize_loop (r # rs) acc =
     (if acc \<noteq> [] \<and> Position_equals (Some (Range_getEndPosition (tr_range (last acc)))) (Some (Range_getStartPosition (tr_range r)))
      then TextEdit_normalize_loop rs
             (butlast acc @ [TextReplacement_new (Range_plusRange (tr_range (last acc)) (tr_range r)) (tr_text (last acc) @ tr_text r)])
      else if \<not> TextReplacement_isEmpty r then TextEdit_normalize_loop rs (acc @ [r])
      else TextEdit_normalize_loop rs acc)"

definition TextEdit_normalize :: "TextEdit \<Rightarrow> TextEdit" where
  "TextEdit_normalize ed = TextEdit_new (TextEdit_normalize_loop (te_replacements ed) [])"

text \<open>\<open>mapPosition\<close>: a position in a replaced range maps to the range of its replacement.\<close>

datatype mapped = MappedPosition IPosition | MappedRange IRange

definition shifted_column :: "int \<Rightarrow> int \<Rightarrow> int \<Rightarrow> int" where
  "shifted_column line curLine columnDeltaInCurLine = (if line = curLine then columnDeltaInCurLine else 0)"

fun mapPosition_loop :: "IPosition \<Rightarrow> TextReplacement list \<Rightarrow> int \<Rightarrow> int \<Rightarrow> int \<Rightarrow> mapped result" where
  "mapPosition_loop position [] lineDelta curLine columnDeltaInCurLine =
     Inr (MappedPosition (Position_new (lineNumber position + lineDelta)
            (column position + shifted_column (lineNumber position + lineDelta) curLine columnDeltaInCurLine)))"
| "mapPosition_loop position (repl # rs) lineDelta curLine columnDeltaInCurLine =
     (let startP = Range_getStartPosition (tr_range repl);
          endP = Range_getEndPosition (tr_range repl);
          len = TextLength_ofText (tr_text repl)
      in if Position_isBeforeOrEqual position startP
         then mapPosition_loop position [] lineDelta curLine columnDeltaInCurLine
         else if Position_isBefore position endP then
           (let startPos = Position_new (lineNumber startP + lineDelta)
                             (column startP + shifted_column (lineNumber startP + lineDelta) curLine columnDeltaInCurLine)
            in rbind (rangeFromPositions startPos (TextLength_addToPosition len startPos)) (\<lambda>rg. Inr (MappedRange rg)))
         else
           let columnDelta = (if lineNumber startP + lineDelta \<noteq> curLine then 0 else columnDeltaInCurLine);
               newDelta = lineDelta + (lineCount len - (endLineNumber (tr_range repl) - startLineNumber (tr_range repl)));
               columnDelta = (if lineCount len = 0 then
                   (if lineNumber endP \<noteq> lineNumber startP then columnDelta + (columnCount len - (column endP - 1))
                    else columnDelta + (columnCount len - (column endP - column startP)))
                 else columnCount len)
           in mapPosition_loop position rs newDelta (lineNumber endP + newDelta) columnDelta)"

definition TextEdit_mapPosition :: "TextEdit \<Rightarrow> IPosition \<Rightarrow> mapped result" where
  "TextEdit_mapPosition ed position = mapPosition_loop position (te_replacements ed) 0 0 0"

fun mapped_start :: "mapped \<Rightarrow> IPosition" where
  "mapped_start (MappedPosition p) = p"
| "mapped_start (MappedRange r) = Range_getStartPosition r"

fun mapped_end :: "mapped \<Rightarrow> IPosition" where
  "mapped_end (MappedPosition p) = p"
| "mapped_end (MappedRange r) = Range_getEndPosition r"

definition TextEdit_mapRange :: "TextEdit \<Rightarrow> IRange \<Rightarrow> IRange result" where
  "TextEdit_mapRange ed rg =
     rbind (TextEdit_mapPosition ed (Range_getStartPosition rg)) (\<lambda>s.
     rbind (TextEdit_mapPosition ed (Range_getEndPosition rg)) (\<lambda>e.
     rangeFromPositions (mapped_start s) (mapped_end e)))"

fun TextEdit_apply_loop :: "AbstractText \<Rightarrow> TextReplacement list \<Rightarrow> text16 \<Rightarrow> IPosition \<Rightarrow> text16 result" where
  "TextEdit_apply_loop A [] out lastEditEnd =
     rbind (AbstractText_endPositionExclusive A) (\<lambda>textEnd.
     rbind (rangeFromPositions lastEditEnd textEnd) (\<lambda>r.
     if \<not> Range_isEmpty r then rbind (at_getValueOfRange A r) (\<lambda>v. Inr (out @ v)) else Inr out))"
| "TextEdit_apply_loop A (repl # rs) out lastEditEnd =
     rbind (rangeFromPositions lastEditEnd (Range_getStartPosition (tr_range repl))) (\<lambda>r.
     rbind (if \<not> Range_isEmpty r then rbind (at_getValueOfRange A r) (\<lambda>v. Inr (out @ v)) else Inr out) (\<lambda>out.
     TextEdit_apply_loop A rs (out @ tr_text repl) (Range_getEndPosition (tr_range repl))))"

definition TextEdit_apply :: "TextEdit \<Rightarrow> AbstractText \<Rightarrow> text16 result" where
  "TextEdit_apply ed A = TextEdit_apply_loop A (te_replacements ed) [] (Position_new 1 1)"

definition TextEdit_applyToString :: "TextEdit \<Rightarrow> text16 \<Rightarrow> text16 result" where
  "TextEdit_applyToString ed str = TextEdit_apply ed (StringText str)"

fun TextEdit_getNewRanges_loop :: "TextReplacement list \<Rightarrow> int \<Rightarrow> int \<Rightarrow> int \<Rightarrow> IRange list" where
  "TextEdit_getNewRanges_loop [] previousEditEndLineNumber lineOffset columnOffset = []"
| "TextEdit_getNewRanges_loop (repl # rs) previousEditEndLineNumber lineOffset columnOffset =
     (let textLength = TextLength_ofText (tr_text repl);
          newRangeStart = Position_new (startLineNumber (tr_range repl) + lineOffset)
            (startColumn (tr_range repl) +
              (if startLineNumber (tr_range repl) = previousEditEndLineNumber then columnOffset else 0));
          newRange = TextLength_createRange textLength newRangeStart
      in newRange # TextEdit_getNewRanges_loop rs (endLineNumber (tr_range repl))
           (endLineNumber newRange - endLineNumber (tr_range repl))
           (endColumn newRange - endColumn (tr_range repl)))"

definition TextEdit_getNewRanges :: "TextEdit \<Rightarrow> IRange list" where
  "TextEdit_getNewRanges ed = TextEdit_getNewRanges_loop (te_replacements ed) 0 0 0"

definition TextEdit_inverse :: "TextEdit \<Rightarrow> AbstractText \<Rightarrow> TextEdit result" where
  "TextEdit_inverse ed doc =
     rbind (rmap (\<lambda>(e, rg). rbind (at_getValueOfRange doc (tr_range e)) (\<lambda>v. Inr (TextReplacement_new rg v)))
              (zip (te_replacements ed) (TextEdit_getNewRanges ed)))
       (\<lambda>rs. Inr (TextEdit_new rs))"

definition TextEdit_inverseMapPosition :: "TextEdit \<Rightarrow> IPosition \<Rightarrow> AbstractText \<Rightarrow> mapped result" where
  "TextEdit_inverseMapPosition ed positionAfterEdit doc =
     rbind (TextEdit_inverse ed doc) (\<lambda>reversed. TextEdit_mapPosition reversed positionAfterEdit)"

definition TextEdit_inverseMapRange :: "TextEdit \<Rightarrow> IRange \<Rightarrow> AbstractText \<Rightarrow> IRange result" where
  "TextEdit_inverseMapRange ed rg doc = rbind (TextEdit_inverse ed doc) (\<lambda>reversed. TextEdit_mapRange reversed rg)"

definition TextEdit_toReplacement :: "TextEdit \<Rightarrow> AbstractText \<Rightarrow> TextReplacement result" where
  "TextEdit_toReplacement ed A = TextReplacement_joinReplacements (te_replacements ed) A"

definition TextEdit_equals :: "TextEdit \<Rightarrow> TextEdit \<Rightarrow> bool" where
  "TextEdit_equals ed other \<longleftrightarrow>
     length (te_replacements ed) = length (te_replacements other) \<and>
     list_all2 TextReplacement_equals (te_replacements ed) (te_replacements other)"

section \<open>Conversions to and from string edits\<close>

definition Transformer_getStringReplacement :: "text16 \<Rightarrow> TextReplacement \<Rightarrow> StringReplacement result" where
  "Transformer_getStringReplacement t r =
     rbind (Transformer_getOffsetRange t (tr_range r)) (\<lambda>rg. Inr \<lparr>sr_range = rg, sr_newText = tr_text r\<rparr>)"

definition Transformer_getStringEdit :: "text16 \<Rightarrow> TextEdit \<Rightarrow> StringReplacement BaseEdit result" where
  "Transformer_getStringEdit t ed = rbind (rmap (Transformer_getStringReplacement t) (te_replacements ed)) StringEdit_new"

text \<open>None: a column is \<open>NaN\<close>.\<close>

definition Transformer_getTextReplacement :: "text16 \<Rightarrow> StringReplacement \<Rightarrow> TextReplacement option" where
  "Transformer_getTextReplacement t r =
     map_option (\<lambda>rg. TextReplacement_new rg (sr_newText r)) (Transformer_getRange t (sr_range r))"

definition TextReplacement_fromStringReplacement :: "StringReplacement \<Rightarrow> AbstractText \<Rightarrow> TextReplacement option result" where
  "TextReplacement_fromStringReplacement r initialState =
     rbind (AbstractText_getValue initialState) (\<lambda>v. Inr (Transformer_getTextReplacement v r))"

definition Transformer_getTextEdit :: "text16 \<Rightarrow> StringReplacement BaseEdit \<Rightarrow> TextEdit option" where
  "Transformer_getTextEdit t ed =
     map_option TextEdit_new (those (List.map (Transformer_getTextReplacement t) (replacements ed)))"

definition TextEdit_fromStringEdit :: "StringReplacement BaseEdit \<Rightarrow> AbstractText \<Rightarrow> TextEdit option result" where
  "TextEdit_fromStringEdit ed initialState =
     rbind (AbstractText_getValue initialState) (\<lambda>v. Inr (Transformer_getTextEdit v ed))"

end
