(* ===== verification/Text_Edit_Laws.thy ===== *)
theory Text_Edit_Laws
  imports Text_Edits
begin

text \<open>
  Text edits as string edits: within a text, a text edit is located at offsets, and \<open>apply\<close>, \<open>normalize\<close>,
  \<open>toReplacement\<close> and the inverse do what the string edit at these offsets does.
\<close>

section \<open>Edits within a text\<close>

text \<open>
  The replacement lies at the offsets of the string replacement: both ends are positions of the text, and the
  new texts agree.
\<close>

definition at_offsets :: "text16 \<Rightarrow> TextReplacement \<Rightarrow> StringReplacement \<Rightarrow> bool" where
  "at_offsets s r e \<longleftrightarrow> (\<exists>k l. sr_range e = mk_offset (int k) (int l) \<and> k \<le> l \<and> breakable s k \<and> breakable s l \<and>
     range_start (tr_range r) = position_at s k \<and> range_end (tr_range r) = position_at s l \<and> sr_newText e = tr_text r)"

definition located :: "text16 \<Rightarrow> TextReplacement list \<Rightarrow> StringReplacement list \<Rightarrow> bool" where
  "located s rs es \<longleftrightarrow> list_all2 (at_offsets s) rs es"

text \<open>
  The precondition of the operations, in terms of the code: the ends are positions of the text, in order.  Texts
  are shorter than \<open>Number.MAX_SAFE_INTEGER\<close>, as all strings are.
\<close>

definition text_edit_within :: "text16 \<Rightarrow> TextEdit \<Rightarrow> bool" where
  "text_edit_within s ed \<longleftrightarrow> int (length s) + 1 < max_safe_integer \<and> TextEdit_check (te_replacements ed) \<and>
     (\<forall>r \<in> set (te_replacements ed). range_wf (tr_range r) \<and>
        valid_position s (range_start (tr_range r)) \<and> valid_position s (range_end (tr_range r)))"

definition at_offset_of :: "text16 \<Rightarrow> TextReplacement \<Rightarrow> StringReplacement" where
  "at_offset_of s r = \<lparr>sr_range = mk_offset (Transformer_getOffset s (range_start (tr_range r))) (Transformer_getOffset s (range_end (tr_range r))),
     sr_newText = tr_text r\<rparr>"

lemma at_offset_of:
  assumes "range_wf (tr_range r)" and "valid_position s (range_start (tr_range r))" and "valid_position s (range_end (tr_range r))"
  shows "at_offsets s r (at_offset_of s r)"
proof -
  obtain k l where kl: "breakable s k" "range_start (tr_range r) = position_at s k" "breakable s l" "range_end (tr_range r) = position_at s l"
    using assms(2,3) unfolding valid_position_iff by blast
  have "k \<le> l" using assms(1) kl by (simp add: range_wf_def breakable_def)
  then show ?thesis using kl getOffset_at [OF kl(1)] getOffset_at [OF kl(3)] unfolding at_offsets_def at_offset_of_def
    by (intro exI [of _ k] exI [of _ l]) simp
qed

lemma at_offsets_unique: "at_offsets s r e \<Longrightarrow> e = at_offset_of s r"
  unfolding at_offsets_def at_offset_of_def by (auto simp: getOffset_at)

lemma located_unique: "located s rs es \<Longrightarrow> es = List.map (at_offset_of s) rs"
  unfolding located_def by (induction rs es rule: list_all2_induct) (auto dest: at_offsets_unique)

lemma located_simps [simp]:
  "located s [] es \<longleftrightarrow> es = []" "located s (r # rs) es \<longleftrightarrow> (\<exists>e es'. es = e # es' \<and> at_offsets s r e \<and> located s rs es')"
  "located s (rs @ rs') es \<longleftrightarrow> (\<exists>a b. es = a @ b \<and> located s rs a \<and> located s rs' b)"
  by (auto simp: located_def list_all2_Cons1 list_all2_append1)
    (metis list_all2_lengthD)+

lemma breakable_le: "breakable s k \<Longrightarrow> k \<le> length s"
  by (simp add: breakable_def)

lemma at_offsets_bounds:
  assumes "at_offsets s r e"
  shows "0 \<le> start (sr_range e)" "start (sr_range e) \<le> endExclusive (sr_range e)" "endExclusive (sr_range e) \<le> int (length s)"
    "sr_newText e = tr_text r"
    "range_start (tr_range r) = position_at s (nat (start (sr_range e)))" "range_end (tr_range r) = position_at s (nat (endExclusive (sr_range e)))"
    "breakable s (nat (start (sr_range e)))" "breakable s (nat (endExclusive (sr_range e)))"
  using assms unfolding at_offsets_def by (auto dest: breakable_le)

lemma at_offsetsI:
  assumes "0 \<le> start rg" "start rg \<le> endExclusive rg" "breakable s (nat (start rg))" "breakable s (nat (endExclusive rg))"
    "range_start (tr_range r) = position_at s (nat (start rg))" "range_end (tr_range r) = position_at s (nat (endExclusive rg))"
    "t = tr_text r"
  shows "at_offsets s r \<lparr>sr_range = rg, sr_newText = t\<rparr>"
  using assms unfolding at_offsets_def by (intro exI [of _ "nat (start rg)"] exI [of _ "nat (endExclusive rg)"]) simp

lemma at_offsets_order:
  assumes "at_offsets s a e" and "at_offsets s b f"
  shows "range_end (tr_range a) \<le> range_start (tr_range b) \<longleftrightarrow> endExclusive (sr_range e) \<le> start (sr_range f)"
  using at_offsets_bounds [OF assms(1)] at_offsets_bounds [OF assms(2)] by (simp add: nat_le_iff)

text \<open>The check of the constructor is the order of the offsets.\<close>

lemma located_fits:
  "located s rs es \<Longrightarrow> TextEdit_check rs \<Longrightarrow> (\<And>e es'. es = e # es' \<Longrightarrow> p \<le> start (sr_range e)) \<Longrightarrow> p \<le> int (length s) \<Longrightarrow>
     fits sr_range p (int (length s)) es"
proof (induction rs arbitrary: es p rule: TextEdit_check.induct)
  case (1 a b rs)
  then obtain e f es' where e: "es = e # f # es'" "at_offsets s a e" "at_offsets s b f" "located s (b # rs) (f # es')" by auto
  have order: "endExclusive (sr_range e) \<le> start (sr_range f)"
    using 1(3) at_offsets_order [OF e(2,3)] by (simp add: Position_isBeforeOrEqual_le)
  have "fits sr_range (endExclusive (sr_range e)) (int (length s)) (f # es')"
    by (rule 1(1) [OF e(4)]) (use 1(3) order at_offsets_bounds [OF e(2)] in auto)
  then show ?case using e(1) 1(4) [OF e(1)] at_offsets_bounds(2) [OF e(2)] by simp
next
  case (3 v)
  then obtain e where e: "es = [e]" "at_offsets s v e" by auto
  then show ?case using 3(3) [OF e(1)] at_offsets_bounds(2,3) [OF e(2)] by simp
qed simp

lemma within_located:
  assumes "text_edit_within s ed"
  obtains es where "located s (te_replacements ed) es" and "fits sr_range 0 (int (length s)) es"
    and "es = List.map (at_offset_of s) (te_replacements ed)"
proof -
  let ?es = "List.map (at_offset_of s) (te_replacements ed)"
  have loc: "located s (te_replacements ed) ?es"
    using assms at_offset_of unfolding located_def text_edit_within_def list.rel_map by (intro list.rel_refl_strong) blast
  have first: "0 \<le> start (sr_range e)" if "?es = e # es'" for e es'
    using loc that by (cases "te_replacements ed") (auto dest: at_offsets_bounds)
  have "fits sr_range 0 (int (length s)) ?es"
    by (rule located_fits [OF loc]) (use assms first in \<open>auto simp: text_edit_within_def\<close>)
  with loc show thesis by (rule that) simp
qed

lemma located_check: "located s rs es \<Longrightarrow> fits sr_range p n es \<Longrightarrow> TextEdit_check rs"
proof (induction rs arbitrary: es p rule: TextEdit_check.induct)
  case (1 a b rs)
  then obtain e f es' where e: "es = e # f # es'" "at_offsets s a e" "at_offsets s b f" "located s (b # rs) (f # es')" by auto
  then have "endExclusive (sr_range e) \<le> start (sr_range f)" "fits sr_range (endExclusive (sr_range e)) n (f # es')"
    using 1(3) by auto
  then show ?case using 1(1) [OF e(4)] at_offsets_order [OF e(2,3)] by (simp add: Position_isBeforeOrEqual_le)
qed simp_all

lemma located_within:
  assumes "located s (te_replacements ed) es" and "fits sr_range p n es" and "int (length s) + 1 < max_safe_integer"
  shows "text_edit_within s ed"
  unfolding text_edit_within_def
proof (intro conjI ballI)
  show "TextEdit_check (te_replacements ed)" by (rule located_check [OF assms(1,2)])
  fix r assume "r \<in> set (te_replacements ed)"
  then obtain e where "at_offsets s r e" using assms(1) unfolding located_def by (metis list_all2_conv_all_nth in_set_conv_nth)
  note b = at_offsets_bounds [OF this]
  show "range_wf (tr_range r)" using b by (simp add: range_wf_def nat_mono)
  show "valid_position s (range_start (tr_range r))" "valid_position s (range_end (tr_range r))"
    using b(5-8) unfolding valid_position_iff by blast+
qed (rule assms(3))

text \<open>\<open>getStringEdit\<close> gives the string edit at the offsets.\<close>

lemma getStringEdit_located:
  assumes "located s (te_replacements ed) es" and "fits sr_range 0 (int (length s)) es"
  shows "Transformer_getStringEdit s ed = Inr \<lparr>replacements = es\<rparr>"
proof -
  have "rmap (Transformer_getStringReplacement s) rs = Inr es" if "located s rs es" for rs es
    using that
  proof (induction rs arbitrary: es)
    case (Cons r rs)
    then obtain e es' where e: "es = e # es'" "at_offsets s r e" "located s rs es'" by auto
    then have "Transformer_getStringReplacement s r = Inr e"
      unfolding at_offsets_def Transformer_getStringReplacement_def Transformer_getOffsetRange_def by (auto simp: getOffset_at)
    then show ?case using Cons.IH [OF e(3)] e(1) by simp
  qed simp
  from this [OF assms(1)] show ?thesis by (simp add: Transformer_getStringEdit_def StringEdit_new_ok [OF assms(2)])
qed

section \<open>Applying an edit\<close>

lemma breakable_ends [simp]: "breakable s 0" "breakable s (length s)"
  by (simp_all add: breakable_def)

lemma column_le: "column (position_at s k) \<le> int (length s) + 1"
proof -
  let ?xs = "Transformer_lineStartOffsetByLineIdx (take k s)"
  have "last ?xs \<in> set ?xs" by (rule last_in_set) (simp add: starts_eq)
  then have "0 \<le> last ?xs" using starts_le by blast
  then show ?thesis using column_at [of s k] by (simp add: starts_eq del: last.simps)
qed

lemma rangeFromPositions_at:
  assumes "int (length s) + 1 < max_safe_integer" and "k \<le> l" and "l \<le> length s"
  obtains rg where "rangeFromPositions (position_at s k) (position_at s l) = Inr rg"
    and "range_start rg = position_at s k" and "range_end rg = position_at s l"
proof
  let ?rg = "Range_fromPositions (position_at s k) (position_at s l)"
  have le: "position_at s k \<le> position_at s l" using assms(2,3) by simp
  show "rangeFromPositions (position_at s k) (position_at s l) = Inr ?rg"
    using assms(1) column_le [of s k] le
    by (simp add: rangeFromPositions_def Position_isBeforeOrEqual_le Range_fromPositions_def)
  show "range_start ?rg = position_at s k" "range_end ?rg = position_at s l"
    using le by (simp_all add: Range_fromPositions_ends min_absorb1 max_absorb2)
qed

lemma Range_isEmpty_iff: "Range_isEmpty rg \<longleftrightarrow> range_start rg = range_end rg"
  by (simp add: Range_isEmpty_def IPosition_eq_iff)

lemma segment_drop: "segment s k l @ drop l s = drop k s" if "k \<le> l"
  using that by (simp add: segment_def take_drop_split)

context abstract_text
begin

text \<open>The part of the text between two replacements.\<close>

lemma copy_gap:
  assumes "int (length content) + 1 < max_safe_integer" and "breakable content k" and "breakable content l" and "k \<le> l"
  shows "\<exists>rg. rangeFromPositions (position_at content k) (position_at content l) = Inr rg \<and>
    (if \<not> Range_isEmpty rg then rbind (at_getValueOfRange A rg) (\<lambda>v. Inr (out @ v)) else Inr out) = Inr (out @ segment content k l)"
proof -
  obtain rg where rg: "rangeFromPositions (position_at content k) (position_at content l) = Inr rg"
    "range_start rg = position_at content k" "range_end rg = position_at content l"
    using rangeFromPositions_at [OF assms(1,4) breakable_le [OF assms(3)]] by blast
  then have "Range_isEmpty rg \<longleftrightarrow> k = l" using assms(2-4) by (simp add: Range_isEmpty_iff breakable_le)
  then show ?thesis using rg value_law [OF assms(2-4) rg(2,3)] by (intro exI [of _ rg]) (simp add: segment_def)
qed

lemma apply_loop_located:
  assumes "located content rs es" and "fits sr_range p (int (length content)) es" and "0 \<le> p" and "breakable content (nat p)"
    and "int (length content) + 1 < max_safe_integer"
  shows "TextEdit_apply_loop A rs out (position_at content (nat p)) = Inr (out @ appl sr_range sr_newText p es (drop (nat p) content))"
  using assms(1-4)
proof (induction rs arbitrary: es p out)
  case Nil
  then obtain rg where "rangeFromPositions (position_at content (nat p)) (position_at content (length content)) = Inr rg"
    "(if \<not> Range_isEmpty rg then rbind (at_getValueOfRange A rg) (\<lambda>v. Inr (out @ v)) else Inr out) =
      Inr (out @ segment content (nat p) (length content))"
    using copy_gap [OF assms(5) Nil.prems(4) breakable_ends(2), of out] Nil.prems(1,2) by (auto simp: nat_le_iff)
  then show ?case using Nil(1) segment_drop [of "nat p" "length content" content] Nil(2) by (simp add: endPosition nat_le_iff)
next
  case (Cons r rs)
  then obtain e es' where e: "es = e # es'" "at_offsets content r e" "located content rs es'" by auto
  let ?s = "start (sr_range e)" and ?e = "endExclusive (sr_range e)"
  note b = at_offsets_bounds [OF e(2)]
  have p: "p \<le> ?s" "fits sr_range ?e (int (length content)) es'" using Cons.prems(2) e(1) by auto
  obtain rg where "rangeFromPositions (position_at content (nat p)) (position_at content (nat ?s)) = Inr rg"
    "(if \<not> Range_isEmpty rg then rbind (at_getValueOfRange A rg) (\<lambda>v. Inr (out @ v)) else Inr out) =
      Inr (out @ segment content (nat p) (nat ?s))"
    using copy_gap [OF assms(5) Cons.prems(4) b(7), of out] p(1) by (auto simp: nat_mono)
  moreover have "TextEdit_apply_loop A rs out' (position_at content (nat ?e)) =
      Inr (out' @ appl sr_range sr_newText ?e es' (drop (nat ?e) content))" for out'
    using Cons.IH [OF e(3) p(2) _ b(8)] b(1,2) by simp
  moreover have "segment content (nat p) (nat ?s) = take (nat (?s - p)) (drop (nat p) content)"
    using p(1) b(1) Cons.prems(3) by (simp add: segment_def nat_diff_distrib')
  moreover have "drop (nat (?e - p)) (drop (nat p) content) = drop (nat ?e) content"
    using p(1) b(2) Cons.prems(3) by (simp flip: nat_add_distrib)
  ultimately show ?case using e(1) b by (simp del: drop_drop)
qed

lemma apply_located:
  assumes "located content (te_replacements ed) es" and "fits sr_range 0 (int (length content)) es"
    and "int (length content) + 1 < max_safe_integer"
  shows "TextEdit_apply ed A = Inr (appl sr_range sr_newText 0 es content)"
  using apply_loop_located [OF assms(1,2) _ _ assms(3), of "[]"] by (simp add: TextEdit_apply_def breakable_def)

end

lemmas apply_string_located = string_text.apply_located

section \<open>Joining touching replacements\<close>

lemma appl_join:
  assumes "fits rg p n (xs @ l # r # ys)" and "endExclusive (rg l) = start (rg r)"
    and "rg j = mk_offset (start (rg l)) (endExclusive (rg r))" and "content j = content l @ content r"
  shows "appl rg content p (xs @ j # ys) z = appl rg content p (xs @ l # r # ys) z \<and> fits rg p n (xs @ j # ys)"
  using assms(1)
proof (induction xs arbitrary: p z)
  case Nil
  then have "nat (endExclusive (rg r) - p) = nat (start (rg r) - p) + nat (endExclusive (rg r) - start (rg r))"
    using assms(2) by (auto simp flip: nat_add_distrib)
  then show ?case using Nil assms(2-4) by (auto simp: add.commute)
qed auto

lemma appl_empty:
  assumes "fits rg p n (xs @ e # ys)" and "start (rg e) = endExclusive (rg e)" and "content e = []" and "n \<le> p + int (length z)"
  shows "appl rg content p (xs @ ys) z = appl rg content p (xs @ e # ys) z \<and> fits rg p n (xs @ ys)"
  using assms(1,4)
proof (induction xs arbitrary: p z)
  case Nil
  then have f: "p \<le> start (rg e)" "fits rg (start (rg e)) n ys" using assms(2) by auto
  then have "start (rg e) - p \<le> int (length z)" using Nil(2) fits_le [OF f(2)] by simp
  from appl_split [OF f(2,1) this] show ?case using f assms(2,3) fits_mono [OF f(2,1)] by simp
next
  case (Cons x xs)
  have f: "p \<le> start (rg x)" "start (rg x) \<le> endExclusive (rg x)" "fits rg (endExclusive (rg x)) n (xs @ e # ys)"
    using Cons.prems(1) by auto
  then have "n \<le> endExclusive (rg x) + int (length (drop (nat (endExclusive (rg x) - p)) z))"
    using Cons.prems(2) fits_le [OF f(3)] by simp
  from Cons.IH [OF f(3) this] show ?case using f by simp
qed

lemma normalize_loop_located:
  assumes "located s (acc @ rs) es0" and "fits sr_range 0 (int (length s)) es0"
  shows "\<exists>es. located s (TextEdit_normalize_loop rs acc) es \<and> fits sr_range 0 (int (length s)) es \<and>
    appl sr_range sr_newText 0 es s = appl sr_range sr_newText 0 es0 s"
  using assms
proof (induction rs arbitrary: acc es0)
  case (Cons r rs)
  obtain ea e es' where e: "es0 = ea @ e # es'" "located s acc ea" "at_offsets s r e" "located s rs es'"
    using Cons.prems(1) by auto
  note b = at_offsets_bounds [OF e(3)]
  consider a l where "acc = a @ [l]" "range_end (tr_range l) = range_start (tr_range r)"
    | "\<not> (acc \<noteq> [] \<and> range_end (tr_range (last acc)) = range_start (tr_range r))" "TextReplacement_isEmpty r"
    | "\<not> (acc \<noteq> [] \<and> range_end (tr_range (last acc)) = range_start (tr_range r))" "\<not> TextReplacement_isEmpty r"
    by (cases acc rule: rev_cases) auto
  then show ?case
  proof cases
    case (1 a l)
    then obtain x el where el: "ea = x @ [el]" "located s a x" "at_offsets s l el" using e(2) by auto
    note bl = at_offsets_bounds [OF el(3)]
    have touch: "endExclusive (sr_range el) = start (sr_range e)"
      using 1(2) b bl by (simp add: breakable_le eq_nat_nat_iff)
    let ?j = "\<lparr>sr_range = mk_offset (start (sr_range el)) (endExclusive (sr_range e)), sr_newText = tr_text l @ tr_text r\<rparr>"
    have join: "appl sr_range sr_newText 0 (x @ ?j # es') s = appl sr_range sr_newText 0 es0 s \<and>
        fits sr_range 0 (int (length s)) (x @ ?j # es')"
      using appl_join [of sr_range 0 "int (length s)" x el e es' ?j sr_newText s] Cons.prems(2) e(1) el(1) touch b(4) bl(4) by simp
    have starts: "range_start (tr_range l) \<le> range_start (tr_range r)" and ends: "range_end (tr_range l) \<le> range_end (tr_range r)"
      using b bl touch by (simp_all add: breakable_le nat_mono)
    have "at_offsets s (TextReplacement_new (Range_plusRange (tr_range l) (tr_range r)) (tr_text l @ tr_text r)) ?j"
      by (rule at_offsetsI) (use b bl touch starts ends in
        \<open>simp_all add: TextReplacement_new_def plusRange_eq Range_fromPositions_ends min_absorb1 max_absorb2 min_absorb2 max_absorb1 nat_mono breakable_le\<close>)
    then have "located s (a @ TextReplacement_new (Range_plusRange (tr_range l) (tr_range r)) (tr_text l @ tr_text r) # rs) (x @ ?j # es')"
      using el(2) e(4) by auto
    with Cons.IH [of "a @ [TextReplacement_new (Range_plusRange (tr_range l) (tr_range r)) (tr_text l @ tr_text r)]" "x @ ?j # es'"] join 1
    show ?thesis by (auto simp: Position_equals_eq)
  next
    case 2
    then have empty: "start (sr_range e) = endExclusive (sr_range e)" "sr_newText e = []"
      using b by (auto simp: TextReplacement_isEmpty_def Range_isEmpty_iff breakable_le eq_nat_nat_iff)
    then have "appl sr_range sr_newText 0 (ea @ es') s = appl sr_range sr_newText 0 es0 s"
      "fits sr_range 0 (int (length s)) (ea @ es')"
      using appl_empty [of sr_range 0 "int (length s)" ea e es' sr_newText s] Cons.prems(2) e(1) by auto
    with Cons.IH [of acc "ea @ es'"] e 2 show ?thesis by (auto simp: Position_equals_eq)
  next
    case 3
    with Cons.IH [of "acc @ [r]" es0] Cons.prems show ?thesis by (auto simp: Position_equals_eq)
  qed
qed auto

lemma normalize_located:
  assumes "located s (te_replacements ed) es" and "fits sr_range 0 (int (length s)) es"
  obtains es' where "located s (te_replacements (TextEdit_normalize ed)) es'" and "fits sr_range 0 (int (length s)) es'"
    and "appl sr_range sr_newText 0 es' s = appl sr_range sr_newText 0 es s"
  using normalize_loop_located [of s "[]" "te_replacements ed" es] assms by (auto simp: TextEdit_normalize_def TextEdit_new_def)

lemma fits_member:
  "fits rg p n rs \<Longrightarrow> r \<in> set rs \<Longrightarrow> p \<le> start (rg r) \<and> start (rg r) \<le> endExclusive (rg r) \<and> endExclusive (rg r) \<le> n"
proof (induction rs arbitrary: p)
  case (Cons x rs)
  then show ?case using fits_le [of rg "endExclusive (rg x)" n rs] by (cases "r = x") fastforce+
qed simp

section \<open>Joining all replacements\<close>

fun joined_text :: "text16 \<Rightarrow> StringReplacement list \<Rightarrow> text16" where
  "joined_text s [] = []"
| "joined_text s [e] = sr_newText e"
| "joined_text s (e # f # es) =
     sr_newText e @ segment s (nat (endExclusive (sr_range e))) (nat (start (sr_range f))) @ joined_text s (f # es)"

lemma joined_appl:
  assumes "fits sr_range (start (sr_range e)) (int (length s)) (e # es @ es')" and "0 \<le> start (sr_range e)"
  shows "appl sr_range sr_newText (start (sr_range e)) (e # es @ es') (drop (nat (start (sr_range e))) s) =
    joined_text s (e # es) @ appl sr_range sr_newText (endExclusive (sr_range (last (e # es)))) es'
      (drop (nat (endExclusive (sr_range (last (e # es))))) s)"
  using assms
proof (induction es arbitrary: e)
  case Nil
  then show ?case by (simp flip: nat_add_distrib)
next
  case (Cons f es)
  let ?e = "endExclusive (sr_range e)" and ?f = "start (sr_range f)"
  have f: "start (sr_range e) \<le> ?e" "?e \<le> ?f" "fits sr_range ?f (int (length s)) (f # es @ es')" using Cons.prems by auto
  have n: "?f \<le> int (length s)" using fits_le [OF f(3)] .
  have "appl sr_range sr_newText ?e (f # es @ es') (drop (nat ?e) s) =
      segment s (nat ?e) (nat ?f) @ appl sr_range sr_newText ?f (f # es @ es') (drop (nat ?f) s)"
  proof -
    have "nat (?f - ?e) + nat ?e = nat ?f" using f(1,2) Cons.prems(2) by (simp flip: nat_add_distrib)
    moreover have "nat ?f - nat ?e = nat (?f - ?e)" using f(1,2) Cons.prems(2) by (simp add: nat_diff_distrib)
    ultimately show ?thesis using appl_split [OF f(3,2), of "drop (nat ?e) s" sr_newText] n f(1) Cons.prems(2)
      by (simp add: segment_def del: appl.simps)
  qed
  also have "\<dots> = segment s (nat ?e) (nat ?f) @ joined_text s (f # es) @
      appl sr_range sr_newText (endExclusive (sr_range (last (f # es)))) es' (drop (nat (endExclusive (sr_range (last (f # es))))) s)"
    using Cons.IH [OF f(3)] f(1,2) Cons.prems(2) by (simp del: appl.simps)
  finally have step: "appl sr_range sr_newText ?e (f # es @ es') (drop (nat ?e) s) = \<dots>" .
  have "nat (?e - start (sr_range e)) + nat (start (sr_range e)) = nat ?e" using f(1) Cons.prems(2) by (simp flip: nat_add_distrib)
  then have "appl sr_range sr_newText (start (sr_range e)) (e # (f # es) @ es') (drop (nat (start (sr_range e))) s) =
      sr_newText e @ appl sr_range sr_newText ?e (f # es @ es') (drop (nat ?e) s)" by simp
  then show ?case unfolding step by simp
qed

context abstract_text
begin

lemma join_loop_located:
  "located content rs es \<Longrightarrow> fits sr_range p (int (length content)) es \<Longrightarrow>
     join_loop A rs out = Inr (out @ joined_text content es)"
proof (induction rs arbitrary: es p out)
  case (Cons r rs)
  obtain e es' where e: "es = e # es'" "at_offsets content r e" "located content rs es'" using Cons.prems(1) by auto
  show ?case
  proof (cases rs)
    case (Cons r' rs')
    obtain f es'' where f: "es' = f # es''" "at_offsets content r' f" using e(3) Cons by auto
    note be = at_offsets_bounds [OF e(2)] and bf = at_offsets_bounds [OF f(2)]
    have le: "endExclusive (sr_range e) \<le> start (sr_range f)" and fit: "fits sr_range (endExclusive (sr_range e)) (int (length content)) es'"
      using Cons.prems(2) e(1) f(1) by auto
    have "at_getValueOfRange A (Range_fromPositions (range_end (tr_range r)) (range_start (tr_range r'))) =
        Inr (segment content (nat (endExclusive (sr_range e))) (nat (start (sr_range f))))"
      by (rule value_law) (use be bf le in \<open>simp_all add: Range_fromPositions_ends min_absorb1 max_absorb2 nat_mono nat_le_iff\<close>)
    then show ?thesis using Cons.IH [OF e(3) fit] Cons e(1) f(1) by (simp add: be(4))
  qed (use e in \<open>simp add: at_offsets_bounds(4)\<close>)
qed simp

lemma joinReplacements_located:
  assumes "located content rs es" and "fits sr_range p (int (length content)) es" and "rs \<noteq> []"
  obtains r e where "TextReplacement_joinReplacements rs A = Inr r" and "at_offsets content r e"
    and "sr_range e = mk_offset (start (sr_range (hd es))) (endExclusive (sr_range (last es)))" and "sr_newText e = joined_text content es"
proof -
  obtain r0 rs' e0 es' where hd: "rs = r0 # rs'" "es = e0 # es'" "at_offsets content r0 e0" using assms(1,3) by (cases rs) auto
  have last: "at_offsets content (last rs) (last es)"
    using assms(1,3) by (cases rs rule: rev_cases) auto
  note bh = at_offsets_bounds [OF hd(3)] and bl = at_offsets_bounds [OF last]
  have le: "start (sr_range (hd es)) \<le> endExclusive (sr_range (last es))"
    using fits_member [OF assms(2), of "hd es"] assms(2) hd(2) fits_snoc [of sr_range p "int (length content)" "butlast es" "last es"]
      fits_member [of sr_range p "start (sr_range (last es))" "butlast es" "hd es"]
    by (cases es') auto
  show thesis
  proof (cases rs')
    case Nil
    then have "es' = []" using assms(1) hd(1,2) by simp
    then show thesis
      using that [of r0 e0] hd Nil by (simp add: TextReplacement_joinReplacements_def)
  next
    case (Cons r1 rs'')
    let ?r = "TextReplacement_new (Range_fromPositions (range_start (tr_range (hd rs))) (range_end (tr_range (last rs)))) (joined_text content es)"
    let ?e = "\<lparr>sr_range = mk_offset (start (sr_range (hd es))) (endExclusive (sr_range (last es))), sr_newText = joined_text content es\<rparr>"
    have "TextReplacement_joinReplacements rs A = Inr ?r"
      using join_loop_located [OF assms(1,2), of "[]"] hd(1) Cons by (simp add: TextReplacement_joinReplacements_def del: join_loop.simps rbind_Inr_iff)
    moreover have "at_offsets content ?r ?e"
      by (rule at_offsetsI) (use bh bl le hd in \<open>simp_all add: TextReplacement_new_def Range_fromPositions_ends min_absorb1 max_absorb2 nat_mono nat_le_iff\<close>)
    ultimately show thesis by (rule that) simp_all
  qed
qed

end

lemmas join_string_located = string_text.joinReplacements_located

section \<open>Positions in the edited text\<close>

text \<open>Where two texts agree from two offsets on, their positions differ by a constant number of lines, and of columns on the first line.\<close>

lemma shift_position:
  assumes "segment s p (p + d) = segment s1 p' (p' + d)"
  shows "lineNumber (position_at s1 (p' + d)) = lineNumber (position_at s (p + d)) + (lineNumber (position_at s1 p') - lineNumber (position_at s p))"
    and "column (position_at s1 (p' + d)) = column (position_at s (p + d)) +
      (if lineNumber (position_at s (p + d)) = lineNumber (position_at s p) then column (position_at s1 p') - column (position_at s p) else 0)"
proof -
  define u where "u = unit_length (segment s p (p + d))"
  have "position_at s (p + d) = TextLength_addToPosition u (position_at s p)"
    "position_at s1 (p' + d) = TextLength_addToPosition u (position_at s1 p')"
    using position_at_add [of p "p + d" s] position_at_add [of p' "p' + d" s1] assms by (simp_all add: u_def segment_def)
  then show "lineNumber (position_at s1 (p' + d)) = lineNumber (position_at s (p + d)) + (lineNumber (position_at s1 p') - lineNumber (position_at s p))"
    and "column (position_at s1 (p' + d)) = column (position_at s (p + d)) +
      (if lineNumber (position_at s (p + d)) = lineNumber (position_at s p) then column (position_at s1 p') - column (position_at s p) else 0)"
    by (auto simp: TextLength_addToPosition_def)
qed

lemma createRange_eq: "TextLength_createRange a p = Range_fromPositions p (TextLength_addToPosition a p)"
  by (simp add: TextLength_createRange_def Range_fromPositions_def TextLength_addToPosition_def)

text \<open>
  The edited text behind a replacement: from offset \<open>p\<close> of the text and \<open>p'\<close> of the edited text, past the copied
  part and the new text of the next replacement.
\<close>

lemma edited_step:
  assumes "drop p' s1 = appl sr_range sr_newText (int p) (e # es) (drop p s)" and "p' \<le> length s1"
    and "fits sr_range (int p) (int (length s)) (e # es)" and "sr_range e = mk_offset (int k) (int l)"
  defines "k' \<equiv> p' + (k - p)"
  shows "segment s p k = segment s1 p' k'" and "segment s1 k' (k' + length (sr_newText e)) = sr_newText e"
    and "drop (k' + length (sr_newText e)) s1 = appl sr_range sr_newText (int l) es (drop l s)"
    and "k' + length (sr_newText e) \<le> length s1" and "p \<le> k" and "k \<le> l" and "l \<le> length s"
proof -
  have f: "p \<le> k" "k \<le> l" "fits sr_range (int l) (int (length s)) es" using assms(3,4) by auto
  show "p \<le> k" "k \<le> l" by (fact f)+
  show l: "l \<le> length s" using fits_le [OF f(3)] by simp
  have rest: "drop p' s1 = segment s p k @ sr_newText e @ appl sr_range sr_newText (int l) es (drop l s)"
    using assms(1,4) f(1,2) by (simp add: segment_def nat_diff_distrib)
  have len: "length (segment s p k) = k - p" using f l by (simp add: segment_def)
  show "segment s p k = segment s1 p' k'" using rest len by (simp add: segment_def [of s1] k'_def)
  have k': "drop k' s1 = drop (k - p) (drop p' s1)" by (simp add: k'_def add.commute)
  then have at: "drop k' s1 = sr_newText e @ appl sr_range sr_newText (int l) es (drop l s)" using rest len by simp
  then show "segment s1 k' (k' + length (sr_newText e)) = sr_newText e" by (simp add: segment_def)
  have "drop (k' + length (sr_newText e)) s1 = drop (length (sr_newText e)) (drop k' s1)" by (simp add: add.commute)
  then show "drop (k' + length (sr_newText e)) s1 = appl sr_range sr_newText (int l) es (drop l s)" using at by simp
  have "length (drop p' s1) = length s1 - p'" by simp
  moreover have "k - p + length (sr_newText e) \<le> length (drop p' s1)" using rest len by simp
  ultimately show "k' + length (sr_newText e) \<le> length s1" using assms(2) by (simp add: k'_def)
qed

lemma getRange_at:
  "k \<le> l \<Longrightarrow> l \<le> length t \<Longrightarrow> Transformer_getRange t (mk_offset (int k) (int l)) = Some (Range_fromPositions (position_at t k) (position_at t l))"
  by (simp add: Transformer_getRange_def getPosition_at)

lemma new_ranges_walk:
  assumes "located s rs es" and "fits sr_range (int p) (int (length s)) es" and "p' \<le> length s1"
    and "drop p' s1 = appl sr_range sr_newText (int p) es (drop p s)" and "\<forall>r \<in> set rs. no_pairs (tr_text r)"
    and "lineOffset = lineNumber (position_at s1 p') - lineNumber (position_at s p)"
    and "columnOffset = column (position_at s1 p') - column (position_at s p)"
    and "previousLine = lineNumber (position_at s p) \<or> columnOffset = 0"
  shows "\<exists>rgs. getNewRanges_loop StringEdit_base es (int p' - int p) = Inr rgs \<and>
    List.map Some (TextEdit_getNewRanges_loop rs previousLine lineOffset columnOffset) = List.map (Transformer_getRange s1) rgs"
  using assms
proof (induction rs arbitrary: es p p' previousLine lineOffset columnOffset)
  case (Cons r rs)
  obtain e es' where e: "es = e # es'" "at_offsets s r e" "located s rs es'" using Cons.prems(1) by auto
  then obtain k l where kl: "sr_range e = mk_offset (int k) (int l)" "range_start (tr_range r) = position_at s k"
    "range_end (tr_range r) = position_at s l" "sr_newText e = tr_text r" by (auto simp: at_offsets_def)
  note step = edited_step [OF Cons.prems(4) [unfolded e(1)] Cons.prems(3) Cons.prems(2) [unfolded e(1)] kl(1), unfolded kl(4)]
  let ?k' = "p' + (k - p)"
  let ?l' = "?k' + length (tr_text r)"
  have pk: "k = p + (k - p)" using step(5) by simp
  have seg: "segment s p (p + (k - p)) = segment s1 p' (p' + (k - p))" using step(1) pk by simp
  note shift = shift_position [OF seg, unfolded pk [symmetric]]
  have start: "Position_new (startLineNumber (tr_range r) + lineOffset)
      (startColumn (tr_range r) + (if startLineNumber (tr_range r) = previousLine then columnOffset else 0)) = position_at s1 ?k'"
  proof -
    have "startLineNumber (tr_range r) = lineNumber (position_at s k)" "startColumn (tr_range r) = column (position_at s k)"
      using arg_cong [OF kl(2), of lineNumber] arg_cong [OF kl(2), of column] by simp_all
    then show ?thesis using shift Cons.prems(6-8) by (auto simp: IPosition_eq_iff)
  qed
  have len: "TextLength_ofText (tr_text r) = unit_length (tr_text r)" using Cons.prems(5) by (simp add: ofText_units)
  have fin: "TextLength_addToPosition (unit_length (tr_text r)) (position_at s1 ?k') = position_at s1 ?l'"
    using position_at_add [of ?k' ?l' s1] step(2) by (simp add: segment_def)
  define rg where "rg = Range_fromPositions (position_at s1 ?k') (position_at s1 ?l')"
  have ends: "endLineNumber rg = lineNumber (position_at s1 ?l')" "endColumn rg = column (position_at s1 ?l')"
    "endLineNumber (tr_range r) = lineNumber (position_at s l)" "endColumn (tr_range r) = column (position_at s l)"
  proof -
    have "range_end rg = position_at s1 ?l'" using step(4) by (simp add: rg_def Range_fromPositions_ends max_absorb2)
    from arg_cong [OF this, of lineNumber] arg_cong [OF this, of column] show "endLineNumber rg = lineNumber (position_at s1 ?l')" "endColumn rg = column (position_at s1 ?l')" by simp_all
    from arg_cong [OF kl(3), of lineNumber] arg_cong [OF kl(3), of column] show "endLineNumber (tr_range r) = lineNumber (position_at s l)" "endColumn (tr_range r) = column (position_at s l)" by simp_all
  qed
  obtain rgs where rgs: "getNewRanges_loop StringEdit_base es' (int ?l' - int l) = Inr rgs"
    "List.map Some (TextEdit_getNewRanges_loop rs (endLineNumber (tr_range r)) (endLineNumber rg - endLineNumber (tr_range r))
        (endColumn rg - endColumn (tr_range r))) = List.map (Transformer_getRange s1) rgs"
    using Cons.IH [OF e(3) _ step(4,3), of "endLineNumber rg - endLineNumber (tr_range r)" "endColumn rg - endColumn (tr_range r)"
        "endLineNumber (tr_range r)"] Cons.prems(2,5) e(1) kl(1) ends by auto
  have one: "OffsetRange_ofStartAndLength (int k + (int p' - int p)) (int (length (tr_text r))) = Inr (mk_offset (int ?k') (int ?l'))"
    using step(5) by (simp add: OffsetRange_ofStartAndLength_def)
  have offset: "int p' - int p + (int (length (tr_text r)) - (int l - int k)) = int ?l' - int l"
    using step(5,6) by simp
  have "getNewRanges_loop StringEdit_base es (int p' - int p) = Inr (mk_offset (int ?k') (int ?l') # rgs)"
  proof -
    have "getNewRanges_loop StringEdit_base es' (int p' - int p + (int (length (tr_text r)) - (int l - int k))) = Inr rgs"
      unfolding offset by (rule rgs(1))
    then show ?thesis using one by (simp add: e(1) kl(1,4) BaseReplacement_getLengthDelta_def OffsetRange_length_def del: of_nat_add)
  qed
  moreover have "TextEdit_getNewRanges_loop (r # rs) previousLine lineOffset columnOffset =
      rg # TextEdit_getNewRanges_loop rs (endLineNumber (tr_range r)) (endLineNumber rg - endLineNumber (tr_range r)) (endColumn rg - endColumn (tr_range r))"
    unfolding TextEdit_getNewRanges_loop.simps Let_def start len createRange_eq fin rg_def ..
  moreover have "Transformer_getRange s1 (mk_offset (int ?k') (int ?l')) = Some rg"
    using getRange_at [of ?k' ?l' s1] step(4) by (simp add: rg_def)
  ultimately show ?case using rgs(2) by simp
qed simp

lemma new_ranges_located:
  assumes "located s (te_replacements ed) es" and "fits sr_range 0 (int (length s)) es"
    and "\<forall>r \<in> set (te_replacements ed). no_pairs (tr_text r)"
  obtains rgs where "getNewRanges_loop StringEdit_base es 0 = Inr rgs"
    and "List.map Some (TextEdit_getNewRanges ed) = List.map (Transformer_getRange (appl sr_range sr_newText 0 es s)) rgs"
  using new_ranges_walk [of s "te_replacements ed" es 0 0 "appl sr_range sr_newText 0 es s" 0 0 0] assms
  by (auto simp: TextEdit_getNewRanges_def)

section \<open>The inverse\<close>

text \<open>The inverse of a string edit replaces the new ranges by the original texts.\<close>

lemma inverseOnSlice_ranges:
  assumes "inverseOnSlice_loop StringReplacement_class f es d = Inr es'"
  shows "getNewRanges_loop StringEdit_base es d = Inr (List.map sr_range es') \<and>
    List.map sr_newText es' = List.map (\<lambda>e. f (start (sr_range e)) (endExclusive (sr_range e))) es"
  using assms
  by (induction es arbitrary: es' d)
    (auto simp: BaseReplacement_getLengthDelta_def StringReplacement_replace_def OffsetRange_length_def)

lemma valid_position_at: "k \<le> length t \<Longrightarrow> valid_position t (position_at t k) \<Longrightarrow> breakable t k"
proof -
  assume k: "k \<le> length t" and "valid_position t (position_at t k)"
  then obtain j where j: "breakable t j" "position_at t k = position_at t j" unfolding valid_position_iff by blast
  then have "j = k" using k position_at_less_iff [of k t j] position_at_less_iff [of j t k]
    by (metis breakable_le linorder_neqE_nat order_less_irrefl)
  then show "breakable t k" using j(1) by simp
qed

context abstract_text
begin

lemma value_at: "at_offsets content r e \<Longrightarrow>
    at_getValueOfRange A (tr_range r) = Inr (js_substring content (start (sr_range e)) (endExclusive (sr_range e)))"
  using value_law [of "nat (start (sr_range e))" "nat (endExclusive (sr_range e))" "tr_range r"] at_offsets_bounds [of content r e]
  by (simp add: nat_mono js_substring_in segment_def nat_diff_distrib')

lemma inverse_located:
  assumes "located content (te_replacements ed) es" and "fits sr_range 0 (int (length content)) es"
    and "\<forall>r \<in> set (te_replacements ed). no_pairs (tr_text r)"
    and "s1 = appl sr_range sr_newText 0 es content"
    and "\<forall>rg \<in> set (TextEdit_getNewRanges ed). valid_position s1 (range_start rg) \<and> valid_position s1 (range_end rg)"
  shows "\<exists>inv es'. TextEdit_inverse ed A = Inr inv \<and> located s1 (te_replacements inv) es' \<and>
    fits sr_range 0 (int (length s1)) es' \<and> appl sr_range sr_newText 0 es' s1 = content"
proof -
  obtain rgs where rgs: "getNewRanges_loop StringEdit_base es 0 = Inr rgs"
    "List.map Some (TextEdit_getNewRanges ed) = List.map (Transformer_getRange s1) rgs"
    by (rule new_ranges_located [OF assms(1-3)]) (simp add: assms(4))
  obtain es' where es': "inverseOnSlice_loop StringReplacement_class (\<lambda>s e. js_substring content s e) es 0 = Inr es'"
    "fits sr_range 0 (int (length s1)) es'" "appl sr_range sr_newText 0 es' s1 = content"
    using inverseOnSlice_loop_ok [of StringReplacement_class 0 content es 0] assms(2,4) by auto
  note inv = inverseOnSlice_ranges [OF es'(1)]
  have rg': "rgs = List.map sr_range es'" using inv rgs(1) by simp
  have lens: "length es = length (te_replacements ed)" "length es' = length es" "length (TextEdit_getNewRanges ed) = length es'"
    using assms(1) arg_cong [OF conjunct2 [OF inv], of length] arg_cong [OF rgs(2), of length] rg'
    by (auto simp: located_def dest: list_all2_lengthD)
  let ?f = "\<lambda>(r, e, rg). TextReplacement_new rg (js_substring content (start (sr_range e)) (endExclusive (sr_range e)))"
  let ?rs = "List.map ?f (zip (te_replacements ed) (zip es (TextEdit_getNewRanges ed)))"
  have "rmap (\<lambda>(e, rg). rbind (at_getValueOfRange A (tr_range e)) (\<lambda>v. Inr (TextReplacement_new rg v))) (zip rs gs) =
      Inr (List.map ?f (zip rs (zip es gs)))" if "located content rs es" for rs es gs
    using that
  proof (induction rs arbitrary: es gs)
    case (Cons r rs)
    then show ?case by (cases gs) (auto simp: value_at)
  qed simp
  from this [OF assms(1)] have "TextEdit_inverse ed A = Inr (TextEdit_new ?rs)" by (simp add: TextEdit_inverse_def)
  moreover have "located s1 ?rs es'" unfolding located_def
  proof (rule list_all2_all_nthI)
    fix i assume "i < length ?rs"
    then have i: "i < length es'" using lens by simp
    have mem: "es' ! i \<in> set es'" using i by simp
    define k l where "k = nat (start (sr_range (es' ! i)))" and "l = nat (endExclusive (sr_range (es' ! i)))"
    have kl: "sr_range (es' ! i) = mk_offset (int k) (int l)" "k \<le> l" "l \<le> length s1"
      using fits_member [OF es'(2) mem] by (simp_all add: k_def l_def nat_le_iff)
    have "Some (TextEdit_getNewRanges ed ! i) = Transformer_getRange s1 (sr_range (es' ! i))"
      using arg_cong [OF rgs(2), of "\<lambda>l. l ! i"] i lens rg' by simp
    then have rg: "TextEdit_getNewRanges ed ! i = Range_fromPositions (position_at s1 k) (position_at s1 l)"
      using getRange_at [OF kl(2,3)] kl(1) by simp
    have ends: "range_start (TextEdit_getNewRanges ed ! i) = position_at s1 k" "range_end (TextEdit_getNewRanges ed ! i) = position_at s1 l"
      unfolding rg using kl by (simp_all add: Range_fromPositions_ends min_absorb1 max_absorb2)
    have "valid_position s1 (range_start (TextEdit_getNewRanges ed ! i))" "valid_position s1 (range_end (TextEdit_getNewRanges ed ! i))"
      using assms(5) i lens by simp_all
    then have "breakable s1 k" "breakable s1 l"
      unfolding ends using kl by (auto intro: valid_position_at)
    moreover have "sr_newText (es' ! i) = js_substring content (start (sr_range (es ! i))) (endExclusive (sr_range (es ! i)))"
      using arg_cong [OF conjunct2 [OF inv], of "\<lambda>l. l ! i"] i lens by simp
    ultimately show "at_offsets s1 (?rs ! i) (es' ! i)"
      using kl ends i lens unfolding at_offsets_def by (intro exI [of _ k] exI [of _ l]) (simp add: TextReplacement_new_def)
  qed (simp add: lens)
  ultimately show ?thesis using es'(2,3) by (intro exI [of _ "TextEdit_new ?rs"] exI [of _ es']) (simp add: TextEdit_new_def)
qed

end

lemmas inverse_string_located = string_text.inverse_located

section \<open>Correctness\<close>

text \<open>C21: Within a text, \<open>apply\<close> does what the string edit given by \<open>getStringEdit\<close> does: the conversion succeeds, the
  string edit lies within the text, and applying it gives the text \<open>applyToString\<close> gives.
\<close>

lemma TextEdit_apply_refines:
  assumes "text_edit_within s ed"
  shows "\<exists>e. Transformer_getStringEdit s ed = Inr e \<and> string_edit_within e (length s) \<and>
    TextEdit_applyToString ed s = Inr (StringEdit_apply e s)"
proof -
  obtain es where es: "located s (te_replacements ed) es" "fits sr_range 0 (int (length s)) es"
    by (rule within_located [OF assms])
  then have within: "string_edit_within \<lparr>replacements = es\<rparr> (length s)" by (simp add: string_within)
  then show ?thesis
    using getStringEdit_located [OF es] apply_string_located [OF es] string_apply [OF within] assms
    by (simp add: TextEdit_applyToString_def text_edit_within_def)
qed

definition example_document :: text16 where
  "example_document = [97, 98, 13, 10, 99, 100, 10, 101]"

definition example_text_edit :: TextEdit where
  "example_text_edit = TextEdit_new [TextReplacement_new (Range_new 1 2 2 1) [120], TextReplacement_new (Range_new 2 1 2 2) [10, 121],
     TextReplacement_delete (Range_new 3 1 3 2)]"

lemma example_text_edit_within: "text_edit_within example_document example_text_edit"
  by code_simp

lemma TextEdit_apply_refines_witness:
  "\<exists>e. Transformer_getStringEdit example_document example_text_edit = Inr e \<and>
    TextEdit_applyToString example_text_edit example_document = Inr (StringEdit_apply e example_document)"
  using TextEdit_apply_refines [OF example_text_edit_within] by blast

text \<open>C24: \<open>normalize\<close> and \<open>toReplacement\<close> of a text edit keep its effect: the edit with touching replacements joined
  and the single replacement that covers all of them lie within the same text, and applying them gives the same
  result.
\<close>

lemma TextEdit_normalize_applies:
  assumes "text_edit_within s ed"
  shows "text_edit_within s (TextEdit_normalize ed) \<and> TextEdit_applyToString (TextEdit_normalize ed) s = TextEdit_applyToString ed s \<and>
    (te_replacements ed = [] \<or> (\<exists>r. TextEdit_toReplacement ed (StringText s) = Inr r \<and>
      text_edit_within s (TextReplacement_toEdit r) \<and> TextEdit_applyToString (TextReplacement_toEdit r) s = TextEdit_applyToString ed s))"
proof -
  have small: "int (length s) + 1 < max_safe_integer" using assms by (simp add: text_edit_within_def)
  obtain es where es: "located s (te_replacements ed) es" "fits sr_range 0 (int (length s)) es"
    by (rule within_located [OF assms])
  note apply_ed = apply_string_located [OF es small]
  have same: "text_edit_within s ed' \<and> TextEdit_applyToString ed' s = TextEdit_applyToString ed s"
    if "located s (te_replacements ed') es'" "fits sr_range 0 (int (length s)) es'"
      "appl sr_range sr_newText 0 es' s = appl sr_range sr_newText 0 es s" for ed' es'
    using located_within [OF that(1,2) small] apply_string_located [OF that(1,2) small] apply_ed that(3)
    by (simp add: TextEdit_applyToString_def)
  obtain es' where "located s (te_replacements (TextEdit_normalize ed)) es'" "fits sr_range 0 (int (length s)) es'"
    "appl sr_range sr_newText 0 es' s = appl sr_range sr_newText 0 es s" by (rule normalize_located [OF es])
  note norm = same [OF this]
  show ?thesis
  proof (cases "te_replacements ed = []")
    case False
    obtain r e where r: "TextReplacement_joinReplacements (te_replacements ed) (StringText s) = Inr r" "at_offsets s r e"
      "sr_range e = mk_offset (start (sr_range (hd es))) (endExclusive (sr_range (last es)))" "sr_newText e = joined_text s es"
      by (rule join_string_located [OF es False])
    obtain e0 es0 where e0: "es = e0 # es0" using es(1) False by (cases es) (auto simp: located_def)
    note b = at_offsets_bounds [OF r(2)]
    have f: "fits sr_range (start (sr_range e0)) (int (length s)) es" "0 \<le> start (sr_range e0)" using es(2) e0 by auto
    have "appl sr_range sr_newText 0 es s = take (nat (start (sr_range e0))) s @ appl sr_range sr_newText (start (sr_range e0)) es (drop (nat (start (sr_range e0))) s)"
      using appl_split [OF f] fits_le [OF f(1)] by simp
    also have "appl sr_range sr_newText (start (sr_range e0)) es (drop (nat (start (sr_range e0))) s) =
        sr_newText e @ drop (nat (endExclusive (sr_range e))) s"
      using joined_appl [of e0 s es0 "[]"] f r(3,4) e0 by (simp del: appl.simps(2))
    finally have "appl sr_range sr_newText 0 [e] s = appl sr_range sr_newText 0 es s" using r(3) e0 by simp
    then show ?thesis
      using norm same [of "TextReplacement_toEdit r" "[e]"] r(1,2) b(1-3) by (simp add: TextEdit_toReplacement_def TextReplacement_toEdit_def TextEdit_new_def)
  qed (use norm in simp)
qed

lemma TextEdit_normalize_applies_witness:
  "TextEdit_applyToString (TextEdit_normalize example_text_edit) example_document = TextEdit_applyToString example_text_edit example_document \<and>
   length (te_replacements (TextEdit_normalize example_text_edit)) = 2"
proof
  show "length (te_replacements (TextEdit_normalize example_text_edit)) = 2" by code_simp
qed (use TextEdit_normalize_applies [OF example_text_edit_within] in blast)

text \<open>C22: \<open>getNewRanges\<close> of a text edit whose new texts have no surrogate pairs gives the lines and columns, in the
  edited text, of the ranges that the string edit computes as offsets.
\<close>

lemma TextEdit_getNewRanges_refines:
  assumes "text_edit_within s ed" and "\<forall>r \<in> set (te_replacements ed). no_pairs (tr_text r)"
  shows "\<exists>e rgs s1. Transformer_getStringEdit s ed = Inr e \<and> BaseEdit_getNewRanges StringEdit_base e = Inr rgs \<and>
    TextEdit_applyToString ed s = Inr s1 \<and> List.map Some (TextEdit_getNewRanges ed) = List.map (Transformer_getRange s1) rgs"
proof -
  obtain es where es: "located s (te_replacements ed) es" "fits sr_range 0 (int (length s)) es"
    by (rule within_located [OF assms(1)])
  obtain rgs where rgs: "getNewRanges_loop StringEdit_base es 0 = Inr rgs"
    "List.map Some (TextEdit_getNewRanges ed) = List.map (Transformer_getRange (appl sr_range sr_newText 0 es s)) rgs"
    by (rule new_ranges_located [OF es assms(2)])
  then show ?thesis
    using getStringEdit_located [OF es] apply_string_located [OF es] assms(1)
    by (simp add: TextEdit_applyToString_def BaseEdit_getNewRanges_def text_edit_within_def)
qed

lemma TextEdit_getNewRanges_refines_witness:
  "(\<exists>e rgs s1. Transformer_getStringEdit example_document example_text_edit = Inr e \<and> BaseEdit_getNewRanges StringEdit_base e = Inr rgs \<and>
    TextEdit_applyToString example_text_edit example_document = Inr s1 \<and>
    List.map Some (TextEdit_getNewRanges example_text_edit) = List.map (Transformer_getRange s1) rgs) \<and>
   TextEdit_getNewRanges example_text_edit = [Range_new 1 2 1 3, Range_new 1 3 2 2, Range_new 3 1 3 1]"
proof
  have "\<forall>r \<in> set (te_replacements example_text_edit). no_pairs (tr_text r)" by code_simp
  from TextEdit_getNewRanges_refines [OF example_text_edit_within this]
  show "\<exists>e rgs s1. Transformer_getStringEdit example_document example_text_edit = Inr e \<and> BaseEdit_getNewRanges StringEdit_base e = Inr rgs \<and>
    TextEdit_applyToString example_text_edit example_document = Inr s1 \<and>
    List.map Some (TextEdit_getNewRanges example_text_edit) = List.map (Transformer_getRange s1) rgs" .
  show "TextEdit_getNewRanges example_text_edit = [Range_new 1 2 1 3, Range_new 1 3 2 2, Range_new 3 1 3 1]" by code_simp
qed

text \<open>C23: \<open>inverse\<close> of a text edit reverts it: applied to the edited text it gives the original text back, provided the
  new texts have no surrogate pairs and the new ranges neither start nor end inside a line break of the edited text (a
  range starts inside one when a line feed is inserted behind a carriage return; the inverse then removes both, lemma
  \<open>inverse_after_return\<close>).
\<close>

lemma TextEdit_inverse_reverts:
  assumes "text_edit_within s ed" and "\<forall>r \<in> set (te_replacements ed). no_pairs (tr_text r)"
    and "TextEdit_applyToString ed s = Inr s1" and "int (length s1) + 1 < max_safe_integer"
    and "\<forall>rg \<in> set (TextEdit_getNewRanges ed). valid_position s1 (range_start rg) \<and> valid_position s1 (range_end rg)"
  shows "\<exists>inv. TextEdit_inverse ed (StringText s) = Inr inv \<and> text_edit_within s1 inv \<and> TextEdit_applyToString inv s1 = Inr s"
proof -
  obtain es where es: "located s (te_replacements ed) es" "fits sr_range 0 (int (length s)) es"
    by (rule within_located [OF assms(1)])
  have s1: "s1 = appl sr_range sr_newText 0 es s"
    using apply_string_located [OF es] assms(1,3) by (simp add: TextEdit_applyToString_def text_edit_within_def)
  obtain inv es' where inv: "TextEdit_inverse ed (StringText s) = Inr inv" "located s1 (te_replacements inv) es'"
    "fits sr_range 0 (int (length s1)) es'" "appl sr_range sr_newText 0 es' s1 = s"
    using inverse_string_located [OF es assms(2) s1 assms(5)] by blast
  then show ?thesis
    using located_within [OF inv(2,3) assms(4)] apply_string_located [OF inv(2,3) assms(4)] by (simp add: TextEdit_applyToString_def)
qed

lemma TextEdit_inverse_reverts_witness:
  "\<exists>inv. TextEdit_inverse example_text_edit (StringText example_document) = Inr inv \<and>
    TextEdit_applyToString inv [97, 120, 10, 121, 100, 10] = Inr example_document"
proof -
  have "\<forall>r \<in> set (te_replacements example_text_edit). no_pairs (tr_text r)"
    "TextEdit_applyToString example_text_edit example_document = Inr [97, 120, 10, 121, 100, 10]"
    "int (length [97, 120, 10, 121, 100, 10 :: 16 word]) + 1 < max_safe_integer"
    "\<forall>rg \<in> set (TextEdit_getNewRanges example_text_edit).
       valid_position [97, 120, 10, 121, 100, 10] (range_start rg) \<and> valid_position [97, 120, 10, 121, 100, 10] (range_end rg)"
    by code_simp+
  from TextEdit_inverse_reverts [OF example_text_edit_within this] show ?thesis by blast
qed

section \<open>Divergences\<close>

text \<open>A line feed inserted between the carriage return of \<open>a CR b\<close> and \<open>b\<close>: the inverse does not give the text back.\<close>

lemma inverse_after_return:
  "TextEdit_applyToString (TextEdit_insert (Position_new 1 3) [10]) [97, 13, 98] = Inr [97, 13, 10, 98]"
  "rbind (TextEdit_inverse (TextEdit_insert (Position_new 1 3) [10]) (StringText [97, 13, 98])) (\<lambda>inv. TextEdit_applyToString inv [97, 13, 10, 98]) =
     Inr [97, 98]"
  by code_simp+

text \<open>
  \<open>mapPosition\<close> subtracts the whole end column of a replaced range that ends on a later line, and adds the column of
  the new text to a position behind a line break.  Deleting from (1, 5) to (2, 3) moves the position (2, 4) to (1, 6)
  of the edited text, and inserting a line break at (1, 5) moves (1, 6) to (2, 2).
\<close>

definition two_lines :: text16 where
  "two_lines = [97, 98, 99, 100, 101, 10, 102, 103, 104, 105]"

lemma mapPosition_deleted_break:
  "TextEdit_mapPosition (TextEdit_delete (Range_new 1 5 2 3)) (Position_new 2 4) = Inr (MappedPosition (Position_new 1 2))"
  "TextEdit_applyToString (TextEdit_delete (Range_new 1 5 2 3)) two_lines = Inr [97, 98, 99, 100, 104, 105]"
  "Transformer_getPosition two_lines 9 = Some (Position_new 2 4)"
  "Transformer_getPosition [97, 98, 99, 100, 104, 105] 5 = Some (Position_new 1 6)"
  by code_simp+

lemma mapPosition_inserted_break:
  "TextEdit_mapPosition (TextEdit_insert (Position_new 1 5) [10]) (Position_new 1 6) = Inr (MappedPosition (Position_new 2 6))"
  "TextEdit_applyToString (TextEdit_insert (Position_new 1 5) [10]) two_lines = Inr [97, 98, 99, 100, 10, 101, 10, 102, 103, 104, 105]"
  "Transformer_getPosition two_lines 5 = Some (Position_new 1 6)"
  "Transformer_getPosition [97, 98, 99, 100, 10, 101, 10, 102, 103, 104, 105] 6 = Some (Position_new 2 2)"
  by code_simp+

text \<open>
  \<open>ofText\<close> counts code points, where columns count code units: the new range of an inserted surrogate pair is one
  column short, and the inverse leaves its second unit.
\<close>

lemma ofText_surrogates:
  "TextEdit_getNewRanges (TextEdit_insert (Position_new 1 1) [0xD83D, 0xDE00]) = [Range_new 1 1 1 2]"
  "TextEdit_applyToString (TextEdit_insert (Position_new 1 1) [0xD83D, 0xDE00]) [97] = Inr [0xD83D, 0xDE00, 97]"
  "rbind (TextEdit_inverse (TextEdit_insert (Position_new 1 1) [0xD83D, 0xDE00]) (StringText [97]))
     (\<lambda>e. TextEdit_applyToString e [0xD83D, 0xDE00, 97]) = Inr [0xDE00, 97]"
  by code_simp+

end
