(* ===== verification/Text_Compose.thy ===== *)
theory Text_Compose
  imports Text_Edit_Laws
begin

text \<open>
  \<open>TextEdit.compose\<close> of \<open>textEdit.ts\<close>, which a comment there calls written by a machine, well tested and not
  understood.  It walks over the text between the two edits; the head is the part of that text the walk is
  in: a gap between two replacements of the first edit (no text), the new text of a replacement, or the infinite
  rest.  The pairs of local variables for a line and a column are a position here, those for the length of the
  head a \<open>TextLength\<close>; \<open>edit1Idx\<close> is the list of the replacements from that index on.
\<close>

section \<open>The walk\<close>

record compose_state =
  todo1 :: "TextReplacement list"
  lastEdit1EndS0 :: IPosition
  headSrcRangeStart :: IPosition
  headSrcRangeEnd :: IPosition
  headText :: "text16 option"
  headLength :: TextLength
  headHasValue :: bool
  headIsInfinite :: bool
  currentPosInS1 :: IPosition
  resultReplacements :: "TextReplacement list"

definition compose_start :: "TextReplacement list \<Rightarrow> compose_state" where
  "compose_start edits1 = \<lparr>todo1 = edits1, lastEdit1EndS0 = Position_new 1 1,
     headSrcRangeStart = Position_new 0 0, headSrcRangeEnd = Position_new 0 0, headText = None,
     headLength = TextLength_new 0 0, headHasValue = False, headIsInfinite = False,
     currentPosInS1 = Position_new 1 1, resultReplacements = []\<rparr>"

text \<open>The loop over the new text in \<open>ensureHead\<close> counts code units.\<close>

fun head_length_loop :: "text16 \<Rightarrow> int \<Rightarrow> int \<Rightarrow> TextLength" where
  "head_length_loop [] line col = TextLength_new line col"
| "head_length_loop (c # cs) line col =
     (if c = 10 then head_length_loop cs (line + 1) 0 else head_length_loop cs line (col + 1))"

text \<open>The distance from one position to a later one, and the position at a distance, as the code inlines them.\<close>

definition compose_distance :: "IPosition \<Rightarrow> IPosition \<Rightarrow> TextLength" where
  "compose_distance p q =
     (if lineNumber p = lineNumber q then TextLength_new 0 (column q - column p)
      else TextLength_new (lineNumber q - lineNumber p) (column q - 1))"

definition compose_advance :: "IPosition \<Rightarrow> TextLength \<Rightarrow> IPosition" where
  "compose_advance p d =
     (if lineCount d = 0 then Position_new (lineNumber p) (column p + columnCount d)
      else Position_new (lineNumber p + lineCount d) (columnCount d + 1))"

definition compose_before :: "IPosition \<Rightarrow> IPosition \<Rightarrow> bool" where
  "compose_before p q =
     (if lineNumber p < lineNumber q then True
      else if lineNumber p = lineNumber q then column p < column q else False)"

definition compose_remaining :: "TextLength \<Rightarrow> TextLength \<Rightarrow> TextLength" where
  "compose_remaining splitLen len =
     (if lineCount splitLen = lineCount len then TextLength_new 0 (columnCount len - columnCount splitLen)
      else TextLength_new (lineCount len - lineCount splitLen) (columnCount len))"

definition ensureHead :: "compose_state \<Rightarrow> compose_state" where
  "ensureHead st =
     (if headHasValue st then st
      else case todo1 st of
        nextEdit # rest \<Rightarrow>
          (let nextEditStart = Range_getStartPosition (tr_range nextEdit);
               nextEditEnd = Range_getEndPosition (tr_range nextEdit)
           in if lastEdit1EndS0 st \<noteq> nextEditStart
              then st\<lparr>headSrcRangeStart := lastEdit1EndS0 st, headSrcRangeEnd := nextEditStart, headText := None,
                     headLength := compose_distance (lastEdit1EndS0 st) nextEditStart, headHasValue := True,
                     lastEdit1EndS0 := nextEditStart\<rparr>
              else st\<lparr>headSrcRangeStart := nextEditStart, headSrcRangeEnd := nextEditEnd,
                     headText := Some (tr_text nextEdit), headLength := head_length_loop (tr_text nextEdit) 0 0,
                     headHasValue := True, lastEdit1EndS0 := nextEditEnd, todo1 := rest\<rparr>)
      | [] \<Rightarrow> st\<lparr>headIsInfinite := True, headSrcRangeStart := lastEdit1EndS0 st, headHasValue := True\<rparr>)"

text \<open>\<open>text.indexOf('\n', offset)\<close>.\<close>

fun indexOf_newline :: "text16 \<Rightarrow> nat \<Rightarrow> nat option" where
  "indexOf_newline [] i = None"
| "indexOf_newline (c # cs) i = (if c = 10 then Some i else indexOf_newline cs (i + 1))"

function splitText_loop :: "text16 \<Rightarrow> int \<Rightarrow> int \<Rightarrow> nat \<Rightarrow> nat result" where
  "splitText_loop t lenLine line offset =
     (if line < lenLine then
        (case indexOf_newline (drop offset t) offset of
           None \<Rightarrow> Inl BugIndicatingError
         | Some idx \<Rightarrow> splitText_loop t lenLine (line + 1) (idx + 1))
      else Inr offset)"
  by pat_completeness auto
termination by (relation "measure (\<lambda>(t, lenLine, line, offset). nat (lenLine - line))") auto

declare splitText_loop.simps [simp del]

definition splitText :: "text16 \<Rightarrow> TextLength \<Rightarrow> (text16 \<times> text16) result" where
  "splitText t len =
     (if lineCount len = 0 \<and> columnCount len = 0 then Inr ([], t)
      else rbind (splitText_loop t (lineCount len) 0 0) (\<lambda>offset.
             Inr (js_substring t 0 (int offset + columnCount len), js_substring_from t (int offset + columnCount len))))"

definition head_replacement :: "compose_state \<Rightarrow> text16 \<Rightarrow> TextReplacement" where
  "head_replacement st t =
     TextReplacement_new (Range_new (lineNumber (headSrcRangeStart st)) (column (headSrcRangeStart st))
       (lineNumber (headSrcRangeEnd st)) (column (headSrcRangeEnd st))) t"

text \<open>Splitting the head at a position inside it, after its first part has been dealt with.\<close>

definition split_gap :: "IPosition \<Rightarrow> compose_state \<Rightarrow> compose_state" where
  "split_gap target st =
     (let splitLen = compose_distance (currentPosInS1 st) target
      in st\<lparr>headSrcRangeStart := compose_advance (headSrcRangeStart st) splitLen,
            headLength := compose_remaining splitLen (headLength st), currentPosInS1 := target\<rparr>)"

definition split_new_text :: "IPosition \<Rightarrow> text16 \<Rightarrow> compose_state \<Rightarrow> compose_state" where
  "split_new_text target t2 st =
     (let splitLen = compose_distance (currentPosInS1 st) target
      in st\<lparr>headText := Some t2, headLength := compose_remaining splitLen (headLength st),
            headSrcRangeStart := headSrcRangeEnd st, currentPosInS1 := target\<rparr>)"

text \<open>In the infinite head the source moves with the target.\<close>

definition move_infinite :: "IPosition \<Rightarrow> compose_state \<Rightarrow> compose_state" where
  "move_infinite target st =
     st\<lparr>currentPosInS1 := target,
        headSrcRangeStart := compose_advance (headSrcRangeStart st) (compose_distance (currentPosInS1 st) target)\<rparr>"

definition head_end :: "compose_state \<Rightarrow> IPosition" where
  "head_end st = compose_advance (currentPosInS1 st) (headLength st)"

text \<open>What an iteration of one of the loops makes smaller.\<close>

definition compose_measure :: "compose_state \<Rightarrow> nat" where
  "compose_measure st = 4 * length (todo1 st) +
     (case todo1 st of [] \<Rightarrow> 0 | e # _ \<Rightarrow> if lastEdit1EndS0 st \<noteq> Range_getStartPosition (tr_range e) then 2 else 0) +
     (if headHasValue st then 1 else 0)"

lemma ensureHead_measure:
  assumes "\<not> headIsInfinite (ensureHead st)" and "todo1 st' = todo1 (ensureHead st)"
    and "lastEdit1EndS0 st' = lastEdit1EndS0 (ensureHead st)" and "\<not> headHasValue st'"
  shows "compose_measure st' < compose_measure st"
  using assms
  by (auto simp: ensureHead_def compose_measure_def Let_def split: list.splits if_splits)

text \<open>The first loop: up to the start of the replacement of the second edit.\<close>

definition pass_head :: "compose_state \<Rightarrow> compose_state" where
  "pass_head st =
     st\<lparr>resultReplacements := resultReplacements st @
          (case headText st of Some t \<Rightarrow> [head_replacement st t] | None \<Rightarrow> []),
        currentPosInS1 := head_end st, headHasValue := False\<rparr>"

function compose_seek :: "IPosition \<Rightarrow> compose_state \<Rightarrow> compose_state result" where
  "compose_seek target st0 =
     (if currentPosInS1 st0 = target then Inr st0
      else
        let st = ensureHead st0
        in if headIsInfinite st then Inr (move_infinite target st)
           else if compose_before target (head_end st) then
             (case headText st of
                Some t \<Rightarrow>
                  rbind (splitText t (compose_distance (currentPosInS1 st) target)) (\<lambda>(t1, t2).
                    Inr (split_new_text target t2
                      (st\<lparr>resultReplacements := resultReplacements st @ [head_replacement st t1]\<rparr>)))
              | None \<Rightarrow> Inr (split_gap target st))
           else compose_seek target (pass_head st))"
  by pat_completeness auto
termination
  by (relation "measure (\<lambda>(target, st). compose_measure st)") (auto simp: pass_head_def intro: ensureHead_measure)

declare compose_seek.simps [simp del]

text \<open>The second loop: up to its end, with the source range consumed so far.\<close>

type_synonym consumed = "(IPosition \<times> IPosition) option"

definition consume_to :: "IPosition \<Rightarrow> compose_state \<Rightarrow> consumed \<Rightarrow> consumed" where
  "consume_to e st c = Some (case c of None \<Rightarrow> headSrcRangeStart st | Some (s, _) \<Rightarrow> s, e)"

function compose_consume :: "IPosition \<Rightarrow> compose_state \<Rightarrow> consumed \<Rightarrow> (compose_state \<times> consumed) result" where
  "compose_consume target st0 c =
     (if currentPosInS1 st0 = target then Inr (st0, c)
      else
        let st = ensureHead st0
        in if headIsInfinite st then
             let st' = move_infinite target st in Inr (st', consume_to (headSrcRangeStart st') st c)
           else if compose_before target (head_end st) then
             (case headText st of
                Some t \<Rightarrow>
                  rbind (splitText t (compose_distance (currentPosInS1 st) target)) (\<lambda>(t1, t2).
                    Inr (split_new_text target t2 st, consume_to (headSrcRangeEnd st) st c))
              | None \<Rightarrow> let st' = split_gap target st in Inr (st', consume_to (headSrcRangeStart st') st c))
           else compose_consume target (st\<lparr>currentPosInS1 := head_end st, headHasValue := False\<rparr>)
                  (consume_to (headSrcRangeEnd st) st c))"
  by pat_completeness auto
termination
  by (relation "measure (\<lambda>(target, st, c). compose_measure st)") (auto intro: ensureHead_measure)

declare compose_consume.simps [simp del]

definition compose_push :: "IPosition \<Rightarrow> IPosition \<Rightarrow> text16 \<Rightarrow> compose_state \<Rightarrow> compose_state" where
  "compose_push s e t st =
     st\<lparr>resultReplacements := resultReplacements st @
        [TextReplacement_new (Range_new (lineNumber s) (column s) (lineNumber e) (column e)) t]\<rparr>"

text \<open>The body of the loop over the second edit.\<close>

definition compose_replacement :: "TextReplacement \<Rightarrow> compose_state \<Rightarrow> compose_state result" where
  "compose_replacement r2 st =
     rbind (compose_seek (Range_getStartPosition (tr_range r2)) st) (\<lambda>st.
     rbind (compose_consume (Range_getEndPosition (tr_range r2)) st None) (\<lambda>(st, c).
     Inr (case c of
            Some (s, e) \<Rightarrow> compose_push s e (tr_text r2) st
          | None \<Rightarrow> let st = ensureHead st in compose_push (headSrcRangeStart st) (headSrcRangeStart st) (tr_text r2) st)))"

text \<open>The last loop: the remaining replacements of the first edit.\<close>

function compose_flush :: "compose_state \<Rightarrow> compose_state" where
  "compose_flush st0 =
     (let st = ensureHead st0
      in if headIsInfinite st then st
         else compose_flush (st\<lparr>resultReplacements := resultReplacements st @
                (case headText st of Some t \<Rightarrow> [head_replacement st t] | None \<Rightarrow> []), headHasValue := False\<rparr>))"
  by pat_completeness auto
termination by (relation "measure compose_measure") (auto intro: ensureHead_measure)

declare compose_flush.simps [simp del]

definition TextEdit_compose :: "TextEdit \<Rightarrow> TextEdit \<Rightarrow> TextEdit result" where
  "TextEdit_compose a b =
     (let edits1 = TextEdit_normalize a; edits2 = TextEdit_normalize b
      in if te_replacements edits1 = [] then Inr edits2
         else if te_replacements edits2 = [] then Inr edits1
         else rbind (rfold compose_replacement (te_replacements edits2) (compose_start (te_replacements edits1))) (\<lambda>st.
                Inr (TextEdit_normalize (TextEdit_new (resultReplacements (compose_flush st))))))"

section \<open>The inlined arithmetic\<close>

lemma compose_distance_eq: "compose_distance p q = TextLength_betweenPositions p q"
  by (simp add: compose_distance_def TextLength_betweenPositions_def)

lemma compose_advance_eq: "compose_advance p d = TextLength_addToPosition d p"
  by (simp add: compose_advance_def TextLength_addToPosition_def)

lemma compose_before_less: "compose_before p q \<longleftrightarrow> p < q"
  by (auto simp: compose_before_def IPosition_less_iff)

lemma head_length_eq: "head_length_loop t l c = ofText_loop (List.map (\<lambda>c. [c]) t) l c"
  by (induction t arbitrary: l c) auto

lemma head_length_unit: "head_length_loop t 0 0 = unit_length t"
  by (simp add: head_length_eq unit_length_def)

lemma compose_remaining_add:
  "length_wf d \<Longrightarrow> compose_remaining a (TextLength_add a d) = d"
  by (auto simp: compose_remaining_def TextLength_add_def length_wf_def length_eq_iff)

lemma remaining_units: "m \<le> length t \<Longrightarrow> compose_remaining (unit_length (take m t)) (unit_length t) = unit_length (drop m t)"
  using unit_length_simps(2) [of "take m t" "drop m t"] by (simp add: compose_remaining_add)

text \<open>\<open>splitText\<close> cuts the text after the given length.\<close>

lemma indexOf_newline_eq: "indexOf_newline t i = (case newlines t of [] \<Rightarrow> None | n # _ \<Rightarrow> Some (i + n))"
proof (induction t arbitrary: i)
  case (Cons c t)
  have "newlines (c # t) = newlines [c] @ List.map (\<lambda>i. i + 1) (newlines t)"
    using newlines_append [of "[c]" t] by simp
  then show ?case using Cons by (auto simp: newlines_single split: list.splits)
qed (simp add: newlines_def)

lemma newlines_drop: "newlines (drop (newlines t ! n + 1) t) = List.map (\<lambda>i. i - (newlines t ! n + 1)) (drop (n + 1) (newlines t))"
  if "n < length (newlines t)"
proof -
  let ?o = "newlines t ! n + 1"
  have o: "?o \<le> length t" using newline_at [OF that] by simp
  have split: "newlines t = newlines (take ?o t) @ List.map (\<lambda>i. i + ?o) (newlines (drop ?o t))"
    using newlines_append [of "take ?o t" "drop ?o t"] o by (simp add: min_absorb2)
  have "take ?o t = take (newlines t ! n) t @ [10]"
    using newline_at [OF that] by (simp add: take_Suc_conv_app_nth)
  then have "length (newlines (take ?o t)) = n + 1"
    using line_of_offset(1) [of "Suc n" t ?o] that line_bounds [of "Suc n" t] by (simp add: line_from_Suc)
  then have "drop (n + 1) (newlines t) = List.map (\<lambda>i. i + ?o) (newlines (drop ?o t))"
    using split by (metis append_eq_conv_conj)
  then show ?thesis by (simp add: comp_def)
qed

lemma splitText_loop_eq:
  assumes "n \<le> length (newlines t)" and "i \<le> n"
  shows "splitText_loop t (int n) (int i) (nat (line_from t i)) = Inr (nat (line_from t n))"
  using assms(2)
proof (induction "n - i" arbitrary: i)
  case 0
  then show ?case by (simp add: splitText_loop.simps [of t "int i" "int i"])
next
  case (Suc d)
  then have i: "i < n" by simp
  have next_break: "indexOf_newline (drop (nat (line_from t i)) t) (nat (line_from t i)) = Some (newlines t ! i)"
  proof (cases i)
    case 0
    then show ?thesis using i assms(1) by (cases "newlines t") (simp_all add: line_from_0 indexOf_newline_eq)
  next
    case (Suc m)
    then have m: "m < length (newlines t)" "Suc m < length (newlines t)" using i assms(1) by simp_all
    have less: "newlines t ! m < newlines t ! Suc m" using newlines_less_iff [of m t "Suc m"] m by simp
    have "drop (m + 1) (newlines t) = newlines t ! Suc m # drop (Suc (Suc m)) (newlines t)"
      using m(2) by (simp add: Cons_nth_drop_Suc)
    then show ?thesis using newlines_drop [OF m(1)] less line_from_Suc [OF m(1)] Suc
      by (simp add: indexOf_newline_eq nat_add_distrib)
  qed
  have "splitText_loop t (int n) (int (Suc i)) (nat (line_from t (Suc i))) = Inr (nat (line_from t n))"
    using Suc i by (intro Suc(1)) simp_all
  moreover have "nat (line_from t (Suc i)) = newlines t ! i + 1" using i assms(1) line_from_Suc [of i t] by simp
  ultimately show ?case
    using i next_break by (simp add: splitText_loop.simps [of t "int n" "int i"] add.commute)
qed

lemma splitText_units:
  assumes "m \<le> length t" shows "splitText t (unit_length (take m t)) = Inr (take m t, drop m t)"
proof -
  let ?n = "length (newlines (take m t))"
  have n: "?n \<le> length (newlines t)" using starts_at(1) [OF assms] by simp
  have len: "lineCount (unit_length (take m t)) = int ?n" "columnCount (unit_length (take m t)) = int m - line_from t ?n"
    using starts_length [of "take m t"] starts_at(2) [OF assms] assms by (simp_all add: starts_eq del: last.simps)
  have "0 \<le> line_from t ?n" using line_bounds [OF n] by simp
  then have "int (nat (line_from t ?n)) + columnCount (unit_length (take m t)) = int m" using len by simp
  moreover have "splitText_loop t (lineCount (unit_length (take m t))) 0 0 = Inr (nat (line_from t ?n))"
    using splitText_loop_eq [OF n, of 0] by (simp add: len line_from_0)
  moreover have "m = 0" if "lineCount (unit_length (take m t)) = 0" "columnCount (unit_length (take m t)) = 0"
  proof -
    have "unit_length (take m t) = TextLength_zero" using that by (simp add: TextLength_zero_def length_eq_iff)
    then have "take m t = []" by (simp only: unit_length_zero)
    then show ?thesis using assms by auto
  qed
  ultimately show ?thesis
    using assms by (auto simp: splitText_def js_substring_in js_substring_from_in)
qed

section \<open>What the state means\<close>

text \<open>The text of the head, and the rest of the text between the edits behind it.\<close>

definition head_content :: "text16 \<Rightarrow> compose_state \<Rightarrow> nat \<Rightarrow> nat \<Rightarrow> text16" where
  "head_content s0 st q p = (case headText st of Some t \<Rightarrow> t | None \<Rightarrow> segment s0 q p)"

text \<open>
  The walk is at offset \<open>j\<close> of the text \<open>s1\<close> between the edits and at offset \<open>q\<close> of the original text \<open>s0\<close>: what
  remains of \<open>s1\<close> is the head and what the replacements still to come make of the rest of \<open>s0\<close>.
\<close>

definition walk :: "text16 \<Rightarrow> text16 \<Rightarrow> compose_state \<Rightarrow> nat \<Rightarrow> nat \<Rightarrow> bool" where
  "walk s0 s1 st j q \<longleftrightarrow> j \<le> length s1 \<and> breakable s0 q \<and>
     (\<exists>p es. located s0 (todo1 st) es \<and> fits sr_range (int p) (int (length s0)) es \<and> breakable s0 p \<and>
        lastEdit1EndS0 st = position_at s0 p \<and>
        (if \<not> headHasValue st
         then \<not> headIsInfinite st \<and> q = p \<and> drop j s1 = appl sr_range sr_newText (int p) es (drop p s0)
         else headSrcRangeStart st = position_at s0 q \<and>
           (if headIsInfinite st then todo1 st = [] \<and> drop j s1 = drop q s0
            else q \<le> p \<and> headSrcRangeEnd st = position_at s0 p \<and> headLength st = unit_length (head_content s0 st q p) \<and>
              drop j s1 = head_content s0 st q p @ appl sr_range sr_newText (int p) es (drop p s0))))"

text \<open>The replacements emitted so far turn the original text up to \<open>q\<close> into the given text.\<close>

definition emitted :: "text16 \<Rightarrow> compose_state \<Rightarrow> nat \<Rightarrow> text16 \<Rightarrow> bool" where
  "emitted s0 st q out \<longleftrightarrow> (\<exists>es. located s0 (resultReplacements st) es \<and> fits sr_range 0 (int q) es \<and>
     appl sr_range sr_newText 0 es (take q s0) = out)"

lemma segment_self [simp]: "segment s k k = []"
  by (simp add: segment_def)

lemma segment_append: "k \<le> l \<Longrightarrow> l \<le> m \<Longrightarrow> segment s k l @ segment s l m = segment s k m"
proof -
  assume kl: "k \<le> l" "l \<le> m"
  then have "m - k = (l - k) + (m - l)" "drop l s = drop (l - k) (drop k s)" by simp_all
  then show ?thesis unfolding segment_def by (simp only: take_add)
qed

lemma segment_of_drop: "drop j s1 = a @ b \<Longrightarrow> segment s1 j (j + m) = take m (a @ b)"
  by (simp add: segment_def)

lemma emitted_copy:
  assumes "emitted s0 st q out" and "q \<le> q'" and "q' \<le> length s0" and "resultReplacements st' = resultReplacements st"
  shows "emitted s0 st' q' (out @ segment s0 q q')"
proof -
  obtain es where es: "located s0 (resultReplacements st) es" "fits sr_range 0 (int q) es"
    "appl sr_range sr_newText 0 es (take q s0) = out" using assms(1) by (auto simp: emitted_def)
  have "appl sr_range sr_newText 0 (es @ []) (take q' s0) = out @ segment s0 q q'"
    using appl_append [of sr_range 0 "int q" es "int q'" "[]" "take q' s0" sr_newText] es(2,3) assms(2,3)
    by (simp add: min_absorb1 segment_def drop_take)
  moreover have "fits sr_range 0 (int q') (es @ [])" unfolding fits_append using es(2) assms(2) by (intro exI [of _ "int q"]) simp
  ultimately show ?thesis using es(1) assms(4) by (auto simp: emitted_def)
qed

lemma emitted_push:
  assumes "emitted s0 st q out" and "q \<le> q'" and "breakable s0 q" and "breakable s0 q'"
    and "resultReplacements st' = resultReplacements st @ [r]"
    and "range_start (tr_range r) = position_at s0 q" and "range_end (tr_range r) = position_at s0 q'"
  shows "emitted s0 st' q' (out @ tr_text r)"
proof -
  obtain es where es: "located s0 (resultReplacements st) es" "fits sr_range 0 (int q) es"
    "appl sr_range sr_newText 0 es (take q s0) = out" using assms(1) by (auto simp: emitted_def)
  let ?e = "\<lparr>sr_range = mk_offset (int q) (int q'), sr_newText = tr_text r\<rparr>"
  have "at_offsets s0 r ?e" unfolding at_offsets_def using assms(2-4,6,7) by auto
  then have "located s0 (resultReplacements st') (es @ [?e])" using es(1) assms(5) by auto
  moreover have "fits sr_range 0 (int q') (es @ [?e])" using es(2) assms(2) by (simp add: fits_snoc)
  moreover have "appl sr_range sr_newText 0 (es @ [?e]) (take q' s0) = out @ tr_text r"
    using appl_append [of sr_range 0 "int q" es "int q'" "[?e]" "take q' s0" sr_newText] es(2,3) assms(2) breakable_le [OF assms(4)]
    by (simp add: min_absorb1)
  ultimately show ?thesis by (auto simp: emitted_def)
qed

text \<open>The head is there after \<open>ensureHead\<close>.\<close>

lemma ensureHead_frame:
  "headHasValue (ensureHead st)" "currentPosInS1 (ensureHead st) = currentPosInS1 st"
  "resultReplacements (ensureHead st) = resultReplacements st"
  by (auto simp: ensureHead_def Let_def split: list.splits)

lemma ensureHead_walk:
  assumes "walk s0 s1 st j q" shows "walk s0 s1 (ensureHead st) j q"
proof (cases "headHasValue st")
  case False
  with assms obtain p es where w: "j \<le> length s1" "breakable s0 q" "located s0 (todo1 st) es" "fits sr_range (int p) (int (length s0)) es"
    "breakable s0 p" "lastEdit1EndS0 st = position_at s0 p" "\<not> headIsInfinite st" "q = p"
    "drop j s1 = appl sr_range sr_newText (int p) es (drop p s0)"
    by (auto simp: walk_def)
  show ?thesis
  proof (cases "todo1 st")
    case Nil
    then show ?thesis using w False by (auto simp: walk_def ensureHead_def)
  next
    case (Cons r rs)
    then obtain e es' where e: "es = e # es'" "at_offsets s0 r e" "located s0 rs es'" using w(3) by auto
    then obtain k l where kl: "sr_range e = mk_offset (int k) (int l)" "k \<le> l" "breakable s0 k" "breakable s0 l"
      "range_start (tr_range r) = position_at s0 k" "range_end (tr_range r) = position_at s0 l" "sr_newText e = tr_text r"
      by (auto simp: at_offsets_def)
    have f: "p \<le> k" "fits sr_range (int l) (int (length s0)) es'" using w(4) e(1) kl(1) by auto
    show ?thesis
    proof (cases "p = k")
      case True
      then have "drop j s1 = tr_text r @ appl sr_range sr_newText (int l) es' (drop l s0)"
        using w(9) e(1) kl(1,2,7) by (simp add: nat_diff_distrib)
      then have "walk s0 s1 (st\<lparr>headSrcRangeStart := position_at s0 k, headSrcRangeEnd := position_at s0 l,
          headText := Some (tr_text r), headLength := unit_length (tr_text r), headHasValue := True,
          lastEdit1EndS0 := position_at s0 l, todo1 := rs\<rparr>) j q"
        unfolding walk_def using w e kl f True by (intro conjI exI [of _ l] exI [of _ es']) (simp_all add: head_content_def)
      then show ?thesis using True w(6) Cons False kl by (simp add: ensureHead_def head_length_unit Let_def)
    next
      case gap: False
      have f': "fits sr_range (int k) (int (length s0)) es" using w(4) e(1) kl(1) by simp
      have "drop j s1 = segment s0 p k @ appl sr_range sr_newText (int k) es (drop k s0)"
        using appl_split [OF f', of "int p" "drop p s0" sr_newText] f(1) w(9) breakable_le [OF kl(3)] by (simp add: segment_def nat_diff_distrib)
      then have "walk s0 s1 (st\<lparr>headSrcRangeStart := position_at s0 p, headSrcRangeEnd := position_at s0 k,
          headText := None, headLength := unit_length (segment s0 p k), headHasValue := True, lastEdit1EndS0 := position_at s0 k\<rparr>) j q"
        unfolding walk_def using w e kl f f' Cons by (intro conjI exI [of _ k] exI [of _ es]) (simp_all add: head_content_def)
      moreover have "position_at s0 p \<noteq> position_at s0 k" using gap w(5) kl(3) by (simp add: breakable_le)
      ultimately show ?thesis using w(6) Cons False kl between_positions [OF f(1), of s0]
        by (simp add: ensureHead_def compose_distance_eq segment_def Let_def)
    qed
  qed
qed (use assms in \<open>simp add: ensureHead_def\<close>)

lemma walk_result [simp]: "walk s0 s1 (st\<lparr>resultReplacements := x\<rparr>) j q \<longleftrightarrow> walk s0 s1 st j q"
  by (simp add: walk_def head_content_def)

lemma split_new_text_result:
  "split_new_text target t (st\<lparr>resultReplacements := x\<rparr>) = split_new_text target t st\<lparr>resultReplacements := x\<rparr>"
  by (simp add: split_new_text_def Let_def)

section \<open>The steps of the walk\<close>

text \<open>Two texts that agree from two offsets on break at the same places.\<close>

lemma breakable_shift:
  assumes "breakable s1 (j + m)" and "0 < m" and "j + m \<le> length s1" and "q + m \<le> length s0"
    and "drop j s1 = a @ b" and "drop q s0 = a @ c" and "m < length a \<or> m = length a \<and> c = [] \<and> b = []"
  shows "breakable s0 (q + m)"
proof -
  have nth1: "s1 ! (j + i) = (a @ b) ! i" if "i < length (a @ b)" for i
    using nth_drop [of j s1 i] assms(3,5) by simp
  have nth0: "s0 ! (q + i) = (a @ c) ! i" if "i < length (a @ c)" for i
    using nth_drop [of q s0 i] assms(4,6) by simp
  have "m - 1 < length a" using assms(2,7) by auto
  then have last: "s1 ! (j + (m - 1)) = s0 ! (q + (m - 1))" using nth1 [of "m - 1"] nth0 [of "m - 1"] assms(2) by (simp add: nth_append)
  show ?thesis
  proof (cases "m < length a")
    case True
    then have "s1 ! (j + m) = s0 ! (q + m)" using nth1 [of m] nth0 [of m] by (simp add: nth_append)
    moreover have "j + m < length s1" "q + m < length s0"
      using True arg_cong [OF assms(5), of length] arg_cong [OF assms(6), of length] by simp_all
    ultimately show ?thesis using assms(1,2) last by (auto simp: breakable_def)
  next
    case False
    then have "c = []" "m = length a" using assms(7) by auto
    then have "q + m = length s0" using arg_cong [OF assms(6), of length] assms(4) by simp
    then show ?thesis by simp
  qed
qed

text \<open>The facts about a head that is not infinite.\<close>

lemma finite_head:
  assumes "walk s0 s1 st j q" and "headHasValue st" and "\<not> headIsInfinite st" and "currentPosInS1 st = position_at s1 j"
  obtains p es where "located s0 (todo1 st) es" and "fits sr_range (int p) (int (length s0)) es" and "breakable s0 p"
    and "lastEdit1EndS0 st = position_at s0 p" and "q \<le> p" and "headSrcRangeStart st = position_at s0 q"
    and "headSrcRangeEnd st = position_at s0 p" and "breakable s0 q"
    and "headLength st = unit_length (head_content s0 st q p)"
    and "drop j s1 = head_content s0 st q p @ appl sr_range sr_newText (int p) es (drop p s0)"
    and "head_end st = position_at s1 (j + length (head_content s0 st q p))"
    and "j + length (head_content s0 st q p) \<le> length s1"
    and "segment s1 j (j + length (head_content s0 st q p)) = head_content s0 st q p"
proof -
  obtain p es where h: "located s0 (todo1 st) es" "fits sr_range (int p) (int (length s0)) es" "breakable s0 p"
    "lastEdit1EndS0 st = position_at s0 p" "q \<le> p" "headSrcRangeStart st = position_at s0 q" "headSrcRangeEnd st = position_at s0 p"
    "headLength st = unit_length (head_content s0 st q p)" "breakable s0 q" "j \<le> length s1"
    "drop j s1 = head_content s0 st q p @ appl sr_range sr_newText (int p) es (drop p s0)"
    using assms(1-3) unfolding walk_def by auto
  let ?h = "head_content s0 st q p"
  have len: "j + length ?h \<le> length s1" using arg_cong [OF h(11), of length] h(10) by simp
  have seg: "segment s1 j (j + length ?h) = ?h" using segment_of_drop [OF h(11), of "length ?h"] by simp
  have "head_end st = position_at s1 (j + length ?h)"
    using position_at_add [of j "j + length ?h" s1] seg
    by (simp add: head_end_def compose_advance_eq assms(4) h(8) segment_def)
  with h len seg show thesis by (intro that) simp_all
qed

text \<open>A target before the end of the head splits it.\<close>

lemma split_facts:
  assumes "drop j s1 = h @ b" and "j < k" and "k < j + length h" and "j + length h \<le> length s1" and "cur = position_at s1 j"
  shows "compose_distance cur (position_at s1 k) = unit_length (take (k - j) h)"
    and "compose_remaining (unit_length (take (k - j) h)) (unit_length h) = unit_length (drop (k - j) h)"
    and "splitText h (unit_length (take (k - j) h)) = Inr (take (k - j) h, drop (k - j) h)"
    and "segment s1 j k = take (k - j) h" and "drop k s1 = drop (k - j) h @ b"
proof -
  have le: "k - j \<le> length h" using assms(3) by simp
  show seg: "segment s1 j k = take (k - j) h" using segment_of_drop [OF assms(1), of "k - j"] assms(2) le by simp
  show "compose_distance cur (position_at s1 k) = unit_length (take (k - j) h)"
    using between_positions [of j k s1] assms(2) seg by (simp add: compose_distance_eq assms(5) segment_def)
  show "compose_remaining (unit_length (take (k - j) h)) (unit_length h) = unit_length (drop (k - j) h)"
    by (rule remaining_units [OF le])
  show "splitText h (unit_length (take (k - j) h)) = Inr (take (k - j) h, drop (k - j) h)" by (rule splitText_units [OF le])
  have "drop k s1 = drop (k - j) (drop j s1)" using assms(2) by simp
  then show "drop k s1 = drop (k - j) h @ b" using assms(1) le by simp
qed

lemma infinite_walk:
  assumes "walk s0 s1 st j q" and "headHasValue st" and "headIsInfinite st" and "currentPosInS1 st = position_at s1 j"
    and "j < k" and "breakable s1 k"
  shows "walk s0 s1 (move_infinite (position_at s1 k) st) k (q + (k - j))"
    and "headSrcRangeStart (move_infinite (position_at s1 k) st) = position_at s0 (q + (k - j))"
    and "segment s1 j k = segment s0 q (q + (k - j))" and "q + (k - j) \<le> length s0"
    and "headSrcRangeStart st = position_at s0 q"
proof -
  have w: "headSrcRangeStart st = position_at s0 q" "drop j s1 = drop q s0" "j \<le> length s1" "breakable s0 q"
    using assms(1-3) unfolding walk_def by auto
  show "headSrcRangeStart st = position_at s0 q" by (rule w(1))
  have k: "k \<le> length s1" using assms(6) by (rule breakable_le)
  have "length s1 - j = length s0 - q" using arg_cong [OF w(2), of length] by simp
  then show q': "q + (k - j) \<le> length s0" using k assms(5) w(3) breakable_le [OF w(4)] by simp
  show seg: "segment s1 j k = segment s0 q (q + (k - j))" by (simp add: segment_def w(2))
  have "compose_advance (headSrcRangeStart st) (compose_distance (currentPosInS1 st) (position_at s1 k)) = position_at s0 (q + (k - j))"
    using position_at_add [of q "q + (k - j)" s0] between_positions [of j k s1] assms(5) seg
    by (simp add: compose_advance_eq compose_distance_eq assms(4) w(1) segment_def)
  then show start: "headSrcRangeStart (move_infinite (position_at s1 k) st) = position_at s0 (q + (k - j))"
    by (simp add: move_infinite_def)
  have "drop k s1 = drop (k - j) (drop j s1)" using assms(5) by simp
  also have "\<dots> = drop (q + (k - j)) s0" by (simp add: w(2) add.commute)
  finally have rest: "drop k s1 = drop (q + (k - j)) s0" .
  have "breakable s0 (q + (k - j))"
    by (rule breakable_shift [of s1 j "k - j" q s0 "drop j s1" "[]" "[]"])
      (use assms(5,6) k q' w(2) in auto)
  then show "walk s0 s1 (move_infinite (position_at s1 k) st) k (q + (k - j))"
    using assms(1-3) k rest start unfolding walk_def by (auto simp: move_infinite_def)
qed

lemma split_gap_walk:
  assumes "walk s0 s1 st j q" and "headHasValue st" and "\<not> headIsInfinite st" and "headText st = None"
    and "currentPosInS1 st = position_at s1 j" and "j < k" and "breakable s1 k" and "compose_before (position_at s1 k) (head_end st)"
  shows "walk s0 s1 (split_gap (position_at s1 k) st) k (q + (k - j))"
    and "headSrcRangeStart (split_gap (position_at s1 k) st) = position_at s0 (q + (k - j))"
    and "segment s1 j k = segment s0 q (q + (k - j))" and "q + (k - j) \<le> length s0"
    and "headSrcRangeStart st = position_at s0 q"
proof -
  obtain p es where h: "located s0 (todo1 st) es" "fits sr_range (int p) (int (length s0)) es" "breakable s0 p"
    "lastEdit1EndS0 st = position_at s0 p" "q \<le> p" "headSrcRangeStart st = position_at s0 q" "headSrcRangeEnd st = position_at s0 p"
    "breakable s0 q" "headLength st = unit_length (segment s0 q p)"
    "drop j s1 = segment s0 q p @ appl sr_range sr_newText (int p) es (drop p s0)"
    "head_end st = position_at s1 (j + length (segment s0 q p))" "j + length (segment s0 q p) \<le> length s1"
    by (rule finite_head [OF assms(1-3,5), unfolded head_content_def assms(4) option.case]) (rule that; assumption)
  show "headSrcRangeStart st = position_at s0 q" by (rule h(6))
  have len: "length (segment s0 q p) = p - q" using breakable_le [OF h(3)] by (simp add: segment_def)
  have k: "k < j + (p - q)" using assms(8) h(11,12) breakable_le [OF assms(7)] by (simp add: compose_before_less len)
  note f = split_facts [OF h(10) assms(6) _ h(12) assms(5), unfolded len, OF k]
  show q': "q + (k - j) \<le> length s0" using k breakable_le [OF h(3)] assms(6) by simp
  have seg: "take (k - j) (segment s0 q p) = segment s0 q (q + (k - j))" "drop (k - j) (segment s0 q p) = segment s0 (q + (k - j)) p"
    using k assms(6) by (simp_all add: segment_def min_absorb1 drop_take add.commute)
  show "segment s1 j k = segment s0 q (q + (k - j))" using f(4) seg by simp
  have "compose_advance (headSrcRangeStart st) (compose_distance (currentPosInS1 st) (position_at s1 k)) = position_at s0 (q + (k - j))"
    using position_at_add [of q "q + (k - j)" s0] f(1) seg(1) by (simp add: compose_advance_eq h(6) segment_def)
  then show start: "headSrcRangeStart (split_gap (position_at s1 k) st) = position_at s0 (q + (k - j))"
    by (simp add: split_gap_def Let_def)
  have b: "breakable s0 (q + (k - j))"
  proof (rule breakable_shift [of s1 j "k - j" q s0 "segment s0 q p" _ "drop p s0"])
    show "drop q s0 = segment s0 q p @ drop p s0" using segment_drop [OF h(5)] by simp
  qed (use assms(6,7) k q' h(10) len breakable_le [OF assms(7)] in auto)
  show "walk s0 s1 (split_gap (position_at s1 k) st) k (q + (k - j))"
    unfolding walk_def
    using h start b k assms(2-4,6) f seg breakable_le [OF assms(7)]
    by (intro conjI exI [of _ p] exI [of _ es]) (simp_all add: split_gap_def head_content_def Let_def)
qed

lemma split_text_walk:
  assumes "walk s0 s1 st j q" and "headHasValue st" and "\<not> headIsInfinite st" and "headText st = Some t"
    and "currentPosInS1 st = position_at s1 j" and "j < k" and "breakable s1 k" and "compose_before (position_at s1 k) (head_end st)"
  obtains p where "splitText t (compose_distance (currentPosInS1 st) (position_at s1 k)) = Inr (segment s1 j k, drop (k - j) t)"
    and "walk s0 s1 (split_new_text (position_at s1 k) (drop (k - j) t) st) k p"
    and "headSrcRangeStart st = position_at s0 q" and "headSrcRangeEnd st = position_at s0 p" and "q \<le> p"
    and "breakable s0 q" and "breakable s0 p"
proof -
  obtain p es where h: "located s0 (todo1 st) es" "fits sr_range (int p) (int (length s0)) es" "breakable s0 p"
    "lastEdit1EndS0 st = position_at s0 p" "q \<le> p" "headSrcRangeStart st = position_at s0 q" "headSrcRangeEnd st = position_at s0 p"
    "breakable s0 q" "headLength st = unit_length t" "drop j s1 = t @ appl sr_range sr_newText (int p) es (drop p s0)"
    "head_end st = position_at s1 (j + length t)" "j + length t \<le> length s1"
    by (rule finite_head [OF assms(1-3,5), unfolded head_content_def assms(4) option.case]) (rule that; assumption)
  have k: "k < j + length t" using assms(8) h(11,12) breakable_le [OF assms(7)] by (simp add: compose_before_less)
  note f = split_facts [OF h(10) assms(6) k h(12) assms(5)]
  have "walk s0 s1 (split_new_text (position_at s1 k) (drop (k - j) t) st) k p"
    unfolding walk_def using h assms(2-4) f breakable_le [OF assms(7)]
    by (intro conjI exI [of _ p] exI [of _ es]) (simp_all add: split_new_text_def head_content_def Let_def)
  moreover have "splitText t (compose_distance (currentPosInS1 st) (position_at s1 k)) = Inr (segment s1 j k, drop (k - j) t)"
    using f by simp
  ultimately show thesis using that h by blast
qed

text \<open>Passing a whole head.\<close>

lemma head_replacement_ends:
  assumes "headSrcRangeStart st = position_at s0 q" and "headSrcRangeEnd st = position_at s0 p" and "q \<le> p" and "p \<le> length s0"
  shows "range_start (tr_range (head_replacement st t)) = position_at s0 q" and "range_end (tr_range (head_replacement st t)) = position_at s0 p"
    and "tr_text (head_replacement st t) = t"
proof -
  have "tr_range (head_replacement st t) = Range_fromPositions (position_at s0 q) (position_at s0 p)"
    by (simp add: head_replacement_def TextReplacement_new_def assms(1,2) Range_fromPositions_def)
  then show "range_start (tr_range (head_replacement st t)) = position_at s0 q" "range_end (tr_range (head_replacement st t)) = position_at s0 p"
    using assms(3,4) by (simp_all add: Range_fromPositions_ends min_absorb1 max_absorb2)
  show "tr_text (head_replacement st t) = t" by (simp add: head_replacement_def TextReplacement_new_def)
qed

lemma passed_walk:
  assumes "walk s0 s1 st j q" and "headHasValue st" and "\<not> headIsInfinite st" and "currentPosInS1 st = position_at s1 j"
    and "todo1 st' = todo1 st" and "lastEdit1EndS0 st' = lastEdit1EndS0 st" and "\<not> headHasValue st'" and "\<not> headIsInfinite st'"
  obtains p where "walk s0 s1 st' (j + length (head_content s0 st q p)) p" and "head_end st = position_at s1 (j + length (head_content s0 st q p))"
    and "segment s1 j (j + length (head_content s0 st q p)) = head_content s0 st q p"
    and "headSrcRangeStart st = position_at s0 q" and "headSrcRangeEnd st = position_at s0 p" and "q \<le> p"
    and "breakable s0 q" and "breakable s0 p"
proof -
  obtain p es where h: "located s0 (todo1 st) es" "fits sr_range (int p) (int (length s0)) es" "breakable s0 p"
    "lastEdit1EndS0 st = position_at s0 p" "q \<le> p" "headSrcRangeStart st = position_at s0 q" "headSrcRangeEnd st = position_at s0 p"
    "breakable s0 q" "drop j s1 = head_content s0 st q p @ appl sr_range sr_newText (int p) es (drop p s0)"
    "head_end st = position_at s1 (j + length (head_content s0 st q p))" "j + length (head_content s0 st q p) \<le> length s1"
    "segment s1 j (j + length (head_content s0 st q p)) = head_content s0 st q p"
    by (rule finite_head [OF assms(1-4)]) (rule that; assumption)
  have "drop (j + length (head_content s0 st q p)) s1 = drop (length (head_content s0 st q p)) (drop j s1)" by (simp add: add.commute)
  then have "drop (j + length (head_content s0 st q p)) s1 = appl sr_range sr_newText (int p) es (drop p s0)" using h(9) by simp
  then have "walk s0 s1 st' (j + length (head_content s0 st q p)) p"
    unfolding walk_def using h assms(5-8) by (intro conjI exI [of _ p] exI [of _ es]) simp_all
  then show thesis using that h by blast
qed

lemma emitted_head:
  assumes "emitted s0 st q out" and "headSrcRangeStart st = position_at s0 q" and "headSrcRangeEnd st = position_at s0 p"
    and "q \<le> p" and "breakable s0 q" and "breakable s0 p"
    and "resultReplacements st' = resultReplacements st @ (case headText st of Some t \<Rightarrow> [head_replacement st t] | None \<Rightarrow> [])"
  shows "emitted s0 st' p (out @ head_content s0 st q p)"
proof (cases "headText st")
  case None
  then show ?thesis using emitted_copy [OF assms(1,4) breakable_le [OF assms(6)]] assms(7) by (simp add: head_content_def)
next
  case (Some t)
  note r = head_replacement_ends [OF assms(2-4) breakable_le [OF assms(6)], of t]
  from emitted_push [OF assms(1,4-6) _ r(1,2), of st'] show ?thesis using Some assms(7) r(3) by (simp add: head_content_def)
qed

text \<open>The first loop copies up to the target.\<close>

lemma compose_seek_walk:
  assumes "walk s0 s1 st j q" and "currentPosInS1 st = position_at s1 j" and "emitted s0 st q out" and "j \<le> k" and "breakable s1 k"
  shows "\<exists>st' q'. compose_seek (position_at s1 k) st = Inr st' \<and> walk s0 s1 st' k q' \<and> currentPosInS1 st' = position_at s1 k \<and>
    emitted s0 st' q' (out @ segment s1 j k)"
  using assms
proof (induction "compose_measure st" arbitrary: st j q out rule: less_induct)
  case less
  have j: "j \<le> length s1" using less.prems(1) by (simp add: walk_def)
  show ?case
  proof (cases "j = k")
    case True
    then show ?thesis using less.prems by (intro exI [of _ st] exI [of _ q]) (simp add: compose_seek.simps [of _ st])
  next
    case False
    then have jk: "j < k" and pos: "currentPosInS1 st \<noteq> position_at s1 k" using less.prems j by (simp_all add: breakable_le)
    define st1 where "st1 = ensureHead st"
    have st1: "walk s0 s1 st1 j q" "headHasValue st1" "currentPosInS1 st1 = position_at s1 j" "emitted s0 st1 q out"
      using ensureHead_walk [OF less.prems(1)] ensureHead_frame [of st] less.prems(2,3) by (simp_all add: st1_def emitted_def)
    note step = compose_seek.simps [of "position_at s1 k" st, unfolded Let_def, folded st1_def]
    show ?thesis
    proof (cases "headIsInfinite st1")
      case True
      note w = infinite_walk [OF st1(1,2) True st1(3) jk less.prems(5)]
      have "emitted s0 (move_infinite (position_at s1 k) st1) (q + (k - j)) (out @ segment s1 j k)"
        using emitted_copy [OF st1(4) _ w(4), of "move_infinite (position_at s1 k) st1"] w(3) by (simp add: move_infinite_def)
      then show ?thesis using w(1) pos True step
        by (intro exI [of _ "move_infinite (position_at s1 k) st1"] exI [of _ "q + (k - j)"]) (simp add: move_infinite_def)
    next
      case finite: False
      show ?thesis
      proof (cases "compose_before (position_at s1 k) (head_end st1)")
        case before: True
        show ?thesis
        proof (cases "headText st1")
          case None
          note w = split_gap_walk [OF st1(1,2) finite None st1(3) jk less.prems(5) before]
          have "emitted s0 (split_gap (position_at s1 k) st1) (q + (k - j)) (out @ segment s1 j k)"
            using emitted_copy [OF st1(4) _ w(4), of "split_gap (position_at s1 k) st1"] w(3) by (simp add: split_gap_def Let_def)
          then show ?thesis using w(1) pos finite before None step
            by (intro exI [of _ "split_gap (position_at s1 k) st1"] exI [of _ "q + (k - j)"]) (simp add: split_gap_def Let_def)
        next
          case (Some t)
          obtain p where p: "splitText t (compose_distance (currentPosInS1 st1) (position_at s1 k)) = Inr (segment s1 j k, drop (k - j) t)"
            "walk s0 s1 (split_new_text (position_at s1 k) (drop (k - j) t) st1) k p"
            "headSrcRangeStart st1 = position_at s0 q" "headSrcRangeEnd st1 = position_at s0 p" "q \<le> p" "breakable s0 q" "breakable s0 p"
            by (rule split_text_walk [OF st1(1,2) finite Some st1(3) jk less.prems(5) before])
          let ?st = "split_new_text (position_at s1 k) (drop (k - j) t) (st1\<lparr>resultReplacements := resultReplacements st1 @ [head_replacement st1 (segment s1 j k)]\<rparr>)"
          note r = head_replacement_ends [OF p(3-5) breakable_le [OF p(7)], of "segment s1 j k"]
          have "emitted s0 ?st p (out @ segment s1 j k)"
            using emitted_push [OF st1(4) p(5-7) _ r(1,2), of ?st] r(3) by (simp add: split_new_text_def Let_def)
          moreover have "walk s0 s1 ?st k p" using p(2) by (simp add: split_new_text_result)
          ultimately show ?thesis using pos finite before Some p(1) step
            by (intro exI [of _ ?st] exI [of _ p]) (simp add: split_new_text_def Let_def)
        qed
      next
        case beyond: False
        obtain p where p: "walk s0 s1 (pass_head st1) (j + length (head_content s0 st1 q p)) p"
          "head_end st1 = position_at s1 (j + length (head_content s0 st1 q p))"
          "segment s1 j (j + length (head_content s0 st1 q p)) = head_content s0 st1 q p"
          "headSrcRangeStart st1 = position_at s0 q" "headSrcRangeEnd st1 = position_at s0 p" "q \<le> p" "breakable s0 q" "breakable s0 p"
          by (rule passed_walk [OF st1(1,2) finite st1(3), of "pass_head st1"]) (simp_all add: pass_head_def finite)
        let ?j = "j + length (head_content s0 st1 q p)"
        have j': "?j \<le> length s1" using p(1) by (simp add: walk_def)
        then have le: "?j \<le> k" using beyond p(2) less.prems(5) by (simp add: compose_before_less breakable_le)
        have e: "emitted s0 (pass_head st1) p (out @ head_content s0 st1 q p)"
          by (rule emitted_head [OF st1(4) p(4-8)]) (simp add: pass_head_def)
        have m: "compose_measure (pass_head st1) < compose_measure st"
          by (rule ensureHead_measure) (use finite in \<open>simp_all add: pass_head_def st1_def\<close>)
        have "out @ segment s1 j k = (out @ head_content s0 st1 q p) @ segment s1 ?j k"
          using segment_append [of j ?j k s1] le p(3) by simp
        with less.hyps [OF m p(1) _ e le less.prems(5)] p(2) show ?thesis
          using pos finite beyond step by (simp add: pass_head_def)
      qed
    qed
  qed
qed

text \<open>The second loop consumes the source from \<open>a\<close> on and emits nothing.\<close>

definition consumed_from :: "text16 \<Rightarrow> consumed \<Rightarrow> nat \<Rightarrow> nat \<Rightarrow> bool" where
  "consumed_from s0 c a q \<longleftrightarrow> a \<le> q \<and>
     (case c of None \<Rightarrow> a = q | Some (s, e) \<Rightarrow> s = position_at s0 a \<and> e = position_at s0 q)"

lemma consume_to_from:
  assumes "consumed_from s0 c a q" and "headSrcRangeStart st = position_at s0 q" and "q \<le> q'" and "e = position_at s0 q'"
  shows "consumed_from s0 (consume_to e st c) a q'"
  using assms by (auto simp: consumed_from_def consume_to_def split: option.splits)

lemma compose_consume_walk:
  assumes "walk s0 s1 st j q" and "currentPosInS1 st = position_at s1 j" and "consumed_from s0 c a q" and "j \<le> k" and "breakable s1 k"
  shows "\<exists>st' q' c'. compose_consume (position_at s1 k) st c = Inr (st', c') \<and> walk s0 s1 st' k q' \<and>
    currentPosInS1 st' = position_at s1 k \<and> consumed_from s0 c' a q' \<and> resultReplacements st' = resultReplacements st"
  using assms
proof (induction "compose_measure st" arbitrary: st j q c rule: less_induct)
  case less
  have j: "j \<le> length s1" using less.prems(1) by (simp add: walk_def)
  show ?case
  proof (cases "j = k")
    case True
    then show ?thesis using less.prems by (intro exI [of _ st] exI [of _ q] exI [of _ c]) (simp add: compose_consume.simps [of _ st])
  next
    case False
    then have jk: "j < k" and pos: "currentPosInS1 st \<noteq> position_at s1 k" using less.prems j by (simp_all add: breakable_le)
    define st1 where "st1 = ensureHead st"
    have st1: "walk s0 s1 st1 j q" "headHasValue st1" "currentPosInS1 st1 = position_at s1 j" "resultReplacements st1 = resultReplacements st"
      using ensureHead_walk [OF less.prems(1)] ensureHead_frame [of st] less.prems(2) by (simp_all add: st1_def)
    note step = compose_consume.simps [of "position_at s1 k" st c, unfolded Let_def, folded st1_def]
    show ?thesis
    proof (cases "headIsInfinite st1")
      case True
      note w = infinite_walk [OF st1(1,2) True st1(3) jk less.prems(5)]
      have "consumed_from s0 (consume_to (headSrcRangeStart (move_infinite (position_at s1 k) st1)) st1 c) a (q + (k - j))"
        by (rule consume_to_from [OF less.prems(3) w(5) _ w(2)]) simp
      then show ?thesis using w(1) pos True step st1(4)
        by (intro exI [of _ "move_infinite (position_at s1 k) st1"] exI [of _ "q + (k - j)"]) (simp add: move_infinite_def)
    next
      case finite: False
      show ?thesis
      proof (cases "compose_before (position_at s1 k) (head_end st1)")
        case before: True
        show ?thesis
        proof (cases "headText st1")
          case None
          note w = split_gap_walk [OF st1(1,2) finite None st1(3) jk less.prems(5) before]
          have "consumed_from s0 (consume_to (headSrcRangeStart (split_gap (position_at s1 k) st1)) st1 c) a (q + (k - j))"
            by (rule consume_to_from [OF less.prems(3) w(5) _ w(2)]) simp
          then show ?thesis using w(1) pos finite before None step st1(4)
            by (intro exI [of _ "split_gap (position_at s1 k) st1"] exI [of _ "q + (k - j)"]) (simp add: split_gap_def Let_def)
        next
          case (Some t)
          obtain p where p: "splitText t (compose_distance (currentPosInS1 st1) (position_at s1 k)) = Inr (segment s1 j k, drop (k - j) t)"
            "walk s0 s1 (split_new_text (position_at s1 k) (drop (k - j) t) st1) k p"
            "headSrcRangeStart st1 = position_at s0 q" "headSrcRangeEnd st1 = position_at s0 p" "q \<le> p"
            by (rule split_text_walk [OF st1(1,2) finite Some st1(3) jk less.prems(5) before])
          have "consumed_from s0 (consume_to (headSrcRangeEnd st1) st1 c) a p"
            by (rule consume_to_from [OF less.prems(3) p(3,5,4)])
          then show ?thesis using pos finite before Some p(1,2) step st1(4)
            by (intro exI [of _ "split_new_text (position_at s1 k) (drop (k - j) t) st1"] exI [of _ p])
              (simp add: split_new_text_def Let_def)
        qed
      next
        case beyond: False
        let ?st = "st1\<lparr>currentPosInS1 := head_end st1, headHasValue := False\<rparr>"
        obtain p where p: "walk s0 s1 ?st (j + length (head_content s0 st1 q p)) p"
          "head_end st1 = position_at s1 (j + length (head_content s0 st1 q p))"
          "headSrcRangeStart st1 = position_at s0 q" "headSrcRangeEnd st1 = position_at s0 p" "q \<le> p"
          by (rule passed_walk [OF st1(1,2) finite st1(3), of ?st]) (simp_all add: finite)
        let ?j = "j + length (head_content s0 st1 q p)"
        have "?j \<le> length s1" using p(1) by (simp add: walk_def)
        then have le: "?j \<le> k" using beyond p(2) less.prems(5) by (simp add: compose_before_less breakable_le)
        have c: "consumed_from s0 (consume_to (headSrcRangeEnd st1) st1 c) a p"
          by (rule consume_to_from [OF less.prems(3) p(3,5,4)])
        have m: "compose_measure ?st < compose_measure st"
          by (rule ensureHead_measure) (use finite in \<open>simp_all add: st1_def\<close>)
        from less.hyps [OF m p(1) _ c le less.prems(5)] p(2) show ?thesis
          using pos finite beyond step st1(4) by simp
      qed
    qed
  qed
qed

text \<open>One replacement of the second edit.\<close>

lemma compose_replacement_walk:
  assumes "walk s0 s1 st j q" and "currentPosInS1 st = position_at s1 j" and "emitted s0 st q out"
    and "at_offsets s1 r2 e" and "int j \<le> start (sr_range e)"
  shows "\<exists>st' q'. compose_replacement r2 st = Inr st' \<and> walk s0 s1 st' (nat (endExclusive (sr_range e))) q' \<and>
    currentPosInS1 st' = position_at s1 (nat (endExclusive (sr_range e))) \<and>
    emitted s0 st' q' (out @ segment s1 j (nat (start (sr_range e))) @ sr_newText e)"
proof -
  note b = at_offsets_bounds [OF assms(4)]
  let ?k = "nat (start (sr_range e))" and ?l = "nat (endExclusive (sr_range e))"
  obtain st1 a where st1: "compose_seek (position_at s1 ?k) st = Inr st1" "walk s0 s1 st1 ?k a" "currentPosInS1 st1 = position_at s1 ?k"
    "emitted s0 st1 a (out @ segment s1 j ?k)"
    using compose_seek_walk [OF assms(1-3) _ b(7)] assms(5) b(1) by (auto simp: le_nat_iff)
  have "consumed_from s0 None a a" by (simp add: consumed_from_def)
  from compose_consume_walk [OF st1(2,3) this _ b(8)] obtain st2 q c
    where st2: "compose_consume (position_at s1 ?l) st1 None = Inr (st2, c)" "walk s0 s1 st2 ?l q"
      "currentPosInS1 st2 = position_at s1 ?l" "consumed_from s0 c a q" "resultReplacements st2 = resultReplacements st1"
    using b(2) by (auto simp: nat_mono)
  have aq: "a \<le> q" "breakable s0 a" "breakable s0 q" using st1(2) st2(2,4) by (simp_all add: walk_def consumed_from_def)
  define st3 where "st3 = (case c of Some _ \<Rightarrow> st2 | None \<Rightarrow> ensureHead st2)"
  have st3: "walk s0 s1 st3 ?l q" "currentPosInS1 st3 = position_at s1 ?l" "resultReplacements st3 = resultReplacements st1"
    using st2 ensureHead_walk [OF st2(2)] ensureHead_frame [of st2] by (auto simp: st3_def split: option.splits)
  have "compose_replacement r2 st = Inr (compose_push (position_at s0 a) (position_at s0 q) (tr_text r2) st3)"
  proof (cases c)
    case None
    then have "a = q" using st2(4) by (simp add: consumed_from_def)
    moreover have "headSrcRangeStart (ensureHead st2) = position_at s0 q"
      using ensureHead_walk [OF st2(2)] ensureHead_frame(1) [of st2] by (auto simp: walk_def)
    ultimately show ?thesis using None st1(1) st2(1) b(5,6) by (simp add: compose_replacement_def st3_def Let_def)
  next
    case (Some x)
    then show ?thesis using st1(1) st2(1,4) b(5,6) by (cases x) (simp add: compose_replacement_def st3_def consumed_from_def)
  qed
  moreover have "emitted s0 (compose_push (position_at s0 a) (position_at s0 q) (tr_text r2) st3) q ((out @ segment s1 j ?k) @ tr_text r2)"
  proof -
    let ?r = "TextReplacement_new (Range_fromPositions (position_at s0 a) (position_at s0 q)) (tr_text r2)"
    have "range_start (tr_range ?r) = position_at s0 a" "range_end (tr_range ?r) = position_at s0 q" "tr_text ?r = tr_text r2"
      using aq by (simp_all add: TextReplacement_new_def Range_fromPositions_ends min_absorb1 max_absorb2 breakable_le)
    with emitted_push [OF st1(4) aq, of "compose_push (position_at s0 a) (position_at s0 q) (tr_text r2) st3" ?r]
    show ?thesis using st3(3) by (simp add: compose_push_def Range_fromPositions_def)
  qed
  moreover have "walk s0 s1 (compose_push (position_at s0 a) (position_at s0 q) (tr_text r2) st3) ?l q"
    using st3(1) by (simp add: compose_push_def)
  ultimately show ?thesis using st3(2) b(4) by (intro exI [of _ "compose_push (position_at s0 a) (position_at s0 q) (tr_text r2) st3"] exI [of _ q])
      (simp add: compose_push_def)
qed

lemma compose_fold_walk:
  assumes "walk s0 s1 st j q" and "currentPosInS1 st = position_at s1 j" and "emitted s0 st q out"
    and "located s1 rs es" and "fits sr_range (int j) (int (length s1)) es"
  shows "\<exists>st' j' q' out'. rfold compose_replacement rs st = Inr st' \<and> walk s0 s1 st' j' q' \<and> emitted s0 st' q' out' \<and>
    out @ appl sr_range sr_newText (int j) es (drop j s1) = out' @ drop j' s1"
  using assms
proof (induction rs arbitrary: st j q out es)
  case Nil
  then show ?case by (intro exI [of _ st] exI [of _ j] exI [of _ q] exI [of _ out]) simp
next
  case (Cons r rs)
  then obtain e es' where e: "es = e # es'" "at_offsets s1 r e" "located s1 rs es'" by auto
  note b = at_offsets_bounds [OF e(2)]
  let ?k = "nat (start (sr_range e))" and ?l = "nat (endExclusive (sr_range e))"
  have f: "int j \<le> start (sr_range e)" "fits sr_range (int ?l) (int (length s1)) es'" using Cons.prems(5) e(1) b(1,2) by auto
  obtain st1 q1 where st1: "compose_replacement r st = Inr st1" "walk s0 s1 st1 ?l q1" "currentPosInS1 st1 = position_at s1 ?l"
    "emitted s0 st1 q1 (out @ segment s1 j ?k @ sr_newText e)"
    using compose_replacement_walk [OF Cons.prems(1-3) e(2) f(1)] by blast
  have "appl sr_range sr_newText (int j) es (drop j s1) =
      segment s1 j ?k @ sr_newText e @ appl sr_range sr_newText (int ?l) es' (drop ?l s1)"
    using e(1) b(1,2) f(1) by (simp add: segment_def nat_diff_distrib')
  with Cons.IH [OF st1(2,3,4) e(3) f(2)] st1(1) show ?case by simp
qed

lemma walk_position [simp]: "walk s0 s1 (st\<lparr>currentPosInS1 := x\<rparr>) j q \<longleftrightarrow> walk s0 s1 st j q"
  by (simp add: walk_def head_content_def)

lemma compose_flush_walk:
  assumes "walk s0 s1 st j q" and "emitted s0 st q out"
  shows "\<exists>q' out'. breakable s0 q' \<and> emitted s0 (compose_flush st) q' out' \<and> out @ drop j s1 = out' @ drop q' s0"
  using assms
proof (induction "compose_measure st" arbitrary: st j q out rule: less_induct)
  case less
  define st1 where "st1 = ensureHead st"
  have st1: "walk s0 s1 st1 j q" "headHasValue st1" "emitted s0 st1 q out"
    using ensureHead_walk [OF less.prems(1)] ensureHead_frame [of st] less.prems(2) by (simp_all add: st1_def emitted_def)
  note step = compose_flush.simps [of st, unfolded Let_def, folded st1_def]
  show ?case
  proof (cases "headIsInfinite st1")
    case True
    then have "breakable s0 q" "drop j s1 = drop q s0" using st1(1,2) by (auto simp: walk_def)
    then show ?thesis using True st1(3) step by (intro exI [of _ q] exI [of _ out]) simp
  next
    case finite: False
    let ?st1 = "st1\<lparr>currentPosInS1 := position_at s1 j\<rparr>"
    let ?st = "st1\<lparr>resultReplacements := resultReplacements st1 @
        (case headText st1 of Some t \<Rightarrow> [head_replacement st1 t] | None \<Rightarrow> []), headHasValue := False\<rparr>"
    obtain p where p: "walk s0 s1 ?st (j + length (head_content s0 ?st1 q p)) p"
      "segment s1 j (j + length (head_content s0 ?st1 q p)) = head_content s0 ?st1 q p"
      "headSrcRangeStart ?st1 = position_at s0 q" "headSrcRangeEnd ?st1 = position_at s0 p" "q \<le> p" "breakable s0 q" "breakable s0 p"
      by (rule passed_walk [of s0 s1 ?st1 j q ?st]) (use st1 finite in simp_all)
    have h: "head_content s0 ?st1 q p = head_content s0 st1 q p" by (simp add: head_content_def)
    have e: "emitted s0 ?st p (out @ head_content s0 st1 q p)"
      by (rule emitted_head [OF st1(3) _ _ p(5-7)]) (use p(3,4) in simp_all)
    have m: "compose_measure ?st < compose_measure st"
      by (rule ensureHead_measure) (use finite in \<open>simp_all add: st1_def\<close>)
    have "head_content s0 st1 q p @ drop (j + length (head_content s0 st1 q p)) s1 = drop j s1"
      using p(2) segment_drop [of j "j + length (head_content s0 st1 q p)" s1] h by simp
    with less.hyps [OF m p(1) [unfolded h] e] show ?thesis using finite step by simp
  qed
qed

lemma compose_located:
  assumes "located s0 (te_replacements a) ea" and "fits sr_range 0 (int (length s0)) ea"
    and "located (appl sr_range sr_newText 0 ea s0) (te_replacements b) eb"
    and "fits sr_range 0 (int (length (appl sr_range sr_newText 0 ea s0))) eb"
  shows "\<exists>c ec. TextEdit_compose a b = Inr c \<and> located s0 (te_replacements c) ec \<and> fits sr_range 0 (int (length s0)) ec \<and>
    appl sr_range sr_newText 0 ec s0 = appl sr_range sr_newText 0 eb (appl sr_range sr_newText 0 ea s0)"
proof -
  define s1 where "s1 = appl sr_range sr_newText 0 ea s0"
  obtain ea' where ea': "located s0 (te_replacements (TextEdit_normalize a)) ea'" "fits sr_range 0 (int (length s0)) ea'"
    "appl sr_range sr_newText 0 ea' s0 = s1"
    using normalize_located [OF assms(1,2)] by (auto simp: s1_def)
  obtain eb' where eb': "located s1 (te_replacements (TextEdit_normalize b)) eb'" "fits sr_range 0 (int (length s1)) eb'"
    "appl sr_range sr_newText 0 eb' s1 = appl sr_range sr_newText 0 eb s1"
    using normalize_located [OF assms(3,4)] by (auto simp: s1_def)
  consider "te_replacements (TextEdit_normalize a) = []" | "te_replacements (TextEdit_normalize a) \<noteq> []" "te_replacements (TextEdit_normalize b) = []"
    | "te_replacements (TextEdit_normalize a) \<noteq> []" "te_replacements (TextEdit_normalize b) \<noteq> []" by blast
  then show ?thesis
  proof cases
    case 1
    then have "s1 = s0" using ea' by simp
    then show ?thesis using 1 eb' by (intro exI [of _ "TextEdit_normalize b"] exI [of _ eb']) (simp add: TextEdit_compose_def flip: s1_def)
  next
    case 2
    then have "eb' = []" using eb'(1) by simp
    then show ?thesis using 2 ea' eb'(3) by (intro exI [of _ "TextEdit_normalize a"] exI [of _ ea']) (simp add: TextEdit_compose_def flip: s1_def)
  next
    case 3
    let ?st = "compose_start (te_replacements (TextEdit_normalize a))"
    have "walk s0 s1 ?st 0 0"
      unfolding walk_def using ea' by (intro conjI exI [of _ 0] exI [of _ ea']) (simp_all add: compose_start_def)
    moreover have "emitted s0 ?st 0 []" by (simp add: emitted_def compose_start_def)
    ultimately obtain st' j' q' out' where st': "rfold compose_replacement (te_replacements (TextEdit_normalize b)) ?st = Inr st'"
      "walk s0 s1 st' j' q'" "emitted s0 st' q' out'" "appl sr_range sr_newText 0 eb' s1 = out' @ drop j' s1"
      using compose_fold_walk [of s0 s1 ?st 0 0 "[]" "te_replacements (TextEdit_normalize b)" eb'] eb'(1,2) by (auto simp: compose_start_def)
    obtain q out where flush: "breakable s0 q" "emitted s0 (compose_flush st') q out" "out' @ drop j' s1 = out @ drop q s0"
      using compose_flush_walk [OF st'(2,3)] by blast
    then obtain es where es: "located s0 (resultReplacements (compose_flush st')) es" "fits sr_range 0 (int q) es"
      "appl sr_range sr_newText 0 es (take q s0) = out" by (auto simp: emitted_def)
    have fit: "fits sr_range 0 (int (length s0)) (es @ [])"
      unfolding fits_append using es(2) breakable_le [OF flush(1)] by (intro exI [of _ "int q"]) simp
    have "appl sr_range sr_newText 0 (es @ []) s0 = out @ drop q s0"
      using appl_append [OF es(2), of "int (length s0)" "[]" s0 sr_newText] es(3) breakable_le [OF flush(1)] by simp
    then have effect: "appl sr_range sr_newText 0 es s0 = appl sr_range sr_newText 0 eb s1" using flush(3) st'(4) eb'(3) by simp
    obtain ec where "located s0 (te_replacements (TextEdit_normalize (TextEdit_new (resultReplacements (compose_flush st'))))) ec"
      "fits sr_range 0 (int (length s0)) ec" "appl sr_range sr_newText 0 ec s0 = appl sr_range sr_newText 0 es s0"
      using normalize_located [of s0 "TextEdit_new (resultReplacements (compose_flush st'))" es] es(1) fit by (auto simp: TextEdit_new_def)
    then show ?thesis using 3 st'(1) effect
      by (intro exI [of _ "TextEdit_normalize (TextEdit_new (resultReplacements (compose_flush st')))"] exI [of _ ec])
        (simp add: TextEdit_compose_def flip: s1_def)
  qed
qed

text \<open>C20: \<open>compose\<close> of text edits is sequential application: for an edit of a text and an edit of the edited text, it
  returns without an exception an edit within the original text, whose effect is that of the two edits in turn.
\<close>

lemma TextEdit_compose_applies:
  assumes "text_edit_within s a" and "TextEdit_applyToString a s = Inr s1" and "text_edit_within s1 b"
  shows "\<exists>c. TextEdit_compose a b = Inr c \<and> text_edit_within s c \<and> TextEdit_applyToString c s = TextEdit_applyToString b s1"
proof -
  have small: "int (length s) + 1 < max_safe_integer" "int (length s1) + 1 < max_safe_integer"
    using assms(1,3) by (simp_all add: text_edit_within_def)
  obtain ea where ea: "located s (te_replacements a) ea" "fits sr_range 0 (int (length s)) ea"
    by (rule within_located [OF assms(1)])
  have s1: "s1 = appl sr_range sr_newText 0 ea s"
    using apply_string_located [OF ea small(1)] assms(2) by (simp add: TextEdit_applyToString_def)
  obtain eb where eb: "located s1 (te_replacements b) eb" "fits sr_range 0 (int (length s1)) eb"
    by (rule within_located [OF assms(3)])
  obtain c ec where c: "TextEdit_compose a b = Inr c" "located s (te_replacements c) ec" "fits sr_range 0 (int (length s)) ec"
    "appl sr_range sr_newText 0 ec s = appl sr_range sr_newText 0 eb s1"
    using compose_located [OF ea eb [unfolded s1]] unfolding s1 by blast
  then show ?thesis
    using located_within [OF c(2,3) small(1)] apply_string_located [OF c(2,3) small(1)] apply_string_located [OF eb small(2)]
    by (simp add: TextEdit_applyToString_def)
qed

definition example_later_edit :: TextEdit where
  "example_later_edit = TextEdit_new [TextReplacement_new (Range_new 1 1 1 3) [122], TextReplacement_new (Range_new 2 1 3 1) [10, 10]]"

lemma TextEdit_compose_applies_witness:
  "\<exists>c. TextEdit_compose example_text_edit example_later_edit = Inr c \<and> text_edit_within example_document c \<and>
    TextEdit_applyToString c example_document = Inr [122, 10, 10, 10]"
proof -
  have "TextEdit_applyToString example_text_edit example_document = Inr [97, 120, 10, 121, 100, 10]"
    and "text_edit_within [97, 120, 10, 121, 100, 10] example_later_edit"
    and b: "TextEdit_applyToString example_later_edit [97, 120, 10, 121, 100, 10] = Inr [122, 10, 10, 10]"
    by code_simp+
  from TextEdit_compose_applies [OF example_text_edit_within this(1,2)] show ?thesis unfolding b .
qed

end
