(* ===== verification/Line_Edits.thy ===== *)
theory Line_Edits
  imports Text_Edit_Laws Array_Edits
begin

text \<open>
  \<open>src/vs/editor/common/core/edits/lineEdit.ts\<close>: edits that replace ranges of whole lines, and their conversion
  from text edits and to string edits.  The constructor throws unless the replacements are in order.  The lines
  asked of a text may be outside it; a conversion is None when a number it computes is \<open>NaN\<close> for that reason.
\<close>

section \<open>Line replacements\<close>

record LineReplacement =
  lr_lineRange :: LineRange
  lr_newLines :: "text16 list"

definition LineReplacement_new :: "LineRange \<Rightarrow> text16 list \<Rightarrow> LineReplacement" where
  "LineReplacement_new rg ls = \<lparr>lr_lineRange = rg, lr_newLines = ls\<rparr>"

definition LineReplacement_deserialize :: "int \<times> int \<times> text16 list \<Rightarrow> LineReplacement result" where
  "LineReplacement_deserialize e =
     (case e of (s, en, ls) \<Rightarrow> rbind (LineRange_ofLength s (en - s)) (\<lambda>rg. Inr (LineReplacement_new rg ls)))"

definition LineReplacement_serialize :: "LineReplacement \<Rightarrow> int \<times> int \<times> text16 list" where
  "LineReplacement_serialize r = (lrStartLineNumber (lr_lineRange r), endLineNumberExclusive (lr_lineRange r), lr_newLines r)"

text \<open>\<open>newLines[0] = prefix + newLines[0]\<close> and the same for the last line.\<close>

definition prepend_first :: "text16 \<Rightarrow> text16 list \<Rightarrow> text16 list" where
  "prepend_first t ls = ls[0 := t @ ls ! 0]"

definition append_last :: "text16 \<Rightarrow> text16 list \<Rightarrow> text16 list" where
  "append_last t ls = ls[length ls - 1 := ls ! (length ls - 1) @ t]"

definition LineReplacement_fromSingleTextEdit :: "TextReplacement \<Rightarrow> AbstractText \<Rightarrow> LineReplacement option result" where
  "LineReplacement_fromSingleTextEdit r A =
     rbind (at_getValueOfRange A (Range_fromPositions (Position_new (startLineNumber (tr_range r)) 1)
              (Range_getStartPosition (tr_range r)))) (\<lambda>survivingFirstLineText.
     rbind (AbstractText_getValue A) (\<lambda>v.
     case Transformer_getLineLength v (endLineNumber (tr_range r)) of
       None \<Rightarrow> Inr None
     | Some endLineLength \<Rightarrow>
         rbind (at_getValueOfRange A (Range_fromPositions (Range_getEndPosition (tr_range r))
                  (Position_new (endLineNumber (tr_range r)) (endLineLength + 1)))) (\<lambda>survivingEndLineText.
         let newLines = append_last survivingEndLineText (prepend_first survivingFirstLineText (splitLines (tr_text r)));
             startLine = startLineNumber (tr_range r);
             endLineEx = endLineNumber (tr_range r) + 1;
             startBeforeNewLine = (Transformer_getLineLength v (startLineNumber (tr_range r)) = Some (startColumn (tr_range r) - 1));
             endAfterNewLine = (endColumn (tr_range r) = 1);
             (startLine, newLines) =
               (if startBeforeNewLine \<and> length (newLines ! 0) = length survivingFirstLineText
                then (startLine + 1, tl newLines) else (startLine, newLines));
             (endLineEx, newLines) =
               (if length newLines > 0 \<and> startLine < endLineEx \<and> endAfterNewLine \<and>
                   length (last newLines) = length survivingEndLineText
                then (endLineEx - 1, butlast newLines) else (endLineEx, newLines))
         in rbind (LineRange_new startLine endLineEx) (\<lambda>rg. Inr (Some (LineReplacement_new rg newLines))))))"

text \<open>\<open>ls.join('\n')\<close>: the text that an array of lines stands for.\<close>

fun join_lines :: "text16 list \<Rightarrow> text16" where
  "join_lines [] = []"
| "join_lines [l] = l"
| "join_lines (l # m # ls) = l @ 10 # join_lines (m # ls)"

definition LineReplacement_toSingleTextEdit :: "LineReplacement \<Rightarrow> AbstractText \<Rightarrow> TextReplacement option result" where
  "LineReplacement_toSingleTextEdit r A =
     rbind (AbstractText_getValue A) (\<lambda>v.
     let textLen = Transformer_textLength v;
         startLine = lrStartLineNumber (lr_lineRange r);
         endLineEx = endLineNumberExclusive (lr_lineRange r);
         newLines = lr_newLines r
     in if length newLines = 0 then
          (if endLineEx = lineCount textLen + 2 then
             (case (if startLine > 1 then
                      map_option (\<lambda>l. Position_new (startLine - 1) (l + 1)) (Transformer_getLineLength v (startLine - 1))
                    else Some (Position_new 1 1)) of
                None \<Rightarrow> Inr None
              | Some startPos \<Rightarrow>
                  let lastPosition = TextLength_addToPosition textLen (Position_new 1 1)
                  in Inr (Some (TextReplacement_new (Range_fromPositions startPos lastPosition) [])))
           else Inr (Some (TextReplacement_new (Range_new startLine 1 endLineEx 1) [])))
        else if LineRange_isEmpty (lr_lineRange r) then
          (if startLine = lineCount textLen + 2 then
             (case Transformer_getLineLength v (startLine - 1) of
                None \<Rightarrow> Inr None
              | Some l \<Rightarrow>
                  let p = Position_new (startLine - 1) (l + 1)
                  in Inr (Some (TextReplacement_new (Range_fromPositions p p) (concat (List.map (\<lambda>l. 10 # l) newLines)))))
           else
             let p = Position_new startLine 1
             in Inr (Some (TextReplacement_new (Range_fromPositions p p) (concat (List.map (\<lambda>l. l @ [10]) newLines)))))
        else
          (let endLine = endLineEx - 1
           in case Transformer_getLineLength v endLine of
                None \<Rightarrow> Inr None
              | Some l \<Rightarrow> Inr (Some (TextReplacement_new (Range_new startLine 1 endLine (l + 1)) (join_lines newLines)))))"

definition LineReplacement_toSingleEdit :: "LineReplacement \<Rightarrow> AbstractText \<Rightarrow> StringReplacement option result" where
  "LineReplacement_toSingleEdit r A =
     rbind (LineReplacement_toSingleTextEdit r A) (\<lambda>e. case e of
       None \<Rightarrow> Inr None
     | Some textEdit \<Rightarrow>
         rbind (AbstractText_getValue A) (\<lambda>v.
         rbind (Transformer_getOffsetRange v (tr_range textEdit)) (\<lambda>rg.
         Inr (Some \<lparr>sr_range = rg, sr_newText = tr_text textEdit\<rparr>))))"

text \<open>The two loops of \<open>removeCommonSuffixPrefixLines\<close>; the lines of the text are read as the loops need them.\<close>

function trim_start_loop :: "AbstractText \<Rightarrow> text16 list \<Rightarrow> int \<Rightarrow> int \<Rightarrow> nat \<Rightarrow> (int \<times> nat) result" where
  "trim_start_loop A newLines startLine endLineEx trimStart =
     (if startLine < endLineEx \<and> trimStart < length newLines then
        rbind (AbstractText_getLineAt A startLine) (\<lambda>l.
          if newLines ! trimStart = l then trim_start_loop A newLines (startLine + 1) endLineEx (trimStart + 1)
          else Inr (startLine, trimStart))
      else Inr (startLine, trimStart))"
  by pat_completeness auto
termination by (relation "measure (\<lambda>(A, newLines, s, e, k). nat (e - s))") auto

declare trim_start_loop.simps [simp del]

function trim_end_loop :: "AbstractText \<Rightarrow> text16 list \<Rightarrow> int \<Rightarrow> nat \<Rightarrow> int \<Rightarrow> nat \<Rightarrow> (int \<times> nat) result" where
  "trim_end_loop A newLines startLine trimStart endLineEx trimEnd =
     (if startLine < endLineEx \<and> trimEnd + trimStart < length newLines then
        rbind (AbstractText_getLineAt A (endLineEx - 1)) (\<lambda>l.
          if newLines ! (length newLines - 1 - trimEnd) = l
          then trim_end_loop A newLines startLine trimStart (endLineEx - 1) (trimEnd + 1)
          else Inr (endLineEx, trimEnd))
      else Inr (endLineEx, trimEnd))"
  by pat_completeness auto
termination by (relation "measure (\<lambda>(A, newLines, s, k, e, j). nat (e - s))") auto

declare trim_end_loop.simps [simp del]

definition LineReplacement_removeCommonSuffixPrefixLines :: "LineReplacement \<Rightarrow> AbstractText \<Rightarrow> LineReplacement result" where
  "LineReplacement_removeCommonSuffixPrefixLines r A =
     rbind (trim_start_loop A (lr_newLines r) (lrStartLineNumber (lr_lineRange r)) (endLineNumberExclusive (lr_lineRange r)) 0)
       (\<lambda>(startLine, trimStart).
     rbind (trim_end_loop A (lr_newLines r) startLine trimStart (endLineNumberExclusive (lr_lineRange r)) 0)
       (\<lambda>(endLineEx, trimEnd).
     if trimStart = 0 \<and> trimEnd = 0 then Inr r
     else rbind (LineRange_new startLine endLineEx) (\<lambda>rg.
          Inr (LineReplacement_new rg (js_slice (lr_newLines r) (int trimStart) (int (length (lr_newLines r)) - int trimEnd))))))"

section \<open>Line edits\<close>

record LineEdit =
  le_replacements :: "LineReplacement list"

text \<open>\<open>checkAdjacentItems\<close> with the order of the line ranges.\<close>

fun LineEdit_check :: "LineReplacement list \<Rightarrow> bool" where
  "LineEdit_check (a # b # rs) \<longleftrightarrow>
     endLineNumberExclusive (lr_lineRange a) \<le> lrStartLineNumber (lr_lineRange b) \<and> LineEdit_check (b # rs)"
| "LineEdit_check [] \<longleftrightarrow> True"
| "LineEdit_check [a] \<longleftrightarrow> True"

definition LineEdit_new :: "LineReplacement list \<Rightarrow> LineEdit result" where
  "LineEdit_new rs = (if LineEdit_check rs then Inr \<lparr>le_replacements = rs\<rparr> else Inl BugIndicatingError)"

definition LineEdit_empty :: LineEdit where
  "LineEdit_empty = \<lparr>le_replacements = []\<rparr>"

definition LineReplacement_toLineEdit :: "LineReplacement \<Rightarrow> LineEdit result" where
  "LineReplacement_toLineEdit r = LineEdit_new [r]"

definition LineEdit_deserialize :: "(int \<times> int \<times> text16 list) list \<Rightarrow> LineEdit result" where
  "LineEdit_deserialize d = rbind (rmap LineReplacement_deserialize d) LineEdit_new"

definition LineEdit_serialize :: "LineEdit \<Rightarrow> (int \<times> int \<times> text16 list) list" where
  "LineEdit_serialize ed = List.map LineReplacement_serialize (le_replacements ed)"

text \<open>The loop of \<open>fromTextEdit\<close> joins the edits of a text edit that share a line.\<close>

fun fromTextEdit_loop :: "AbstractText \<Rightarrow> TextReplacement list \<Rightarrow> TextReplacement list \<Rightarrow> LineReplacement list option result" where
  "fromTextEdit_loop A [] currentEdits = Inr (Some [])"
| "fromTextEdit_loop A (e # es) currentEdits =
     (let currentEdits = currentEdits @ [e]
      in if es \<noteq> [] \<and> startLineNumber (tr_range (hd es)) = endLineNumber (tr_range e)
         then fromTextEdit_loop A es currentEdits
         else rbind (TextReplacement_joinReplacements currentEdits A) (\<lambda>singleEdit.
              rbind (LineReplacement_fromSingleTextEdit singleEdit A) (\<lambda>singleLineEdit.
              case singleLineEdit of
                None \<Rightarrow> Inr None
              | Some r \<Rightarrow> rbind (fromTextEdit_loop A es []) (\<lambda>rs. Inr (map_option (\<lambda>rs. r # rs) rs)))))"

definition LineEdit_fromTextEdit :: "TextEdit \<Rightarrow> AbstractText \<Rightarrow> LineEdit option result" where
  "LineEdit_fromTextEdit ed A =
     rbind (fromTextEdit_loop A (te_replacements ed) []) (\<lambda>rs. case rs of
       None \<Rightarrow> Inr None
     | Some rs \<Rightarrow> rbind (LineEdit_new rs) (\<lambda>e. Inr (Some e)))"

definition LineEdit_fromStringEdit :: "StringReplacement BaseEdit \<Rightarrow> AbstractText \<Rightarrow> LineEdit option result" where
  "LineEdit_fromStringEdit ed A =
     rbind (TextEdit_fromStringEdit ed A) (\<lambda>t. case t of
       None \<Rightarrow> Inr None
     | Some textEdit \<Rightarrow> LineEdit_fromTextEdit textEdit A)"

definition LineEdit_createFromUnsorted :: "LineReplacement list \<Rightarrow> LineEdit result" where
  "LineEdit_createFromUnsorted edits =
     LineEdit_new (js_sort (\<lambda>a b. lrStartLineNumber (lr_lineRange a) - lrStartLineNumber (lr_lineRange b)) edits)"

definition LineEdit_isEmpty :: "LineEdit \<Rightarrow> bool" where
  "LineEdit_isEmpty ed \<longleftrightarrow> length (le_replacements ed) = 0"

definition LineEdit_toEdit :: "LineEdit \<Rightarrow> AbstractText \<Rightarrow> StringReplacement BaseEdit option result" where
  "LineEdit_toEdit ed A =
     rbind (rmap (\<lambda>r. LineReplacement_toSingleEdit r A) (le_replacements ed)) (\<lambda>es. case those es of
       None \<Rightarrow> Inr None
     | Some es \<Rightarrow> rbind (StringEdit_new es) (\<lambda>e. Inr (Some e)))"

fun getNewLineRanges_loop :: "LineReplacement list \<Rightarrow> int \<Rightarrow> LineRange list result" where
  "getNewLineRanges_loop [] offset = Inr []"
| "getNewLineRanges_loop (e # es) offset =
     rbind (LineRange_ofLength (lrStartLineNumber (lr_lineRange e) + offset) (int (length (lr_newLines e)))) (\<lambda>rg.
     rbind (getNewLineRanges_loop es (offset + (int (length (lr_newLines e)) - LineRange_length (lr_lineRange e)))) (\<lambda>rgs.
     Inr (rg # rgs)))"

definition LineEdit_getNewLineRanges :: "LineEdit \<Rightarrow> LineRange list result" where
  "LineEdit_getNewLineRanges ed = getNewLineRanges_loop (le_replacements ed) 0"

fun mapLineNumber_loop :: "LineReplacement list \<Rightarrow> int \<Rightarrow> int \<Rightarrow> int" where
  "mapLineNumber_loop [] line lineDelta = line + lineDelta"
| "mapLineNumber_loop (e # es) line lineDelta =
     (if endLineNumberExclusive (lr_lineRange e) > line then line + lineDelta
      else mapLineNumber_loop es line (lineDelta + (int (length (lr_newLines e)) - LineRange_length (lr_lineRange e))))"

definition LineEdit_mapLineNumber :: "LineEdit \<Rightarrow> int \<Rightarrow> int" where
  "LineEdit_mapLineNumber ed line = mapLineNumber_loop (le_replacements ed) line 0"

definition LineEdit_mapLineRange :: "LineEdit \<Rightarrow> LineRange \<Rightarrow> LineRange result" where
  "LineEdit_mapLineRange ed rg =
     LineRange_new (LineEdit_mapLineNumber ed (lrStartLineNumber rg)) (LineEdit_mapLineNumber ed (endLineNumberExclusive rg))"

text \<open>\<open>apply\<close> pushes \<open>lines[i]\<close>, which is \<open>undefined\<close> (None) outside the array.\<close>

fun LineEdit_apply_loop :: "text16 list \<Rightarrow> LineReplacement list \<Rightarrow> int \<Rightarrow> text16 option list" where
  "LineEdit_apply_loop lines [] currentLineIndex = List.map (js_at lines) [currentLineIndex..int (length lines) - 1]"
| "LineEdit_apply_loop lines (e # es) currentLineIndex =
     List.map (js_at lines) [currentLineIndex..lrStartLineNumber (lr_lineRange e) - 2] @
     List.map Some (lr_newLines e) @
     LineEdit_apply_loop lines es (endLineNumberExclusive (lr_lineRange e) - 1)"

definition LineEdit_apply :: "LineEdit \<Rightarrow> text16 list \<Rightarrow> text16 option list" where
  "LineEdit_apply ed lines = LineEdit_apply_loop lines (le_replacements ed) 0"

definition LineEdit_inverse :: "LineEdit \<Rightarrow> text16 list \<Rightarrow> LineEdit result" where
  "LineEdit_inverse ed originalLines =
     rbind (LineEdit_getNewLineRanges ed) (\<lambda>newRanges.
     LineEdit_new (List.map (\<lambda>(e, rg). LineReplacement_new rg
         (js_slice originalLines (lrStartLineNumber (lr_lineRange e) - 1) (endLineNumberExclusive (lr_lineRange e) - 1)))
       (zip (le_replacements ed) newRanges)))"

definition LineEdit_mapBackLineRange :: "LineEdit \<Rightarrow> LineRange \<Rightarrow> text16 list \<Rightarrow> LineRange result" where
  "LineEdit_mapBackLineRange ed rg originalLines =
     rbind (LineEdit_inverse ed originalLines) (\<lambda>i. LineEdit_mapLineRange i rg)"

text \<open>\<open>some\<close> within \<open>some\<close> stops at the first pair of ranges that intersect or touch.\<close>

fun touches_any :: "LineReplacement \<Rightarrow> LineReplacement list \<Rightarrow> bool result" where
  "touches_any e1 [] = Inr False"
| "touches_any e1 (e2 # es) =
     rbind (LineRange_intersect (lr_lineRange e1) (lr_lineRange e2)) (\<lambda>x. if x \<noteq> None then Inr True else touches_any e1 es)"

fun touches_loop :: "LineReplacement list \<Rightarrow> LineReplacement list \<Rightarrow> bool result" where
  "touches_loop [] es = Inr False"
| "touches_loop (e # rs) es = rbind (touches_any e es) (\<lambda>b. if b then Inr True else touches_loop rs es)"

definition LineEdit_touches :: "LineEdit \<Rightarrow> LineEdit \<Rightarrow> bool result" where
  "LineEdit_touches ed other = touches_loop (le_replacements ed) (le_replacements other)"

definition LineEdit_rebase :: "LineEdit \<Rightarrow> LineEdit \<Rightarrow> LineEdit result" where
  "LineEdit_rebase ed base =
     rbind (rmap (\<lambda>e. rbind (LineEdit_mapLineRange base (lr_lineRange e)) (\<lambda>rg. Inr (LineReplacement_new rg (lr_newLines e))))
              (le_replacements ed)) LineEdit_new"

end
