(* ===== verification/Line_Edit_Laws.thy ===== *)
theory Line_Edit_Laws
  imports Line_Edits
begin

text \<open>
  Line edits as edits of the array of lines and as edits of the text: \<open>apply\<close> is the effect of the replacements on
  the array, and the conversions to string edits and from text edits keep it, for texts whose only line breaks
  are \<open>\n\<close>.
\<close>

section \<open>The lines of a text\<close>

text \<open>The text with a line break in front of every line.\<close>

definition line_blocks :: "text16 list \<Rightarrow> text16" where
  "line_blocks ls = concat (List.map (\<lambda>l. 10 # l) ls)"

definition plain_lines :: "text16 list \<Rightarrow> bool" where
  "plain_lines ls \<longleftrightarrow> ls \<noteq> [] \<and> (\<forall>l \<in> set ls. 10 \<notin> set l \<and> 13 \<notin> set l)"

text \<open>Where the line break in front of line \<open>i\<close> is in \<open>line_blocks\<close>, which is where line \<open>i\<close> starts in the text.\<close>

definition line_offset :: "text16 list \<Rightarrow> nat \<Rightarrow> nat" where
  "line_offset ls i = length (line_blocks (take i ls))"

lemma line_blocks_simps [simp]:
  "line_blocks [] = []" "line_blocks (l # ls) = 10 # l @ line_blocks ls" "line_blocks (ls @ ms) = line_blocks ls @ line_blocks ms"
  by (simp_all add: line_blocks_def)

lemma join_lines_blocks: "ls \<noteq> [] \<Longrightarrow> 10 # join_lines ls = line_blocks ls"
  by (induction ls rule: join_lines.induct) auto

lemma splitLines_not_Nil [simp]: "splitLines t \<noteq> []"
  by (cases t rule: splitLines.cases) auto

lemma splitLines_plain: "13 \<notin> set t \<Longrightarrow> plain_lines (splitLines t) \<and> line_blocks (splitLines t) = 10 # t"
proof (induction t)
  case (Cons c t)
  then have IH: "plain_lines (splitLines t)" "line_blocks (splitLines t) = 10 # t" by auto
  show ?case using IH Cons.prems by (cases "splitLines t") (auto simp: plain_lines_def)
qed (simp add: plain_lines_def)

lemma join_splitLines: "13 \<notin> set t \<Longrightarrow> join_lines (splitLines t) = t"
  using join_lines_blocks [of "splitLines t"] splitLines_plain [of t] by simp

lemma splitLines_line: "10 \<notin> set t \<Longrightarrow> 13 \<notin> set t \<Longrightarrow> splitLines t = [t]"
  by (induction t) auto

lemma splitLines_append:
  "13 \<notin> set a \<Longrightarrow> splitLines (a @ b) = butlast (splitLines a) @ (last (splitLines a) @ hd (splitLines b)) # tl (splitLines b)"
proof (induction a)
  case (Cons c a)
  have ne: "splitLines a \<noteq> []" by simp
  then show ?case using Cons by (cases "splitLines a") auto
qed simp

lemma splitLines_break: "13 \<notin> set a \<Longrightarrow> splitLines (a @ 10 # b) = splitLines a @ splitLines b"
  using splitLines_append [of a "10 # b"] by simp

lemma splitLines_blocks:
  assumes "plain_lines ls" shows "splitLines (tl (line_blocks ls)) = ls"
  using assms
proof (induction ls)
  case (Cons l ls)
  then show ?case
  proof (cases ls)
    case (Cons m ms)
    then have "line_blocks ls = 10 # tl (line_blocks ls)" by simp
    then show ?thesis using Cons.IH Cons.prems Cons splitLines_break [of l "tl (line_blocks ls)"]
      by (auto simp: plain_lines_def splitLines_line)
  qed (auto simp: plain_lines_def splitLines_line)
qed (simp add: plain_lines_def)

lemma line_offset_simps [simp]:
  "line_offset ls 0 = 0" "line_offset ls (length ls) = length (line_blocks ls)"
  "i < length ls \<Longrightarrow> line_offset ls (Suc i) = line_offset ls i + Suc (length (ls ! i))"
  by (simp_all add: line_offset_def take_Suc_conv_app_nth)

lemma line_offset_less: "i < j \<Longrightarrow> j \<le> length ls \<Longrightarrow> line_offset ls i < line_offset ls j"
proof (induction j)
  case (Suc j)
  then show ?case by (cases "i = j") auto
qed simp

lemma line_offset_le: "i \<le> j \<Longrightarrow> j \<le> length ls \<Longrightarrow> line_offset ls i \<le> line_offset ls j"
  using line_offset_less [of i j ls] by (cases "i = j") auto

lemma drop_blocks: "i \<le> length ls \<Longrightarrow> drop (line_offset ls i) (line_blocks ls) = line_blocks (drop i ls)"
  using line_blocks_simps(3) [of "take i ls" "drop i ls"] by (simp add: line_offset_def)

lemma newlines_blocks:
  "\<forall>l \<in> set ls. 10 \<notin> set l \<Longrightarrow> newlines (line_blocks ls) = List.map (line_offset ls) [0..<length ls]"
proof (induction ls rule: rev_induct)
  case (snoc l ls)
  have "newlines l = []" using snoc.prems by (auto simp: newlines_def in_set_conv_nth)
  then have l: "newlines (10 # l) = [0]" using newlines_append [of "[10]" l] by (simp add: newlines_single)
  have "newlines (line_blocks (ls @ [l])) = newlines (line_blocks ls) @ [length (line_blocks ls)]"
    using newlines_append [of "line_blocks ls" "10 # l"] l by simp
  then show ?case using snoc by (simp add: line_offset_def)
qed (simp add: newlines_def)

lemma newlines_lines:
  assumes "plain_lines ls" and "line_blocks ls = 10 # s"
  shows "length (newlines s) = length ls - 1" and "Suc i < length ls \<Longrightarrow> newlines s ! i = line_offset ls (Suc i) - 1"
proof -
  have n: "length ls = Suc (length ls - 1)" using assms(1) by (cases ls) (auto simp: plain_lines_def)
  have "newlines (10 # s) = 0 # List.map Suc (newlines s)"
    using newlines_append [of "[10]" s] by (simp add: newlines_single)
  moreover have "newlines (10 # s) = List.map (line_offset ls) [0..<length ls]"
    using newlines_blocks [of ls] assms by (simp add: plain_lines_def)
  moreover have "\<dots> = 0 # List.map (line_offset ls) [1..<length ls]"
    using n by (metis One_nat_def line_offset_simps(1) list.simps(9) upt_conv_Cons zero_less_Suc)
  ultimately have eq: "List.map Suc (newlines s) = List.map (line_offset ls) [1..<length ls]" by simp
  from arg_cong [OF eq, of length] show len: "length (newlines s) = length ls - 1" by simp
  assume i: "Suc i < length ls"
  with arg_cong [OF eq, of "\<lambda>l. l ! i"] len show "newlines s ! i = line_offset ls (Suc i) - 1" by simp
qed

lemma line_tables:
  assumes "plain_lines ls" and "line_blocks ls = 10 # s" and "13 \<notin> set s" and "i < length ls"
  shows "line_from s i = int (line_offset ls i)" and "line_to s i = int (line_offset ls i + length (ls ! i))"
    and "Transformer_getLineLength s (int i + 1) = Some (int (length (ls ! i)))"
    and "lineCount (Transformer_textLength s) = int (length ls) - 1"
proof -
  note n = newlines_lines [OF assms(1,2)]
  have len: "length ls = Suc (length (newlines s))" using n(1) assms(1) by (cases ls) (auto simp: plain_lines_def)
  show lower: "line_from s i = int (line_offset ls i)"
  proof (cases i)
    case (Suc j)
    then show ?thesis using n(2) [of j] assms(4) len line_from_Suc [of j s] by simp
  qed (simp add: line_from_0)
  show upper: "line_to s i = int (line_offset ls i + length (ls ! i))"
  proof (cases "Suc i < length ls")
    case True
    have "newlines s ! i - Suc 0 < length s \<longrightarrow> s ! (newlines s ! i - Suc 0) \<noteq> 13" using assms(3) by (metis nth_mem)
    moreover have "newlines s ! i < length s" using newline_at [of i s] True len by simp
    ultimately have "line_end s (newlines s ! i) = int (newlines s ! i)" by (simp add: line_end_def)
    then show ?thesis using True n(2) [of i] len line_to_break [of i s] by simp
  next
    case False
    then have i: "length ls = Suc i" using assms(4) by simp
    have "length (line_blocks ls) = line_offset ls (Suc i)" using i line_offset_simps(2) [of ls] by simp
    then have "length s = line_offset ls i + length (ls ! i)" using assms(2,4) by simp
    then show ?thesis using line_to_last [of s] i len by simp
  qed
  show "Transformer_getLineLength s (int i + 1) = Some (int (length (ls ! i)))"
    using getLineLength_eq [of i s] assms(4) len lower upper by simp
  show "lineCount (Transformer_textLength s) = int (length ls) - 1"
    using starts_length [of s] len by (simp add: textLength_eq)
qed

lemma line_position:
  assumes "plain_lines ls" and "line_blocks ls = 10 # s" and "13 \<notin> set s" and "i < length ls" and "c \<le> length (ls ! i)"
  shows "position_at s (line_offset ls i + c) = Position_new (int i + 1) (int c + 1)"
    and "Transformer_getOffset s (Position_new (int i + 1) (int c + 1)) = int (line_offset ls i + c)"
proof -
  note t = line_tables [OF assms(1-4)]
  have i: "i \<le> length (newlines s)" using newlines_lines(1) [OF assms(1,2)] assms(4) by simp
  have k: "line_from s i \<le> int (line_offset ls i + c)" "int (line_offset ls i + c) \<le> line_to s i" using t(1,2) assms(5) by simp_all
  show p: "position_at s (line_offset ls i + c) = Position_new (int i + 1) (int c + 1)"
    using position_at_line [OF i k] t(1) by simp
  show "Transformer_getOffset s (Position_new (int i + 1) (int c + 1)) = int (line_offset ls i + c)"
    using getOffset_at [OF line_breakable [OF i k]] unfolding p .
qed

section \<open>Edits of the array of lines\<close>

definition line_rg :: "LineReplacement \<Rightarrow> OffsetRange" where
  "line_rg r = mk_offset (lrStartLineNumber (lr_lineRange r) - 1) (endLineNumberExclusive (lr_lineRange r) - 1)"

definition line_edit_within :: "LineEdit \<Rightarrow> nat \<Rightarrow> bool" where
  "line_edit_within ed n \<longleftrightarrow> fits line_rg 0 (int n) (le_replacements ed)"

lemma line_rg_sel [simp]:
  "start (line_rg r) = lrStartLineNumber (lr_lineRange r) - 1" "endExclusive (line_rg r) = endLineNumberExclusive (lr_lineRange r) - 1"
  by (simp_all add: line_rg_def)

lemma line_fits_check: "fits line_rg p n rs \<Longrightarrow> LineEdit_check rs"
  by (induction rs arbitrary: p rule: LineEdit_check.induct) auto

lemma LineEdit_apply_loop_appl:
  "fits line_rg p (int (length ls)) rs \<Longrightarrow> 0 \<le> p \<Longrightarrow>
     LineEdit_apply_loop ls rs p = List.map Some (appl line_rg lr_newLines p rs (drop (nat p) ls))"
proof (induction rs arbitrary: p)
  case Nil
  then show ?case using map_js_at_upto [of p "int (length ls)" ls] by simp
next
  case (Cons r rs)
  let ?s = "start (line_rg r)" and ?e = "endExclusive (line_rg r)"
  have r: "p \<le> ?s" "?s \<le> ?e" "fits line_rg ?e (int (length ls)) rs" using Cons.prems by auto
  then have "?e \<le> int (length ls)" using fits_le by blast
  moreover have "drop (nat (?e - p)) (drop (nat p) ls) = drop (nat ?e) ls"
    using r Cons.prems(2) by (simp flip: nat_add_distrib)
  ultimately show ?case
    using Cons.IH [OF r(3)] r Cons.prems(2) map_js_at_upto [of p ?s ls] by (simp del: drop_drop)
qed

lemma line_apply:
  "line_edit_within ed (length ls) \<Longrightarrow> LineEdit_apply ed ls = List.map Some (appl line_rg lr_newLines 0 (le_replacements ed) ls)"
  using LineEdit_apply_loop_appl [of 0 ls "le_replacements ed"] by (simp add: LineEdit_apply_def line_edit_within_def)

lemma getNewLineRanges_ok:
  assumes "fits line_rg p (int (length ls)) rs" and "0 \<le> p"
  obtains rgs where "getNewLineRanges_loop rs d = Inr rgs" and "length rgs = length rs"
    and "List.map (\<lambda>(e, rg). LineReplacement_new rg
         (js_slice ls (lrStartLineNumber (lr_lineRange e) - 1) (endLineNumberExclusive (lr_lineRange e) - 1))) (zip rs rgs) =
      List.map (\<lambda>(g, ls). LineReplacement_new \<lparr>lrStartLineNumber = start g + 1, endLineNumberExclusive = endExclusive g + 1\<rparr> ls)
        (inverses line_rg lr_newLines ls rs d)"
  using assms
proof (induction rs arbitrary: p d thesis)
  case (Cons r rs)
  have r: "0 \<le> start (line_rg r)" "start (line_rg r) \<le> endExclusive (line_rg r)"
    "fits line_rg (endExclusive (line_rg r)) (int (length ls)) rs" "0 \<le> endExclusive (line_rg r)" using Cons.prems by auto
  then have e: "endExclusive (line_rg r) \<le> int (length ls)" using fits_le by blast
  obtain rgs where "getNewLineRanges_loop rs (d + (int (length (lr_newLines r)) - LineRange_length (lr_lineRange r))) = Inr rgs"
    "length rgs = length rs"
    "List.map (\<lambda>(e, rg). LineReplacement_new rg
         (js_slice ls (lrStartLineNumber (lr_lineRange e) - 1) (endLineNumberExclusive (lr_lineRange e) - 1))) (zip rs rgs) =
      List.map (\<lambda>(g, ls). LineReplacement_new \<lparr>lrStartLineNumber = start g + 1, endLineNumberExclusive = endExclusive g + 1\<rparr> ls)
        (inverses line_rg lr_newLines ls rs (d + (int (length (lr_newLines r)) - LineRange_length (lr_lineRange r))))"
    using Cons.IH [OF _ r(3,4)] by blast
  then show ?case
    using Cons.prems(1) [of "\<lparr>lrStartLineNumber = lrStartLineNumber (lr_lineRange r) + d,
        endLineNumberExclusive = lrStartLineNumber (lr_lineRange r) + d + int (length (lr_newLines r))\<rparr> # rgs"] r e
    by (simp add: LineRange_ofLength_def LineRange_new_def LineRange_length_def js_slice_in algebra_simps)
qed simp

lemma line_inverse:
  assumes "line_edit_within ed (length ls)"
  obtains inv where "LineEdit_inverse ed ls = Inr inv" and "line_edit_within inv (length (LineEdit_apply ed ls))"
    and "LineEdit_apply inv (List.map the (LineEdit_apply ed ls)) = List.map Some ls"
proof -
  define ms where "ms = appl line_rg lr_newLines 0 (le_replacements ed) ls"
  have ap: "LineEdit_apply ed ls = List.map Some ms" unfolding ms_def by (rule line_apply [OF assms])
  have f: "fits line_rg 0 (int (length ls)) (le_replacements ed)" using assms by (simp add: line_edit_within_def)
  obtain rgs where rgs: "getNewLineRanges_loop (le_replacements ed) 0 = Inr rgs" "length rgs = length (le_replacements ed)"
    "List.map (\<lambda>(e, rg). LineReplacement_new rg
         (js_slice ls (lrStartLineNumber (lr_lineRange e) - 1) (endLineNumberExclusive (lr_lineRange e) - 1))) (zip (le_replacements ed) rgs) =
      List.map (\<lambda>(g, ls). LineReplacement_new \<lparr>lrStartLineNumber = start g + 1, endLineNumberExclusive = endExclusive g + 1\<rparr> ls)
        (inverses line_rg lr_newLines ls (le_replacements ed) 0)"
    by (rule getNewLineRanges_ok [OF f order_refl])
  define inv where "inv = \<lparr>le_replacements = List.map (\<lambda>(g, ls). LineReplacement_new
      \<lparr>lrStartLineNumber = start g + 1, endLineNumberExclusive = endExclusive g + 1\<rparr> ls) (inverses line_rg lr_newLines ls (le_replacements ed) 0)\<rparr>"
  note eff = inverses_effect [OF f order_refl, of 0 lr_newLines]
  have rg: "line_rg (case x of (g, ls) \<Rightarrow> LineReplacement_new \<lparr>lrStartLineNumber = start g + 1, endLineNumberExclusive = endExclusive g + 1\<rparr> ls) = fst x"
    "lr_newLines (case x of (g, ls) \<Rightarrow> LineReplacement_new \<lparr>lrStartLineNumber = start g + 1, endLineNumberExclusive = endExclusive g + 1\<rparr> ls) = snd x" for x
    by (simp_all add: line_rg_def LineReplacement_new_def case_prod_unfold)
  have within: "line_edit_within inv (length ms)"
    using eff by (simp add: inv_def line_edit_within_def fits_through rg ms_def)
  have "LineEdit_inverse ed ls = Inr inv"
    using rgs within unfolding line_edit_within_def
    by (auto simp: LineEdit_inverse_def LineEdit_getNewLineRanges_def LineEdit_new_def inv_def dest: line_fits_check)
  moreover have "LineEdit_apply inv ms = List.map Some ls"
    unfolding line_apply [OF within] using eff by (simp add: inv_def appl_map rg ms_def)
  moreover have "List.map the (LineEdit_apply ed ls) = ms" by (simp add: ap comp_def)
  ultimately show thesis using that within by (simp add: ap)
qed

text \<open>A line outside the replaced ranges keeps its content, and \<open>mapLineNumber\<close> says where it is.\<close>

lemma mapLineNumber_track:
  assumes "fits line_rg p (int (length ls)) rs" and "0 \<le> p" and "p < line" and "line \<le> int (length ls)"
    and "\<forall>r \<in> set rs. \<not> LineRange_contains (lr_lineRange r) line" and "0 \<le> p + d"
  shows "p + d < mapLineNumber_loop rs line d \<and>
    nat (mapLineNumber_loop rs line d - 1 - (p + d)) < length (appl line_rg lr_newLines p rs (drop (nat p) ls)) \<and>
    appl line_rg lr_newLines p rs (drop (nat p) ls) ! nat (mapLineNumber_loop rs line d - 1 - (p + d)) = ls ! nat (line - 1)"
  using assms
proof (induction rs arbitrary: p d)
  case Nil
  then have "nat (line + d - 1 - (p + d)) = nat (line - 1) - nat p" by (simp add: nat_diff_distrib')
  moreover have "nat p \<le> nat (line - 1)" "nat (line - 1) < length ls" using Nil(2-4) by (simp_all add: nat_less_iff)
  ultimately show ?case using Nil(3) by (simp add: less_diff_conv)
next
  case (Cons r rs)
  let ?s = "start (line_rg r)" and ?e = "endExclusive (line_rg r)"
  define d' where "d' = d + (int (length (lr_newLines r)) - LineRange_length (lr_lineRange r))"
  have r: "p \<le> ?s" "?s \<le> ?e" "fits line_rg ?e (int (length ls)) rs" "0 \<le> ?e" using Cons.prems by auto
  have en: "?e \<le> int (length ls)" using fits_le [OF r(3)] .
  have drop: "drop (nat (?e - p)) (drop (nat p) ls) = drop (nat ?e) ls" using r Cons.prems(2) by (simp flip: nat_add_distrib)
  have len: "length (take (nat (?s - p)) (drop (nat p) ls)) = nat (?s - p)" using r en Cons.prems(2) by simp
  have pl: "nat p \<le> length ls" using Cons.prems(2-4) by linarith
  show ?case
  proof (cases "endLineNumberExclusive (lr_lineRange r) > line")
    case True
    then have before: "line - 1 < ?s" using Cons.prems(5) by (auto simp: LineRange_contains_def)
    have "nat (line + d - 1 - (p + d)) = nat (line - 1) - nat p" using Cons.prems(2,3) by (simp add: nat_diff_distrib')
    moreover have "nat (line - 1) - nat p < nat (?s - p)" "nat p \<le> nat (line - 1)" using before Cons.prems(2,3) by (simp_all add: nat_diff_distrib')
    ultimately show ?thesis using True Cons.prems(3) len en pl by (simp add: nth_append)
  next
    case False
    have e': "?e + d' = p + d + (?s - p) + int (length (lr_newLines r))" by (simp add: d'_def LineRange_length_def)
    have IH: "?e + d' < mapLineNumber_loop rs line d'"
      "nat (mapLineNumber_loop rs line d' - 1 - (?e + d')) < length (appl line_rg lr_newLines ?e rs (drop (nat ?e) ls))"
      "appl line_rg lr_newLines ?e rs (drop (nat ?e) ls) ! nat (mapLineNumber_loop rs line d' - 1 - (?e + d')) = ls ! nat (line - 1)"
      using Cons.IH [OF r(3,4), of d'] False Cons.prems(4-6) e' r(1) by auto
    have whole: "appl line_rg lr_newLines p (r # rs) (drop (nat p) ls) =
        (take (nat (?s - p)) (drop (nat p) ls) @ lr_newLines r) @ appl line_rg lr_newLines ?e rs (drop (nat ?e) ls)"
      using drop by (simp del: drop_drop)
    have idx: "nat (mapLineNumber_loop rs line d' - 1 - (p + d)) =
        length (take (nat (?s - p)) (drop (nat p) ls) @ lr_newLines r) + nat (mapLineNumber_loop rs line d' - 1 - (?e + d'))"
      using IH(1) e' r(1) len by simp
    have run: "mapLineNumber_loop (r # rs) line d = mapLineNumber_loop rs line d'" using False by (simp add: d'_def)
    show ?thesis unfolding run whole idx nth_append_length_plus using IH e' r(1) by simp
  qed
qed

section \<open>Line edits as string edits\<close>

text \<open>Where \<open>toSingleEdit\<close> puts a replacement in the text, and its new text.\<close>

definition edit_span :: "text16 list \<Rightarrow> LineReplacement \<Rightarrow> OffsetRange" where
  "edit_span ls r =
     (let a = nat (lrStartLineNumber (lr_lineRange r) - 1); b = nat (endLineNumberExclusive (lr_lineRange r) - 1);
          n = length ls; off = (\<lambda>i. int (line_offset ls i))
      in if lr_newLines r = [] then
           (if b = n then mk_offset (if a = 0 then 0 else off a - 1) (off n - 1) else mk_offset (off a) (off b))
         else if a = b then (if a = n then mk_offset (off n - 1) (off n - 1) else mk_offset (off a) (off a))
         else mk_offset (off a) (off b - 1))"

definition edit_text :: "text16 list \<Rightarrow> LineReplacement \<Rightarrow> text16" where
  "edit_text ls r =
     (if lr_newLines r = [] then []
      else if LineRange_isEmpty (lr_lineRange r) then
        (if lrStartLineNumber (lr_lineRange r) = int (length ls) + 1 then line_blocks (lr_newLines r)
         else concat (List.map (\<lambda>l. l @ [10]) (lr_newLines r)))
      else join_lines (lr_newLines r))"

lemma breakable_plain: "13 \<notin> set s \<Longrightarrow> breakable s k \<longleftrightarrow> k \<le> length s"
  by (metis breakable_def in_set_conv_nth less_imp_diff_less)

lemma span_range:
  assumes "13 \<notin> set s" and "k \<le> l" and "l \<le> length s"
    and "Position_new m c = position_at s k" and "Position_new m' c' = position_at s l"
  shows "Transformer_getOffsetRange s (Range_new m c m' c') = Inr (mk_offset (int k) (int l))"
proof -
  have b: "breakable s k" "breakable s l" using assms(1-3) by (simp_all add: breakable_plain)
  have "position_at s k \<le> position_at s l" using assms(2,3) by simp
  then have "range_start (Range_new m c m' c') = position_at s k" "range_end (Range_new m c m' c') = position_at s l"
    unfolding assms(4,5) [symmetric] by (auto simp: Range_new_def IPosition_le_iff)
  then show ?thesis using assms(2) by (simp add: Transformer_getOffsetRange_def getOffset_at [OF b(1)] getOffset_at [OF b(2)])
qed

lemma toSingleEdit_span:
  assumes "plain_lines ls" and "line_blocks ls = 10 # s" and "13 \<notin> set s"
    and "0 \<le> start (line_rg r)" and "start (line_rg r) \<le> endExclusive (line_rg r)" and "endExclusive (line_rg r) \<le> int (length ls)"
  shows "LineReplacement_toSingleEdit r (StringText s) = Inr (Some \<lparr>sr_range = edit_span ls r, sr_newText = edit_text ls r\<rparr>)"
proof -
  define a where "a = nat (lrStartLineNumber (lr_lineRange r) - 1)"
  define b where "b = nat (endLineNumberExclusive (lr_lineRange r) - 1)"
  have ab: "lrStartLineNumber (lr_lineRange r) = int a + 1" "endLineNumberExclusive (lr_lineRange r) = int b + 1" "a \<le> b" "b \<le> length ls"
    using assms(4-6) by (simp_all add: a_def b_def nat_le_iff)
  note tab = line_tables [OF assms(1-3)] and pos = line_position(1) [OF assms(1-3)]
  have n: "length ls > 0" using assms(1) by (simp add: plain_lines_def)
  have len: "length s = line_offset ls (length ls) - 1" "0 < line_offset ls (length ls)"
    using assms(2) line_offset_simps(2) [of ls] by simp_all
  have count: "lineCount (Transformer_textLength s) = int (length ls) - 1" using tab(4) [of 0] n by simp
  have start: "Position_new (int i + 1) 1 = position_at s (line_offset ls i)" "line_offset ls i \<le> length s" if "i < length ls" for i
    using pos [OF that, of 0] line_offset_less [of i "length ls" ls] that len by simp_all
  have stop: "Position_new (int i + 1) (int (length (ls ! i)) + 1) = position_at s (line_offset ls (Suc i) - 1)"
    "line_offset ls (Suc i) - 1 \<le> length s" if "i < length ls" for i
    using pos [OF that, of "length (ls ! i)"] line_offset_le [of "Suc i" "length ls" ls] that len by simp_all
  have last: "TextLength_addToPosition (Transformer_textLength s) (Position_new 1 1) = position_at s (length s)"
    by (simp add: textLength_eq position_at_def)
  have val: "AbstractText_getValue (StringText s) = Inr s" by (rule string_text.getValue)
  note defs = LineReplacement_toSingleEdit_def LineReplacement_toSingleTextEdit_def edit_span_def edit_text_def Range_fromPositions_def
    TextReplacement_new_def Let_def
  have whole: "Position_new (lineNumber (position_at s k)) (column (position_at s k)) = position_at s k" for k by simp
  have off: "int (length (line_blocks ls)) - 1 = int (length s)" using assms(2) by simp
  consider (all) "lr_newLines r = []" "b = length ls" "a = 0" | (rear) i where "lr_newLines r = []" "b = length ls" "a = Suc i"
    | (rows) "lr_newLines r = []" "b < length ls" | (append) "lr_newLines r \<noteq> []" "a = b" "a = length ls"
    | (ins) "lr_newLines r \<noteq> []" "a = b" "a < length ls" | (repl) j where "lr_newLines r \<noteq> []" "a < b" "b = Suc j" "j < length ls"
    using ab(3,4) by (cases a; cases b) (auto simp: le_less)
  then show ?thesis
  proof cases
    case all
    then show ?thesis
      using span_range [OF assms(3) _ le_refl _ whole [of "length s"], of 0 1 1] ab
      by (simp add: defs val count last off flip: a_def b_def)
  next
    case (rear i)
    then have i: "i < length ls" using ab by simp
    have "Transformer_getLineLength s (int a) = Some (int (length (ls ! i)))" using tab(3) [OF i] rear(3) by (simp add: add.commute)
    moreover have "int (line_offset ls (Suc i) - 1) = int (line_offset ls (Suc i)) - 1" "nat (1 + int i) = Suc i" using i by simp_all
    ultimately show ?thesis
      using rear span_range [OF assms(3) stop(2) [OF i] le_refl stop(1) [OF i] whole] ab
      by (simp add: defs val count last off add.commute del: line_offset_simps(3) flip: a_def b_def)
  next
    case rows
    then show ?thesis
      using span_range [OF assms(3) line_offset_le [of a b ls] start(2) [of b] start(1) [of a] start(1) [of b]] ab
      by (simp add: defs val count flip: a_def b_def)
  next
    case append
    then obtain i where i: "length ls = Suc i" "i < length ls" using n by (cases "length ls") auto
    have "Transformer_getLineLength s (int a) = Some (int (length (ls ! i)))" using tab(3) [OF i(2)] append(3) i(1) by (simp add: add.commute)
    moreover have "line_offset ls (Suc i) - 1 = length s" "int (length s) = int (line_offset ls (Suc i)) - 1" "nat (1 + int i) = Suc i"
      using len i(1) by simp_all
    ultimately show ?thesis
      using append span_range [OF assms(3) le_refl stop(2) [OF i(2)] stop(1) [OF i(2)] stop(1) [OF i(2)]] ab i(1)
      by (simp add: line_blocks_def defs val count LineRange_isEmpty_def off add.commute del: line_offset_simps(3) flip: a_def b_def)
  next
    case ins
    then show ?thesis
      using span_range [OF assms(3) le_refl start(2) [of a] start(1) [of a] start(1) [of a]] ab
      by (simp add: defs val count LineRange_isEmpty_def flip: a_def b_def)
  next
    case (repl j)
    have "Transformer_getLineLength s (int b) = Some (int (length (ls ! j)))" using tab(3) [OF repl(4)] repl(3) by (simp add: add.commute)
    moreover have "line_offset ls a \<le> line_offset ls b - 1" using line_offset_less [of a b ls] repl(2) ab(4) by simp
    moreover have "int (line_offset ls b - 1) = int (line_offset ls b) - 1" "nat (1 + int j) = Suc j"
      using line_offset_less [of a b ls] repl(2) ab(4) by simp_all
    ultimately show ?thesis
      using repl span_range [OF assms(3) _ stop(2) [OF repl(4)] start(1) [of a] stop(1) [OF repl(4)]] ab
      by (simp add: defs val count LineRange_isEmpty_def add.commute del: line_offset_simps(3) flip: a_def b_def)
  qed
qed

text \<open>
  The conversion is right when at least one line lies between two replacements, and some line is left: a text has
  a line even when it is empty.
\<close>

fun line_gaps :: "LineReplacement list \<Rightarrow> bool" where
  "line_gaps (a # b # rs) \<longleftrightarrow> endLineNumberExclusive (lr_lineRange a) < lrStartLineNumber (lr_lineRange b) \<and> line_gaps (b # rs)"
| "line_gaps [] \<longleftrightarrow> True"
| "line_gaps [a] \<longleftrightarrow> True"

definition deletes_all :: "text16 list \<Rightarrow> LineReplacement \<Rightarrow> bool" where
  "deletes_all ls r \<longleftrightarrow> lr_newLines r = [] \<and> lrStartLineNumber (lr_lineRange r) = 1 \<and>
     endLineNumberExclusive (lr_lineRange r) = int (length ls) + 1"

abbreviation line_at :: "text16 list \<Rightarrow> nat \<Rightarrow> int" where
  "line_at ls i \<equiv> int (line_offset ls i)"

text \<open>The span behind the additional line break at the front of \<open>line_blocks\<close>.\<close>

definition block_span :: "text16 list \<Rightarrow> LineReplacement \<Rightarrow> OffsetRange" where
  "block_span ls r = mk_offset (start (edit_span ls r) + 1) (endExclusive (edit_span ls r) + 1)"

lemma block_span_cases:
  assumes "lrStartLineNumber (lr_lineRange r) = int a + 1" and "endLineNumberExclusive (lr_lineRange r) = int b + 1"
    and "a \<le> b" and "b \<le> length ls" and "ls \<noteq> []" and "\<not> deletes_all ls r"
  obtains (rear) "lr_newLines r = []" "b = length ls" "block_span ls r = mk_offset (line_at ls a) (line_at ls b)" "edit_text ls r = []"
    | (rows) "lr_newLines r = []" "b < length ls" "block_span ls r = mk_offset (line_at ls a + 1) (line_at ls b + 1)" "edit_text ls r = []"
    | (append) "lr_newLines r \<noteq> []" "a = length ls" "b = a" "block_span ls r = mk_offset (line_at ls a) (line_at ls a)"
        "edit_text ls r = line_blocks (lr_newLines r)"
    | (ins) "lr_newLines r \<noteq> []" "a < length ls" "b = a" "block_span ls r = mk_offset (line_at ls a + 1) (line_at ls a + 1)"
        "10 # edit_text ls r = line_blocks (lr_newLines r) @ [10]"
    | (repl) "lr_newLines r \<noteq> []" "a < b" "block_span ls r = mk_offset (line_at ls a + 1) (line_at ls b)"
        "10 # edit_text ls r = line_blocks (lr_newLines r)"
proof -
  have shift: "10 # concat (List.map (\<lambda>l. l @ [10]) ms) = line_blocks ms @ [10]" for ms by (induction ms) auto
  have span: "block_span ls r =
      (if lr_newLines r = [] then
         (if b = length ls then mk_offset (if a = 0 then 1 else line_at ls a) (line_at ls b) else mk_offset (line_at ls a + 1) (line_at ls b + 1))
       else if a = b then (if a = length ls then mk_offset (line_at ls a) (line_at ls a) else mk_offset (line_at ls a + 1) (line_at ls a + 1))
       else mk_offset (line_at ls a + 1) (line_at ls b))"
    using assms(1,2) by (auto simp: block_span_def edit_span_def Let_def)
  have new_text: "edit_text ls r =
      (if lr_newLines r = [] then [] else if a = b then
         (if a = length ls then line_blocks (lr_newLines r) else concat (List.map (\<lambda>l. l @ [10]) (lr_newLines r)))
       else join_lines (lr_newLines r))"
    using assms(1,2) by (auto simp: edit_text_def LineRange_isEmpty_def)
  consider "lr_newLines r = []" "b = length ls" "a \<noteq> 0" | "lr_newLines r = []" "b < length ls" | "lr_newLines r \<noteq> []" "a = b" "a = length ls"
    | "lr_newLines r \<noteq> []" "a = b" "a < length ls" | "lr_newLines r \<noteq> []" "a < b"
    using assms by (auto simp: deletes_all_def le_less)
  then show thesis
  proof cases
    case 1
    then show thesis by (intro rear) (simp_all add: span new_text)
  next
    case 2
    then show thesis by (intro rows) (simp_all add: span new_text)
  next
    case 3
    then show thesis by (intro append) (simp_all add: span new_text)
  next
    case 4
    then show thesis by (intro ins) (simp_all add: span new_text shift)
  next
    case 5
    then show thesis by (intro repl) (simp_all add: span new_text join_lines_blocks)
  qed
qed

lemma appl_behind:
  "rs = [] \<or> q + 1 \<le> start (rg (hd rs)) \<and> start (rg (hd rs)) \<le> endExclusive (rg (hd rs)) \<Longrightarrow>
     appl rg content q rs (c # x) = c # appl rg content (q + 1) rs x"
proof (cases rs)
  case (Cons r rs')
  assume "rs = [] \<or> q + 1 \<le> start (rg (hd rs)) \<and> start (rg (hd rs)) \<le> endExclusive (rg (hd rs))"
  then have "nat (start (rg r) - q) = Suc (nat (start (rg r) - (q + 1)))" "nat (endExclusive (rg r) - q) = Suc (nat (endExclusive (rg r) - (q + 1)))"
    using Cons by (simp_all add: Suc_nat_eq_nat_zadd1)
  then show ?thesis using Cons by simp
qed simp

lemma fits_behind: "rs = [] \<or> q \<le> start (rg (hd rs)) \<Longrightarrow> fits rg p n rs \<Longrightarrow> q \<le> n \<Longrightarrow> fits rg q n rs"
  by (cases rs) auto

lemma line_edit_effect:
  assumes "plain_lines ls" and "fits line_rg (int p) (int (length ls)) rs" and "line_gaps rs" and "\<forall>r \<in> set rs. \<not> deletes_all ls r"
  shows "fits (block_span ls) (line_at ls p) (line_at ls (length ls)) rs \<and>
    appl (block_span ls) (edit_text ls) (line_at ls p) rs (line_blocks (drop p ls)) =
      line_blocks (appl line_rg lr_newLines (int p) rs (drop p ls))"
  using assms(2-4)
proof (induction rs arbitrary: p)
  case Nil
  then show ?case using line_offset_le [of p "length ls" ls] by simp
next
  case (Cons r rs)
  have ne: "ls \<noteq> []" using assms(1) by (simp add: plain_lines_def)
  obtain a b where ab: "lrStartLineNumber (lr_lineRange r) = int a + 1" "endLineNumberExclusive (lr_lineRange r) = int b + 1"
    "p \<le> a" "a \<le> b" "fits line_rg (int b) (int (length ls)) rs"
  proof (rule that)
    show "lrStartLineNumber (lr_lineRange r) = int (nat (start (line_rg r))) + 1"
      "endLineNumberExclusive (lr_lineRange r) = int (nat (endExclusive (line_rg r))) + 1"
      "p \<le> nat (start (line_rg r))" "nat (start (line_rg r)) \<le> nat (endExclusive (line_rg r))"
      "fits line_rg (int (nat (endExclusive (line_rg r)))) (int (length ls)) rs"
      using Cons.prems(1) by (auto simp: nat_mono)
  qed
  have b: "b \<le> length ls" using fits_le [OF ab(5)] by simp
  have "line_gaps rs" using Cons.prems(2) by (cases rs) auto
  then have IH: "fits (block_span ls) (line_at ls b) (line_at ls (length ls)) rs"
    "appl (block_span ls) (edit_text ls) (line_at ls b) rs (line_blocks (drop b ls)) = line_blocks (appl line_rg lr_newLines (int b) rs (drop b ls))"
    using Cons.IH [OF ab(5)] Cons.prems(3) by auto
  have behind: "rs = [] \<or> line_at ls b + 1 \<le> start (block_span ls (hd rs)) \<and> start (block_span ls (hd rs)) \<le> endExclusive (block_span ls (hd rs))"
  proof (cases rs)
    case (Cons r' rs')
    define a' b' where "a' = nat (start (line_rg r'))" and "b' = nat (endExclusive (line_rg r'))"
    have f: "int b < lrStartLineNumber (lr_lineRange r') - 1" "lrStartLineNumber (lr_lineRange r') \<le> endLineNumberExclusive (lr_lineRange r')"
      "fits line_rg (endLineNumberExclusive (lr_lineRange r') - 1) (int (length ls)) rs'"
      using ab(2,5) Cons.prems(2) Cons by auto
    have "endLineNumberExclusive (lr_lineRange r') - 1 \<le> int (length ls)" using fits_le [OF f(3)] .
    then have ab': "lrStartLineNumber (lr_lineRange r') = int a' + 1" "endLineNumberExclusive (lr_lineRange r') = int b' + 1" "b < a'" "a' \<le> b'" "b' \<le> length ls"
      using f by (simp_all add: a'_def b'_def nat_less_iff nat_le_iff)
    have "line_offset ls b + 1 \<le> line_offset ls a'" using line_offset_less [OF ab'(3), of ls] ab' by simp
    moreover have "line_at ls a' \<le> start (block_span ls r')"
      by (rule block_span_cases [OF ab'(1,2,4,5) ne]) (use Cons.prems(3) Cons in auto)
    ultimately show ?thesis using IH(1) Cons by simp
  qed simp
  let ?pre = "take (a - p) (drop p ls)"
  have offs: "line_offset ls p \<le> line_offset ls a" "line_offset ls a \<le> line_offset ls b" using line_offset_le ab b by simp_all
  have split: "drop p ls = ?pre @ drop a ls" using take_drop_split [of p a ls] ab(3) by simp
  have "line_offset ls p + length (line_blocks ?pre) = line_offset ls a"
    using ab(3,4) b by (simp add: line_offset_def flip: length_append line_blocks_simps(3) take_add)
  then have len: "length (line_blocks ?pre) = line_offset ls a - line_offset ls p" by simp
  have X: "line_blocks (drop p ls) = line_blocks ?pre @ line_blocks (drop a ls)" using split by (metis line_blocks_simps(3))
  have at: "drop (line_offset ls i) (line_blocks ls) = line_blocks (drop i ls)" if "i \<le> length ls" for i by (rule drop_blocks [OF that])
  have dropX: "drop (nat (line_at ls i + c - line_at ls p)) (line_blocks (drop p ls)) = drop (nat c) (line_blocks (drop i ls))"
    if "p \<le> i" "i \<le> length ls" "0 \<le> c" for i c
  proof -
    have "line_offset ls p \<le> line_offset ls i" using line_offset_le that by simp
    then have "nat (line_at ls i + c - line_at ls p) + line_offset ls p = nat c + line_offset ls i" using that(3) by simp
    then show ?thesis using that ab b by (simp flip: at)
  qed
  have first: "line_blocks (drop i ls) = 10 # drop 1 (line_blocks (drop i ls))" if "i < length ls" for i
    using that by (cases "drop i ls") auto
  have rhs: "line_blocks (appl line_rg lr_newLines (int p) (r # rs) (drop p ls)) =
      line_blocks ?pre @ line_blocks (lr_newLines r) @ appl (block_span ls) (edit_text ls) (line_at ls b) rs (line_blocks (drop b ls))"
    using ab by (simp add: IH(2) nat_diff_distrib)
  have cont: "10 # appl (block_span ls) (edit_text ls) (line_at ls b + 1) rs (drop 1 (line_blocks (drop b ls))) =
      appl (block_span ls) (edit_text ls) (line_at ls b) rs (line_blocks (drop b ls))"
    if "b < length ls"
    using appl_behind [where rg = "block_span ls" and q = "line_at ls b" and rs = rs and c = 10 and content = "edit_text ls"
        and x = "drop 1 (line_blocks (drop b ls))"] behind first [OF that] by metis
  have later: "fits (block_span ls) (line_at ls b + 1) (line_at ls (length ls)) rs" if "b < length ls"
    by (rule fits_behind [OF _ IH(1)]) (use behind line_offset_less [of b "length ls" ls] that in auto)
  have take0: "take (nat (line_at ls a - line_at ls p)) (line_blocks (drop p ls)) = line_blocks ?pre"
    using len offs by (simp add: X nat_diff_distrib)
  have take1: "take (nat (line_at ls a + 1 - line_at ls p)) (line_blocks (drop p ls)) = line_blocks ?pre @ [10]" if "a < length ls"
  proof -
    have "nat (line_at ls a + 1 - line_at ls p) = length (line_blocks ?pre) + 1" using len offs by simp
    moreover have "take 1 (line_blocks (drop a ls)) = [10]" using that by (cases "drop a ls") auto
    ultimately show ?thesis by (simp add: X)
  qed
  have drop0: "drop (nat (line_at ls b - line_at ls p)) (line_blocks (drop p ls)) = line_blocks (drop b ls)"
    and drop1: "drop (nat (line_at ls b + 1 - line_at ls p)) (line_blocks (drop p ls)) = drop 1 (line_blocks (drop b ls))"
    using dropX [of b 0] dropX [of b 1] ab b by simp_all
  have "\<not> deletes_all ls r" using Cons.prems(3) by simp
  then show ?case
  proof (cases rule: block_span_cases [OF ab(1,2,4) b ne, consumes 1, case_names rear rows append ins repl])
    case rear
    show ?thesis unfolding rhs using rear(1,3,4) IH(1) offs by (simp add: take0 drop0)
  next
    case rows
    then show ?thesis unfolding rhs using offs later ab(4) by (simp add: take1 drop1 cont [symmetric])
  next
    case append
    have "block_span ls r = mk_offset (line_at ls a) (line_at ls b)" using append(3,4) by simp
    then show ?thesis unfolding rhs using append(1,5) IH(1) offs by (simp add: take0 drop0)
  next
    case ins
    have span: "block_span ls r = mk_offset (line_at ls a + 1) (line_at ls b + 1)" "b < length ls" using ins(2-4) by simp_all
    have "10 # edit_text ls r @ y = line_blocks (lr_newLines r) @ 10 # y" for y
      using arg_cong [OF ins(5), of "\<lambda>z. z @ y"] by simp
    then show ?thesis unfolding rhs using span ins(2) offs later by (simp add: take1 drop1 cont [symmetric])
  next
    case repl
    have "10 # edit_text ls r @ y = line_blocks (lr_newLines r) @ y" for y
      using arg_cong [OF repl(4), of "\<lambda>z. z @ y"] by simp
    moreover have "line_offset ls a < line_offset ls b" using line_offset_less [OF repl(2) b] .
    ultimately show ?thesis unfolding rhs using repl(1-3) IH(1) offs b by (simp add: take1 drop0)
  qed
qed

lemma appl_shift:
  "appl (\<lambda>r. mk_offset (start (rg r) + d) (endExclusive (rg r) + d)) content (p + d) rs xs = appl rg content p rs xs"
  by (induction rs arbitrary: p xs) auto

lemma fits_shift: "fits (\<lambda>r. mk_offset (start (rg r) + d) (endExclusive (rg r) + d)) (p + d) (n + d) rs = fits rg p n rs"
  by (induction rs arbitrary: p) auto

lemma line_toEdit:
  assumes "13 \<notin> set s" and "line_edit_within ed (length (splitLines s))" and "line_gaps (le_replacements ed)"
    and "\<forall>r \<in> set (le_replacements ed). \<not> deletes_all (splitLines s) r"
  obtains e ms where "LineEdit_toEdit ed (StringText s) = Inr (Some e)" and "string_edit_within e (length s)"
    and "LineEdit_apply ed (splitLines s) = List.map Some ms" and "StringEdit_apply e s = join_lines ms"
proof -
  define ls rs where "ls = splitLines s" and "rs = le_replacements ed"
  define es where "es = List.map (\<lambda>r. \<lparr>sr_range = edit_span ls r, sr_newText = edit_text ls r\<rparr>) rs"
  define ms where "ms = appl line_rg lr_newLines 0 rs ls"
  have ls: "plain_lines ls" "line_blocks ls = 10 # s" "ls \<noteq> []" using splitLines_plain [OF assms(1)] by (simp_all add: ls_def)
  have f: "fits line_rg (int 0) (int (length ls)) rs" using assms(2) by (simp add: line_edit_within_def ls_def rs_def)
  note eff = line_edit_effect [OF ls(1) f, unfolded rs_def ls_def, OF assms(3,4), folded rs_def ls_def]
  have front: "rs = [] \<or> 0 + 1 \<le> start (block_span ls (hd rs)) \<and> start (block_span ls (hd rs)) \<le> endExclusive (block_span ls (hd rs))"
  proof (cases rs)
    case (Cons r rs')
    define a b where "a = nat (start (line_rg r))" and "b = nat (endExclusive (line_rg r))"
    have "endExclusive (line_rg r) \<le> int (length ls)" using f Cons fits_le [of line_rg "endExclusive (line_rg r)"] by auto
    then have ab: "lrStartLineNumber (lr_lineRange r) = int a + 1" "endLineNumberExclusive (lr_lineRange r) = int b + 1" "a \<le> b" "b \<le> length ls"
      using f Cons by (auto simp: a_def b_def nat_le_iff nat_mono)
    have all: "\<not> deletes_all ls r" using assms(4) Cons by (simp add: ls_def rs_def)
    have pos: "0 < line_offset ls i" if "0 < i" "i \<le> length ls" for i using line_offset_less [of 0 i ls] that by simp
    have "0 < line_offset ls a" if "lr_newLines r = []" "b = length ls"
      using pos [of a] that ab all by (cases "a = 0") (auto simp: deletes_all_def)
    moreover have "0 < line_offset ls (length ls)" using pos [of "length ls"] ls(3) by simp
    ultimately have "0 + 1 \<le> start (block_span ls r)" by (rule_tac block_span_cases [OF ab ls(3) all]) (simp_all add: Suc_le_eq)
    then show ?thesis using eff Cons by simp
  qed simp
  have span: "block_span ls = (\<lambda>r. mk_offset (start (edit_span ls r) + 1) (endExclusive (edit_span ls r) + 1))"
    by (simp add: block_span_def fun_eq_iff)
  have n: "line_at ls (length ls) = int (length s) + 1" using ls(2) by simp
  have fe: "fits sr_range 0 (int (length s)) es"
  proof -
    have "fits (block_span ls) (0 + 1) (int (length s) + 1) rs" using fits_behind [OF _ conjunct1 [OF eff [unfolded n]], of "0 + 1"] front by auto
    then show ?thesis unfolding span fits_shift by (simp add: es_def fits_through)
  qed
  have "rmap (\<lambda>r. LineReplacement_toSingleEdit r (StringText s)) rs = Inr (List.map Some es)"
  proof -
    have "LineReplacement_toSingleEdit r (StringText s) = Inr (Some \<lparr>sr_range = edit_span ls r, sr_newText = edit_text ls r\<rparr>)" if "r \<in> set rs" for r
      using fits_member [OF f that] by (intro toSingleEdit_span [OF ls(1,2) assms(1)]) auto
    then show ?thesis by (simp add: rmap_pure es_def comp_def)
  qed
  moreover have "those (List.map Some es) = Some es" by (induction es) auto
  ultimately have "LineEdit_toEdit ed (StringText s) = Inr (Some \<lparr>replacements = es\<rparr>)"
    by (simp add: LineEdit_toEdit_def StringEdit_new_ok [OF fe] flip: rs_def)
  moreover have within: "string_edit_within \<lparr>replacements = es\<rparr> (length s)" using fe by (simp add: string_within)
  moreover have "10 # StringEdit_apply \<lparr>replacements = es\<rparr> s = line_blocks ms"
  proof -
    have "appl (block_span ls) (edit_text ls) 0 rs (10 # s) = 10 # appl (block_span ls) (edit_text ls) (0 + 1) rs s"
      by (rule appl_behind) (use front in simp)
    moreover have "appl (block_span ls) (edit_text ls) (0 + 1) rs s = StringEdit_apply \<lparr>replacements = es\<rparr> s"
      unfolding span appl_shift string_apply [OF within] by (simp add: es_def appl_map)
    ultimately show ?thesis using conjunct2 [OF eff] ls(2) by (simp add: ms_def)
  qed
  then have "StringEdit_apply \<lparr>replacements = es\<rparr> s = join_lines ms"
    using join_lines_blocks [of ms] by (metis line_blocks_simps(1) list.distinct(1) list.inject)
  moreover have "LineEdit_apply ed (splitLines s) = List.map Some ms" using line_apply [OF assms(2)] by (simp add: ms_def rs_def ls_def)
  ultimately show thesis by (intro that)
qed

section \<open>Text edits as line edits\<close>

text \<open>Every offset of a text lies in a line, which its position names.\<close>

lemma offset_line:
  assumes "13 \<notin> set s" and "k \<le> length s"
  obtains i c where "i < length (splitLines s)" and "c \<le> length (splitLines s ! i)" and "k = line_offset (splitLines s) i + c"
    and "position_at s k = Position_new (int i + 1) (int c + 1)"
proof -
  have ls: "plain_lines (splitLines s)" "line_blocks (splitLines s) = 10 # s" using splitLines_plain [OF assms(1)] by simp_all
  define i where "i = length (newlines (take k s))"
  have "breakable s k" using assms by (simp add: breakable_plain)
  note bl = breakable_line [OF this, folded i_def]
  have i: "i < length (splitLines s)" using bl(1) newlines_lines(1) [OF ls] ls(1) by (cases "splitLines s") auto
  define c where "c = k - line_offset (splitLines s) i"
  have k: "k = line_offset (splitLines s) i + c" and c: "c \<le> length (splitLines s ! i)"
    using bl(2,3) line_tables(1,2) [OF ls assms(1) i] by (simp_all add: c_def)
  show thesis by (rule that [OF i c k]) (use line_position(1) [OF ls assms(1) i c] k in simp)
qed

lemma segment_line:
  assumes "line_blocks ls = 10 # s" and "i < length ls" and "c \<le> d" and "d \<le> length (ls ! i)"
  shows "segment s (line_offset ls i + c) (line_offset ls i + d) = take (d - c) (drop c (ls ! i))"
proof -
  have "drop i ls = ls ! i # drop (Suc i) ls" using assms(2) by (simp add: Cons_nth_drop_Suc)
  then have "drop (line_offset ls i) (10 # s) = 10 # ls ! i @ line_blocks (drop (Suc i) ls)"
    using drop_blocks [of i ls] assms(1,2) by simp
  from arg_cong [OF this, of "drop 1"] have "drop (line_offset ls i) s = ls ! i @ line_blocks (drop (Suc i) ls)" by simp
  then have "drop (line_offset ls i + c) s = drop c (ls ! i @ line_blocks (drop (Suc i) ls))" by (metis add.commute drop_drop)
  then show ?thesis using assms(3,4) by (simp add: segment_def)
qed

lemma splitLines_around:
  assumes "10 \<notin> set a" and "13 \<notin> set a" and "10 \<notin> set b" and "13 \<notin> set b" and "13 \<notin> set t"
  shows "append_last b (prepend_first a (splitLines t)) = splitLines (a @ t @ b)"
    and "splitLines (a @ t @ b) = (a @ hd (splitLines (t @ b))) # tl (splitLines (t @ b))"
    and "last (splitLines (a @ t @ b)) = last (splitLines (a @ t)) @ b"
proof -
  have front: "splitLines (a @ x) = (a @ hd (splitLines x)) # tl (splitLines x)" for x
    using splitLines_append [OF assms(2), of x] splitLines_line [OF assms(1,2)] by simp
  have rear: "splitLines (x @ b) = butlast (splitLines x) @ [last (splitLines x) @ b]" if "13 \<notin> set x" for x
    using splitLines_append [OF that, of b] splitLines_line [OF assms(3,4)] by simp
  have pre: "prepend_first a (splitLines t) = splitLines (a @ t)"
    unfolding front by (cases "splitLines t") (use splitLines_not_Nil [of t] in \<open>auto simp: prepend_first_def\<close>)
  have "append_last b (splitLines x) = splitLines (x @ b)" if "13 \<notin> set x" for x
    unfolding rear [OF that] append_last_def
    by (cases "splitLines x" rule: rev_cases) (use splitLines_not_Nil [of x] in \<open>auto simp: nth_append\<close>)
  from this [of "a @ t"] show "append_last b (prepend_first a (splitLines t)) = splitLines (a @ t @ b)" unfolding pre using assms by simp
  show "splitLines (a @ t @ b) = (a @ hd (splitLines (t @ b))) # tl (splitLines (t @ b))" by (rule front)
  show "last (splitLines (a @ t @ b)) = last (splitLines (a @ t)) @ b" using rear [of "a @ t"] assms by simp
qed

lemma fromSingle_lines:
  assumes "13 \<notin> set s" and "13 \<notin> set (tr_text r)" and "i \<le> j" and "j < length (splitLines s)"
    and "c \<le> length (splitLines s ! i)" and "d \<le> length (splitLines s ! j)"
    and "range_start (tr_range r) = Position_new (int i + 1) (int c + 1)" and "range_end (tr_range r) = Position_new (int j + 1) (int d + 1)"
  obtains lr a b where "LineReplacement_fromSingleTextEdit r (StringText s) = Inr (Some lr)"
    and "line_rg lr = mk_offset (int a) (int b)" and "i \<le> a" and "a \<le> b" and "b \<le> Suc j"
    and "take (a - i) (drop i (splitLines s)) @ lr_newLines lr @ take (Suc j - b) (drop b (splitLines s)) =
      splitLines (take c (splitLines s ! i) @ tr_text r @ drop d (splitLines s ! j))"
proof -
  define ls where "ls = splitLines s"
  have ls: "plain_lines ls" "line_blocks ls = 10 # s" using splitLines_plain [OF assms(1)] by (simp_all add: ls_def)
  note lines = assms(3-6) [folded ls_def]
  have i: "i < length ls" using lines by simp
  note pos = line_position(1) [OF ls assms(1)] and tab = line_tables [OF ls assms(1)]
  define sf se where "sf = take c (ls ! i)" and "se = drop d (ls ! j)"
  have no: "10 \<notin> set (ls ! m)" "13 \<notin> set (ls ! m)" if "m < length ls" for m using ls(1) that by (auto simp: plain_lines_def)
  have plain: "10 \<notin> set sf" "13 \<notin> set sf" "10 \<notin> set se" "13 \<notin> set se"
    using no [OF i] no [OF lines(2)] by (auto simp: sf_def se_def dest: in_set_takeD in_set_dropD)
  define N where "N = splitLines (sf @ tr_text r @ se)"
  note around = splitLines_around [OF plain assms(2), folded N_def]
  have range: "startLineNumber (tr_range r) = int i + 1" "startColumn (tr_range r) = int c + 1"
    "endLineNumber (tr_range r) = int j + 1" "endColumn (tr_range r) = int d + 1"
    using assms(7,8) by (simp_all add: IPosition_eq_iff)
  have inside: "line_offset ls m + x \<le> length s" if "m < length ls" "x \<le> length (ls ! m)" for m x
  proof -
    have "line_offset ls (Suc m) \<le> line_offset ls (length ls)" using line_offset_le [of "Suc m" "length ls" ls] that by simp
    then show ?thesis using that ls(2) by simp
  qed
  have span_value: "at_getValueOfRange (StringText s) (Range_fromPositions (Position_new (int m + 1) (int x + 1)) (Position_new (int m + 1) (int y + 1))) =
      Inr (take (y - x) (drop x (ls ! m)))" if "m < length ls" "x \<le> y" "y \<le> length (ls ! m)" for m x y
  proof -
    have le: "line_offset ls m + x \<le> line_offset ls m + y" "line_offset ls m + y \<le> length s" using that inside by simp_all
    show ?thesis
      using string_text.value_law [of s "line_offset ls m + x" "line_offset ls m + y"
          "Range_fromPositions (position_at s (line_offset ls m + x)) (position_at s (line_offset ls m + y))"]
        le segment_line [OF ls(2) that] pos [OF that(1), of x] pos [OF that(1), of y] that
      by (simp add: breakable_plain [OF assms(1)] Range_fromPositions_ends min_def max_def IPosition_le_iff)
  qed
  have first_text: "at_getValueOfRange (StringText s) (Range_fromPositions (Position_new (int i + 1) 1) (Range_getStartPosition (tr_range r))) = Inr sf"
    using span_value [OF i, of 0 c] lines(3) assms(7) by (simp add: sf_def)
  have last_text: "at_getValueOfRange (StringText s) (Range_fromPositions (Range_getEndPosition (tr_range r))
      (Position_new (int j + 1) (int (length (ls ! j)) + 1))) = Inr se"
    using span_value [OF lines(2) lines(4) le_refl] assms(8) by (simp add: se_def)
  define sb where "sb \<longleftrightarrow> c = length (ls ! i) \<and> length (N ! 0) = length sf"
  define a where "a = (if sb then Suc i else i)"
  define N1 where "N1 = (if sb then tl N else N)"
  define eb where "eb \<longleftrightarrow> N1 \<noteq> [] \<and> a < Suc j \<and> d = 0 \<and> length (last N1) = length se"
  define b where "b = (if eb then j else Suc j)"
  define N2 where "N2 = (if eb then butlast N1 else N1)"
  define lr where "lr = LineReplacement_new \<lparr>lrStartLineNumber = int a + 1, endLineNumberExclusive = int b + 1\<rparr> N2"
  have ab: "i \<le> a" "a \<le> b" "b \<le> Suc j" using lines(1) by (auto simp: a_def b_def eb_def)
  have code: "LineReplacement_fromSingleTextEdit r (StringText s) =
      (let (startLine, newLines) = (if sb then (int i + 1 + 1, tl N) else (int i + 1, N));
           (endLineEx, newLines) =
             (if length newLines > 0 \<and> startLine < int j + 1 + 1 \<and> d = 0 \<and> length (last newLines) = length se
              then (int j + 1 + 1 - 1, butlast newLines) else (int j + 1 + 1, newLines))
       in rbind (LineRange_new startLine endLineEx) (\<lambda>rg. Inr (Some (LineReplacement_new rg newLines))))"
  proof -
    have "(Transformer_getLineLength s (int i + 1) = Some (int c + 1 - 1)) = (c = length (ls ! i))" using tab(3) [OF i] by auto
    moreover have "(int d + 1 = 1) = (d = 0)" by simp
    ultimately show ?thesis
      unfolding LineReplacement_fromSingleTextEdit_def range first_text string_text.getValue rbind.simps tab(3) [OF lines(2)] option.case last_text
      by (simp only: rbind.simps around(1) N_def [symmetric] sb_def Let_def)
  qed
  have run: "LineReplacement_fromSingleTextEdit r (StringText s) = Inr (Some lr)"
  proof (cases sb)
    case True
    then show ?thesis using ab unfolding code by (cases eb) (auto simp: lr_def N2_def N1_def b_def a_def eb_def LineRange_new_def add.commute)
  next
    case False
    then show ?thesis using ab unfolding code by (cases eb) (auto simp: lr_def N2_def N1_def b_def a_def eb_def LineRange_new_def add.commute)
  qed
  have "take (a - i) (drop i ls) @ N1 = N"
  proof (cases sb)
    case True
    have N0: "N ! 0 = sf @ hd (splitLines (tr_text r @ se))" by (simp add: around(2))
    then have "N = sf # tl N" using True around(2) by (simp add: sb_def)
    moreover have "sf = ls ! i" using True by (simp add: sb_def sf_def)
    moreover have "drop i ls = ls ! i # drop (Suc i) ls" using i by (simp add: Cons_nth_drop_Suc)
    ultimately show ?thesis using True by (simp add: a_def N1_def)
  qed (simp add: a_def N1_def)
  moreover have "N2 @ take (Suc j - b) (drop b ls) = N1"
  proof (cases eb)
    case True
    have "N1 \<noteq> []" using True by (simp add: eb_def)
    then have "last N1 = last N" by (auto simp: N1_def last_tl)
    then have "last N1 = se" using True around(3) by (simp add: eb_def N_def)
    moreover have "se = ls ! j" using True by (simp add: eb_def se_def)
    moreover have "drop j ls = ls ! j # drop (Suc j) ls" using lines(2) by (simp add: Cons_nth_drop_Suc)
    ultimately show ?thesis using True \<open>N1 \<noteq> []\<close> append_butlast_last_id [of N1] by (simp add: b_def N2_def)
  qed (simp add: b_def N2_def)
  ultimately have "take (a - i) (drop i ls) @ N2 @ take (Suc j - b) (drop b ls) = N" by simp
  then show thesis using that [OF run _ ab] unfolding N_def sf_def se_def ls_def by (simp add: lr_def line_rg_def LineReplacement_new_def)
qed

lemma splitLines_segments:
  assumes "\<forall>l \<in> set ls. 10 \<notin> set l \<and> 13 \<notin> set l"
  shows "splitLines (concat (List.map (\<lambda>l. l @ [10]) ls) @ t) = ls @ splitLines t"
  using assms
proof (induction ls)
  case (Cons l ls)
  then show ?case using splitLines_break [of l "concat (List.map (\<lambda>l. l @ [10]) ls) @ t"] splitLines_line [of l] by simp
qed simp

lemma blocks_shift: "line_blocks ls @ 10 # t = 10 # concat (List.map (\<lambda>l. l @ [10]) ls) @ t"
  by (induction ls) auto

text \<open>The text from the start of a line.\<close>

lemma drop_line:
  assumes "line_blocks ls = 10 # s" and "p < length ls"
  shows "10 # drop (line_offset ls p) s = line_blocks (drop p ls)"
proof -
  have "line_blocks (drop p ls) = drop (line_offset ls p) (10 # s)" using drop_blocks [of p ls] assms by simp
  moreover have "line_offset ls p \<le> length s" using line_offset_less [of p "length ls" ls] assms by simp
  moreover obtain x where "line_blocks (drop p ls) = 10 # x" using assms(2) by (cases "drop p ls") auto
  ultimately show ?thesis by (metis drop_Suc_Cons list.sel(3) drop_Suc drop_tl)
qed

lemma splitLines_drop:
  assumes "plain_lines ls" and "line_blocks ls = 10 # s" and "p < length ls"
  shows "splitLines (drop (line_offset ls p) s) = drop p ls"
proof -
  have "plain_lines (drop p ls)" using assms(1,3) by (auto simp: plain_lines_def dest: in_set_dropD)
  from splitLines_blocks [OF this] show ?thesis using drop_line [OF assms(2,3)] by (metis list.sel(3))
qed

text \<open>Up to an offset in a later line: the lines between, and the beginning of that line.\<close>

lemma segment_lines:
  assumes "line_blocks ls = 10 # s" and "p \<le> i" and "i < length ls" and "c \<le> length (ls ! i)"
  shows "segment s (line_offset ls p) (line_offset ls i + c) =
    concat (List.map (\<lambda>l. l @ [10]) (take (i - p) (drop p ls))) @ take c (ls ! i)"
proof -
  let ?pre = "take (i - p) (drop p ls)"
  have split: "drop p ls = ?pre @ drop i ls" using take_drop_split [of p i ls] assms(2) by simp
  have "drop i ls = ls ! i # drop (Suc i) ls" using assms(3) by (simp add: Cons_nth_drop_Suc)
  then have "10 # drop (line_offset ls p) s = line_blocks ?pre @ 10 # ls ! i @ line_blocks (drop (Suc i) ls)"
    using drop_line [OF assms(1), of p] assms(2,3) split by (metis le_less_trans line_blocks_simps(2,3))
  then have "drop (line_offset ls p) s = concat (List.map (\<lambda>l. l @ [10]) ?pre) @ ls ! i @ line_blocks (drop (Suc i) ls)"
    using blocks_shift [of ?pre "ls ! i @ line_blocks (drop (Suc i) ls)"] by simp
  moreover have "line_offset ls i + c - line_offset ls p = length (concat (List.map (\<lambda>l. l @ [10]) ?pre)) + c"
  proof -
    have "line_offset ls i = line_offset ls p + length (line_blocks ?pre)"
      using assms(2) by (simp add: line_offset_def flip: length_append line_blocks_simps(3) take_add)
    moreover have "length (line_blocks ms) = length (concat (List.map (\<lambda>l. l @ [10]) ms))" for ms
      using arg_cong [OF blocks_shift [of ms "[]"], of length] by simp
    ultimately show ?thesis by simp
  qed
  ultimately show ?thesis using assms(4) by (simp add: segment_def)
qed

lemma group_lines:
  assumes "plain_lines ls" and "line_blocks ls = 10 # s" and "p \<le> i" and "i < length ls" and "j < length ls"
    and "c \<le> length (ls ! i)" and "d \<le> length (ls ! j)" and "13 \<notin> set t"
  shows "Suc j < length ls \<Longrightarrow>
      splitLines (segment s (line_offset ls p) (line_offset ls i + c) @ t @ segment s (line_offset ls j + d) (line_offset ls (Suc j)) @ u) =
      take (i - p) (drop p ls) @ splitLines (take c (ls ! i) @ t @ drop d (ls ! j)) @ splitLines u"
    and "Suc j = length ls \<Longrightarrow>
      splitLines (segment s (line_offset ls p) (line_offset ls i + c) @ t @ drop (line_offset ls j + d) s) =
      take (i - p) (drop p ls) @ splitLines (take c (ls ! i) @ t @ drop d (ls ! j))"
proof -
  have no: "\<forall>l \<in> set ls. 10 \<notin> set l \<and> 13 \<notin> set l" using assms(1) by (simp add: plain_lines_def)
  then have pre: "\<forall>l \<in> set (take (i - p) (drop p ls)). 10 \<notin> set l \<and> 13 \<notin> set l" by (meson in_set_dropD in_set_takeD)
  have mid: "13 \<notin> set (take c (ls ! i) @ t @ drop d (ls ! j))"
    using no assms(4,5,8) by (auto dest: in_set_takeD in_set_dropD)
  have part: "segment s (line_offset ls j + d) n = drop d (segment s (line_offset ls j) n)" for n
    by (simp add: segment_def drop_take add.commute)
  {
    assume j: "Suc j < length ls"
    have "segment s (line_offset ls j) (line_offset ls (Suc j)) = ls ! j @ [10]"
      using segment_lines [OF assms(2), of j "Suc j" 0] j by (simp add: take_Suc_conv_app_nth)
    then have "segment s (line_offset ls j + d) (line_offset ls (Suc j)) = drop d (ls ! j) @ [10]"
      using assms(7) by (simp add: part)
    then show "splitLines (segment s (line_offset ls p) (line_offset ls i + c) @ t @ segment s (line_offset ls j + d) (line_offset ls (Suc j)) @ u) =
        take (i - p) (drop p ls) @ splitLines (take c (ls ! i) @ t @ drop d (ls ! j)) @ splitLines u"
      using splitLines_segments [OF pre, of "take c (ls ! i) @ t @ drop d (ls ! j) @ 10 # u"] splitLines_break [OF mid, of u]
      by (simp add: segment_lines [OF assms(2-4,6)])
  }
  assume j: "Suc j = length ls"
  have "line_offset ls (Suc j) = Suc (length s)" using j assms(2) line_offset_simps(2) [of ls] by simp
  then have "length s = line_offset ls j + length (ls ! j)" using assms(5) by simp
  then have "drop (line_offset ls j + d) s = drop d (ls ! j)"
    using segment_line [OF assms(2,5) _ le_refl, of d] assms(7) by (simp add: segment_def)
  then show "splitLines (segment s (line_offset ls p) (line_offset ls i + c) @ t @ drop (line_offset ls j + d) s) =
      take (i - p) (drop p ls) @ splitLines (take c (ls ! i) @ t @ drop d (ls ! j))"
    using splitLines_segments [OF pre, of "take c (ls ! i) @ t @ drop d (ls ! j)"] by (simp add: segment_lines [OF assms(2-4,6)])
qed

lemma joined_text_plain: "13 \<notin> set s \<Longrightarrow> \<forall>e \<in> set es. 13 \<notin> set (sr_newText e) \<Longrightarrow> 13 \<notin> set (joined_text s es)"
  by (induction s es rule: joined_text.induct) (auto simp: segment_def dest: in_set_takeD in_set_dropD)

lemma located_texts: "located s rs es \<Longrightarrow> \<forall>r \<in> set rs. 13 \<notin> set (tr_text r) \<Longrightarrow> \<forall>e \<in> set es. 13 \<notin> set (sr_newText e)"
  by (induction rs arbitrary: es) (auto simp: at_offsets_bounds(4))

text \<open>The line of a located replacement.\<close>

lemma at_offsets_lines:
  assumes "13 \<notin> set s" and "at_offsets s r e"
  obtains i c j d where "i \<le> j" and "j < length (splitLines s)" and "c \<le> length (splitLines s ! i)" and "d \<le> length (splitLines s ! j)"
    and "range_start (tr_range r) = Position_new (int i + 1) (int c + 1)" and "range_end (tr_range r) = Position_new (int j + 1) (int d + 1)"
    and "sr_range e = mk_offset (line_at (splitLines s) i + int c) (line_at (splitLines s) j + int d)"
proof -
  obtain k l where kl: "sr_range e = mk_offset (int k) (int l)" "k \<le> l" "breakable s k" "breakable s l"
    "range_start (tr_range r) = position_at s k" "range_end (tr_range r) = position_at s l"
    using assms(2) unfolding at_offsets_def by blast
  obtain i c where i: "i < length (splitLines s)" "c \<le> length (splitLines s ! i)" "k = line_offset (splitLines s) i + c"
    "position_at s k = Position_new (int i + 1) (int c + 1)" by (rule offset_line [OF assms(1) breakable_le [OF kl(3)]])
  obtain j d where j: "j < length (splitLines s)" "d \<le> length (splitLines s ! j)" "l = line_offset (splitLines s) j + d"
    "position_at s l = Position_new (int j + 1) (int d + 1)" by (rule offset_line [OF assms(1) breakable_le [OF kl(4)]])
  have "position_at s k \<le> position_at s l" using kl(2) breakable_le [OF kl(4)] by simp
  then have "i \<le> j" unfolding i(4) j(4) by (auto simp: IPosition_le_iff)
  then show thesis using that kl i j by simp
qed

lemma appl_split_nat:
  "fits rg (int q) n rs \<Longrightarrow> p \<le> q \<Longrightarrow> q \<le> length xs \<Longrightarrow>
     appl rg content (int p) rs (drop p xs) = take (q - p) (drop p xs) @ appl rg content (int q) rs (drop q xs)"
  using appl_split [of rg "int q" n rs "int p" "drop p xs" content] by (simp add: nat_diff_distrib)

lemma fits_upper: "fits rg p n rs \<Longrightarrow> n \<le> m \<Longrightarrow> fits rg p m rs"
  by (induction rs arbitrary: p) auto

text \<open>
  The loop of \<open>fromTextEdit\<close>, from the start of line \<open>p\<close>: the line replacements it gives have the effect of the
  text replacements that are left, the collected ones included.
\<close>

lemma fromTextEdit_walk:
  assumes "13 \<notin> set s" and "located s cur ec" and "located s rs es" and "fits sr_range q (int (length s)) (ec @ es)"
    and "\<forall>r \<in> set (cur @ rs). 13 \<notin> set (tr_text r)" and "p < length (splitLines s)"
    and "cur @ rs = [] \<or> int p + 1 \<le> startLineNumber (tr_range (hd (cur @ rs)))" and "rs = [] \<longrightarrow> cur = []"
  shows "\<exists>lrs. fromTextEdit_loop (StringText s) rs cur = Inr (Some lrs) \<and> fits line_rg (int p) (int (length (splitLines s))) lrs \<and>
    splitLines (appl sr_range sr_newText (line_at (splitLines s) p) (ec @ es) (drop (line_offset (splitLines s) p) s)) =
      appl line_rg lr_newLines (int p) lrs (drop p (splitLines s))"
  using assms(2-8)
proof (induction rs arbitrary: cur ec es p q)
  case Nil
  then show ?case using splitLines_drop [of "splitLines s" s p] splitLines_plain [OF assms(1)] by (auto simp: located_def)
next
  case (Cons r rs)
  define ls where "ls = splitLines s"
  have ls: "plain_lines ls" "line_blocks ls = 10 # s" using splitLines_plain [OF assms(1)] by (simp_all add: ls_def)
  obtain e es' where e: "es = e # es'" "at_offsets s r e" "located s rs es'" using Cons.prems(2) by auto
  have cur': "located s (cur @ [r]) (ec @ [e])" using Cons.prems(1) e(2) by auto
  have fit': "fits sr_range q (int (length s)) ((ec @ [e]) @ es')" using Cons.prems(3) e(1) by simp
  show ?case
  proof (cases "rs \<noteq> [] \<and> startLineNumber (tr_range (hd rs)) = endLineNumber (tr_range r)")
    case True
    have "\<exists>lrs. fromTextEdit_loop (StringText s) rs (cur @ [r]) = Inr (Some lrs) \<and> fits line_rg (int p) (int (length (splitLines s))) lrs \<and>
        splitLines (appl sr_range sr_newText (line_at (splitLines s) p) ((ec @ [e]) @ es') (drop (line_offset (splitLines s) p) s)) =
          appl line_rg lr_newLines (int p) lrs (drop p (splitLines s))"
      by (rule Cons.IH [OF cur' e(3) fit']) (use Cons.prems True in auto)
    then show ?thesis using True e(1) by simp
  next
    case False
    obtain m where m: "fits sr_range q m (ec @ [e])" "fits sr_range m (int (length s)) es'" using fit' unfolding fits_append by blast
    have fm: "fits sr_range q (int (length s)) (ec @ [e])" by (rule fits_upper [OF m(1) fits_le [OF m(2)]])
    have em: "endExclusive (sr_range e) \<le> m" using m(1) by (simp add: fits_snoc)
    obtain r1 e1 where r1: "TextReplacement_joinReplacements (cur @ [r]) (StringText s) = Inr r1" "at_offsets s r1 e1"
      "sr_range e1 = mk_offset (start (sr_range (hd (ec @ [e])))) (endExclusive (sr_range e))" "sr_newText e1 = joined_text s (ec @ [e])"
      using join_string_located [OF cur' fm] by (metis Nil_is_append_conv last_snoc not_Cons_self2)
    obtain i c j d where l: "i \<le> j" "j < length ls" "c \<le> length (ls ! i)" "d \<le> length (ls ! j)"
      "range_start (tr_range r1) = Position_new (int i + 1) (int c + 1)" "range_end (tr_range r1) = Position_new (int j + 1) (int d + 1)"
      "sr_range e1 = mk_offset (line_at ls i + int c) (line_at ls j + int d)"
      by (rule at_offsets_lines [OF assms(1) r1(2), folded ls_def])
    have i: "i < length ls" using l by simp
    note b1 = at_offsets_bounds [OF r1(2)]
    have plain: "13 \<notin> set (tr_text r1)"
      using joined_text_plain [OF assms(1) located_texts [OF cur']] Cons.prems(4) b1(4) r1(4) by simp
    obtain lr a b where lr: "LineReplacement_fromSingleTextEdit r1 (StringText s) = Inr (Some lr)" "line_rg lr = mk_offset (int a) (int b)"
      "i \<le> a" "a \<le> b" "b \<le> Suc j"
      "take (a - i) (drop i ls) @ lr_newLines lr @ take (Suc j - b) (drop b ls) = splitLines (take c (ls ! i) @ tr_text r1 @ drop d (ls ! j))"
      by (rule fromSingle_lines [OF assms(1) plain l(1-6) [unfolded ls_def], folded ls_def])
    obtain r0 rs0 e0 es0 where h: "cur @ [r] = r0 # rs0" "ec @ [e] = e0 # es0" "at_offsets s r0 e0"
      using cur' by (cases "cur @ [r]") auto
    have start0: "start (sr_range e0) = line_at ls i + int c" using r1(3) l(7) h(2) by simp
    have "range_start (tr_range r0) = range_start (tr_range r1)" using at_offsets_bounds(5) [OF h(3)] b1(5) start0 l(7) by simp
    then have "startLineNumber (tr_range (hd (cur @ r # rs))) = int i + 1"
      using l(5) h(1) by (cases cur) (auto simp: IPosition_eq_iff)
    then have pi: "p \<le> i" using Cons.prems(6) by simp
    have end_e: "endExclusive (sr_range e) = line_at ls j + int d" using r1(3) l(7) by simp
    have "range_end (tr_range r) = Position_new (int j + 1) (int d + 1)"
      using at_offsets_bounds(6) [OF e(2)] b1(6) l(6,7) end_e by simp
    then have end_r: "endLineNumber (tr_range r) = int j + 1" by (simp add: IPosition_eq_iff)
    have later: "int (Suc j) + 1 \<le> startLineNumber (tr_range r') \<and> Suc j < length ls \<and> line_at ls (Suc j) \<le> start (sr_range e')"
      if "rs = r' # rs'" "es' = e' # es''" for r' rs' e' es''
    proof -
      have at: "at_offsets s r' e'" using e(3) that by simp
      obtain i' c' j' d' where l': "i' \<le> j'" "j' < length ls" "c' \<le> length (ls ! i')"
        "range_start (tr_range r') = Position_new (int i' + 1) (int c' + 1)" "sr_range e' = mk_offset (line_at ls i' + int c') (line_at ls j' + int d')"
        by (rule at_offsets_lines [OF assms(1) at, folded ls_def])
      have "endExclusive (sr_range e) \<le> start (sr_range e')" using m(2) em that by simp
      then have "range_end (tr_range r) \<le> range_start (tr_range r')" using at_offsets_order [OF e(2) at] by simp
      moreover have "startLineNumber (tr_range r') \<noteq> endLineNumber (tr_range r)" using False that by simp
      ultimately have "j < i'" using l'(4) end_r by (auto simp: IPosition_le_iff IPosition_eq_iff)
      then show ?thesis using l' line_offset_le [of "Suc j" i' ls] by (simp add: IPosition_eq_iff)
    qed
    let ?k = "line_offset ls i + c" and ?l = "line_offset ls j + d"
    let ?T = "appl sr_range sr_newText (line_at ls p) (ec @ es) (drop (line_offset ls p) s)"
    have nat_ends: "nat (line_at ls i + int c) = ?k" "nat (line_at ls j + int d) = ?l" by (simp_all flip: of_nat_add)
    have ltext: "?l \<le> length s" using b1(3) l(7) by simp
    have "?T = segment s (line_offset ls p) ?k @ appl sr_range sr_newText (int ?k) (ec @ es) (drop ?k s)"
    proof -
      have f: "fits sr_range (int ?k) (int (length s)) (ec @ es)" using fit' e(1) h(2) start0 by (cases ec) auto
      have le: "line_offset ls p \<le> ?k" using line_offset_le [of p i ls] pi i by simp
      show ?thesis
        using appl_split [OF f, of "line_at ls p" "drop (line_offset ls p) s" sr_newText] le fits_le [OF f] nat_ends
        by (simp add: segment_def nat_diff_distrib)
    qed
    also have "appl sr_range sr_newText (int ?k) (ec @ es) (drop ?k s) = tr_text r1 @ appl sr_range sr_newText (int ?l) es' (drop ?l s)"
    proof -
      have "ec @ es = e0 # es0 @ es'" using h(2) e(1) by (metis append.assoc append_Cons append_Nil)
      moreover have "last (e0 # es0) = e" using h(2) by (metis last_snoc)
      ultimately show ?thesis
        using joined_appl [of e0 s es0 es'] fit' h(2) start0 end_e b1(4) r1(4) e(1) nat_ends by (cases ec) auto
    qed
    finally have T: "?T = segment s (line_offset ls p) ?k @ tr_text r1 @ appl sr_range sr_newText (int ?l) es' (drop ?l s)" .
    have run: "fromTextEdit_loop (StringText s) (r # rs) cur =
        rbind (fromTextEdit_loop (StringText s) rs []) (\<lambda>rs. Inr (map_option (\<lambda>rs. lr # rs) rs))"
      unfolding fromTextEdit_loop.simps Let_def if_not_P [OF False] r1(1) rbind.simps lr(1) option.case ..
    have lines: "take (a - p) (drop p ls) = take (i - p) (drop p ls) @ take (a - i) (drop i ls)"
    proof -
      have "a - p = (i - p) + (a - i)" "drop i ls = drop (i - p) (drop p ls)" using pi lr(3) by simp_all
      then show ?thesis by (metis take_add)
    qed
    show ?thesis
    proof (cases "Suc j < length ls")
      case True
      have front: "es' = [] \<or> line_at ls (Suc j) \<le> start (sr_range (hd es'))"
        using later e(3) by (cases rs; cases es') auto
      have head: "rs = [] \<or> int (Suc j) + 1 \<le> startLineNumber (tr_range (hd rs))"
        using later e(3) by (cases rs; cases es') auto
      have "line_offset ls (Suc j) \<le> length s" using line_offset_less [of "Suc j" "length ls" ls] True ls(2) by simp
      then have f: "fits sr_range (line_at ls (Suc j)) (int (length s)) es'" using fits_behind [OF front m(2)] by simp
      obtain lrs where lrs: "fromTextEdit_loop (StringText s) rs [] = Inr (Some lrs)" "fits line_rg (int (Suc j)) (int (length ls)) lrs"
        "splitLines (appl sr_range sr_newText (line_at ls (Suc j)) es' (drop (line_offset ls (Suc j)) s)) =
          appl line_rg lr_newLines (int (Suc j)) lrs (drop (Suc j) ls)"
      proof -
        have "\<exists>lrs. fromTextEdit_loop (StringText s) rs [] = Inr (Some lrs) \<and> fits line_rg (int (Suc j)) (int (length (splitLines s))) lrs \<and>
            splitLines (appl sr_range sr_newText (line_at (splitLines s) (Suc j)) ([] @ es') (drop (line_offset (splitLines s) (Suc j)) s)) =
              appl line_rg lr_newLines (int (Suc j)) lrs (drop (Suc j) (splitLines s))"
          by (rule Cons.IH [OF _ e(3), of "[]"])
            (use f Cons.prems(4) True head in \<open>auto simp: ls_def located_def\<close>)
        then show thesis using that by (auto simp: ls_def)
      qed
      have le: "?l \<le> line_offset ls (Suc j)" using l(2,4) by simp
      have "appl sr_range sr_newText (int ?l) es' (drop ?l s) = segment s ?l (line_offset ls (Suc j)) @
          appl sr_range sr_newText (line_at ls (Suc j)) es' (drop (line_offset ls (Suc j)) s)"
        using appl_split [OF f, of "int ?l" "drop ?l s" sr_newText] le ltext fits_le [OF f] nat_ends by (simp add: segment_def nat_diff_distrib)
      then have "splitLines ?T = take (i - p) (drop p ls) @ splitLines (take c (ls ! i) @ tr_text r1 @ drop d (ls ! j)) @
          appl line_rg lr_newLines (int (Suc j)) lrs (drop (Suc j) ls)"
        unfolding T using group_lines(1) [OF ls pi i l(2-4) plain True] lrs(3) by simp
      moreover have "appl line_rg lr_newLines (int b) lrs (drop b ls) =
          take (Suc j - b) (drop b ls) @ appl line_rg lr_newLines (int (Suc j)) lrs (drop (Suc j) ls)"
        using lr(5) True by (intro appl_split_nat [OF lrs(2)]) simp_all
      moreover have "fits line_rg (int b) (int (length ls)) lrs" using fits_mono [OF lrs(2)] lr(5) by simp
      ultimately show ?thesis
        using lrs(1) lr(2-5) pi lines
        by (intro exI [of _ "lr # lrs"]) (simp add: run lr(6) [symmetric] nat_diff_distrib del: fromTextEdit_loop.simps flip: ls_def)
    next
      case last: False
      then have j: "Suc j = length ls" using l(2) by simp
      have "rs = []" using later last e(3) by (cases rs; cases es') auto
      then have "es' = []" using e(3) by simp
      then have "splitLines ?T = take (i - p) (drop p ls) @ splitLines (take c (ls ! i) @ tr_text r1 @ drop d (ls ! j))"
        unfolding T using group_lines(2) [OF ls pi i l(2-4) plain j] by simp
      moreover have "take (Suc j - b) (drop b ls) = drop b ls" using j by simp
      moreover have one: "fromTextEdit_loop (StringText s) (r # rs) cur = Inr (Some [lr])" unfolding run by (simp add: \<open>rs = []\<close>)
      ultimately show ?thesis
        using lr(2-5) pi lines j one
        by (intro exI [of _ "[lr]"]) (simp add: lr(6) [symmetric] nat_diff_distrib del: fromTextEdit_loop.simps(2) flip: ls_def)
    qed
  qed
qed

section \<open>Correctness\<close>

definition example_rows :: "text16 list" where
  "example_rows = [[97], [98, 98], [], [99]]"

definition example_line_edit :: LineEdit where
  "example_line_edit = \<lparr>le_replacements =
     [LineReplacement_new \<lparr>lrStartLineNumber = 1, endLineNumberExclusive = 2\<rparr> [[120], [121]],
      LineReplacement_new \<lparr>lrStartLineNumber = 4, endLineNumberExclusive = 5\<rparr> []]\<rparr>"

lemma example_line_edit_within: "line_edit_within example_line_edit (length example_rows)"
  by code_simp

text \<open>C30: \<open>inverse\<close> of a line edit reverts it, and \<open>mapLineNumber\<close> follows the lines: for every edit within the lines,
  applied to the edited lines the inverse gives the original lines back; and every line in no replaced range, if there
  is one, has the same content at the mapped number.
\<close>

lemma LineEdit_inverse_reverts:
  assumes "line_edit_within ed (length ls)" and "LineEdit_apply ed ls = List.map Some ms"
  shows "(\<exists>inv. LineEdit_inverse ed ls = Inr inv \<and> line_edit_within inv (length ms) \<and> LineEdit_apply inv ms = List.map Some ls) \<and>
    (\<forall>line. 1 \<le> line \<and> line \<le> int (length ls) \<and> (\<forall>r \<in> set (le_replacements ed). \<not> LineRange_contains (lr_lineRange r) line) \<longrightarrow>
       js_at ms (LineEdit_mapLineNumber ed line - 1) = js_at ls (line - 1))"
proof (intro conjI allI impI)
  have ms: "List.map the (LineEdit_apply ed ls) = ms" "length (LineEdit_apply ed ls) = length ms" by (simp_all add: assms(2) comp_def)
  obtain inv where "LineEdit_inverse ed ls = Inr inv" "line_edit_within inv (length ms)" "LineEdit_apply inv ms = List.map Some ls"
    using line_inverse [OF assms(1)] unfolding ms by blast
  then show "\<exists>inv. LineEdit_inverse ed ls = Inr inv \<and> line_edit_within inv (length ms) \<and> LineEdit_apply inv ms = List.map Some ls" by blast
  fix line assume line: "1 \<le> line \<and> line \<le> int (length ls) \<and> (\<forall>r \<in> set (le_replacements ed). \<not> LineRange_contains (lr_lineRange r) line)"
  have "List.map Some ms = List.map Some (appl line_rg lr_newLines 0 (le_replacements ed) ls)"
    using line_apply [OF assms(1)] assms(2) by simp
  then have eff: "appl line_rg lr_newLines 0 (le_replacements ed) ls = ms" by (simp add: inj_map_eq_map)
  have le: "line \<le> int (length ls)" and free: "\<forall>r \<in> set (le_replacements ed). \<not> LineRange_contains (lr_lineRange r) line" using line by blast+
  show "js_at ms (LineEdit_mapLineNumber ed line - 1) = js_at ls (line - 1)"
    using mapLineNumber_track [OF assms(1) [unfolded line_edit_within_def] order_refl _ le free, of 0] line eff
    by (auto simp: LineEdit_mapLineNumber_def js_at_def nat_less_iff)
qed

lemma LineEdit_inverse_reverts_witness:
  "(\<exists>inv. LineEdit_inverse example_line_edit example_rows = Inr inv \<and>
     LineEdit_apply inv [[120], [121], [98, 98], []] = List.map Some example_rows) \<and>
   js_at [[120], [121], [98, 98], []] (LineEdit_mapLineNumber example_line_edit 2 - 1) = Some [98, 98 :: 16 word]"
proof -
  have "LineEdit_apply example_line_edit example_rows = List.map Some [[120], [121], [98, 98], []]"
    by code_simp
  note applied = LineEdit_inverse_reverts [OF example_line_edit_within this]
  have "1 \<le> (2 :: int) \<and> 2 \<le> int (length example_rows) \<and>
      (\<forall>r \<in> set (le_replacements example_line_edit). \<not> LineRange_contains (lr_lineRange r) 2)" "js_at example_rows (2 - 1) = Some [98, 98]"
    by code_simp+
  with applied show ?thesis by metis
qed

text \<open>C28: \<open>toEdit\<close> of a line edit has the effect of \<open>apply\<close>: for a text without carriage returns and an edit within its
  lines that leaves a line between two replacements and does not delete all lines, the conversion succeeds and
  applying the string edit gives the joined lines that \<open>apply\<close> gives.
\<close>

lemma LineEdit_toEdit_applies:
  assumes "13 \<notin> set s" and "line_edit_within ed (length (splitLines s))" and "line_gaps (le_replacements ed)"
    and "\<forall>r \<in> set (le_replacements ed). \<not> deletes_all (splitLines s) r"
  shows "\<exists>e ms. LineEdit_toEdit ed (StringText s) = Inr (Some e) \<and> string_edit_within e (length s) \<and>
    LineEdit_apply ed (splitLines s) = List.map Some ms \<and> StringEdit_apply e s = join_lines ms"
  by (rule line_toEdit [OF assms]) blast

lemma LineEdit_toEdit_applies_witness:
  "\<exists>e ms. LineEdit_toEdit example_line_edit (StringText (join_lines example_rows)) = Inr (Some e) \<and>
    LineEdit_apply example_line_edit example_rows = List.map Some ms \<and> StringEdit_apply e (join_lines example_rows) = join_lines ms"
proof -
  have ls: "splitLines (join_lines example_rows) = example_rows" by code_simp
  have "13 \<notin> set (join_lines example_rows)" "line_gaps (le_replacements example_line_edit)"
    "\<forall>r \<in> set (le_replacements example_line_edit). \<not> deletes_all example_rows r"
    by code_simp+
  then show ?thesis
    using LineEdit_toEdit_applies [of "join_lines example_rows" example_line_edit] example_line_edit_within unfolding ls by blast
qed

text \<open>C29: \<open>fromTextEdit\<close> keeps the effect: for a text edit within a text, none with carriage returns, it returns a line
  edit within the lines of the text, and applying it gives the lines of the text the text edit gives.
\<close>

lemma LineEdit_fromTextEdit_applies:
  assumes "text_edit_within s ed" and "13 \<notin> set s" and "\<forall>r \<in> set (te_replacements ed). 13 \<notin> set (tr_text r)"
  shows "\<exists>le s1. LineEdit_fromTextEdit ed (StringText s) = Inr (Some le) \<and> line_edit_within le (length (splitLines s)) \<and>
    TextEdit_applyToString ed s = Inr s1 \<and> LineEdit_apply le (splitLines s) = List.map Some (splitLines s1)"
proof -
  obtain es where es: "located s (te_replacements ed) es" "fits sr_range 0 (int (length s)) es"
    by (rule within_located [OF assms(1)])
  have first: "te_replacements ed = [] \<or> int 0 + 1 \<le> startLineNumber (tr_range (hd (te_replacements ed)))"
  proof (cases "te_replacements ed")
    case (Cons r rs)
    then obtain e where "at_offsets s r e" using es(1) by auto
    then show ?thesis using at_offsets_bounds(5) [of s r e] position_at_column(2) [of s] Cons by (simp add: IPosition_eq_iff)
  qed simp
  have "\<exists>lrs. fromTextEdit_loop (StringText s) (te_replacements ed) [] = Inr (Some lrs) \<and> fits line_rg (int 0) (int (length (splitLines s))) lrs \<and>
      splitLines (appl sr_range sr_newText (line_at (splitLines s) 0) ([] @ es) (drop (line_offset (splitLines s) 0) s)) =
        appl line_rg lr_newLines (int 0) lrs (drop 0 (splitLines s))"
    by (rule fromTextEdit_walk [OF assms(2) _ es(1), of "[]"]) (use es(2) assms(3) first in \<open>auto simp: located_def\<close>)
  then obtain lrs where lrs: "fromTextEdit_loop (StringText s) (te_replacements ed) [] = Inr (Some lrs)"
    "fits line_rg 0 (int (length (splitLines s))) lrs"
    "splitLines (appl sr_range sr_newText 0 es s) = appl line_rg lr_newLines 0 lrs (splitLines s)" by auto
  have "LineEdit_fromTextEdit ed (StringText s) = Inr (Some \<lparr>le_replacements = lrs\<rparr>)"
    using lrs(1) line_fits_check [OF lrs(2)] by (simp add: LineEdit_fromTextEdit_def LineEdit_new_def)
  moreover have "line_edit_within \<lparr>le_replacements = lrs\<rparr> (length (splitLines s))" using lrs(2) by (simp add: line_edit_within_def)
  ultimately show ?thesis
    using line_apply [of "\<lparr>le_replacements = lrs\<rparr>" "splitLines s"] apply_string_located [OF es] assms(1) lrs(3)
    by (simp add: TextEdit_applyToString_def text_edit_within_def)
qed

lemma LineEdit_fromTextEdit_applies_witness:
  "\<exists>le. LineEdit_fromTextEdit (TextEdit_insert (Position_new 1 2) [10, 120]) (StringText (join_lines example_rows)) = Inr (Some le) \<and>
    LineEdit_apply le example_rows = List.map Some [[97], [120], [98, 98], [], [99]]"
proof -
  have ls: "splitLines (join_lines example_rows) = example_rows" by code_simp
  have within: "text_edit_within (join_lines example_rows) (TextEdit_insert (Position_new 1 2) [10, 120])"
    "13 \<notin> set (join_lines example_rows)"
    "\<forall>r \<in> set (te_replacements (TextEdit_insert (Position_new 1 2) [10, 120])). 13 \<notin> set (tr_text r)"
    by code_simp+
  obtain s1 where s1: "TextEdit_applyToString (TextEdit_insert (Position_new 1 2) [10, 120]) (join_lines example_rows) = Inr s1"
    "splitLines s1 = [[97], [120], [98, 98], [], [99]]"
  proof (rule that)
    show "TextEdit_applyToString (TextEdit_insert (Position_new 1 2) [10, 120]) (join_lines example_rows) =
      Inr [97, 10, 120, 10, 98, 98, 10, 10, 99]" by code_simp
    show "splitLines [97, 10, 120, 10, 98, 98, 10, 10, 99] = [[97], [120], [98, 98], [], [99]]" by code_simp
  qed
  from LineEdit_fromTextEdit_applies [OF within] show ?thesis unfolding ls s1(1) using s1(2) by auto
qed

section \<open>Where the conversion to a string edit fails\<close>

text \<open>Two adjacent deletions at the end of a text are a valid line edit, but \<open>toEdit\<close> turns them into overlapping
  replacements and throws; \<open>apply\<close> deletes both lines.\<close>

lemma toEdit_adjacent_deletions:
  "LineEdit_check [LineReplacement_new \<lparr>lrStartLineNumber = 3, endLineNumberExclusive = 4\<rparr> [],
     LineReplacement_new \<lparr>lrStartLineNumber = 4, endLineNumberExclusive = 5\<rparr> []] \<and>
   LineEdit_apply \<lparr>le_replacements = [LineReplacement_new \<lparr>lrStartLineNumber = 3, endLineNumberExclusive = 4\<rparr> [],
     LineReplacement_new \<lparr>lrStartLineNumber = 4, endLineNumberExclusive = 5\<rparr> []]\<rparr> example_rows = List.map Some [[97], [98, 98]] \<and>
   LineEdit_toEdit \<lparr>le_replacements = [LineReplacement_new \<lparr>lrStartLineNumber = 3, endLineNumberExclusive = 4\<rparr> [],
     LineReplacement_new \<lparr>lrStartLineNumber = 4, endLineNumberExclusive = 5\<rparr> []]\<rparr> (StringText (join_lines example_rows)) =
     Inl BugIndicatingError"
  by code_simp

end
