(* ===== verification/Diff_Sequences.thy ===== *)
theory Diff_Sequences
  imports Line_Edits
begin

text \<open>
  \<open>src/vs/editor/common/diff/defaultLinesDiffComputer/algorithms/diffAlgorithm.ts\<close> and \<open>lineSequence.ts\<close>: the
  sequences a diff algorithm compares and the list of differences it returns.  A sequence is the record of the methods
  of \<open>ISequence\<close>; the locale \<open>diff_sequence\<close> is what the algorithms rely on, and the sequences of trimmed lines
  satisfy it.  \<open>aligned\<close> is the contract of a result: outside the reported ranges the sequences agree element by
  element.
\<close>

section \<open>Differences\<close>

record SequenceDiff =
  seq1Range :: OffsetRange
  seq2Range :: OffsetRange

definition SequenceDiff_new :: "OffsetRange \<Rightarrow> OffsetRange \<Rightarrow> SequenceDiff" where
  "SequenceDiff_new r1 r2 = \<lparr>seq1Range = r1, seq2Range = r2\<rparr>"

record OffsetPair =
  offset1 :: int
  offset2 :: int

definition OffsetPair_new :: "int \<Rightarrow> int \<Rightarrow> OffsetPair" where
  "OffsetPair_new a b = \<lparr>offset1 = a, offset2 = b\<rparr>"

definition OffsetPair_zero :: OffsetPair where
  "OffsetPair_zero = OffsetPair_new 0 0"

definition OffsetPair_max :: OffsetPair where
  "OffsetPair_max = OffsetPair_new 9007199254740991 9007199254740991"

definition OffsetPair_delta :: "OffsetPair \<Rightarrow> int \<Rightarrow> OffsetPair" where
  "OffsetPair_delta p offset = (if offset = 0 then p else OffsetPair_new (offset1 p + offset) (offset2 p + offset))"

definition OffsetPair_equals :: "OffsetPair \<Rightarrow> OffsetPair \<Rightarrow> bool" where
  "OffsetPair_equals p other \<longleftrightarrow> offset1 p = offset1 other \<and> offset2 p = offset2 other"

definition SequenceDiff_fromOffsetPairs :: "OffsetPair \<Rightarrow> OffsetPair \<Rightarrow> SequenceDiff result" where
  "SequenceDiff_fromOffsetPairs st en =
     rbind (OffsetRange_new (offset1 st) (offset1 en)) (\<lambda>r1.
     rbind (OffsetRange_new (offset2 st) (offset2 en)) (\<lambda>r2. Inr (SequenceDiff_new r1 r2)))"

definition SequenceDiff_getStarts :: "SequenceDiff \<Rightarrow> OffsetPair" where
  "SequenceDiff_getStarts d = OffsetPair_new (start (seq1Range d)) (start (seq2Range d))"

definition SequenceDiff_getEndExclusives :: "SequenceDiff \<Rightarrow> OffsetPair" where
  "SequenceDiff_getEndExclusives d = OffsetPair_new (endExclusive (seq1Range d)) (endExclusive (seq2Range d))"

text \<open>\<open>forEachAdjacent\<close> calls its function on all neighbours, with \<open>undefined\<close> before the first and after the last.\<close>

fun invert_loop :: "SequenceDiff option \<Rightarrow> SequenceDiff list \<Rightarrow> int \<Rightarrow> SequenceDiff list result" where
  "invert_loop a [] doc1Length =
     rbind (SequenceDiff_fromOffsetPairs (case a of Some a \<Rightarrow> SequenceDiff_getEndExclusives a | None \<Rightarrow> OffsetPair_zero)
       (OffsetPair_new doc1Length
         ((case a of Some a \<Rightarrow> endExclusive (seq2Range a) - endExclusive (seq1Range a) | None \<Rightarrow> 0) + doc1Length))) (\<lambda>d. Inr [d])"
| "invert_loop a (b # ds) doc1Length =
     rbind (SequenceDiff_fromOffsetPairs (case a of Some a \<Rightarrow> SequenceDiff_getEndExclusives a | None \<Rightarrow> OffsetPair_zero)
       (SequenceDiff_getStarts b)) (\<lambda>d.
     rbind (invert_loop (Some b) ds doc1Length) (\<lambda>rs. Inr (d # rs)))"

definition SequenceDiff_invert :: "SequenceDiff list \<Rightarrow> int \<Rightarrow> SequenceDiff list result" where
  "SequenceDiff_invert sequenceDiffs doc1Length = invert_loop None sequenceDiffs doc1Length"

text \<open>\<open>assertSorted\<close> throws at the first difference that begins before the end of the last one.\<close>

fun assertSorted_loop :: "SequenceDiff option \<Rightarrow> SequenceDiff list \<Rightarrow> unit result" where
  "assertSorted_loop last' [] = Inr ()"
| "assertSorted_loop last' (cur # ds) =
     (case last' of
        Some l \<Rightarrow>
          if \<not> (endExclusive (seq1Range l) \<le> start (seq1Range cur) \<and> endExclusive (seq2Range l) \<le> start (seq2Range cur))
          then Inl BugIndicatingError else assertSorted_loop (Some cur) ds
      | None \<Rightarrow> assertSorted_loop (Some cur) ds)"

definition SequenceDiff_assertSorted :: "SequenceDiff list \<Rightarrow> unit result" where
  "SequenceDiff_assertSorted ds = assertSorted_loop None ds"

definition SequenceDiff_swap :: "SequenceDiff \<Rightarrow> SequenceDiff" where
  "SequenceDiff_swap d = SequenceDiff_new (seq2Range d) (seq1Range d)"

definition SequenceDiff_join :: "SequenceDiff \<Rightarrow> SequenceDiff \<Rightarrow> SequenceDiff result" where
  "SequenceDiff_join d other =
     rbind (OffsetRange_join (seq1Range d) (seq1Range other)) (\<lambda>r1.
     rbind (OffsetRange_join (seq2Range d) (seq2Range other)) (\<lambda>r2. Inr (SequenceDiff_new r1 r2)))"

definition SequenceDiff_delta :: "SequenceDiff \<Rightarrow> int \<Rightarrow> SequenceDiff result" where
  "SequenceDiff_delta d offset =
     (if offset = 0 then Inr d
      else rbind (OffsetRange_delta (seq1Range d) offset) (\<lambda>r1.
           rbind (OffsetRange_delta (seq2Range d) offset) (\<lambda>r2. Inr (SequenceDiff_new r1 r2))))"

definition SequenceDiff_deltaStart :: "SequenceDiff \<Rightarrow> int \<Rightarrow> SequenceDiff result" where
  "SequenceDiff_deltaStart d offset =
     (if offset = 0 then Inr d
      else rbind (OffsetRange_deltaStart (seq1Range d) offset) (\<lambda>r1.
           rbind (OffsetRange_deltaStart (seq2Range d) offset) (\<lambda>r2. Inr (SequenceDiff_new r1 r2))))"

definition SequenceDiff_deltaEnd :: "SequenceDiff \<Rightarrow> int \<Rightarrow> SequenceDiff result" where
  "SequenceDiff_deltaEnd d offset =
     (if offset = 0 then Inr d
      else rbind (OffsetRange_deltaEnd (seq1Range d) offset) (\<lambda>r1.
           rbind (OffsetRange_deltaEnd (seq2Range d) offset) (\<lambda>r2. Inr (SequenceDiff_new r1 r2))))"

definition SequenceDiff_intersectsOrTouches :: "SequenceDiff \<Rightarrow> SequenceDiff \<Rightarrow> bool" where
  "SequenceDiff_intersectsOrTouches d other \<longleftrightarrow>
     OffsetRange_intersectsOrTouches (seq1Range d) (seq1Range other) \<or>
     OffsetRange_intersectsOrTouches (seq2Range d) (seq2Range other)"

definition SequenceDiff_intersect :: "SequenceDiff \<Rightarrow> SequenceDiff \<Rightarrow> SequenceDiff option result" where
  "SequenceDiff_intersect d other =
     rbind (OffsetRange_intersect (seq1Range d) (seq1Range other)) (\<lambda>i1.
     rbind (OffsetRange_intersect (seq2Range d) (seq2Range other)) (\<lambda>i2.
     case (i1, i2) of
       (Some i1, Some i2) \<Rightarrow> Inr (Some (SequenceDiff_new i1 i2))
     | _ \<Rightarrow> Inr None))"

section \<open>Sequences\<close>

text \<open>The methods of \<open>ISequence\<close>.  An element outside the sequence is \<open>undefined\<close>; the optional boundary score may throw.\<close>

record ISequence =
  getElement :: "int \<Rightarrow> int option"
  seq_length :: int
  getBoundaryScore :: "(int \<Rightarrow> int result) option"
  isStronglyEqual :: "int \<Rightarrow> int \<Rightarrow> bool"

text \<open>A timeout answers each call of \<open>isValid\<close>: the n-th call is the n-th value.\<close>

type_synonym ITimeout = "nat \<Rightarrow> bool"

definition InfiniteTimeout :: ITimeout where
  "InfiniteTimeout n = True"

text \<open>\<open>DateTimeout\<close>: once the time is up it stays invalid, even if the clock is set back.\<close>

record DateTimeout =
  startTime :: int
  dt_timeout :: int
  dt_valid :: bool
  dt_disabled :: bool

definition DateTimeout_new :: "int \<Rightarrow> int \<Rightarrow> DateTimeout result" where
  "DateTimeout_new now t =
     (if t \<le> 0 then Inl BugIndicatingError
      else Inr \<lparr>startTime = now, dt_timeout = t, dt_valid = True, dt_disabled = False\<rparr>)"

definition DateTimeout_isValid :: "DateTimeout \<Rightarrow> int \<Rightarrow> bool \<times> DateTimeout" where
  "DateTimeout_isValid st now =
     (if dt_disabled st then (True, st)
      else let valid = (now - startTime st < dt_timeout st);
               st = (if \<not> valid \<and> dt_valid st then st\<lparr>dt_valid := False\<rparr> else st)
           in (dt_valid st, st))"

definition DateTimeout_disable :: "DateTimeout \<Rightarrow> DateTimeout" where
  "DateTimeout_disable st = st\<lparr>dt_timeout := 9007199254740991, dt_disabled := True, dt_valid := True\<rparr>"

text \<open>An algorithm stops early when its time is up; a number computed from an undefined one is \<open>NaN\<close>.\<close>

datatype 'a outcome = NotANumber | TimedOut | Computed 'a

record DiffAlgorithmResult =
  diffs :: "SequenceDiff list"
  hitTimeout :: bool

definition DiffAlgorithmResult_new :: "SequenceDiff list \<Rightarrow> bool \<Rightarrow> DiffAlgorithmResult" where
  "DiffAlgorithmResult_new ds b = \<lparr>diffs = ds, hitTimeout = b\<rparr>"

definition DiffAlgorithmResult_trivial :: "ISequence \<Rightarrow> ISequence \<Rightarrow> DiffAlgorithmResult result" where
  "DiffAlgorithmResult_trivial s1 s2 =
     rbind (OffsetRange_ofLength (seq_length s1)) (\<lambda>r1.
     rbind (OffsetRange_ofLength (seq_length s2)) (\<lambda>r2. Inr (DiffAlgorithmResult_new [SequenceDiff_new r1 r2] False)))"

definition DiffAlgorithmResult_trivialTimedOut :: "ISequence \<Rightarrow> ISequence \<Rightarrow> DiffAlgorithmResult result" where
  "DiffAlgorithmResult_trivialTimedOut s1 s2 =
     rbind (OffsetRange_ofLength (seq_length s1)) (\<lambda>r1.
     rbind (OffsetRange_ofLength (seq_length s2)) (\<lambda>r2. Inr (DiffAlgorithmResult_new [SequenceDiff_new r1 r2] True)))"

section \<open>Sequences of lines\<close>

fun getIndentation :: "text16 \<Rightarrow> int" where
  "getIndentation (c # cs) = (if c = 32 \<or> c = 9 then 1 + getIndentation cs else 0)"
| "getIndentation [] = 0"

definition LineSequence_getBoundaryScore :: "text16 list \<Rightarrow> int \<Rightarrow> int result" where
  "LineSequence_getBoundaryScore ls n =
     (let indent = (\<lambda>i. case js_at ls i of Some l \<Rightarrow> Inr (getIndentation l) | None \<Rightarrow> Inl JsTypeError)
      in rbind (if n = 0 then Inr 0 else indent (n - 1)) (\<lambda>indentationBefore.
         rbind (if n = int (length ls) then Inr 0 else indent n) (\<lambda>indentationAfter.
         Inr (1000 - (indentationBefore + indentationAfter)))))"

definition LineSequence :: "int list \<Rightarrow> text16 list \<Rightarrow> ISequence" where
  "LineSequence trimmedHash ls =
     \<lparr>getElement = js_at trimmedHash,
      seq_length = int (length trimmedHash),
      getBoundaryScore = Some (LineSequence_getBoundaryScore ls),
      isStronglyEqual = (\<lambda>offset1 offset2. js_at ls offset1 = js_at ls offset2)\<rparr>"

definition LineSequence_getText :: "text16 list \<Rightarrow> OffsetRange \<Rightarrow> text16" where
  "LineSequence_getText ls rg = join_lines (js_slice ls (start rg) (endExclusive rg))"

section \<open>The contract of a diff\<close>

text \<open>What an algorithm relies on: exactly the offsets within the sequence have an element.\<close>

definition seq_wf :: "ISequence \<Rightarrow> bool" where
  "seq_wf s \<longleftrightarrow> 0 \<le> seq_length s \<and> (\<forall>i. getElement s i \<noteq> None \<longleftrightarrow> 0 \<le> i \<and> i < seq_length s)"

definition matches :: "ISequence \<Rightarrow> ISequence \<Rightarrow> int \<Rightarrow> int \<Rightarrow> int \<Rightarrow> bool" where
  "matches s1 s2 p q n \<longleftrightarrow> (\<forall>i \<in> set [0..n - 1]. getElement s1 (p + i) = getElement s2 (q + i))"

text \<open>From \<open>p\<close> and \<open>q\<close> on, the sequences agree outside the differences, which are in order.\<close>

fun aligned :: "ISequence \<Rightarrow> ISequence \<Rightarrow> int \<Rightarrow> int \<Rightarrow> SequenceDiff list \<Rightarrow> bool" where
  "aligned s1 s2 p q [] \<longleftrightarrow>
     seq_length s1 - p = seq_length s2 - q \<and> p \<le> seq_length s1 \<and> matches s1 s2 p q (seq_length s1 - p)"
| "aligned s1 s2 p q (d # ds) \<longleftrightarrow>
     start (seq1Range d) - p = start (seq2Range d) - q \<and> p \<le> start (seq1Range d) \<and>
     matches s1 s2 p q (start (seq1Range d) - p) \<and>
     start (seq1Range d) \<le> endExclusive (seq1Range d) \<and> start (seq2Range d) \<le> endExclusive (seq2Range d) \<and>
     aligned s1 s2 (endExclusive (seq1Range d)) (endExclusive (seq2Range d)) ds"

text \<open>Two neighbouring differences have an element between them.\<close>

fun apart :: "SequenceDiff list \<Rightarrow> bool" where
  "apart (a # b # ds) \<longleftrightarrow> endExclusive (seq1Range a) < start (seq1Range b) \<and> apart (b # ds)"
| "apart [] \<longleftrightarrow> True"
| "apart [a] \<longleftrightarrow> True"

lemma matches_iff: "matches s1 s2 p q n \<longleftrightarrow> (\<forall>i. 0 \<le> i \<and> i < n \<longrightarrow> getElement s1 (p + i) = getElement s2 (q + i))"
  by (auto simp: matches_def)

lemma matches_0 [simp]: "n \<le> 0 \<Longrightarrow> matches s1 s2 p q n"
  by (simp add: matches_def)

lemma matches_join:
  assumes "matches s1 s2 p q m" and "matches s1 s2 (p + m) (q + m) n" and "0 \<le> m"
  shows "matches s1 s2 p q (m + n)"
  unfolding matches_iff
proof (intro allI impI)
  fix i assume i: "0 \<le> i \<and> i < m + n"
  show "getElement s1 (p + i) = getElement s2 (q + i)"
  proof (cases "i < m")
    case False
    then have "0 \<le> i - m \<and> i - m < n" using i by simp
    then have "getElement s1 (p + m + (i - m)) = getElement s2 (q + m + (i - m))" using assms(2) unfolding matches_iff by blast
    then show ?thesis by simp
  qed (use assms(1) i in \<open>simp add: matches_iff\<close>)
qed

lemma matches_part:
  assumes "matches s1 s2 p q n" and "0 \<le> a" and "a + m \<le> n"
  shows "matches s1 s2 (p + a) (q + a) m"
  unfolding matches_iff
proof (intro allI impI)
  fix i assume "0 \<le> i \<and> i < m"
  then have "0 \<le> a + i \<and> a + i < n" using assms(2,3) by simp
  then show "getElement s1 (p + a + i) = getElement s2 (q + a + i)" using assms(1) unfolding matches_iff by (metis add.assoc)
qed

text \<open>An equal run in front of an alignment extends it.\<close>

lemma aligned_extend:
  assumes "aligned s1 s2 p q ds" and "matches s1 s2 (p - n) (q - n) n" and "0 \<le> n"
  shows "aligned s1 s2 (p - n) (q - n) ds"
proof (cases ds)
  case Nil
  have "matches s1 s2 (p - n) (q - n) (n + (seq_length s1 - p))"
    using assms Nil by (intro matches_join) auto
  moreover have "n + (seq_length s1 - p) = seq_length s1 - (p - n)" by simp
  ultimately have "matches s1 s2 (p - n) (q - n) (seq_length s1 - (p - n))" by (simp only:)
  moreover have "seq_length s1 - p = seq_length s2 - q" "p \<le> seq_length s1" using assms(1) Nil by auto
  ultimately show ?thesis unfolding Nil aligned.simps using assms(3) by simp
next
  case (Cons d ds')
  have "matches s1 s2 (p - n) (q - n) (n + (start (seq1Range d) - p))"
    using assms Cons by (intro matches_join) auto
  then show ?thesis using Cons assms(1,3) by (auto simp: algebra_simps)
qed

lemma aligned_within:
  assumes "aligned s1 s2 p q ds"
  shows "p \<le> seq_length s1" and "q \<le> seq_length s2"
  using assms by (induction ds arbitrary: p q) (simp_all, force+)

text \<open>The whole of both sequences as one difference.\<close>

lemma aligned_trivial:
  assumes "0 \<le> seq_length s1" and "0 \<le> seq_length s2"
  shows "\<exists>r. DiffAlgorithmResult_trivial s1 s2 = Inr r \<and> aligned s1 s2 0 0 (diffs r) \<and> apart (diffs r)"
    and "\<exists>r. DiffAlgorithmResult_trivialTimedOut s1 s2 = Inr r \<and> aligned s1 s2 0 0 (diffs r) \<and> apart (diffs r) \<and> hitTimeout r"
  using assms
  by (simp_all add: DiffAlgorithmResult_trivial_def DiffAlgorithmResult_trivialTimedOut_def OffsetRange_ofLength_def OffsetRange_new_def
      SequenceDiff_new_def DiffAlgorithmResult_new_def)

text \<open>Read as an edit, an alignment turns the first sequence into the second.\<close>

definition elements :: "ISequence \<Rightarrow> int option list" where
  "elements s = List.map (getElement s) [0..seq_length s - 1]"

fun patch :: "ISequence \<Rightarrow> ISequence \<Rightarrow> int \<Rightarrow> SequenceDiff list \<Rightarrow> int option list" where
  "patch s1 s2 p [] = List.map (getElement s1) [p..seq_length s1 - 1]"
| "patch s1 s2 p (d # ds) =
     List.map (getElement s1) [p..start (seq1Range d) - 1] @
     List.map (getElement s2) [start (seq2Range d)..endExclusive (seq2Range d) - 1] @
     patch s1 s2 (endExclusive (seq1Range d)) ds"

lemma matches_map:
  assumes "matches s1 s2 p q n"
  shows "List.map (getElement s1) [p..p + n - 1] = List.map (getElement s2) [q..q + n - 1]"
proof (rule nth_equalityI)
  fix i assume "i < length (List.map (getElement s1) [p..p + n - 1])"
  then have "int i < n" by simp
  moreover from this have "getElement s1 (p + int i) = getElement s2 (q + int i)" using assms unfolding matches_iff by simp
  ultimately show "List.map (getElement s1) [p..p + n - 1] ! i = List.map (getElement s2) [q..q + n - 1] ! i"
    by simp
qed simp

lemma upto_split: "a \<le> b + 1 \<Longrightarrow> b \<le> c \<Longrightarrow> [a..c] = [a..b] @ [b + 1..c :: int]"
proof (cases "a \<le> b")
  case False
  moreover assume "a \<le> b + 1"
  ultimately have "a = b + 1" by simp
  then show ?thesis by simp
qed (simp add: upto_split2 [of a b c])

lemma aligned_patch:
  assumes "aligned s1 s2 p q ds"
  shows "patch s1 s2 p ds = List.map (getElement s2) [q..seq_length s2 - 1]"
  using assms
proof (induction ds arbitrary: p q)
  case Nil
  then show ?case using matches_map [of s1 s2 p q "seq_length s1 - p"] by (auto simp: algebra_simps)
next
  case (Cons d ds)
  let ?b = "start (seq2Range d)" and ?c = "endExclusive (seq2Range d)"
  have "?c \<le> seq_length s2" using Cons.prems aligned_within(2) by auto
  moreover have "q \<le> ?b" "?b \<le> ?c" using Cons.prems by auto
  ultimately have "[q..seq_length s2 - 1] = [q..?b - 1] @ [?b..?c - 1] @ [?c..seq_length s2 - 1]"
    using upto_split [of q "?b - 1" "seq_length s2 - 1"] upto_split [of ?b "?c - 1" "seq_length s2 - 1"] by simp
  moreover have "List.map (getElement s1) [p..start (seq1Range d) - 1] = List.map (getElement s2) [q..?b - 1]"
    using Cons.prems matches_map [of s1 s2 p q "start (seq1Range d) - p"] by (auto simp: algebra_simps)
  ultimately show ?case using Cons by auto
qed

text \<open>The sequences of trimmed lines, hashed by a function of the trimmed line.\<close>

locale diff_sequence =
  fixes s :: ISequence
  assumes bounded: "seq_wf s"
    and strongly_equal: "0 \<le> i \<Longrightarrow> i < seq_length s \<Longrightarrow> 0 \<le> j \<Longrightarrow> j < seq_length s \<Longrightarrow> isStronglyEqual s i j \<Longrightarrow> getElement s i = getElement s j"
    and score_returns: "getBoundaryScore s = Some f \<Longrightarrow> 0 \<le> i \<Longrightarrow> i \<le> seq_length s \<Longrightarrow> \<exists>n. f i = Inr n"

interpretation line_sequence: diff_sequence "LineSequence (List.map h ls) ls" for h ls
proof
  show "seq_wf (LineSequence (List.map h ls) ls)" by (auto simp: seq_wf_def LineSequence_def js_at_def)
  show "getElement (LineSequence (List.map h ls) ls) i = getElement (LineSequence (List.map h ls) ls) j"
    if "0 \<le> i" "i < seq_length (LineSequence (List.map h ls) ls)" "0 \<le> j" "j < seq_length (LineSequence (List.map h ls) ls)"
      "isStronglyEqual (LineSequence (List.map h ls) ls) i j" for i j
    using that by (auto simp: LineSequence_def js_at_def nat_less_iff)
  show "\<exists>n. f i = Inr n"
    if "getBoundaryScore (LineSequence (List.map h ls) ls) = Some f" "0 \<le> i" "i \<le> seq_length (LineSequence (List.map h ls) ls)" for f i
    using that by (auto simp: LineSequence_def LineSequence_getBoundaryScore_def js_at_def Let_def)
qed

end
