(* ===== verification/Dynamic_Diff.thy ===== *)
theory Dynamic_Diff
  imports Js_Numbers Diff_Sequences
begin

text \<open>
  \<open>src/vs/editor/common/diff/defaultLinesDiffComputer/algorithms/dynamicProgrammingDiffing.ts\<close> and the class
  \<open>Array2D\<close> of \<open>utils.ts\<close>: the quadratic diff over tables of scores.  Scores are numbers of the language, with NaN,
  the infinities and the rounding of sums; a cell that is read before it is written is \<open>undefined\<close>, which counts as
  NaN in a sum or a maximum and equals no number.
\<close>

section \<open>Tables\<close>

text \<open>The backing array is sparse: it maps an index to what was written there.  Its length is limited.\<close>

record 'a Array2D =
  width :: int
  height :: int
  cells :: "int \<Rightarrow> 'a option"

definition Array2D_new :: "int \<Rightarrow> int \<Rightarrow> 'a Array2D result" where
  "Array2D_new w h =
     (if w * h < 0 \<or> w * h \<ge> 4294967296 then Inl RangeError else Inr \<lparr>width = w, height = h, cells = (\<lambda>_. None)\<rparr>)"

definition Array2D_get :: "'a Array2D \<Rightarrow> int \<Rightarrow> int \<Rightarrow> 'a option" where
  "Array2D_get a x y = cells a (x + y * width a)"

definition Array2D_set :: "'a Array2D \<Rightarrow> int \<Rightarrow> int \<Rightarrow> 'a \<Rightarrow> 'a Array2D" where
  "Array2D_set a x y v = a\<lparr>cells := (cells a)(x + y * width a := Some v)\<rparr>"

record DPTables =
  lcsLengths :: "js_number Array2D"
  directions :: "int Array2D"
  lengths :: "js_number Array2D"

section \<open>Filling the tables\<close>

definition as_number :: "js_number option \<Rightarrow> js_number" where
  "as_number v = (case v of None \<Rightarrow> JsNaN | Some n \<Rightarrow> n)"

text \<open>The score of ending with the pair of elements at \<open>s1\<close> and \<open>s2\<close>.\<close>

definition extended_score :: "ISequence \<Rightarrow> ISequence \<Rightarrow> (int \<Rightarrow> int \<Rightarrow> js_number) option \<Rightarrow> DPTables \<Rightarrow> int \<Rightarrow> int \<Rightarrow> js_number" where
  "extended_score seq1 seq2 equalityScore T s1 s2 =
     (if getElement seq1 s1 = getElement seq2 s2 then
        (let base = (if s1 = 0 \<or> s2 = 0 then JsNum 0 else as_number (Array2D_get (lcsLengths T) (s1 - 1) (s2 - 1)));
             run = (if s1 > 0 \<and> s2 > 0 \<and> Array2D_get (directions T) (s1 - 1) (s2 - 1) = Some 3
                    then num_add base (as_number (Array2D_get (lengths T) (s1 - 1) (s2 - 1))) else base)
         in num_add run (case equalityScore of Some f \<Rightarrow> f s1 s2 | None \<Rightarrow> JsNum 1))
      else JsNum (- 1))"

definition fill_cell :: "ISequence \<Rightarrow> ISequence \<Rightarrow> (int \<Rightarrow> int \<Rightarrow> js_number) option \<Rightarrow> DPTables \<Rightarrow> int \<Rightarrow> int \<Rightarrow> DPTables" where
  "fill_cell seq1 seq2 equalityScore T s1 s2 =
     (let horizontalLen = (if s1 = 0 then JsNum 0 else as_number (Array2D_get (lcsLengths T) (s1 - 1) s2));
          verticalLen = (if s2 = 0 then JsNum 0 else as_number (Array2D_get (lcsLengths T) s1 (s2 - 1)));
          extendedSeqScore = extended_score seq1 seq2 equalityScore T s1 s2;
          newValue = num_max (num_max horizontalLen verticalLen) extendedSeqScore;
          T' = (if num_eq newValue extendedSeqScore then
                  (let prevLen = (if s1 > 0 \<and> s2 > 0 then as_number (Array2D_get (lengths T) (s1 - 1) (s2 - 1)) else JsNum 0)
                   in T\<lparr>lengths := Array2D_set (lengths T) s1 s2 (num_add prevLen (JsNum 1)),
                        directions := Array2D_set (directions T) s1 s2 3\<rparr>)
                else if num_eq newValue horizontalLen then
                  T\<lparr>lengths := Array2D_set (lengths T) s1 s2 (JsNum 0), directions := Array2D_set (directions T) s1 s2 1\<rparr>
                else if num_eq newValue verticalLen then
                  T\<lparr>lengths := Array2D_set (lengths T) s1 s2 (JsNum 0), directions := Array2D_set (directions T) s1 s2 2\<rparr>
                else T)
      in T'\<lparr>lcsLengths := Array2D_set (lcsLengths T') s1 s2 newValue\<rparr>)"

text \<open>The two loops; the clock is asked once per cell, and \<open>n\<close> counts the calls.  None: the time is up.\<close>

fun fill_row :: "ISequence \<Rightarrow> ISequence \<Rightarrow> ITimeout \<Rightarrow> (int \<Rightarrow> int \<Rightarrow> js_number) option \<Rightarrow> int \<Rightarrow> int list \<Rightarrow> DPTables \<Rightarrow> nat \<Rightarrow> (DPTables \<times> nat) option" where
  "fill_row seq1 seq2 timeout equalityScore s1 [] T n = Some (T, n)"
| "fill_row seq1 seq2 timeout equalityScore s1 (s2 # s2s) T n =
     (if \<not> timeout n then None
      else fill_row seq1 seq2 timeout equalityScore s1 s2s (fill_cell seq1 seq2 equalityScore T s1 s2) (n + 1))"

fun fill_rows :: "ISequence \<Rightarrow> ISequence \<Rightarrow> ITimeout \<Rightarrow> (int \<Rightarrow> int \<Rightarrow> js_number) option \<Rightarrow> int list \<Rightarrow> DPTables \<Rightarrow> nat \<Rightarrow> (DPTables \<times> nat) option" where
  "fill_rows seq1 seq2 timeout equalityScore [] T n = Some (T, n)"
| "fill_rows seq1 seq2 timeout equalityScore (s1 # s1s) T n =
     (case fill_row seq1 seq2 timeout equalityScore s1 [0..seq_length seq2 - 1] T n of
        Some (T, n) \<Rightarrow> fill_rows seq1 seq2 timeout equalityScore s1s T n
      | None \<Rightarrow> None)"

section \<open>Backtracking\<close>

text \<open>\<open>reportDecreasingAligningPositions\<close> pushes the gap behind the pair; the list is reversed at the end.\<close>

definition report_aligning :: "int \<Rightarrow> int \<Rightarrow> int \<Rightarrow> int \<Rightarrow> SequenceDiff list \<Rightarrow> SequenceDiff list result" where
  "report_aligning s1 s2 lastAligningPosS1 lastAligningPosS2 res =
     (if s1 + 1 \<noteq> lastAligningPosS1 \<or> s2 + 1 \<noteq> lastAligningPosS2 then
        rbind (OffsetRange_new (s1 + 1) lastAligningPosS1) (\<lambda>r1.
        rbind (OffsetRange_new (s2 + 1) lastAligningPosS2) (\<lambda>r2.
        Inr (res @ [SequenceDiff_new r1 r2])))
      else Inr res)"

function backtrack :: "int Array2D \<Rightarrow> int \<Rightarrow> int \<Rightarrow> int \<Rightarrow> int \<Rightarrow> SequenceDiff list \<Rightarrow> (SequenceDiff list \<times> int \<times> int) result" where
  "backtrack dirs s1 s2 lastAligningPosS1 lastAligningPosS2 res =
     (if s1 \<ge> 0 \<and> s2 \<ge> 0 then
        (if Array2D_get dirs s1 s2 = Some 3 then
           rbind (report_aligning s1 s2 lastAligningPosS1 lastAligningPosS2 res) (\<lambda>res.
           backtrack dirs (s1 - 1) (s2 - 1) s1 s2 res)
         else if Array2D_get dirs s1 s2 = Some 1 then backtrack dirs (s1 - 1) s2 lastAligningPosS1 lastAligningPosS2 res
         else backtrack dirs s1 (s2 - 1) lastAligningPosS1 lastAligningPosS2 res)
      else Inr (res, lastAligningPosS1, lastAligningPosS2))"
  by pat_completeness auto
termination by (relation "measure (\<lambda>(d, s1, s2, l1, l2, r). nat (s1 + 1) + nat (s2 + 1))") auto

declare backtrack.simps [simp del]

definition DynamicProgrammingDiffing_compute ::
    "ISequence \<Rightarrow> ISequence \<Rightarrow> ITimeout \<Rightarrow> (int \<Rightarrow> int \<Rightarrow> js_number) option \<Rightarrow> DiffAlgorithmResult result" where
  "DynamicProgrammingDiffing_compute sequence1 sequence2 timeout equalityScore =
     (if seq_length sequence1 = 0 \<or> seq_length sequence2 = 0 then DiffAlgorithmResult_trivial sequence1 sequence2
      else
        rbind (Array2D_new (seq_length sequence1) (seq_length sequence2)) (\<lambda>lcsLengths.
        rbind (Array2D_new (seq_length sequence1) (seq_length sequence2)) (\<lambda>directions.
        rbind (Array2D_new (seq_length sequence1) (seq_length sequence2)) (\<lambda>lengths.
        case fill_rows sequence1 sequence2 timeout equalityScore [0..seq_length sequence1 - 1]
               \<lparr>lcsLengths = lcsLengths, directions = directions, lengths = lengths\<rparr> 0 of
          None \<Rightarrow> DiffAlgorithmResult_trivialTimedOut sequence1 sequence2
        | Some (T, n) \<Rightarrow>
            rbind (backtrack (DPTables.directions T) (seq_length sequence1 - 1) (seq_length sequence2 - 1)
                     (seq_length sequence1) (seq_length sequence2) []) (\<lambda>(res, l1, l2).
            rbind (report_aligning (- 1) (- 1) l1 l2 res) (\<lambda>res.
            Inr (DiffAlgorithmResult_new (rev res) False)))))))"

section \<open>The tables after the loops\<close>

text \<open>A diagonal step is only at a pair of equal elements: a score of a longest common subsequence is never negative.\<close>

definition not_negative :: "js_number \<Rightarrow> bool" where
  "not_negative v \<longleftrightarrow> \<not> num_less v (JsNum 0)"

definition diagonals_ok :: "ISequence \<Rightarrow> ISequence \<Rightarrow> DPTables \<Rightarrow> bool" where
  "diagonals_ok seq1 seq2 T \<longleftrightarrow>
     width (lcsLengths T) = seq_length seq1 \<and> width (directions T) = seq_length seq1 \<and>
     (\<forall>x y. 0 \<le> x \<and> x < seq_length seq1 \<longrightarrow> not_negative (as_number (Array2D_get (lcsLengths T) x y)) \<and>
        (Array2D_get (directions T) x y = Some 3 \<longrightarrow> getElement seq1 x = getElement seq2 y))"

lemma not_negative_simps [simp]: "not_negative JsNaN" "not_negative (JsNum 0)"
  by (simp_all add: not_negative_def)

lemma num_max_not_negative: "not_negative a \<Longrightarrow> not_negative (num_max a b)"
  by (cases a; cases b) (auto simp: not_negative_def num_max_def)

lemma num_max_minus_one: "not_negative a \<Longrightarrow> \<not> num_eq (num_max a (JsNum (- 1))) (JsNum (- 1))"
  by (cases a) (auto simp: not_negative_def num_max_def num_eq_def)

lemma Array2D_set_width [simp]: "width (Array2D_set a x y v) = width a"
  by (simp add: Array2D_set_def)

lemma cell_index:
  fixes x y :: int
  assumes "x + y * w = x' + y' * w" and "0 \<le> x" "x < w" "0 \<le> x'" "x' < w"
  shows "x = x' \<and> y = y'"
proof -
  have "(x + y * w) div w = y" "(x' + y' * w) div w = y'" using assms(2-) by simp_all
  then show ?thesis using assms(1) by auto
qed

lemma Array2D_get_set:
  "0 \<le> x \<Longrightarrow> x < width a \<Longrightarrow> 0 \<le> x' \<Longrightarrow> x' < width a \<Longrightarrow>
     Array2D_get (Array2D_set a x y v) x' y' = (if x = x' \<and> y = y' then Some v else Array2D_get a x' y')"
  by (auto simp: Array2D_get_def Array2D_set_def dest: cell_index)

lemma fill_cell_ok:
  assumes T: "diagonals_ok seq1 seq2 T" and s: "0 \<le> s1" "s1 < seq_length seq1"
  shows "diagonals_ok seq1 seq2 (fill_cell seq1 seq2 f T s1 s2)"
proof -
  define h where "h = (if s1 = 0 then JsNum 0 else as_number (Array2D_get (lcsLengths T) (s1 - 1) s2))"
  define v where "v = (if s2 = 0 then JsNum 0 else as_number (Array2D_get (lcsLengths T) s1 (s2 - 1)))"
  define e where "e = extended_score seq1 seq2 f T s1 s2"
  have w: "width (lcsLengths T) = seq_length seq1" "width (directions T) = seq_length seq1"
    and cells: "\<And>x y. 0 \<le> x \<Longrightarrow> x < seq_length seq1 \<Longrightarrow> not_negative (as_number (Array2D_get (lcsLengths T) x y)) \<and>
        (Array2D_get (directions T) x y = Some 3 \<longrightarrow> getElement seq1 x = getElement seq2 y)"
    using T by (auto simp: diagonals_ok_def)
  have hv: "not_negative (num_max h v)" using cells [of "s1 - 1" s2] s by (intro num_max_not_negative) (auto simp: h_def)
  then have new: "not_negative (num_max (num_max h v) e)" by (rule num_max_not_negative)
  have diag: "getElement seq1 s1 = getElement seq2 s2" if "num_eq (num_max (num_max h v) e) e"
    using that num_max_minus_one [OF hv] by (auto simp: e_def extended_score_def split: if_splits)
  show ?thesis
    unfolding diagonals_ok_def fill_cell_def h_def [symmetric] v_def [symmetric] e_def [symmetric] Let_def
    using w cells s new diag by (auto simp: Array2D_get_set as_number_def split: if_splits)
qed

lemma fill_row_ok:
  "diagonals_ok seq1 seq2 T \<Longrightarrow> 0 \<le> s1 \<Longrightarrow> s1 < seq_length seq1 \<Longrightarrow> fill_row seq1 seq2 timeout f s1 s2s T n = Some (T', n') \<Longrightarrow>
     diagonals_ok seq1 seq2 T'"
proof (induction s2s arbitrary: T n)
  case (Cons s2 s2s)
  then have "fill_row seq1 seq2 timeout f s1 s2s (fill_cell seq1 seq2 f T s1 s2) (n + 1) = Some (T', n')" by (simp split: if_splits)
  then show ?case by (rule Cons.IH [OF fill_cell_ok [OF Cons.prems(1-3)] Cons.prems(2,3)])
qed simp

lemma fill_rows_ok:
  "diagonals_ok seq1 seq2 T \<Longrightarrow> \<forall>s1 \<in> set s1s. 0 \<le> s1 \<and> s1 < seq_length seq1 \<Longrightarrow> fill_rows seq1 seq2 timeout f s1s T n = Some (T', n') \<Longrightarrow>
     diagonals_ok seq1 seq2 T'"
proof (induction s1s arbitrary: T n)
  case (Cons s1 s1s)
  then obtain T1 n1 where row: "fill_row seq1 seq2 timeout f s1 [0..seq_length seq2 - 1] T n = Some (T1, n1)"
    and rest: "fill_rows seq1 seq2 timeout f s1s T1 n1 = Some (T', n')" by (auto split: option.splits)
  have "diagonals_ok seq1 seq2 T1" by (rule fill_row_ok [OF Cons.prems(1) _ _ row]) (use Cons.prems(2) in auto)
  then show ?case by (rule Cons.IH [OF _ _ rest]) (use Cons.prems(2) in simp)
qed simp

section \<open>The path back\<close>

text \<open>The reported differences, reversed, are an alignment from the last pair on.\<close>

lemma report_aligning_aligned:
  assumes "aligned seq1 seq2 l1 l2 (rev res)" and "apart (rev res)" and "res \<noteq> [] \<longrightarrow> l1 < start (seq1Range (last res))"
    and "s1 < l1" "s2 < l2" and "getElement seq1 s1 = getElement seq2 s2"
  obtains res' where "report_aligning s1 s2 l1 l2 res = Inr res'"
    and "aligned seq1 seq2 s1 s2 (rev res')" and "apart (rev res')" and "res' \<noteq> [] \<longrightarrow> s1 < start (seq1Range (last res'))"
proof (cases "s1 + 1 \<noteq> l1 \<or> s2 + 1 \<noteq> l2")
  case True
  let ?d = "SequenceDiff_new (mk_offset (s1 + 1) l1) (mk_offset (s2 + 1) l2)"
  have "matches seq1 seq2 s1 s2 1" using assms(6) by (simp add: matches_def)
  then have "aligned seq1 seq2 s1 s2 (?d # rev res)" using assms(1,4,5) by (simp add: SequenceDiff_new_def)
  moreover have "apart (?d # rev res)"
    using assms(2,3) by (cases res rule: rev_cases) (auto simp: SequenceDiff_new_def)
  ultimately show thesis
    using that [of "res @ [?d]"] True assms(4,5) by (auto simp: report_aligning_def OffsetRange_new_def SequenceDiff_new_def)
next
  case False
  have "matches seq1 seq2 (l1 - 1) (l2 - 1) 1" using False assms(6) by (auto simp: matches_def)
  then have "aligned seq1 seq2 (l1 - 1) (l2 - 1) (rev res)" using assms(1) by (intro aligned_extend) auto
  then show thesis using that [of res] False assms(2,3,4) by (auto simp: report_aligning_def)
qed

lemma backtrack_aligned:
  assumes "aligned seq1 seq2 l1 l2 (rev res)" and "apart (rev res)" and "res \<noteq> [] \<longrightarrow> l1 < start (seq1Range (last res))"
    and "s1 < l1" "s2 < l2" "- 1 \<le> s1" "- 1 \<le> s2"
    and "\<And>x y. 0 \<le> x \<Longrightarrow> x \<le> s1 \<Longrightarrow> 0 \<le> y \<Longrightarrow> y \<le> s2 \<Longrightarrow> Array2D_get dirs x y = Some 3 \<Longrightarrow> getElement seq1 x = getElement seq2 y"
  shows "\<exists>res' l1' l2'. backtrack dirs s1 s2 l1 l2 res = Inr (res', l1', l2') \<and> 0 \<le> l1' \<and> 0 \<le> l2' \<and>
    aligned seq1 seq2 l1' l2' (rev res') \<and> apart (rev res') \<and> (res' \<noteq> [] \<longrightarrow> l1' < start (seq1Range (last res')))"
  using assms
proof (induction dirs s1 s2 l1 l2 res rule: backtrack.induct)
  case (1 dirs s1 s2 l1 l2 res)
  note eq = backtrack.simps [of dirs s1 s2 l1 l2 res]
  show ?case
  proof (cases "s1 \<ge> 0 \<and> s2 \<ge> 0")
    case True
    show ?thesis
    proof (cases "Array2D_get dirs s1 s2 = Some 3")
      case diag: True
      then have "getElement seq1 s1 = getElement seq2 s2" using 1(11) [of s1 s2] True by simp
      from report_aligning_aligned [OF 1(4-8) this]
      obtain res' where res': "report_aligning s1 s2 l1 l2 res = Inr res'" "aligned seq1 seq2 s1 s2 (rev res')" "apart (rev res')"
        "res' \<noteq> [] \<longrightarrow> s1 < start (seq1Range (last res'))" by blast
      show ?thesis unfolding eq using 1(1) [OF True diag res'(1,2) _ res'(4)] 1(11) res'(1,3) True diag by simp
    next
      case False
      then show ?thesis
        unfolding eq using 1(2) [OF True False _ 1(4-6)] 1(3) [OF True False _ 1(4-6)] 1(7-11) True by auto
    qed
  next
    case False
    then show ?thesis unfolding eq using 1(4-10) by auto
  qed
qed

lemma compute_aligned:
  assumes "seq_wf s1" and "seq_wf s2" and "seq_length s1 * seq_length s2 < 4294967296"
  shows "\<exists>r. DynamicProgrammingDiffing_compute s1 s2 timeout f = Inr r \<and> aligned s1 s2 0 0 (diffs r) \<and> apart (diffs r)"
proof (cases "seq_length s1 = 0 \<or> seq_length s2 = 0")
  case True
  then show ?thesis
    using aligned_trivial(1) [of s1 s2] assms by (auto simp: DynamicProgrammingDiffing_compute_def seq_wf_def)
next
  case False
  then have pos: "0 < seq_length s1" "0 < seq_length s2" using assms by (auto simp: seq_wf_def)
  let ?A = "\<lparr>width = seq_length s1, height = seq_length s2, cells = (\<lambda>_. None)\<rparr>"
  let ?T = "\<lparr>lcsLengths = ?A, directions = ?A, lengths = ?A\<rparr>"
  have small: "\<not> (seq_length s1 * seq_length s2 < 0 \<or> seq_length s1 * seq_length s2 \<ge> 4294967296)"
    using assms(3) pos by (simp add: not_less)
  have ok: "diagonals_ok s1 s2 ?T" by (simp add: diagonals_ok_def Array2D_get_def as_number_def)
  show ?thesis
  proof (cases "fill_rows s1 s2 timeout f [0..seq_length s1 - 1] ?T 0")
    case None
    then show ?thesis
      using aligned_trivial(2) [of s1 s2] pos False small by (auto simp: DynamicProgrammingDiffing_compute_def Array2D_new_def)
  next
    case (Some r)
    then obtain T n where T: "fill_rows s1 s2 timeout f [0..seq_length s1 - 1] ?T 0 = Some (T, n)" by (cases r) auto
    have "diagonals_ok s1 s2 T" by (rule fill_rows_ok [OF ok _ T]) auto
    then have dirs: "getElement s1 x = getElement s2 y"
      if "0 \<le> x" "x \<le> seq_length s1 - 1" "0 \<le> y" "y \<le> seq_length s2 - 1" "Array2D_get (directions T) x y = Some 3" for x y
      using that by (auto simp: diagonals_ok_def)
    have end': "aligned s1 s2 (seq_length s1) (seq_length s2) (rev [])" by simp
    obtain res l1 l2 where res: "backtrack (directions T) (seq_length s1 - 1) (seq_length s2 - 1) (seq_length s1) (seq_length s2) [] =
        Inr (res, l1, l2)" "0 \<le> l1" "0 \<le> l2" "aligned s1 s2 l1 l2 (rev res)" "apart (rev res)"
        "res \<noteq> [] \<longrightarrow> l1 < start (seq1Range (last res))"
      using backtrack_aligned [OF end', where ?s1.0 = "seq_length s1 - 1" and ?s2.0 = "seq_length s2 - 1" and dirs = "directions T"] dirs pos
      by auto
    obtain res' where "report_aligning (- 1) (- 1) l1 l2 res = Inr res'" "aligned s1 s2 0 0 (rev res')" "apart (rev res')"
    proof (cases "l1 = 0 \<and> l2 = 0")
      case False
      let ?d = "SequenceDiff_new (mk_offset 0 l1) (mk_offset 0 l2)"
      have "apart (rev (res @ [?d]))" using res(5,6) by (cases res rule: rev_cases) (auto simp: SequenceDiff_new_def)
      then show thesis
        using that [of "res @ [?d]"] False res(2-4) by (simp add: report_aligning_def OffsetRange_new_def SequenceDiff_new_def)
    qed (use that res in \<open>auto simp: report_aligning_def\<close>)
    then show ?thesis
      using False small T res(1) by (simp add: DynamicProgrammingDiffing_compute_def Array2D_new_def DiffAlgorithmResult_new_def)
  qed
qed

lemma compute_too_large:
  "4294967296 \<le> seq_length s1 * seq_length s2 \<Longrightarrow> DynamicProgrammingDiffing_compute s1 s2 timeout f = Inl RangeError"
  by (auto simp: DynamicProgrammingDiffing_compute_def Array2D_new_def)

section \<open>Correctness\<close>

text \<open>Sequences given by their elements, for the concrete cases.\<close>

definition list_sequence :: "int list \<Rightarrow> ISequence" where
  "list_sequence xs = \<lparr>getElement = js_at xs, seq_length = int (length xs), getBoundaryScore = None, isStronglyEqual = (\<lambda>i j. js_at xs i = js_at xs j)\<rparr>"

lemma list_sequence_wf: "seq_wf (list_sequence xs)"
  by (auto simp: seq_wf_def list_sequence_def js_at_def)

text \<open>C25: the dynamic programming diff is correct whatever the scores, NaN and infinite ones included, and whatever the
  clock: unless the table would have 2^32 cells or more, which is a RangeError, it throws nothing, its differences are in
  order with an element between two of them, the sequences agree outside them, and replacing them turns the first
  sequence into the second.
\<close>

lemma DynamicProgrammingDiffing_compute_correct:
  assumes "seq_wf s1" and "seq_wf s2"
  shows "if seq_length s1 * seq_length s2 < 4294967296
    then \<exists>r. DynamicProgrammingDiffing_compute s1 s2 timeout equalityScore = Inr r \<and>
      aligned s1 s2 0 0 (diffs r) \<and> apart (diffs r) \<and> patch s1 s2 0 (diffs r) = elements s2
    else DynamicProgrammingDiffing_compute s1 s2 timeout equalityScore = Inl RangeError"
  using compute_aligned [OF assms, of timeout equalityScore] compute_too_large [of s1 s2] aligned_patch [of s1 s2 0 0]
  unfolding elements_def by auto

lemma DynamicProgrammingDiffing_compute_correct_witness:
  "\<exists>r. DynamicProgrammingDiffing_compute (list_sequence [0, 1, 0]) (list_sequence [0, 2, 1, 2, 0, 1]) InfiniteTimeout (Some (\<lambda>i j. JsNaN)) =
      Inr r \<and> patch (list_sequence [0, 1, 0]) (list_sequence [0, 2, 1, 2, 0, 1]) 0 (diffs r) = List.map Some [0, 2, 1, 2, 0, 1]"
proof -
  have "elements (list_sequence [0, 2, 1, 2, 0, 1]) = List.map Some [0, 2, 1, 2, 0, 1]" by code_simp
  then show ?thesis
    using DynamicProgrammingDiffing_compute_correct [OF list_sequence_wf [of "[0, 1, 0]"] list_sequence_wf [of "[0, 2, 1, 2, 0, 1]"],
        of InfiniteTimeout "Some (\<lambda>i j. JsNaN)"] by (auto simp: list_sequence_def)
qed

text \<open>With the bonus for consecutive pairs the scores are not the lengths of longest common subsequences: these two sequences
  have all of \<open>0, 1, 0\<close> in common, and the diff keeps only \<open>0, 1\<close>.\<close>

definition example_tables :: DPTables where
  "example_tables =
     \<lparr>lcsLengths = \<lparr>width = 3, height = 6, cells = (\<lambda>_. None)\<rparr>, directions = \<lparr>width = 3, height = 6, cells = (\<lambda>_. None)\<rparr>,
      lengths = \<lparr>width = 3, height = 6, cells = (\<lambda>_. None)\<rparr>\<rparr>"

lemma compute_not_longest:
  "DynamicProgrammingDiffing_compute (list_sequence [0, 1, 0]) (list_sequence [0, 2, 1, 2, 0, 1]) InfiniteTimeout None =
     Inr (DiffAlgorithmResult_new
       [SequenceDiff_new (mk_offset 0 0) (mk_offset 0 4), SequenceDiff_new (mk_offset 2 3) (mk_offset 6 6)] False)"
  "aligned (list_sequence [0, 1, 0]) (list_sequence [0, 2, 1, 2, 0, 1]) 0 0
     [SequenceDiff_new (mk_offset 1 1) (mk_offset 1 2), SequenceDiff_new (mk_offset 2 2) (mk_offset 3 4), SequenceDiff_new (mk_offset 3 3) (mk_offset 5 6)]"
proof -
  let ?A = "list_sequence [0, 1, 0]" and ?B = "list_sequence [0, 2, 1, 2, 0, 1]"
  have len: "seq_length ?A = 3" "seq_length ?B = 6" by (simp_all add: list_sequence_def)
  have "DynamicProgrammingDiffing_compute ?A ?B InfiniteTimeout None =
    (case fill_rows ?A ?B InfiniteTimeout None [0..2] example_tables 0 of
       None \<Rightarrow> DiffAlgorithmResult_trivialTimedOut ?A ?B
     | Some (T, n) \<Rightarrow>
         rbind (backtrack (directions T) 2 5 3 6 []) (\<lambda>(res, l1, l2). rbind (report_aligning (- 1) (- 1) l1 l2 res) (\<lambda>res.
         Inr (DiffAlgorithmResult_new (rev res) False))))"
    by (simp add: DynamicProgrammingDiffing_compute_def Array2D_new_def len example_tables_def split: option.split)
  also have "\<dots> = Inr (DiffAlgorithmResult_new
       [SequenceDiff_new (mk_offset 0 0) (mk_offset 0 4), SequenceDiff_new (mk_offset 2 3) (mk_offset 6 6)] False)"
    by code_simp
  finally show "DynamicProgrammingDiffing_compute ?A ?B InfiniteTimeout None =
     Inr (DiffAlgorithmResult_new
       [SequenceDiff_new (mk_offset 0 0) (mk_offset 0 4), SequenceDiff_new (mk_offset 2 3) (mk_offset 6 6)] False)" .
qed code_simp

end
