(* ===== verification/Diff_Heuristics.thy ===== *)
theory Diff_Heuristics
  imports Diff_Sequences
begin

text \<open>
  \<open>src/vs/editor/common/diff/defaultLinesDiffComputer/heuristicSequenceOptimizations.ts\<close>: the passes that make a diff
  nicer to read.  Differences are shifted along equal elements, joined with their neighbours and moved to a
  better boundary; short matches are dropped.  Every pass keeps the contract \<open>aligned\<close>.
\<close>

section \<open>Joining by shifting\<close>

text \<open>\<open>length\<close> in both loops: the number of equal elements between two neighbours.\<close>

definition gap_length :: "SequenceDiff \<Rightarrow> SequenceDiff \<Rightarrow> int" where
  "gap_length d next' = start (seq1Range next') - endExclusive (seq1Range d)"

text \<open>The loop \<open>for (d = 1; d <= length; d++)\<close> with its break: the value of \<open>d\<close> behind it.\<close>

function shift_left_loop :: "ISequence \<Rightarrow> ISequence \<Rightarrow> SequenceDiff \<Rightarrow> int \<Rightarrow> int \<Rightarrow> int" where
  "shift_left_loop s1 s2 cur len d =
     (if d \<le> len then
        (if getElement s1 (start (seq1Range cur) - d) \<noteq> getElement s1 (endExclusive (seq1Range cur) - d) \<or>
            getElement s2 (start (seq2Range cur) - d) \<noteq> getElement s2 (endExclusive (seq2Range cur) - d)
         then d else shift_left_loop s1 s2 cur len (d + 1))
      else d)"
  by pat_completeness auto
termination by (relation "measure (\<lambda>(a, b, c, len, d). nat (len + 1 - d))") auto

declare shift_left_loop.simps [simp del]

definition shift_left_count :: "ISequence \<Rightarrow> ISequence \<Rightarrow> SequenceDiff \<Rightarrow> int \<Rightarrow> int" where
  "shift_left_count s1 s2 cur len = shift_left_loop s1 s2 cur len 1 - 1"

fun join_left :: "ISequence \<Rightarrow> ISequence \<Rightarrow> SequenceDiff list \<Rightarrow> SequenceDiff list \<Rightarrow> SequenceDiff list result" where
  "join_left s1 s2 res [] = Inr res"
| "join_left s1 s2 res (cur # ds) =
     (let prevResult = last res
      in if OffsetRange_isEmpty (seq1Range cur) \<or> OffsetRange_isEmpty (seq2Range cur) then
           (if shift_left_count s1 s2 cur (gap_length prevResult cur) = gap_length prevResult cur then
              rbind (OffsetRange_new (start (seq1Range prevResult)) (endExclusive (seq1Range cur) - gap_length prevResult cur)) (\<lambda>r1.
              rbind (OffsetRange_new (start (seq2Range prevResult)) (endExclusive (seq2Range cur) - gap_length prevResult cur)) (\<lambda>r2.
              join_left s1 s2 (butlast res @ [SequenceDiff_new r1 r2]) ds))
            else rbind (SequenceDiff_delta cur (- shift_left_count s1 s2 cur (gap_length prevResult cur))) (\<lambda>cur.
                 join_left s1 s2 (res @ [cur]) ds))
         else join_left s1 s2 (res @ [cur]) ds)"

function shift_right_loop :: "ISequence \<Rightarrow> ISequence \<Rightarrow> SequenceDiff \<Rightarrow> int \<Rightarrow> int \<Rightarrow> int" where
  "shift_right_loop s1 s2 cur len d =
     (if d < len then
        (if \<not> isStronglyEqual s1 (start (seq1Range cur) + d) (endExclusive (seq1Range cur) + d) \<or>
            \<not> isStronglyEqual s2 (start (seq2Range cur) + d) (endExclusive (seq2Range cur) + d)
         then d else shift_right_loop s1 s2 cur len (d + 1))
      else d)"
  by pat_completeness auto
termination by (relation "measure (\<lambda>(a, b, c, len, d). nat (len - d))") auto

declare shift_right_loop.simps [simp del]

text \<open>The second loop writes a joined difference over the next one, and the last one is pushed behind the loop.\<close>

function join_right :: "ISequence \<Rightarrow> ISequence \<Rightarrow> SequenceDiff list \<Rightarrow> SequenceDiff list result" where
  "join_right s1 s2 [] = Inr []"
| "join_right s1 s2 [cur] = Inr [cur]"
| "join_right s1 s2 (cur # nextResult # ds) =
     (if OffsetRange_isEmpty (seq1Range cur) \<or> OffsetRange_isEmpty (seq2Range cur) then
        (if shift_right_loop s1 s2 cur (gap_length cur nextResult) 0 = gap_length cur nextResult then
           rbind (OffsetRange_new (start (seq1Range cur) + gap_length cur nextResult) (endExclusive (seq1Range nextResult))) (\<lambda>r1.
           rbind (OffsetRange_new (start (seq2Range cur) + gap_length cur nextResult) (endExclusive (seq2Range nextResult))) (\<lambda>r2.
           join_right s1 s2 (SequenceDiff_new r1 r2 # ds)))
         else rbind (if shift_right_loop s1 s2 cur (gap_length cur nextResult) 0 > 0
                     then SequenceDiff_delta cur (shift_right_loop s1 s2 cur (gap_length cur nextResult) 0) else Inr cur) (\<lambda>cur.
              rbind (join_right s1 s2 (nextResult # ds)) (\<lambda>rs. Inr (cur # rs))))
      else rbind (join_right s1 s2 (nextResult # ds)) (\<lambda>rs. Inr (cur # rs)))"
  by pat_completeness auto
termination by (relation "measure (\<lambda>(a, b, ds). length ds)") auto

definition joinSequenceDiffsByShifting :: "ISequence \<Rightarrow> ISequence \<Rightarrow> SequenceDiff list \<Rightarrow> SequenceDiff list result" where
  "joinSequenceDiffsByShifting s1 s2 sequenceDiffs =
     (case sequenceDiffs of
        [] \<Rightarrow> Inr sequenceDiffs
      | d # ds \<Rightarrow> rbind (join_left s1 s2 [d] ds) (join_right s1 s2))"

section \<open>Shifting to a better boundary\<close>

function delta_before_loop :: "ISequence \<Rightarrow> SequenceDiff \<Rightarrow> OffsetRange \<Rightarrow> OffsetRange \<Rightarrow> int \<Rightarrow> int" where
  "delta_before_loop s2 diff valid1 valid2 deltaBefore =
     (if start (seq1Range diff) - deltaBefore \<ge> start valid1 \<and> start (seq2Range diff) - deltaBefore \<ge> start valid2 \<and>
         isStronglyEqual s2 (start (seq2Range diff) - deltaBefore) (endExclusive (seq2Range diff) - deltaBefore) \<and> deltaBefore < 100
      then delta_before_loop s2 diff valid1 valid2 (deltaBefore + 1) else deltaBefore)"
  by pat_completeness auto
termination by (relation "measure (\<lambda>(a, b, c, e, d). nat (100 - d))") auto

declare delta_before_loop.simps [simp del]

function delta_after_loop :: "ISequence \<Rightarrow> SequenceDiff \<Rightarrow> OffsetRange \<Rightarrow> OffsetRange \<Rightarrow> int \<Rightarrow> int" where
  "delta_after_loop s2 diff valid1 valid2 deltaAfter =
     (if start (seq1Range diff) + deltaAfter < endExclusive valid1 \<and> endExclusive (seq2Range diff) + deltaAfter < endExclusive valid2 \<and>
         isStronglyEqual s2 (start (seq2Range diff) + deltaAfter) (endExclusive (seq2Range diff) + deltaAfter) \<and> deltaAfter < 100
      then delta_after_loop s2 diff valid1 valid2 (deltaAfter + 1) else deltaAfter)"
  by pat_completeness auto
termination by (relation "measure (\<lambda>(a, b, c, e, d). nat (100 - d))") auto

declare delta_after_loop.simps [simp del]

text \<open>The loop over all shifts keeps the first one with the highest score.\<close>

fun best_delta_loop :: "(int \<Rightarrow> int result) \<Rightarrow> (int \<Rightarrow> int result) \<Rightarrow> SequenceDiff \<Rightarrow> int list \<Rightarrow> int \<Rightarrow> int \<Rightarrow> int result" where
  "best_delta_loop score1 score2 diff [] bestScore bestDelta = Inr bestDelta"
| "best_delta_loop score1 score2 diff (delta # deltas) bestScore bestDelta =
     rbind (score1 (start (seq1Range diff) + delta)) (\<lambda>a.
     rbind (score2 (start (seq2Range diff) + delta)) (\<lambda>b.
     rbind (score2 (endExclusive (seq2Range diff) + delta)) (\<lambda>c.
     if a + b + c > bestScore then best_delta_loop score1 score2 diff deltas (a + b + c) delta
     else best_delta_loop score1 score2 diff deltas bestScore bestDelta)))"

definition shiftDiffToBetterPosition ::
    "SequenceDiff \<Rightarrow> (int \<Rightarrow> int result) \<Rightarrow> ISequence \<Rightarrow> (int \<Rightarrow> int result) \<Rightarrow> OffsetRange \<Rightarrow> OffsetRange \<Rightarrow> SequenceDiff result" where
  "shiftDiffToBetterPosition diff score1 s2 score2 valid1 valid2 =
     (let deltaBefore = delta_before_loop s2 diff valid1 valid2 1 - 1;
          deltaAfter = delta_after_loop s2 diff valid1 valid2 0
      in if deltaBefore = 0 \<and> deltaAfter = 0 then Inr diff
         else rbind (best_delta_loop score1 score2 diff [- deltaBefore..deltaAfter] (- 1) 0) (SequenceDiff_delta diff))"

definition valid_range :: "OffsetRange option \<Rightarrow> OffsetRange option \<Rightarrow> int \<Rightarrow> OffsetRange result" where
  "valid_range prev next' len =
     OffsetRange_new (case prev of Some r \<Rightarrow> endExclusive r + 1 | None \<Rightarrow> 0) (case next' of Some r \<Rightarrow> start r - 1 | None \<Rightarrow> len)"

text \<open>The loop of \<open>shiftSequenceDiffs\<close> reads the shifted predecessor and the next difference, not yet shifted.\<close>

fun shift_loop ::
    "ISequence \<Rightarrow> (int \<Rightarrow> int result) \<Rightarrow> ISequence \<Rightarrow> (int \<Rightarrow> int result) \<Rightarrow> SequenceDiff option \<Rightarrow> SequenceDiff list \<Rightarrow> SequenceDiff list result" where
  "shift_loop s1 score1 s2 score2 prevDiff [] = Inr []"
| "shift_loop s1 score1 s2 score2 prevDiff (diff # ds) =
     (let nextDiff = (case ds of [] \<Rightarrow> None | d # _ \<Rightarrow> Some d)
      in rbind (valid_range (map_option seq1Range prevDiff) (map_option seq1Range nextDiff) (seq_length s1)) (\<lambda>valid1.
         rbind (valid_range (map_option seq2Range prevDiff) (map_option seq2Range nextDiff) (seq_length s2)) (\<lambda>valid2.
         rbind (if OffsetRange_isEmpty (seq1Range diff) then shiftDiffToBetterPosition diff score1 s2 score2 valid1 valid2
                else if OffsetRange_isEmpty (seq2Range diff) then
                  rbind (shiftDiffToBetterPosition (SequenceDiff_swap diff) score2 s1 score1 valid2 valid1)
                    (\<lambda>d. Inr (SequenceDiff_swap d))
                else Inr diff) (\<lambda>diff.
         rbind (shift_loop s1 score1 s2 score2 (Some diff) ds) (\<lambda>rs. Inr (diff # rs))))))"

definition shiftSequenceDiffs :: "ISequence \<Rightarrow> ISequence \<Rightarrow> SequenceDiff list \<Rightarrow> SequenceDiff list result" where
  "shiftSequenceDiffs s1 s2 sequenceDiffs =
     (case (getBoundaryScore s1, getBoundaryScore s2) of
        (Some score1, Some score2) \<Rightarrow> shift_loop s1 score1 s2 score2 None sequenceDiffs
      | _ \<Rightarrow> Inr sequenceDiffs)"

definition optimizeSequenceDiffs :: "ISequence \<Rightarrow> ISequence \<Rightarrow> SequenceDiff list \<Rightarrow> SequenceDiff list result" where
  "optimizeSequenceDiffs s1 s2 sequenceDiffs =
     rbind (joinSequenceDiffsByShifting s1 s2 sequenceDiffs) (\<lambda>r.
     rbind (joinSequenceDiffsByShifting s1 s2 r) (\<lambda>r.
     shiftSequenceDiffs s1 s2 r))"

section \<open>Dropping short matches\<close>

fun removeShortMatches_loop :: "SequenceDiff list \<Rightarrow> SequenceDiff list \<Rightarrow> SequenceDiff list result" where
  "removeShortMatches_loop res [] = Inr res"
| "removeShortMatches_loop res (s # ds) =
     (if res = [] then removeShortMatches_loop (res @ [s]) ds
      else let l = last res
           in if start (seq1Range s) - endExclusive (seq1Range l) \<le> 2 \<or> start (seq2Range s) - endExclusive (seq2Range l) \<le> 2 then
                rbind (SequenceDiff_join l s) (\<lambda>j. removeShortMatches_loop (butlast res @ [j]) ds)
              else removeShortMatches_loop (res @ [s]) ds)"

definition removeShortMatches :: "ISequence \<Rightarrow> ISequence \<Rightarrow> SequenceDiff list \<Rightarrow> SequenceDiff list result" where
  "removeShortMatches s1 s2 sequenceDiffs = removeShortMatches_loop [] sequenceDiffs"

text \<open>The characters that \<open>\s\<close> matches.\<close>

definition js_space :: "16 word \<Rightarrow> bool" where
  "js_space c \<longleftrightarrow> c \<in> set [9, 10, 11, 12, 13, 32, 0xA0, 0x1680, 0x2028, 0x2029, 0x202F, 0x205F, 0x3000, 0xFEFF] \<or> (0x2000 \<le> c \<and> c \<le> 0x200A)"

definition shouldJoinDiffs :: "text16 list \<Rightarrow> SequenceDiff \<Rightarrow> SequenceDiff \<Rightarrow> bool result" where
  "shouldJoinDiffs ls before after =
     rbind (OffsetRange_new (endExclusive (seq1Range before)) (start (seq1Range after))) (\<lambda>unchangedRange.
     let unchangedTextWithoutWs = filter (\<lambda>c. \<not> js_space c) (LineSequence_getText ls unchangedRange)
     in Inr (length unchangedTextWithoutWs \<le> 4 \<and>
          (OffsetRange_length (seq1Range before) + OffsetRange_length (seq2Range before) > 5 \<or>
           OffsetRange_length (seq1Range after) + OffsetRange_length (seq2Range after) > 5)))"

fun join_short_loop :: "text16 list \<Rightarrow> SequenceDiff list \<Rightarrow> SequenceDiff list \<Rightarrow> bool \<Rightarrow> (SequenceDiff list \<times> bool) result" where
  "join_short_loop ls res [] shouldRepeat = Inr (res, shouldRepeat)"
| "join_short_loop ls res (cur # ds) shouldRepeat =
     (let lastResult = last res
      in rbind (shouldJoinDiffs ls lastResult cur) (\<lambda>b.
         if b then rbind (SequenceDiff_join lastResult cur) (\<lambda>j. join_short_loop ls (butlast res @ [j]) ds True)
         else join_short_loop ls (res @ [cur]) ds shouldRepeat))"

text \<open>\<open>do ... while (counter++ < 10 && shouldRepeat)\<close>: at most eleven rounds; \<open>n\<close> is the number of rounds left behind this one.\<close>

fun join_short_repeat :: "text16 list \<Rightarrow> nat \<Rightarrow> SequenceDiff list \<Rightarrow> SequenceDiff list result" where
  "join_short_repeat ls n ds =
     rbind (join_short_loop ls [hd ds] (tl ds) False) (\<lambda>(res, shouldRepeat).
       case n of
         0 \<Rightarrow> Inr res
       | Suc m \<Rightarrow> if shouldRepeat then join_short_repeat ls m res else Inr res)"

definition removeVeryShortMatchingLinesBetweenDiffs :: "text16 list \<Rightarrow> SequenceDiff list \<Rightarrow> SequenceDiff list result" where
  "removeVeryShortMatchingLinesBetweenDiffs ls sequenceDiffs =
     (if sequenceDiffs = [] then Inr sequenceDiffs else join_short_repeat ls 10 sequenceDiffs)"

text \<open>\<open>mergeSequenceDiffs\<close> takes the difference that begins first from the two lists, the second one's on a tie.\<close>

definition merge_push :: "SequenceDiff list \<Rightarrow> SequenceDiff \<Rightarrow> SequenceDiff list result" where
  "merge_push res next' =
     (if res \<noteq> [] \<and> endExclusive (seq1Range (last res)) \<ge> start (seq1Range next') then
        rbind (SequenceDiff_join (last res) next') (\<lambda>j. Inr (butlast res @ [j]))
      else Inr (res @ [next']))"

function merge_loop :: "SequenceDiff list \<Rightarrow> SequenceDiff list \<Rightarrow> SequenceDiff list \<Rightarrow> SequenceDiff list result" where
  "merge_loop [] [] res = Inr res"
| "merge_loop (d1 # ds1) [] res = rbind (merge_push res d1) (merge_loop ds1 [])"
| "merge_loop [] (d2 # ds2) res = rbind (merge_push res d2) (merge_loop [] ds2)"
| "merge_loop (d1 # ds1) (d2 # ds2) res =
     (if start (seq1Range d1) < start (seq1Range d2) then rbind (merge_push res d1) (merge_loop ds1 (d2 # ds2))
      else rbind (merge_push res d2) (merge_loop (d1 # ds1) ds2))"
  by pat_completeness auto
termination by (relation "measure (\<lambda>(a, b, r). length a + length b)") auto

definition mergeSequenceDiffs :: "SequenceDiff list \<Rightarrow> SequenceDiff list \<Rightarrow> SequenceDiff list result" where
  "mergeSequenceDiffs ds1 ds2 = merge_loop ds1 ds2 []"

section \<open>Moving one difference\<close>

text \<open>\<open>chain\<close>: differences in order from one pair of offsets to another, with equal elements between them.\<close>

fun chain :: "ISequence \<Rightarrow> ISequence \<Rightarrow> int \<Rightarrow> int \<Rightarrow> SequenceDiff list \<Rightarrow> int \<Rightarrow> int \<Rightarrow> bool" where
  "chain s1 s2 p q [] p' q' \<longleftrightarrow> p = p' \<and> q = q'"
| "chain s1 s2 p q (d # ds) p' q' \<longleftrightarrow>
     start (seq1Range d) - p = start (seq2Range d) - q \<and> p \<le> start (seq1Range d) \<and>
     matches s1 s2 p q (start (seq1Range d) - p) \<and>
     start (seq1Range d) \<le> endExclusive (seq1Range d) \<and> start (seq2Range d) \<le> endExclusive (seq2Range d) \<and>
     chain s1 s2 (endExclusive (seq1Range d)) (endExclusive (seq2Range d)) ds p' q'"

lemma chain_append: "chain s1 s2 p q (as @ bs) p' q' \<longleftrightarrow> (\<exists>a b. chain s1 s2 p q as a b \<and> chain s1 s2 a b bs p' q')"
  by (induction as arbitrary: p q) auto

lemma aligned_ConsD:
  assumes "aligned s1 s2 p q (d # ds)"
  shows "aligned s1 s2 (endExclusive (seq1Range d)) (endExclusive (seq2Range d)) ds"
    and "p \<le> start (seq1Range d)" and "start (seq1Range d) - p = start (seq2Range d) - q"
    and "start (seq1Range d) \<le> endExclusive (seq1Range d)" and "start (seq2Range d) \<le> endExclusive (seq2Range d)"
    and "matches s1 s2 p q (start (seq1Range d) - p)"
  using assms unfolding aligned.simps by blast+

lemma aligned_replace:
  assumes "aligned s1 s2 p q (d # ds)" and "aligned s1 s2 (endExclusive (seq1Range d')) (endExclusive (seq2Range d')) ds'"
    and "start (seq1Range d') = start (seq1Range d)" "start (seq2Range d') = start (seq2Range d)"
    and "start (seq1Range d') \<le> endExclusive (seq1Range d')" "start (seq2Range d') \<le> endExclusive (seq2Range d')"
  shows "aligned s1 s2 p q (d' # ds')"
  using assms(1,2,5,6) unfolding aligned.simps assms(3,4) by blast

lemma aligned_append: "aligned s1 s2 p q (as @ bs) \<longleftrightarrow> (\<exists>a b. chain s1 s2 p q as a b \<and> aligned s1 s2 a b bs)"
  by (induction as arbitrary: p q) auto

lemma chain_le: "chain s1 s2 p q ds p' q' \<Longrightarrow> p \<le> p' \<and> q \<le> q'"
  by (induction ds arbitrary: p q) (auto, force+)

lemma apart_append: "apart (as @ d # ds) \<longleftrightarrow> apart (as @ [d]) \<and> apart (d # ds)"
  by (induction as rule: apart.induct) auto

lemma apart_hd:
  "start (seq1Range d) = start (seq1Range d') \<Longrightarrow> apart (as @ [d]) = apart (as @ [d'])"
  "endExclusive (seq1Range d') \<le> endExclusive (seq1Range d) \<Longrightarrow> apart (d # ds) \<Longrightarrow> apart (d' # ds)"
  by (induction as rule: apart.induct) (auto, (cases ds; simp)+)

text \<open>The room in front of the next difference, or of the end.\<close>

definition room :: "ISequence \<Rightarrow> int \<Rightarrow> SequenceDiff list \<Rightarrow> int" where
  "room s1 p ds = (case ds of [] \<Rightarrow> seq_length s1 | d # _ \<Rightarrow> start (seq1Range d)) - p"

lemma aligned_room:
  assumes "aligned s1 s2 p q ds"
  shows "0 \<le> room s1 p ds" and "matches s1 s2 p q (room s1 p ds)"
  using assms by (cases ds; simp add: room_def)+

lemma aligned_advance:
  assumes "aligned s1 s2 p q ds" and "0 \<le> n" and "n \<le> room s1 p ds"
  shows "aligned s1 s2 (p + n) (q + n) ds"
proof (cases ds)
  case Nil
  have "matches s1 s2 (p + n) (q + n) (seq_length s1 - (p + n))"
    using assms Nil by (intro matches_part) (auto simp: room_def)
  then show ?thesis using assms Nil by (simp add: room_def)
next
  case (Cons d ds')
  have "matches s1 s2 (p + n) (q + n) (start (seq1Range d) - (p + n))"
    using assms Cons by (intro matches_part) (auto simp: room_def)
  then show ?thesis using assms Cons by (simp add: room_def)
qed

text \<open>A difference moved along elements that repeat with the length of its ranges.\<close>

definition moved :: "SequenceDiff \<Rightarrow> int \<Rightarrow> SequenceDiff" where
  "moved d n = SequenceDiff_new (mk_offset (start (seq1Range d) + n) (endExclusive (seq1Range d) + n))
     (mk_offset (start (seq2Range d) + n) (endExclusive (seq2Range d) + n))"

definition repeats :: "ISequence \<Rightarrow> OffsetRange \<Rightarrow> int \<Rightarrow> int \<Rightarrow> bool" where
  "repeats s r a b \<longleftrightarrow> (\<forall>i. a \<le> i \<and> i < b \<longrightarrow> getElement s (start r + i) = getElement s (endExclusive r + i))"

lemma repeats_empty [simp]: "start r = endExclusive r \<Longrightarrow> repeats s r a b"
  by (simp add: repeats_def)

lemma repeats_none [simp]: "b \<le> a \<Longrightarrow> repeats s r a b"
  by (auto simp: repeats_def)

lemma SequenceDiff_delta_moved:
  assumes "start (seq1Range d) \<le> endExclusive (seq1Range d)" and "start (seq2Range d) \<le> endExclusive (seq2Range d)"
  shows "SequenceDiff_delta d n = Inr (moved d n)"
  using assms
  by (cases d, cases "seq1Range d", cases "seq2Range d")
    (simp add: SequenceDiff_delta_def moved_def OffsetRange_delta_def OffsetRange_new_def SequenceDiff_new_def)

lemma move_left_match:
  assumes al: "aligned s1 s2 p q (d # ds)" and n: "0 \<le> n" "n \<le> start (seq1Range d) - p"
    and rep: "repeats s1 (seq1Range d) (- n) 0" "repeats s2 (seq2Range d) (- n) 0"
  shows "aligned s1 s2 (endExclusive (seq1Range d) - n) (endExclusive (seq2Range d) - n) ds"
proof (rule aligned_extend)
  have eq: "start (seq1Range d) - p = start (seq2Range d) - q" "matches s1 s2 p q (start (seq1Range d) - p)" using al by auto
  show "matches s1 s2 (endExclusive (seq1Range d) - n) (endExclusive (seq2Range d) - n) n"
    unfolding matches_iff
  proof (intro allI impI)
    fix i assume i: "0 \<le> i \<and> i < n"
    have "getElement s1 (endExclusive (seq1Range d) - n + i) = getElement s1 (start (seq1Range d) - n + i)"
      using rep(1) [unfolded repeats_def, rule_format, of "i - n"] i by (simp add: algebra_simps)
    also have "\<dots> = getElement s2 (start (seq2Range d) - n + i)"
    proof -
      let ?k = "start (seq1Range d) - p - n + i"
      have "0 \<le> ?k \<and> ?k < start (seq1Range d) - p" using i n by simp
      then have "getElement s1 (p + ?k) = getElement s2 (q + ?k)" using eq(2) unfolding matches_iff by blast
      moreover have "p + ?k = start (seq1Range d) - n + i" "q + ?k = start (seq2Range d) - n + i" using eq(1) by simp_all
      ultimately show ?thesis by (simp only:)
    qed
    also have "\<dots> = getElement s2 (endExclusive (seq2Range d) - n + i)"
      using rep(2) [unfolded repeats_def, rule_format, of "i - n"] i by (simp add: algebra_simps)
    finally show "getElement s1 (endExclusive (seq1Range d) - n + i) = getElement s2 (endExclusive (seq2Range d) - n + i)" .
  qed
qed (use al n in auto)

lemma move_left:
  assumes "aligned s1 s2 p q (d # ds)" and "0 \<le> n" "n \<le> start (seq1Range d) - p"
    and "repeats s1 (seq1Range d) (- n) 0" "repeats s2 (seq2Range d) (- n) 0"
  shows "aligned s1 s2 p q (moved d (- n) # ds)"
proof -
  have "matches s1 s2 p q (start (seq1Range d) - p)" using assms(1) unfolding aligned.simps by blast
  from matches_part [OF this, of 0 "start (seq1Range d) - n - p"] have "matches s1 s2 p q (start (seq1Range d) - n - p)"
    using assms(2) by simp
  then show ?thesis
    using assms(1-3) move_left_match [OF assms] by (simp add: moved_def SequenceDiff_new_def)
qed

lemma move_right_match:
  assumes al: "aligned s1 s2 p q (d # ds)" and n: "0 \<le> n" "n \<le> room s1 (endExclusive (seq1Range d)) ds"
    and rep: "repeats s1 (seq1Range d) 0 n" "repeats s2 (seq2Range d) 0 n"
  shows "matches s1 s2 p q (start (seq1Range d) + n - p)"
proof -
  have gap: "matches s1 s2 (endExclusive (seq1Range d)) (endExclusive (seq2Range d)) (room s1 (endExclusive (seq1Range d)) ds)"
    using al by (intro aligned_room) auto
  have "matches s1 s2 (p + (start (seq1Range d) - p)) (q + (start (seq1Range d) - p)) n"
    unfolding matches_iff
  proof (intro allI impI)
    fix i assume i: "0 \<le> i \<and> i < n"
    then have "getElement s1 (endExclusive (seq1Range d) + i) = getElement s2 (endExclusive (seq2Range d) + i)"
      using gap n unfolding matches_iff by simp
    moreover have "getElement s1 (start (seq1Range d) + i) = getElement s1 (endExclusive (seq1Range d) + i)"
      "getElement s2 (start (seq2Range d) + i) = getElement s2 (endExclusive (seq2Range d) + i)"
      using rep i unfolding repeats_def by blast+
    moreover have "q + (start (seq1Range d) - p) = start (seq2Range d)" using al by simp
    ultimately show "getElement s1 (p + (start (seq1Range d) - p) + i) = getElement s2 (q + (start (seq1Range d) - p) + i)" by simp
  qed
  moreover have "matches s1 s2 p q (start (seq1Range d) - p)" "0 \<le> start (seq1Range d) - p" using al by auto
  ultimately have "matches s1 s2 p q (start (seq1Range d) - p + n)" by (intro matches_join)
  then show ?thesis by (simp add: algebra_simps)
qed

lemma move_right:
  assumes "aligned s1 s2 p q (d # ds)" and "0 \<le> n" "n \<le> room s1 (endExclusive (seq1Range d)) ds"
    and "repeats s1 (seq1Range d) 0 n" "repeats s2 (seq2Range d) 0 n"
  shows "aligned s1 s2 p q (moved d n # ds)"
  using assms(1-3) move_right_match [OF assms] aligned_advance [of s1 s2 "endExclusive (seq1Range d)" "endExclusive (seq2Range d)" ds n]
  by (simp add: moved_def SequenceDiff_new_def algebra_simps)

section \<open>The passes keep the alignment\<close>

lemma shift_left_loop_spec:
  assumes "1 \<le> d" and "d \<le> len + 1"
    and "\<forall>i. - d < i \<and> i < 0 \<longrightarrow> getElement s1 (start (seq1Range cur) + i) = getElement s1 (endExclusive (seq1Range cur) + i) \<and>
      getElement s2 (start (seq2Range cur) + i) = getElement s2 (endExclusive (seq2Range cur) + i)"
  shows "d \<le> shift_left_loop s1 s2 cur len d \<and> shift_left_loop s1 s2 cur len d \<le> len + 1 \<and>
    repeats s1 (seq1Range cur) (- (shift_left_loop s1 s2 cur len d - 1)) 0 \<and>
    repeats s2 (seq2Range cur) (- (shift_left_loop s1 s2 cur len d - 1)) 0"
  using assms
proof (induction s1 s2 cur len d rule: shift_left_loop.induct)
  case (1 s1 s2 cur len d)
  let ?neq = "getElement s1 (start (seq1Range cur) - d) \<noteq> getElement s1 (endExclusive (seq1Range cur) - d) \<or>
            getElement s2 (start (seq2Range cur) - d) \<noteq> getElement s2 (endExclusive (seq2Range cur) - d)"
  show ?case
  proof (cases "d \<le> len \<and> \<not> ?neq")
    case True
    have "\<forall>i. - (d + 1) < i \<and> i < 0 \<longrightarrow> getElement s1 (start (seq1Range cur) + i) = getElement s1 (endExclusive (seq1Range cur) + i) \<and>
      getElement s2 (start (seq2Range cur) + i) = getElement s2 (endExclusive (seq2Range cur) + i)"
    proof (intro allI impI)
      fix i assume "- (d + 1) < i \<and> i < 0"
      then consider "i = - d" | "- d < i \<and> i < 0" by linarith
      then show "getElement s1 (start (seq1Range cur) + i) = getElement s1 (endExclusive (seq1Range cur) + i) \<and>
          getElement s2 (start (seq2Range cur) + i) = getElement s2 (endExclusive (seq2Range cur) + i)"
        by cases (use True 1(4) in auto)
    qed
    then show ?thesis using 1(1) True 1(2) by (subst (1 2 3 4) shift_left_loop.simps) simp
  next
    case False
    then have "shift_left_loop s1 s2 cur len d = d" by (subst shift_left_loop.simps) auto
    then show ?thesis using 1(2-4) by (simp add: repeats_def)
  qed
qed

lemma shift_left_count_spec:
  assumes "0 \<le> len"
  shows "0 \<le> shift_left_count s1 s2 cur len" and "shift_left_count s1 s2 cur len \<le> len"
    and "repeats s1 (seq1Range cur) (- shift_left_count s1 s2 cur len) 0"
    and "repeats s2 (seq2Range cur) (- shift_left_count s1 s2 cur len) 0"
proof -
  have "\<forall>i. - 1 < i \<and> i < 0 \<longrightarrow> getElement s1 (start (seq1Range cur) + i) = getElement s1 (endExclusive (seq1Range cur) + i) \<and>
      getElement s2 (start (seq2Range cur) + i) = getElement s2 (endExclusive (seq2Range cur) + i)"
    by (intro allI impI) linarith
  from shift_left_loop_spec [OF _ _ this, of len] assms
  show "0 \<le> shift_left_count s1 s2 cur len" and "shift_left_count s1 s2 cur len \<le> len"
    and "repeats s1 (seq1Range cur) (- shift_left_count s1 s2 cur len) 0"
    and "repeats s2 (seq2Range cur) (- shift_left_count s1 s2 cur len) 0"
    by (simp_all add: shift_left_count_def)
qed

text \<open>Joining with the predecessor: its end is the end of the moved difference.\<close>

lemma join_left_aligned:
  assumes "chain s1 s2 0 0 as p q" and "aligned s1 s2 p q (prev # ds)" and "apart (as @ [prev])" and "apart (prev # ds)"
  shows "\<exists>res. join_left s1 s2 (as @ [prev]) ds = Inr res \<and> aligned s1 s2 0 0 res \<and> apart res \<and> res \<noteq> []"
  using assms
proof (induction ds arbitrary: as prev p q)
  case Nil
  then have "aligned s1 s2 0 0 (as @ [prev])" unfolding aligned_append by blast
  then show ?case using Nil.prems(3) by simp
next
  case (Cons cur ds)
  let ?p = "endExclusive (seq1Range prev)" and ?q = "endExclusive (seq2Range prev)"
  have prev: "start (seq1Range prev) \<le> ?p" "start (seq2Range prev) \<le> ?q" using Cons.prems(2) by auto
  have al: "aligned s1 s2 ?p ?q (cur # ds)" by (rule aligned_ConsD [OF Cons.prems(2)])
  note cur = aligned_ConsD(4,5,3) [OF al]
  have ap: "apart (cur # ds)" "?p < start (seq1Range cur)" using Cons.prems(4) by (cases ds; simp)+
  have chain: "chain s1 s2 0 0 (as @ [prev]) ?p ?q" using Cons.prems(1,2) by (auto simp: chain_append)
  have push: ?case if d: "aligned s1 s2 ?p ?q (d # ds)" "?p < start (seq1Range d)" "endExclusive (seq1Range d) \<le> endExclusive (seq1Range cur)"
    and j: "join_left s1 s2 (as @ [prev]) (cur # ds) = join_left s1 s2 ((as @ [prev]) @ [d]) ds" for d
  proof -
    have "apart ((as @ [prev]) @ [d])" using Cons.prems(3) d(2) apart_append [of as prev "[d]"] by simp
    from Cons.IH [OF chain d(1) this apart_hd(2) [OF d(3) ap(1)]] show ?thesis unfolding j .
  qed
  show ?case
  proof (cases "OffsetRange_isEmpty (seq1Range cur) \<or> OffsetRange_isEmpty (seq2Range cur)")
    case empty: True
    let ?len = "gap_length prev cur"
    let ?n = "shift_left_count s1 s2 cur ?len"
    have len: "0 \<le> ?len" "?len = start (seq1Range cur) - ?p" using ap(2) by (auto simp: gap_length_def)
    note n = shift_left_count_spec [OF len(1), where ?s1.0 = s1 and ?s2.0 = s2 and cur = cur]
    have n': "?n \<le> start (seq1Range cur) - ?p" using n(2) len(2) by simp
    show ?thesis
    proof (cases "?n = ?len")
      case True
      let ?j = "SequenceDiff_new (mk_offset (start (seq1Range prev)) (endExclusive (seq1Range cur) - ?len))
        (mk_offset (start (seq2Range prev)) (endExclusive (seq2Range cur) - ?len))"
      have le: "start (seq1Range prev) \<le> endExclusive (seq1Range cur) - ?len" "start (seq2Range prev) \<le> endExclusive (seq2Range cur) - ?len"
        using prev cur len(2) by linarith+
      have "aligned s1 s2 (endExclusive (seq1Range cur) - ?n) (endExclusive (seq2Range cur) - ?n) ds"
        by (rule move_left_match [OF al n(1) n' n(3,4)])
      then have "aligned s1 s2 p q (?j # ds)"
        by (intro aligned_replace [OF Cons.prems(2)]) (use le True in \<open>simp_all add: SequenceDiff_new_def\<close>)
      moreover have "apart (as @ [?j])" using Cons.prems(3) apart_hd(1) [of ?j prev as] by (simp add: SequenceDiff_new_def)
      moreover have "apart (?j # ds)" using apart_hd(2) [OF _ ap(1), of ?j] len(1) by (simp add: SequenceDiff_new_def)
      ultimately have "\<exists>res. join_left s1 s2 (as @ [?j]) ds = Inr res \<and> aligned s1 s2 0 0 res \<and> apart res \<and> res \<noteq> []"
        by (rule Cons.IH [OF Cons.prems(1)])
      then show ?thesis using empty True le by (simp add: OffsetRange_new_def)
    next
      case False
      have "aligned s1 s2 ?p ?q (moved cur (- ?n) # ds)" by (rule move_left [OF al n(1) n' n(3,4)])
      moreover have "?p < start (seq1Range (moved cur (- ?n)))" using False n(2) len(2) by (simp add: moved_def SequenceDiff_new_def)
      moreover have "endExclusive (seq1Range (moved cur (- ?n))) \<le> endExclusive (seq1Range cur)" using n(1) by (simp add: moved_def SequenceDiff_new_def)
      ultimately show ?thesis
        by (rule push) (use empty False SequenceDiff_delta_moved [OF cur(1,2), of "- ?n"] in simp)
    qed
  next
    case False
    then show ?thesis using push [OF al ap(2) order_refl] by simp
  qed
qed

text \<open>What the passes rely on: in range, strongly equal elements are equal, and a boundary has a score.\<close>

locale diff_pair = one: diff_sequence s1 + two: diff_sequence s2 for s1 s2
begin

lemma shift_right_loop_spec:
  assumes "0 \<le> d" and "d \<le> len"
    and "0 \<le> start (seq1Range cur)" "start (seq1Range cur) \<le> endExclusive (seq1Range cur)" "endExclusive (seq1Range cur) + len \<le> seq_length s1"
    and "0 \<le> start (seq2Range cur)" "start (seq2Range cur) \<le> endExclusive (seq2Range cur)" "endExclusive (seq2Range cur) + len \<le> seq_length s2"
    and "repeats s1 (seq1Range cur) 0 d" and "repeats s2 (seq2Range cur) 0 d"
  shows "d \<le> shift_right_loop s1 s2 cur len d \<and> shift_right_loop s1 s2 cur len d \<le> len \<and>
    repeats s1 (seq1Range cur) 0 (shift_right_loop s1 s2 cur len d) \<and> repeats s2 (seq2Range cur) 0 (shift_right_loop s1 s2 cur len d)"
  using assms
proof (induction "nat (len - d)" arbitrary: d)
  case 0
  then have "shift_right_loop s1 s2 cur len d = d" by (subst shift_right_loop.simps) simp
  then show ?case using 0 by simp
next
  case (Suc k)
  let ?neq = "\<not> isStronglyEqual s1 (start (seq1Range cur) + d) (endExclusive (seq1Range cur) + d) \<or>
            \<not> isStronglyEqual s2 (start (seq2Range cur) + d) (endExclusive (seq2Range cur) + d)"
  have lt: "d < len" using Suc.hyps(2) by simp
  show ?case
  proof (cases ?neq)
    case True
    then have "shift_right_loop s1 s2 cur len d = d" by (subst shift_right_loop.simps) auto
    then show ?thesis using Suc.prems by simp
  next
    case False
    have "getElement s1 (start (seq1Range cur) + d) = getElement s1 (endExclusive (seq1Range cur) + d)"
      using False Suc.prems lt by (intro one.strongly_equal) auto
    moreover have "getElement s2 (start (seq2Range cur) + d) = getElement s2 (endExclusive (seq2Range cur) + d)"
      using False Suc.prems lt by (intro two.strongly_equal) auto
    ultimately have "repeats s1 (seq1Range cur) 0 (d + 1)" "repeats s2 (seq2Range cur) 0 (d + 1)"
      using Suc.prems(9,10) by (auto simp: repeats_def order.order_iff_strict)
    moreover have "shift_right_loop s1 s2 cur len d = shift_right_loop s1 s2 cur len (d + 1)"
      by (subst shift_right_loop.simps) (use False lt in simp)
    ultimately have "d + 1 \<le> shift_right_loop s1 s2 cur len d \<and> shift_right_loop s1 s2 cur len d \<le> len \<and>
        repeats s1 (seq1Range cur) 0 (shift_right_loop s1 s2 cur len d) \<and> repeats s2 (seq2Range cur) 0 (shift_right_loop s1 s2 cur len d)"
      using Suc.hyps(1) [of "d + 1"] Suc.hyps(2) Suc.prems lt by simp
    then show ?thesis by simp
  qed
qed

text \<open>In an alignment from non-negative offsets the next gap lies within both sequences.\<close>

lemma room_within:
  assumes "aligned s1 s2 p q ds"
  shows "p + room s1 p ds \<le> seq_length s1" and "q + room s1 p ds \<le> seq_length s2"
proof (atomize (full), cases ds)
  case Nil
  then show "p + room s1 p ds \<le> seq_length s1 \<and> q + room s1 p ds \<le> seq_length s2" using assms by (simp add: room_def)
next
  case (Cons d ds')
  then have "endExclusive (seq1Range d) \<le> seq_length s1" "endExclusive (seq2Range d) \<le> seq_length s2"
    using assms aligned_within by auto
  then show "p + room s1 p ds \<le> seq_length s1 \<and> q + room s1 p ds \<le> seq_length s2" using assms Cons by (simp add: room_def)
qed

lemma join_right_aligned:
  assumes "aligned s1 s2 p q ds" and "apart ds" and "0 \<le> p" "0 \<le> q"
  shows "\<exists>res. join_right s1 s2 ds = Inr res \<and> aligned s1 s2 p q res \<and> apart res \<and>
    (ds \<noteq> [] \<longrightarrow> res \<noteq> [] \<and> start (seq1Range (hd ds)) \<le> start (seq1Range (hd res)))"
  using assms
proof (induction "length ds" arbitrary: p q ds rule: less_induct)
  case less
  consider "ds = []" | d where "ds = [d]" | cur next' ds' where "ds = cur # next' # ds'"
    by (cases ds; cases "tl ds") auto
  then show ?case
  proof cases
    case 3
    let ?p = "endExclusive (seq1Range cur)" and ?q = "endExclusive (seq2Range cur)"
    let ?len = "gap_length cur next'"
    have al: "aligned s1 s2 p q (cur # next' # ds')" by (rule less.prems(1) [unfolded 3])
    note tail = aligned_ConsD(1) [OF al]
    have len: "?len = room s1 ?p (next' # ds')" by (simp add: gap_length_def room_def)
    note cur = aligned_ConsD(2,4,5,3) [OF al]
    have pos: "0 \<le> start (seq1Range cur)" "0 \<le> start (seq2Range cur)" using cur less.prems(3,4) by linarith+
    have ap: "?p < start (seq1Range next')" "apart (next' # ds')" using less.prems(2) 3 by auto
    have push: ?thesis if d: "aligned s1 s2 p q (d # next' # ds')" "endExclusive (seq1Range d) < start (seq1Range next')"
        "start (seq1Range cur) \<le> start (seq1Range d)" "0 \<le> endExclusive (seq1Range d)" "0 \<le> endExclusive (seq2Range d)"
      and j: "join_right s1 s2 ds = rbind (join_right s1 s2 (next' # ds')) (\<lambda>rs. Inr (d # rs))" for d
    proof -
      from less.hyps [OF _ aligned_ConsD(1) [OF d(1)] ap(2) d(4,5)] 3
      obtain res where res: "join_right s1 s2 (next' # ds') = Inr res" "aligned s1 s2 (endExclusive (seq1Range d)) (endExclusive (seq2Range d)) res"
        "apart res" "res \<noteq> []" "start (seq1Range next') \<le> start (seq1Range (hd res))" by auto
      then have "apart (d # res)" using d(2) by (cases res) auto
      moreover have "aligned s1 s2 p q (d # res)" by (rule aligned_replace [OF d(1) res(2)]) (use aligned_ConsD(4,5) [OF d(1)] in simp_all)
      ultimately show ?thesis unfolding j using res(1,4) d(3) \<open>apart (d # res)\<close> by (simp add: 3 del: aligned.simps)
    qed
    show ?thesis
    proof (cases "OffsetRange_isEmpty (seq1Range cur) \<or> OffsetRange_isEmpty (seq2Range cur)")
      case empty: True
      let ?n = "shift_right_loop s1 s2 cur ?len 0"
      have n: "0 \<le> ?n" "?n \<le> ?len" "repeats s1 (seq1Range cur) 0 ?n" "repeats s2 (seq2Range cur) 0 ?n"
        using shift_right_loop_spec [of 0 ?len cur] aligned_room(1) [OF tail] room_within [OF tail] cur(2,3) pos
        unfolding len by simp_all
      have n': "?n \<le> room s1 ?p (next' # ds')" using n(2) len by simp
      show ?thesis
      proof (cases "?n = ?len")
        case True
        let ?j = "SequenceDiff_new (mk_offset (start (seq1Range cur) + ?len) (endExclusive (seq1Range next')))
          (mk_offset (start (seq2Range cur) + ?len) (endExclusive (seq2Range next')))"
        note next' = aligned_ConsD(4,5,3,1) [OF tail]
        have le: "start (seq1Range cur) + ?len \<le> endExclusive (seq1Range next')" "start (seq2Range cur) + ?len \<le> endExclusive (seq2Range next')"
          using next'(1-3) cur(2,3) unfolding gap_length_def by linarith+
        have "matches s1 s2 p q (start (seq1Range cur) + ?n - p)" by (rule move_right_match [OF al n(1) n' n(3,4)])
        then have j: "aligned s1 s2 p q (?j # ds')" using le next'(4) cur(1,4) n(1) True by (simp add: SequenceDiff_new_def algebra_simps)
        have "apart (?j # ds')" using apart_hd(2) [OF _ ap(2), of ?j] by (simp add: SequenceDiff_new_def)
        from less.hyps [OF _ j this less.prems(3,4)] 3
        show ?thesis using empty True le n(1) by (auto simp: OffsetRange_new_def SequenceDiff_new_def)
      next
        case False
        let ?m = "moved cur ?n"
        have "aligned s1 s2 p q (?m # next' # ds')" by (rule move_right [OF al n(1) n' n(3,4)])
        moreover have "endExclusive (seq1Range ?m) < start (seq1Range next')" "start (seq1Range cur) \<le> start (seq1Range ?m)"
          "0 \<le> endExclusive (seq1Range ?m)" "0 \<le> endExclusive (seq2Range ?m)"
          using False n(1,2) pos cur(2,3) by (simp_all add: moved_def SequenceDiff_new_def gap_length_def)
        moreover have "(if 0 < ?n then SequenceDiff_delta cur ?n else Inr cur) = Inr ?m"
          using SequenceDiff_delta_moved [OF cur(2,3), of ?n] n(1)
          by (cases "?n = 0") (simp_all add: SequenceDiff_delta_def)
        then have "join_right s1 s2 ds = rbind (join_right s1 s2 (next' # ds')) (\<lambda>rs. Inr (?m # rs))"
          unfolding 3 join_right.simps using False empty by simp
        ultimately show ?thesis by (rule push)
      qed
    next
      case False
      then show ?thesis using push [OF al ap(1)] cur pos 3 by simp
    qed
  qed (use less.prems in auto)
qed

lemma join_aligned:
  assumes "aligned s1 s2 0 0 ds" and "apart ds"
  shows "\<exists>res. joinSequenceDiffsByShifting s1 s2 ds = Inr res \<and> aligned s1 s2 0 0 res \<and> apart res"
proof (cases ds)
  case Nil
  show ?thesis unfolding joinSequenceDiffsByShifting_def Nil list.case using assms [unfolded Nil] by blast
next
  case (Cons d ds')
  have "chain s1 s2 0 0 [] 0 0" by simp
  from join_left_aligned [OF this assms(1) [unfolded Cons] _ assms(2) [unfolded Cons]]
  obtain r where r: "join_left s1 s2 [d] ds' = Inr r" "aligned s1 s2 0 0 r" "apart r" by auto
  then show ?thesis using join_right_aligned [OF r(2,3)] Cons by (auto simp: joinSequenceDiffsByShifting_def)
qed

end

section \<open>The boundary shift\<close>

context diff_sequence
begin

lemma delta_before_loop_spec:
  assumes "1 \<le> d" and "0 \<le> start valid2" and "start (seq2Range diff) \<le> endExclusive (seq2Range diff)"
    and "endExclusive (seq2Range diff) \<le> seq_length s"
    and "d = 1 \<or> start valid1 \<le> start (seq1Range diff) - (d - 1) \<and> start valid2 \<le> start (seq2Range diff) - (d - 1)"
    and "repeats s (seq2Range diff) (- (d - 1)) 0"
  shows "\<exists>b. delta_before_loop s diff valid1 valid2 d = b + 1 \<and> 0 \<le> b \<and> repeats s (seq2Range diff) (- b) 0 \<and>
    (b = 0 \<or> start valid1 \<le> start (seq1Range diff) - b \<and> start valid2 \<le> start (seq2Range diff) - b)"
  using assms(1,5,6)
proof (induction "nat (100 - d)" arbitrary: d)
  case 0
  then have "delta_before_loop s diff valid1 valid2 d = d" by (subst delta_before_loop.simps) simp
  then show ?case using 0 by (intro exI [of _ "d - 1"]) auto
next
  case (Suc k)
  let ?c = "start (seq1Range diff) - d \<ge> start valid1 \<and> start (seq2Range diff) - d \<ge> start valid2 \<and>
         isStronglyEqual s (start (seq2Range diff) - d) (endExclusive (seq2Range diff) - d)"
  have lt: "d < 100" using Suc.hyps(2) by simp
  show ?case
  proof (cases ?c)
    case True
    have eq: "getElement s (start (seq2Range diff) - d) = getElement s (endExclusive (seq2Range diff) - d)"
      using True assms(2-4) Suc.prems(1) by (intro strongly_equal) auto
    have "repeats s (seq2Range diff) (- (d + 1 - 1)) 0"
      unfolding repeats_def
    proof (intro allI impI)
      fix i assume "- (d + 1 - 1) \<le> i \<and> i < 0"
      then consider "i = - d" | "- (d - 1) \<le> i \<and> i < 0" by linarith
      then show "getElement s (start (seq2Range diff) + i) = getElement s (endExclusive (seq2Range diff) + i)"
        by cases (use eq Suc.prems(3) in \<open>simp_all add: repeats_def\<close>)
    qed
    moreover have "delta_before_loop s diff valid1 valid2 d = delta_before_loop s diff valid1 valid2 (d + 1)"
      by (subst delta_before_loop.simps) (use True lt in simp)
    ultimately show ?thesis using Suc.hyps(1) [of "d + 1"] Suc.hyps(2) Suc.prems True by simp
  next
    case False
    then have "delta_before_loop s diff valid1 valid2 d = d" by (subst delta_before_loop.simps) auto
    then show ?thesis using Suc.prems by (intro exI [of _ "d - 1"]) auto
  qed
qed

lemma delta_after_loop_spec:
  assumes "0 \<le> d" and "0 \<le> start (seq2Range diff)" and "start (seq2Range diff) \<le> endExclusive (seq2Range diff)"
    and "endExclusive valid2 \<le> seq_length s"
    and "d = 0 \<or> start (seq1Range diff) + d \<le> endExclusive valid1 \<and> endExclusive (seq2Range diff) + d \<le> endExclusive valid2"
    and "repeats s (seq2Range diff) 0 d"
  shows "\<exists>a. delta_after_loop s diff valid1 valid2 d = a \<and> 0 \<le> a \<and> repeats s (seq2Range diff) 0 a \<and>
    (a = 0 \<or> start (seq1Range diff) + a \<le> endExclusive valid1 \<and> endExclusive (seq2Range diff) + a \<le> endExclusive valid2)"
  using assms(1,5,6)
proof (induction "nat (100 - d)" arbitrary: d)
  case 0
  then have "delta_after_loop s diff valid1 valid2 d = d" by (subst delta_after_loop.simps) simp
  then show ?case using 0 by auto
next
  case (Suc k)
  let ?c = "start (seq1Range diff) + d < endExclusive valid1 \<and> endExclusive (seq2Range diff) + d < endExclusive valid2 \<and>
         isStronglyEqual s (start (seq2Range diff) + d) (endExclusive (seq2Range diff) + d)"
  have lt: "d < 100" using Suc.hyps(2) by simp
  show ?case
  proof (cases ?c)
    case True
    have "getElement s (start (seq2Range diff) + d) = getElement s (endExclusive (seq2Range diff) + d)"
      using True assms(2-4) Suc.prems(1) by (intro strongly_equal) auto
    then have "repeats s (seq2Range diff) 0 (d + 1)"
      using Suc.prems(3) by (auto simp: repeats_def order.order_iff_strict)
    moreover have "delta_after_loop s diff valid1 valid2 d = delta_after_loop s diff valid1 valid2 (d + 1)"
      by (subst delta_after_loop.simps) (use True lt in simp)
    ultimately show ?thesis using Suc.hyps(1) [of "d + 1"] Suc.hyps(2) Suc.prems True by simp
  next
    case False
    then have "delta_after_loop s diff valid1 valid2 d = d" by (subst delta_after_loop.simps) auto
    then show ?thesis using Suc.prems by auto
  qed
qed

end

lemma best_delta_loop_chooses:
  assumes "\<And>x. x \<in> set deltas \<Longrightarrow> (\<exists>n. score1 (start (seq1Range diff) + x) = Inr n) \<and>
      (\<exists>n. score2 (start (seq2Range diff) + x) = Inr n) \<and> (\<exists>n. score2 (endExclusive (seq2Range diff) + x) = Inr n)"
  shows "\<exists>n. best_delta_loop score1 score2 diff deltas b d = Inr n \<and> n \<in> insert d (set deltas)"
  using assms
proof (induction deltas arbitrary: b d)
  case (Cons x deltas)
  obtain l m n where s: "score1 (start (seq1Range diff) + x) = Inr l" "score2 (start (seq2Range diff) + x) = Inr m"
    "score2 (endExclusive (seq2Range diff) + x) = Inr n" using Cons.prems [of x] by auto
  have IH: "\<exists>n. best_delta_loop score1 score2 diff deltas b' d' = Inr n \<and> n \<in> insert d' (set deltas)" for b' d'
    using Cons by simp
  show ?case using IH [of "l + m + n" x] IH [of b d] by (auto simp: s)
qed simp

lemma moved_0 [simp]: "moved d 0 = d"
  by (cases d, cases "seq1Range d", cases "seq2Range d") (simp add: moved_def SequenceDiff_new_def)

lemma moved_ends [simp]:
  "start (seq1Range (moved d n)) = start (seq1Range d) + n" "endExclusive (seq1Range (moved d n)) = endExclusive (seq1Range d) + n"
  "start (seq2Range (moved d n)) = start (seq2Range d) + n" "endExclusive (seq2Range (moved d n)) = endExclusive (seq2Range d) + n"
  by (simp_all add: moved_def SequenceDiff_new_def)

text \<open>A difference without elements of the first sequence stays in its valid range.\<close>

lemma shift_diff_position:
  assumes s2: "diff_sequence s2"
    and scores: "\<And>i. 0 \<le> i \<Longrightarrow> i \<le> seq_length s1 \<Longrightarrow> \<exists>n. score1 i = Inr n" "\<And>i. 0 \<le> i \<Longrightarrow> i \<le> seq_length s2 \<Longrightarrow> \<exists>n. score2 i = Inr n"
    and al: "aligned s1 s2 p q (diff # ds)" and empty: "start (seq1Range diff) = endExclusive (seq1Range diff)"
    and pq: "0 \<le> p" "0 \<le> q" "p \<le> start valid1" "0 \<le> start valid2"
    and ends: "endExclusive valid1 \<le> endExclusive (seq1Range diff) + room s1 (endExclusive (seq1Range diff)) ds"
      "endExclusive valid2 \<le> endExclusive (seq2Range diff) + room s1 (endExclusive (seq1Range diff)) ds"
    and within: "start valid1 \<le> start (seq1Range diff)" "endExclusive (seq1Range diff) \<le> endExclusive valid1"
  shows "\<exists>n. shiftDiffToBetterPosition diff score1 s2 score2 valid1 valid2 = Inr (moved diff n) \<and> aligned s1 s2 p q (moved diff n # ds) \<and>
    start valid1 \<le> start (seq1Range diff) + n \<and> endExclusive (seq1Range diff) + n \<le> endExclusive valid1"
proof -
  let ?room = "room s1 (endExclusive (seq1Range diff)) ds"
  note d = aligned_ConsD [OF al]
  have room: "endExclusive (seq1Range diff) + ?room \<le> seq_length s1" "endExclusive (seq2Range diff) + ?room \<le> seq_length s2" "0 \<le> ?room"
  proof -
    show "0 \<le> ?room" by (rule aligned_room [OF d(1)])
    have "aligned s1 s2 (endExclusive (seq1Range diff) + ?room) (endExclusive (seq2Range diff) + ?room) ds"
      by (rule aligned_advance [OF d(1) \<open>0 \<le> ?room\<close> order_refl])
    then show "endExclusive (seq1Range diff) + ?room \<le> seq_length s1" "endExclusive (seq2Range diff) + ?room \<le> seq_length s2"
      by (rule aligned_within)+
  qed
  have pos: "0 \<le> start (seq2Range diff)" using d(2,3) pq(1,2) by linarith
  obtain b where b: "delta_before_loop s2 diff valid1 valid2 1 = b + 1" "0 \<le> b" "repeats s2 (seq2Range diff) (- b) 0"
      "b = 0 \<or> start valid1 \<le> start (seq1Range diff) - b \<and> start valid2 \<le> start (seq2Range diff) - b"
    using diff_sequence.delta_before_loop_spec [OF s2, of 1 valid2 diff valid1] d(5) room(2,3) pq(4) by auto
  obtain a where a: "delta_after_loop s2 diff valid1 valid2 0 = a" "0 \<le> a" "repeats s2 (seq2Range diff) 0 a"
      "a = 0 \<or> start (seq1Range diff) + a \<le> endExclusive valid1 \<and> endExclusive (seq2Range diff) + a \<le> endExclusive valid2"
    using diff_sequence.delta_after_loop_spec [OF s2, of 0 diff valid2 valid1] d(5) room(2) ends(2) pos by auto
  have al': "aligned s1 s2 p q (moved diff n # ds)" if "- b \<le> n" "n \<le> a" for n
  proof (cases "0 \<le> n")
    case True
    then have "repeats s2 (seq2Range diff) 0 n" "n \<le> ?room" using a(3,4) that ends(1) empty room(3) by (auto simp: repeats_def)
    then show ?thesis using True by (intro move_right [OF al]) (simp_all add: empty)
  next
    case False
    then have "repeats s2 (seq2Range diff) (- (- n)) 0" "- n \<le> start (seq1Range diff) - p" using b(3,4) that pq(3) by (auto simp: repeats_def)
    then show ?thesis using False move_left [OF al, of "- n"] empty by simp
  qed
  show ?thesis
  proof (cases "b = 0 \<and> a = 0")
    case True
    then show ?thesis
      using b(1) a(1) al within by (intro exI [of _ 0]) (simp add: shiftDiffToBetterPosition_def del: aligned.simps)
  next
    case False
    have "(\<exists>n. score1 (start (seq1Range diff) + x) = Inr n) \<and> (\<exists>n. score2 (start (seq2Range diff) + x) = Inr n) \<and>
        (\<exists>n. score2 (endExclusive (seq2Range diff) + x) = Inr n)" if "x \<in> set [- b..a]" for x
      using that a(2,4) b(2,4) room pos pq ends d(2-5) empty by (intro conjI scores) auto
    from best_delta_loop_chooses [where deltas = "[- b..a]" and b = "- 1" and d = 0, OF this]
    obtain n where n: "best_delta_loop score1 score2 diff [- b..a] (- 1) 0 = Inr n" "- b \<le> n" "n \<le> a"
      using a(2) b(2) by auto
    have "SequenceDiff_delta diff n = Inr (moved diff n)" using d(4,5) by (rule SequenceDiff_delta_moved)
    then show ?thesis
      using n a b within empty al' [of n] False
      by (intro exI [of _ n]) (auto simp: shiftDiffToBetterPosition_def Let_def simp del: aligned.simps)
  qed
qed

text \<open>The roles of the two sequences may be swapped.\<close>

lemma swap_sel [simp]: "seq1Range (SequenceDiff_swap d) = seq2Range d" "seq2Range (SequenceDiff_swap d) = seq1Range d"
  "SequenceDiff_swap (SequenceDiff_swap d) = d"
  by (simp_all add: SequenceDiff_swap_def SequenceDiff_new_def)

lemma matches_swap: "matches s1 s2 p q n = matches s2 s1 q p n"
  by (auto simp: matches_def)

lemma aligned_swap: "aligned s1 s2 p q ds \<Longrightarrow> aligned s2 s1 q p (List.map SequenceDiff_swap ds)"
proof (induction ds arbitrary: p q)
  case Nil
  then have "seq_length s2 - q = seq_length s1 - p" "q \<le> seq_length s2" "matches s1 s2 p q (seq_length s1 - p)" by auto
  then show ?case by (simp add: matches_swap [of s2])
next
  case (Cons d ds)
  note d = aligned_ConsD [OF Cons.prems]
  have "matches s2 s1 q p (start (seq2Range d) - q)" using d(6) unfolding d(3) matches_swap [of s2] .
  moreover have "start (seq2Range d) - q = start (seq1Range d) - p" "q \<le> start (seq2Range d)" using d(2,3) by simp_all
  ultimately show ?case using Cons.IH [OF d(1)] d(4,5) by simp
qed

lemma room_swap:
  assumes "aligned s1 s2 p q ds"
  shows "room s2 q (List.map SequenceDiff_swap ds) = room s1 p ds"
  using assms by (cases ds) (auto simp: room_def)

context diff_pair
begin

lemma shift_loop_aligned:
  assumes "getBoundaryScore s1 = Some score1" and "getBoundaryScore s2 = Some score2"
    and "aligned s1 s2 p q ds" and "apart ds" and "0 \<le> p" "0 \<le> q"
    and "case prev of None \<Rightarrow> p = 0 \<and> q = 0
      | Some d \<Rightarrow> p = endExclusive (seq1Range d) \<and> q = endExclusive (seq2Range d) \<and> (ds \<noteq> [] \<longrightarrow> p < start (seq1Range (hd ds)))"
  shows "\<exists>res. shift_loop s1 score1 s2 score2 prev ds = Inr res \<and> aligned s1 s2 p q res \<and> apart res \<and>
    (prev \<noteq> None \<and> res \<noteq> [] \<longrightarrow> p < start (seq1Range (hd res)))"
  using assms(3-7)
proof (induction ds arbitrary: prev p q)
  case Nil
  then show ?case by auto
next
  case (Cons diff ds)
  note d = aligned_ConsD [OF Cons.prems(1)]
  let ?e1 = "endExclusive (seq1Range diff)" and ?e2 = "endExclusive (seq2Range diff)"
  let ?room = "room s1 ?e1 ds"
  let ?next = "case ds of [] \<Rightarrow> None | d # _ \<Rightarrow> Some d"
  have room: "0 \<le> ?room" "?e1 + ?room \<le> seq_length s1" "?e2 + ?room \<le> seq_length s2"
    using aligned_room [OF d(1)] room_within [OF d(1)] by simp_all
  define m where "m = (if ds = [] then 0 else 1 :: int)"
  define k where "k = (if prev = None then 0 else 1 :: int)"
  have strict: "m \<le> ?room" using Cons.prems(2) room(1) by (cases ds) (auto simp: m_def room_def)
  have behind: "p + k \<le> start (seq1Range diff)" "q + k \<le> start (seq2Range diff)"
    using Cons.prems(5) d(2,3) by (auto simp: k_def split: option.splits)
  have next': "?room = (case ds of [] \<Rightarrow> seq_length s2 - ?e2 | d # _ \<Rightarrow> start (seq2Range d) - ?e2)"
    using d(1) by (cases ds) (auto simp: room_def)
  have valid: "valid_range (map_option seq1Range prev) (map_option seq1Range ?next) (seq_length s1) = Inr (mk_offset (p + k) (?e1 + ?room - m))"
    "valid_range (map_option seq2Range prev) (map_option seq2Range ?next) (seq_length s2) = Inr (mk_offset (q + k) (?e2 + ?room - m))"
    using Cons.prems(5) behind strict d(4,5) next'
    by (auto simp: valid_range_def k_def m_def room_def OffsetRange_new_def split: option.splits list.splits)
  have sc: "\<exists>n. score1 i = Inr n" if "0 \<le> i" "i \<le> seq_length s1" for i by (rule one.score_returns [OF assms(1) that])
  have sc2: "\<exists>n. score2 i = Inr n" if "0 \<le> i" "i \<le> seq_length s2" for i by (rule two.score_returns [OF assms(2) that])
  note sc = sc sc2
  have step: ?case if x: "x = moved diff n" "aligned s1 s2 p q (x # ds)" "p + k \<le> start (seq1Range x)" "endExclusive (seq1Range x) \<le> ?e1 + ?room - m"
    and run: "(if OffsetRange_isEmpty (seq1Range diff)
         then shiftDiffToBetterPosition diff score1 s2 score2 (mk_offset (p + k) (?e1 + ?room - m)) (mk_offset (q + k) (?e2 + ?room - m))
         else if OffsetRange_isEmpty (seq2Range diff)
         then rbind (shiftDiffToBetterPosition (SequenceDiff_swap diff) score2 s1 score1 (mk_offset (q + k) (?e2 + ?room - m)) (mk_offset (p + k) (?e1 + ?room - m)))
                (\<lambda>d. Inr (SequenceDiff_swap d))
         else Inr diff) = Inr x" for x n
  proof -
    note x' = aligned_ConsD [OF x(2)]
    have tail: "ds \<noteq> [] \<longrightarrow> endExclusive (seq1Range x) < start (seq1Range (hd ds))"
      using x(4) by (cases ds) (auto simp: m_def room_def)
    have ap: "apart ds" using Cons.prems(2) by (cases ds) auto
    have pos: "0 \<le> endExclusive (seq1Range x)" "0 \<le> endExclusive (seq2Range x)" using x'(2-5) Cons.prems(3,4) by linarith+
    have "\<exists>res. shift_loop s1 score1 s2 score2 (Some x) ds = Inr res \<and>
        aligned s1 s2 (endExclusive (seq1Range x)) (endExclusive (seq2Range x)) res \<and> apart res \<and>
        (Some x \<noteq> None \<and> res \<noteq> [] \<longrightarrow> endExclusive (seq1Range x) < start (seq1Range (hd res)))"
      by (rule Cons.IH [OF x'(1) ap pos]) (use tail in simp)
    then obtain res where res: "shift_loop s1 score1 s2 score2 (Some x) ds = Inr res"
      "aligned s1 s2 (endExclusive (seq1Range x)) (endExclusive (seq2Range x)) res" "apart res"
      "res \<noteq> [] \<longrightarrow> endExclusive (seq1Range x) < start (seq1Range (hd res))" by auto
    have "aligned s1 s2 p q (x # res)" by (rule aligned_replace [OF x(2) res(2)]) (use x'(4,5) in simp_all)
    moreover have "apart (x # res)" using res(3,4) by (cases res) auto
    moreover have "prev \<noteq> None \<longrightarrow> p < start (seq1Range x)" using x(3) by (auto simp: k_def)
    moreover have "shift_loop s1 score1 s2 score2 prev (diff # ds) = Inr (x # res)"
      unfolding shift_loop.simps Let_def valid rbind.simps run res(1) ..
    ultimately show ?thesis by (simp del: aligned.simps shift_loop.simps)
  qed
  consider "OffsetRange_isEmpty (seq1Range diff)" | "\<not> OffsetRange_isEmpty (seq1Range diff)" "OffsetRange_isEmpty (seq2Range diff)"
    | "\<not> OffsetRange_isEmpty (seq1Range diff)" "\<not> OffsetRange_isEmpty (seq2Range diff)" by blast
  then show ?case
  proof cases
    case 1
    then have "start (seq1Range diff) = ?e1" by (simp add: OffsetRange_isEmpty_def)
    have "\<exists>n. shiftDiffToBetterPosition diff score1 s2 score2 (mk_offset (p + k) (?e1 + ?room - m)) (mk_offset (q + k) (?e2 + ?room - m)) =
        Inr (moved diff n) \<and> aligned s1 s2 p q (moved diff n # ds) \<and>
        start (mk_offset (p + k) (?e1 + ?room - m)) \<le> start (seq1Range diff) + n \<and>
        ?e1 + n \<le> endExclusive (mk_offset (p + k) (?e1 + ?room - m))"
      by (rule shift_diff_position [OF two.diff_sequence_axioms sc Cons.prems(1) \<open>start (seq1Range diff) = ?e1\<close> Cons.prems(3,4)])
        (use Cons.prems(4) behind strict in \<open>auto simp: k_def m_def\<close>)
    then obtain n where "shiftDiffToBetterPosition diff score1 s2 score2 (mk_offset (p + k) (?e1 + ?room - m)) (mk_offset (q + k) (?e2 + ?room - m)) =
        Inr (moved diff n)" "aligned s1 s2 p q (moved diff n # ds)" "p + k \<le> start (seq1Range diff) + n" "?e1 + n \<le> ?e1 + ?room - m"
      by auto
    then show ?thesis using 1 by (intro step) simp_all
  next
    case 2
    have sw: "aligned s2 s1 q p (SequenceDiff_swap diff # List.map SequenceDiff_swap ds)"
      using aligned_swap [OF Cons.prems(1)] by (simp only: list.map)
    have e: "start (seq1Range (SequenceDiff_swap diff)) = endExclusive (seq1Range (SequenceDiff_swap diff))"
      using 2 by (simp add: OffsetRange_isEmpty_def)
    have "\<exists>n. shiftDiffToBetterPosition (SequenceDiff_swap diff) score2 s1 score1 (mk_offset (q + k) (?e2 + ?room - m)) (mk_offset (p + k) (?e1 + ?room - m)) =
        Inr (moved (SequenceDiff_swap diff) n) \<and> aligned s2 s1 q p (moved (SequenceDiff_swap diff) n # List.map SequenceDiff_swap ds) \<and>
        start (mk_offset (q + k) (?e2 + ?room - m)) \<le> start (seq1Range (SequenceDiff_swap diff)) + n \<and>
        endExclusive (seq1Range (SequenceDiff_swap diff)) + n \<le> endExclusive (mk_offset (q + k) (?e2 + ?room - m))"
      by (rule shift_diff_position [OF one.diff_sequence_axioms sc(2,1) sw e Cons.prems(4,3)])
        (use Cons.prems(3) behind strict room_swap [OF d(1)] in \<open>auto simp: k_def m_def\<close>)
    then obtain n where n: "shiftDiffToBetterPosition (SequenceDiff_swap diff) score2 s1 score1 (mk_offset (q + k) (?e2 + ?room - m))
          (mk_offset (p + k) (?e1 + ?room - m)) = Inr (moved (SequenceDiff_swap diff) n)"
        "aligned s2 s1 q p (moved (SequenceDiff_swap diff) n # List.map SequenceDiff_swap ds)"
        "q + k \<le> start (seq2Range diff) + n" "?e2 + n \<le> ?e2 + ?room - m" by auto
    have sm: "SequenceDiff_swap (moved (SequenceDiff_swap diff) n) = moved diff n"
      by (simp add: moved_def SequenceDiff_swap_def SequenceDiff_new_def)
    have "aligned s1 s2 p q (moved diff n # ds)"
      using aligned_swap [OF n(2)] by (simp add: sm comp_def del: aligned.simps)
    then show ?thesis by (rule step [OF refl]) (use 2 n(1,3,4) sm d(2,3) in simp_all)
  next
    case 3
    then show ?thesis using behind strict Cons.prems(1) by (intro step [of diff 0]) (simp_all del: aligned.simps)
  qed
qed

lemma optimize_aligned:
  assumes "aligned s1 s2 0 0 ds" and "apart ds"
  shows "\<exists>res. optimizeSequenceDiffs s1 s2 ds = Inr res \<and> aligned s1 s2 0 0 res \<and> apart res"
proof -
  obtain a where a: "joinSequenceDiffsByShifting s1 s2 ds = Inr a" "aligned s1 s2 0 0 a" "apart a"
    using join_aligned [OF assms] by blast
  obtain b where b: "joinSequenceDiffsByShifting s1 s2 a = Inr b" "aligned s1 s2 0 0 b" "apart b"
    using join_aligned [OF a(2,3)] by blast
  have "\<exists>res. shiftSequenceDiffs s1 s2 b = Inr res \<and> aligned s1 s2 0 0 res \<and> apart res"
  proof (cases "getBoundaryScore s1 = None \<or> getBoundaryScore s2 = None")
    case True
    then show ?thesis using b(2,3) by (auto simp: shiftSequenceDiffs_def split: option.splits)
  next
    case False
    then obtain f g where "getBoundaryScore s1 = Some f" "getBoundaryScore s2 = Some g" by auto
    then show ?thesis
      using shift_loop_aligned [OF _ _ b(2,3), of f g None] by (auto simp: shiftSequenceDiffs_def simp del: shift_loop.simps)
  qed
  then show ?thesis using a(1) b(1) by (simp add: optimizeSequenceDiffs_def)
qed

end

section \<open>Joining over short matches\<close>

fun spaced :: "int \<Rightarrow> SequenceDiff list \<Rightarrow> bool" where
  "spaced n (a # b # ds) \<longleftrightarrow>
     endExclusive (seq1Range a) + n < start (seq1Range b) \<and> endExclusive (seq2Range a) + n < start (seq2Range b) \<and> spaced n (b # ds)"
| "spaced n [] \<longleftrightarrow> True"
| "spaced n [a] \<longleftrightarrow> True"

lemma spaced_append: "spaced n (as @ d # ds) \<longleftrightarrow> spaced n (as @ [d]) \<and> spaced n (d # ds)"
  by (induction n as rule: spaced.induct) auto

lemma spaced_hd:
  "start (seq1Range d) = start (seq1Range d') \<Longrightarrow> start (seq2Range d) = start (seq2Range d') \<Longrightarrow> spaced n (as @ [d]) = spaced n (as @ [d'])"
  by (induction n as rule: spaced.induct) auto

text \<open>The join of two neighbours covers both and the elements between them.\<close>

lemma join_neighbours:
  assumes "aligned s1 s2 p q (d # e # ds)"
  obtains j where "SequenceDiff_join d e = Inr j" and "aligned s1 s2 p q (j # ds)"
    and "start (seq1Range j) = start (seq1Range d)" "start (seq2Range j) = start (seq2Range d)"
    and "endExclusive (seq1Range j) = endExclusive (seq1Range e)"
proof -
  note d = aligned_ConsD [OF assms]
  note e = aligned_ConsD [OF d(1)]
  have le: "start (seq1Range d) \<le> start (seq1Range e)" "endExclusive (seq1Range d) \<le> endExclusive (seq1Range e)"
    "start (seq2Range d) \<le> start (seq2Range e)" "endExclusive (seq2Range d) \<le> endExclusive (seq2Range e)"
    using d(4,5) e(2-5) by linarith+
  let ?j = "SequenceDiff_new (mk_offset (start (seq1Range d)) (endExclusive (seq1Range e))) (mk_offset (start (seq2Range d)) (endExclusive (seq2Range e)))"
  have "start (seq1Range d) \<le> endExclusive (seq1Range e)" "start (seq2Range d) \<le> endExclusive (seq2Range e)"
    using le d(4,5) by linarith+
  moreover from this have "SequenceDiff_join d e = Inr ?j"
    using le by (simp add: SequenceDiff_join_def OffsetRange_join_def OffsetRange_new_def)
  ultimately show thesis
    by (intro that [of ?j] aligned_replace [OF assms]) (use e(1) in \<open>simp_all add: SequenceDiff_new_def\<close>)
qed

lemma removeShortMatches_loop_aligned:
  assumes "chain s1 s2 0 0 as p q" and "aligned s1 s2 p q (prev # ds)" and "spaced 2 (as @ [prev])"
  shows "\<exists>res. removeShortMatches_loop (as @ [prev]) ds = Inr res \<and> aligned s1 s2 0 0 res \<and> spaced 2 res"
  using assms
proof (induction ds arbitrary: as prev p q)
  case Nil
  then have "aligned s1 s2 0 0 (as @ [prev])" unfolding aligned_append by blast
  then show ?case using Nil.prems(3) by simp
next
  case (Cons s ds)
  show ?case
  proof (cases "start (seq1Range s) - endExclusive (seq1Range prev) \<le> 2 \<or> start (seq2Range s) - endExclusive (seq2Range prev) \<le> 2")
    case True
    obtain j where j: "SequenceDiff_join prev s = Inr j" "aligned s1 s2 p q (j # ds)"
      "start (seq1Range j) = start (seq1Range prev)" "start (seq2Range j) = start (seq2Range prev)"
      by (rule join_neighbours [OF Cons.prems(2)])
    have "spaced 2 (as @ [j])" using Cons.prems(3) spaced_hd [OF j(3,4)] by simp
    from Cons.IH [OF Cons.prems(1) j(2) this] show ?thesis using True j(1) by simp
  next
    case False
    have "chain s1 s2 0 0 (as @ [prev]) (endExclusive (seq1Range prev)) (endExclusive (seq2Range prev))"
      using Cons.prems(1,2) by (auto simp: chain_append)
    moreover have "spaced 2 ((as @ [prev]) @ [s])" using Cons.prems(3) False spaced_append [of 2 as prev "[s]"] by simp
    ultimately have "\<exists>res. removeShortMatches_loop ((as @ [prev]) @ [s]) ds = Inr res \<and> aligned s1 s2 0 0 res \<and> spaced 2 res"
      by (rule Cons.IH [OF _ aligned_ConsD(1) [OF Cons.prems(2)]])
    then show ?thesis using False by simp
  qed
qed

lemma removeShortMatches_spaced:
  assumes "aligned s1 s2 0 0 ds"
  shows "\<exists>res. removeShortMatches s1 s2 ds = Inr res \<and> aligned s1 s2 0 0 res \<and> spaced 2 res"
proof (cases ds)
  case Nil
  show ?thesis using assms unfolding Nil by (simp add: removeShortMatches_def del: aligned.simps)
next
  case (Cons d ds')
  have "chain s1 s2 0 0 [] 0 0" by simp
  from removeShortMatches_loop_aligned [OF this assms [unfolded Cons]]
  show ?thesis by (simp add: removeShortMatches_def Cons)
qed

lemma join_short_loop_aligned:
  assumes "chain s1 s2 0 0 as p q" and "aligned s1 s2 p q (prev # ds)" and "apart (as @ [prev])" and "apart (prev # ds)"
  shows "\<exists>res b. join_short_loop ls (as @ [prev]) ds rep = Inr (res, b) \<and> aligned s1 s2 0 0 res \<and> apart res \<and> res \<noteq> []"
  using assms
proof (induction ds arbitrary: as prev p q rep)
  case Nil
  then have "aligned s1 s2 0 0 (as @ [prev])" unfolding aligned_append by blast
  then show ?case using Nil.prems(3) by simp
next
  case (Cons cur ds)
  have ap: "endExclusive (seq1Range prev) < start (seq1Range cur)" "apart (cur # ds)" using Cons.prems(4) by simp_all
  obtain b where b: "shouldJoinDiffs ls prev cur = Inr b"
    using ap(1) by (auto simp: shouldJoinDiffs_def OffsetRange_new_def)
  show ?case
  proof (cases b)
    case True
    obtain j where j: "SequenceDiff_join prev cur = Inr j" "aligned s1 s2 p q (j # ds)"
      "start (seq1Range j) = start (seq1Range prev)" "endExclusive (seq1Range j) = endExclusive (seq1Range cur)"
      by (rule join_neighbours [OF Cons.prems(2)])
    have "apart (as @ [j])" using Cons.prems(3) apart_hd(1) [OF j(3)] by simp
    moreover have "apart (j # ds)" using apart_hd(2) [OF _ ap(2), of j] j(4) by simp
    ultimately show ?thesis using Cons.IH [OF Cons.prems(1) j(2)] True b j(1) by simp
  next
    case False
    have "chain s1 s2 0 0 (as @ [prev]) (endExclusive (seq1Range prev)) (endExclusive (seq2Range prev))"
      using Cons.prems(1,2) by (auto simp: chain_append)
    moreover have "apart ((as @ [prev]) @ [cur])" using Cons.prems(3) ap(1) apart_append [of as prev "[cur]"] by simp
    ultimately have "\<exists>res b. join_short_loop ls ((as @ [prev]) @ [cur]) ds rep = Inr (res, b) \<and> aligned s1 s2 0 0 res \<and> apart res \<and> res \<noteq> []"
      by (rule Cons.IH [OF _ aligned_ConsD(1) [OF Cons.prems(2)] _ ap(2)])
    then show ?thesis using False b by simp
  qed
qed

lemma join_short_repeat_aligned:
  assumes "aligned s1 s2 0 0 ds" and "apart ds" and "ds \<noteq> []"
  shows "\<exists>res. join_short_repeat ls n ds = Inr res \<and> aligned s1 s2 0 0 res \<and> apart res"
  using assms
proof (induction n arbitrary: ds)
  case (0 ds)
  then obtain d ds' where ds: "ds = d # ds'" by (cases ds) auto
  have "chain s1 s2 0 0 [] 0 0" by simp
  from join_short_loop_aligned [OF this 0(1) [unfolded ds] _ 0(2) [unfolded ds], of ls False]
  show ?case by (auto simp: ds)
next
  case (Suc n ds)
  then obtain d ds' where ds: "ds = d # ds'" by (cases ds) auto
  have "chain s1 s2 0 0 [] 0 0" by simp
  from join_short_loop_aligned [OF this Suc.prems(1) [unfolded ds] _ Suc.prems(2) [unfolded ds], of ls False]
  obtain res b where r: "join_short_loop ls [d] ds' False = Inr (res, b)" "aligned s1 s2 0 0 res" "apart res" "res \<noteq> []" by auto
  show ?case
  proof (cases b)
    case True
    then show ?thesis using Suc.IH [OF r(2-4)] r(1) by (subst join_short_repeat.simps) (simp add: ds)
  next
    case False
    then show ?thesis using r by (subst join_short_repeat.simps) (simp add: ds)
  qed
qed

lemma removeVeryShort_aligned:
  assumes "aligned s1 s2 0 0 ds" and "apart ds"
  shows "\<exists>res. removeVeryShortMatchingLinesBetweenDiffs ls ds = Inr res \<and> aligned s1 s2 0 0 res \<and> apart res"
proof (cases "ds = []")
  case False
  then show ?thesis using join_short_repeat_aligned [OF assms, of ls 10] by (simp add: removeVeryShortMatchingLinesBetweenDiffs_def)
next
  case True
  show ?thesis using assms unfolding True by (simp add: removeVeryShortMatchingLinesBetweenDiffs_def del: aligned.simps)
qed

interpretation line_pair: diff_pair "LineSequence (List.map h ls1) ls1" "LineSequence (List.map h ls2) ls2" for h ls1 ls2
  by unfold_locales

section \<open>Correctness\<close>

text \<open>C27: on sequences of lines the passes over a correct diff never throw and give a correct diff again: after
  \<open>optimizeSequenceDiffs\<close>, after \<open>removeVeryShortMatchingLinesBetweenDiffs\<close> and after \<open>removeShortMatches\<close> the sequences still
  agree outside the differences; the last one leaves more than two elements between neighbours.
\<close>

lemma optimizeSequenceDiffs_keeps_alignment:
  assumes "aligned (LineSequence (List.map h ls1) ls1) (LineSequence (List.map h ls2) ls2) 0 0 ds" and "apart ds"
  shows "\<exists>r1 r2 r3. optimizeSequenceDiffs (LineSequence (List.map h ls1) ls1) (LineSequence (List.map h ls2) ls2) ds = Inr r1 \<and>
      aligned (LineSequence (List.map h ls1) ls1) (LineSequence (List.map h ls2) ls2) 0 0 r1 \<and> apart r1 \<and>
    removeVeryShortMatchingLinesBetweenDiffs ls1 r1 = Inr r2 \<and>
      aligned (LineSequence (List.map h ls1) ls1) (LineSequence (List.map h ls2) ls2) 0 0 r2 \<and> apart r2 \<and>
    removeShortMatches (LineSequence (List.map h ls1) ls1) (LineSequence (List.map h ls2) ls2) r2 = Inr r3 \<and>
      aligned (LineSequence (List.map h ls1) ls1) (LineSequence (List.map h ls2) ls2) 0 0 r3 \<and> spaced 2 r3"
  using line_pair.optimize_aligned [OF assms] removeVeryShort_aligned removeShortMatches_spaced by meson

lemma optimizeSequenceDiffs_keeps_alignment_witness:
  "\<exists>r. optimizeSequenceDiffs (LineSequence [1, 0, 1] [[97], [], [97]]) (LineSequence [1, 1, 0, 1] [[97], [97], [], [97]])
      [SequenceDiff_new (mk_offset 0 0) (mk_offset 0 1)] = Inr r \<and> apart r"
proof -
  have "aligned (LineSequence (List.map (\<lambda>l. int (length l)) [[97], [], [97]]) [[97], [], [97]])
      (LineSequence (List.map (\<lambda>l. int (length l)) [[97], [97], [], [97]]) [[97], [97], [], [97]]) 0 0
      [SequenceDiff_new (mk_offset 0 0) (mk_offset 0 1)]"
    "apart [SequenceDiff_new (mk_offset 0 0) (mk_offset 0 1)]"
    by code_simp+
  from optimizeSequenceDiffs_keeps_alignment [OF this] show ?thesis by auto
qed

end
