(* ===== verification/Myers_Diff.thy ===== *)
theory Myers_Diff
  imports Dynamic_Diff
begin

text \<open>
  \<open>src/vs/editor/common/diff/defaultLinesDiffComputer/algorithms/myersDiffAlgorithm.ts\<close>: the greedy diff over the
  furthest points of the diagonals.  \<open>V\<close> is a pair of typed arrays that grow by doubling: a read behind their end is
  \<open>undefined\<close>, a written \<open>NaN\<close> is 0.  A number of the code is therefore an option, None when it is not a number.
  The outer loop may run forever as far as its text goes, so it is a partial function; that it returns is a theorem
  of \<open>Myers_Laws\<close>.
\<close>

section \<open>Arrays with negative indices\<close>

record FastInt32Array =
  positiveArr :: "int list"
  negativeArr :: "int list"

definition FastInt32Array_new :: FastInt32Array where
  "FastInt32Array_new = \<lparr>positiveArr = replicate 10 0, negativeArr = replicate 10 0\<rparr>"

definition FastInt32Array_get :: "FastInt32Array \<Rightarrow> int \<Rightarrow> int option" where
  "FastInt32Array_get a idx = (if idx < 0 then js_at (negativeArr a) (- idx - 1) else js_at (positiveArr a) idx)"

text \<open>A stored number is converted to 32 bits; a write behind the end of a typed array has no effect.\<close>

definition int32_write :: "int list \<Rightarrow> int \<Rightarrow> int option \<Rightarrow> int list" where
  "int32_write xs i v = xs[nat i := (case v of Some n \<Rightarrow> to_int32 n | None \<Rightarrow> 0)]"

definition grown :: "int list \<Rightarrow> int \<Rightarrow> int list" where
  "grown xs idx = (if idx \<ge> int (length xs) then xs @ replicate (length xs) 0 else xs)"

definition FastInt32Array_set :: "FastInt32Array \<Rightarrow> int \<Rightarrow> int option \<Rightarrow> FastInt32Array" where
  "FastInt32Array_set a idx v =
     (if idx < 0 then a\<lparr>negativeArr := int32_write (grown (negativeArr a) (- idx - 1)) (- idx - 1) v\<rparr>
      else a\<lparr>positiveArr := int32_write (grown (positiveArr a) idx) idx v\<rparr>)"

text \<open>A path is the list of its snakes, the last one first.\<close>

datatype SnakePath = SnakePath (path_prev: "SnakePath option") (path_x: "int option") (path_y: "int option") (path_length: "int option")

text \<open>The plain arrays are sparse; \<open>null\<close> and \<open>undefined\<close> are both None.\<close>

record 'a FastArrayNegativeIndices =
  positiveItems :: "int \<Rightarrow> 'a option"
  negativeItems :: "int \<Rightarrow> 'a option"

definition FastArrayNegativeIndices_new :: "'a FastArrayNegativeIndices" where
  "FastArrayNegativeIndices_new = \<lparr>positiveItems = (\<lambda>_. None), negativeItems = (\<lambda>_. None)\<rparr>"

definition FastArrayNegativeIndices_get :: "'a FastArrayNegativeIndices \<Rightarrow> int \<Rightarrow> 'a option" where
  "FastArrayNegativeIndices_get a idx = (if idx < 0 then negativeItems a (- idx - 1) else positiveItems a idx)"

definition FastArrayNegativeIndices_set :: "'a FastArrayNegativeIndices \<Rightarrow> int \<Rightarrow> 'a option \<Rightarrow> 'a FastArrayNegativeIndices" where
  "FastArrayNegativeIndices_set a idx v =
     (if idx < 0 then a\<lparr>negativeItems := (negativeItems a)(- idx - 1 := v)\<rparr>
      else a\<lparr>positiveItems := (positiveItems a)(idx := v)\<rparr>)"

section \<open>The rounds\<close>

function getXAfterSnake :: "ISequence \<Rightarrow> ISequence \<Rightarrow> int \<Rightarrow> int \<Rightarrow> int" where
  "getXAfterSnake s1 s2 x y =
     (if x < seq_length s1 \<and> y < seq_length s2 \<and> getElement s1 x = getElement s2 y
      then getXAfterSnake s1 s2 (x + 1) (y + 1) else x)"
  by pat_completeness auto
termination by (relation "measure (\<lambda>(s1, s2, x, y). nat (seq_length s1 - x))") auto

declare getXAfterSnake.simps [simp del]

record MyersState =
  V :: FastInt32Array
  paths :: "SnakePath FastArrayNegativeIndices"

definition Myers_init :: "ISequence \<Rightarrow> ISequence \<Rightarrow> MyersState" where
  "Myers_init s1 s2 =
     (let v = FastInt32Array_set FastInt32Array_new 0 (Some (getXAfterSnake s1 s2 0 0))
      in \<lparr>V = v, paths = FastArrayNegativeIndices_set FastArrayNegativeIndices_new 0
            (if FastInt32Array_get v 0 = Some 0 then None
             else Some (SnakePath None (Some 0) (Some 0) (FastInt32Array_get v 0)))\<rparr>)"

text \<open>One pass of the inner loop: the new state, and whether the end of both sequences is reached.\<close>

definition Myers_step :: "ISequence \<Rightarrow> ISequence \<Rightarrow> int \<Rightarrow> int \<Rightarrow> int \<Rightarrow> MyersState \<Rightarrow> MyersState \<times> bool" where
  "Myers_step s1 s2 lowerBound upperBound k st =
     (let maxXofDLineTop = (if k = upperBound then Some (- 1) else FastInt32Array_get (V st) (k + 1));
          maxXofDLineLeft = (if k = lowerBound then Some (- 1) else map_option (\<lambda>x. x + 1) (FastInt32Array_get (V st) (k - 1)));
          x = (case (maxXofDLineTop, maxXofDLineLeft) of
                 (Some t, Some l) \<Rightarrow> Some (min (max t l) (seq_length s1))
               | _ \<Rightarrow> None);
          y = map_option (\<lambda>x. x - k) x
      in if (\<exists>n \<in> set_option x. n > seq_length s1) \<or> (\<exists>n \<in> set_option y. n > seq_length s2) then (st, False)
         else
           (let newMaxX = map_option (\<lambda>x. getXAfterSnake s1 s2 x (x - k)) x;
                v = FastInt32Array_set (V st) k newMaxX;
                lastPath = (if x \<noteq> None \<and> x = maxXofDLineTop then FastArrayNegativeIndices_get (paths st) (k + 1)
                            else FastArrayNegativeIndices_get (paths st) (k - 1));
                ps = FastArrayNegativeIndices_set (paths st) k
                       (if newMaxX = None \<or> newMaxX \<noteq> x
                        then Some (SnakePath lastPath x y (case (newMaxX, x) of (Some n, Some x) \<Rightarrow> Some (n - x) | _ \<Rightarrow> None))
                        else lastPath)
            in (\<lparr>V = v, paths = ps\<rparr>, FastInt32Array_get v k = Some (seq_length s1) \<and> seq_length s1 - k = seq_length s2)))"

function Myers_round :: "ISequence \<Rightarrow> ISequence \<Rightarrow> int \<Rightarrow> int \<Rightarrow> int \<Rightarrow> MyersState \<Rightarrow> MyersState \<times> int option" where
  "Myers_round s1 s2 lowerBound upperBound k st =
     (if k \<le> upperBound then
        (case Myers_step s1 s2 lowerBound upperBound k st of
           (st, found) \<Rightarrow> if found then (st, Some k) else Myers_round s1 s2 lowerBound upperBound (k + 2) st)
      else (st, None))"
  by pat_completeness auto
termination by (relation "measure (\<lambda>(s1, s2, l, u, k, st). nat (u + 1 - k))") auto

declare Myers_round.simps [simp del]

definition lower_bound :: "ISequence \<Rightarrow> int \<Rightarrow> int" where
  "lower_bound s2 d = - min d (seq_length s2 + d mod 2)"

definition upper_bound :: "ISequence \<Rightarrow> int \<Rightarrow> int" where
  "upper_bound s1 d = min d (seq_length s1 + d mod 2)"

text \<open>The outer loop, from the value of \<open>d\<close> before its increment; the clock is asked once per round.\<close>

partial_function (option) Myers_loop :: "ISequence \<Rightarrow> ISequence \<Rightarrow> ITimeout \<Rightarrow> int \<Rightarrow> MyersState \<Rightarrow> SnakePath option outcome option" where
  "Myers_loop s1 s2 timeout d st =
     (if \<not> timeout (nat d) then Some TimedOut
      else (case Myers_round s1 s2 (lower_bound s2 (d + 1)) (upper_bound s1 (d + 1)) (lower_bound s2 (d + 1)) st of
              (st, Some k) \<Rightarrow> Some (Computed (FastArrayNegativeIndices_get (paths st) k))
            | (st, None) \<Rightarrow> Myers_loop s1 s2 timeout (d + 1) st))"

declare Myers_loop.simps [code]

section \<open>Reading the path\<close>

text \<open>The end of a snake that is not a number differs from every offset, and its range is one of \<open>NaN\<close>.\<close>

fun path_diffs :: "SnakePath option \<Rightarrow> int \<Rightarrow> int \<Rightarrow> SequenceDiff list outcome result" where
  "path_diffs None lastAligningPosS1 lastAligningPosS2 =
     (if 0 \<noteq> lastAligningPosS1 \<or> 0 \<noteq> lastAligningPosS2 then
        rbind (OffsetRange_new 0 lastAligningPosS1) (\<lambda>r1.
        rbind (OffsetRange_new 0 lastAligningPosS2) (\<lambda>r2. Inr (Computed [SequenceDiff_new r1 r2])))
      else Inr (Computed []))"
| "path_diffs (Some (SnakePath prev (Some x) (Some y) (Some len))) lastAligningPosS1 lastAligningPosS2 =
     (if x + len \<noteq> lastAligningPosS1 \<or> y + len \<noteq> lastAligningPosS2 then
        rbind (OffsetRange_new (x + len) lastAligningPosS1) (\<lambda>r1.
        rbind (OffsetRange_new (y + len) lastAligningPosS2) (\<lambda>r2.
        rbind (path_diffs prev x y) (\<lambda>ds. Inr (case ds of Computed ds \<Rightarrow> Computed (SequenceDiff_new r1 r2 # ds) | e \<Rightarrow> e))))
      else path_diffs prev x y)"
| "path_diffs _ lastAligningPosS1 lastAligningPosS2 = Inr NotANumber"

definition MyersDiffAlgorithm_compute :: "ISequence \<Rightarrow> ISequence \<Rightarrow> ITimeout \<Rightarrow> DiffAlgorithmResult outcome result option" where
  "MyersDiffAlgorithm_compute s1 s2 timeout =
     (if seq_length s1 = 0 \<or> seq_length s2 = 0 then Some (rbind (DiffAlgorithmResult_trivial s1 s2) (\<lambda>r. Inr (Computed r)))
      else case Myers_loop s1 s2 timeout 0 (Myers_init s1 s2) of
             None \<Rightarrow> None
           | Some (Computed path) \<Rightarrow>
               Some (rbind (path_diffs path (seq_length s1) (seq_length s2)) (\<lambda>ds. Inr (case ds of
                 Computed ds \<Rightarrow> Computed (DiffAlgorithmResult_new (rev ds) False)
               | NotANumber \<Rightarrow> NotANumber
               | TimedOut \<Rightarrow> TimedOut)))
           | Some NotANumber \<Rightarrow> Some (Inr NotANumber)
           | Some TimedOut \<Rightarrow> Some (rbind (DiffAlgorithmResult_trivialTimedOut s1 s2) (\<lambda>r. Inr (Computed r))))"

end
