(* ===== verification/Myers_Steps.thy ===== *)
theory Myers_Steps
  imports Myers_Diff
begin

text \<open>
  One step of Myers' algorithm.  A read behind the end of a typed array happens for some inputs; it spoils the entry of
  one diagonal.  Good entries are reachable points; on the positive side the spoiled ones lie behind a frontier and are
  overwritten (\<open>zone\<close>).
\<close>

section \<open>Reading and writing the state\<close>

definition gv :: "MyersState \<Rightarrow> int \<Rightarrow> int option" where
  "gv st k = FastInt32Array_get (V st) k"

definition gp :: "MyersState \<Rightarrow> int \<Rightarrow> SnakePath option" where
  "gp st k = FastArrayNegativeIndices_get (paths st) k"

definition plen :: "MyersState \<Rightarrow> int" where
  "plen st = int (length (positiveArr (V st)))"

definition nlen :: "MyersState \<Rightarrow> int" where
  "nlen st = int (length (negativeArr (V st)))"

lemma gv_defined: "gv st k \<noteq> None \<longleftrightarrow> (if k < 0 then - k - 1 < nlen st else k < plen st)"
  by (auto simp: gv_def FastInt32Array_get_def js_at_def nlen_def plen_def)

definition put :: "MyersState \<Rightarrow> int \<Rightarrow> int option \<Rightarrow> SnakePath option \<Rightarrow> MyersState" where
  "put st k v p = \<lparr>V = FastInt32Array_set (V st) k v, paths = FastArrayNegativeIndices_set (paths st) k p\<rparr>"

text \<open>The lengths stay multiples of ten and grow by doubling.\<close>

definition arrays_ok :: "MyersState \<Rightarrow> bool" where
  "arrays_ok st \<longleftrightarrow> 10 dvd plen st \<and> 10 dvd nlen st \<and> 0 < plen st \<and> 0 < nlen st"

lemma js_at_write:
  "0 \<le> i \<Longrightarrow> js_at (int32_write xs i v) j =
     (if j = i \<and> i < int (length xs) then Some (case v of Some n \<Rightarrow> to_int32 n | None \<Rightarrow> 0) else js_at xs j)"
  by (auto simp: int32_write_def js_at_def nth_list_update eq_nat_nat_iff)

lemma js_at_grown:
  "js_at (grown xs i) j = (if i \<ge> int (length xs) \<and> int (length xs) \<le> j \<and> j < 2 * int (length xs) then Some 0 else js_at xs j)"
  by (auto simp: grown_def js_at_def nth_append)

lemma length_grown: "length (grown xs i) = (if i \<ge> int (length xs) then 2 * length xs else length xs)"
  by (simp add: grown_def)

lemma length_write [simp]: "length (int32_write xs i v) = length xs"
  by (simp add: int32_write_def)

lemma put_lengths:
  "plen (put st k v p) = (if 0 \<le> k \<and> plen st \<le> k then 2 * plen st else plen st)"
  "nlen (put st k v p) = (if k < 0 \<and> nlen st \<le> - k - 1 then 2 * nlen st else nlen st)"
  by (simp_all add: put_def plen_def nlen_def FastInt32Array_set_def length_grown)

lemma put_arrays: "arrays_ok st \<Longrightarrow> arrays_ok (put st k v p)"
  by (auto simp: arrays_ok_def put_lengths)

lemma gv_put_same:
  assumes "if k < 0 then - k - 1 < 2 * nlen st else k < 2 * plen st" and "case v of Some n \<Rightarrow> is_int32 n | None \<Rightarrow> True"
  shows "gv (put st k v p) k = Some (case v of Some n \<Rightarrow> n | None \<Rightarrow> 0)"
  using assms
  by (auto simp: put_def gv_def FastInt32Array_set_def FastInt32Array_get_def js_at_write length_grown nlen_def plen_def simp del: js_at_in split: option.splits)

lemma gv_put_same_cases:
  assumes "case v of Some n \<Rightarrow> is_int32 n | None \<Rightarrow> True"
  shows "gv (put st k v p) k \<in> {None, Some (case v of Some n \<Rightarrow> n | None \<Rightarrow> 0)}"
  using assms
  by (auto simp: put_def gv_def FastInt32Array_set_def FastInt32Array_get_def js_at_write js_at_grown length_grown simp del: js_at_in split: option.splits if_splits)

lemma gv_put_other:
  assumes "j \<noteq> k"
  shows "gv st j = Some w \<Longrightarrow> gv (put st k v p) j = Some w"
    and "gv st j = None \<Longrightarrow> gv (put st k v p) j \<in> {None, Some 0}"
  using assms
  by (auto simp: put_def gv_def FastInt32Array_set_def FastInt32Array_get_def js_at_write js_at_grown simp del: js_at_in split: if_splits)

lemma gp_put: "gp (put st k v p) j = (if j = k then p else gp st j)"
  by (simp add: put_def gp_def FastArrayNegativeIndices_set_def FastArrayNegativeIndices_get_def)

section \<open>Snakes and steps\<close>

text \<open>The inputs that reach the loops: neither sequence is empty, and lengths fit into 32 bits.\<close>

definition myers_input :: "ISequence \<Rightarrow> ISequence \<Rightarrow> int \<Rightarrow> int \<Rightarrow> bool" where
  "myers_input s1 s2 N M \<longleftrightarrow> seq_wf s1 \<and> seq_wf s2 \<and> seq_length s1 = N \<and> seq_length s2 = M \<and> 0 < N \<and> 0 < M \<and> N < 2147483648"

lemma input_lengths:
  assumes "myers_input s1 s2 N M"
  shows "seq_length s1 = N" "seq_length s2 = M" "0 < N" "0 < M" "0 \<le> v \<and> v \<le> N \<longrightarrow> is_int32 v"
  using assms by (auto simp: myers_input_def is_int32_def)

lemma snake_spec:
  assumes inp: "myers_input s1 s2 N M" and "x \<le> N" and "y \<le> M"
  shows "x \<le> getXAfterSnake s1 s2 x y \<and> getXAfterSnake s1 s2 x y \<le> N \<and> getXAfterSnake s1 s2 x y - x + y \<le> M \<and>
    matches s1 s2 x y (getXAfterSnake s1 s2 x y - x)"
  using assms(2,3)
proof (induction "nat (N - x)" arbitrary: x y)
  case 0
  then have "getXAfterSnake s1 s2 x y = x" using input_lengths(1) [OF inp] by (subst getXAfterSnake.simps) simp
  then show ?case using 0 by simp
next
  case (Suc n)
  show ?case
  proof (cases "x < N \<and> y < M \<and> getElement s1 x = getElement s2 y")
    case True
    then have eq: "getXAfterSnake s1 s2 x y = getXAfterSnake s1 s2 (x + 1) (y + 1)"
      using input_lengths(1,2) [OF inp] by (subst getXAfterSnake.simps) simp
    let ?n = "getXAfterSnake s1 s2 (x + 1) (y + 1)"
    have IH: "x + 1 \<le> ?n \<and> ?n \<le> N \<and> ?n - (x + 1) + (y + 1) \<le> M \<and> matches s1 s2 (x + 1) (y + 1) (?n - (x + 1))"
      using Suc.hyps(1) [of "x + 1" "y + 1"] Suc.hyps(2) True by simp
    have "matches s1 s2 x y 1" using True by (simp add: matches_def)
    then have "matches s1 s2 x y (1 + (?n - (x + 1)))" using IH by (intro matches_join) auto
    then show ?thesis unfolding eq using IH by simp
  next
    case False
    then have "getXAfterSnake s1 s2 x y = x" using input_lengths(1,2) [OF inp] by (subst getXAfterSnake.simps) auto
    then show ?thesis using Suc.prems by simp
  qed
qed

lemma snake_stuck:
  assumes inp: "myers_input s1 s2 N M" and "N \<le> x \<or> M \<le> y \<or> 0 \<le> x \<and> y < 0"
  shows "getXAfterSnake s1 s2 x y = x"
proof -
  have "getElement s1 x \<noteq> getElement s2 y" if "0 \<le> x" "x < N" "y < 0"
  proof -
    have "getElement s1 x \<noteq> None" "\<not> getElement s2 y \<noteq> None"
      using inp that unfolding myers_input_def seq_wf_def by (blast, metis not_less)
    then show ?thesis by auto
  qed
  then show ?thesis using assms(2) input_lengths(1,2) [OF inp] by (subst getXAfterSnake.simps) auto
qed

definition top_of :: "MyersState \<Rightarrow> int \<Rightarrow> int \<Rightarrow> int option" where
  "top_of st up k = (if k = up then Some (- 1) else gv st (k + 1))"

definition left_of :: "MyersState \<Rightarrow> int \<Rightarrow> int \<Rightarrow> int option" where
  "left_of st lo k = (if k = lo then Some (- 1) else map_option (\<lambda>x. x + 1) (gv st (k - 1)))"

definition x_of :: "ISequence \<Rightarrow> MyersState \<Rightarrow> int \<Rightarrow> int \<Rightarrow> int \<Rightarrow> int option" where
  "x_of s1 st lo up k =
     (case (top_of st up k, left_of st lo k) of (Some t, Some l) \<Rightarrow> Some (min (max t l) (seq_length s1)) | _ \<Rightarrow> None)"

lemma Myers_step_folded:
  "Myers_step s1 s2 lo up k st =
     (let x = x_of s1 st lo up k; y = map_option (\<lambda>x. x - k) x
      in if (\<exists>n \<in> set_option x. n > seq_length s1) \<or> (\<exists>n \<in> set_option y. n > seq_length s2) then (st, False)
         else
           (let newMaxX = map_option (\<lambda>x. getXAfterSnake s1 s2 x (x - k)) x;
                lastPath = (if x \<noteq> None \<and> x = top_of st up k then gp st (k + 1) else gp st (k - 1));
                st' = put st k newMaxX
                       (if newMaxX = None \<or> newMaxX \<noteq> x
                        then Some (SnakePath lastPath x y (case (newMaxX, x) of (Some n, Some x) \<Rightarrow> Some (n - x) | _ \<Rightarrow> None))
                        else lastPath)
            in (st', gv st' k = Some (seq_length s1) \<and> seq_length s1 - k = seq_length s2)))"
  by (simp only: Myers_step_def top_of_def left_of_def x_of_def gv_def gp_def put_def Let_def MyersState.simps)

text \<open>The three outcomes of a step: a skipped diagonal, a spoiled one and a regular one.\<close>

lemma step_skip:
  assumes "myers_input s1 s2 N M" and "top_of st up k = Some t" "left_of st lo k = Some l" and "M < min (max t l) N - k"
  shows "Myers_step s1 s2 lo up k st = (st, False)"
  using assms(4) by (simp add: Myers_step_folded x_of_def assms(2,3) input_lengths(1,2) [OF assms(1)])

lemma step_spoiled:
  assumes "myers_input s1 s2 N M" and "top_of st up k = None \<or> left_of st lo k = None"
  shows "Myers_step s1 s2 lo up k st = (put st k None (Some (SnakePath (gp st (k - 1)) None None None)), False)"
proof -
  have x: "x_of s1 st lo up k = None" using assms(2) by (auto simp: x_of_def split: option.splits)
  have "gv (put st k None p) k \<noteq> Some N" for p using gv_put_same_cases [of None st k p] input_lengths(3) [OF assms(1)] by auto
  then show ?thesis by (simp add: Myers_step_folded x input_lengths(1,2) [OF assms(1)])
qed

definition next_path :: "MyersState \<Rightarrow> int \<Rightarrow> int \<Rightarrow> int \<Rightarrow> int \<Rightarrow> SnakePath option" where
  "next_path st k t x n =
     (let lastPath = (if x = t then gp st (k + 1) else gp st (k - 1))
      in if n \<noteq> x then Some (SnakePath lastPath (Some x) (Some (x - k)) (Some (n - x))) else lastPath)"

lemma step_regular:
  assumes "myers_input s1 s2 N M" and "top_of st up k = Some t" "left_of st lo k = Some l" and "x = min (max t l) N" and "x - k \<le> M"
    and "n = getXAfterSnake s1 s2 x (x - k)"
  shows "Myers_step s1 s2 lo up k st =
    (put st k (Some n) (next_path st k t x n), gv (put st k (Some n) (next_path st k t x n)) k = Some N \<and> N - k = M)"
proof -
  have x: "x_of s1 st lo up k = Some x" by (simp add: x_of_def assms(2-4) input_lengths(1) [OF assms(1)])
  have "x \<le> N" using assms(4) by simp
  then show ?thesis
    using assms(5) by (simp add: Myers_step_folded x assms(2,6) input_lengths(1,2) [OF assms(1)] next_path_def Let_def)
qed

section \<open>Good entries and spoiled ones\<close>

fun path_end :: "SnakePath option \<Rightarrow> int \<times> int" where
  "path_end (Some (SnakePath prev (Some x) (Some y) (Some n))) = (x + n, y + n)"
| "path_end _ = (0, 0)"

text \<open>A chain of snakes, each behind the end of the one before.\<close>

fun path_ok :: "ISequence \<Rightarrow> ISequence \<Rightarrow> SnakePath option \<Rightarrow> bool" where
  "path_ok s1 s2 None \<longleftrightarrow> True"
| "path_ok s1 s2 (Some (SnakePath prev (Some x) (Some y) (Some n))) \<longleftrightarrow>
     0 < n \<and> x + n \<le> seq_length s1 \<and> y + n \<le> seq_length s2 \<and> matches s1 s2 x y n \<and>
     fst (path_end prev) \<le> x \<and> snd (path_end prev) \<le> y \<and> path_ok s1 s2 prev"
| "path_ok s1 s2 _ \<longleftrightarrow> False"

text \<open>A good entry is a reachable point: its path ends before it.  At the end of the first sequence the clamp may have
  moved the point back, but no snake starts there.\<close>

definition good :: "ISequence \<Rightarrow> ISequence \<Rightarrow> MyersState \<Rightarrow> int \<Rightarrow> bool" where
  "good s1 s2 st k \<longleftrightarrow> (\<exists>v. gv st k = Some v \<and> 0 \<le> v \<and> min k (seq_length s1) \<le> v \<and> v \<le> seq_length s1 \<and> v - k \<le> seq_length s2 \<and>
     path_ok s1 s2 (gp st k) \<and> (v < seq_length s1 \<longrightarrow> fst (path_end (gp st k)) \<le> v \<and> snd (path_end (gp st k)) \<le> v - k))"

text \<open>A spoiled entry on the positive side is far too small.\<close>

definition low :: "MyersState \<Rightarrow> int \<Rightarrow> bool" where
  "low st k \<longleftrightarrow> 2 \<le> k \<and> (\<exists>v. gv st k = Some v \<and> 0 \<le> v \<and> v \<le> k - 2)"

definition shape :: "ISequence \<Rightarrow> ISequence \<Rightarrow> MyersState \<Rightarrow> bool" where
  "shape s1 s2 st \<longleftrightarrow> (\<forall>k v. - seq_length s2 \<le> k \<and> gv st k = Some v \<longrightarrow> 0 \<le> v \<and> v \<le> seq_length s1 \<and> v - k \<le> seq_length s2)"

text \<open>From \<open>b\<close> on: good up to \<open>g\<close>, low up to \<open>u\<close>, at most two of these, and unwritten behind.\<close>

definition zone :: "ISequence \<Rightarrow> ISequence \<Rightarrow> MyersState \<Rightarrow> int \<Rightarrow> int \<Rightarrow> int \<Rightarrow> bool" where
  "zone s1 s2 st b g u \<longleftrightarrow> b \<le> g \<and> 0 \<le> g \<and> g \<le> u \<and> u - 2 \<le> g \<and>
     (\<forall>j. b \<le> j \<and> j \<le> g \<longrightarrow> good s1 s2 st j) \<and> (\<forall>j. g < j \<and> j \<le> u \<longrightarrow> low st j) \<and>
     (\<forall>j. u < j \<longrightarrow> gv st j = None \<or> gv st j = Some 0)"

lemma good_put_other: "good s1 s2 st j \<Longrightarrow> j \<noteq> k \<Longrightarrow> good s1 s2 (put st k v p) j"
  by (auto simp: good_def gp_put gv_put_other(1))

lemma low_put_other: "low st j \<Longrightarrow> j \<noteq> k \<Longrightarrow> low (put st k v p) j"
  by (auto simp: low_def gv_put_other(1))

lemma unwritten_put:
  "gv st j = None \<or> gv st j = Some 0 \<Longrightarrow> j \<noteq> k \<Longrightarrow> gv (put st k v p) j = None \<or> gv (put st k v p) j = Some 0"
  using gv_put_other [of j k st] by (elim disjE) auto

lemma zone_put_outside:
  assumes "zone s1 s2 st b g u" and "k < b"
  shows "zone s1 s2 (put st k v p) b g u"
  unfolding zone_def
proof (intro conjI allI impI)
  fix j
  show "good s1 s2 (put st k v p) j" if "b \<le> j \<and> j \<le> g" using assms that by (auto simp: zone_def intro: good_put_other)
  show "low (put st k v p) j" if "g < j \<and> j \<le> u" using assms that by (auto simp: zone_def intro: low_put_other)
  show "gv (put st k v p) j = None \<or> gv (put st k v p) j = Some 0" if "u < j"
    using assms that unfolding zone_def by (intro unwritten_put) auto
qed (use assms in \<open>auto simp: zone_def\<close>)

lemma good_put:
  assumes inp: "myers_input s1 s2 N M" and x: "0 \<le> x" "x \<le> N" "x - k \<le> M" "min k N \<le> x"
    and p: "path_ok s1 s2 p" "x < N \<longrightarrow> fst (path_end p) \<le> x \<and> snd (path_end p) \<le> x - k"
    and last: "p = (if x = t then gp st (k + 1) else gp st (k - 1))"
    and cap: "if k < 0 then - k - 1 < 2 * nlen st else k < 2 * plen st"
    and n: "n = getXAfterSnake s1 s2 x (x - k)"
  shows "good s1 s2 (put st k (Some n) (next_path st k t x n)) k" and "gv (put st k (Some n) (next_path st k t x n)) k = Some n"
    and "x \<le> n" "n \<le> N" "n - k \<le> M"
proof -
  have sn: "x \<le> n" "n \<le> N" "n - k \<le> M" "matches s1 s2 x (x - k) (n - x)" using snake_spec [OF inp x(2,3)] n by auto
  show "x \<le> n" "n \<le> N" "n - k \<le> M" by (fact sn)+
  have "case Some n of Some m \<Rightarrow> is_int32 m | None \<Rightarrow> True" using input_lengths(5) [OF inp, of n] x(1) sn(1,2) by simp
  from gv_put_same [OF cap this] show gv: "gv (put st k (Some n) (next_path st k t x n)) k = Some n" by simp
  have strict: "x < N" if "n \<noteq> x" using that snake_stuck [OF inp, of x "x - k"] n x(2) by force
  have np: "next_path st k t x n = (if n \<noteq> x then Some (SnakePath p (Some x) (Some (x - k)) (Some (n - x))) else p)"
    by (simp add: next_path_def last Let_def)
  show "good s1 s2 (put st k (Some n) (next_path st k t x n)) k"
    using gv sn x p strict by (auto simp: good_def gp_put np input_lengths(1,2) [OF inp])
qed

text \<open>Every step is a skip or one write.\<close>

lemma step_put:
  assumes inp: "myers_input s1 s2 N M"
  obtains "Myers_step s1 s2 lo up k st = (st, False)"
    | v p f where "Myers_step s1 s2 lo up k st = (put st k v p, f)" "f \<longrightarrow> gv (put st k v p) k = Some N \<and> N - k = M"
proof (cases "top_of st up k = None \<or> left_of st lo k = None")
  case True
  from step_spoiled [OF inp this] that(2) show thesis by blast
next
  case False
  then obtain t l where tl: "top_of st up k = Some t" "left_of st lo k = Some l" by auto
  show thesis
  proof (cases "M < min (max t l) N - k")
    case True
    from step_skip [OF inp tl this] that(1) show thesis by blast
  next
    case False
    then have "min (max t l) N - k \<le> M" by simp
    from step_regular [OF inp tl refl this refl] that(2) show thesis by blast
  qed
qed

lemma shapeD:
  assumes "myers_input s1 s2 N M" and "shape s1 s2 st" and "gv st k = Some v" and "- M \<le> k"
  shows "0 \<le> v \<and> v \<le> N \<and> v - k \<le> M"
  using assms(2-4) unfolding shape_def input_lengths(1,2) [OF assms(1)] by blast

lemma shape_put:
  assumes inp: "myers_input s1 s2 N M" and sh: "shape s1 s2 st" and m: "(case v of Some n \<Rightarrow> n | None \<Rightarrow> 0) = m" "0 \<le> m" "m \<le> N" "m - k \<le> M"
  shows "shape s1 s2 (put st k v p)"
  unfolding shape_def
proof (intro allI impI)
  fix j w assume jw: "- seq_length s2 \<le> j \<and> gv (put st k v p) j = Some w"
  have int: "case v of Some n \<Rightarrow> is_int32 n | None \<Rightarrow> True" using m input_lengths(5) [OF inp, of m] by (auto split: option.splits)
  show "0 \<le> w \<and> w \<le> seq_length s1 \<and> w - j \<le> seq_length s2"
  proof (cases "j = k")
    case True
    then show ?thesis using jw gv_put_same_cases [OF int, of st k p] m input_lengths(1,2) [OF inp] by auto
  next
    case False
    show ?thesis
    proof (cases "gv st j")
      case None
      then have "w = 0" using gv_put_other(2) [OF False None, of v p] jw by auto
      then show ?thesis using jw input_lengths [OF inp] by simp
    next
      case (Some z)
      then have "w = z" using gv_put_other(1) [OF False Some, of v p] jw by simp
      then show ?thesis using shapeD [OF inp sh Some] jw input_lengths(1,2) [OF inp] by simp
    qed
  qed
qed

lemma shape_step:
  assumes inp: "myers_input s1 s2 N M" and sh: "shape s1 s2 st" and k: "- M \<le> k" "lo \<le> k" "k \<le> up" "lo < up" "k \<noteq> lo \<longrightarrow> - M < k"
    and st': "Myers_step s1 s2 lo up k st = (st', f)"
  shows "shape s1 s2 st'"
proof (cases "top_of st up k = None \<or> left_of st lo k = None")
  case True
  then have "st' = put st k None (Some (SnakePath (gp st (k - 1)) None None None))" using step_spoiled [OF inp True] st' by simp
  then show ?thesis using shape_put [OF inp sh] k(1) input_lengths(3) [OF inp] by simp
next
  case False
  then obtain t l where tl: "top_of st up k = Some t" "left_of st lo k = Some l" by auto
  let ?x = "min (max t l) N"
  have t: "k \<noteq> up \<longrightarrow> 0 \<le> t" using tl(1) shapeD [OF inp sh, of "k + 1" t] k(1) by (auto simp: top_of_def)
  have l: "k \<noteq> lo \<longrightarrow> 0 \<le> l" using tl(2) shapeD [OF inp sh, of "k - 1"] k(5) by (fastforce simp: left_of_def)
  have x: "0 \<le> ?x" "?x \<le> N" using t l k(4) input_lengths(3) [OF inp] by auto
  show ?thesis
  proof (cases "M < ?x - k")
    case True
    then show ?thesis using step_skip [OF inp tl True] st' sh by simp
  next
    case skip: False
    then have xk: "?x - k \<le> M" by simp
    note sn = snake_spec [OF inp x(2) xk]
    have "st' = put st k (Some (getXAfterSnake s1 s2 ?x (?x - k))) (next_path st k t ?x (getXAfterSnake s1 s2 ?x (?x - k)))"
      using step_regular [OF inp tl refl xk refl] st' by simp
    moreover have "0 \<le> getXAfterSnake s1 s2 ?x (?x - k)" using sn x(1) by linarith
    ultimately show ?thesis using shape_put [OF inp sh] sn by simp
  qed
qed

section \<open>One step inside the zone\<close>

lemma good_from_left:
  assumes inp: "myers_input s1 s2 N M" and "good s1 s2 st (k - 1)" and "gv st (k - 1) = Some v" and x: "x = min (v + 1) N"
  shows "path_ok s1 s2 (gp st (k - 1))" and "x < N \<longrightarrow> fst (path_end (gp st (k - 1))) \<le> x \<and> snd (path_end (gp st (k - 1))) \<le> x - k"
    and "0 \<le> x" "x \<le> N" "x - k \<le> M" "min k N \<le> x" "0 \<le> v"
  using assms(2,3) unfolding x good_def input_lengths(1,2) [OF inp] using input_lengths(3) [OF inp] by auto

lemma good_from_top:
  assumes inp: "myers_input s1 s2 N M" and "good s1 s2 st (k + 1)" and "gv st (k + 1) = Some t"
  shows "path_ok s1 s2 (gp st (k + 1))" and "t < N \<longrightarrow> fst (path_end (gp st (k + 1))) \<le> t \<and> snd (path_end (gp st (k + 1))) \<le> t - k"
    and "0 \<le> t" "t \<le> N" "t - k \<le> M + 1" "min k N \<le> t"
  using assms(2,3) unfolding good_def input_lengths(1,2) [OF inp] by auto

lemma zone_good:
  assumes "zone s1 s2 st b g u" and "b \<le> j" and "j \<le> g"
  shows "good s1 s2 st j"
  using assms by (simp add: zone_def)

lemma zone_low:
  assumes "zone s1 s2 st b g u" and "g < j" and "j \<le> u"
  shows "low st j"
  using assms by (simp add: zone_def)

lemma zone_unwritten:
  assumes "zone s1 s2 st b g u" and "u < j"
  shows "gv st j = None \<or> gv st j = Some 0"
  using assms by (simp add: zone_def)

lemma zone_put_good:
  assumes z: "zone s1 s2 st b g u" and k: "b \<le> k" "k \<le> g + 1" "k \<le> u" and gd: "good s1 s2 (put st k v p) k"
  shows "zone s1 s2 (put st k v p) b (max g k) u"
  unfolding zone_def
proof (intro conjI allI impI)
  fix j
  show "good s1 s2 (put st k v p) j" if "b \<le> j \<and> j \<le> max g k"
    using z that k gd by (cases "j = k") (auto simp: zone_def intro: good_put_other)
  show "low (put st k v p) j" if "max g k < j \<and> j \<le> u" using z that by (auto simp: zone_def intro: low_put_other)
  show "gv (put st k v p) j = None \<or> gv (put st k v p) j = Some 0" if "u < j"
    using z that k unfolding zone_def by (intro unwritten_put) auto
qed (use z k in \<open>auto simp: zone_def\<close>)

text \<open>In front of the frontier a step gives a good entry, or the entry is good and is skipped.\<close>

lemma zone_step_inner:
  assumes inp: "myers_input s1 s2 N M" and z: "zone s1 s2 st b g u" and b: "b < k \<or> k = lo \<and> b = k" and lo: "lo < 0" "lo \<le> k" "lo < up"
    and k: "k < u" "u \<le> N + 1"
  obtains "Myers_step s1 s2 lo up k st = (st, False)" "k \<le> g" "k \<noteq> up" "gv st (k + 1) = Some (M + k + 1)"
  | v p f where "Myers_step s1 s2 lo up k st = (put st k v p, f)" "good s1 s2 (put st k v p) k" "zone s1 s2 (put st k v p) b (max g k) u"
      "f \<longrightarrow> gv (put st k v p) k = Some N \<and> N - k = M"
proof -
  have zz: "b \<le> g" "0 \<le> g" "g \<le> u" "u - 2 \<le> g" using z by (auto simp: zone_def)
  have entry: "good s1 s2 st (k + 1) \<and> k + 1 \<le> g \<or> low st (k + 1)"
    using z b k by (cases "k + 1 \<le> g") (auto simp: zone_def)
  obtain t where t: "top_of st up k = Some t" "k = up \<and> t = - 1 \<or> k \<noteq> up \<and> gv st (k + 1) = Some t"
    using entry by (cases "k = up") (auto simp: top_of_def good_def low_def)
  have left: "k = lo \<or> good s1 s2 st (k - 1)" using z b k zz by (auto simp: zone_def)
  obtain l where l: "left_of st lo k = Some l" "k = lo \<and> l = - 1 \<or> k \<noteq> lo \<and> gv st (k - 1) = Some (l - 1)"
  proof (cases "k = lo")
    case False
    then obtain w where "gv st (k - 1) = Some w" using left by (auto simp: good_def)
    then show thesis using that [of "w + 1"] False by (simp add: left_of_def)
  qed (use that in \<open>simp add: left_of_def\<close>)
  have cap: "if k < 0 then - k - 1 < 2 * nlen st else k < 2 * plen st"
  proof (cases "k \<le> g")
    case True
    then have "good s1 s2 st k" using z b by (auto simp: zone_def)
    then have "gv st k \<noteq> None" by (auto simp: good_def)
    then show ?thesis using gv_defined [of st k] by (auto split: if_splits)
  next
    case False
    then have "low st u" "low st k" using z k by (auto simp: zone_def)
    then have "gv st k \<noteq> None" "2 \<le> k" by (auto simp: low_def)
    then show ?thesis using gv_defined [of st k] by (auto split: if_splits)
  qed
  let ?x = "min (max t l) N"
  have source: "(\<exists>p. (p = (if ?x = t then gp st (k + 1) else gp st (k - 1))) \<and> path_ok s1 s2 p \<and>
      (?x < N \<longrightarrow> fst (path_end p) \<le> ?x \<and> snd (path_end p) \<le> ?x - k)) \<and> 0 \<le> ?x \<and> min k N \<le> ?x \<and>
      (M < ?x - k \<longrightarrow> ?x = t \<and> good s1 s2 st (k + 1) \<and> k \<noteq> up \<and> k + 1 \<le> g)"
  proof (cases "?x = t")
    case True
    have "k \<noteq> up" using True t(2) l(2) lo(3) left good_from_left(7) [OF inp, of st k "l - 1"] input_lengths(3) [OF inp] by auto
    moreover have "\<not> low st (k + 1)"
    proof
      assume low: "low st (k + 1)"
      then have tk: "t \<le> k - 1" "1 \<le> k" using t(2) \<open>k \<noteq> up\<close> by (auto simp: low_def)
      then have "gv st (k - 1) = Some (l - 1)" "good s1 s2 st (k - 1)" using l(2) left lo by auto
      then have "min (k - 1) N \<le> l - 1" using inp by (auto simp: good_def myers_input_def)
      then show False using True tk k by (auto simp: min_def max_def split: if_splits)
    qed
    ultimately have top: "good s1 s2 st (k + 1)" "gv st (k + 1) = Some t" "k + 1 \<le> g" "k \<noteq> up" using entry t(2) by auto
    from good_from_top [OF inp top(1,2)] show ?thesis using True top by auto
  next
    case False
    then have lt: "t < l" "?x = min l N"
    proof -
      have "t \<le> N" using t(2) entry good_from_top(4) [OF inp, of st k t] k input_lengths(3) [OF inp] by (auto simp: low_def)
      then show "t < l" "?x = min l N" using False by (auto simp: min_def max_def split: if_splits)
    qed
    have "k \<noteq> lo"
    proof
      assume "k = lo"
      then have "l = - 1" "k \<noteq> up" using l(2) lo by auto
      then show False using lt(1) t(2) entry good_from_top(3) [OF inp, of st k t] by (auto simp: low_def)
    qed
    then have v: "gv st (k - 1) = Some (l - 1)" "good s1 s2 st (k - 1)" using l(2) left by auto
    have "?x = min (l - 1 + 1) N" using lt(2) by simp
    from good_from_left [OF inp v(2,1) this] show ?thesis using False by auto
  qed
  show thesis
  proof (cases "M < ?x - k")
    case True
    then have top: "?x = t" "good s1 s2 st (k + 1)" "k \<noteq> up" "k + 1 \<le> g" using source by auto
    then have "gv st (k + 1) = Some t" using t(2) by simp
    then have "t = M + k + 1" using good_from_top(5) [OF inp top(2)] True top(1) by simp
    then show thesis using step_skip [OF inp t(1) l(1) True] that(1) top \<open>gv st (k + 1) = Some t\<close> by simp
  next
    case False
    then have xk: "?x - k \<le> M" by simp
    obtain p where p: "p = (if ?x = t then gp st (k + 1) else gp st (k - 1))" "path_ok s1 s2 p"
      "?x < N \<longrightarrow> fst (path_end p) \<le> ?x \<and> snd (path_end p) \<le> ?x - k" using source by blast
    let ?n = "getXAfterSnake s1 s2 ?x (?x - k)"
    have gd: "good s1 s2 (put st k (Some ?n) (next_path st k t ?x ?n)) k"
      by (rule good_put(1) [OF inp _ _ xk _ p(2,3,1) cap refl]) (use source in auto)
    have "zone s1 s2 (put st k (Some ?n) (next_path st k t ?x ?n)) b (max g k) u"
      by (rule zone_put_good [OF z _ _ _ gd]) (use b zz k in auto)
    then show thesis using that(2) step_regular [OF inp t(1) l(1) refl xk refl] gd by blast
  qed
qed

lemma zone_plen:
  assumes "zone s1 s2 st b g u"
  shows "u < plen st"
proof -
  have "0 \<le> u" "b \<le> u" "g \<le> u" using assms by (simp_all add: zone_def)
  then have "good s1 s2 st u \<or> low st u" using zone_good [OF assms, of u] zone_low [OF assms, of u] by linarith
  then have "gv st u \<noteq> None" by (auto simp: good_def low_def)
  with \<open>0 \<le> u\<close> show ?thesis using gv_defined [of st u] by simp
qed

lemma zone_put_frontier:
  assumes z: "zone s1 s2 st b g u" and k: "u \<le> k" "k \<le> u + 1" "k - 2 \<le> h" "b \<le> h" "0 \<le> h" "h \<le> k"
    and h: "h = k \<and> good s1 s2 (put st k v p) k \<and> k - 1 \<le> g \<or> h < k \<and> h = min g (k - 1) \<and> low (put st k v p) k"
  shows "zone s1 s2 (put st k v p) b h k"
proof -
  have "good s1 s2 (put st k v p) j" if "b \<le> j" "j \<le> h" for j
  proof (cases "j = k")
    case False
    then have "j \<le> g" using that h by auto
    then show ?thesis using good_put_other [OF zone_good [OF z that(1)] False] by blast
  qed (use that h in auto)
  moreover have "low (put st k v p) j" if "h < j" "j \<le> k" for j
  proof (cases "j = k")
    case False
    then have "g < j" "j \<le> u" using that h k by auto
    then show ?thesis using low_put_other [OF zone_low [OF z] False] by blast
  qed (use that h in auto)
  moreover have "gv (put st k v p) j = None \<or> gv (put st k v p) j = Some 0" if "k < j" for j
    by (rule unwritten_put [OF zone_unwritten [OF z]]) (use that k in auto)
  ultimately show ?thesis unfolding zone_def using k by blast
qed

text \<open>At the frontier a step may read behind the array.  It then writes a low entry; otherwise it extends what is on its left.\<close>

lemma zone_step_frontier:
  assumes inp: "myers_input s1 s2 N M" and arr: "arrays_ok st" and z: "zone s1 s2 st b g u" and b: "b < k" and lo: "lo < 0"
    and k: "u \<le> k" "k \<le> u + 1" "k - 2 \<le> g" "k \<le> N + 1"
  obtains v p f h where "Myers_step s1 s2 lo up k st = (put st k v p, f)" "zone s1 s2 (put st k v p) b h k"
      "f \<longrightarrow> gv (put st k v p) k = Some N \<and> N - k = M \<and> good s1 s2 (put st k v p) k"
proof -
  have zz: "b \<le> g" "0 \<le> g" "g \<le> u" using z by (auto simp: zone_def)
  have pl: "u < plen st" by (rule zone_plen [OF z])
  have cap: "if k < 0 then - k - 1 < 2 * nlen st else k < 2 * plen st" using k zz pl by simp
  have top: "top_of st up k \<in> {None, Some (- 1), Some 0}" using zone_unwritten [OF z, of "k + 1"] k(1) by (auto simp: top_of_def)
  have left: "good s1 s2 st (k - 1) \<and> k - 1 \<le> g \<or> low st (k - 1) \<and> g = k - 2" using z k b by (cases "k - 1 \<le> g") (auto simp: zone_def)
  obtain w where w: "gv st (k - 1) = Some w" using left by (auto simp: good_def low_def)
  have lf: "left_of st lo k = Some (w + 1)" using w k zz lo by (simp add: left_of_def)
  show thesis
  proof (cases "top_of st up k")
    case None
    then have "gv st (k + 1) = None" by (auto simp: top_of_def split: if_splits)
    then have "plen st \<le> k + 1" using gv_defined [of st "k + 1"] zz k by auto
    moreover have "10 \<le> plen st" using arr unfolding arrays_ok_def by (meson dvd_imp_le_int order_less_imp_not_eq2 zdvd_imp_le)
    ultimately have "9 \<le> k" by simp
    then have "low (put st k None q) k" for q using gv_put_same [OF cap, of None] by (simp add: low_def)
    then have "zone s1 s2 (put st k None q) b (min g (k - 1)) k" for q
      by (intro zone_put_frontier [OF z k(1,2)]) (use zz b k \<open>9 \<le> k\<close> in auto)
    then show thesis using that step_spoiled [OF inp] None by blast
  next
    case (Some t)
    then have t: "t = - 1 \<or> t = 0" using top by auto
    let ?x = "min (max t (w + 1)) N"
    let ?n = "getXAfterSnake s1 s2 ?x (?x - k)"
    let ?st = "put st k (Some ?n) (next_path st k t ?x ?n)"
    show thesis
    proof (cases "good s1 s2 st (k - 1) \<and> k - 1 \<le> g")
      case True
      then have "0 \<le> w" using w by (auto simp: good_def)
      then have x: "?x = min (w + 1) N" "?x \<noteq> t" using t input_lengths(3) [OF inp] by auto
      note l = good_from_left [OF inp conjunct1 [OF True] w x(1)]
      have gd: "good s1 s2 ?st k"
        by (rule good_put(1) [OF inp l(3-6,1,2) _ cap refl]) (use x(2) in simp)
      have "zone s1 s2 ?st b k k"
        by (rule zone_put_frontier [OF z k(1,2)]) (use True gd b zz k in auto)
      then show thesis using that step_regular [OF inp Some lf refl l(5) refl] gd by blast
    next
      case False
      then have lowk: "low st (k - 1)" "g = k - 2" using left by auto
      then have "0 \<le> w" "w \<le> k - 3" "3 \<le> k" using w by (auto simp: low_def)
      then have x: "?x = w + 1" using t k(4) by (auto simp: min_def max_def)
      have xk: "?x - k \<le> M" using x \<open>w \<le> k - 3\<close> input_lengths(4) [OF inp] by simp
      have n: "?n = ?x" by (rule snake_stuck [OF inp]) (use x \<open>0 \<le> w\<close> \<open>w \<le> k - 3\<close> in simp)
      have "case Some ?n of Some m \<Rightarrow> is_int32 m | None \<Rightarrow> True"
        using input_lengths(5) [OF inp, of ?n] unfolding n using x \<open>0 \<le> w\<close> by simp
      from gv_put_same [OF cap this] have "gv ?st k = Some ?n" by simp
      then have gv: "gv ?st k = Some (w + 1)" using n x by (simp only:)
      then have "low ?st k" using \<open>0 \<le> w\<close> \<open>w \<le> k - 3\<close> \<open>3 \<le> k\<close> by (simp add: low_def)
      then have "zone s1 s2 ?st b g k"
        by (intro zone_put_frontier [OF z k(1,2)]) (use lowk zz b k in auto)
      moreover have "gv ?st k \<noteq> Some N" using gv \<open>w \<le> k - 3\<close> k(4) by simp
      ultimately show thesis using that step_regular [OF inp Some lf refl xk refl] by blast
    qed
  qed
qed

end
