(* ===== verification/Myers_Rounds.thy ===== *)
theory Myers_Rounds
  imports Myers_Steps
begin

text \<open>
  The rounds of Myers' algorithm.  On the negative side the spoiled entries are cut off by two neighbouring diagonals that
  reached the end of the second sequence (\<open>barrier\<close>); without such a pair every entry is good (\<open>open_rows\<close>).  The
  invariant \<open>myers_inv\<close> is one of the two, every round keeps it, and every later round moves the last diagonal at the end
  of the second sequence forwards.
\<close>

section \<open>One round\<close>

text \<open>What a round keeps, and the room it needs.\<close>

definition row :: "ISequence \<Rightarrow> ISequence \<Rightarrow> MyersState \<Rightarrow> int \<Rightarrow> int \<Rightarrow> int \<Rightarrow> bool" where
  "row s1 s2 st b g u \<longleftrightarrow> arrays_ok st \<and> shape s1 s2 st \<and> zone s1 s2 st b g u \<and> - seq_length s2 \<le> b \<and> u \<le> seq_length s1 + 1"

definition bounds :: "ISequence \<Rightarrow> ISequence \<Rightarrow> int \<Rightarrow> int \<Rightarrow> bool" where
  "bounds s1 s2 lo up \<longleftrightarrow> - seq_length s2 - 1 \<le> lo \<and> lo < 0 \<and> 0 < up \<and> up \<le> seq_length s1 + 1"

lemma zone_step:
  assumes inp: "myers_input s1 s2 N M" and r: "row s1 s2 st b g u" and bd: "bounds s1 s2 lo up"
    and b: "b < k \<or> k = lo \<and> b = k" and k: "lo \<le> k" "k \<le> up" "k \<le> u + 1" "k - 2 \<le> g"
  obtains st' f g' where "Myers_step s1 s2 lo up k st = (st', f)" "st' = st \<or> (\<exists>v p. st' = put st k v p)"
    "row s1 s2 st' b g' (max u k)" "k < u \<longrightarrow> k \<le> g'" "f \<longrightarrow> good s1 s2 st' k \<and> gv st' k = Some N \<and> N - k = M"
proof -
  note rr = r [unfolded row_def input_lengths(1,2) [OF inp]] and bb = bd [unfolded bounds_def input_lengths(1,2) [OF inp]]
  have z: "zone s1 s2 st b g u" and g: "0 \<le> g" "g \<le> u" and u: "u \<le> N + 1" and bm: "- M \<le> b" using rr by (auto simp: zone_def)
  have lou: "lo < up" using bb by simp
  have sh: "shape s1 s2 st'" if "Myers_step s1 s2 lo up k st = (st', f)" for st' f
    by (rule shape_step [OF inp _ _ k(1,2) lou _ that]) (use rr b bm in auto)
  show thesis
  proof (cases "k < u")
    case True
    show thesis
    proof (rule zone_step_inner [OF inp z b conjunct1 [OF conjunct2 [OF bb]] k(1) lou True u])
      assume "Myers_step s1 s2 lo up k st = (st, False)" "k \<le> g"
      then show thesis using that [of st False g] r True by simp
    next
      fix v p f
      assume st: "Myers_step s1 s2 lo up k st = (put st k v p, f)" "good s1 s2 (put st k v p) k" "zone s1 s2 (put st k v p) b (max g k) u"
        "f \<longrightarrow> gv (put st k v p) k = Some N \<and> N - k = M"
      then have "row s1 s2 (put st k v p) b (max g k) (max u k)"
        using rr True sh [OF st(1)] put_arrays input_lengths(1,2) [OF inp] by (simp add: row_def)
      then show thesis by (intro that [OF st(1), of "max g k"]) (use st True in auto)
    qed
  next
    case False
    then have "b < k" using b g bb by auto
    obtain v p f h where st: "Myers_step s1 s2 lo up k st = (put st k v p, f)" "zone s1 s2 (put st k v p) b h k"
      "f \<longrightarrow> gv (put st k v p) k = Some N \<and> N - k = M \<and> good s1 s2 (put st k v p) k"
      by (rule zone_step_frontier [OF inp _ z \<open>b < k\<close>, of lo up]) (use rr bb k False in auto)
    then have "row s1 s2 (put st k v p) b h (max u k)"
      using rr bb k False sh [OF st(1)] put_arrays input_lengths(1,2) [OF inp] by (simp add: row_def max_def)
    then show thesis by (intro that [OF st(1), of h]) (use st False in auto)
  qed
qed

text \<open>A round leaves the diagonals of the other parity and those before its start alone.\<close>

definition kept :: "MyersState \<Rightarrow> MyersState \<Rightarrow> int \<Rightarrow> bool" where
  "kept st st' j \<longleftrightarrow> (gv st j \<noteq> None \<longrightarrow> gv st' j = gv st j) \<and> (gv st j = None \<longrightarrow> gv st' j = None \<or> gv st' j = Some 0) \<and>
     gp st' j = gp st j"

lemma kept_refl [simp]: "kept st st j"
  by (simp add: kept_def)

lemma kept_trans: "kept st st' j \<Longrightarrow> kept st' st'' j \<Longrightarrow> kept st st'' j"
  by (auto simp: kept_def)

lemma kept_put: "j \<noteq> k \<Longrightarrow> kept st (put st k v p) j"
  using gv_put_other(2) [of j k st v p] by (auto simp: kept_def gp_put gv_put_other(1))

lemma kept_value: "kept st st' j \<Longrightarrow> gv st j = Some v \<Longrightarrow> gv st' j = Some v"
  by (simp add: kept_def)

definition unfinished :: "ISequence \<Rightarrow> ISequence \<Rightarrow> MyersState \<Rightarrow> bool" where
  "unfinished s1 s2 st \<longleftrightarrow> gv st (seq_length s1 - seq_length s2) \<noteq> Some (seq_length s1)"

lemma unfinished_put:
  assumes inp: "myers_input s1 s2 N M" and "unfinished s1 s2 st" and "k \<noteq> N - M"
  shows "unfinished s1 s2 (put st k v p)"
proof -
  have ne: "N - M \<noteq> k" using assms(3) by simp
  have st: "gv st (N - M) \<noteq> Some N" using assms(2) by (simp add: unfinished_def input_lengths(1,2) [OF inp])
  have "gv (put st k v p) (N - M) \<noteq> Some N"
  proof (cases "gv st (N - M)")
    case None
    show ?thesis using gv_put_other(2) [OF ne None, of v p] input_lengths(3) [OF inp] by fastforce
  next
    case (Some w)
    show ?thesis using gv_put_other(1) [OF ne Some, of v p] st Some by simp
  qed
  then show ?thesis by (simp add: unfinished_def input_lengths(1,2) [OF inp])
qed

lemma unfinished_step:
  assumes inp: "myers_input s1 s2 N M" and "unfinished s1 s2 st" and "Myers_step s1 s2 lo up k st = (st', False)"
  shows "unfinished s1 s2 st'"
proof (cases "top_of st up k = None \<or> left_of st lo k = None")
  case True
  then have st': "st' = put st k None (Some (SnakePath (gp st (k - 1)) None None None))" using step_spoiled [OF inp True] assms(3) by simp
  show ?thesis
  proof (cases "k = N - M")
    case True
    have "gv st' k \<noteq> Some N" 
      using gv_put_same_cases [of None st k "Some (SnakePath (gp st (k - 1)) None None None)"] input_lengths(3) [OF inp] unfolding st' by fastforce
    then show ?thesis using True by (simp add: unfinished_def input_lengths(1,2) [OF inp])
  next
    case False
    show ?thesis unfolding st' by (rule unfinished_put [OF inp assms(2) False])
  qed
next
  case False
  then obtain t l where tl: "top_of st up k = Some t" "left_of st lo k = Some l" by auto
  show ?thesis
  proof (cases "M < min (max t l) N - k")
    case True
    then show ?thesis using step_skip [OF inp tl True] assms(2,3) by simp
  next
    case skip: False
    then have xk: "min (max t l) N - k \<le> M" by simp
    let ?n = "getXAfterSnake s1 s2 (min (max t l) N) (min (max t l) N - k)"
    have st': "st' = put st k (Some ?n) (next_path st k t (min (max t l) N) ?n)" and nf: "gv st' k = Some N \<longrightarrow> N - k \<noteq> M"
      using step_regular [OF inp tl refl xk refl] assms(3) by auto
    show ?thesis
    proof (cases "k = N - M")
      case True
      then show ?thesis using nf by (simp add: unfinished_def input_lengths(1,2) [OF inp])
    next
      case False
      show ?thesis unfolding st' by (rule unfinished_put [OF inp assms(2) False])
    qed
  qed
qed

definition next_frontier :: "int \<Rightarrow> int \<Rightarrow> int \<Rightarrow> int" where
  "next_frontier u up k = (if u + 1 \<le> up \<and> k \<le> u + 1 \<and> even (u + 1 - k) then u + 1 else u)"

lemma next_frontier_step:
  assumes "k \<le> u + 1" and "k \<le> up"
  shows "next_frontier (max u k) up (k + 2) = next_frontier u up k"
proof -
  consider "k < u" | "k = u" | "k = u + 1" using assms(1) by linarith
  then show ?thesis
  proof cases
    case 1
    then have "max u k = u" "k + 2 \<le> u + 1" "k \<le> u + 1" "even (u + 1 - (k + 2)) = even (u + 1 - k)" by (simp, simp, simp, presburger)
    then show ?thesis unfolding next_frontier_def by simp
  qed (use assms(2) in \<open>simp_all add: next_frontier_def\<close>)
qed

text \<open>The part of a round that runs behind the barrier.\<close>

lemma round_above:
  assumes inp: "myers_input s1 s2 N M" and bd: "bounds s1 s2 lo up"
    and "row s1 s2 st b g u" and "b < k \<or> k = lo \<and> b = k" and "lo \<le> k" and "k \<le> u + 1 \<longrightarrow> k - 2 \<le> g"
    and "\<forall>j. k \<le> j \<and> j \<le> up \<and> even (j - k) \<longrightarrow> j \<le> u + 1"
    and "Myers_round s1 s2 lo up k st = (st', res)"
  shows "(\<forall>j. res = Some j \<longrightarrow> good s1 s2 st' j) \<and> (res = None \<longrightarrow> (\<exists>g'. row s1 s2 st' b g' (next_frontier u up k))) \<and>
    (res = None \<longrightarrow> (\<forall>j. j < k \<or> odd (j - k) \<longrightarrow> kept st st' j)) \<and> (res = None \<and> unfinished s1 s2 st \<longrightarrow> unfinished s1 s2 st')"
  using assms(3-)
proof (induction "nat (up + 1 - k)" arbitrary: k st g u rule: less_induct)
  case less
  show ?case
  proof (cases "k \<le> up")
    case False
    then have "st' = st" "res = None" using less.prems(6) by (simp_all add: Myers_round.simps [of s1 s2 lo up k st])
    moreover have "next_frontier u up k = u" using False by (auto simp: next_frontier_def)
    ultimately show ?thesis using less.prems(1) by auto
  next
    case True
    have ku: "k \<le> u + 1" using less.prems(5) True by auto
    obtain s f g' where s: "Myers_step s1 s2 lo up k st = (s, f)" "s = st \<or> (\<exists>v p. s = put st k v p)"
      "row s1 s2 s b g' (max u k)" "k < u \<longrightarrow> k \<le> g'" "f \<longrightarrow> good s1 s2 s k \<and> gv s k = Some N \<and> N - k = M"
      by (rule zone_step [OF inp less.prems(1) bd less.prems(2,3) True ku]) (use less.prems(4) ku in auto)
    have kept: "kept st s j" if "j \<noteq> k" for j using s(2) kept_put [OF that] by auto
    show ?thesis
    proof (cases f)
      case found: True
      then have "st' = s" "res = Some k" using less.prems(6) s(1) True by (simp_all add: Myers_round.simps [of s1 s2 lo up k st])
      then show ?thesis using s(5) found by simp
    next
      case False
      then have run: "Myers_round s1 s2 lo up (k + 2) s = (st', res)"
        using less.prems(6) s(1) True by (simp add: Myers_round.simps [of s1 s2 lo up k st])
      have far: "j \<le> max u k + 1" if "k + 2 \<le> j" "j \<le> up" "even (j - (k + 2))" for j
      proof -
        have "even (j - k)" using that(3) by presburger
        then show ?thesis using less.prems(5) [rule_format, of j] that by simp
      qed
      have bk: "b < k" if "k \<noteq> lo \<or> b \<noteq> k" using less.prems(2) that by auto
      have IH: "(\<forall>j. res = Some j \<longrightarrow> good s1 s2 st' j) \<and> (res = None \<longrightarrow> (\<exists>h. row s1 s2 st' b h (next_frontier (max u k) up (k + 2)))) \<and>
        (res = None \<longrightarrow> (\<forall>j. j < k + 2 \<or> odd (j - (k + 2)) \<longrightarrow> kept s st' j)) \<and> (res = None \<and> unfinished s1 s2 s \<longrightarrow> unfinished s1 s2 st')"
        by (rule less.hyps [OF _ s(3) _ _ _ _ run])
          (use True less.prems(2,3) s(4) far ku in \<open>auto\<close>)
      moreover have "next_frontier (max u k) up (k + 2) = next_frontier u up k" by (rule next_frontier_step [OF ku True])
      moreover have "kept st st' j" if "res = None" "j < k \<or> odd (j - k)" for j
        using IH that kept [of j] kept_trans [of st s j st'] by fastforce
      moreover have "unfinished s1 s2 s" if "unfinished s1 s2 st" using unfinished_step [OF inp that] s(1) False by simp
      ultimately show ?thesis by auto
    qed
  qed
qed

section \<open>Diagonals at the end of the second sequence\<close>

text \<open>The point of the diagonal lies at the end of the second sequence.\<close>

definition bottom :: "ISequence \<Rightarrow> MyersState \<Rightarrow> int \<Rightarrow> bool" where
  "bottom s2 st c \<longleftrightarrow> gv st c = Some (seq_length s2 + c)"

lemma bottom_kept: "kept st st' c \<Longrightarrow> bottom s2 st c \<Longrightarrow> bottom s2 st' c"
  by (simp add: bottom_def kept_value)

lemma step_bottom:
  assumes inp: "myers_input s1 s2 N M" and tl: "top_of st up k = Some t" "left_of st lo k = Some (M + k)" and b: "M + k \<le> N" "t \<le> N"
  shows "M + k < t \<longrightarrow> Myers_step s1 s2 lo up k st = (st, False)"
    and "t \<le> M + k \<longrightarrow> (\<exists>p f. Myers_step s1 s2 lo up k st = (put st k (Some (M + k)) p, f))"
proof -
  show "M + k < t \<longrightarrow> Myers_step s1 s2 lo up k st = (st, False)"
    using step_skip [OF inp tl] b by simp
  show "t \<le> M + k \<longrightarrow> (\<exists>p f. Myers_step s1 s2 lo up k st = (put st k (Some (M + k)) p, f))"
  proof
    assume "t \<le> M + k"
    then have x: "M + k = min (max t (M + k)) N" using b by simp
    have n: "M + k = getXAfterSnake s1 s2 (M + k) (M + k - k)" using snake_stuck [OF inp, of "M + k" "M + k - k"] by simp
    show "\<exists>p f. Myers_step s1 s2 lo up k st = (put st k (Some (M + k)) p, f)"
      using step_regular [OF inp tl x _ n] by auto
  qed
qed

lemma zone_cap:
  assumes "zone s1 s2 st b g u" and "b \<le> k" and "k \<le> u + 1"
  shows "if k < 0 then - k - 1 < 2 * nlen st else k < 2 * plen st"
proof (cases "k < 0")
  case True
  then have "good s1 s2 st k" using assms by (auto simp: zone_def)
  then have "gv st k \<noteq> None" by (auto simp: good_def)
  then show ?thesis using True gv_defined [of st k] by (auto split: if_splits)
next
  case False
  have "0 \<le> u" using assms(1) by (simp add: zone_def)
  then show ?thesis using False zone_plen [OF assms(1)] assms(3) by simp
qed

lemma bottom_bounds:
  assumes inp: "myers_input s1 s2 N M" and r: "row s1 s2 st b g u" and c: "b \<le> c" "bottom s2 st c" "c \<noteq> - M"
  shows "c \<le> u" "0 \<le> M + c" "M + c \<le> N" "c \<le> g"
proof -
  have z: "zone s1 s2 st b g u" and sh: "shape s1 s2 st" and b: "- M \<le> b" using r by (auto simp: row_def input_lengths(2) [OF inp])
  have c': "gv st c = Some (M + c)" using c(2) by (simp add: bottom_def input_lengths(2) [OF inp])
  show cu: "c \<le> u" using zone_unwritten [OF z, of c] c' c(3) by force
  have "- M \<le> c" using b c(1) by simp
  from shapeD [OF inp sh c' this] show "0 \<le> M + c" "M + c \<le> N" by auto
  show "c \<le> g"
  proof (rule ccontr)
    assume "\<not> c \<le> g"
    then have "low st c" using zone_low [OF z _ cu] by simp
    then show False using c' input_lengths(4) [OF inp] by (simp add: low_def)
  qed
qed

text \<open>After a round two neighbours are at the end of the second sequence when one diagonal of the other parity was.\<close>

lemma round_extends:
  assumes inp: "myers_input s1 s2 N M" and bd: "bounds s1 s2 lo up"
    and "row s1 s2 st b g u" and "b < k \<or> k = lo \<and> b = k" and "lo \<le> k" and "k \<le> u + 1 \<longrightarrow> k - 2 \<le> g"
    and "\<forall>j. k \<le> j \<and> j \<le> up \<and> even (j - k) \<longrightarrow> j \<le> u + 1"
    and "Myers_round s1 s2 lo up k st = (st', None)" and "unfinished s1 s2 st"
    and "b \<le> c" "lo \<le> c" "bottom s2 st c" "odd (c - k)" "k \<le> c + 1" "c \<noteq> - M \<or> 0 \<le> u"
    and "\<forall>j. M + j \<le> N \<and> j \<le> u + 1 \<longrightarrow> j \<le> up"
    and "\<forall>j. k \<le> j \<and> j < up \<and> M + j \<le> N \<and> even (j - k) \<longrightarrow> gv st (j + 1) \<noteq> None"
  shows "\<exists>c'\<ge>c. bottom s2 st' c' \<and> bottom s2 st' (c' + 1) \<and> even (c' + 1 - k)"
  using assms(3-)
proof (induction "nat (up + 1 - k)" arbitrary: k st g c rule: less_induct)
  case less
  note len = input_lengths(1,2) [OF inp]
  have z: "zone s1 s2 st b g u" and sh: "shape s1 s2 st" and bM: "- M \<le> b" and arr: "arrays_ok st"
    using less.prems(1) by (auto simp: row_def len)
  have zz: "0 \<le> g" "g \<le> u" using z by (auto simp: zone_def)
  have cu: "c \<le> u" "0 \<le> M + c" "M + c \<le> N"
    using bottom_bounds [OF inp less.prems(1,8,10)] zz bM less.prems(8) input_lengths(3,4) [OF inp] by (cases "c = - M"; auto)+
  have cN: "M + c < N"
  proof (rule ccontr)
    assume "\<not> M + c < N"
    then have "c = N - M" using cu by simp
    then show False using less.prems(7,10) by (simp add: unfinished_def bottom_def len)
  qed
  have cup: "c + 1 \<le> up" using less.prems(14) cN cu(1) by simp
  have kup: "k \<le> up" using cup less.prems(12) by simp
  have ku: "k \<le> u + 1" using less.prems(5) kup by auto
  obtain s f g' where s: "Myers_step s1 s2 lo up k st = (s, f)" "s = st \<or> (\<exists>v p. s = put st k v p)"
    "row s1 s2 s b g' (max u k)" "k < u \<longrightarrow> k \<le> g'"
    by (rule zone_step [OF inp less.prems(1) bd less.prems(2,3) kup ku]) (use less.prems(4) ku in auto)
  have nf: "\<not> f" using less.prems(6) s(1) kup by (auto simp: Myers_round.simps [of s1 s2 lo up k st])
  then have run: "Myers_round s1 s2 lo up (k + 2) s = (st', None)"
    using less.prems(6) s(1) kup by (simp add: Myers_round.simps [of s1 s2 lo up k st])
  have uf: "unfinished s1 s2 s" using unfinished_step [OF inp less.prems(7)] s(1) nf by simp
  have kept: "kept st s j" if "j \<noteq> k" for j using s(2) kept_put [OF that] by auto
  have far: "j \<le> u + 1" if "k + 2 \<le> j" "j \<le> up" "even (j - (k + 2))" for j
  proof -
    have "even (j - k)" using that(3) by presburger
    then show ?thesis using less.prems(5) [rule_format, of j] that by simp
  qed
  have haz: "gv s (j + 1) \<noteq> None" if "k + 2 \<le> j" "j < up" "M + j \<le> N" "even (j - (k + 2))" for j
  proof -
    have "even (j - k)" using that(4) by presburger
    then have "gv st (j + 1) \<noteq> None" using less.prems(15) that by auto
    then show ?thesis using kept [of "j + 1"] that(1) by (auto simp: kept_def)
  qed
  have bk: "b < k + 2" using less.prems(2) by auto
  have up: "nat (up + 1 - (k + 2)) < nat (up + 1 - k)" using kup by simp
  have again: ?case if "c \<le> e" "bottom s2 s e" "odd (e - (k + 2))" "k + 2 \<le> e + 1" "e \<noteq> - M \<or> 0 \<le> u" "k < u" for e
  proof -
    have "max u k = u" using that(6) by simp
    then have "row s1 s2 s b g' u" using s(3) by simp
    from less.hyps [OF up this _ _ _ _ run uf _ _ that(2-5) less.prems(14)] that(1,6) s(4) bk less.prems(3,8,9) far haz
    have "\<exists>c'\<ge>e. bottom s2 st' c' \<and> bottom s2 st' (c' + 1) \<and> even (c' + 1 - (k + 2))" by simp
    then obtain c' where "e \<le> c'" "bottom s2 st' c'" "bottom s2 st' (c' + 1)" "even (c' + 1 - (k + 2))" by blast
    moreover from this(4) have "even (c' + 1 - k)" by presburger
    ultimately show ?thesis using that(1) by (intro exI [of _ c']) auto
  qed
  show ?case
  proof (cases "k = c + 1")
    case False
    then have "k + 2 \<le> c + 1" using less.prems(11,12) by presburger
    moreover from this have "odd (c - (k + 2))" "k < u" using less.prems(11) cu by (presburger, simp)
    ultimately show ?thesis using again [of c] bottom_kept [OF kept less.prems(10)] less.prems(13) by simp
  next
    case True
    have left: "left_of st lo k = Some (M + k)"
      using less.prems(9,10) True by (simp add: left_of_def bottom_def len)
    obtain t where t: "top_of st up k = Some t" "k = up \<and> t = - 1 \<or> k \<noteq> up \<and> gv st (k + 1) = Some t"
      using less.prems(15) [rule_format, of k] kup cN True by (cases "k = up") (auto simp: top_of_def)
    have tN: "t \<le> N" "k \<noteq> up \<longrightarrow> t \<le> M + k + 1"
      using t(2) shapeD [OF inp sh, of "k + 1" t] True less.prems(8) bM input_lengths(3) [OF inp] by auto
    have Mk: "M + k \<le> N" using cN True by simp
    show ?thesis
    proof (cases "M + k < t")
      case skip: True
      then have same: "s = st" using step_bottom(1) [OF inp t(1) left Mk tN(1)] s(1) by simp
      have "k \<noteq> up" "t = M + k + 1" using skip t(2) tN(2) cu True by auto
      then have bt: "bottom s2 s (c + 2)" using t(2) True same by (simp add: bottom_def len algebra_simps)
      have nM: "c + 2 \<noteq> - M" using less.prems(8) bM by simp
      have "c + 2 \<le> u" using bottom_bounds(1) [OF inp less.prems(1) _ _ nM] bt same less.prems(8) by simp
      then show ?thesis using again [of "c + 2"] bt True nM by simp
    next
      case False
      then obtain p where sp: "s = put st k (Some (M + k)) p" using step_bottom(2) [OF inp t(1) left Mk tN(1)] s(1) by auto
      have "case Some (M + k) of Some n \<Rightarrow> is_int32 n | None \<Rightarrow> True" using input_lengths(5) [OF inp, of "M + k"] Mk cu(2) True by simp
      from gv_put_same [OF zone_cap [OF z _ ku] this] have "bottom s2 s k" using True less.prems(8) by (simp add: sp bottom_def len)
      moreover have "bottom s2 s c" using bottom_kept [OF kept less.prems(10)] True by simp
      moreover have kp: "kept s st' j" if "j < k + 2" for j
      proof -
        have "\<forall>j. k + 2 \<le> j \<and> j \<le> up \<and> even (j - (k + 2)) \<longrightarrow> j \<le> max u k + 1" using far by fastforce
        from round_above [OF inp bd s(3) _ _ _ this run] bk less.prems(3) s(4) ku that show ?thesis by auto
      qed
      ultimately have "bottom s2 st' c" "bottom s2 st' (c + 1)"
        using True bottom_kept [OF kp, of c] bottom_kept [OF kp, of "c + 1"] by simp_all
      then show ?thesis using True by (intro exI [of _ c]) simp
    qed
  qed
qed

section \<open>Rounds that start before a barrier\<close>

text \<open>Two neighbours at the end of the second sequence, and the room in front of them.\<close>

definition barrier :: "ISequence \<Rightarrow> ISequence \<Rightarrow> MyersState \<Rightarrow> int \<Rightarrow> int \<Rightarrow> int \<Rightarrow> bool" where
  "barrier s1 s2 st c g u \<longleftrightarrow> row s1 s2 st c g u \<and> bottom s2 st c \<and> bottom s2 st (c + 1)"

lemma barrier_facts:
  assumes inp: "myers_input s1 s2 N M" and p: "barrier s1 s2 st c g u"
  shows "row s1 s2 st c g u" "- M \<le> c" "0 \<le> M + c" "M + c + 1 \<le> N" "c + 1 \<le> g" "c + 1 \<le> u"
    and "gv st c = Some (M + c)" "gv st (c + 1) = Some (M + c + 1)"
proof -
  show r: "row s1 s2 st c g u" and c: "gv st c = Some (M + c)" "gv st (c + 1) = Some (M + c + 1)"
    using p by (auto simp: barrier_def bottom_def input_lengths(2) [OF inp])
  show b: "- M \<le> c" using r by (simp add: row_def input_lengths(2) [OF inp])
  have "bottom s2 st (c + 1)" "c + 1 \<noteq> - M" using p b by (simp_all add: barrier_def)
  from bottom_bounds [OF inp r _ this] show "c + 1 \<le> g" "c + 1 \<le> u" "M + c + 1 \<le> N" by auto
  show "0 \<le> M + c" using b by simp
qed

lemma shape_put_below:
  assumes inp: "myers_input s1 s2 N M" and sh: "shape s1 s2 st" and "k < - M"
  shows "shape s1 s2 (put st k v p)"
  unfolding shape_def
proof (intro allI impI)
  fix j w assume jw: "- seq_length s2 \<le> j \<and> gv (put st k v p) j = Some w"
  then have ne: "j \<noteq> k" using assms(3) input_lengths(2) [OF inp] by simp
  show "0 \<le> w \<and> w \<le> seq_length s1 \<and> w - j \<le> seq_length s2"
  proof (cases "gv st j")
    case None
    then have "w = 0" using gv_put_other(2) [OF ne None, of v p] jw by auto
    then show ?thesis using jw input_lengths [OF inp] by simp
  next
    case (Some z)
    then have "w = z" using gv_put_other(1) [OF ne Some, of v p] jw by simp
    then show ?thesis using shapeD [OF inp sh Some] jw input_lengths(1,2) [OF inp] by simp
  qed
qed

text \<open>A step on a negative diagonal leaves the array long enough for its neighbour.\<close>

lemma step_grows:
  assumes inp: "myers_input s1 s2 N M" and "arrays_ok st" and "gv st (k + 2) \<noteq> None" and "k \<noteq> up"
    and "Myers_step s1 s2 lo up k st = (s, f)"
  shows "gv s (k + 1) \<noteq> None"
proof (cases "0 \<le> k + 1")
  case True
  have grow: "plen st \<le> plen s"
    by (rule step_put [OF inp, of lo up k st]) (use assms(2,5) in \<open>auto simp: put_lengths arrays_ok_def\<close>)
  show ?thesis using True grow assms(3) gv_defined [of s "k + 1"] gv_defined [of st "k + 2"] by (auto split: if_splits)
next
  case False
  have n: "10 \<le> nlen st" using assms(2) by (auto simp: arrays_ok_def dest: zdvd_imp_le)
  have nk: "- k - 2 < nlen st + 1" using False n assms(3) gv_defined [of st "k + 2"] by (auto split: if_splits)
  show ?thesis
  proof (rule step_put [OF inp, of lo up k st])
    assume st: "Myers_step s1 s2 lo up k st = (st, False)"
    have "top_of st up k \<noteq> None"
    proof
      assume "top_of st up k = None"
      then have "put st k None (Some (SnakePath (gp st (k - 1)) None None None)) = st" using step_spoiled [OF inp, of st up k lo] st by simp
      then have "nlen st = nlen (put st k None (Some (SnakePath (gp st (k - 1)) None None None)))" by simp
      then have "- k - 1 < nlen st" using False n by (auto simp: put_lengths split: if_splits)
      then have "gv st (k + 1) \<noteq> None" using False gv_defined [of st "k + 1"] by simp
      with \<open>top_of st up k = None\<close> assms(4) show False by (simp add: top_of_def)
    qed
    then show ?thesis using assms(4,5) st by (simp add: top_of_def)
  next
    fix v p f' assume "Myers_step s1 s2 lo up k st = (put st k v p, f')"
    then have s: "s = put st k v p" using assms(5) by simp
    have "- (k + 1) - 1 < nlen s" using nk n False by (simp add: s put_lengths)
    then show ?thesis using False gv_defined [of s "k + 1"] by simp
  qed
qed

lemma barrier_below:
  assumes inp: "myers_input s1 s2 N M" and lo: "- M - 1 \<le> lo" and "c < up" and "barrier s1 s2 st c g u" and "unfinished s1 s2 st"
    and "lo \<le> k" "even (k - lo)" "k \<le> c + 1" and "k = c \<longrightarrow> k = lo \<or> gv st (c - 1) \<noteq> None"
  shows "\<exists>k' s. Myers_round s1 s2 lo up k st = Myers_round s1 s2 lo up k' s \<and> (k' = c \<or> k' = c + 1) \<and> even (k' - k) \<and> lo \<le> k' \<and>
    barrier s1 s2 s c g u \<and> unfinished s1 s2 s \<and> (\<forall>j\<ge>c. kept st s j) \<and> (k' = c \<longrightarrow> k' = lo \<or> gv s (c - 1) \<noteq> None)"
  using assms(4-)
proof (induction "nat (c + 1 - k)" arbitrary: k st rule: less_induct)
  case less
  note pf = barrier_facts [OF inp less.prems(1)]
  show ?case
  proof (cases "k < c")
    case False
    then show ?thesis using less.prems by (intro exI [of _ k] exI [of _ st]) auto
  next
    case True
    then have kup: "k \<le> up" "k \<noteq> up" using assms(3) by auto
    obtain s f where s: "Myers_step s1 s2 lo up k st = (s, f)" by fastforce
    have sp: "(s = st \<or> (\<exists>v p. s = put st k v p)) \<and> (f \<longrightarrow> gv s k = Some N \<and> N - k = M)"
      by (rule step_put [OF inp, of lo up k st]) (use s in auto)
    have nf: "\<not> f" using sp pf(4) True by auto
    have kp: "kept st s j" if "j \<noteq> k" for j using sp kept_put [OF that] by auto
    have rw: "arrays_ok st" "shape s1 s2 st" "zone s1 s2 st c g u" "u \<le> N + 1"
      using pf(1) by (simp_all add: row_def input_lengths(1) [OF inp])
    have sh: "shape s1 s2 s"
    proof (cases "k < - M")
      case True
      then show ?thesis using sp shape_put_below [OF inp rw(2)] rw(2) by auto
    next
      case k: False
      have "k \<noteq> lo \<longrightarrow> - M < k" using lo less.prems(3,4) k by presburger
      then show ?thesis by (intro shape_step [OF inp rw(2) _ less.prems(3) kup(1) _ _ s]) (use k less.prems(3) kup True in auto)
    qed
    have z: "zone s1 s2 s c g u" using sp zone_put_outside [OF rw(3) True] rw(3) by auto
    have bar: "barrier s1 s2 s c g u"
      using z sh sp put_arrays rw pf(2) less.prems(1) bottom_kept [OF kp] True
      by (auto simp: barrier_def row_def input_lengths(1,2) [OF inp])
    have uf: "unfinished s1 s2 s" using unfinished_step [OF inp less.prems(2)] s nf by simp
    have near: "gv s (c - 1) \<noteq> None" if "k + 2 = c"
    proof -
      have e: "c - 1 = k + 1" using that by simp
      show ?thesis unfolding e by (rule step_grows [OF inp rw(1) _ kup(2) s]) (use pf(7) that in simp)
    qed
    have "\<exists>k' s'. Myers_round s1 s2 lo up (k + 2) s = Myers_round s1 s2 lo up k' s' \<and> (k' = c \<or> k' = c + 1) \<and> even (k' - (k + 2)) \<and> lo \<le> k' \<and>
      barrier s1 s2 s' c g u \<and> unfinished s1 s2 s' \<and> (\<forall>j\<ge>c. kept s s' j) \<and> (k' = c \<longrightarrow> k' = lo \<or> gv s' (c - 1) \<noteq> None)"
      by (rule less.hyps [OF _ bar uf]) (use True less.prems(3,4) near in auto)
    then obtain k' s' where IH: "Myers_round s1 s2 lo up (k + 2) s = Myers_round s1 s2 lo up k' s'" "k' = c \<or> k' = c + 1" "even (k' - (k + 2))" "lo \<le> k'"
      "barrier s1 s2 s' c g u" "unfinished s1 s2 s'" "\<forall>j\<ge>c. kept s s' j" "k' = c \<longrightarrow> k' = lo \<or> gv s' (c - 1) \<noteq> None" by blast
    have "Myers_round s1 s2 lo up k st = Myers_round s1 s2 lo up (k + 2) s"
      using s nf kup by (simp add: Myers_round.simps [of s1 s2 lo up k st])
    moreover have "\<forall>j\<ge>c. kept st s' j" using IH(7) kp kept_trans True by (metis not_less)
    moreover have "even (k' - k)" using IH(3) by presburger
    ultimately show ?thesis using IH by (intro exI [of _ k'] exI [of _ s']) simp
  qed
qed

text \<open>The barrier holds when it is reached: its first diagonal is skipped, its second one keeps its end.\<close>

lemma barrier_first:
  assumes inp: "myers_input s1 s2 N M" and "barrier s1 s2 st c g u" and "c < up" and "c = lo \<or> gv st (c - 1) \<noteq> None"
  shows "Myers_step s1 s2 lo up c st = (st, False)"
proof -
  note pf = barrier_facts [OF inp assms(2)]
  have t: "top_of st up c = Some (M + c + 1)" using pf(8) assms(3) by (simp add: top_of_def)
  obtain l where l: "left_of st lo c = Some l" using assms(4) by (cases "c = lo") (auto simp: left_of_def)
  show ?thesis by (rule step_skip [OF inp t l]) (use pf(4) in auto)
qed

lemma barrier_second:
  assumes inp: "myers_input s1 s2 N M" and bd: "bounds s1 s2 lo up" and bar: "barrier s1 s2 st c g u" and c: "lo \<le> c" "c + 1 \<le> up"
    and room: "c + 1 = up \<or> gv st (c + 2) \<noteq> None"
  obtains s f g' where "Myers_step s1 s2 lo up (c + 1) st = (s, f)" "barrier s1 s2 s c g' u" "\<forall>j. j \<noteq> c + 1 \<longrightarrow> kept st s j"
    "f \<longrightarrow> good s1 s2 s (c + 1)"
proof -
  note pf = barrier_facts [OF inp bar]
  obtain s f g' where s: "Myers_step s1 s2 lo up (c + 1) st = (s, f)" "s = st \<or> (\<exists>v p. s = put st (c + 1) v p)"
    "row s1 s2 s c g' (max u (c + 1))" "f \<longrightarrow> good s1 s2 s (c + 1) \<and> gv s (c + 1) = Some N \<and> N - (c + 1) = M"
    by (rule zone_step [OF inp pf(1) bd, of "c + 1"]) (use pf c in auto)
  have kp: "kept st s j" if "j \<noteq> c + 1" for j using s(2) kept_put [OF that] by auto
  have z: "zone s1 s2 st c g u" and sh: "shape s1 s2 st" using pf(1) by (simp_all add: row_def)
  have left: "left_of st lo (c + 1) = Some (M + (c + 1))" using pf(7) c by (simp add: left_of_def)
  obtain t where t: "top_of st up (c + 1) = Some t" "c + 1 = up \<and> t = - 1 \<or> gv st (c + 2) = Some t"
    using room by (cases "c + 1 = up") (auto simp: top_of_def algebra_simps)
  have tN: "t \<le> N" using t(2) shapeD [OF inp sh, of "c + 2" t] pf(2) input_lengths(3) [OF inp] by auto
  have Mk: "M + (c + 1) \<le> N" using pf(4) by simp
  have "bottom s2 s (c + 1)"
  proof (cases "M + (c + 1) < t")
    case True
    then have "s = st" using step_bottom(1) [OF inp t(1) left Mk tN] s(1) by simp
    then show ?thesis using bar by (simp add: barrier_def)
  next
    case False
    then obtain p where sp: "s = put st (c + 1) (Some (M + (c + 1))) p" using step_bottom(2) [OF inp t(1) left Mk tN] s(1) by auto
    have "case Some (M + (c + 1)) of Some n \<Rightarrow> is_int32 n | None \<Rightarrow> True" using input_lengths(5) [OF inp, of "M + (c + 1)"] Mk pf(3) by simp
    from gv_put_same [OF zone_cap [OF z] this] show ?thesis using pf(6) by (simp add: sp bottom_def input_lengths(2) [OF inp])
  qed
  moreover have "bottom s2 s c" using bottom_kept [OF kp] bar by (simp add: barrier_def)
  ultimately have "barrier s1 s2 s c g' u" using s(3) pf(6) by (simp add: barrier_def max_def)
  then show thesis by (rule that [OF s(1)]) (use kp s(4) in auto)
qed

lemma barrier_enter:
  assumes inp: "myers_input s1 s2 N M" and bd: "bounds s1 s2 lo up" and "barrier s1 s2 st c g u" and "unfinished s1 s2 st"
    and c: "lo \<le> c" "c < up"
  obtains k s where "Myers_round s1 s2 lo up lo st = Myers_round s1 s2 lo up k s" "k = c + 1 \<or> k = c + 2" "even (k - lo)"
    "barrier s1 s2 s c g u" "unfinished s1 s2 s" "\<forall>j\<ge>c. kept st s j"
proof -
  have lo: "- M - 1 \<le> lo" using bd by (simp add: bounds_def input_lengths(2) [OF inp])
  have "\<exists>k' s. Myers_round s1 s2 lo up lo st = Myers_round s1 s2 lo up k' s \<and> (k' = c \<or> k' = c + 1) \<and> even (k' - lo) \<and> lo \<le> k' \<and>
    barrier s1 s2 s c g u \<and> unfinished s1 s2 s \<and> (\<forall>j\<ge>c. kept st s j) \<and> (k' = c \<longrightarrow> k' = lo \<or> gv s (c - 1) \<noteq> None)"
    by (rule barrier_below [OF inp lo c(2) assms(3,4)]) (use c in auto)
  then obtain k s where k: "Myers_round s1 s2 lo up lo st = Myers_round s1 s2 lo up k s" "k = c \<or> k = c + 1" "even (k - lo)" "lo \<le> k"
    "barrier s1 s2 s c g u" "unfinished s1 s2 s" "\<forall>j\<ge>c. kept st s j" "k = c \<longrightarrow> k = lo \<or> gv s (c - 1) \<noteq> None" by blast
  show thesis
  proof (cases "k = c")
    case True
    then have "Myers_step s1 s2 lo up c s = (s, False)" using barrier_first [OF inp k(5) c(2)] k(8) by auto
    then have "Myers_round s1 s2 lo up c s = Myers_round s1 s2 lo up (c + 2) s" using c by (subst Myers_round.simps) simp
    then have "Myers_round s1 s2 lo up k s = Myers_round s1 s2 lo up (k + 2) s" using True by simp
    moreover have "even (k + 2 - lo)" using k(3) by presburger
    ultimately show thesis using that [of "k + 2" s] k True by simp
  qed (use that [of k s] k in auto)
qed

text \<open>A round keeps the barrier unless it reads behind the array in its second diagonal.\<close>

lemma barrier_round:
  assumes inp: "myers_input s1 s2 N M" and bd: "bounds s1 s2 lo up" and bar: "barrier s1 s2 st c g u" and uf: "unfinished s1 s2 st"
    and c: "lo \<le> c" "c < up" and far: "\<forall>j. lo \<le> j \<and> j \<le> up \<and> even (j - lo) \<longrightarrow> j \<le> u + 1"
    and room: "even (c + 1 - lo) \<longrightarrow> c + 1 = up \<or> gv st (c + 2) \<noteq> None"
    and run: "Myers_round s1 s2 lo up lo st = (st', res)"
  shows "(\<forall>j. res = Some j \<longrightarrow> good s1 s2 st' j) \<and>
    (res = None \<longrightarrow> (\<exists>g'. barrier s1 s2 st' c g' (next_frontier u up lo)) \<and> unfinished s1 s2 st')"
proof -
  obtain k s where k: "Myers_round s1 s2 lo up lo st = Myers_round s1 s2 lo up k s" "k = c + 1 \<or> k = c + 2" "even (k - lo)"
    "barrier s1 s2 s c g u" "unfinished s1 s2 s" "\<forall>j\<ge>c. kept st s j" by (rule barrier_enter [OF inp bd bar uf c])
  have above: ?thesis if b: "barrier s1 s2 t c h u" "unfinished s1 s2 t" and r: "Myers_round s1 s2 lo up i t = (st', res)" and i: "i = c + 2 \<or> i = c + 3" "even (i - lo)" for t h i
  proof -
    note pf = barrier_facts [OF inp b(1)]
    have "\<forall>j. i \<le> j \<and> j \<le> up \<and> even (j - i) \<longrightarrow> j \<le> u + 1" using far i c(1) by presburger
    from round_above [OF inp bd pf(1) _ _ _ this r] i c pf(5)
    have A: "(\<forall>j. res = Some j \<longrightarrow> good s1 s2 st' j) \<and> (res = None \<longrightarrow> (\<exists>g'. row s1 s2 st' c g' (next_frontier u up i))) \<and>
      (res = None \<longrightarrow> (\<forall>j. j < i \<or> odd (j - i) \<longrightarrow> kept t st' j)) \<and> (res = None \<and> unfinished s1 s2 t \<longrightarrow> unfinished s1 s2 st')" by auto
    have "next_frontier u up i = next_frontier u up lo"
    proof -
      have "u + 1 \<noteq> i - 1 \<or> odd (u + 1 - lo)" "even (u + 1 - i) = even (u + 1 - lo)" using i(2) by presburger+
      moreover have "lo \<le> u + 1" "i - 1 \<le> u + 1" using i(1) c(1) pf(6) by auto
      ultimately show ?thesis unfolding next_frontier_def by auto
    qed
    moreover have "bottom s2 st' c \<and> bottom s2 st' (c + 1)" if "res = None"
    proof -
      have "kept t st' c" "kept t st' (c + 1)" using A that i(1) by auto
      then show ?thesis using b(1) bottom_kept by (auto simp: barrier_def)
    qed
    ultimately show ?thesis using A b(2) by (auto simp: barrier_def)
  qed
  show ?thesis
  proof (cases "k = c + 1")
    case False
    then show ?thesis using above [OF k(4,5)] k(1-3) run by auto
  next
    case True
    have room': "c + 1 = up \<or> gv s (c + 2) \<noteq> None"
      using room k(3,6) True by (auto simp: kept_def)
    obtain t f h where t: "Myers_step s1 s2 lo up (c + 1) s = (t, f)" "barrier s1 s2 t c h u" "\<forall>j. j \<noteq> c + 1 \<longrightarrow> kept s t j"
      "f \<longrightarrow> good s1 s2 t (c + 1)" by (rule barrier_second [OF inp bd k(4) c(1) _ room']) (use c in auto)
    show ?thesis
    proof (cases f)
      case f: True
      then have "Myers_round s1 s2 lo up (c + 1) s = (t, Some (c + 1))" using t(1) c(2) by (subst Myers_round.simps) simp
      then show ?thesis using run k(1) True t(4) f by auto
    next
      case False
      have three: "c + 1 + 2 = c + 3" by simp
      have "Myers_round s1 s2 lo up (c + 1) s = Myers_round s1 s2 lo up (c + 1 + 2) t" using t(1) c(2) False by (subst Myers_round.simps) simp
      then have "Myers_round s1 s2 lo up (c + 3) t = (st', res)" using run k(1) True unfolding three by simp
      moreover have "unfinished s1 s2 t" using unfinished_step [OF inp k(5)] t(1) False by simp
      moreover have "even (c + 3 - lo)" using k(3) True by presburger
      ultimately show ?thesis using above [OF t(2), of "c + 3"] by blast
    qed
  qed
qed

section \<open>The frontier and the bounds of a round\<close>

lemma bounds_hold:
  assumes "myers_input s1 s2 N M" and "1 \<le> d"
  shows "bounds s1 s2 (lower_bound s2 d) (upper_bound s1 d)"
  using assms input_lengths(3,4) [OF assms(1)] by (auto simp: bounds_def lower_bound_def upper_bound_def input_lengths(1,2) [OF assms(1)])

text \<open>The largest diagonal written before round \<open>d\<close>.  For odd \<open>M\<close> the rounds \<open>M\<close> and \<open>M + 1\<close> visit the same parity.\<close>

definition frontier :: "int \<Rightarrow> int \<Rightarrow> int \<Rightarrow> int \<Rightarrow> bool" where
  "frontier N M d u \<longleftrightarrow> 0 \<le> u \<and> u \<le> d - 1 \<and> u \<le> N + 1 \<and> (u < N \<longrightarrow> u = (if M + 2 \<le> d \<and> odd M then d - 2 else d - 1))"

definition low_k :: "int \<Rightarrow> int \<Rightarrow> int" where "low_k M d = - min d (M + d mod 2)"
definition high_k :: "int \<Rightarrow> int \<Rightarrow> int" where "high_k N d = min d (N + d mod 2)"

lemma lower_upper:
  assumes "myers_input s1 s2 N M"
  shows "lower_bound s2 d = low_k M d" "upper_bound s1 d = high_k N d"
  by (simp_all add: lower_bound_def upper_bound_def low_k_def high_k_def input_lengths(1,2) [OF assms])

lemma low_k_parity: "0 < M \<Longrightarrow> even (low_k M d - j) \<longleftrightarrow> (if d \<le> M then even (d - j) else even (M + d - j))"
  unfolding low_k_def by (simp add: min_def) presburger

lemma low_k_cases:
  assumes "0 < M" "1 \<le> d"
  shows "d \<le> M \<Longrightarrow> low_k M d = - d" "M < d \<Longrightarrow> even d \<Longrightarrow> low_k M d = - M" "M < d \<Longrightarrow> odd d \<Longrightarrow> low_k M d = - M - 1"
  using assms by (auto simp: low_k_def min_def odd_iff_mod_2_eq_one)

lemma frontier_bound:
  assumes "0 < N" "0 < M" "1 \<le> d" and "frontier N M d u" and "j \<le> high_k N d" "even (j - low_k M d)"
  shows "j \<le> u + 1"
proof -
  have "even (low_k M d - j)" using assms(6) by presburger
  then have p: "if d \<le> M then even (d - j) else even (M + d - j)" using low_k_parity [OF assms(2), of d j] by simp
  have j: "j \<le> d" "j \<le> N + 1" using assms(5) by (auto simp: high_k_def)
  show ?thesis
  proof (cases "u < N")
    case True
    then have "u = (if M + 2 \<le> d \<and> odd M then d - 2 else d - 1)" using assms(4) by (simp add: frontier_def)
    then show ?thesis using p j by (cases "M + 2 \<le> d \<and> odd M") (auto, presburger)
  qed (use j in simp)
qed

lemma frontier_next:
  assumes "0 < N" "0 < M" "1 \<le> d" and f: "frontier N M d u"
  shows "frontier N M (d + 1) (next_frontier u (high_k N d) (low_k M d))"
proof -
  have "even (u + 1 - low_k M d) \<longleftrightarrow> even (low_k M d - (u + 1))" by presburger
  with low_k_parity [OF assms(2), of d "u + 1"]
  have par: "even (u + 1 - low_k M d) \<longleftrightarrow> (if d \<le> M then even (d - (u + 1)) else even (M + d - (u + 1)))" by blast
  have lo: "low_k M d \<le> u + 1" using f assms(2,3) by (auto simp: low_k_def frontier_def)
  have up: "high_k N d \<le> d" "high_k N d \<le> N + 1" by (auto simp: high_k_def)
  have ff: "0 \<le> u" "u \<le> d - 1" "u \<le> N + 1" using f by (auto simp: frontier_def)
  show ?thesis
  proof (cases "u < N")
    case False
    then show ?thesis using ff up by (auto simp: frontier_def next_frontier_def)
  next
    case True
    then have u: "u = (if M + 2 \<le> d \<and> odd M then d - 2 else d - 1)" using f by (simp add: frontier_def)
    have hi: "u + 1 \<le> high_k N d" using True ff by (auto simp: high_k_def)
    have "next_frontier u (high_k N d) (low_k M d) = (if even (u + 1 - low_k M d) then u + 1 else u)" using hi lo by (simp add: next_frontier_def)
    moreover have "even (u + 1 - low_k M d) \<longleftrightarrow> \<not> (d = M + 1 \<and> odd M)"
    proof (cases "M + 2 \<le> d \<and> odd M")
      case True
      then have "\<not> d \<le> M" "d \<noteq> M + 1" "u = d - 2" "odd M" using u by auto
      then show ?thesis using par by simp
    next
      case False
      then have ud: "u = d - 1" using u by simp
      show ?thesis using par False unfolding ud by (cases "d \<le> M") auto
    qed
    ultimately have nf: "next_frontier u (high_k N d) (low_k M d) = (if d = M + 1 \<and> odd M then u else u + 1)" by simp
    have "u + 1 \<le> N" using True by simp
    then show ?thesis unfolding frontier_def nf using u ff assms(2,3) by (cases "odd M") auto
  qed
qed

section \<open>Rounds without a barrier\<close>

lemma round_next:
  "Myers_step s1 s2 lo up k st = (s, f) \<Longrightarrow> \<not> f \<Longrightarrow> k \<le> up \<Longrightarrow> Myers_round s1 s2 lo up k st = Myers_round s1 s2 lo up (k + 2) s"
  by (subst Myers_round.simps) simp

definition fresh :: "MyersState \<Rightarrow> int \<Rightarrow> bool" where
  "fresh st b \<longleftrightarrow> (\<forall>j<b. gp st j = None \<and> (gv st j = None \<or> gv st j = Some 0))"

text \<open>Before round \<open>d\<close> every diagonal down to \<open>- min (d - 1) M\<close> is good.\<close>

definition open_rows :: "ISequence \<Rightarrow> ISequence \<Rightarrow> MyersState \<Rightarrow> int \<Rightarrow> int \<Rightarrow> int \<Rightarrow> bool" where
  "open_rows s1 s2 st d g u \<longleftrightarrow> row s1 s2 st (- min (d - 1) (seq_length s2)) g u \<and> min (d - 1) (seq_length s2) \<le> nlen st \<and>
     fresh st (- min (d - 1) (seq_length s2))"

lemma fresh_kept: "fresh st b \<Longrightarrow> \<forall>j<b. kept st st' j \<Longrightarrow> fresh st' b"
  unfolding fresh_def kept_def by metis

lemma fresh_put:
  assumes "fresh st b" and "k < b"
  shows "fresh (put st k v p) k"
proof (rule fresh_kept)
  show "fresh st k" using assms by (simp add: fresh_def)
  show "\<forall>j<k. kept st (put st k v p) j" by (simp add: kept_put)
qed

lemma zone_extend:
  assumes "zone s1 s2 st b g u" and "good s1 s2 st (b - 1)"
  shows "zone s1 s2 st (b - 1) g u"
proof -
  have "good s1 s2 st j" if "b - 1 \<le> j" "j \<le> g" for j using assms that by (cases "j = b - 1") (auto simp: zone_def)
  then show ?thesis using assms(1) unfolding zone_def by auto
qed

lemma fresh_good:
  assumes inp: "myers_input s1 s2 N M" and "fresh st b" and "k < b" "k < 0" "- M \<le> k" "- k - 1 < nlen st"
  shows "good s1 s2 st k"
proof -
  have "gv st k = Some 0" "gp st k = None" using assms(2-4,6) gv_defined [of st k] by (auto simp: fresh_def)
  then show ?thesis using assms(4,5) input_lengths(1-4) [OF inp] by (auto simp: good_def)
qed

lemma open_enter:
  assumes inp: "myers_input s1 s2 N M" and d: "1 \<le> d" "d \<le> M" and op: "open_rows s1 s2 st d g u" and up: "0 < up"
  obtains (found) s where "Myers_round s1 s2 (- d) up (- d) st = (s, Some (- d))" "good s1 s2 s (- d)"
    | (enters) s where "Myers_round s1 s2 (- d) up (- d) st = Myers_round s1 s2 (- d) up (- d + 2) s" "row s1 s2 s (- d) g u" "d \<le> nlen s"
        "fresh s (- d)" "unfinished s1 s2 st \<longrightarrow> unfinished s1 s2 s" "s = st \<or> (\<exists>v p. s = put st (- d) v p)"
    | (cut) "d = nlen st + 1" "Myers_round s1 s2 (- d) up (- d) st = Myers_round s1 s2 (- d) up (- d + 2) st" "bottom s2 st (- d + 1)"
proof -
  have md: "min (d - 1) M = d - 1" using d by simp
  have r: "row s1 s2 st (- d + 1) g u" and nl: "d - 1 \<le> nlen st" and fr: "fresh st (- d + 1)"
    using op md by (simp_all add: open_rows_def input_lengths(2) [OF inp])
  have rw: "arrays_ok st" "shape s1 s2 st" "zone s1 s2 st (- d + 1) g u" "u \<le> N + 1" using r by (simp_all add: row_def input_lengths(1) [OF inp])
  have n10: "10 \<le> nlen st" using rw(1) by (auto simp: arrays_ok_def dest: zdvd_imp_le)
  have gd: "good s1 s2 st (- d + 1)" using rw(3) by (simp add: zone_def)
  then obtain t where t: "gv st (- d + 1) = Some t" by (auto simp: good_def)
  note tt = good_from_top [OF inp, of st "- d", OF gd t]
  have tp: "top_of st up (- d) = Some t" using t d up by (simp add: top_of_def)
  have lf: "left_of st (- d) (- d) = Some (- 1)" by (simp add: left_of_def)
  have x: "min (max t (- 1)) N = t" using tt(3,4) by simp
  have kup: "- d \<le> up" using d up by simp
  show thesis
  proof (cases "t + d \<le> M")
    case True
    let ?n = "getXAfterSnake s1 s2 t (t - - d)"
    let ?s = "put st (- d) (Some ?n) (next_path st (- d) t t ?n)"
    have st: "Myers_step s1 s2 (- d) up (- d) st = (?s, gv ?s (- d) = Some N \<and> N - - d = M)"
      by (rule step_regular [OF inp tp lf x [symmetric] _ refl]) (use True in simp)
    have good: "good s1 s2 ?s (- d)"
      by (rule good_put(1) [OF inp tt(3,4) _ tt(6) tt(1) _ _ _ refl]) (use tt(2) True d nl n10 in auto)
    show thesis
    proof (cases "gv ?s (- d) = Some N \<and> N - - d = M")
      case True
      then have "Myers_round s1 s2 (- d) up (- d) st = (?s, Some (- d))" using st kup by (subst Myers_round.simps) simp
      then show thesis by (rule found) (rule good)
    next
      case False
      have run: "Myers_round s1 s2 (- d) up (- d) st = Myers_round s1 s2 (- d) up (- d + 2) ?s" by (rule round_next [OF st False kup])
      have "zone s1 s2 ?s (- d + 1 - 1) g u"
        by (rule zone_extend [OF zone_put_outside [OF rw(3)]]) (use good in simp_all)
      moreover have "shape s1 s2 ?s" by (rule shape_step [OF inp rw(2) _ _ _ _ _ st]) (use d up in auto)
      ultimately have "row s1 s2 ?s (- d) g u" using put_arrays [OF rw(1)] rw(4) d by (simp add: row_def input_lengths(1,2) [OF inp])
      moreover have "d \<le> nlen ?s" using nl n10 d by (simp add: put_lengths)
      moreover have "fresh ?s (- d)" by (rule fresh_put [OF fr]) simp
      moreover have "Myers_step s1 s2 (- d) up (- d) st = (?s, False)" unfolding st prod.inject using False by blast
      then have "unfinished s1 s2 st \<longrightarrow> unfinished s1 s2 ?s" using unfinished_step [OF inp] by blast
      ultimately show thesis by (intro enters [OF run]) auto
    qed
  next
    case False
    then have sk: "Myers_step s1 s2 (- d) up (- d) st = (st, False)" by (intro step_skip [OF inp tp lf]) (use x in simp)
    have run: "Myers_round s1 s2 (- d) up (- d) st = Myers_round s1 s2 (- d) up (- d + 2) st" using sk kup by (subst Myers_round.simps) simp
    have bt: "bottom s2 st (- d + 1)" using t tt(5) False by (simp add: bottom_def input_lengths(2) [OF inp])
    show thesis
    proof (cases "d \<le> nlen st")
      case True
      have "zone s1 s2 st (- d + 1 - 1) g u" by (rule zone_extend [OF rw(3)], rule fresh_good [OF inp fr]) (use d True in auto)
      then have "row s1 s2 st (- d) g u" using rw d by (simp add: row_def input_lengths(1,2) [OF inp])
      moreover have "fresh st (- d)" using fr by (simp add: fresh_def)
      ultimately show thesis using enters [OF run] True by simp
    next
      case False
      then show thesis using cut [OF _ run bt] nl by simp
    qed
  qed
qed

lemma zone_defined:
  assumes "zone s1 s2 st b g u" and "b \<le> j" "j \<le> u"
  shows "gv st j \<noteq> None"
  using zone_good [OF assms(1,2)] zone_low [OF assms(1) _ assms(3)] by (cases "j \<le> g") (auto simp: good_def low_def)

lemma zone_shrink:
  assumes "zone s1 s2 st b g u" and "b \<le> c" "c \<le> g"
  shows "zone s1 s2 st c g u"
  using assms unfolding zone_def by auto

lemma room_ahead:
  assumes "0 < N" "0 < M" "1 \<le> d" and f: "frontier N M d u" and "d \<le> M \<or> N \<le> u" and "j < high_k N d" "even (j - low_k M d)" "M + j \<le> N"
  shows "j + 1 \<le> u"
proof (cases "N \<le> u")
  case False
  then have u: "u = d - 1" and dM: "d \<le> M" using f assms(5) by (auto simp: frontier_def)
  have "even (low_k M d - j)" using assms(7) by presburger
  then have "even (d - j)" using low_k_parity [OF assms(2), of d j] dM by simp
  moreover have "j < d" using assms(6) by (simp add: high_k_def)
  ultimately show ?thesis unfolding u by presburger
qed (use assms(2,8) in simp)

lemma room_inside:
  assumes "0 < N" "0 < M" "1 \<le> d" and f: "frontier N M d u" and "M + j \<le> N" "j \<le> u + 1"
  shows "j \<le> high_k N d"
  using assms by (auto simp: high_k_def frontier_def)

lemma next_frontier_shift:
  assumes "even (k - l)" and "k \<le> u + 2" and "l \<le> k"
  shows "next_frontier u up k = next_frontier u up l"
proof -
  have "even (u + 1 - k) = even (u + 1 - l)" "even (u + 1 - k) \<longrightarrow> k \<noteq> u + 2" using assms(1) by presburger+
  then show ?thesis using assms(2,3) unfolding next_frontier_def by auto
qed

definition myers_inv :: "ISequence \<Rightarrow> ISequence \<Rightarrow> MyersState \<Rightarrow> int \<Rightarrow> bool" where
  "myers_inv s1 s2 st d \<longleftrightarrow> (\<exists>g u. frontier (seq_length s1) (seq_length s2) d u \<and>
     (open_rows s1 s2 st d g u \<or>
      (\<exists>c. barrier s1 s2 st c g u \<and> - min (d - 1) (seq_length s2) \<le> c \<and> c + 1 \<le> d - 1 \<and> (c + 1 = d - 1 \<longrightarrow> \<not> 10 dvd d))))"

lemma barrier_made:
  assumes inp: "myers_input s1 s2 N M" and r: "row s1 s2 st b g u" and c: "b \<le> c" "- M < c" "bottom s2 st c" "bottom s2 st (c + 1)"
  shows "barrier s1 s2 st c g u" "c + 1 \<le> u"
proof -
  have g: "c \<le> g" by (rule bottom_bounds(4) [OF inp r c(1,3)]) (use c(2) in simp)
  have "b \<le> c + 1" "c + 1 \<noteq> - M" using c by auto
  from bottom_bounds(1) [OF inp r this(1) c(4) this(2)] show "c + 1 \<le> u" .
  show "barrier s1 s2 st c g u"
    using r zone_shrink [OF _ c(1) g] c by (auto simp: barrier_def row_def input_lengths(2) [OF inp])
qed

text \<open>The rounds up to the length of the second sequence.\<close>

lemma open_round:
  assumes inp: "myers_input s1 s2 N M" and d: "1 \<le> d" "d \<le> M" and op: "open_rows s1 s2 st d g u" and fr: "frontier N M d u"
    and uf: "unfinished s1 s2 st \<or> d \<le> nlen st" and run: "Myers_round s1 s2 (- d) (high_k N d) (- d) st = (st', res)"
  shows "(\<forall>j. res = Some j \<longrightarrow> good s1 s2 st' j) \<and>
    (res = None \<longrightarrow> myers_inv s1 s2 st' (d + 1) \<and> (unfinished s1 s2 st \<longrightarrow> unfinished s1 s2 st') \<and>
       (d \<le> nlen st \<longrightarrow> (\<exists>g' u'. frontier N M (d + 1) u' \<and> open_rows s1 s2 st' (d + 1) g' u')))"
proof -
  note len = input_lengths(1,2) [OF inp] and pos = input_lengths(3,4) [OF inp]
  have lo: "low_k M d = - d" and md: "min (d - 1) M = d - 1" "min d M = d" using low_k_cases(1) [OF pos(2) d(1,2)] d by auto
  have bd: "bounds s1 s2 (- d) (high_k N d)" using bounds_hold [OF inp d(1)] lo by (simp add: lower_upper [OF inp])
  have up: "0 < high_k N d" using bd by (simp add: bounds_def)
  have far: "\<forall>j. - d + 2 \<le> j \<and> j \<le> high_k N d \<and> even (j - (- d + 2)) \<longrightarrow> j \<le> u + 1"
  proof (intro allI impI)
    fix j assume j: "- d + 2 \<le> j \<and> j \<le> high_k N d \<and> even (j - (- d + 2))"
    then have "even (j - - d)" by presburger
    then show "j \<le> u + 1" using frontier_bound [OF pos d(1) fr, of j] j lo by simp
  qed
  have u0: "0 \<le> u" using fr by (simp add: frontier_def)
  let ?u = "next_frontier u (high_k N d) (- d)"
  have nf: "next_frontier u (high_k N d) (- d + 2) = ?u" by (rule next_frontier_shift) (use d u0 in auto)
  have fr': "frontier N M (d + 1) ?u" using frontier_next [OF pos d(1) fr] lo by simp
  show ?thesis
  proof (rule open_enter [OF inp d op up])
    fix s assume "Myers_round s1 s2 (- d) (high_k N d) (- d) st = (s, Some (- d))" "good s1 s2 s (- d)"
    then show ?thesis using run by auto
  next
    fix s assume s: "Myers_round s1 s2 (- d) (high_k N d) (- d) st = Myers_round s1 s2 (- d) (high_k N d) (- d + 2) s" "row s1 s2 s (- d) g u" "d \<le> nlen s"
      "fresh s (- d)" "unfinished s1 s2 st \<longrightarrow> unfinished s1 s2 s" "s = st \<or> (\<exists>v p. s = put st (- d) v p)"
    have "- d \<le> g" using s(2) by (simp add: row_def zone_def)
    then have A: "(\<forall>j. res = Some j \<longrightarrow> good s1 s2 st' j) \<and> (res = None \<longrightarrow> (\<exists>g'. row s1 s2 st' (- d) g' ?u)) \<and>
      (res = None \<longrightarrow> (\<forall>j. j < - d + 2 \<or> odd (j - (- d + 2)) \<longrightarrow> kept s st' j)) \<and> (res = None \<and> unfinished s1 s2 s \<longrightarrow> unfinished s1 s2 st')"
      using round_above [OF inp bd s(2) _ _ _ far, of st' res] run s(1) nf by simp
    have "\<exists>g'. open_rows s1 s2 st' (d + 1) g' ?u" if "res = None"
    proof -
      obtain g' where "row s1 s2 st' (- d) g' ?u" and kp: "\<forall>j < - d + 2. kept s st' j" using A \<open>res = None\<close> by auto
      moreover have "fresh st' (- d)" by (rule fresh_kept [OF s(4)]) (use kp in simp)
      moreover have "gv s (- d) \<noteq> None" using s(3) d gv_defined [of s "- d"] by simp
      then have "gv st' (- d) \<noteq> None" using kp by (auto simp: kept_def)
      then have "d \<le> nlen st'" using d gv_defined [of st' "- d"] by simp
      ultimately show ?thesis using md(2) by (auto simp: open_rows_def len)
    qed
    then show ?thesis using A s(5) fr' by (auto simp: myers_inv_def len)
  next
    assume cut: "d = nlen st + 1" "Myers_round s1 s2 (- d) (high_k N d) (- d) st = Myers_round s1 s2 (- d) (high_k N d) (- d + 2) st" "bottom s2 st (- d + 1)"
    then have un: "unfinished s1 s2 st" using uf by simp
    have r: "row s1 s2 st (- d + 1) g u" using op md(1) by (simp add: open_rows_def len)
    have zg: "- d + 1 \<le> g" "10 dvd nlen st" "zone s1 s2 st (- d + 1) g u" using r by (simp_all add: row_def zone_def arrays_ok_def)
    have A: "(\<forall>j. res = Some j \<longrightarrow> good s1 s2 st' j) \<and> (res = None \<longrightarrow> (\<exists>g'. row s1 s2 st' (- d + 1) g' ?u)) \<and>
      (res = None \<and> unfinished s1 s2 st \<longrightarrow> unfinished s1 s2 st')"
      using round_above [OF inp bd r _ _ _ far, of st' res] run cut(2) nf zg(1) by simp
    have "myers_inv s1 s2 st' (d + 1)" if None: "res = None"
    proof -
      obtain g' where r': "row s1 s2 st' (- d + 1) g' ?u" using A None by auto
      have run': "Myers_round s1 s2 (- d) (high_k N d) (- d + 2) st = (st', None)" using run cut(2) None by simp
      have inside: "\<forall>j. M + j \<le> N \<and> j \<le> u + 1 \<longrightarrow> j \<le> high_k N d" using room_inside [OF pos d(1) fr] by simp
      have ahead: "\<forall>j. - d + 2 \<le> j \<and> j < high_k N d \<and> M + j \<le> N \<and> even (j - (- d + 2)) \<longrightarrow> gv st (j + 1) \<noteq> None"
      proof (intro allI impI)
        fix j assume j: "- d + 2 \<le> j \<and> j < high_k N d \<and> M + j \<le> N \<and> even (j - (- d + 2))"
        then have "even (j - low_k M d)" unfolding lo by presburger
        then have "j + 1 \<le> u" using room_ahead [OF pos d(1) fr, of j] j d(2) by simp
        then show "gv st (j + 1) \<noteq> None" using zone_defined [OF zg(3)] j by simp
      qed
      have "\<exists>c'\<ge>- d + 1. bottom s2 st' c' \<and> bottom s2 st' (c' + 1) \<and> even (c' + 1 - (- d + 2))"
        by (rule round_extends [OF inp bd r _ _ _ far run' un _ _ cut(3) _ _ _ inside ahead]) (use u0 zg(1) in auto)
      then obtain c where c: "- d + 1 \<le> c" "bottom s2 st' c" "bottom s2 st' (c + 1)" by auto
      then have bar: "barrier s1 s2 st' c g' ?u" "c + 1 \<le> ?u" using barrier_made [OF inp r' c(1) _ c(2,3)] d by auto
      moreover have "?u \<le> d" using fr' by (simp add: frontier_def)
      moreover have "\<not> 10 dvd (d + 1)" using zg(2) cut(1) by presburger
      ultimately show ?thesis unfolding myers_inv_def len
        using fr' c(1) md(2) by (intro exI [of _ g'] exI [of _ ?u] conjI disjI2 exI [of _ c]) auto
    qed
    then show ?thesis using A cut(1) by auto
  qed
qed

text \<open>The later rounds: the first diagonal is skipped or starts at the left edge.\<close>

lemma beyond_enter:
  assumes inp: "myers_input s1 s2 N M" and d: "1 \<le> d" "M < d" and r: "row s1 s2 st (- M) g u"
  obtains k where "Myers_round s1 s2 (low_k M d) (high_k N d) (low_k M d) st = Myers_round s1 s2 (low_k M d) (high_k N d) k st"
    "- M < k \<or> k = low_k M d \<and> - M = k" "low_k M d \<le> k" "k \<le> - M + 1" "even (k - low_k M d)"
proof (cases "even d")
  case True
  then have "low_k M d = - M" using low_k_cases(2) [OF input_lengths(4) [OF inp] d] by simp
  then show thesis using that [of "- M"] by simp
next
  case False
  then have lo: "low_k M d = - M - 1" using low_k_cases(3) [OF input_lengths(4) [OF inp] d] by simp
  have up: "0 < high_k N d" using bounds_hold [OF inp d(1)] by (simp add: bounds_def lower_upper [OF inp])
  have gd: "good s1 s2 st (- M)" using r by (simp add: row_def zone_def)
  then obtain v where v: "gv st (- M) = Some v" "0 \<le> v" "v \<le> N" by (auto simp: good_def input_lengths(1) [OF inp])
  have "top_of st (high_k N d) (- M - 1) = Some v" using v(1) up input_lengths(4) [OF inp] by (simp add: top_of_def)
  moreover have "left_of st (- M - 1) (- M - 1) = Some (- 1)" by (simp add: left_of_def)
  ultimately have "Myers_step s1 s2 (- M - 1) (high_k N d) (- M - 1) st = (st, False)"
    by (rule step_skip [OF inp]) (use v in simp)
  then have "Myers_round s1 s2 (- M - 1) (high_k N d) (- M - 1) st = Myers_round s1 s2 (- M - 1) (high_k N d) (- M - 1 + 2) st"
    by (rule round_next) (use up input_lengths(4) [OF inp] in auto)
  then show thesis using that [of "- M + 1"] unfolding lo by simp
qed

lemma beyond_round:
  assumes inp: "myers_input s1 s2 N M" and d: "1 \<le> d" "M < d" and op: "open_rows s1 s2 st d g u" and fr: "frontier N M d u"
    and run: "Myers_round s1 s2 (low_k M d) (high_k N d) (low_k M d) st = (st', res)"
  shows "(\<forall>j. res = Some j \<longrightarrow> good s1 s2 st' j) \<and>
    (res = None \<longrightarrow> (\<exists>g' u'. frontier N M (d + 1) u' \<and> open_rows s1 s2 st' (d + 1) g' u') \<and> (unfinished s1 s2 st \<longrightarrow> unfinished s1 s2 st'))"
proof -
  note len = input_lengths(1,2) [OF inp] and pos = input_lengths(3,4) [OF inp]
  have md: "min (d - 1) M = M" "min d M = M" using d by auto
  have r: "row s1 s2 st (- M) g u" and nl: "M \<le> nlen st" and fs: "fresh st (- M)" using op md by (simp_all add: open_rows_def len)
  have bd: "bounds s1 s2 (low_k M d) (high_k N d)" using bounds_hold [OF inp d(1)] by (simp add: lower_upper [OF inp])
  obtain k where k: "Myers_round s1 s2 (low_k M d) (high_k N d) (low_k M d) st = Myers_round s1 s2 (low_k M d) (high_k N d) k st"
    "- M < k \<or> k = low_k M d \<and> - M = k" "low_k M d \<le> k" "k \<le> - M + 1" "even (k - low_k M d)" by (rule beyond_enter [OF inp d r])
  have far: "\<forall>j. k \<le> j \<and> j \<le> high_k N d \<and> even (j - k) \<longrightarrow> j \<le> u + 1"
  proof (intro allI impI)
    fix j assume j: "k \<le> j \<and> j \<le> high_k N d \<and> even (j - k)"
    then have "even (j - low_k M d)" using k(5) by presburger
    then show "j \<le> u + 1" using frontier_bound [OF pos d(1) fr, of j] j by simp
  qed
  have zg: "- M \<le> g" "0 \<le> u" using r by (auto simp: row_def zone_def)
  have nf: "next_frontier u (high_k N d) k = next_frontier u (high_k N d) (low_k M d)"
    by (rule next_frontier_shift [OF k(5) _ k(3)]) (use k(4) zg pos in simp)
  have A: "(\<forall>j. res = Some j \<longrightarrow> good s1 s2 st' j) \<and> (res = None \<longrightarrow> (\<exists>g'. row s1 s2 st' (- M) g' (next_frontier u (high_k N d) k))) \<and>
    (res = None \<longrightarrow> (\<forall>j. j < k \<or> odd (j - k) \<longrightarrow> kept st st' j)) \<and> (res = None \<and> unfinished s1 s2 st \<longrightarrow> unfinished s1 s2 st')"
    by (rule round_above [OF inp bd r k(2,3) _ far]) (use run k(1,4) zg in auto)
  have "\<exists>g' u'. frontier N M (d + 1) u' \<and> open_rows s1 s2 st' (d + 1) g' u'" if "res = None"
  proof -
    obtain g' where r': "row s1 s2 st' (- M) g' (next_frontier u (high_k N d) (low_k M d))" and kp: "\<forall>j<k. kept st st' j"
      using A \<open>res = None\<close> nf by auto
    have "fresh st' (- M)" by (rule fresh_kept [OF fs]) (use kp k(2) in auto)
    moreover have "gv st' (- M) \<noteq> None" using r' by (auto simp: row_def zone_def good_def)
    then have "M \<le> nlen st'" using gv_defined [of st' "- M"] pos by simp
    ultimately show ?thesis using r' md(2) frontier_next [OF pos d(1) fr] by (auto simp: open_rows_def len)
  qed
  then show ?thesis using A by blast
qed

text \<open>No read behind the array in the second diagonal of a barrier.\<close>

lemma barrier_room:
  assumes inp: "myers_input s1 s2 N M" and d: "1 \<le> d" and fr: "frontier N M d u" and bar: "barrier s1 s2 st c g u"
    and cd: "c + 1 \<le> d - 1" "c + 1 = d - 1 \<longrightarrow> \<not> 10 dvd d" and ev: "even (c + 1 - low_k M d)"
  shows "gv st (c + 2) \<noteq> None"
proof -
  note pf = barrier_facts [OF inp bar] and pos = input_lengths(3,4) [OF inp]
  have z: "zone s1 s2 st c g u" and arr: "arrays_ok st" using pf(1) by (simp_all add: row_def)
  show ?thesis
  proof (cases "c + 2 \<le> u")
    case True
    then show ?thesis using zone_defined [OF z] by simp
  next
    case False
    then have cu: "c + 1 = u" using pf(6) by simp
    then have "u < N" using pf(4) pos by simp
    then have u: "u = (if M + 2 \<le> d \<and> odd M then d - 2 else d - 1)" using fr by (simp add: frontier_def)
    have "even (low_k M d - u)" using ev cu by presburger
    then have par: "if d \<le> M then even (d - u) else even (M + d - u)" using low_k_parity [OF pos(2), of d u] by simp
    have "u = d - 1" using u par by (auto split: if_splits)
    then have "\<not> 10 dvd d" using cd(2) cu by simp
    then have "plen st \<noteq> d" using arr by (auto simp: arrays_ok_def)
    then have "c + 2 < plen st" using zone_plen [OF z] cu \<open>u = d - 1\<close> by simp
    moreover have "0 \<le> c + 2" using cu fr by (simp add: frontier_def)
    ultimately show ?thesis using gv_defined [of st "c + 2"] by simp
  qed
qed

lemma low_k_low:
  "0 < M \<Longrightarrow> 1 \<le> d \<Longrightarrow> low_k M d \<le> - min (d - 1) M"
  by (auto simp: low_k_def min_def)

lemma barrier_inv_round:
  assumes inp: "myers_input s1 s2 N M" and d: "1 \<le> d" and fr: "frontier N M d u" and uf: "unfinished s1 s2 st"
    and c: "barrier s1 s2 st c g u" "- min (d - 1) M \<le> c" "c + 1 \<le> d - 1" "c + 1 = d - 1 \<longrightarrow> \<not> 10 dvd d"
    and run: "Myers_round s1 s2 (low_k M d) (high_k N d) (low_k M d) st = (st', res)"
  shows "(\<forall>j. res = Some j \<longrightarrow> good s1 s2 st' j) \<and> (res = None \<longrightarrow> unfinished s1 s2 st' \<and>
    (\<exists>g' u'. frontier N M (d + 1) u' \<and> barrier s1 s2 st' c g' u' \<and> - min (d + 1 - 1) M \<le> c \<and> c + 1 \<le> d + 1 - 1 \<and>
       (c + 1 = d + 1 - 1 \<longrightarrow> \<not> 10 dvd (d + 1))))"
proof -
  note pos = input_lengths(3,4) [OF inp] and pf = barrier_facts [OF inp c(1)]
  have bd: "bounds s1 s2 (low_k M d) (high_k N d)" using bounds_hold [OF inp d(1)] by (simp add: lower_upper [OF inp])
  have lc: "low_k M d \<le> c" using low_k_low [OF pos(2) d] c(2) by simp
  have cup: "c + 1 \<le> high_k N d" using room_inside [OF pos d fr, of "c + 1"] pf(4,6) by simp
  have far: "\<forall>j. low_k M d \<le> j \<and> j \<le> high_k N d \<and> even (j - low_k M d) \<longrightarrow> j \<le> u + 1" using frontier_bound [OF pos d fr] by blast
  have room: "even (c + 1 - low_k M d) \<longrightarrow> c + 1 = high_k N d \<or> gv st (c + 2) \<noteq> None" using barrier_room [OF inp d fr c(1,3,4)] by blast
  have A: "(\<forall>j. res = Some j \<longrightarrow> good s1 s2 st' j) \<and>
    (res = None \<longrightarrow> (\<exists>g'. barrier s1 s2 st' c g' (next_frontier u (high_k N d) (low_k M d))) \<and> unfinished s1 s2 st')"
    by (rule barrier_round [OF inp bd c(1) uf lc _ far room run]) (use cup in simp)
  have "- min (d + 1 - 1) M \<le> c" "c + 1 < d" using c(2,3) by auto
  then show ?thesis using A frontier_next [OF pos d fr] by fastforce
qed

lemma myers_inv_round:
  assumes inp: "myers_input s1 s2 N M" and d: "1 \<le> d" and inv: "myers_inv s1 s2 st d" and uf: "unfinished s1 s2 st"
    and run: "Myers_round s1 s2 (low_k M d) (high_k N d) (low_k M d) st = (st', res)"
  shows "(\<forall>j. res = Some j \<longrightarrow> good s1 s2 st' j) \<and> (res = None \<longrightarrow> myers_inv s1 s2 st' (d + 1) \<and> unfinished s1 s2 st')"
proof -
  note len = input_lengths(1,2) [OF inp] and pos = input_lengths(3,4) [OF inp]
  obtain g u where fr: "frontier N M d u" and cases: "open_rows s1 s2 st d g u \<or>
    (\<exists>c. barrier s1 s2 st c g u \<and> - min (d - 1) M \<le> c \<and> c + 1 \<le> d - 1 \<and> (c + 1 = d - 1 \<longrightarrow> \<not> 10 dvd d))"
    using inv by (auto simp: myers_inv_def len)
  from cases show ?thesis
  proof (elim disjE exE conjE)
    assume op: "open_rows s1 s2 st d g u"
    show ?thesis
    proof (cases "d \<le> M")
      case True
      then have "low_k M d = - d" using low_k_cases(1) [OF pos(2) d] by simp
      then show ?thesis using open_round [OF inp d True op fr _, of st' res] uf run by simp
    next
      case False
      then show ?thesis using beyond_round [OF inp d _ op fr run] uf by (auto simp: myers_inv_def len)
    qed
  next
    fix c assume "barrier s1 s2 st c g u" "- min (d - 1) M \<le> c" "c + 1 \<le> d - 1" "c + 1 = d - 1 \<longrightarrow> \<not> 10 dvd d"
    from barrier_inv_round [OF inp d fr uf this run] show ?thesis unfolding myers_inv_def len by blast
  qed
qed

section \<open>Every round of the later ones makes progress\<close>

text \<open>A diagonal at the end of the second sequence, of the parity that the next round does not visit.\<close>

definition marked :: "ISequence \<Rightarrow> ISequence \<Rightarrow> MyersState \<Rightarrow> int \<Rightarrow> int \<Rightarrow> bool" where
  "marked s1 s2 st d e \<longleftrightarrow> bottom s2 st e \<and> odd (e - low_k (seq_length s2) d) \<and> (\<exists>g u. frontier (seq_length s1) (seq_length s2) d u \<and>
     (open_rows s1 s2 st d g u \<and> - seq_length s2 \<le> e \<or>
      (\<exists>c. barrier s1 s2 st c g u \<and> - min (d - 1) (seq_length s2) \<le> c \<and> c + 1 \<le> d - 1 \<and> (c + 1 = d - 1 \<longrightarrow> \<not> 10 dvd d) \<and> c \<le> e)))"

lemma low_k_alternates:
  "0 < M \<Longrightarrow> M < d \<Longrightarrow> even (e - low_k M d) \<Longrightarrow> odd (e - low_k M (d + 1))"
  using low_k_parity [of M d e] low_k_parity [of M "d + 1" e] by (simp add: even_diff_iff) presburger

text \<open>One such round, from the diagonal it reaches behind the barrier or the left edge.\<close>

lemma round_advances:
  assumes inp: "myers_input s1 s2 N M" and d: "N + M + 2 \<le> d" and fr: "frontier N M d u" and r: "row s1 s2 st b g u"
    and k: "b < k \<or> k = low_k M d \<and> b = k" "low_k M d \<le> k" "k - 2 \<le> g" "even (k - low_k M d)"
    and run: "Myers_round s1 s2 (low_k M d) (high_k N d) k st = (st', None)" and uf: "unfinished s1 s2 st"
    and e: "b \<le> e" "low_k M d \<le> e" "bottom s2 st e" "odd (e - low_k M d)" "k \<le> e + 1"
  shows "\<exists>e'>e. bottom s2 st' e' \<and> odd (e' - low_k M (d + 1))"
proof -
  note pos = input_lengths(3,4) [OF inp]
  have d1: "1 \<le> d" and dM: "M < d" using d pos by auto
  have bd: "bounds s1 s2 (low_k M d) (high_k N d)" using bounds_hold [OF inp d1] by (simp add: lower_upper [OF inp])
  have uN: "N \<le> u" using fr d pos by (auto simp: frontier_def split: if_splits)
  have far: "\<forall>j. k \<le> j \<and> j \<le> high_k N d \<and> even (j - k) \<longrightarrow> j \<le> u + 1"
  proof (intro allI impI)
    fix j assume j: "k \<le> j \<and> j \<le> high_k N d \<and> even (j - k)"
    then have "even (j - low_k M d)" using k(4) by presburger
    then show "j \<le> u + 1" using frontier_bound [OF pos d1 fr, of j] j by simp
  qed
  have inside: "\<forall>j. M + j \<le> N \<and> j \<le> u + 1 \<longrightarrow> j \<le> high_k N d" using room_inside [OF pos d1 fr] by simp
  have z: "zone s1 s2 st b g u" using r by (simp add: row_def)
  have ahead: "\<forall>j. k \<le> j \<and> j < high_k N d \<and> M + j \<le> N \<and> even (j - k) \<longrightarrow> gv st (j + 1) \<noteq> None"
  proof (intro allI impI)
    fix j assume j: "k \<le> j \<and> j < high_k N d \<and> M + j \<le> N \<and> even (j - k)"
    then have "b \<le> j + 1" "j + 1 \<le> u" using k(1) uN pos by auto
    then show "gv st (j + 1) \<noteq> None" using zone_defined [OF z] by simp
  qed
  have "odd (e - k)" using e(4) k(4) by presburger
  then have "\<exists>c'\<ge>e. bottom s2 st' c' \<and> bottom s2 st' (c' + 1) \<and> even (c' + 1 - k)"
    by (intro round_extends [OF inp bd r k(1,2) _ far run uf e(1-3) _ e(5) _ inside ahead]) (use k(3) uN pos in auto)
  then obtain c' where c': "e \<le> c'" "bottom s2 st' (c' + 1)" "even (c' + 1 - k)" by blast
  have "even (c' + 1 - low_k M d)" using c'(3) k(4) by presburger
  then have "odd (c' + 1 - low_k M (d + 1))" by (rule low_k_alternates [OF pos(2) dM])
  then show ?thesis using c'(1,2) by (intro exI [of _ "c' + 1"]) simp
qed

lemma marked_bound:
  assumes inp: "myers_input s1 s2 N M" and "M < d" and "marked s1 s2 st d e"
  shows "e \<le> N - M"
proof -
  obtain g u b where r: "row s1 s2 st b g u" and b: "b \<le> e" "bottom s2 st e" "- M \<le> b"
    using assms by (auto simp: marked_def open_rows_def barrier_def row_def input_lengths(1,2) [OF inp])
  show ?thesis
  proof (cases "e = - M")
    case False
    then show ?thesis using bottom_bounds(3) [OF inp r b(1,2)] by simp
  qed (use input_lengths(3) [OF inp] in simp)
qed

lemma marked_round:
  assumes inp: "myers_input s1 s2 N M" and d: "N + M + 2 \<le> d" and mk: "marked s1 s2 st d e" and uf: "unfinished s1 s2 st"
    and run: "Myers_round s1 s2 (low_k M d) (high_k N d) (low_k M d) st = (st', None)"
  shows "unfinished s1 s2 st' \<and> (\<exists>e'>e. marked s1 s2 st' (d + 1) e')"
proof -
  note len = input_lengths(1,2) [OF inp] and pos = input_lengths(3,4) [OF inp]
  have d1: "1 \<le> d" and dM: "M < d" using d pos by auto
  obtain g u where fr: "frontier N M d u" and e: "bottom s2 st e" "odd (e - low_k M d)" and cases: "open_rows s1 s2 st d g u \<and> - M \<le> e \<or>
    (\<exists>c. barrier s1 s2 st c g u \<and> - min (d - 1) M \<le> c \<and> c + 1 \<le> d - 1 \<and> (c + 1 = d - 1 \<longrightarrow> \<not> 10 dvd d) \<and> c \<le> e)"
    using mk by (auto simp: marked_def len)
  from cases show ?thesis
  proof (elim disjE exE conjE)
    assume op: "open_rows s1 s2 st d g u" and eM: "- M \<le> e"
    have "min (d - 1) M = M" using dM by simp
    then have r: "row s1 s2 st (- M) g u" using op by (simp add: open_rows_def len)
    obtain k where k: "Myers_round s1 s2 (low_k M d) (high_k N d) (low_k M d) st = Myers_round s1 s2 (low_k M d) (high_k N d) k st"
      "- M < k \<or> k = low_k M d \<and> - M = k" "low_k M d \<le> k" "k \<le> - M + 1" "even (k - low_k M d)" by (rule beyond_enter [OF inp d1 dM r])
    have "- M \<le> g" using r by (simp add: row_def zone_def)
    moreover have "low_k M d \<le> e" using low_k_low [OF pos(2) d1] dM eM by simp
    ultimately have "\<exists>e'>e. bottom s2 st' e' \<and> odd (e' - low_k M (d + 1))"
      using round_advances [OF inp d fr r k(2,3) _ k(5) _ uf eM _ e] k(1,4) run eM by simp
    moreover from beyond_round [OF inp d1 dM op fr run] uf
    have "unfinished s1 s2 st'" "\<exists>g' u'. frontier N M (d + 1) u' \<and> open_rows s1 s2 st' (d + 1) g' u'" by auto
    ultimately show ?thesis using eM unfolding marked_def len by fastforce
  next
    fix c assume c: "barrier s1 s2 st c g u" "- min (d - 1) M \<le> c" "c + 1 \<le> d - 1" "c + 1 = d - 1 \<longrightarrow> \<not> 10 dvd d" and ce: "c \<le> e"
    have bd: "bounds s1 s2 (low_k M d) (high_k N d)" using bounds_hold [OF inp d1] by (simp add: lower_upper [OF inp])
    note pf = barrier_facts [OF inp c(1)]
    have lc: "low_k M d \<le> c" using low_k_low [OF pos(2) d1] c(2) by simp
    have cup: "c < high_k N d" using room_inside [OF pos d1 fr, of "c + 1"] pf(4,6) by simp
    obtain k s where k: "Myers_round s1 s2 (low_k M d) (high_k N d) (low_k M d) st = Myers_round s1 s2 (low_k M d) (high_k N d) k s"
      "k = c + 1 \<or> k = c + 2" "even (k - low_k M d)" "barrier s1 s2 s c g u" "unfinished s1 s2 s" "\<forall>j\<ge>c. kept st s j"
      by (rule barrier_enter [OF inp bd c(1) uf lc cup])
    have be: "bottom s2 s e" using bottom_kept [OF _ e(1)] k(6) ce by blast
    have ke: "k \<le> e + 1"
    proof (cases "e = c")
      case True
      then have "k \<noteq> c + 2" using e(2) k(3) by presburger
      then show ?thesis using k(2) True by auto
    qed (use k(2) ce in auto)
    have run': "Myers_round s1 s2 (low_k M d) (high_k N d) k s = (st', None)" using k(1) run by simp
    have "\<exists>e'>e. bottom s2 st' e' \<and> odd (e' - low_k M (d + 1))"
      by (rule round_advances [OF inp d fr barrier_facts(1) [OF inp k(4)] _ _ _ k(3) run' k(5) ce _ be e(2) ke])
        (use k(2) pf(5) lc ce in auto)
    then obtain e' where e': "e < e'" "bottom s2 st' e' \<and> odd (e' - low_k M (d + 1))" by blast
    moreover from barrier_inv_round [OF inp d1 fr uf c run]
    have "unfinished s1 s2 st'" "\<exists>g' u'. frontier N M (d + 1) u' \<and> barrier s1 s2 st' c g' u' \<and> - min (d + 1 - 1) M \<le> c \<and> c + 1 \<le> d + 1 - 1 \<and>
       (c + 1 = d + 1 - 1 \<longrightarrow> \<not> 10 dvd (d + 1))" by auto
    moreover have "c \<le> e'" using e'(1) ce by simp
    ultimately have "marked s1 s2 st' (d + 1) e'" using e'(2) unfolding marked_def len by blast
    then show ?thesis using \<open>unfinished s1 s2 st'\<close> e'(1) by blast
  qed
qed

end
