(* ===== verification/Myers_Laws.thy ===== *)
theory Myers_Laws
  imports Myers_Rounds
begin

text \<open>
  Myers' algorithm returns, and its diff is correct, although it may read behind its arrays: the loop ends at the latest
  when the last diagonal at the end of the second sequence cannot move any more, and the path it ends with is a chain of
  snakes.
\<close>

section \<open>The first rounds when the sequences are equal\<close>

lemma init_put:
  "Myers_init s1 s2 =
     put \<lparr>V = FastInt32Array_new, paths = FastArrayNegativeIndices_new\<rparr> 0 (Some (getXAfterSnake s1 s2 0 0))
       (if FastInt32Array_get (FastInt32Array_set FastInt32Array_new 0 (Some (getXAfterSnake s1 s2 0 0))) 0 = Some 0 then None
        else Some (SnakePath None (Some 0) (Some 0)
          (FastInt32Array_get (FastInt32Array_set FastInt32Array_new 0 (Some (getXAfterSnake s1 s2 0 0))) 0)))"
  by (simp add: Myers_init_def put_def Let_def)

lemma init_open:
  assumes inp: "myers_input s1 s2 N M"
  shows "open_rows s1 s2 (Myers_init s1 s2) 1 0 0" and "frontier N M 1 0" and "10 \<le> nlen (Myers_init s1 s2)"
    and "gv (Myers_init s1 s2) (- 1) \<noteq> None"
proof -
  note len = input_lengths(1,2) [OF inp] and pos = input_lengths(3,4) [OF inp]
  let ?e = "\<lparr>V = FastInt32Array_new, paths = FastArrayNegativeIndices_new\<rparr> :: MyersState"
  let ?n = "getXAfterSnake s1 s2 0 0"
  have n: "0 \<le> ?n" "?n \<le> N" "?n \<le> M" "matches s1 s2 0 0 ?n" using snake_spec [OF inp, of 0 0] pos by auto
  have lens: "plen ?e = 10" "nlen ?e = 10" by (simp_all add: plen_def nlen_def FastInt32Array_new_def)
  have empty: "gv ?e j = None \<or> gv ?e j = Some 0" "gp ?e j = None" for j
    by (auto simp: gv_def gp_def FastInt32Array_get_def FastInt32Array_new_def FastArrayNegativeIndices_get_def FastArrayNegativeIndices_new_def
        js_at_def nth_Cons')
  have int: "case Some ?n of Some m \<Rightarrow> is_int32 m | None \<Rightarrow> True" using input_lengths(5) [OF inp, of ?n] n by simp
  have zero: "gv (put ?e 0 (Some ?n) p) 0 = Some ?n" for p using gv_put_same [OF _ int, of 0 ?e p] lens by simp
  have read: "FastInt32Array_get (FastInt32Array_set FastInt32Array_new 0 (Some ?n)) 0 = Some ?n"
    using zero [of None] by (simp add: gv_def put_def)
  define p where "p = (if ?n = 0 then None else Some (SnakePath None (Some 0) (Some 0) (Some ?n)))"
  have st: "Myers_init s1 s2 = put ?e 0 (Some ?n) p" unfolding init_put read p_def by simp
  have others: "gv (put ?e 0 (Some ?n) p) j = None \<or> gv (put ?e 0 (Some ?n) p) j = Some 0" if "j \<noteq> 0" for j
    by (rule unwritten_put [OF empty(1) that])
  have arr: "arrays_ok (put ?e 0 (Some ?n) p)" by (rule put_arrays) (simp add: arrays_ok_def lens)
  have sh0: "shape s1 s2 ?e"
    unfolding shape_def len
  proof (intro allI impI)
    fix k v assume "- M \<le> k \<and> gv ?e k = Some v"
    then have "v = 0" "- M \<le> k" using empty(1) [of k] by auto
    then show "0 \<le> v \<and> v \<le> N \<and> v - k \<le> M" using pos by simp
  qed
  have sh: "shape s1 s2 (put ?e 0 (Some ?n) p)" by (rule shape_put [OF inp sh0 refl]) (use n in auto)
  have gd: "good s1 s2 (put ?e 0 (Some ?n) p) 0"
    using zero [of p] n by (auto simp: good_def gp_put p_def len)
  have z: "zone s1 s2 (put ?e 0 (Some ?n) p) 0 0 0"
    using gd others unfolding zone_def by (auto simp: order_le_less)
  have fresh: "fresh (put ?e 0 (Some ?n) p) 0" using others by (simp add: fresh_def gp_put empty(2))
  show "open_rows s1 s2 (Myers_init s1 s2) 1 0 0"
    unfolding st using arr sh z fresh pos by (simp add: open_rows_def row_def len put_lengths lens)
  show nl: "10 \<le> nlen (Myers_init s1 s2)" unfolding st by (simp add: put_lengths lens)
  show "frontier N M 1 0" using pos by (simp add: frontier_def)
  show "gv (Myers_init s1 s2) (- 1) \<noteq> None" using nl gv_defined [of "Myers_init s1 s2" "- 1"] by simp
qed

text \<open>Two equal sequences: the end is reached at once, but the code looks for it only when a round comes to diagonal 0.\<close>

lemma finished_odd_round:
  assumes inp: "myers_input s1 s2 N N" and ten: "10 \<le> plen st" and "gv st 0 = Some N"
  obtains p where "Myers_round s1 s2 (- 1) 1 (- 1) st = (put st 1 (Some N) p, None)" "gv (put st 1 (Some N) p) 0 = Some N"
    "gv (put st 1 (Some N) p) 1 = Some N"
proof -
  note pos = input_lengths(3) [OF inp]
  have "top_of st 1 (- 1) = Some N" "left_of st (- 1) (- 1) = Some (- 1)" using assms(3) by (simp_all add: top_of_def left_of_def)
  then have first: "Myers_step s1 s2 (- 1) 1 (- 1) st = (st, False)" by (rule step_skip [OF inp]) (use pos in simp)
  have tl: "top_of st 1 1 = Some (- 1)" "left_of st (- 1) 1 = Some (N + 1)" using assms(3) by (simp_all add: top_of_def left_of_def)
  have n: "N = getXAfterSnake s1 s2 N (N - 1)" using snake_stuck [OF inp, of N "N - 1"] by simp
  obtain p where p: "Myers_step s1 s2 (- 1) 1 1 st = (put st 1 (Some N) p, False)"
    using step_regular [OF inp tl _ _ n] pos by auto
  have int: "case Some N of Some m \<Rightarrow> is_int32 m | None \<Rightarrow> True" using input_lengths(5) [OF inp, of N] pos by simp
  have "Myers_round s1 s2 (- 1) 1 (- 1) st = Myers_round s1 s2 (- 1) 1 (- 1 + 2) st" by (rule round_next [OF first]) simp_all
  also have "\<dots> = Myers_round s1 s2 (- 1) 1 (1 + 2) (put st 1 (Some N) p)" using round_next [OF p] by simp
  also have "\<dots> = (put st 1 (Some N) p, None)" by (subst Myers_round.simps) simp
  finally show thesis
    by (rule that) (use gv_put_other(1) [of 0 1 st N] assms(3) gv_put_same [OF _ int, of 1 st p] ten in auto)
qed

lemma finished_even_round:
  assumes inp: "myers_input s1 s2 N N" and "gv st 1 = Some N" and "gv st (- 1) \<noteq> None" and ten: "10 \<le> plen st"
  obtains s where "Myers_round s1 s2 (- 2) 2 (- 2) st = (s, Some 0)"
proof -
  note pos = input_lengths(3) [OF inp]
  obtain s f where s: "Myers_step s1 s2 (- 2) 2 (- 2) st = (s, f)" by fastforce
  have sp: "(s = st \<or> (\<exists>v p. s = put st (- 2) v p)) \<and> (f \<longrightarrow> N - - 2 = N)"
    by (rule step_put [OF inp, of "- 2" 2 "- 2" st]) (use s in auto)
  then have nf: "\<not> f" by simp
  have kp: "kept st s j" if "j \<noteq> - 2" for j using sp kept_put [OF that] by auto
  have top: "top_of s 2 0 = Some N" using kept_value [OF kp assms(2)] by (simp add: top_of_def)
  obtain w where "gv st (- 1) = Some w" using assms(3) by auto
  then have left: "left_of s (- 2) 0 = Some (w + 1)" using kept_value [OF kp, of "- 1" w] by (simp add: left_of_def)
  have x: "N = min (max N (w + 1)) N" by simp
  have n: "N = getXAfterSnake s1 s2 N (N - 0)" using snake_stuck [OF inp, of N N] by simp
  have ten': "10 \<le> plen s" using sp ten by (auto simp: put_lengths)
  have int: "case Some N of Some m \<Rightarrow> is_int32 m | None \<Rightarrow> True" using input_lengths(5) [OF inp, of N] pos by simp
  have "gv (put s 0 (Some N) p) 0 = Some N" for p using gv_put_same [OF _ int, of 0 s p] ten' by simp
  then obtain p where p: "Myers_step s1 s2 (- 2) 2 0 s = (put s 0 (Some N) p, True)"
    using step_regular [OF inp top left x _ n] pos by simp
  have "Myers_round s1 s2 (- 2) 2 (- 2) st = Myers_round s1 s2 (- 2) 2 (- 2 + 2) s" by (rule round_next [OF s nf]) simp
  also have "\<dots> = (put s 0 (Some N) p, Some 0)" using p by (subst Myers_round.simps) simp
  finally show thesis by (rule that)
qed

section \<open>The outer loop returns\<close>

definition returns_path :: "ISequence \<Rightarrow> ISequence \<Rightarrow> SnakePath option outcome option \<Rightarrow> bool" where
  "returns_path s1 s2 r \<longleftrightarrow> r = Some TimedOut \<or> (\<exists>p. r = Some (Computed p) \<and> path_ok s1 s2 p)"

lemma loop_round:
  assumes inp: "myers_input s1 s2 N M"
    and run: "Myers_round s1 s2 (low_k M d) (high_k N d) (low_k M d) st = (st', res)"
    and "\<forall>j. res = Some j \<longrightarrow> good s1 s2 st' j" and "res = None \<Longrightarrow> returns_path s1 s2 (Myers_loop s1 s2 timeout d st')"
  shows "returns_path s1 s2 (Myers_loop s1 s2 timeout (d - 1) st)"
proof -
  have "Myers_loop s1 s2 timeout (d - 1) st = (if \<not> timeout (nat (d - 1)) then Some TimedOut
      else (case res of Some k \<Rightarrow> Some (Computed (gp st' k)) | None \<Rightarrow> Myers_loop s1 s2 timeout d st'))"
    using run by (subst Myers_loop.simps) (simp add: lower_upper [OF inp] gp_def split: option.split)
  then show ?thesis
    using assms(3,4) by (cases res) (auto simp: returns_path_def good_def)
qed

lemma loop_marked:
  assumes inp: "myers_input s1 s2 N M" and "N + M + 2 \<le> d" and "marked s1 s2 st d e" and "unfinished s1 s2 st" and "myers_inv s1 s2 st d"
  shows "returns_path s1 s2 (Myers_loop s1 s2 timeout (d - 1) st)"
  using assms(2-)
proof (induction "nat (N - M - e)" arbitrary: d e st rule: less_induct)
  case less
  have d: "1 \<le> d" "M < d" using less.prems(1) input_lengths(3,4) [OF inp] by auto
  obtain st' res where run: "Myers_round s1 s2 (low_k M d) (high_k N d) (low_k M d) st = (st', res)" by fastforce
  note R = myers_inv_round [OF inp d(1) less.prems(4,3) run]
  show ?case
  proof (rule loop_round [OF inp run])
    show "\<forall>j. res = Some j \<longrightarrow> good s1 s2 st' j" using R by blast
    assume None: "res = None"
    then obtain e' where e': "e < e'" "marked s1 s2 st' (d + 1) e'" "unfinished s1 s2 st'"
      using marked_round [OF inp less.prems(1-3)] run by blast
    have "e' \<le> N - M" using marked_bound [OF inp _ e'(2)] d(2) by simp
    then have "returns_path s1 s2 (Myers_loop s1 s2 timeout (d + 1 - 1) st')"
      using less.hyps [of e' "d + 1" st'] e' less.prems(1) R None by simp
    then show "returns_path s1 s2 (Myers_loop s1 s2 timeout d st')" by simp
  qed
qed

lemma marked_exists:
  assumes inp: "myers_input s1 s2 N M" and "M < d" "odd d" and inv: "myers_inv s1 s2 st d"
  obtains e where "marked s1 s2 st d e"
proof -
  note len = input_lengths(1,2) [OF inp] and pos = input_lengths(3,4) [OF inp]
  have lo: "low_k M d = - M - 1" by (rule low_k_cases(3)) (use assms(2,3) pos in auto)
  obtain g u where fr: "frontier N M d u" and cases: "open_rows s1 s2 st d g u \<or>
    (\<exists>c. barrier s1 s2 st c g u \<and> - min (d - 1) M \<le> c \<and> c + 1 \<le> d - 1 \<and> (c + 1 = d - 1 \<longrightarrow> \<not> 10 dvd d))"
    using inv by (auto simp: myers_inv_def len)
  from cases show thesis
  proof (elim disjE exE conjE)
    assume op: "open_rows s1 s2 st d g u"
    have "min (d - 1) M = M" using assms(2) by simp
    then have "good s1 s2 st (- M)" using op by (simp add: open_rows_def row_def zone_def len)
    then have "gv st (- M) = Some 0" by (auto simp: good_def len)
    then have "marked s1 s2 st d (- M)" using op fr lo by (auto simp: marked_def len bottom_def)
    then show thesis by (rule that)
  next
    fix c assume c: "barrier s1 s2 st c g u" "- min (d - 1) M \<le> c" "c + 1 \<le> d - 1" "c + 1 = d - 1 \<longrightarrow> \<not> 10 dvd d"
    have "odd (c - low_k M d) \<or> odd (c + 1 - low_k M d)" by presburger
    then obtain e where e: "e = c \<or> e = c + 1" "odd (e - low_k M d)" by blast
    have "bottom s2 st e" using e(1) c(1) by (auto simp: barrier_def)
    moreover have "c \<le> e" using e(1) by auto
    ultimately have "marked s1 s2 st d e" using e(2) fr c unfolding marked_def len by blast
    then show thesis by (rule that)
  qed
qed

lemma loop_late:
  assumes inp: "myers_input s1 s2 N M" and d: "N + M + 2 \<le> d" "odd d" and "unfinished s1 s2 st" and inv: "myers_inv s1 s2 st d"
  shows "returns_path s1 s2 (Myers_loop s1 s2 timeout (d - 1) st)"
proof -
  have "M < d" using d(1) input_lengths(3) [OF inp] by simp
  then obtain e where "marked s1 s2 st d e" using marked_exists [OF inp _ d(2) inv] by blast
  from loop_marked [OF inp d(1) this assms(4) inv] show ?thesis .
qed

lemma loop_inv:
  assumes inp: "myers_input s1 s2 N M" and d: "1 \<le> d" and "unfinished s1 s2 st" and inv: "myers_inv s1 s2 st d"
    and rest: "\<And>s. unfinished s1 s2 s \<Longrightarrow> myers_inv s1 s2 s (d + 1) \<Longrightarrow> returns_path s1 s2 (Myers_loop s1 s2 timeout d s)"
  shows "returns_path s1 s2 (Myers_loop s1 s2 timeout (d - 1) st)"
proof -
  obtain st' res where run: "Myers_round s1 s2 (low_k M d) (high_k N d) (low_k M d) st = (st', res)" by fastforce
  from myers_inv_round [OF inp d inv assms(3) run] rest show ?thesis by (intro loop_round [OF inp run]) auto
qed

lemma loop_returns:
  assumes inp: "myers_input s1 s2 N M" and "1 \<le> d" and "unfinished s1 s2 st" and "myers_inv s1 s2 st d"
  shows "returns_path s1 s2 (Myers_loop s1 s2 timeout (d - 1) st)"
  using assms(2-)
proof (induction "nat (N + M + 2 - d)" arbitrary: d st rule: less_induct)
  case less
  show ?case
  proof (cases "N + M + 2 \<le> d")
    case True
    show ?thesis
    proof (cases "odd d")
      case odd: True
      then show ?thesis by (rule loop_late [OF inp True _ less.prems(2,3)])
    next
      case False
      show ?thesis
      proof (rule loop_inv [OF inp less.prems])
        fix s assume "unfinished s1 s2 s" "myers_inv s1 s2 s (d + 1)"
        then show "returns_path s1 s2 (Myers_loop s1 s2 timeout d s)" using loop_late [OF inp, of "d + 1" s timeout] True False by simp
      qed
    qed
  next
    case False
    show ?thesis
    proof (rule loop_inv [OF inp less.prems])
      fix s assume "unfinished s1 s2 s" "myers_inv s1 s2 s (d + 1)"
      then show "returns_path s1 s2 (Myers_loop s1 s2 timeout d s)" using less.hyps [of "d + 1" s] less.prems(1) False by simp
    qed
  qed
qed

lemma loop_equal:
  assumes inp: "myers_input s1 s2 N N" and eq: "gv (Myers_init s1 s2) 0 = Some N"
  shows "returns_path s1 s2 (Myers_loop s1 s2 timeout 0 (Myers_init s1 s2))"
proof -
  note pos = input_lengths(3) [OF inp]
  let ?s = "Myers_init s1 s2"
  have lo1: "low_k N 1 = - 1" "high_k N 1 = 1" using pos by (simp_all add: low_k_def high_k_def)
  have ten: "10 \<le> plen ?s" using init_open(1) [OF inp] by (auto simp: open_rows_def row_def arrays_ok_def dest: zdvd_imp_le)
  obtain p where p: "Myers_round s1 s2 (- 1) 1 (- 1) ?s = (put ?s 1 (Some N) p, None)" "gv (put ?s 1 (Some N) p) 0 = Some N"
    "gv (put ?s 1 (Some N) p) 1 = Some N" by (rule finished_odd_round [OF inp ten eq])
  let ?s1 = "put ?s 1 (Some N) p"
  have "\<exists>g' u'. frontier N N (1 + 1) u' \<and> open_rows s1 s2 ?s1 (1 + 1) g' u'"
    using open_round [OF inp _ _ init_open(1,2) [OF inp], of ?s1 None] init_open(3) [OF inp] p(1) pos lo1(2) by simp
  then obtain g1 u1 where op1: "frontier N N 2 u1" "open_rows s1 s2 ?s1 2 g1 u1" by auto
  have ten1: "10 \<le> plen ?s1" "10 \<le> nlen ?s1" using ten init_open(3) [OF inp] by (simp_all add: put_lengths)
  have m1: "gv ?s1 (- 1) \<noteq> None" using ten1 gv_defined [of ?s1 "- 1"] by simp
  have second: "returns_path s1 s2 (Myers_loop s1 s2 timeout 1 ?s1)"
  proof (cases "N = 1")
    case False
    then have two: "2 \<le> N" using pos by simp
    then have lo2: "low_k N 2 = - 2" "high_k N 2 = 2" by (simp_all add: low_k_def high_k_def)
    obtain s where s: "Myers_round s1 s2 (- 2) 2 (- 2) ?s1 = (s, Some 0)" by (rule finished_even_round [OF inp p(3) m1 ten1(1)])
    have "good s1 s2 s 0" using open_round [OF inp _ two op1(2,1), of s "Some 0"] ten1 s lo2(2) by simp
    then have "returns_path s1 s2 (Myers_loop s1 s2 timeout (2 - 1) ?s1)" by (intro loop_round [OF inp]) (use s lo2 in auto)
    then show ?thesis by simp
  next
    case True
    have lo2: "low_k N 2 = - 1" "high_k N 2 = 1" "low_k N 3 = - 2" "high_k N 3 = 2" by (simp_all add: low_k_def high_k_def True)
    obtain q where q: "Myers_round s1 s2 (- 1) 1 (- 1) ?s1 = (put ?s1 1 (Some N) q, None)" "gv (put ?s1 1 (Some N) q) 0 = Some N"
      "gv (put ?s1 1 (Some N) q) 1 = Some N" by (rule finished_odd_round [OF inp ten1(1) p(2)])
    let ?s2 = "put ?s1 1 (Some N) q"
    have "\<exists>g' u'. frontier N N (2 + 1) u' \<and> open_rows s1 s2 ?s2 (2 + 1) g' u'"
      using beyond_round [OF inp _ _ op1(2,1), of ?s2 None] q(1) lo2 True by simp
    then obtain g2 u2 where op2: "frontier N N 3 u2" "open_rows s1 s2 ?s2 3 g2 u2" by auto
    have ten2: "10 \<le> plen ?s2" "10 \<le> nlen ?s2" using ten1 by (simp_all add: put_lengths)
    have m2: "gv ?s2 (- 1) \<noteq> None" using ten2 gv_defined [of ?s2 "- 1"] by simp
    obtain s where s: "Myers_round s1 s2 (- 2) 2 (- 2) ?s2 = (s, Some 0)" by (rule finished_even_round [OF inp q(3) m2 ten2(1)])
    have "good s1 s2 s 0" using beyond_round [OF inp _ _ op2(2,1), of s "Some 0"] s lo2 True by simp
    then have "returns_path s1 s2 (Myers_loop s1 s2 timeout (3 - 1) ?s2)" by (intro loop_round [OF inp]) (use s lo2 in auto)
    then have "returns_path s1 s2 (Myers_loop s1 s2 timeout (2 - 1) ?s1)" by (intro loop_round [OF inp]) (use q lo2 in auto)
    then show ?thesis by simp
  qed
  have "returns_path s1 s2 (Myers_loop s1 s2 timeout (1 - 1) ?s)" by (rule loop_round [OF inp]) (use p(1) lo1 second in auto)
  then show ?thesis by simp
qed

lemma Myers_loop_returns:
  assumes inp: "myers_input s1 s2 N M"
  shows "returns_path s1 s2 (Myers_loop s1 s2 timeout 0 (Myers_init s1 s2))"
proof (cases "unfinished s1 s2 (Myers_init s1 s2)")
  case True
  have "myers_inv s1 s2 (Myers_init s1 s2) 1"
    using init_open(1,2) [OF inp] by (auto simp: myers_inv_def input_lengths(1,2) [OF inp])
  from loop_returns [OF inp _ True this] show ?thesis by fastforce
next
  case False
  then have eq: "gv (Myers_init s1 s2) (N - M) = Some N" by (simp add: unfinished_def input_lengths(1,2) [OF inp])
  have "N = M"
  proof (rule ccontr)
    assume "N \<noteq> M"
    then have "gv (Myers_init s1 s2) (N - M) = None \<or> gv (Myers_init s1 s2) (N - M) = Some 0"
      using init_open(1) [OF inp] by (cases "N - M < 0") (auto simp: open_rows_def fresh_def row_def zone_def input_lengths(2) [OF inp])
    then show False using eq input_lengths(3) [OF inp] by auto
  qed
  then show ?thesis using loop_equal eq inp by auto
qed

lemma Myers_loop_in_time:
  assumes "Myers_loop s1 s2 timeout d st = Some r" and "\<forall>n. timeout n"
  shows "r \<noteq> TimedOut"
proof -
  have "(\<forall>n. timeout n) \<longrightarrow> r \<noteq> TimedOut"
    by (rule Myers_loop.raw_induct [OF _ assms(1), of "\<lambda>s1 s2 timeout d st r. (\<forall>n. timeout n) \<longrightarrow> r \<noteq> TimedOut"])
      (auto split: if_splits prod.splits option.splits)
  then show ?thesis using assms(2) by blast
qed

section \<open>The differences along a path\<close>

lemma path_end_nonneg: "path_ok s1 s2 p \<Longrightarrow> 0 \<le> fst (path_end p) \<and> 0 \<le> snd (path_end p)"
  by (induction s1 s2 p rule: path_ok.induct) auto

lemma path_end_inside: "path_ok s1 s2 p \<Longrightarrow> 0 \<le> seq_length s1 \<Longrightarrow> 0 \<le> seq_length s2 \<Longrightarrow>
    fst (path_end p) \<le> seq_length s1 \<and> snd (path_end p) \<le> seq_length s2"
  by (induction s1 s2 p rule: path_ok.induct) auto

lemma path_diffs_aligned:
  assumes "path_ok s1 s2 p" and "fst (path_end p) \<le> l1" "snd (path_end p) \<le> l2" and "aligned s1 s2 l1 l2 acc" "apart acc"
    and "acc \<noteq> [] \<longrightarrow> l1 < start (seq1Range (hd acc))"
  shows "\<exists>ds. path_diffs p l1 l2 = Inr (Computed ds) \<and> aligned s1 s2 0 0 (rev ds @ acc) \<and> apart (rev ds @ acc)"
  using assms
proof (induction s1 s2 p arbitrary: l1 l2 acc rule: path_ok.induct)
  case (1 s1 s2)
  let ?d = "SequenceDiff_new (mk_offset 0 l1) (mk_offset 0 l2)"
  show ?case
  proof (cases "0 \<noteq> l1 \<or> 0 \<noteq> l2")
    case True
    have "apart (?d # acc)" using 1(5,6) by (cases acc) (auto simp: SequenceDiff_new_def)
    moreover have "aligned s1 s2 0 0 (?d # acc)" using 1(2-4) by (simp add: SequenceDiff_new_def)
    moreover have "path_diffs None l1 l2 = Inr (Computed [?d])" using True 1(2,3) by (simp add: OffsetRange_new_def)
    ultimately show ?thesis by (intro exI [of _ "[?d]"]) (unfold rev.simps append_Nil append_Cons, blast)
  next
    case False
    then show ?thesis using 1(4,5) by auto
  qed
next
  case (2 s1 s2 prev x y n)
  have n: "0 < n" "matches s1 s2 x y n" and pr: "fst (path_end prev) \<le> x" "snd (path_end prev) \<le> y" "path_ok s1 s2 prev" using 2(2) by auto
  have ends: "x + n \<le> l1" "y + n \<le> l2" using 2(3,4) by auto
  show ?case
  proof (cases "x + n \<noteq> l1 \<or> y + n \<noteq> l2")
    case True
    let ?d = "SequenceDiff_new (mk_offset (x + n) l1) (mk_offset (y + n) l2)"
    have "aligned s1 s2 (x + n) (y + n) (?d # acc)" using 2(5) ends by (simp add: SequenceDiff_new_def)
    then have "aligned s1 s2 (x + n - n) (y + n - n) (?d # acc)" by (rule aligned_extend) (use n in auto)
    then have al: "aligned s1 s2 x y (?d # acc)" by (simp only: add_diff_cancel_right')
    have "apart (?d # acc)" using 2(6,7) by (cases acc) (auto simp: SequenceDiff_new_def)
    moreover have "x < start (seq1Range (hd (?d # acc)))" using n by (simp add: SequenceDiff_new_def)
    ultimately obtain ds where ds: "path_diffs prev x y = Inr (Computed ds)" "aligned s1 s2 0 0 (rev ds @ ?d # acc)" "apart (rev ds @ ?d # acc)"
      using 2(1) [OF pr(3,1,2) al] by blast
    then show ?thesis using True ends by (intro exI [of _ "?d # ds"]) (auto simp: OffsetRange_new_def)
  next
    case False
    then have l: "l1 - n = x" "l2 - n = y" by auto
    have "aligned s1 s2 (l1 - n) (l2 - n) acc" by (rule aligned_extend [OF 2(5)]) (use n l in simp_all)
    then have al: "aligned s1 s2 x y acc" unfolding l .
    have "acc \<noteq> [] \<longrightarrow> x < start (seq1Range (hd acc))" using 2(7) n l by auto
    then show ?thesis using 2(1) [OF pr(3,1,2) al 2(6)] False by simp
  qed
qed auto

lemma compute_result:
  assumes "seq_wf s1" and "seq_wf s2" and "seq_length s1 < 2147483648"
  shows "\<exists>r. MyersDiffAlgorithm_compute s1 s2 timeout = Some (Inr (Computed r)) \<and> aligned s1 s2 0 0 (diffs r) \<and> apart (diffs r) \<and>
    ((\<forall>n. timeout n) \<longrightarrow> \<not> hitTimeout r)"
proof (cases "seq_length s1 = 0 \<or> seq_length s2 = 0")
  case True
  obtain r where r: "DiffAlgorithmResult_trivial s1 s2 = Inr r" "aligned s1 s2 0 0 (diffs r)" "apart (diffs r)"
    using aligned_trivial(1) [of s1 s2] assms by (auto simp: seq_wf_def)
  moreover have "\<not> hitTimeout r" using r(1) by (auto simp: DiffAlgorithmResult_trivial_def DiffAlgorithmResult_new_def)
  ultimately show ?thesis using True by (simp add: MyersDiffAlgorithm_compute_def)
next
  case False
  then have inp: "myers_input s1 s2 (seq_length s1) (seq_length s2)" using assms by (auto simp: myers_input_def seq_wf_def)
  from Myers_loop_returns [OF this, of timeout]
  consider "Myers_loop s1 s2 timeout 0 (Myers_init s1 s2) = Some TimedOut"
    | p where "Myers_loop s1 s2 timeout 0 (Myers_init s1 s2) = Some (Computed p)" "path_ok s1 s2 p" by (auto simp: returns_path_def)
  then show ?thesis
  proof cases
    case 1
    obtain r where "DiffAlgorithmResult_trivialTimedOut s1 s2 = Inr r" "aligned s1 s2 0 0 (diffs r)" "apart (diffs r)"
      using aligned_trivial(2) [of s1 s2] assms by (auto simp: seq_wf_def)
    then show ?thesis using 1 False Myers_loop_in_time [OF 1] by (auto simp: MyersDiffAlgorithm_compute_def)
  next
    case 2
    have "fst (path_end p) \<le> seq_length s1" "snd (path_end p) \<le> seq_length s2"
      using path_end_inside [OF 2(2)] assms by (auto simp: seq_wf_def)
    from path_diffs_aligned [OF 2(2) this, of "[]"]
    obtain ds where "path_diffs p (seq_length s1) (seq_length s2) = Inr (Computed ds)" "aligned s1 s2 0 0 (rev ds)" "apart (rev ds)" by auto
    then show ?thesis using 2(1) False by (auto simp: MyersDiffAlgorithm_compute_def DiffAlgorithmResult_new_def)
  qed
qed

section \<open>Correctness\<close>

text \<open>C26: Myers' diff returns and is correct on all sequences, whatever the clock: its outer loop, which has no bound, always
  comes to an end; it throws nothing and computes with no NaN in the end, although it may read behind the end of its typed
  arrays; its differences are in order with an element between two of them, the sequences agree outside them, and
  replacing them turns the first sequence into the second; the result is one for a timeout only when the clock has run
  out.  The first sequence has less than 2^31 elements, as its offsets are stored in 32 bits.
\<close>

lemma MyersDiffAlgorithm_compute_correct:
  assumes "seq_wf s1" and "seq_wf s2" and "seq_length s1 < 2147483648"
  shows "\<exists>r. MyersDiffAlgorithm_compute s1 s2 timeout = Some (Inr (Computed r)) \<and> aligned s1 s2 0 0 (diffs r) \<and> apart (diffs r) \<and>
    patch s1 s2 0 (diffs r) = elements s2 \<and> (hitTimeout r \<longrightarrow> (\<exists>n. \<not> timeout n))"
  using compute_result [OF assms, of timeout] aligned_patch [of s1 s2 0 0] unfolding elements_def by blast

lemma MyersDiffAlgorithm_compute_correct_witness:
  "\<exists>r. MyersDiffAlgorithm_compute (list_sequence [1, 2, 3]) (list_sequence [2, 3, 4]) InfiniteTimeout = Some (Inr (Computed r)) \<and>
     patch (list_sequence [1, 2, 3]) (list_sequence [2, 3, 4]) 0 (diffs r) = List.map Some [2, 3, 4] \<and> \<not> hitTimeout r"
proof -
  have "elements (list_sequence [2, 3, 4]) = List.map Some [2, 3, 4]" "seq_length (list_sequence [1, 2, 3]) < 2147483648" by code_simp+
  then show ?thesis
    using MyersDiffAlgorithm_compute_correct [OF list_sequence_wf [of "[1, 2, 3]"] list_sequence_wf [of "[2, 3, 4]"], of InfiniteTimeout]
    by (auto simp: InfiniteTimeout_def)
qed

end
