(* ===== verification/Spec2Isabelle.thy ===== *)
theory Spec2Isabelle
  imports Prelude Arrays_Find Positions Interval_Sets Offset_Ranges Line_Ranges
    Edits Edit_Laws String_Edits Array_Edits Prefix_Sums Linked_Maps Key_Maps
    Js_Numbers Context_Keys Context_Laws Context_Termination Context_Scanner Context_Parser Context_Roundtrip
    Text_Lengths Text_Positions Text_Edits Text_Edit_Laws Text_Compose Line_Edits Line_Edit_Laws
    Diff_Sequences Dynamic_Diff Diff_Heuristics Myers_Diff Myers_Steps Myers_Rounds Myers_Laws
begin

text \<open>
  A verification library for the editor's core data structures and for its when-clauses.  File names are under
  \<open>src/src/vs/\<close>.

  The program.  The repository is an editor written in TypeScript.  Most of it is user interface and glue to the
  platform; its logic of its own sits in layers of plain data structures, and these are what the library models:
  coordinates of a text (\<open>editor/common/core\<close>: positions, ranges, selections, offset and line ranges, text lengths and the
  translation between offsets and positions), edits of a text (\<open>editor/common/core/edits\<close>: the generic edit and its
  string, array, length, text and line forms), searches and containers below them (\<open>base/common\<close>), the prefix sums
  that find the line of an offset in a text model (\<open>editor/common/model\<close>), the diff of two sequences of lines
  (\<open>editor/common/diff\<close>), and the boolean expressions over
  context keys that decide which command a key or menu runs (\<open>platform/contextkey/common\<close>).

  How the parts call each other.  \<open>TextEdit\<close> and \<open>LineEdit\<close> convert to \<open>StringEdit\<close> through the transformer of a text,
  which searches its table of line starts with the binary search of \<open>arraysFind.ts\<close>; \<open>StringEdit\<close>, \<open>ArrayEdit\<close> and
  \<open>LengthEdit\<close> are \<open>BaseEdit\<close> with their own replacements; the edits throw where \<open>OffsetRange\<close> does.  \<open>LRUCache\<close> is a
  \<open>LinkedMap\<close> with a limit.  The when-clause parser drives the scanner and calls the normalising constructors.

  Theories, in the order of their imports.
    \<^item> \<open>Prelude\<close>: exceptions as the left side of a sum (\<open>result\<close>), JavaScript's array and string accesses with what
      they do out of range, \<open>x | 0\<close>, the stable sort, and the locale of comparators.
    \<^item> \<open>Arrays_Find\<close>: \<open>base/common/arraysFind.ts\<close>.  The binary searches find what the linear ones find.
    \<^item> \<open>Positions\<close>: \<open>position.ts\<close>, \<open>range.ts\<close>, \<open>selection.ts\<close>.  A position is linearly ordered (an instance of
      \<open>linorder\<close>), a range stands for a set of positions.
    \<^item> \<open>Interval_Sets\<close>, \<open>Offset_Ranges\<close>, \<open>Line_Ranges\<close>: \<open>ranges/offsetRange.ts\<close>, \<open>ranges/lineRange.ts\<close>.  The locale
      \<open>half_open\<close> holds what both have in common.  Both range sets keep their invariant and refine sets of numbers.
    \<^item> \<open>Edits\<close>, \<open>Edit_Laws\<close>: \<open>edits/edit.ts\<close>, generic in the replacement, and the locale \<open>replacement\<close> in which
      normalisation, composition and splitting are proved.  \<open>String_Edits\<close> and \<open>Array_Edits\<close> (\<open>edits/stringEdit.ts\<close>,
      \<open>arrayEdit.ts\<close>, \<open>lengthEdit.ts\<close>) interpret it; rebasing, swapping, inverting and normalising against a source are
      proved for strings.
    \<^item> \<open>Text_Lengths\<close>, \<open>Text_Positions\<close>: \<open>text/textLength.ts\<close>, \<open>text/positionToOffsetImpl.ts\<close>, \<open>text/abstractText.ts\<close>.
      \<open>unit_length\<close> is a homomorphism from texts to lengths; offsets that do not split a line break correspond to
      positions.  The locale \<open>abstract_text\<close> is what the clients of a text rely on.
    \<^item> \<open>Text_Edits\<close>, \<open>Text_Edit_Laws\<close>, \<open>Text_Compose\<close>: \<open>edits/textEdit.ts\<close>.  A text edit within a text is located at
      the offsets of a string edit with the same effect (\<open>located\<close>); application, normalisation, inverse and new
      ranges follow the string edit, and the walk of \<open>compose\<close> keeps an invariant (\<open>walk\<close>, \<open>emitted\<close>) that makes its
      result the sequential composition.
    \<^item> \<open>Line_Edits\<close>, \<open>Line_Edit_Laws\<close>: \<open>edits/lineEdit.ts\<close>.  A line edit has the effect of a generic edit on the list of
      lines (\<open>line_apply\<close>); a text edit converts to a line edit with the same effect, and back when a line stays between two
      replacements (\<open>line_gaps\<close>), without which \<open>toEdit\<close> may throw (\<open>toEdit_adjacent_deletions\<close>).
    \<^item> \<open>Diff_Sequences\<close>, \<open>Dynamic_Diff\<close>, \<open>Diff_Heuristics\<close>: under \<open>editor/common/diff/defaultLinesDiffComputer\<close>
      \<open>algorithms/diffAlgorithm.ts\<close> and \<open>lineSequence.ts\<close>, \<open>algorithms/dynamicProgrammingDiffing.ts\<close>, and the passes of
      \<open>heuristicSequenceOptimizations.ts\<close>.  \<open>aligned\<close> is the contract of a diff: outside its ranges the sequences agree; read
      as an edit it then turns the first sequence into the second (\<open>aligned_patch\<close>).  The dynamic programming
      establishes the contract whatever the scores, and every pass keeps it on sequences that satisfy the locale
      \<open>diff_sequence\<close>, as those of lines do.
    \<^item> \<open>Myers_Diff\<close>, \<open>Myers_Steps\<close>, \<open>Myers_Rounds\<close>, \<open>Myers_Laws\<close>: \<open>algorithms/myersDiffAlgorithm.ts\<close>.  The model keeps the
      growing typed arrays, whose reads behind the end give NaN; the laws follow one step, one round and the outer loop.
      The loop ends since the furthest points move on until a diagonal meets the end of both sequences (\<open>myers_inv\<close>,
      \<open>barrier\<close>), and the stored paths are chains of matching snakes (\<open>path_ok\<close>), so the contract holds.
    \<^item> \<open>Prefix_Sums\<close>: \<open>editor/common/model/prefixSumComputer.ts\<close>, \<open>base/common/uint.ts\<close>.  The caches of both computers are
      right on the part their invariant trusts; both satisfy the locale \<open>index_lookup\<close>.
    \<^item> \<open>Linked_Maps\<close>, \<open>Key_Maps\<close>: \<open>base/common/map.ts\<close>.  The doubly linked list lives in a store of items indexed by
      address and refines an association list; the locale \<open>eviction\<close> covers both caches.
    \<^item> \<open>Js_Numbers\<close>: comparison and rounding of the language's numbers.  \<open>double_of\<close> rounds a rational to the next double.
    \<^item> \<open>Context_Keys\<close>, \<open>Context_Laws\<close>, \<open>Context_Termination\<close>: \<open>platform/contextkey/common/contextkey.ts\<close>.  The class
      hierarchy is the datatype \<open>ck_expr\<close>; a method that every class implements is one function \<open>ck_...\<close> with an
      equation per class, of which the map names the method of one class.  \<open>Context_Scanner\<close>, \<open>Context_Parser\<close>,
      \<open>Context_Roundtrip\<close>: \<open>scanner.ts\<close> and the class \<open>Parser\<close>.

  Conventions.  A class with read-only fields is a record or datatype, a mutable object a record passed through the
  operations.  Lines, columns, offsets and lengths are \<open>int\<close>: the code's numbers here are far below \<open>2 ^ 53\<close>.  Where the
  code truncates (\<open>Uint32Array\<close>, \<open>| 0\<close>) values are words or wrap explicitly.  Where rounding, NaN or
  an infinity shows (ratios of caches, scores of diffs, numbers of when-clauses) a number is one of \<open>Js_Numbers\<close>.
  Strings of texts are lists of UTF-16 code
  units (\<open>text16\<close>); the strings of when-clauses are \<open>string\<close>, so their characters are the code units up to \<open>0xFF\<close>.
  \<open>undefined\<close> is None.  A thrown exception is \<open>Inl\<close> of a kind of error, without its message.  \<open>assertFn\<close> reports to the error
  handler and goes on, so the check of the constructor of \<open>TextEdit\<close> is a predicate (\<open>TextEdit_check\<close>).

  Fuel and bounds.  Three loops could run forever as far as their text goes and are partial functions: the binary search
  of the prefix sums, \<open>forEach\<close> of a linked map and the rounds of Myers; the theorems about them include that they return.
  All other loops are total functions, by recursion on a list or with a measure.  The mutual recursion of normalisation and negation
  in \<open>contextkey.ts\<close> goes through \<open>ck_run\<close> with fuel; \<open>Context_Termination\<close> shows that on every well-formed expression all fuel
  from some point on gives one and the same answer.  The parser's recursion has the number of tokens plus two as
  fuel, which \<open>Context_Parser\<close> shows to be enough.  Text edits assume texts shorter than \<open>Number.MAX_SAFE_INTEGER\<close>, longer than
  any string an engine can hold, since \<open>rangeFromPositions\<close> gives that column a meaning.  Prefix sum lookups assume
  totals below \<open>2 ^ 32\<close> and fewer than \<open>2 ^ 31\<close> values, as the cached index and the middle of the search are 32 bits wide;
  the diff of Myers stores offsets in 32 bits, so its first sequence is shorter than \<open>2 ^ 31\<close>.

  Parameters.  The engine behind regular expressions (construction and matching, flags and \<open>lastIndex\<close> aside), number formatting,
  lower casing and the platform test are fields of the host records \<open>ck_host\<close> and an argument \<open>R\<close> of the parser.

  Not modelled.  String conversions for debugging; \<open>StringEdit.parse\<close>; the \<open>map\<close> of context key expressions over a mapper,
  \<open>RawContextKey\<close> and the context key service; the piece tree text buffer and the text model with its decorations,
  tokenisation and undo stack, which mutate shared trees and fire events; the passes over characters, moved lines and the driver of the diff;
  the workbench, platform services and extensions, whose work is to drive the DOM, Node or Electron; the build.
\<close>

end
